(* ===== verification/Prelude.thy ===== *)
theory Prelude
  imports Complex_Main "HOL-Library.AList"
begin

text \<open>
  Shared vocabulary of the development: Python exceptions and results, dictionaries with
  insertion order as association lists, Python slices, IEEE comparison of floats, JSON-like
  values, and the generic list lemmas the components use. Nothing here is specific to one
  source file.
\<close>

named_theorems model_defs \<open>unfolding rules of the small definitions of the model\<close>

section \<open>Exceptions and results\<close>

text \<open>
  Every \<open>raise\<close> of the source is a value. The human-readable text of an exception is not
  modelled, its class is.
\<close>

datatype py_exc =
    ValueError
  | KeyError
  | TypeError
  | RuntimeError
  | AssertionError
  | AttributeError
  | IndexError
  | OverflowError
  | OSError
  | InvalidUpdateError
  | EmptyInputError
  | EmptyChannelError
  | InvalidNamespaceError
  | StopIteration
  | UnboundLocalError
  | PromptError
  | ModelError string

type_synonym 'a result = "py_exc + 'a"

fun is_ok :: "'a result \<Rightarrow> bool" where
  "is_ok (Inr _) = True"
| "is_ok (Inl _) = False"

section \<open>Dictionaries\<close>

text \<open>
  A Python \<open>dict\<close> iterates in insertion order: assigning an existing key keeps its place,
  a new key goes to the end. That is what \<^const>\<open>AList.update\<close> does on an association list.
\<close>

type_synonym ('k, 'v) dict = "('k \<times> 'v) list"

abbreviation dict_get :: "('k, 'v) dict \<Rightarrow> 'k \<Rightarrow> 'v option" where
  "dict_get d k \<equiv> map_of d k"

abbreviation dict_set :: "'k \<Rightarrow> 'v \<Rightarrow> ('k, 'v) dict \<Rightarrow> ('k, 'v) dict" where
  "dict_set k v d \<equiv> AList.update k v d"

abbreviation dict_del :: "'k \<Rightarrow> ('k, 'v) dict \<Rightarrow> ('k, 'v) dict" where
  "dict_del k d \<equiv> AList.delete k d"

definition dict_getd :: "('k, 'v) dict \<Rightarrow> 'k \<Rightarrow> 'v \<Rightarrow> 'v" where
  "dict_getd d k v = (case map_of d k of None \<Rightarrow> v | Some w \<Rightarrow> w)"

definition wf_dict :: "('k, 'v) dict \<Rightarrow> bool" where
  "wf_dict d \<longleftrightarrow> distinct (map fst d)"

lemma dict_get_set [simp]: "dict_get (dict_set k v d) k' = (if k' = k then Some v else dict_get d k')"
  by (simp add: AList.update_conv)

lemma dict_get_del [simp]: "dict_get (dict_del k d) k' = (if k' = k then None else dict_get d k')"
  by (simp add: AList.delete_conv)

lemma wf_dict_set [simp]: "wf_dict d \<Longrightarrow> wf_dict (dict_set k v d)"
  by (simp add: wf_dict_def AList.distinct_update)

lemma wf_dict_del [simp]: "wf_dict d \<Longrightarrow> wf_dict (dict_del k d)"
  by (simp add: wf_dict_def AList.distinct_delete)

lemma wf_dict_Nil [simp]: "wf_dict []"
  by (simp add: wf_dict_def)

section \<open>Floats, as far as they are compared\<close>

text \<open>
  The modelled code compares floats, takes absolute values and tests finiteness, and does no
  arithmetic on them. A finite double is the rational number it denotes, so these operations
  are exact; a comparison with a NaN is false, as in IEEE 754.
\<close>

datatype pyfloat = Fin rat | PosInf | NegInf | NaN

fun isfinite :: "pyfloat \<Rightarrow> bool" where
  "isfinite (Fin _) = True"
| "isfinite _ = False"

fun fabs :: "pyfloat \<Rightarrow> pyfloat" where
  "fabs (Fin q) = Fin \<bar>q\<bar>"
| "fabs NegInf = PosInf"
| "fabs x = x"

fun fgt :: "pyfloat \<Rightarrow> pyfloat \<Rightarrow> bool" where
  "fgt (Fin a) (Fin b) = (b < a)"
| "fgt PosInf (Fin _) = True"
| "fgt PosInf NegInf = True"
| "fgt (Fin _) NegInf = True"
| "fgt _ _ = False"

lemma fgt_NaN [simp]: "\<not> fgt NaN x" "\<not> fgt x NaN"
  by (cases x; simp)+

lemma isfinite_iff: "isfinite x \<longleftrightarrow> (\<exists>q. x = Fin q)"
  by (cases x) auto

section \<open>Values\<close>

text \<open>The values that cross the modelled interfaces: tool arguments, store values, payloads.\<close>

datatype pyval =
    PNone
  | PBool bool
  | PInt int
  | PFloat pyfloat
  | PStr string
  | PList "pyval list"
  | PDict "(string \<times> pyval) list"

type_synonym pydict = "(string, pyval) dict"

text \<open>Python truthiness.\<close>

fun truthy :: "pyval \<Rightarrow> bool" where
  "truthy PNone = False"
| "truthy (PBool b) = b"
| "truthy (PInt i) = (i \<noteq> 0)"
| "truthy (PFloat f) = (f \<noteq> Fin 0)"
| "truthy (PStr s) = (s \<noteq> [])"
| "truthy (PList xs) = (xs \<noteq> [])"
| "truthy (PDict d) = (d \<noteq> [])"

text \<open>
  The built-in \<open>float(v)\<close>. A numeric string is its exact decimal value (a double rounds it),
  with Python's spellings of the special values; digit groups with underscores are not read.
  Integers convert exactly, which is what Python does up to 2 ^ 53.
\<close>

definition is_space :: "char \<Rightarrow> bool" where
  "is_space c \<longleftrightarrow> of_char c \<in> {9::nat, 10, 11, 12, 13, 28, 29, 30, 31, 32, 133, 160}"

definition lstrip :: "string \<Rightarrow> string" where
  "lstrip s = dropWhile is_space s"

definition rstrip :: "string \<Rightarrow> string" where
  "rstrip s = rev (dropWhile is_space (rev s))"

definition strip :: "string \<Rightarrow> string" where
  "strip s = rstrip (lstrip s)"

definition is_digit :: "char \<Rightarrow> bool" where
  "is_digit c \<longleftrightarrow> (48::nat) \<le> of_char c \<and> of_char c \<le> (57::nat)"

definition lower_char :: "char \<Rightarrow> char" where
  "lower_char c = (if (65::nat) \<le> of_char c \<and> of_char c \<le> (90::nat) \<or>
      (192::nat) \<le> of_char c \<and> of_char c \<le> (222::nat) \<and> of_char c \<noteq> (215::nat)
     then char_of (of_char c + (32::nat)) else c)"

definition lower :: "string \<Rightarrow> string" where
  "lower s = map lower_char s"

definition digits_value :: "string \<Rightarrow> nat" where
  "digits_value s = foldl (\<lambda>n c. 10 * n + (of_char c - 48)) 0 s"

definition parse_exponent :: "string \<Rightarrow> rat option" where
  "parse_exponent s =
     (case s of
        [] \<Rightarrow> Some 1
      | c # r \<Rightarrow>
          if c \<noteq> CHR ''e'' then None
          else (let neg = (take 1 r = ''-''); ds = (if take 1 r \<in> {''-'', ''+''} then drop 1 r else r) in
                if ds = [] \<or> \<not> list_all is_digit ds then None
                else Some (if neg then 1 / 10 ^ digits_value ds else 10 ^ digits_value ds)))"

definition parse_decimal :: "string \<Rightarrow> rat option" where
  "parse_decimal s =
     (let ip = takeWhile is_digit s; r = dropWhile is_digit s;
          fp = (if take 1 r = ''.'' then takeWhile is_digit (drop 1 r) else []);
          ex = (if take 1 r = ''.'' then dropWhile is_digit (drop 1 r) else r)
      in if ip = [] \<and> fp = [] then None
         else map_option (\<lambda>e. of_nat (digits_value (ip @ fp)) / 10 ^ length fp * e) (parse_exponent ex))"

definition parse_float :: "string \<Rightarrow> pyfloat option" where
  "parse_float s =
     (let t = lower (strip s); neg = (take 1 t = ''-'');
          body = (if take 1 t \<in> {''-'', ''+''} then drop 1 t else t)
      in if body = ''nan'' then Some NaN
         else if body \<in> {''inf'', ''infinity''} then Some (if neg then NegInf else PosInf)
         else map_option (\<lambda>q. Fin (if neg then - q else q)) (parse_decimal body))"

fun py_float :: "pyval \<Rightarrow> pyfloat result" where
  "py_float (PFloat f) = Inr f"
| "py_float (PInt i) = Inr (Fin (of_int i))"
| "py_float (PBool b) = Inr (Fin (if b then 1 else 0))"
| "py_float (PStr s) = (case parse_float s of Some f \<Rightarrow> Inr f | None \<Rightarrow> Inl ValueError)"
| "py_float _ = Inl TypeError"

section \<open>Lists\<close>

text \<open>The slice \<open>xs[-n:]\<close>: the last \<open>n\<close> elements, and all of them for \<open>n = 0\<close>.\<close>

definition last_n :: "nat \<Rightarrow> 'a list \<Rightarrow> 'a list" where
  "last_n n xs = (if n = 0 then xs else drop (length xs - n) xs)"

text \<open>Position of the last element that satisfies \<open>P\<close>, as the \<open>for\<close> loops that keep the
  last matching index compute it.\<close>

fun last_index_from :: "('a \<Rightarrow> bool) \<Rightarrow> nat \<Rightarrow> 'a list \<Rightarrow> nat option \<Rightarrow> nat option" where
  "last_index_from P i [] acc = acc"
| "last_index_from P i (x # xs) acc = last_index_from P (Suc i) xs (if P x then Some i else acc)"

definition last_index :: "('a \<Rightarrow> bool) \<Rightarrow> 'a list \<Rightarrow> nat option" where
  "last_index P xs = last_index_from P 0 xs None"

lemma last_index_from_append:
  "last_index_from P i (xs @ ys) acc = last_index_from P (i + length xs) ys (last_index_from P i xs acc)"
  by (induction xs arbitrary: i acc) auto

lemma last_index_snoc:
  "last_index P (xs @ [x]) = (if P x then Some (length xs) else last_index P xs)"
  by (simp add: last_index_def last_index_from_append)

lemma last_index_Nil [simp]: "last_index P [] = None"
  by (simp add: last_index_def)

lemma last_index_None_iff: "last_index P xs = None \<longleftrightarrow> (\<forall>x \<in> set xs. \<not> P x)"
  by (induction xs rule: rev_induct) (auto simp: last_index_snoc)

lemma last_index_SomeD:
  "last_index P xs = Some i \<Longrightarrow> i < length xs \<and> P (xs ! i) \<and> (\<forall>j. i < j \<and> j < length xs \<longrightarrow> \<not> P (xs ! j))"
proof (induction xs arbitrary: i rule: rev_induct)
  case Nil
  then show ?case by simp
next
  case (snoc x xs)
  then show ?case
    by (auto simp: last_index_snoc nth_append less_Suc_eq split: if_splits)
qed

lemma concat_map_single [simp]: "concat (map (\<lambda>x. [x]) xs) = xs"
  by (induction xs) auto

lemma filter_eq_NilI: "(\<And>x. x \<in> set xs \<Longrightarrow> \<not> P x) \<Longrightarrow> filter P xs = []"
  by (simp add: filter_empty_conv)

end
