(* ===== verification/Channels.thy ===== *)
theory Channels
  imports Prelude
begin

text \<open>
  \<open>langgraph/channels\<close>: the channel types of the graph runtime. Each type has its own state and
  operations, translated class by class; the locale \<open>channel\<close> states the contract of the abstract
  base class, \<open>durable_channel\<close> adds that a checkpoint restores the channel, and both are interpreted
  on the classes. \<open>MISSING\<close> and an EmptyChannelError of \<open>get\<close> are \<open>None\<close>.
\<close>

section \<open>Values and overwrites\<close>

text \<open>A written value is a plain value or an \<open>Overwrite\<close> object (\<open>langgraph/types.py\<close>).\<close>

datatype cval = Plain pyval | Overwrite pyval

text \<open>\<open>_get_overwrite\<close> of \<open>binop.py\<close>: the object, or a dict with the single key \<open>__overwrite__\<close>.\<close>

fun get_overwrite :: "cval \<Rightarrow> pyval option" where
  "get_overwrite (Overwrite v) = Some v"
| "get_overwrite (Plain (PDict [(k, v)])) = (if k = ''__overwrite__'' then Some v else None)"
| "get_overwrite (Plain _) = None"

text \<open>Every update, consume and finish answers whether the channel changed.\<close>

type_synonym 's change = "bool \<times> 's"

section \<open>LastValue and AnyValue\<close>

text \<open>The state is the value; the type and key of a channel are left out.\<close>

type_synonym slot = "cval option"

definition last_value_update :: "cval list \<Rightarrow> slot \<Rightarrow> slot change result" where
  "last_value_update vs s =
     (if length vs = 0 then Inr (False, s)
      else if length vs \<noteq> 1 then Inl InvalidUpdateError
      else Inr (True, Some (last vs)))"

definition slot_restore :: "slot \<Rightarrow> cval option \<Rightarrow> slot" where
  "slot_restore s chk = (case chk of None \<Rightarrow> None | Some v \<Rightarrow> Some v)"

definition any_value_update :: "cval list \<Rightarrow> slot \<Rightarrow> slot change result" where
  "any_value_update vs s =
     (if length vs = 0 then Inr (s \<noteq> None, None) else Inr (True, Some (last vs)))"

section \<open>LastValueAfterFinish\<close>

record finish_slot =
  fin_value :: "cval option"
  finished :: bool

definition finish_slot_checkpoint :: "finish_slot \<Rightarrow> (cval \<times> bool) option" where
  "finish_slot_checkpoint s = (case fin_value s of None \<Rightarrow> None | Some v \<Rightarrow> Some (v, finished s))"

definition finish_slot_restore :: "finish_slot \<Rightarrow> (cval \<times> bool) option \<Rightarrow> finish_slot" where
  "finish_slot_restore s chk =
     (case chk of None \<Rightarrow> \<lparr>fin_value = None, finished = False\<rparr>
                | Some (v, f) \<Rightarrow> \<lparr>fin_value = Some v, finished = f\<rparr>)"

definition finish_slot_update :: "cval list \<Rightarrow> finish_slot \<Rightarrow> finish_slot change result" where
  "finish_slot_update vs s =
     (if length vs = 0 then Inr (False, s) else Inr (True, \<lparr>fin_value = Some (last vs), finished = False\<rparr>))"

definition finish_slot_consume :: "finish_slot \<Rightarrow> finish_slot change" where
  "finish_slot_consume s = (if finished s then (True, \<lparr>fin_value = None, finished = False\<rparr>) else (False, s))"

definition finish_slot_finish :: "finish_slot \<Rightarrow> finish_slot change" where
  "finish_slot_finish s = (if \<not> finished s \<and> fin_value s \<noteq> None then (True, s\<lparr>finished := True\<rparr>) else (False, s))"

definition finish_slot_get :: "finish_slot \<Rightarrow> cval option" where
  "finish_slot_get s = (if fin_value s = None \<or> \<not> finished s then None else fin_value s)"

definition finish_slot_available :: "finish_slot \<Rightarrow> bool" where
  "finish_slot_available s \<longleftrightarrow> fin_value s \<noteq> None \<and> finished s"

section \<open>EphemeralValue and UntrackedValue\<close>

record guarded_slot =
  guard :: bool
  gs_value :: "cval option"

definition guarded_restore :: "guarded_slot \<Rightarrow> cval option \<Rightarrow> guarded_slot" where
  "guarded_restore s chk = \<lparr>guard = guard s, gs_value = chk\<rparr>"

definition ephemeral_update :: "cval list \<Rightarrow> guarded_slot \<Rightarrow> guarded_slot change result" where
  "ephemeral_update vs s =
     (if length vs = 0 then (if gs_value s \<noteq> None then Inr (True, s\<lparr>gs_value := None\<rparr>) else Inr (False, s))
      else if length vs \<noteq> 1 \<and> guard s then Inl InvalidUpdateError
      else Inr (True, s\<lparr>gs_value := Some (last vs)\<rparr>))"

definition untracked_update :: "cval list \<Rightarrow> guarded_slot \<Rightarrow> guarded_slot change result" where
  "untracked_update vs s =
     (if length vs = 0 then Inr (False, s)
      else if length vs \<noteq> 1 \<and> guard s then Inl InvalidUpdateError
      else Inr (True, s\<lparr>gs_value := Some (last vs)\<rparr>))"

definition untracked_checkpoint :: "guarded_slot \<Rightarrow> cval option" where
  "untracked_checkpoint s = None"

definition untracked_restore :: "guarded_slot \<Rightarrow> cval option \<Rightarrow> guarded_slot" where
  "untracked_restore s chk = \<lparr>guard = guard s, gs_value = None\<rparr>"

section \<open>Topic\<close>

record topic =
  accumulate :: bool
  topic_values :: "cval list"

fun flatten_value :: "cval \<Rightarrow> cval list" where
  "flatten_value (Plain (PList vs)) = map Plain vs"
| "flatten_value v = [v]"

definition topic_update :: "cval list \<Rightarrow> topic \<Rightarrow> topic change result" where
  "topic_update vs s =
     (let s1 = (if accumulate s then s else s\<lparr>topic_values := []\<rparr>);
          updated = (\<not> accumulate s \<and> topic_values s \<noteq> []);
          flat = concat (map flatten_value vs)
      in if flat \<noteq> [] then Inr (True, s1\<lparr>topic_values := topic_values s1 @ flat\<rparr>) else Inr (updated, s1))"

definition topic_get :: "topic \<Rightarrow> cval list option" where
  "topic_get s = (if topic_values s \<noteq> [] then Some (topic_values s) else None)"

text \<open>Older checkpoints hold a pair, whose second component is the list.\<close>

datatype topic_stored = TopicList "cval list" | TopicPair cval "cval list"

definition topic_checkpoint :: "topic \<Rightarrow> topic_stored option" where
  "topic_checkpoint s = Some (TopicList (topic_values s))"

definition topic_restore :: "topic \<Rightarrow> topic_stored option \<Rightarrow> topic" where
  "topic_restore s chk =
     \<lparr>accumulate = accumulate s,
      topic_values = (case chk of None \<Rightarrow> [] | Some (TopicList vs) \<Rightarrow> vs | Some (TopicPair seen vs) \<Rightarrow> vs)\<rparr>"

section \<open>NamedBarrierValue\<close>

text \<open>The set of names is fixed; \<open>bar_finished\<close> is used by the AfterFinish class only.\<close>

record barrier =
  bar_names :: "cval set"
  bar_seen :: "cval set"
  bar_finished :: bool

fun barrier_add :: "cval list \<Rightarrow> bool \<Rightarrow> barrier \<Rightarrow> barrier change result" where
  "barrier_add [] u s = Inr (u, s)"
| "barrier_add (v # vs) u s =
     (if v \<in> bar_names s
      then (if v \<notin> bar_seen s then barrier_add vs True (s\<lparr>bar_seen := insert v (bar_seen s)\<rparr>) else barrier_add vs u s)
      else Inl InvalidUpdateError)"

definition barrier_update :: "cval list \<Rightarrow> barrier \<Rightarrow> barrier change result" where
  "barrier_update vs s = barrier_add vs False s"

definition barrier_available :: "barrier \<Rightarrow> bool" where
  "barrier_available s \<longleftrightarrow> bar_seen s = bar_names s"

definition barrier_get :: "barrier \<Rightarrow> cval option" where
  "barrier_get s = (if bar_seen s \<noteq> bar_names s then None else Some (Plain PNone))"

definition barrier_consume :: "barrier \<Rightarrow> barrier change" where
  "barrier_consume s = (if bar_seen s = bar_names s then (True, s\<lparr>bar_seen := {}\<rparr>) else (False, s))"

definition barrier_checkpoint :: "barrier \<Rightarrow> cval set option" where
  "barrier_checkpoint s = Some (bar_seen s)"

definition barrier_restore :: "barrier \<Rightarrow> cval set option \<Rightarrow> barrier" where
  "barrier_restore s chk =
     \<lparr>bar_names = bar_names s, bar_seen = (case chk of None \<Rightarrow> {} | Some x \<Rightarrow> x), bar_finished = False\<rparr>"

definition barrier_af_available :: "barrier \<Rightarrow> bool" where
  "barrier_af_available s \<longleftrightarrow> bar_finished s \<and> bar_seen s = bar_names s"

definition barrier_af_get :: "barrier \<Rightarrow> cval option" where
  "barrier_af_get s = (if \<not> bar_finished s \<or> bar_seen s \<noteq> bar_names s then None else Some (Plain PNone))"

definition barrier_af_consume :: "barrier \<Rightarrow> barrier change" where
  "barrier_af_consume s =
     (if bar_finished s \<and> bar_seen s = bar_names s then (True, s\<lparr>bar_finished := False, bar_seen := {}\<rparr>) else (False, s))"

definition barrier_af_finish :: "barrier \<Rightarrow> barrier change" where
  "barrier_af_finish s = (if \<not> bar_finished s \<and> bar_seen s = bar_names s then (True, s\<lparr>bar_finished := True\<rparr>) else (False, s))"

definition barrier_af_checkpoint :: "barrier \<Rightarrow> (cval set \<times> bool) option" where
  "barrier_af_checkpoint s = Some (bar_seen s, bar_finished s)"

definition barrier_af_restore :: "barrier \<Rightarrow> (cval set \<times> bool) option \<Rightarrow> barrier" where
  "barrier_af_restore s chk =
     (case chk of None \<Rightarrow> \<lparr>bar_names = bar_names s, bar_seen = {}, bar_finished = False\<rparr>
                | Some (x, f) \<Rightarrow> \<lparr>bar_names = bar_names s, bar_seen = x, bar_finished = f\<rparr>)"

section \<open>BinaryOperatorAggregate\<close>

text \<open>\<open>bop_initial\<close> is \<open>typ()\<close>, or None when the type cannot be instantiated. The stored value may
  be an \<open>Overwrite\<close> object, so it is a \<open>cval\<close>.\<close>

record binop =
  bop_operator :: "cval \<Rightarrow> cval \<Rightarrow> cval result"
  bop_initial :: "cval option"
  bop_value :: "cval option"

fun binop_fold :: "(cval \<Rightarrow> cval \<Rightarrow> cval result) \<Rightarrow> cval list \<Rightarrow> bool \<Rightarrow> cval \<Rightarrow> cval result" where
  "binop_fold oper [] seen x = Inr x"
| "binop_fold oper (v # vs) seen x =
     (case get_overwrite v of
        Some w \<Rightarrow> if seen then Inl InvalidUpdateError else binop_fold oper vs True (Plain w)
      | None \<Rightarrow> if seen then binop_fold oper vs seen x
                else (case oper x v of Inl e \<Rightarrow> Inl e | Inr y \<Rightarrow> binop_fold oper vs seen y))"

definition binop_update :: "cval list \<Rightarrow> binop \<Rightarrow> binop change result" where
  "binop_update vs s =
     (if vs = [] then Inr (False, s)
      else (case (case bop_value s of None \<Rightarrow> binop_fold (bop_operator s) (tl vs) False (hd vs)
                                    | Some x \<Rightarrow> binop_fold (bop_operator s) vs False x) of
              Inl e \<Rightarrow> Inl e
            | Inr y \<Rightarrow> Inr (True, s\<lparr>bop_value := Some y\<rparr>)))"

definition binop_restore :: "binop \<Rightarrow> cval option \<Rightarrow> binop" where
  "binop_restore s chk = s\<lparr>bop_value := (case chk of None \<Rightarrow> bop_initial s | Some v \<Rightarrow> Some v)\<rparr>"

section \<open>DeltaChannel\<close>

record delta_channel =
  delta_reducer :: "pyval \<Rightarrow> cval list \<Rightarrow> pyval result"
  snapshot_frequency :: int
  delta_initial :: pyval
  delta_value :: "pyval option"

definition make_delta_channel :: "(pyval \<Rightarrow> cval list \<Rightarrow> pyval result) \<Rightarrow> pyval \<Rightarrow> int \<Rightarrow> delta_channel result" where
  "make_delta_channel r typ0 freq =
     (if freq \<le> 0 then Inl ValueError
      else Inr \<lparr>delta_reducer = r, snapshot_frequency = freq, delta_initial = typ0, delta_value = None\<rparr>)"

text \<open>An overwrite with None means the empty value.\<close>

definition overwrite_base :: "delta_channel \<Rightarrow> pyval \<Rightarrow> pyval" where
  "overwrite_base s v = (if v \<noteq> PNone then v else delta_initial s)"

text \<open>A stored blob: absent, a snapshot, or a plain value of an older channel type.\<close>

datatype blob = Snapshot pyval | OldValue pyval

definition delta_restore :: "delta_channel \<Rightarrow> blob option \<Rightarrow> delta_channel" where
  "delta_restore s chk =
     s\<lparr>delta_value := Some (case chk of None \<Rightarrow> delta_initial s | Some (Snapshot v) \<Rightarrow> v | Some (OldValue v) \<Rightarrow> v)\<rparr>"

fun replay_scan :: "delta_channel \<Rightarrow> cval list \<Rightarrow> pyval option \<Rightarrow> cval list \<Rightarrow> pyval option \<times> cval list" where
  "replay_scan s [] base remaining = (base, remaining)"
| "replay_scan s (v # vs) base remaining =
     (case get_overwrite v of
        Some w \<Rightarrow> replay_scan s vs (Some (overwrite_base s w)) []
      | None \<Rightarrow> replay_scan s vs base (remaining @ [v]))"

definition reduce_or_base :: "delta_channel \<Rightarrow> pyval \<Rightarrow> cval list \<Rightarrow> pyval result" where
  "reduce_or_base s base remaining = (if remaining \<noteq> [] then delta_reducer s base remaining else Inr base)"

text \<open>A replay needs a base, which \<open>from_checkpoint\<close> has set; without one the reducer would be
  handed the MISSING sentinel.\<close>

definition replay_writes :: "cval list \<Rightarrow> delta_channel \<Rightarrow> delta_channel result" where
  "replay_writes ws s =
     (if ws = [] then Inr s
      else (case replay_scan s ws (delta_value s) [] of
              (None, _) \<Rightarrow> Inl TypeError
            | (Some base, remaining) \<Rightarrow>
                (case reduce_or_base s base remaining of Inl e \<Rightarrow> Inl e | Inr v \<Rightarrow> Inr (s\<lparr>delta_value := Some v\<rparr>))))"

definition overwrites :: "cval list \<Rightarrow> pyval list" where
  "overwrites vs = map (\<lambda>v. the (get_overwrite v)) (filter (\<lambda>v. get_overwrite v \<noteq> None) vs)"

definition delta_update :: "cval list \<Rightarrow> delta_channel \<Rightarrow> delta_channel change result" where
  "delta_update vs s =
     (if vs = [] then Inr (False, s)
      else if length (overwrites vs) > 1 then Inl InvalidUpdateError
      else (case (case overwrites vs of
                    w # _ \<Rightarrow> reduce_or_base s (overwrite_base s w) (filter (\<lambda>v. get_overwrite v = None) vs)
                  | [] \<Rightarrow> delta_reducer s (case delta_value s of None \<Rightarrow> delta_initial s | Some v \<Rightarrow> v) vs) of
              Inl e \<Rightarrow> Inl e
            | Inr v \<Rightarrow> Inr (True, s\<lparr>delta_value := Some v\<rparr>)))"

text \<open>The operations a class does not override.\<close>

definition no_change :: "'s \<Rightarrow> 's change" where
  "no_change s = (False, s)"

lemmas channel_defs =
  last_value_update_def slot_restore_def any_value_update_def finish_slot_checkpoint_def finish_slot_restore_def
  finish_slot_update_def finish_slot_consume_def finish_slot_finish_def finish_slot_get_def finish_slot_available_def
  guarded_restore_def ephemeral_update_def untracked_update_def untracked_checkpoint_def untracked_restore_def
  topic_update_def topic_get_def topic_checkpoint_def topic_restore_def barrier_available_def barrier_get_def
  barrier_consume_def barrier_checkpoint_def barrier_restore_def barrier_af_available_def barrier_af_get_def
  barrier_af_consume_def barrier_af_finish_def barrier_af_checkpoint_def barrier_af_restore_def binop_update_def
  binop_restore_def no_change_def barrier_update_def

section \<open>The contract of a channel\<close>

datatype chan_op = Update "cval list" | Consume | Finish

text \<open>A sequence of operations; a raising one ends the run of the graph.\<close>

fun run_ops ::
  "(cval list \<Rightarrow> 's \<Rightarrow> 's change result) \<Rightarrow> ('s \<Rightarrow> 's change) \<Rightarrow> ('s \<Rightarrow> 's change) \<Rightarrow> chan_op list \<Rightarrow> 's \<Rightarrow> 's result" where
  "run_ops up con fin [] s = Inr s"
| "run_ops up con fin (Update vs # ops) s = (case up vs s of Inl e \<Rightarrow> Inl e | Inr (_, s') \<Rightarrow> run_ops up con fin ops s')"
| "run_ops up con fin (Consume # ops) s = run_ops up con fin ops (snd (con s))"
| "run_ops up con fin (Finish # ops) s = run_ops up con fin ops (snd (fin s))"

locale channel =
  fixes get :: "'s \<Rightarrow> 'v option"
    and available :: "'s \<Rightarrow> bool"
    and update :: "cval list \<Rightarrow> 's \<Rightarrow> 's change result"
    and consume :: "'s \<Rightarrow> 's change"
    and finish :: "'s \<Rightarrow> 's change"
  assumes available_get: "available s \<longleftrightarrow> get s \<noteq> None"
    and update_unchanged: "update vs s = Inr (False, s') \<Longrightarrow> s' = s"
    and consume_unchanged: "consume s = (False, s') \<Longrightarrow> s' = s"
    and finish_unchanged: "finish s = (False, s') \<Longrightarrow> s' = s"
begin

text \<open>A channel can only become available through an operation that reports a change.\<close>

lemma became_available:
  "update vs s = Inr (u, s') \<Longrightarrow> available s' \<Longrightarrow> \<not> available s \<Longrightarrow> u"
  "consume s = (u, s') \<Longrightarrow> available s' \<Longrightarrow> \<not> available s \<Longrightarrow> u"
  "finish s = (u, s') \<Longrightarrow> available s' \<Longrightarrow> \<not> available s \<Longrightarrow> u"
  using update_unchanged consume_unchanged finish_unchanged by (metis (full_types))+

end

locale durable_channel = channel get available update consume finish
  for get :: "'s \<Rightarrow> 'v option" and available update consume finish +
  fixes checkpoint :: "'s \<Rightarrow> 'c option"
    and restore :: "'s \<Rightarrow> 'c option \<Rightarrow> 's"
    and wf :: "'s \<Rightarrow> bool"
    and same_spec :: "'s \<Rightarrow> 's \<Rightarrow> bool"
  assumes restore_checkpoint: "wf s \<Longrightarrow> same_spec spec s \<Longrightarrow> restore spec (checkpoint s) = s"
    and wf_update: "wf s \<Longrightarrow> update vs s = Inr (u, s') \<Longrightarrow> wf s' \<and> same_spec s s'"
    and wf_consume: "wf s \<Longrightarrow> consume s = (u, s') \<Longrightarrow> wf s' \<and> same_spec s s'"
    and wf_finish: "wf s \<Longrightarrow> finish s = (u, s') \<Longrightarrow> wf s' \<and> same_spec s s'"
    and same_spec_trans: "same_spec r s \<Longrightarrow> same_spec s t \<Longrightarrow> same_spec r t"
    and same_spec_refl: "same_spec s s"
begin

lemma run_ops_wf:
  "wf s \<Longrightarrow> run_ops update consume finish ops s = Inr s' \<Longrightarrow> wf s' \<and> same_spec s s'"
proof (induction ops arbitrary: s)
  case Nil
  then show ?case by (simp add: same_spec_refl)
next
  case (Cons op ops)
  have "\<exists>s1. wf s1 \<and> same_spec s s1 \<and> run_ops update consume finish ops s1 = Inr s'"
  proof (cases op)
    case (Update vs)
    with Cons.prems wf_update show ?thesis by (fastforce split: sum.splits)
  next
    case Consume
    with Cons.prems wf_consume [OF Cons.prems(1), of "fst (consume s)" "snd (consume s)"] show ?thesis by auto
  next
    case Finish
    with Cons.prems wf_finish [OF Cons.prems(1), of "fst (finish s)" "snd (finish s)"] show ?thesis by auto
  qed
  then show ?case using Cons.IH same_spec_trans by blast
qed

text \<open>Stopping after any operations and resuming from the checkpoint changes nothing.\<close>

lemma resume_transparent:
  assumes "wf spec" and "run_ops update consume finish ops spec = Inr s"
  shows "run_ops update consume finish rest (restore spec (checkpoint s)) = run_ops update consume finish (ops @ rest) spec"
proof -
  from run_ops_wf [OF assms] restore_checkpoint have r: "restore spec (checkpoint s) = s" by blast
  have "run_ops update consume finish (ops @ rest) t = run_ops update consume finish rest s"
    if "run_ops update consume finish ops t = Inr s" for t
    using that
  proof (induction ops arbitrary: t)
    case Nil
    then show ?case by simp
  next
    case (Cons op ops)
    then show ?case by (cases op) (auto split: sum.splits)
  qed
  with assms(2) r show ?thesis by simp
qed

end

section \<open>The channel types keep the contract\<close>

interpretation last_value: durable_channel "\<lambda>s :: slot. s" "\<lambda>s. s \<noteq> None" last_value_update no_change no_change
  "\<lambda>s. s" slot_restore "\<lambda>_. True" "\<lambda>_ _. True"
  by unfold_locales (auto simp: channel_defs split: option.splits if_splits)

interpretation any_value: durable_channel "\<lambda>s :: slot. s" "\<lambda>s. s \<noteq> None" any_value_update no_change no_change
  "\<lambda>s. s" slot_restore "\<lambda>_. True" "\<lambda>_ _. True"
  by unfold_locales (auto simp: channel_defs split: option.splits if_splits)

interpretation after_finish: durable_channel finish_slot_get finish_slot_available finish_slot_update finish_slot_consume
  finish_slot_finish finish_slot_checkpoint finish_slot_restore "\<lambda>s. finished s \<longrightarrow> fin_value s \<noteq> None" "\<lambda>_ _. True"
  by unfold_locales (auto simp: channel_defs split: option.splits if_splits)

interpretation ephemeral: durable_channel gs_value "\<lambda>s. gs_value s \<noteq> None" ephemeral_update no_change no_change
  gs_value guarded_restore "\<lambda>_. True" "\<lambda>r s. guard r = guard s"
  by unfold_locales (auto simp: channel_defs split: option.splits if_splits)

interpretation untracked: channel gs_value "\<lambda>s. gs_value s \<noteq> None" untracked_update no_change no_change
  by unfold_locales (auto simp: channel_defs split: if_splits)

interpretation topics: durable_channel topic_get "\<lambda>s. topic_values s \<noteq> []" topic_update no_change no_change
  topic_checkpoint topic_restore "\<lambda>_. True" "\<lambda>r s. accumulate r = accumulate s"
  by unfold_locales (auto simp: channel_defs Let_def split: option.splits if_splits)

lemma barrier_add_result:
  "barrier_add vs u s = Inr (u', s') \<Longrightarrow>
   (u \<longrightarrow> u') \<and> (\<not> u' \<longrightarrow> s' = s) \<and> bar_names s' = bar_names s \<and> bar_finished s' = bar_finished s
   \<and> bar_seen s' = bar_seen s \<union> set vs \<and> set vs \<subseteq> bar_names s"
proof (induction vs arbitrary: u s)
  case Nil
  then show ?case by simp
next
  case (Cons v vs)
  from Cons.prems have v: "v \<in> bar_names s" by (auto split: if_splits)
  show ?case
  proof (cases "v \<in> bar_seen s")
    case True
    with Cons v show ?thesis by auto
  next
    case False
    with Cons.prems v have "barrier_add vs True (s\<lparr>bar_seen := insert v (bar_seen s)\<rparr>) = Inr (u', s')" by simp
    from Cons.IH [OF this] v show ?thesis by auto
  qed
qed

interpretation named_barrier: durable_channel barrier_get barrier_available barrier_update barrier_consume no_change
  barrier_checkpoint barrier_restore "\<lambda>s. \<not> bar_finished s" "\<lambda>r s. bar_names r = bar_names s"
  by unfold_locales (auto simp: channel_defs dest: barrier_add_result split: if_splits)

interpretation named_barrier_af: durable_channel barrier_af_get barrier_af_available barrier_update barrier_af_consume
  barrier_af_finish barrier_af_checkpoint barrier_af_restore "\<lambda>_. True" "\<lambda>r s. bar_names r = bar_names s"
  by unfold_locales (auto simp: channel_defs dest: barrier_add_result split: if_splits)

interpretation binop: durable_channel bop_value "\<lambda>s. bop_value s \<noteq> None" binop_update no_change no_change
  bop_value binop_restore "\<lambda>s. bop_value s = None \<longrightarrow> bop_initial s = None"
  "\<lambda>r s. bop_operator r = bop_operator s \<and> bop_initial r = bop_initial s"
  by unfold_locales (auto simp: channel_defs split: option.splits if_splits sum.splits)

interpretation delta: channel delta_value "\<lambda>s. delta_value s \<noteq> None" delta_update no_change no_change
  by unfold_locales (auto simp: channel_defs delta_update_def split: if_splits sum.splits list.splits option.splits)

section \<open>A channel of any type\<close>

text \<open>The runtime dispatches on the class; what a channel reads as is a value or a list of values.\<close>

datatype chan =
    LastValue slot
  | AnyValue slot
  | LastValueAfterFinish finish_slot
  | EphemeralValue guarded_slot
  | UntrackedValue guarded_slot
  | Topic topic
  | NamedBarrierValue barrier
  | NamedBarrierValueAfterFinish barrier
  | BinaryOperatorAggregate binop
  | DeltaChannel delta_channel

datatype reading = One cval | Several "cval list"

datatype stored =
    StoredValue cval
  | StoredPair cval bool
  | StoredTopic topic_stored
  | StoredNames "cval set"
  | StoredNamesPair "cval set" bool
  | StoredBlob blob

fun chan_get :: "chan \<Rightarrow> reading option" where
  "chan_get (LastValue s) = map_option One s"
| "chan_get (AnyValue s) = map_option One s"
| "chan_get (LastValueAfterFinish s) = map_option One (finish_slot_get s)"
| "chan_get (EphemeralValue s) = map_option One (gs_value s)"
| "chan_get (UntrackedValue s) = map_option One (gs_value s)"
| "chan_get (Topic s) = map_option Several (topic_get s)"
| "chan_get (NamedBarrierValue s) = map_option One (barrier_get s)"
| "chan_get (NamedBarrierValueAfterFinish s) = map_option One (barrier_af_get s)"
| "chan_get (BinaryOperatorAggregate s) = map_option One (bop_value s)"
| "chan_get (DeltaChannel s) = map_option (\<lambda>v. One (Plain v)) (delta_value s)"

fun chan_available :: "chan \<Rightarrow> bool" where
  "chan_available (LastValue s) = (s \<noteq> None)"
| "chan_available (AnyValue s) = (s \<noteq> None)"
| "chan_available (LastValueAfterFinish s) = finish_slot_available s"
| "chan_available (EphemeralValue s) = (gs_value s \<noteq> None)"
| "chan_available (UntrackedValue s) = (gs_value s \<noteq> None)"
| "chan_available (Topic s) = (topic_values s \<noteq> [])"
| "chan_available (NamedBarrierValue s) = barrier_available s"
| "chan_available (NamedBarrierValueAfterFinish s) = barrier_af_available s"
| "chan_available (BinaryOperatorAggregate s) = (bop_value s \<noteq> None)"
| "chan_available (DeltaChannel s) = (delta_value s \<noteq> None)"

definition rewrap :: "('s \<Rightarrow> chan) \<Rightarrow> 's change result \<Rightarrow> chan change result" where
  "rewrap C r = (case r of Inl e \<Rightarrow> Inl e | Inr (u, s) \<Rightarrow> Inr (u, C s))"

fun chan_update :: "cval list \<Rightarrow> chan \<Rightarrow> chan change result" where
  "chan_update vs (LastValue s) = rewrap LastValue (last_value_update vs s)"
| "chan_update vs (AnyValue s) = rewrap AnyValue (any_value_update vs s)"
| "chan_update vs (LastValueAfterFinish s) = rewrap LastValueAfterFinish (finish_slot_update vs s)"
| "chan_update vs (EphemeralValue s) = rewrap EphemeralValue (ephemeral_update vs s)"
| "chan_update vs (UntrackedValue s) = rewrap UntrackedValue (untracked_update vs s)"
| "chan_update vs (Topic s) = rewrap Topic (topic_update vs s)"
| "chan_update vs (NamedBarrierValue s) = rewrap NamedBarrierValue (barrier_update vs s)"
| "chan_update vs (NamedBarrierValueAfterFinish s) = rewrap NamedBarrierValueAfterFinish (barrier_update vs s)"
| "chan_update vs (BinaryOperatorAggregate s) = rewrap BinaryOperatorAggregate (binop_update vs s)"
| "chan_update vs (DeltaChannel s) = rewrap DeltaChannel (delta_update vs s)"

fun chan_consume :: "chan \<Rightarrow> chan change" where
  "chan_consume (LastValueAfterFinish s) = apsnd LastValueAfterFinish (finish_slot_consume s)"
| "chan_consume (NamedBarrierValue s) = apsnd NamedBarrierValue (barrier_consume s)"
| "chan_consume (NamedBarrierValueAfterFinish s) = apsnd NamedBarrierValueAfterFinish (barrier_af_consume s)"
| "chan_consume c = no_change c"

fun chan_finish :: "chan \<Rightarrow> chan change" where
  "chan_finish (LastValueAfterFinish s) = apsnd LastValueAfterFinish (finish_slot_finish s)"
| "chan_finish (NamedBarrierValueAfterFinish s) = apsnd NamedBarrierValueAfterFinish (barrier_af_finish s)"
| "chan_finish c = no_change c"

fun chan_checkpoint :: "chan \<Rightarrow> stored option" where
  "chan_checkpoint (LastValue s) = map_option StoredValue s"
| "chan_checkpoint (AnyValue s) = map_option StoredValue s"
| "chan_checkpoint (LastValueAfterFinish s) = map_option (\<lambda>(v, f). StoredPair v f) (finish_slot_checkpoint s)"
| "chan_checkpoint (EphemeralValue s) = map_option StoredValue (gs_value s)"
| "chan_checkpoint (UntrackedValue s) = map_option StoredValue (untracked_checkpoint s)"
| "chan_checkpoint (Topic s) = map_option StoredTopic (topic_checkpoint s)"
| "chan_checkpoint (NamedBarrierValue s) = map_option StoredNames (barrier_checkpoint s)"
| "chan_checkpoint (NamedBarrierValueAfterFinish s) = map_option (\<lambda>(x, f). StoredNamesPair x f) (barrier_af_checkpoint s)"
| "chan_checkpoint (BinaryOperatorAggregate s) = map_option StoredValue (bop_value s)"
| "chan_checkpoint (DeltaChannel s) = None"

text \<open>\<open>from_checkpoint\<close>. A blob that another channel type has stored is out of the model's reach and
  reported as a TypeError.\<close>

fun chan_restore :: "chan \<Rightarrow> stored option \<Rightarrow> chan result" where
  "chan_restore (LastValue s) (Some (StoredValue v)) = Inr (LastValue (slot_restore s (Some v)))"
| "chan_restore (LastValue s) None = Inr (LastValue (slot_restore s None))"
| "chan_restore (AnyValue s) (Some (StoredValue v)) = Inr (AnyValue (slot_restore s (Some v)))"
| "chan_restore (AnyValue s) None = Inr (AnyValue (slot_restore s None))"
| "chan_restore (LastValueAfterFinish s) (Some (StoredPair v f)) = Inr (LastValueAfterFinish (finish_slot_restore s (Some (v, f))))"
| "chan_restore (LastValueAfterFinish s) None = Inr (LastValueAfterFinish (finish_slot_restore s None))"
| "chan_restore (EphemeralValue s) (Some (StoredValue v)) = Inr (EphemeralValue (guarded_restore s (Some v)))"
| "chan_restore (EphemeralValue s) None = Inr (EphemeralValue (guarded_restore s None))"
| "chan_restore (UntrackedValue s) _ = Inr (UntrackedValue (untracked_restore s None))"
| "chan_restore (Topic s) (Some (StoredTopic vs)) = Inr (Topic (topic_restore s (Some vs)))"
| "chan_restore (Topic s) None = Inr (Topic (topic_restore s None))"
| "chan_restore (NamedBarrierValue s) (Some (StoredNames x)) = Inr (NamedBarrierValue (barrier_restore s (Some x)))"
| "chan_restore (NamedBarrierValue s) None = Inr (NamedBarrierValue (barrier_restore s None))"
| "chan_restore (NamedBarrierValueAfterFinish s) (Some (StoredNamesPair x f)) =
     Inr (NamedBarrierValueAfterFinish (barrier_af_restore s (Some (x, f))))"
| "chan_restore (NamedBarrierValueAfterFinish s) None = Inr (NamedBarrierValueAfterFinish (barrier_af_restore s None))"
| "chan_restore (BinaryOperatorAggregate s) (Some (StoredValue v)) = Inr (BinaryOperatorAggregate (binop_restore s (Some v)))"
| "chan_restore (BinaryOperatorAggregate s) None = Inr (BinaryOperatorAggregate (binop_restore s None))"
| "chan_restore (DeltaChannel s) (Some (StoredBlob b)) = Inr (DeltaChannel (delta_restore s (Some b)))"
| "chan_restore (DeltaChannel s) (Some (StoredValue (Plain v))) = Inr (DeltaChannel (delta_restore s (Some (OldValue v))))"
| "chan_restore (DeltaChannel s) None = Inr (DeltaChannel (delta_restore s None))"
| "chan_restore _ _ = Inl TypeError"

text \<open>Well-formed durable channels, and channels of one specification.\<close>

fun chan_wf :: "chan \<Rightarrow> bool" where
  "chan_wf (LastValueAfterFinish s) = (finished s \<longrightarrow> fin_value s \<noteq> None)"
| "chan_wf (NamedBarrierValue s) = (\<not> bar_finished s)"
| "chan_wf (BinaryOperatorAggregate s) = (bop_value s = None \<longrightarrow> bop_initial s = None)"
| "chan_wf (UntrackedValue s) = False"
| "chan_wf (DeltaChannel s) = False"
| "chan_wf _ = True"

fun chan_spec :: "chan \<Rightarrow> chan" where
  "chan_spec (LastValue s) = LastValue None"
| "chan_spec (AnyValue s) = AnyValue None"
| "chan_spec (LastValueAfterFinish s) = LastValueAfterFinish \<lparr>fin_value = None, finished = False\<rparr>"
| "chan_spec (EphemeralValue s) = EphemeralValue (s\<lparr>gs_value := None\<rparr>)"
| "chan_spec (UntrackedValue s) = UntrackedValue (s\<lparr>gs_value := None\<rparr>)"
| "chan_spec (Topic s) = Topic (s\<lparr>topic_values := []\<rparr>)"
| "chan_spec (NamedBarrierValue s) = NamedBarrierValue (s\<lparr>bar_seen := {}, bar_finished := False\<rparr>)"
| "chan_spec (NamedBarrierValueAfterFinish s) = NamedBarrierValueAfterFinish (s\<lparr>bar_seen := {}, bar_finished := False\<rparr>)"
| "chan_spec (BinaryOperatorAggregate s) = BinaryOperatorAggregate (s\<lparr>bop_value := None\<rparr>)"
| "chan_spec (DeltaChannel s) = DeltaChannel (s\<lparr>delta_value := None\<rparr>)"

definition same_chan :: "chan \<Rightarrow> chan \<Rightarrow> bool" where
  "same_chan r s \<longleftrightarrow> chan_spec r = chan_spec s"

text \<open>What the specification of each type fixes.\<close>

lemma same_slots:
  "same_chan c (EphemeralValue r) \<longleftrightarrow> (\<exists>s. c = EphemeralValue s \<and> guard r = guard s)"
  "same_chan c (Topic t) \<longleftrightarrow> (\<exists>s. c = Topic s \<and> accumulate t = accumulate s)"
  "same_chan c (NamedBarrierValue b) \<longleftrightarrow> (\<exists>s. c = NamedBarrierValue s \<and> bar_names b = bar_names s)"
  "same_chan c (NamedBarrierValueAfterFinish b) \<longleftrightarrow> (\<exists>s. c = NamedBarrierValueAfterFinish s \<and> bar_names b = bar_names s)"
  "same_chan c (BinaryOperatorAggregate p) \<longleftrightarrow>
     (\<exists>s. c = BinaryOperatorAggregate s \<and> bop_operator p = bop_operator s \<and> bop_initial p = bop_initial s)"
proof -
  show "same_chan c (EphemeralValue r) \<longleftrightarrow> (\<exists>s. c = EphemeralValue s \<and> guard r = guard s)"
    by (cases c; cases r) (auto simp: same_chan_def intro: guarded_slot.equality dest: arg_cong [of _ _ guard])
  show "same_chan c (Topic t) \<longleftrightarrow> (\<exists>s. c = Topic s \<and> accumulate t = accumulate s)"
    by (cases c; cases t) (auto simp: same_chan_def intro: topic.equality dest: arg_cong [of _ _ accumulate])
  show "same_chan c (NamedBarrierValue b) \<longleftrightarrow> (\<exists>s. c = NamedBarrierValue s \<and> bar_names b = bar_names s)"
    by (cases c; cases b) (auto simp: same_chan_def intro: barrier.equality dest: arg_cong [of _ _ bar_names])
  show "same_chan c (NamedBarrierValueAfterFinish b) \<longleftrightarrow> (\<exists>s. c = NamedBarrierValueAfterFinish s \<and> bar_names b = bar_names s)"
    by (cases c; cases b) (auto simp: same_chan_def intro: barrier.equality dest: arg_cong [of _ _ bar_names])
  show "same_chan c (BinaryOperatorAggregate p) \<longleftrightarrow>
     (\<exists>s. c = BinaryOperatorAggregate s \<and> bop_operator p = bop_operator s \<and> bop_initial p = bop_initial s)"
    by (cases c; cases p) (auto simp: same_chan_def intro: binop.equality dest: arg_cong [of _ _ bop_operator] arg_cong [of _ _ bop_initial])
qed

lemma rewrap_Inr: "rewrap C r = Inr (u, c) \<longleftrightarrow> (\<exists>s. r = Inr (u, s) \<and> c = C s)"
  by (auto simp: rewrap_def split: sum.splits)

lemma chan_available_get: "chan_available c \<longleftrightarrow> chan_get c \<noteq> None"
  by (cases c) (auto simp: channel_defs)

lemma chan_update_unchanged: "chan_update vs c = Inr (False, c') \<Longrightarrow> c' = c"
  by (cases c)
     (auto simp: rewrap_Inr dest: last_value.update_unchanged any_value.update_unchanged after_finish.update_unchanged
        ephemeral.update_unchanged untracked.update_unchanged topics.update_unchanged named_barrier.update_unchanged
        binop.update_unchanged delta.update_unchanged)

lemma chan_consume_unchanged: "chan_consume c = (False, c') \<Longrightarrow> c' = c"
  by (cases c) (auto simp: channel_defs split: if_splits)

lemma chan_finish_unchanged: "chan_finish c = (False, c') \<Longrightarrow> c' = c"
  by (cases c) (auto simp: channel_defs split: if_splits)

lemma chan_same_refl: "same_chan c c"
  by (simp add: same_chan_def)

lemma chan_same_trans: "same_chan a b \<Longrightarrow> same_chan b c \<Longrightarrow> same_chan a c"
  by (simp add: same_chan_def)

lemma chan_wf_update: "chan_wf c \<Longrightarrow> chan_update vs c = Inr (u, c') \<Longrightarrow> chan_wf c' \<and> same_chan c c'"
  by (cases c)
     (auto simp: rewrap_Inr same_chan_def channel_defs Let_def dest: barrier_add_result split: if_splits sum.splits option.splits)

lemma chan_wf_consume: "chan_wf c \<Longrightarrow> chan_consume c = (u, c') \<Longrightarrow> chan_wf c' \<and> same_chan c c'"
  by (cases c) (auto simp: channel_defs same_chan_def split: if_splits)

lemma chan_wf_finish: "chan_wf c \<Longrightarrow> chan_finish c = (u, c') \<Longrightarrow> chan_wf c' \<and> same_chan c c'"
  by (cases c) (auto simp: channel_defs same_chan_def split: if_splits)

text \<open>The channel a checkpoint restores to; \<open>spec\<close> where the blob is of another type.\<close>

definition restored :: "chan \<Rightarrow> stored option \<Rightarrow> chan" where
  "restored spec chk = (case chan_restore spec chk of Inr c \<Rightarrow> c | Inl _ \<Rightarrow> spec)"

lemma chan_restore_checkpoint: "chan_wf c \<Longrightarrow> same_chan spec c \<Longrightarrow> chan_restore spec (chan_checkpoint c) = Inr c"
proof (cases c)
  case (LastValue s)
  moreover assume "same_chan spec c"
  ultimately show ?thesis by (cases spec; cases s) (auto simp: channel_defs same_chan_def)
next
  case (AnyValue s)
  moreover assume "same_chan spec c"
  ultimately show ?thesis by (cases spec; cases s) (auto simp: channel_defs same_chan_def)
next
  case (LastValueAfterFinish s)
  moreover assume "chan_wf c" "same_chan spec c"
  ultimately show ?thesis by (cases spec; cases "fin_value s") (auto simp: channel_defs same_chan_def)
next
  case (EphemeralValue s)
  moreover assume "same_chan spec c"
  ultimately obtain r where "spec = EphemeralValue r" "guard r = guard s" by (auto simp: same_slots)
  with EphemeralValue show ?thesis by (cases "gs_value s") (auto simp: channel_defs)
next
  case (Topic s)
  moreover assume "same_chan spec c"
  ultimately obtain r where "spec = Topic r" "accumulate r = accumulate s" by (auto simp: same_slots)
  with Topic show ?thesis by (auto simp: channel_defs)
next
  case (NamedBarrierValue s)
  moreover assume "chan_wf c" "same_chan spec c"
  ultimately obtain r where "spec = NamedBarrierValue r" "bar_names r = bar_names s" "\<not> bar_finished s"
    by (auto simp: same_slots)
  with NamedBarrierValue show ?thesis by (auto simp: channel_defs)
next
  case (NamedBarrierValueAfterFinish s)
  moreover assume "same_chan spec c"
  ultimately obtain r where "spec = NamedBarrierValueAfterFinish r" "bar_names r = bar_names s"
    by (auto simp: same_slots)
  with NamedBarrierValueAfterFinish show ?thesis by (auto simp: channel_defs)
next
  case (BinaryOperatorAggregate s)
  moreover assume "chan_wf c" "same_chan spec c"
  ultimately obtain r where "spec = BinaryOperatorAggregate r" "bop_operator r = bop_operator s" "bop_initial r = bop_initial s"
    "bop_value s = None \<longrightarrow> bop_initial s = None"
    by (auto simp: same_slots)
  with BinaryOperatorAggregate show ?thesis by (cases "bop_value s") (auto simp: channel_defs)
qed simp_all

interpretation any_chan: durable_channel chan_get chan_available chan_update chan_consume chan_finish
  chan_checkpoint restored chan_wf same_chan
proof unfold_locales
  show "chan_available c \<longleftrightarrow> chan_get c \<noteq> None" for c by (rule chan_available_get)
  show "restored spec (chan_checkpoint c) = c" if "chan_wf c" "same_chan spec c" for c spec
    using chan_restore_checkpoint [OF that] by (simp add: restored_def)
qed (fact chan_update_unchanged chan_consume_unchanged chan_finish_unchanged chan_wf_update chan_wf_consume
      chan_wf_finish chan_same_trans chan_same_refl)+

section \<open>Properties\<close>

text \<open>C24. Resuming is transparent: for every channel class but UntrackedValue, which is not checkpointed, and
  DeltaChannel, which is not checkpointed by value, stopping after any sequence of updates, consumes and finishes,
  restoring a channel of the same specification from the checkpoint, and going on gives the state (or the error) of the
  uninterrupted run.\<close>

theorem channel_resume_transparent:
  assumes "chan_wf spec" and "run_ops chan_update chan_consume chan_finish ops spec = Inr c"
  shows "chan_restore spec (chan_checkpoint c) = Inr c \<and>
    run_ops chan_update chan_consume chan_finish rest (restored spec (chan_checkpoint c))
      = run_ops chan_update chan_consume chan_finish (ops @ rest) spec"
  using any_chan.resume_transparent [OF assms] any_chan.run_ops_wf [OF assms] chan_restore_checkpoint by blast

theorem channel_resume_transparent_witness:
  "chan_restore (LastValueAfterFinish \<lparr>fin_value = None, finished = False\<rparr>) (Some (StoredPair (Plain (PInt 2)) True))
     = Inr (LastValueAfterFinish \<lparr>fin_value = Some (Plain (PInt 2)), finished = True\<rparr>)"
  using channel_resume_transparent [of "LastValueAfterFinish \<lparr>fin_value = None, finished = False\<rparr>"
      "[Update [Plain (PInt 1), Plain (PInt 2)], Finish]"
      "LastValueAfterFinish \<lparr>fin_value = Some (Plain (PInt 2)), finished = True\<rparr>" "[]"]
  by (simp add: channel_defs rewrap_def)

text \<open>The requirement on the reducer of a delta channel.\<close>

definition batching_invariant :: "(pyval \<Rightarrow> cval list \<Rightarrow> pyval result) \<Rightarrow> bool" where
  "batching_invariant r \<longleftrightarrow>
     (\<forall>v xs ys w. r v xs = Inr w \<longrightarrow> r v (xs @ ys) = r w ys)"

definition overwrite_first :: "cval list \<Rightarrow> bool" where
  "overwrite_first b \<longleftrightarrow> list_all (\<lambda>v. get_overwrite v = None) (tl b)"

lemma replay_scan_append:
  "replay_scan s (xs @ ys) base rm = (case replay_scan s xs base rm of (b, r) \<Rightarrow> replay_scan s ys b r)"
  by (induction xs arbitrary: base rm) (simp_all split: option.splits)

lemma replay_scan_plain:
  "list_all (\<lambda>v. get_overwrite v = None) xs \<Longrightarrow> replay_scan s xs base rm = (base, rm @ xs)"
  by (induction xs arbitrary: rm) simp_all

lemma overwrites_Cons:
  "overwrites (x # xs) = (case get_overwrite x of None \<Rightarrow> overwrites xs | Some w \<Rightarrow> w # overwrites xs)"
  by (simp add: overwrites_def split: option.splits)

lemma overwrites_plain: "list_all (\<lambda>v. get_overwrite v = None) xs \<Longrightarrow> overwrites xs = []"
  by (induction xs) (simp_all add: overwrites_def)

lemma filter_plain: "list_all (\<lambda>v. get_overwrite v = None) xs \<Longrightarrow> filter (\<lambda>v. get_overwrite v = None) xs = xs"
  by (induction xs) simp_all

abbreviation delta_run :: "cval list list \<Rightarrow> delta_channel \<Rightarrow> delta_channel result" where
  "delta_run bs s \<equiv> run_ops delta_update no_change no_change (map Update bs) s"

lemma delta_replay_step:
  assumes inv: "batching_invariant (delta_reducer s)"
  shows "list_all overwrite_first bs \<Longrightarrow> reduce_or_base s base rm = Inr v \<Longrightarrow>
    delta_run bs (s\<lparr>delta_value := Some v\<rparr>) = Inr s' \<Longrightarrow>
    \<exists>b r w. replay_scan s (concat bs) (Some base) rm = (Some b, r) \<and> reduce_or_base s b r = Inr w
      \<and> s' = s\<lparr>delta_value := Some w\<rparr>"
proof (induction bs arbitrary: base rm v)
  case Nil
  then show ?case by auto
next
  case (Cons b bs)
  let ?s = "s\<lparr>delta_value := Some v\<rparr>"
  from Cons.prems(3) obtain u s1 where up: "delta_update b ?s = Inr (u, s1)" and run: "delta_run bs s1 = Inr s'"
    by (auto split: sum.splits)
  have plain_tl: "list_all (\<lambda>v. get_overwrite v = None) (tl b)" using Cons.prems(1) by (simp add: overwrite_first_def)
  have first: "list_all overwrite_first bs" using Cons.prems(1) by simp
  show ?case
  proof (cases "list_all (\<lambda>v. get_overwrite v = None) b")
    case plain: True
    show ?thesis
    proof (cases "b = []")
      case True
      with up run have "delta_run bs ?s = Inr s'" by (simp add: delta_update_def)
      from Cons.IH [OF first Cons.prems(2) this] True show ?thesis by simp
    next
      case False
      with up plain obtain w where w: "delta_reducer s v b = Inr w" "s1 = s\<lparr>delta_value := Some w\<rparr>"
        by (auto simp: delta_update_def overwrites_plain split: sum.splits)
      have "reduce_or_base s base (rm @ b) = Inr w"
        using Cons.prems(2) w(1) inv False by (auto simp: reduce_or_base_def batching_invariant_def split: if_splits)
      from Cons.IH [OF first this] run w(2) plain show ?thesis
        by (simp add: replay_scan_append replay_scan_plain)
    qed
  next
    case False
    with plain_tl obtain x y vs where b: "b = x # vs" "get_overwrite x = Some y"
      "list_all (\<lambda>v. get_overwrite v = None) vs" by (cases b) auto
    have "overwrites b = [y]" "filter (\<lambda>v. get_overwrite v = None) b = vs"
      using b by (simp_all add: overwrites_Cons overwrites_plain filter_plain)
    with up b(1) obtain w where w: "reduce_or_base s (overwrite_base s y) vs = Inr w" "s1 = s\<lparr>delta_value := Some w\<rparr>"
      by (auto simp: delta_update_def reduce_or_base_def overwrite_base_def split: sum.splits if_splits)
    from Cons.IH [OF first w(1)] run w(2) b show ?thesis
      by (simp add: replay_scan_append replay_scan_plain)
  qed
qed

text \<open>Replay reconstructs the live state: for a batching-invariant reducer, when every superstep
  wrote its overwrite, if any, before its other writes, replaying all recorded writes through one
  reducer call gives the state that the supersteps produced one after the other.\<close>

theorem delta_replay_is_live:
  assumes "batching_invariant (delta_reducer s)" and "list_all overwrite_first bs" and "concat bs \<noteq> []"
    and "delta_value s = Some v" and "run_ops delta_update no_change no_change (map Update bs) s = Inr s'"
  shows "replay_writes (concat bs) s = Inr s'"
proof -
  have "s\<lparr>delta_value := Some v\<rparr> = s" using assms(4) by simp
  with delta_replay_step [OF assms(1,2), of v "[]" v s'] assms(5)
  obtain b r w where "replay_scan s (concat bs) (Some v) [] = (Some b, r)" "reduce_or_base s b r = Inr w"
    "s' = s\<lparr>delta_value := Some w\<rparr>" by (auto simp: reduce_or_base_def)
  with assms(3,4) show ?thesis unfolding replay_writes_def by (simp del: concat_eq_Nil_conv)
qed

text \<open>A reducer that appends what it is given to a list.\<close>

fun append_writes :: "pyval \<Rightarrow> cval list \<Rightarrow> pyval result" where
  "append_writes (PList xs) ws = Inr (PList (xs @ map (\<lambda>w. case w of Plain v \<Rightarrow> v | Overwrite v \<Rightarrow> v) ws))"
| "append_writes _ ws = Inl TypeError"

definition demo_delta :: delta_channel where
  "demo_delta = \<lparr>delta_reducer = append_writes, snapshot_frequency = 1000, delta_initial = PList [], delta_value = Some (PList [])\<rparr>"

lemma append_writes_invariant: "batching_invariant append_writes"
proof -
  have "append_writes v (xs @ ys) = append_writes w ys" if "append_writes v xs = Inr w" for v xs ys w
    using that by (cases v) auto
  then show ?thesis by (simp add: batching_invariant_def)
qed

theorem delta_replay_is_live_witness:
  "replay_writes [Plain (PInt 1), Overwrite (PList []), Plain (PInt 2)] demo_delta
     = Inr (demo_delta\<lparr>delta_value := Some (PList [PInt 2])\<rparr>)"
  using delta_replay_is_live [of demo_delta "[[Plain (PInt 1)], [Overwrite (PList []), Plain (PInt 2)]]" "PList []"
      "demo_delta\<lparr>delta_value := Some (PList [PInt 2])\<rparr>"] append_writes_invariant
  by (simp add: demo_delta_def overwrite_first_def delta_update_def overwrites_def reduce_or_base_def overwrite_base_def)

text \<open>Without that order replay is not the live state: for a superstep that wrote a value first and
  an overwrite second, the live channel folds the value into the overwritten base, the replay
  drops it.\<close>

theorem delta_replay_drops_earlier_write:
  assumes "get_overwrite a = None" and "w \<noteq> PNone" and "delta_value s = Some b"
    and "delta_reducer s w [a] = Inr v" and "v \<noteq> w"
  shows "delta_update [a, Overwrite w] s = Inr (True, s\<lparr>delta_value := Some v\<rparr>) \<and>
         replay_writes [a, Overwrite w] s = Inr (s\<lparr>delta_value := Some w\<rparr>) \<and>
         s\<lparr>delta_value := Some v\<rparr> \<noteq> s\<lparr>delta_value := Some w\<rparr>"
  using assms
  by (auto simp: delta_update_def overwrites_def reduce_or_base_def overwrite_base_def replay_writes_def
      dest: arg_cong [of _ _ delta_value])

theorem delta_replay_drops_earlier_write_witness:
  "delta_update [Plain (PInt 1), Overwrite (PList [PInt 2])] demo_delta
      = Inr (True, demo_delta\<lparr>delta_value := Some (PList [PInt 2, PInt 1])\<rparr>) \<and>
   replay_writes [Plain (PInt 1), Overwrite (PList [PInt 2])] demo_delta
      = Inr (demo_delta\<lparr>delta_value := Some (PList [PInt 2])\<rparr>)"
  using delta_replay_drops_earlier_write [of "Plain (PInt 1)" "PList [PInt 2]" demo_delta "PList []" "PList [PInt 2, PInt 1]"]
  by (simp add: demo_delta_def)

text \<open>An overwrite into an empty aggregate is stored unread: the channel then holds the
  \<open>Overwrite\<close> object itself, while on a channel with a value the same write stores the wrapped
  value.\<close>

theorem binop_overwrite_stored_raw:
  "(bop_value s = None \<longrightarrow> binop_update [Overwrite w] s = Inr (True, s\<lparr>bop_value := Some (Overwrite w)\<rparr>)) \<and>
   (bop_value s = Some x \<longrightarrow> binop_update [Overwrite w] s = Inr (True, s\<lparr>bop_value := Some (Plain w)\<rparr>))"
  by (simp add: binop_update_def)

theorem binop_overwrite_stored_raw_witness:
  "binop_update [Overwrite (PInt 7)] \<lparr>bop_operator = \<lambda>a b. Inr b, bop_initial = None, bop_value = None\<rparr>
     = Inr (True, \<lparr>bop_operator = \<lambda>a b. Inr b, bop_initial = None, bop_value = Some (Overwrite (PInt 7))\<rparr>)"
  using binop_overwrite_stored_raw [of "\<lparr>bop_operator = \<lambda>a b. Inr b, bop_initial = None, bop_value = None\<rparr>" "PInt 7" "Plain PNone"]
  by simp

text \<open>The barrier over a run of supersteps.\<close>

lemma barrier_run:
  "run_ops barrier_update barrier_consume no_change (map Update bs) s = Inr s' \<Longrightarrow>
   bar_names s' = bar_names s \<and> bar_seen s' = bar_seen s \<union> \<Union> (set (map set bs)) \<and>
   \<Union> (set (map set bs)) \<subseteq> bar_names s"
proof (induction bs arbitrary: s)
  case Nil
  then show ?case by simp
next
  case (Cons b bs)
  then obtain u s1 where s1: "barrier_update b s = Inr (u, s1)"
    "run_ops barrier_update barrier_consume no_change (map Update bs) s1 = Inr s'"
    by (auto split: sum.splits)
  from s1(1) have "barrier_add b False s = Inr (u, s1)" by (simp add: barrier_update_def)
  from barrier_add_result [OF this] Cons.IH [OF s1(2)] show ?case by auto
qed

text \<open>A barrier opens exactly when everybody has reported: after any accepted sequence of
  supersteps from an empty barrier it is available iff every name has been written, and consuming
  it while closed does nothing, while open empties it.\<close>

theorem barrier_opens_when_all_reported:
  assumes "run_ops barrier_update barrier_consume no_change (map Update bs) \<lparr>bar_names = names, bar_seen = {}, bar_finished = False\<rparr> = Inr s"
  shows "(barrier_available s \<longleftrightarrow> names \<subseteq> \<Union> (set (map set bs))) \<and>
    barrier_consume s = (if barrier_available s then (True, s\<lparr>bar_seen := {}\<rparr>) else (False, s))"
  using barrier_run [OF assms] by (auto simp: barrier_available_def barrier_consume_def)

theorem barrier_opens_when_all_reported_witness:
  "\<not> barrier_available \<lparr>bar_names = {Plain (PInt 1), Plain (PInt 2)}, bar_seen = {Plain (PInt 2)}, bar_finished = False\<rparr>"
  using barrier_opens_when_all_reported [of "[[Plain (PInt 2)], [Plain (PInt 2)]]" "{Plain (PInt 1), Plain (PInt 2)}"
     "\<lparr>bar_names = {Plain (PInt 1), Plain (PInt 2)}, bar_seen = {Plain (PInt 2)}, bar_finished = False\<rparr>"]
  by (simp add: barrier_update_def)

end
