(* ===== verification/Interrupts.thy ===== *)
theory Interrupts
  imports Prelude
begin

text \<open>
  \<open>langgraph/types.py: interrupt\<close> and the scratchpad of \<open>pregel/_algo.py\<close>: pausing inside a node
  and replaying the node from its head when a resume value arrives. A node run is a function of
  its scratchpad: the resume values recorded for the task, and the not yet consumed global one.
\<close>

section \<open>Outcomes of a node run\<close>

text \<open>\<open>Suspended\<close> is the GraphInterrupt that ends the run and surfaces the payload.\<close>

datatype 'a outcome =
    Returned 'a
  | Raised py_exc
  | Suspended pyval

record scratchpad =
  interrupt_counter :: nat
  resume :: "pyval list"
  null_resume :: "pyval option"

definition fresh_scratchpad :: scratchpad where
  "fresh_scratchpad = \<lparr>interrupt_counter = 0, resume = [], null_resume = None\<rparr>"

section \<open>The call\<close>

text \<open>
  \<open>get_null_resume(consume=True)\<close> hands the global resume value out once; a value that is None
  counts as absent.
\<close>

definition get_null_resume :: "scratchpad \<Rightarrow> pyval \<times> scratchpad" where
  "get_null_resume sp =
     (case null_resume sp of None \<Rightarrow> (PNone, sp) | Some v \<Rightarrow> (v, sp\<lparr>null_resume := None\<rparr>))"

definition interrupt :: "pyval \<Rightarrow> scratchpad \<Rightarrow> pyval outcome \<times> scratchpad" where
  "interrupt payload sp =
     (let idx = interrupt_counter sp; sp1 = sp\<lparr>interrupt_counter := Suc idx\<rparr> in
      if resume sp \<noteq> [] \<and> idx < length (resume sp) then (Returned (resume sp ! idx), sp1)
      else (case get_null_resume sp1 of
              (v, sp2) \<Rightarrow>
                if v \<noteq> PNone then
                  (if length (resume sp2) = idx then (Returned v, sp2\<lparr>resume := resume sp2 @ [v]\<rparr>)
                   else (Raised AssertionError, sp2))
                else (Suspended payload, sp2)))"

text \<open>
  The scratchpad of the next run of the same task: the counter starts at 0, the recorded resume
  values stay, and \<open>Command(resume=v)\<close> supplies the global value.
\<close>

definition replay :: "scratchpad \<Rightarrow> scratchpad" where
  "replay sp = sp\<lparr>interrupt_counter := 0\<rparr>"

definition resume_with :: "pyval \<Rightarrow> scratchpad \<Rightarrow> scratchpad" where
  "resume_with v sp = sp\<lparr>interrupt_counter := 0, null_resume := Some v\<rparr>"

lemmas interrupt_defs =
  interrupt_def get_null_resume_def replay_def resume_with_def fresh_scratchpad_def

section \<open>First run, resumed run, replay\<close>

lemma interrupt_fresh [simp]:
  "interrupt payload fresh_scratchpad = (Suspended payload, fresh_scratchpad\<lparr>interrupt_counter := 1\<rparr>)"
  by (simp add: interrupt_defs)

lemma interrupt_resumed:
  "v \<noteq> PNone \<Longrightarrow> interrupt payload (resume_with v fresh_scratchpad) =
     (Returned v, \<lparr>interrupt_counter = 1, resume = [v], null_resume = None\<rparr>)"
  by (simp add: interrupt_defs)

text \<open>A value that was returned once is returned again at the same position of every replay, and
  the replay leaves the recorded values alone.\<close>

lemma interrupt_replay_at:
  assumes "interrupt payload sp = (Returned v, sp')" and "interrupt_counter sp < length (resume sp')"
  shows "interrupt payload' (sp'\<lparr>interrupt_counter := interrupt_counter sp\<rparr>) = (Returned v, sp')"
  using assms
  by (auto simp: interrupt_defs Let_def nth_append split: if_splits option.splits)

lemma interrupt_returned_recorded:
  assumes "interrupt payload sp = (Returned v, sp')"
  shows "interrupt_counter sp < length (resume sp')"
  using assms by (auto simp: interrupt_defs Let_def split: if_splits option.splits)

lemma interrupt_resume_prefix:
  assumes "interrupt payload sp = (r, sp')"
  shows "\<exists>vs. resume sp' = resume sp @ vs \<and> length vs \<le> 1"
  using assms by (auto simp: interrupt_defs Let_def split: if_splits option.splits)

text \<open>Deterministic replay: once an interrupt has returned a resume value, re-running the node
  with the recorded scratchpad returns the same value at the same interrupt, whatever payload the
  re-run computes, and does not consume anything further.\<close>

theorem interrupt_replay:
  assumes "interrupt payload sp = (Returned v, sp')" and "interrupt_counter sp = 0"
  shows "interrupt payload' (replay sp') = (Returned v, sp')"
  using interrupt_replay_at [OF assms(1) interrupt_returned_recorded [OF assms(1)], of payload']
  by (simp add: replay_def assms(2))

theorem interrupt_replay_witness:
  "interrupt (PStr ''again'') (replay \<lparr>interrupt_counter = 1, resume = [PBool True], null_resume = None\<rparr>)
     = (Returned (PBool True), \<lparr>interrupt_counter = 1, resume = [PBool True], null_resume = None\<rparr>)"
  by (rule interrupt_replay [where payload = PNone and sp = "resume_with (PBool True) fresh_scratchpad"])
     (simp_all add: interrupt_resumed, simp add: resume_with_def)

end
