(* ===== verification/Pregel.thy ===== *)
theory Pregel
  imports Channels Interrupts "HOL-Library.Multiset" "HOL-Library.List_Lexorder" "HOL-Library.Char_ord"
begin

text \<open>
  The superstep of the graph runtime: \<open>langgraph/pregel/_algo.py\<close> (applying the writes of the
  finished tasks, choosing the nodes that run next, interrupts, scratchpads) and
  \<open>pregel/_checkpoint.py\<close> (channels to a checkpoint and back), on the channels of the theory
  Channels. Channel versions are the integers of the default versioning function \<open>increment\<close>; the
  function itself is the argument \<open>next_v\<close>, since savers bring their own.
\<close>

section \<open>Data\<close>

type_synonym versions = "(string, nat) dict"

record graph_checkpoint =
  channel_versions :: versions
  versions_seen :: "(string, versions) dict"

text \<open>A task path is a tuple of names, numbers and tuples.\<close>

datatype path_part = PathName string | PathIndex nat | PathTuple "path_part list"

record task_writes =
  path :: "path_part list"
  task_name :: string
  task_out :: "(string \<times> cval) list"
  triggers :: "string list"

type_synonym channels = "(string, chan) dict"

definition push_key :: string where
  "push_key = ''__pregel_push''"

definition interrupt_key :: string where
  "interrupt_key = ''__interrupt__''"

text \<open>The keys no node writes a channel value to.\<close>

definition control_keys :: "string list" where
  "control_keys = [''__no_writes__'', push_key, ''__resume__'', interrupt_key, ''__return__'', ''__error__'',
     ''__error_source_node__'']"

text \<open>\<open>RESERVED\<close>: the names a channel cannot have.\<close>

definition reserved :: "string list" where
  "reserved = [''langsmith:hidden'', ''__input__'', interrupt_key, ''__resume__'', ''__error__'', ''__error_source_node__'',
     ''__no_writes__'', ''__pregel_send'', ''__pregel_read'', ''__pregel_checkpointer'', ''__pregel_stream'', ''checkpoint_map'',
     ''__pregel_resuming'', ''__pregel_replay_state'', ''__pregel_task_id'', ''checkpoint_id'', ''checkpoint_ns'',
     ''__pregel_timed_attempt_observer'', ''__pregel_resume_map'', ''__pregel_stream_messages_v2'', push_key,
     ''__pregel_pull'', ''|'', '':'', ''configurable'']"

definition increment :: "nat option \<Rightarrow> nat" where
  "increment current = (case current of None \<Rightarrow> 1 | Some v \<Rightarrow> v + 1)"

section \<open>The order of the tasks\<close>

text \<open>\<open>task_path_str\<close>: numbers are padded to ten digits, tuples are marked with a tilde.\<close>

fun decimal :: "nat \<Rightarrow> nat \<Rightarrow> string" where
  "decimal 0 n = (if n = 0 then [] else decimal 0 (n div 10) @ [char_of (48 + n mod 10)])"
| "decimal (Suc w) n = decimal w (n div 10) @ [char_of (48 + n mod 10)]"

fun join_parts :: "string list \<Rightarrow> string" where
  "join_parts [] = []"
| "join_parts [s] = s"
| "join_parts (s # t # ts) = s @ '', '' @ join_parts (t # ts)"

fun task_path_str :: "path_part \<Rightarrow> string" where
  "task_path_str (PathName s) = s"
| "task_path_str (PathIndex n) = decimal 10 n"
| "task_path_str (PathTuple ps) = ''~'' @ join_parts (map task_path_str ps)"

definition task_key :: "task_writes \<Rightarrow> string" where
  "task_key t = task_path_str (PathTuple (take 3 (path t)))"

definition in_order :: "task_writes list \<Rightarrow> task_writes list" where
  "in_order tasks = sort_key task_key tasks"

section \<open>apply_writes\<close>

text \<open>The state \<open>apply_writes\<close> works on: versions, channels, names of the updated channels.\<close>

record step_state =
  ss_versions :: versions
  ss_channels :: channels
  ss_updated :: "string set"

text \<open>\<open>checkpoint["versions_seen"].setdefault(name, {}).update({...})\<close>.\<close>

definition see_versions :: "versions \<Rightarrow> task_writes \<Rightarrow> (string, versions) dict \<Rightarrow> (string, versions) dict" where
  "see_versions vs t seen =
     dict_set (task_name t)
       (fold (\<lambda>c d. case dict_get vs c of Some v \<Rightarrow> dict_set c v d | None \<Rightarrow> d) (triggers t)
          (dict_getd seen (task_name t) []))
       seen"

definition highest_version :: "versions \<Rightarrow> nat option" where
  "highest_version vs = (if vs = [] then None else Some (Max (set (map snd vs))))"

text \<open>The effect of one operation on one channel, which answered \<open>u\<close>; \<open>report\<close> tells whether an
  updated and available channel is reported to the caller.\<close>

definition settle :: "bool \<Rightarrow> nat option \<Rightarrow> string \<Rightarrow> bool \<times> chan \<Rightarrow> step_state \<Rightarrow> step_state" where
  "settle report nv k r st =
     (let (u, c) = r; st1 = st\<lparr>ss_channels := dict_set k c (ss_channels st)\<rparr> in
      case nv of
        None \<Rightarrow> st1
      | Some v \<Rightarrow>
          if u then st1\<lparr>ss_versions := dict_set k v (ss_versions st1),
                        ss_updated := (if report \<and> chan_available c then insert k (ss_updated st1) else ss_updated st1)\<rparr>
          else st1)"

text \<open>Consume every channel that triggered a task.\<close>

definition read_channels_of :: "task_writes list \<Rightarrow> channels \<Rightarrow> string list" where
  "read_channels_of tasks chs =
     filter (\<lambda>k. k \<notin> set reserved \<and> dict_get chs k \<noteq> None) (remdups (concat (map triggers tasks)))"

fun consume_all :: "nat option \<Rightarrow> string list \<Rightarrow> step_state \<Rightarrow> step_state" where
  "consume_all nv [] st = st"
| "consume_all nv (k # ks) st =
     consume_all nv ks (case dict_get (ss_channels st) k of None \<Rightarrow> st | Some c \<Rightarrow> settle False nv k (chan_consume c) st)"

text \<open>Group the writes by channel, in the order of the first write to each.\<close>

fun group_writes :: "channels \<Rightarrow> (string \<times> cval) list \<Rightarrow> (string, cval list) dict \<Rightarrow> (string, cval list) dict" where
  "group_writes chs [] g = g"
| "group_writes chs ((k, v) # ws) g =
     group_writes chs ws
       (if k \<in> set control_keys then g
        else if dict_get chs k \<noteq> None then dict_set k (dict_getd g k [] @ [v]) g
        else g)"

fun update_all :: "nat option \<Rightarrow> (string \<times> cval list) list \<Rightarrow> step_state \<Rightarrow> step_state result" where
  "update_all nv [] st = Inr st"
| "update_all nv ((k, vs) # g) st =
     (case dict_get (ss_channels st) k of
        None \<Rightarrow> update_all nv g st
      | Some c \<Rightarrow> (case chan_update vs c of
                     Inl e \<Rightarrow> Inl e
                   | Inr r \<Rightarrow> update_all nv g (settle True nv k r st)))"

text \<open>Channels that were not updated are told of the new step.\<close>

fun bump_all :: "nat option \<Rightarrow> string list \<Rightarrow> step_state \<Rightarrow> step_state result" where
  "bump_all nv [] st = Inr st"
| "bump_all nv (k # ks) st =
     (case dict_get (ss_channels st) k of
        None \<Rightarrow> bump_all nv ks st
      | Some c \<Rightarrow>
          if chan_available c \<and> k \<notin> ss_updated st
          then (case chan_update [] c of Inl e \<Rightarrow> Inl e | Inr r \<Rightarrow> bump_all nv ks (settle True nv k r st))
          else bump_all nv ks st)"

fun finish_all :: "nat option \<Rightarrow> string list \<Rightarrow> step_state \<Rightarrow> step_state" where
  "finish_all nv [] st = st"
| "finish_all nv (k # ks) st =
     finish_all nv ks (case dict_get (ss_channels st) k of None \<Rightarrow> st | Some c \<Rightarrow> settle True nv k (chan_finish c) st)"

definition apply_writes ::
  "graph_checkpoint \<Rightarrow> channels \<Rightarrow> task_writes list \<Rightarrow> (nat option \<Rightarrow> nat) option \<Rightarrow> (string, string list) dict
     \<Rightarrow> (string set \<times> graph_checkpoint \<times> channels) result" where
  "apply_writes cp chs tasks0 next_v t2n =
     (let tasks = in_order tasks0;
          bump_step = list_ex (\<lambda>t. triggers t \<noteq> []) tasks;
          seen = fold (see_versions (channel_versions cp)) tasks (versions_seen cp);
          nv = map_option (\<lambda>f. f (highest_version (channel_versions cp))) next_v;
          st0 = \<lparr>ss_versions = channel_versions cp, ss_channels = chs, ss_updated = {}\<rparr>;
          st1 = consume_all nv (read_channels_of tasks chs) st0
      in case update_all nv (group_writes (ss_channels st1) (concat (map task_out tasks)) []) st1 of
           Inl e \<Rightarrow> Inl e
         | Inr st2 \<Rightarrow>
             (case (if bump_step then bump_all nv (map fst (ss_channels st2)) st2 else Inr st2) of
                Inl e \<Rightarrow> Inl e
              | Inr st3 \<Rightarrow>
                  (let st4 = (if bump_step \<and> ss_updated st3 \<inter> set (map fst t2n) = {}
                              then finish_all nv (map fst (ss_channels st3)) st3 else st3)
                   in Inr (ss_updated st4, \<lparr>channel_versions = ss_versions st4, versions_seen = seen\<rparr>, ss_channels st4))))"

section \<open>Choosing the next nodes\<close>

text \<open>\<open>checkpoint_null_version\<close>: the zero of the version type, when there is a version at all.\<close>

definition checkpoint_null_version :: "graph_checkpoint \<Rightarrow> nat option" where
  "checkpoint_null_version cp = (if channel_versions cp = [] then None else Some 0)"

text \<open>\<open>_triggers\<close>. A trigger that names no channel is a KeyError in the code and reads as unavailable here;
  validation refuses such graphs (theory Graph).\<close>

definition chan_ready :: "channels \<Rightarrow> string \<Rightarrow> bool" where
  "chan_ready chs k = (case dict_get chs k of None \<Rightarrow> False | Some c \<Rightarrow> chan_available c)"

definition is_triggered :: "channels \<Rightarrow> versions \<Rightarrow> versions option \<Rightarrow> nat \<Rightarrow> string list \<Rightarrow> bool" where
  "is_triggered chs vs seen null trigs =
     (case seen of
        None \<Rightarrow> list_ex (chan_ready chs) trigs
      | Some s \<Rightarrow> list_ex (\<lambda>k. chan_ready chs k \<and> dict_getd vs k null > dict_getd s k null) trigs)"

text \<open>The nodes: name to trigger channels. \<open>_trigger_to_nodes\<close> of \<open>main.py\<close> inverts that map.\<close>

type_synonym processes = "(string, string list) dict"

fun add_triggers :: "string \<Rightarrow> string list \<Rightarrow> (string, string list) dict \<Rightarrow> (string, string list) dict" where
  "add_triggers name [] d = d"
| "add_triggers name (k # ks) d = add_triggers name ks (dict_set k (dict_getd d k [] @ [name]) d)"

fun index_triggers :: "processes \<Rightarrow> (string, string list) dict \<Rightarrow> (string, string list) dict" where
  "index_triggers [] d = d"
| "index_triggers ((name, ks) # ps) d = index_triggers ps (add_triggers name ks d)"

definition trigger_to_nodes :: "processes \<Rightarrow> (string, string list) dict" where
  "trigger_to_nodes ps = index_triggers ps []"

text \<open>The candidate section of \<open>prepare_next_tasks\<close>; \<open>updated\<close> is what \<open>apply_writes\<close> returned.\<close>

definition candidate_nodes :: "graph_checkpoint \<Rightarrow> processes \<Rightarrow> (string, string list) dict \<Rightarrow> string set option \<Rightarrow> string list" where
  "candidate_nodes cp ps t2n updated =
     (if updated \<noteq> None \<and> updated \<noteq> Some {} \<and> t2n \<noteq> []
      then sorted_list_of_set (\<Union>k \<in> the updated. set (dict_getd t2n k []))
      else if channel_versions cp = [] then []
      else map fst ps)"

text \<open>The test before a task is made. What makes its input comes after it and is not modelled: a task whose channels hold nothing
  to read is dropped there.\<close>

definition pull_ready :: "graph_checkpoint \<Rightarrow> channels \<Rightarrow> processes \<Rightarrow> string \<Rightarrow> bool" where
  "pull_ready cp chs ps name =
     (case (dict_get ps name, checkpoint_null_version cp) of
        (Some trigs, Some null) \<Rightarrow> is_triggered chs (channel_versions cp) (dict_get (versions_seen cp) name) null trigs
      | _ \<Rightarrow> False)"

text \<open>The names of the PULL tasks of the next step.\<close>

definition next_pull_nodes ::
  "graph_checkpoint \<Rightarrow> channels \<Rightarrow> processes \<Rightarrow> (string, string list) dict \<Rightarrow> string set option \<Rightarrow> string list" where
  "next_pull_nodes cp chs ps t2n updated = filter (pull_ready cp chs ps) (candidate_nodes cp ps t2n updated)"

section \<open>Interrupts before and after nodes\<close>

datatype interrupt_nodes = AllNodes | SomeNodes "string list"

text \<open>A task is its name and whether it carries the hidden tag.\<close>

definition should_interrupt :: "graph_checkpoint \<Rightarrow> interrupt_nodes \<Rightarrow> (string \<times> bool) list \<Rightarrow> (string \<times> bool) list" where
  "should_interrupt cp nodes tasks =
     (let seen = dict_getd (versions_seen cp) interrupt_key [] in
      if list_ex (\<lambda>(k, v). v > dict_getd seen k 0) (channel_versions cp)
      then filter (\<lambda>(name, hidden). case nodes of AllNodes \<Rightarrow> \<not> hidden | SomeNodes ns \<Rightarrow> name \<in> set ns) tasks
      else [])"

section \<open>Scratchpads\<close>

type_synonym pending_write = "string \<times> string \<times> pyval"

definition null_task_id :: string where
  "null_task_id = ''00000000-0000-0000-0000-000000000000''"

fun find_resume :: "string \<Rightarrow> pending_write list \<Rightarrow> pyval option" where
  "find_resume tid [] = None"
| "find_resume tid ((t, k, v) # ws) = (if t = tid \<and> k = ''__resume__'' then Some v else find_resume tid ws)"

fun as_list :: "pyval \<Rightarrow> pyval list" where
  "as_list (PList vs) = vs"
| "as_list v = [v]"

text \<open>\<open>parent_null\<close> is what the scratchpad of the parent graph offers as global resume value.\<close>

definition build_scratchpad ::
  "pyval option \<Rightarrow> pending_write list \<Rightarrow> string \<Rightarrow> string \<Rightarrow> (string, pyval) dict \<Rightarrow> scratchpad" where
  "build_scratchpad parent_null pending tid ns_hash resume_map =
     (let own = (if pending = [] then None else find_resume null_task_id pending);
          task = (if pending = [] then []
                  else (case find_resume tid pending of None \<Rightarrow> [] | Some v \<Rightarrow> as_list v)
                       @ (case dict_get resume_map ns_hash of None \<Rightarrow> [] | Some v \<Rightarrow> [v]))
      in \<lparr>interrupt_counter = 0, resume = task,
          null_resume = (case own of Some v \<Rightarrow> Some v | None \<Rightarrow> parent_null)\<rparr>)"

section \<open>Checkpoints of channels\<close>

definition delta_due :: "int \<Rightarrow> chan \<Rightarrow> int \<times> int \<Rightarrow> bool" where
  "delta_due max_supersteps c counters =
     (case c of
        DeltaChannel s \<Rightarrow> delta_value s \<noteq> None \<and> (fst counters \<ge> snapshot_frequency s \<or> snd counters \<ge> max_supersteps)
      | _ \<Rightarrow> False)"

definition delta_channels_to_snapshot :: "int \<Rightarrow> channels \<Rightarrow> (string, int \<times> int) dict \<Rightarrow> string set" where
  "delta_channels_to_snapshot max_supersteps chs counters =
     set (map fst (filter (\<lambda>(k, c). delta_due max_supersteps c (dict_getd counters k (0, 0))) chs))"

record stored_checkpoint =
  sc_values :: "(string, stored) dict"
  sc_versions :: versions
  sc_seen :: "(string, versions) dict"
  sc_updated :: "string list option"

text \<open>What \<open>create_checkpoint\<close> stores for one channel: a snapshot, its checkpoint, or nothing. A
  snapshot of a channel with no value is an EmptyChannelError.\<close>

fun snapshot_of :: "chan \<Rightarrow> stored result" where
  "snapshot_of (DeltaChannel s) = (case delta_value s of None \<Rightarrow> Inl EmptyChannelError | Some v \<Rightarrow> Inr (StoredBlob (Snapshot v)))"
| "snapshot_of c = (case chan_get c of None \<Rightarrow> Inl EmptyChannelError
                     | Some (One (Plain v)) \<Rightarrow> Inr (StoredBlob (Snapshot v)) | Some _ \<Rightarrow> Inl TypeError)"

fun store_channels ::
  "(nat option \<Rightarrow> nat) option \<Rightarrow> string set option \<Rightarrow> string set \<Rightarrow> (string \<times> chan) list
     \<Rightarrow> (string, stored) dict \<times> versions \<Rightarrow> ((string, stored) dict \<times> versions) result" where
  "store_channels next_v updated snaps [] acc = Inr acc"
| "store_channels next_v updated snaps ((k, c) # cs) acc =
     (let (values, vs) = acc in
      case dict_get vs k of
        None \<Rightarrow> store_channels next_v updated snaps cs acc
      | Some v \<Rightarrow>
          if k \<in> snaps
          then (case snapshot_of c of
                  Inl e \<Rightarrow> Inl e
                | Inr b \<Rightarrow>
                    store_channels next_v updated snaps cs
                      (dict_set k b values,
                       (case next_v of
                          Some f \<Rightarrow> if updated = None \<or> k \<notin> the updated then dict_set k (f (Some v)) vs else vs
                        | None \<Rightarrow> vs)))
          else store_channels next_v updated snaps cs
                 (case chan_checkpoint c of None \<Rightarrow> values | Some x \<Rightarrow> dict_set k x values, vs))"

definition create_checkpoint ::
  "stored_checkpoint \<Rightarrow> channels option \<Rightarrow> string set option \<Rightarrow> (nat option \<Rightarrow> nat) option \<Rightarrow> string set \<Rightarrow> stored_checkpoint result" where
  "create_checkpoint cp chs updated next_v snaps =
     (let fin = (\<lambda>(values, vs). \<lparr>sc_values = values, sc_versions = vs, sc_seen = sc_seen cp,
                    sc_updated = map_option sorted_list_of_set updated\<rparr>) in
      case chs of
        None \<Rightarrow> Inr (fin (sc_values cp, sc_versions cp))
      | Some cs \<Rightarrow> (case store_channels next_v updated snaps cs ([], sc_versions cp) of Inl e \<Rightarrow> Inl e | Inr a \<Rightarrow> Inr (fin a)))"

fun needs_replay :: "chan \<Rightarrow> stored option \<Rightarrow> bool" where
  "needs_replay (DeltaChannel s) chk = (chk = None)"
| "needs_replay _ chk = False"

text \<open>The history a saver returns for a delta channel: the nearest stored value and the writes since.\<close>

record delta_history =
  seed :: "stored option"
  history_writes :: "cval list"

definition hydrate :: "stored_checkpoint \<Rightarrow> (string \<Rightarrow> delta_history) option \<Rightarrow> string \<Rightarrow> chan \<Rightarrow> chan result" where
  "hydrate cp saver k spec =
     (let chk = dict_get (sc_values cp) k in
      case saver of
        Some h \<Rightarrow>
          (if needs_replay spec chk
           then (case chan_restore spec (seed (h k)) of
                   Inl e \<Rightarrow> Inl e
                 | Inr (DeltaChannel s) \<Rightarrow>
                     (case replay_writes (history_writes (h k)) s of Inl e \<Rightarrow> Inl e | Inr s' \<Rightarrow> Inr (DeltaChannel s'))
                 | Inr c \<Rightarrow> Inl TypeError)
           else chan_restore spec chk)
      | None \<Rightarrow> chan_restore spec chk)"

fun channels_from_checkpoint ::
  "(string \<times> chan) list \<Rightarrow> stored_checkpoint \<Rightarrow> (string \<Rightarrow> delta_history) option \<Rightarrow> (string \<times> chan) list result" where
  "channels_from_checkpoint [] cp saver = Inr []"
| "channels_from_checkpoint ((k, spec) # specs) cp saver =
     (case hydrate cp saver k spec of
        Inl e \<Rightarrow> Inl e
      | Inr c \<Rightarrow> (case channels_from_checkpoint specs cp saver of Inl e \<Rightarrow> Inl e | Inr cs \<Rightarrow> Inr ((k, c) # cs)))"

section \<open>Order of application\<close>

lemma in_order_perm:
  assumes "mset tasks = mset tasks'" and "distinct (map task_key tasks)"
  shows "in_order tasks = in_order tasks'"
proof -
  have "inj_on task_key (set tasks)" using assms(2) by (simp add: distinct_map)
  then show ?thesis
    unfolding in_order_def using assms(1) by (intro sort_key_inj_key_eq) (simp_all)
qed

text \<open>C5. Determinism of a superstep: whatever order the tasks of a step finish in, as long as their
  path keys differ, applying their writes gives the same channels, the same versions, the same seen
  versions and the same set of updated channels, or the same error.\<close>

theorem apply_writes_order_independent:
  assumes "mset tasks = mset tasks'" and "distinct (map task_key tasks)"
  shows "apply_writes cp chs tasks next_v t2n = apply_writes cp chs tasks' next_v t2n"
  by (simp add: apply_writes_def in_order_perm [OF assms])

definition demo_task :: "string \<Rightarrow> nat \<Rightarrow> int \<Rightarrow> task_writes" where
  "demo_task name i v = \<lparr>path = [PathName ''__pregel_push'', PathIndex i], task_name = name,
     task_out = [(''log'', Plain (PInt v))], triggers = [''__pregel_push'']\<rparr>"

theorem apply_writes_order_independent_witness:
  "apply_writes \<lparr>channel_versions = [(''log'', 1)], versions_seen = []\<rparr> [(''log'', Topic \<lparr>accumulate = True, topic_values = []\<rparr>)]
      [demo_task ''a'' 0 10, demo_task ''b'' 1 20] (Some increment) []
   = apply_writes \<lparr>channel_versions = [(''log'', 1)], versions_seen = []\<rparr> [(''log'', Topic \<lparr>accumulate = True, topic_values = []\<rparr>)]
      [demo_task ''b'' 1 20, demo_task ''a'' 0 10] (Some increment) []"
proof (rule apply_writes_order_independent)
  show "distinct (map task_key [demo_task ''a'' 0 10, demo_task ''b'' 1 20])"
    by code_simp
qed simp

section \<open>What a step changes\<close>

text \<open>Channels whose consumption empties them: every type, but for a barrier of no names.\<close>

fun proper :: "chan \<Rightarrow> bool" where
  "proper (NamedBarrierValue s) = (bar_names s \<noteq> {})"
| "proper _ = True"

lemma consume_proper: "proper c \<Longrightarrow> chan_consume c = (u, c') \<Longrightarrow> proper c' \<and> (u \<longrightarrow> \<not> chan_available c')"
  by (cases c) (auto simp: channel_defs split: if_splits)

definition all_proper :: "channels \<Rightarrow> bool" where
  "all_proper chs \<longleftrightarrow> (\<forall>k c. dict_get chs k = Some c \<longrightarrow> proper c)"

text \<open>An available channel that is not reported as updated was available before, with the version it
  has.\<close>

definition covered :: "channels \<Rightarrow> versions \<Rightarrow> step_state \<Rightarrow> bool" where
  "covered chs0 vs0 st \<longleftrightarrow>
     (\<forall>k. chan_ready (ss_channels st) k \<and> k \<notin> ss_updated st \<longrightarrow>
          chan_ready chs0 k \<and> dict_get (ss_versions st) k = dict_get vs0 k)"

text \<open>Every version is the old one or the next one, and finitely many channels are reported.\<close>

definition version_step :: "versions \<Rightarrow> nat \<Rightarrow> step_state \<Rightarrow> bool" where
  "version_step vs0 v st \<longleftrightarrow> finite (ss_updated st) \<and> (\<forall>k. dict_get (ss_versions st) k = dict_get vs0 k \<or> dict_get (ss_versions st) k = Some v)"

lemma settle_covered:
  assumes "covered chs0 vs0 st" and "dict_get (ss_channels st) k = Some c0"
    and "\<not> fst r \<Longrightarrow> snd r = c0" and "fst r \<Longrightarrow> \<not> report \<Longrightarrow> \<not> chan_available (snd r)"
  shows "covered chs0 vs0 (settle report (Some v) k r st)"
  using assms by (cases r) (auto simp: covered_def settle_def chan_ready_def Let_def split: if_splits)

lemma settle_version_step: "version_step vs0 v st \<Longrightarrow> version_step vs0 v (settle report (Some v) k r st)"
  by (cases r) (auto simp: version_step_def settle_def Let_def)

abbreviation step_ok :: "channels \<Rightarrow> versions \<Rightarrow> nat \<Rightarrow> step_state \<Rightarrow> bool" where
  "step_ok chs0 vs0 v st \<equiv> covered chs0 vs0 st \<and> version_step vs0 v st"

lemma settle_ok:
  assumes "step_ok chs0 vs0 v st" and "dict_get (ss_channels st) k = Some c0"
    and "\<not> u \<Longrightarrow> c = c0" and "u \<Longrightarrow> \<not> report \<Longrightarrow> \<not> chan_available c"
  shows "step_ok chs0 vs0 v (settle report (Some v) k (u, c) st)"
  using settle_covered [of chs0 vs0 st k c0 "(u, c)"] settle_version_step assms by auto

lemma consume_all_ok:
  "step_ok chs0 vs0 v st \<Longrightarrow> all_proper (ss_channels st) \<Longrightarrow> step_ok chs0 vs0 v (consume_all (Some v) ks st)"
proof (induction ks arbitrary: st)
  case Nil
  then show ?case by simp
next
  case (Cons k ks)
  show ?case
  proof (cases "dict_get (ss_channels st) k")
    case None
    with Cons show ?thesis by simp
  next
    case (Some c)
    obtain u c' where r: "chan_consume c = (u, c')" by (cases "chan_consume c") auto
    have pc: "proper c' \<and> (u \<longrightarrow> \<not> chan_available c')"
      using Cons.prems(2) Some consume_proper [OF _ r] by (auto simp: all_proper_def)
    let ?st = "settle False (Some v) k (u, c') st"
    have "step_ok chs0 vs0 v ?st"
      by (rule settle_ok [OF Cons.prems(1) Some]) (use chan_consume_unchanged r pc in auto)
    moreover have "all_proper (ss_channels ?st)"
      using Cons.prems(2) pc by (auto simp: all_proper_def settle_def Let_def)
    ultimately show ?thesis using Cons.IH [of ?st] Some r by simp
  qed
qed

lemma update_all_ok:
  "step_ok chs0 vs0 v st \<Longrightarrow> update_all (Some v) g st = Inr st' \<Longrightarrow> step_ok chs0 vs0 v st'"
proof (induction g arbitrary: st)
  case Nil
  then show ?case by simp
next
  case (Cons kv g)
  obtain k vs where kv: "kv = (k, vs)" by (cases kv) auto
  show ?case
  proof (cases "dict_get (ss_channels st) k")
    case None
    with Cons kv show ?thesis by simp
  next
    case (Some c)
    with Cons.prems(2) kv obtain u c' where r: "chan_update vs c = Inr (u, c')"
      and run: "update_all (Some v) g (settle True (Some v) k (u, c') st) = Inr st'"
      by (auto split: sum.splits)
    have "step_ok chs0 vs0 v (settle True (Some v) k (u, c') st)"
      by (rule settle_ok [OF Cons.prems(1) Some]) (use chan_update_unchanged r in auto)
    with Cons.IH run show ?thesis by blast
  qed
qed

lemma bump_all_ok:
  "step_ok chs0 vs0 v st \<Longrightarrow> bump_all (Some v) ks st = Inr st' \<Longrightarrow> step_ok chs0 vs0 v st'"
proof (induction ks arbitrary: st)
  case Nil
  then show ?case by simp
next
  case (Cons k ks)
  show ?case
  proof (cases "\<exists>c. dict_get (ss_channels st) k = Some c \<and> chan_available c \<and> k \<notin> ss_updated st")
    case False
    with Cons show ?thesis by (auto split: option.splits if_splits)
  next
    case True
    with Cons.prems(2) obtain c u c' where c: "dict_get (ss_channels st) k = Some c"
      and r: "chan_update [] c = Inr (u, c')"
      and run: "bump_all (Some v) ks (settle True (Some v) k (u, c') st) = Inr st'"
      by (auto split: sum.splits)
    have "step_ok chs0 vs0 v (settle True (Some v) k (u, c') st)"
      by (rule settle_ok [OF Cons.prems(1) c]) (use chan_update_unchanged r in auto)
    with Cons.IH run show ?thesis by blast
  qed
qed

lemma finish_all_ok: "step_ok chs0 vs0 v st \<Longrightarrow> step_ok chs0 vs0 v (finish_all (Some v) ks st)"
proof (induction ks arbitrary: st)
  case Nil
  then show ?case by simp
next
  case (Cons k ks)
  show ?case
  proof (cases "dict_get (ss_channels st) k")
    case None
    with Cons show ?thesis by simp
  next
    case (Some c)
    obtain u c' where r: "chan_finish c = (u, c')" by (cases "chan_finish c") auto
    have "step_ok chs0 vs0 v (settle True (Some v) k (u, c') st)"
      by (rule settle_ok [OF Cons.prems Some]) (use chan_finish_unchanged r in auto)
    with Cons.IH Some r show ?thesis by simp
  qed
qed

text \<open>All phases together.\<close>

lemma apply_writes_ok:
  assumes run: "apply_writes cp chs tasks (Some f) t2n = Inr (updated, cp', chs')" and proper: "all_proper chs"
  shows "covered chs (channel_versions cp) \<lparr>ss_versions = channel_versions cp', ss_channels = chs', ss_updated = updated\<rparr> \<and>
    version_step (channel_versions cp) (f (highest_version (channel_versions cp)))
      \<lparr>ss_versions = channel_versions cp', ss_channels = chs', ss_updated = updated\<rparr> \<and>
    versions_seen cp' = fold (see_versions (channel_versions cp)) (in_order tasks) (versions_seen cp)"
proof -
  let ?v = "f (highest_version (channel_versions cp))"
  let ?vs = "channel_versions cp"
  define st0 where "st0 = \<lparr>ss_versions = ?vs, ss_channels = chs, ss_updated = {}\<rparr>"
  define st1 where "st1 = consume_all (Some ?v) (read_channels_of (in_order tasks) chs) st0"
  have "step_ok chs ?vs ?v st0" by (simp add: st0_def covered_def version_step_def)
  then have ok1: "step_ok chs ?vs ?v st1"
    unfolding st1_def by (rule consume_all_ok) (simp add: st0_def proper)
  from run obtain st2 where st2: "update_all (Some ?v) (group_writes (ss_channels st1) (concat (map task_out (in_order tasks))) []) st1 = Inr st2"
    by (auto simp: apply_writes_def Let_def st1_def st0_def split: sum.splits)
  note ok2 = update_all_ok [OF ok1 st2]
  let ?bump = "list_ex (\<lambda>t. triggers t \<noteq> []) (in_order tasks)"
  define bumped where "bumped = (if ?bump then bump_all (Some ?v) (map fst (ss_channels st2)) st2 else Inr st2)"
  have "bumped = Inl e \<Longrightarrow> apply_writes cp chs tasks (Some f) t2n = Inl e" for e
    unfolding apply_writes_def Let_def option.map st0_def [symmetric] st1_def [symmetric] st2 sum.case bumped_def [symmetric]
    by (simp only: sum.case)
  then have "bumped \<noteq> Inl e" for e using run by (metis Inl_Inr_False)
  then obtain st3 where "bumped = Inr st3" by (cases bumped) blast+
  then have st3: "(if ?bump then bump_all (Some ?v) (map fst (ss_channels st2)) st2 else Inr st2) = Inr st3"
    unfolding bumped_def .
  then have "st3 = st2 \<or> bump_all (Some ?v) (map fst (ss_channels st2)) st2 = Inr st3"
    by (cases ?bump) simp_all
  then have ok3: "step_ok chs ?vs ?v st3" using ok2 bump_all_ok [OF ok2] by blast
  define st4 where "st4 = (if ?bump \<and> ss_updated st3 \<inter> set (map fst t2n) = {}
                           then finish_all (Some ?v) (map fst (ss_channels st3)) st3 else st3)"
  have ok4: "step_ok chs ?vs ?v st4" using ok3 finish_all_ok [OF ok3] unfolding st4_def by presburger
  have res: "Inr (ss_updated st4, \<lparr>channel_versions = ss_versions st4,
      versions_seen = fold (see_versions ?vs) (in_order tasks) (versions_seen cp)\<rparr>, ss_channels st4)
    = (Inr (updated, cp', chs') :: (string set \<times> graph_checkpoint \<times> channels) result)"
    unfolding run [symmetric] apply_writes_def Let_def option.map
      st0_def [symmetric] st1_def [symmetric] st2 sum.case st3 st4_def [symmetric] ..
  then have "updated = ss_updated st4" "channel_versions cp' = ss_versions st4" "chs' = ss_channels st4"
    "versions_seen cp' = fold (see_versions ?vs) (in_order tasks) (versions_seen cp)" by auto
  with ok4 show ?thesis by (simp add: covered_def version_step_def)
qed

text \<open>Versions move forward: with a versioning function that exceeds its argument, a step leaves
  each channel's version alone or raises it to one new value above all versions there were.\<close>

theorem versions_monotonic:
  assumes "apply_writes cp chs tasks (Some f) t2n = Inr (updated, cp', chs')" and "all_proper chs"
    and "\<And>v. v < f (Some v)"
  shows "dict_get (channel_versions cp') k = dict_get (channel_versions cp) k \<or>
     (dict_get (channel_versions cp') k = Some (f (highest_version (channel_versions cp))) \<and>
      (\<forall>v \<in> set (map snd (channel_versions cp)). v < f (highest_version (channel_versions cp))))"
proof -
  have "dict_get (channel_versions cp') k = dict_get (channel_versions cp) k \<or>
      dict_get (channel_versions cp') k = Some (f (highest_version (channel_versions cp)))"
    using apply_writes_ok [OF assms(1,2)] by (simp add: version_step_def)
  moreover have "v < f (highest_version (channel_versions cp))" if "v \<in> set (map snd (channel_versions cp))" for v
  proof -
    from that have "v \<le> Max (set (map snd (channel_versions cp)))" by simp
    moreover from that have "highest_version (channel_versions cp) = Some (Max (set (map snd (channel_versions cp))))"
      by (auto simp: highest_version_def)
    ultimately show ?thesis using assms(3) [of "Max (set (map snd (channel_versions cp)))"] by simp
  qed
  ultimately show ?thesis by blast
qed

section \<open>The candidate optimisation\<close>

text \<open>What a step does to the versions a node has seen.\<close>

definition seen_version :: "(string, versions) dict \<Rightarrow> string \<Rightarrow> string \<Rightarrow> nat option" where
  "seen_version seen p k = (case dict_get seen p of None \<Rightarrow> None | Some s \<Rightarrow> dict_get s k)"

lemma fold_seen_get:
  "dict_get (fold (\<lambda>c d. case dict_get vs c of Some v \<Rightarrow> dict_set c v d | None \<Rightarrow> d) ks d) k =
     (if k \<in> set ks \<and> dict_get vs k \<noteq> None then dict_get vs k else dict_get d k)"
  by (induction ks arbitrary: d) (auto split: option.splits)

lemma see_versions_get:
  "dict_get (see_versions vs t seen) p =
     (if p = task_name t
      then Some (fold (\<lambda>c d. case dict_get vs c of Some v \<Rightarrow> dict_set c v d | None \<Rightarrow> d) (triggers t) (dict_getd seen p []))
      else dict_get seen p)"
  by (simp add: see_versions_def)

lemma seen_version_step:
  "seen_version (see_versions vs t seen) p k =
     (if p = task_name t \<and> k \<in> set (triggers t) \<and> dict_get vs k \<noteq> None then dict_get vs k else seen_version seen p k)"
  by (auto simp: seen_version_def see_versions_get fold_seen_get dict_getd_def split: option.splits)

lemma seen_fold:
  "(dict_get seen p \<noteq> None \<longrightarrow> dict_get (fold (see_versions vs) ts seen) p \<noteq> None) \<and>
   (dict_get (fold (see_versions vs) ts seen) p \<noteq> None \<longrightarrow> dict_get seen p \<noteq> None \<or> p \<in> task_name ` set ts) \<and>
   (seen_version (fold (see_versions vs) ts seen) p k = seen_version seen p k \<or>
    seen_version (fold (see_versions vs) ts seen) p k = dict_get vs k \<and> dict_get vs k \<noteq> None) \<and>
   ((\<exists>t \<in> set ts. task_name t = p \<and> k \<in> set (triggers t)) \<and> dict_get vs k \<noteq> None
      \<longrightarrow> seen_version (fold (see_versions vs) ts seen) p k = dict_get vs k)"
proof (induction ts rule: rev_induct)
  case Nil
  then show ?case by simp
next
  case (snoc t ts)
  then show ?case by (auto simp: seen_version_step see_versions_get)
qed

lemma pull_ready_iff:
  "pull_ready cp chs ps p \<longleftrightarrow> channel_versions cp \<noteq> [] \<and>
     (\<exists>trigs. dict_get ps p = Some trigs \<and>
        (\<exists>k \<in> set trigs. chan_ready chs k \<and>
           (dict_get (versions_seen cp) p = None \<or>
            dict_getd (channel_versions cp) k 0 >
              (case seen_version (versions_seen cp) p k of None \<Rightarrow> 0 | Some v \<Rightarrow> v))))"
  by (auto simp: pull_ready_def checkpoint_null_version_def is_triggered_def list_ex_iff seen_version_def dict_getd_def
      split: option.splits)

text \<open>If every ready node ran, a node that is ready afterwards has an updated trigger.\<close>

lemma ready_has_updated_trigger:
  assumes run: "apply_writes cp chs tasks (Some f) t2n = Inr (updated, cp', chs')" and proper: "all_proper chs"
    and vers: "channel_versions cp \<noteq> []"
    and ran: "\<And>p trigs. pull_ready cp chs ps p \<Longrightarrow> dict_get ps p = Some trigs \<Longrightarrow>
                \<exists>t \<in> set tasks. task_name t = p \<and> set (triggers t) = set trigs"
    and ready: "pull_ready cp' chs' ps p" and trigs: "dict_get ps p = Some trigs"
  shows "\<exists>k \<in> set trigs. k \<in> updated"
proof (rule ccontr)
  assume none: "\<not> (\<exists>k \<in> set trigs. k \<in> updated)"
  let ?vs = "channel_versions cp"
  note ok = apply_writes_ok [OF run proper]
  have seen': "versions_seen cp' = fold (see_versions ?vs) (in_order tasks) (versions_seen cp)" using ok by simp
  have mem: "set (in_order tasks) = set tasks" by (simp add: in_order_def)
  from ready trigs obtain k where k: "k \<in> set trigs" "chan_ready chs' k"
    and newer: "dict_get (versions_seen cp') p = None \<or>
      dict_getd (channel_versions cp') k 0 > (case seen_version (versions_seen cp') p k of None \<Rightarrow> 0 | Some v \<Rightarrow> v)"
    by (auto simp: pull_ready_iff)
  from ok k none have before: "chan_ready chs k" "dict_get (channel_versions cp') k = dict_get ?vs k"
    by (auto simp: covered_def)
  note sf = seen_fold [of "versions_seen cp" p ?vs "in_order tasks" k, folded seen', unfolded mem]
  have "pull_ready cp chs ps p"
  proof (cases "dict_get (versions_seen cp) p")
    case None
    with before k trigs vers show ?thesis by (auto simp: pull_ready_iff)
  next
    case (Some s)
    with sf have "dict_get (versions_seen cp') p \<noteq> None" by simp
    with newer before(2) have gt: "dict_getd ?vs k 0 > (case seen_version (versions_seen cp') p k of None \<Rightarrow> 0 | Some v \<Rightarrow> v)"
      by (simp add: dict_getd_def)
    with sf have "seen_version (versions_seen cp') p k = seen_version (versions_seen cp) p k"
      by (auto simp: dict_getd_def)
    with gt before(1) k(1) trigs vers show ?thesis by (auto simp: pull_ready_iff)
  qed
  from ran [OF this trigs] obtain t where t: "t \<in> set tasks" "task_name t = p" "set (triggers t) = set trigs" by blast
  show False
  proof (cases "dict_get ?vs k")
    case None
    with before(2) have "dict_getd (channel_versions cp') k 0 = 0" by (simp add: dict_getd_def)
    moreover have "dict_get (versions_seen cp') p \<noteq> None"
    proof -
      have "dict_get (fold (see_versions ?vs) ts seen) p \<noteq> None" if "t \<in> set ts" for ts and seen
        using that by (induction ts arbitrary: seen rule: rev_induct) (auto simp: see_versions_get t(2))
      then show ?thesis using t(1) by (simp add: seen' mem)
    qed
    ultimately show False using newer by simp
  next
    case (Some v)
    with sf t k(1) have sv: "seen_version (versions_seen cp') p k = Some v" by auto
    then have "dict_get (versions_seen cp') p \<noteq> None" by (auto simp: seen_version_def split: option.splits)
    with newer sv before(2) Some show False by (simp add: dict_getd_def)
  qed
qed

text \<open>The index of triggers.\<close>

lemma add_triggers_get:
  "set (dict_getd (add_triggers name ks d) k []) = set (dict_getd d k []) \<union> (if k \<in> set ks then {name} else {})"
  by (induction ks arbitrary: d) (auto simp: dict_getd_def)

lemma index_triggers_get:
  "set (dict_getd (index_triggers ps d) k []) = set (dict_getd d k []) \<union> {name. \<exists>ks. (name, ks) \<in> set ps \<and> k \<in> set ks}"
  by (induction ps d rule: index_triggers.induct) (auto simp: add_triggers_get)

lemma trigger_to_nodes_get: "set (dict_getd (trigger_to_nodes ps) k []) = {name. \<exists>ks. (name, ks) \<in> set ps \<and> k \<in> set ks}"
  by (simp add: trigger_to_nodes_def index_triggers_get) (simp add: dict_getd_def)

lemma candidates_complete:
  assumes "apply_writes cp chs tasks (Some f) (trigger_to_nodes ps) = Inr (updated, cp', chs')" and "all_proper chs"
    and "channel_versions cp \<noteq> []"
    and "\<And>p trigs. pull_ready cp chs ps p \<Longrightarrow> dict_get ps p = Some trigs \<Longrightarrow>
                \<exists>t \<in> set tasks. task_name t = p \<and> set (triggers t) = set trigs"
  shows "set (next_pull_nodes cp' chs' ps (trigger_to_nodes ps) (Some updated)) = {p. pull_ready cp' chs' ps p}"
proof -
  have "p \<in> set (candidate_nodes cp' ps (trigger_to_nodes ps) (Some updated))" if ready: "pull_ready cp' chs' ps p" for p
  proof -
    from ready obtain trigs where trigs: "dict_get ps p = Some trigs" by (auto simp: pull_ready_iff)
    from ready_has_updated_trigger [OF assms(1-4) ready trigs] obtain k where k: "k \<in> set trigs" "k \<in> updated" by blast
    from trigs have "(p, trigs) \<in> set ps" by (rule map_of_SomeD)
    with k have mem: "p \<in> set (dict_getd (trigger_to_nodes ps) k [])" by (auto simp: trigger_to_nodes_get)
    then have "trigger_to_nodes ps \<noteq> []" by (auto simp: dict_getd_def)
    moreover have "finite updated" using apply_writes_ok [OF assms(1,2)] by (simp add: version_step_def)
    ultimately show ?thesis using k mem by (auto simp: candidate_nodes_def)
  qed
  then show ?thesis by (auto simp: next_pull_nodes_def)
qed

text \<open>C17. The candidate optimisation loses no task: when every node that was ready ran in the step,
  looking only at the nodes subscribed to the channels that \<open>apply_writes\<close> reports finds exactly
  the nodes that a scan of all nodes would find ready.\<close>

theorem candidate_nodes_complete:
  assumes "apply_writes cp chs tasks (Some f) (trigger_to_nodes ps) = Inr (updated, cp', chs')" and "all_proper chs"
    and "channel_versions cp \<noteq> []"
    and "\<And>p trigs. pull_ready cp chs ps p \<Longrightarrow> dict_get ps p = Some trigs \<Longrightarrow>
                \<exists>t \<in> set tasks. task_name t = p \<and> set (triggers t) = set trigs"
  shows "set (next_pull_nodes cp' chs' ps (trigger_to_nodes ps) (Some updated)) = {p. pull_ready cp' chs' ps p}"
  using assms by (rule candidates_complete)

text \<open>A step of two nodes: \<open>n\<close> ran on channel \<open>a\<close> and wrote channel \<open>b\<close>, which triggers \<open>m\<close>.\<close>

definition demo_cp :: graph_checkpoint where
  "demo_cp = \<lparr>channel_versions = [(''a'', 1)], versions_seen = []\<rparr>"

definition demo_channels :: channels where
  "demo_channels = [(''a'', EphemeralValue \<lparr>guard = True, gs_value = Some (Plain PNone)\<rparr>),
                    (''b'', EphemeralValue \<lparr>guard = True, gs_value = None\<rparr>)]"

definition demo_processes :: processes where
  "demo_processes = [(''n'', [''a'']), (''m'', [''b''])]"

definition demo_pull :: task_writes where
  "demo_pull = \<lparr>path = [PathName ''__pregel_pull'', PathName ''n''], task_name = ''n'',
     task_out = [(''b'', Plain (PInt 5))], triggers = [''a'']\<rparr>"

lemma demo_step:
  "apply_writes demo_cp demo_channels [demo_pull] (Some increment) (trigger_to_nodes demo_processes) =
     Inr ({''b''}, \<lparr>channel_versions = [(''a'', 2), (''b'', 2)], versions_seen = [(''n'', [(''a'', 1)])]\<rparr>,
          [(''a'', EphemeralValue \<lparr>guard = True, gs_value = None\<rparr>),
           (''b'', EphemeralValue \<lparr>guard = True, gs_value = Some (Plain (PInt 5))\<rparr>)])"
  by (simp add: apply_writes_def in_order_def demo_cp_def demo_channels_def demo_pull_def demo_processes_def Let_def
      highest_version_def read_channels_of_def reserved_def control_keys_def interrupt_key_def push_key_def see_versions_def
      dict_getd_def settle_def channel_defs rewrap_def increment_def trigger_to_nodes_def)

lemma demo_proper: "all_proper demo_channels"
  by (simp add: all_proper_def demo_channels_def)

theorem versions_monotonic_witness:
  "dict_get [(''a'', 2 :: nat), (''b'', 2)] ''a'' = Some (increment (highest_version (channel_versions demo_cp)))"
proof -
  have "v < increment (Some v)" for v by (simp add: increment_def)
  from versions_monotonic [OF demo_step demo_proper this, of "''a''"] show ?thesis by (simp add: demo_cp_def)
qed

theorem candidate_nodes_complete_witness:
  "set (next_pull_nodes \<lparr>channel_versions = [(''a'', 2), (''b'', 2)], versions_seen = [(''n'', [(''a'', 1)])]\<rparr>
      [(''a'', EphemeralValue \<lparr>guard = True, gs_value = None\<rparr>), (''b'', EphemeralValue \<lparr>guard = True, gs_value = Some (Plain (PInt 5))\<rparr>)]
      demo_processes (trigger_to_nodes demo_processes) (Some {''b''}))
   = {p. pull_ready \<lparr>channel_versions = [(''a'', 2), (''b'', 2)], versions_seen = [(''n'', [(''a'', 1)])]\<rparr>
      [(''a'', EphemeralValue \<lparr>guard = True, gs_value = None\<rparr>), (''b'', EphemeralValue \<lparr>guard = True, gs_value = Some (Plain (PInt 5))\<rparr>)]
      demo_processes p}"
proof (rule candidate_nodes_complete [OF demo_step demo_proper])
  show "channel_versions demo_cp \<noteq> []" by (simp add: demo_cp_def)
  fix p trigs
  assume "pull_ready demo_cp demo_channels demo_processes p" and "dict_get demo_processes p = Some trigs"
  then show "\<exists>t \<in> set [demo_pull]. task_name t = p \<and> set (triggers t) = set trigs"
    by (auto simp: demo_processes_def demo_pull_def pull_ready_def checkpoint_null_version_def demo_cp_def
        is_triggered_def chan_ready_def demo_channels_def split: if_splits)
qed

section \<open>Checkpoints of channels\<close>

lemma store_channels_frame:
  "store_channels next_v updated snaps cs (values, vs) = Inr (values', vs') \<Longrightarrow> k \<notin> fst ` set cs \<Longrightarrow>
   dict_get values' k = dict_get values k \<and> dict_get vs' k = dict_get vs k"
proof (induction cs arbitrary: "values" vs)
  case Nil
  then show ?case by simp
next
  case (Cons kc cs)
  obtain j c where kc: "kc = (j, c)" by (cases kc) auto
  with Cons.prems(2) have k: "k \<noteq> j" "k \<notin> fst ` set cs" by auto
  from Cons.prems(1) kc obtain values1 vs1 where "store_channels next_v updated snaps cs (values1, vs1) = Inr (values', vs')"
    "dict_get values1 k = dict_get values k" "dict_get vs1 k = dict_get vs k"
    using k(1) by (auto split: option.splits if_splits sum.splits)
  with Cons.IH k(2) show ?case by metis
qed

text \<open>What is stored for one channel.\<close>

definition stored_form :: "string set \<Rightarrow> string \<Rightarrow> chan \<Rightarrow> stored option" where
  "stored_form snaps k c =
     (if k \<in> snaps then (case snapshot_of c of Inr b \<Rightarrow> Some b | Inl _ \<Rightarrow> None) else chan_checkpoint c)"

lemma store_channels_stores:
  "store_channels next_v updated snaps cs (values, vs) = Inr (values', vs') \<Longrightarrow> wf_dict cs \<Longrightarrow>
   dict_get cs k = Some c \<Longrightarrow> dict_get vs k \<noteq> None \<Longrightarrow> dict_get values k = None \<Longrightarrow>
   dict_get values' k = stored_form snaps k c"
proof (induction cs arbitrary: "values" vs)
  case Nil
  then show ?case by simp
next
  case (Cons kc cs)
  obtain j d where kc: "kc = (j, d)" by (cases kc) auto
  from Cons.prems(2) kc have wf: "wf_dict cs" "j \<notin> fst ` set cs" by (simp_all add: wf_dict_def)
  show ?case
  proof (cases "k = j")
    case True
    with Cons.prems(3) kc have d: "d = c" by simp
    obtain values1 vs1 where run: "store_channels next_v updated snaps cs (values1, vs1) = Inr (values', vs')"
      and now: "dict_get values1 k = stored_form snaps k c"
      using Cons.prems(1,4,5) kc d True by (auto simp: stored_form_def split: option.splits if_splits sum.splits)
    from store_channels_frame [OF run, of k] wf(2) True now show ?thesis by simp
  next
    case False
    with Cons.prems(1) kc obtain values1 vs1 where "store_channels next_v updated snaps cs (values1, vs1) = Inr (values', vs')"
      "dict_get values1 k = dict_get values k" "dict_get vs1 k = dict_get vs k"
      by (auto split: option.splits if_splits sum.splits)
    with Cons.IH [OF _ wf(1)] Cons.prems(3-5) kc False show ?thesis by simp
  qed
qed

text \<open>Checkpoint round trip: for every channel that has a version, restoring the checkpoint that
  \<open>create_checkpoint\<close> wrote gives back the channel, whether it was stored by value or, for a
  delta channel that is due, as a snapshot.\<close>

theorem checkpoint_roundtrip:
  assumes "create_checkpoint cp (Some chs) updated next_v snaps = Inr sc" and "wf_dict chs"
    and "dict_get chs k = Some c" and "dict_get (sc_versions cp) k \<noteq> None" and "same_chan spec c"
    and "chan_wf c \<and> k \<notin> snaps \<or> (\<exists>s. c = DeltaChannel s \<and> delta_value s \<noteq> None) \<and> k \<in> snaps"
  shows "hydrate sc saver k spec = Inr c"
proof -
  from assms(1) obtain values' vs' where run: "store_channels next_v updated snaps chs ([], sc_versions cp) = Inr (values', vs')"
    and sc: "sc_values sc = values'"
    by (auto simp: create_checkpoint_def Let_def split: sum.splits)
  have st: "dict_get (sc_values sc) k = stored_form snaps k c"
    using store_channels_stores [OF run assms(2,3,4)] by (simp add: sc)
  from assms(6) show ?thesis
  proof
    assume w: "chan_wf c \<and> k \<notin> snaps"
    then have "chan_restore spec (stored_form snaps k c) = Inr c"
      using chan_restore_checkpoint assms(5) by (simp add: stored_form_def)
    moreover have "\<not> needs_replay spec chk" for chk
      using w assms(5) by (cases spec; cases c) (auto simp: same_chan_def)
    ultimately show ?thesis by (cases saver) (simp_all add: hydrate_def st Let_def)
  next
    assume "(\<exists>s. c = DeltaChannel s \<and> delta_value s \<noteq> None) \<and> k \<in> snaps"
    then obtain s v where c: "c = DeltaChannel s" "delta_value s = Some v" "k \<in> snaps" by auto
    from assms(5) c(1) obtain r where r: "spec = DeltaChannel r" "r\<lparr>delta_value := None\<rparr> = s\<lparr>delta_value := None\<rparr>"
      by (cases spec) (auto simp: same_chan_def)
    have "r\<lparr>delta_value := Some v\<rparr> = (r\<lparr>delta_value := None\<rparr>)\<lparr>delta_value := Some v\<rparr>" by simp
    also have "\<dots> = (s\<lparr>delta_value := None\<rparr>)\<lparr>delta_value := Some v\<rparr>" by (simp only: r(2))
    also have "\<dots> = s" using c(2) by simp
    finally have "chan_restore spec (Some (StoredBlob (Snapshot v))) = Inr c" by (simp add: r(1) c(1) delta_restore_def)
    then show ?thesis using c r(1) by (cases saver) (simp_all add: hydrate_def st stored_form_def)
  qed
qed

theorem checkpoint_roundtrip_witness:
  "hydrate \<lparr>sc_values = [(''b'', StoredValue (Plain (PInt 5)))], sc_versions = [(''b'', 2)], sc_seen = [], sc_updated = None\<rparr>
     None ''b'' (LastValue None) = Inr (LastValue (Some (Plain (PInt 5))))"
  by (rule checkpoint_roundtrip [where cp = "\<lparr>sc_values = [], sc_versions = [(''b'', 2)], sc_seen = [], sc_updated = None\<rparr>"
        and chs = "[(''b'', LastValue (Some (Plain (PInt 5))))]" and snaps = "{}" and updated = None and next_v = None])
     (simp_all add: create_checkpoint_def wf_dict_def same_chan_def)

section \<open>Resuming a task with several interrupts\<close>

text \<open>A node that calls \<open>interrupt\<close> with these payloads, one after the other; a suspension ends it.\<close>

fun ask_all :: "pyval list \<Rightarrow> scratchpad \<Rightarrow> pyval outcome list \<times> scratchpad" where
  "ask_all [] sp = ([], sp)"
| "ask_all (p # ps) sp =
     (case interrupt p sp of
        (Returned v, sp') \<Rightarrow> (let (rs, sp'') = ask_all ps sp' in (Returned v # rs, sp''))
      | (r, sp') \<Rightarrow> ([r], sp'))"

lemma ask_all_answers:
  "null_resume sp = None \<Longrightarrow> interrupt_counter sp \<le> length (resume sp) \<Longrightarrow>
   fst (ask_all ps sp) = map Returned (take (length ps) (drop (interrupt_counter sp) (resume sp))) @
     (if length (resume sp) - interrupt_counter sp < length ps
      then [Suspended (ps ! (length (resume sp) - interrupt_counter sp))] else [])"
proof (induction ps arbitrary: sp)
  case Nil
  then show ?case by simp
next
  case (Cons p ps)
  let ?i = "interrupt_counter sp" and ?vs = "resume sp"
  show ?case
  proof (cases "?i < length ?vs")
    case True
    let ?sp = "sp\<lparr>interrupt_counter := Suc ?i\<rparr>"
    have step: "interrupt p sp = (Returned (?vs ! ?i), ?sp)"
      using True by (auto simp: interrupt_def Let_def)
    obtain rs sp'' where ask: "ask_all ps ?sp = (rs, sp'')" by (cases "ask_all ps ?sp")
    have ih: "rs = map Returned (take (length ps) (drop (Suc ?i) ?vs)) @
        (if length ?vs - Suc ?i < length ps then [Suspended (ps ! (length ?vs - Suc ?i))] else [])"
      using Cons.IH [of ?sp] Cons.prems True by (simp add: ask)
    have "drop ?i ?vs = ?vs ! ?i # drop (Suc ?i) ?vs" using True by (simp add: Cons_nth_drop_Suc)
    moreover have "length ?vs - ?i = Suc (length ?vs - Suc ?i)" using True by simp
    ultimately show ?thesis
      using ih by (simp add: step ask)
  next
    case False
    with Cons.prems have "interrupt p sp = (Suspended p, sp\<lparr>interrupt_counter := Suc ?i\<rparr>)"
      by (simp add: interrupt_def get_null_resume_def)
    with False Cons.prems show ?thesis by simp
  qed
qed

text \<open>Resume values reach their interrupts in order: a replayed task with recorded resume values
  gets the first at its first interrupt, the second at its second, and so on, and suspends at the
  first interrupt that has none, with that interrupt's payload.\<close>

theorem resume_values_in_order:
  assumes "find_resume tid pending = Some (PList vs)" and "find_resume null_task_id pending = None"
    and "dict_get resume_map h = None"
  shows "fst (ask_all payloads (build_scratchpad None pending tid h resume_map)) =
     map Returned (take (length payloads) vs) @
     (if length vs < length payloads then [Suspended (payloads ! length vs)] else [])"
proof -
  have "pending \<noteq> []" using assms(1) by auto
  then have "build_scratchpad None pending tid h resume_map = \<lparr>interrupt_counter = 0, resume = vs, null_resume = None\<rparr>"
    using assms by (simp add: build_scratchpad_def)
  then show ?thesis using ask_all_answers [of "\<lparr>interrupt_counter = 0, resume = vs, null_resume = None\<rparr>" payloads] by simp
qed

theorem resume_values_in_order_witness:
  "fst (ask_all [PInt 1, PInt 2, PInt 3] (build_scratchpad None [(''t'', ''__resume__'', PList [PStr ''x'', PStr ''y''])] ''t'' ''h'' []))
     = [Returned (PStr ''x''), Returned (PStr ''y''), Suspended (PInt 3)]"
  by (subst resume_values_in_order [where vs = "[PStr ''x'', PStr ''y'']"]) (simp_all add: null_task_id_def)

end
