(* ===== verification/Procs.thy ===== *)
theory Procs
  imports Prelude
begin

text \<open>
  Stateful procedures of the robot's services: a procedure takes the state of the world it works
  on and returns a value or an exception with the state it leaves, or does not return at all (a
  loop that never ends is \<open>None\<close>). Awaiting is sequential: the modelled code is one task.
\<close>

type_synonym ('a, 's) proc = "'s \<Rightarrow> ('a result \<times> 's) option"

definition ret :: "'a \<Rightarrow> ('a, 's) proc" where
  "ret x s = Some (Inr x, s)"

definition raise_exc :: "py_exc \<Rightarrow> ('a, 's) proc" where
  "raise_exc e s = Some (Inl e, s)"

definition bind_proc :: "('a, 's) proc \<Rightarrow> ('a \<Rightarrow> ('b, 's) proc) \<Rightarrow> ('b, 's) proc" where
  "bind_proc m f s =
     (case m s of
        None \<Rightarrow> None
      | Some (Inl e, s') \<Rightarrow> Some (Inl e, s')
      | Some (Inr x, s') \<Rightarrow> f x s')"

text \<open>A primitive that always returns.\<close>

definition prim :: "('s \<Rightarrow> 'a result \<times> 's) \<Rightarrow> ('a, 's) proc" where
  "prim f s = Some (f s)"

definition of_result :: "'a result \<Rightarrow> ('a, 's) proc" where
  "of_result r s = Some (r, s)"

fun each :: "('a \<Rightarrow> (unit, 's) proc) \<Rightarrow> 'a list \<Rightarrow> (unit, 's) proc" where
  "each f [] = ret ()"
| "each f (x # xs) = bind_proc (f x) (\<lambda>_. each f xs)"

fun collect :: "('a \<Rightarrow> ('b, 's) proc) \<Rightarrow> 'a list \<Rightarrow> ('b list, 's) proc" where
  "collect f [] = ret []"
| "collect f (x # xs) = bind_proc (f x) (\<lambda>y. bind_proc (collect f xs) (\<lambda>ys. ret (y # ys)))"

text \<open>\<open>try: ... except Exception\<close>.\<close>

definition catch_all :: "('a, 's) proc \<Rightarrow> (py_exc \<Rightarrow> ('a, 's) proc) \<Rightarrow> ('a, 's) proc" where
  "catch_all m h s =
     (case m s of
        None \<Rightarrow> None
      | Some (Inl e, s') \<Rightarrow> h e s'
      | Some (Inr x, s') \<Rightarrow> Some (Inr x, s'))"

lemma bind_ok [simp]: "m s = Some (Inr x, s') \<Longrightarrow> bind_proc m f s = f x s'"
  by (simp add: bind_proc_def)

lemma bind_err [simp]: "m s = Some (Inl e, s') \<Longrightarrow> bind_proc m f s = Some (Inl e, s')"
  by (simp add: bind_proc_def)

lemma ret_simp [simp]: "ret x s = Some (Inr x, s)"
  by (simp add: ret_def)

lemma raise_simp [simp]: "raise_exc e s = Some (Inl e, s)"
  by (simp add: raise_exc_def)

lemma prim_simp [simp]: "prim f s = Some (f s)"
  by (simp add: prim_def)

lemma of_result_simp [simp]: "of_result r s = Some (r, s)"
  by (simp add: of_result_def)

lemma bind_okE:
  assumes "bind_proc m f s = Some (Inr y, s'')"
  obtains x s' where "m s = Some (Inr x, s')" "f x s' = Some (Inr y, s'')"
  using assms by (auto simp: bind_proc_def split: option.splits prod.splits sum.splits)

text \<open>Mapping a fallible function over a list stops at the first failure.\<close>

fun map_result :: "('a \<Rightarrow> 'b result) \<Rightarrow> 'a list \<Rightarrow> 'b list result" where
  "map_result f [] = Inr []"
| "map_result f (x # xs) =
     (case f x of Inl e \<Rightarrow> Inl e
      | Inr y \<Rightarrow> (case map_result f xs of Inl e \<Rightarrow> Inl e | Inr ys \<Rightarrow> Inr (y # ys)))"

lemma map_result_ok: "(\<And>x. x \<in> set xs \<Longrightarrow> f x = Inr (g x)) \<Longrightarrow> map_result f xs = Inr (map g xs)"
  by (induction xs) auto

text \<open>\<open>all(...)\<close> over a fallible test: left to right, stopping at the first failure.\<close>

fun all_result :: "('a \<Rightarrow> bool result) \<Rightarrow> 'a list \<Rightarrow> bool result" where
  "all_result f [] = Inr True"
| "all_result f (x # xs) =
     (case f x of Inl e \<Rightarrow> Inl e | Inr b \<Rightarrow> if b then all_result f xs else Inr False)"

lemma all_result_cong [fundef_cong]:
  "xs = ys \<Longrightarrow> (\<And>x. x \<in> set ys \<Longrightarrow> f x = g x) \<Longrightarrow> all_result f xs = all_result g ys"
  by (induction ys arbitrary: xs) (auto split: sum.splits)

lemma all_result_pure: "(\<And>x. x \<in> set xs \<Longrightarrow> f x = Inr (g x)) \<Longrightarrow> all_result f xs = Inr (list_all g xs)"
  by (induction xs) auto

end
