(* ===== verification/Store.thy ===== *)
theory Store
  imports Procs "HOL-Library.List_Lexorder" "HOL-Library.Char_ord"
begin

text \<open>
  The long-term store: the operations of \<open>langgraph/store/base\<close> and their in-memory
  implementation \<open>langgraph/store/memory\<close>, without a vector index (the configuration the robot
  uses: a query text is then ignored). The clock is an argument, read twice by every write.
  Clients see a store as the record \<open>store_ops\<close>; the locale \<open>base_store\<close> states what they rely
  on, and is interpreted on the in-memory store.
\<close>

section \<open>Comparing values\<close>

text \<open>Python's \<open>==\<close>: numbers compare across their types, dictionaries without regard to order.\<close>

fun number_of :: "pyval \<Rightarrow> pyfloat option" where
  "number_of (PBool b) = Some (Fin (if b then 1 else 0))"
| "number_of (PInt i) = Some (Fin (of_int i))"
| "number_of (PFloat f) = Some f"
| "number_of _ = None"

definition num_eq :: "pyval \<Rightarrow> pyval \<Rightarrow> bool" where
  "num_eq v w = (case (number_of v, number_of w) of (Some a, Some b) \<Rightarrow> a = b \<and> a \<noteq> NaN | _ \<Rightarrow> False)"

lemma zip_size_left [termination_simp]: "(a, b) \<in> set (zip xs ys) \<Longrightarrow> size a < Suc (size_list size xs)"
  by (induction xs ys rule: list_induct2') auto

lemma zip_size_right [termination_simp]: "(a, b) \<in> set (zip xs ys) \<Longrightarrow> size b < Suc (size_list size ys)"
  by (induction xs ys rule: list_induct2') auto

fun py_eq :: "pyval \<Rightarrow> pyval \<Rightarrow> bool" where
  "py_eq PNone w = (w = PNone)"
| "py_eq (PStr s) w = (w = PStr s)"
| "py_eq (PList xs) w =
     (case w of PList ys \<Rightarrow> length xs = length ys \<and> list_all (\<lambda>(x, y). py_eq x y) (zip xs ys) | _ \<Rightarrow> False)"
| "py_eq (PDict d) w =
     (case w of
        PDict e \<Rightarrow> length d = length e \<and>
          list_all (\<lambda>(k, v). case dict_get e k of None \<Rightarrow> False | Some u \<Rightarrow> py_eq v u) d
      | _ \<Rightarrow> False)"
| "py_eq v w = num_eq v w"

definition fge :: "pyfloat \<Rightarrow> pyfloat \<Rightarrow> bool" where
  "fge a b \<longleftrightarrow> fgt a b \<or> (a = b \<and> a \<noteq> NaN)"

definition apply_operator :: "pyval \<Rightarrow> string \<Rightarrow> pyval \<Rightarrow> bool result" where
  "apply_operator v oper w =
     (let num = (\<lambda>test. case py_float v of Inl e \<Rightarrow> Inl e
                        | Inr a \<Rightarrow> (case py_float w of Inl e \<Rightarrow> Inl e | Inr b \<Rightarrow> Inr (test a b)))
      in if oper = ''$eq'' then Inr (py_eq v w)
         else if oper = ''$gt'' then num fgt
         else if oper = ''$gte'' then num fge
         else if oper = ''$lt'' then num (\<lambda>a b. fgt b a)
         else if oper = ''$lte'' then num (\<lambda>a b. fge b a)
         else if oper = ''$ne'' then Inr (\<not> py_eq v w)
         else Inl ValueError)"

definition is_operator :: "string \<times> pyval \<Rightarrow> bool" where
  "is_operator kv = (take 1 (fst kv) = ''$'')"

fun compare_values :: "pyval \<Rightarrow> pyval \<Rightarrow> bool result" where
  "compare_values v (PDict f) =
     (if list_ex is_operator f then all_result (\<lambda>(k, w). apply_operator v k w) f
      else (case v of
              PDict d \<Rightarrow> all_result (\<lambda>(k, w). compare_values (dict_getd d k PNone) w) f
            | _ \<Rightarrow> Inr False))"
| "compare_values v (PList fs) =
     (case v of
        PList xs \<Rightarrow> if length xs = length fs then all_result (\<lambda>(x, w). compare_values x w) (zip xs fs) else Inr False
      | _ \<Rightarrow> Inr False)"
| "compare_values v w = Inr (py_eq v w)"

section \<open>Items and operations\<close>

type_synonym namespace = "string list"

text \<open>Timestamps are integers (microseconds since the epoch).\<close>

record item =
  item_value :: pydict
  item_key :: string
  item_namespace :: namespace
  created_at :: int
  updated_at :: int

datatype match_condition = MatchPrefix "string list" | MatchSuffix "string list"

datatype store_op =
    GetOp namespace string
  | SearchOp namespace pydict nat nat  \<comment> \<open>prefix, filter, limit, offset\<close>
  | ListNamespacesOp "match_condition list" "nat option" nat nat  \<comment> \<open>conditions, depth, limit, offset\<close>
  | PutOp namespace string "pydict option"  \<comment> \<open>no value deletes\<close>

datatype op_answer =
    AnItem "item option"
  | SomeItems "item list"
  | SomeNamespaces "namespace list"
  | Nothing

record memory_store =
  store_data :: "(namespace, (string, item) dict) dict"
  clock_reads :: nat

definition empty_store :: memory_store where
  "empty_store = \<lparr>store_data = [], clock_reads = 0\<rparr>"

text \<open>\<open>_data\<close> is a \<open>defaultdict(dict)\<close>: subscripting it creates the namespace.\<close>

definition touch :: "namespace \<Rightarrow> memory_store \<Rightarrow> memory_store" where
  "touch ns st =
     (if dict_get (store_data st) ns = None then st\<lparr>store_data := dict_set ns [] (store_data st)\<rparr> else st)"

definition bucket :: "memory_store \<Rightarrow> namespace \<Rightarrow> (string, item) dict" where
  "bucket st ns = dict_getd (store_data st) ns []"

section \<open>Reading\<close>

definition has_prefix :: "namespace \<Rightarrow> namespace \<Rightarrow> bool" where
  "has_prefix p ns \<longleftrightarrow> length p \<le> length ns \<and> take (length p) ns = p"

definition passes_filter :: "pydict \<Rightarrow> item \<Rightarrow> bool result" where
  "passes_filter flt it = all_result (\<lambda>(k, w). compare_values (dict_getd (item_value it) k PNone) w) flt"

fun filter_result :: "('a \<Rightarrow> bool result) \<Rightarrow> 'a list \<Rightarrow> 'a list result" where
  "filter_result f [] = Inr []"
| "filter_result f (x # xs) =
     (case f x of Inl e \<Rightarrow> Inl e
      | Inr b \<Rightarrow> (case filter_result f xs of Inl e \<Rightarrow> Inl e | Inr ys \<Rightarrow> Inr (if b then x # ys else ys)))"

text \<open>All items below a namespace prefix, in the order of the dictionaries.\<close>

definition items_under :: "memory_store \<Rightarrow> namespace \<Rightarrow> item list" where
  "items_under st p = concat (map (\<lambda>(ns, d). map snd d) (filter (\<lambda>(ns, d). has_prefix p ns) (store_data st)))"

definition filter_items :: "namespace \<Rightarrow> pydict \<Rightarrow> memory_store \<Rightarrow> item list result" where
  "filter_items p flt st = filter_result (passes_filter flt) (items_under st p)"

text \<open>The search of a store without embeddings: the candidates from \<open>offset\<close>, at most \<open>limit\<close>.\<close>

definition page_of :: "nat \<Rightarrow> nat \<Rightarrow> 'a list \<Rightarrow> 'a list" where
  "page_of cnt offset xs = take cnt (drop offset xs)"

fun matches :: "match_condition \<Rightarrow> namespace \<Rightarrow> bool" where
  "matches (MatchPrefix p) ns \<longleftrightarrow>
     length p \<le> length ns \<and> list_all (\<lambda>(k, w). w = ''*'' \<or> k = w) (zip ns p)"
| "matches (MatchSuffix p) ns \<longleftrightarrow>
     length p \<le> length ns \<and> list_all (\<lambda>(k, w). w = ''*'' \<or> k = w) (zip (rev ns) (rev p))"

definition list_namespaces :: "match_condition list \<Rightarrow> nat option \<Rightarrow> nat \<Rightarrow> nat \<Rightarrow> memory_store \<Rightarrow> namespace list" where
  "list_namespaces conds depth cnt offset st =
     (let nss = filter (\<lambda>ns. list_all (\<lambda>c. matches c ns) conds) (map fst (store_data st));
          cut = (case depth of None \<Rightarrow> sort nss | Some n \<Rightarrow> sort (remdups (map (take n) nss)))
      in page_of cnt offset cut)"

section \<open>Batches\<close>

text \<open>First pass: reads are answered in place, searches take their candidates, and writes are
  collected, the last one to a key winning.\<close>

type_synonym pending_puts = "(namespace \<times> string, pydict option) dict"

fun prepare_ops :: "store_op list \<Rightarrow> pending_puts \<Rightarrow> memory_store \<Rightarrow> (op_answer list \<times> pending_puts) result \<times> memory_store" where
  "prepare_ops [] puts st = (Inr ([], puts), st)"
| "prepare_ops (oper # ops) puts st =
     (let continue = (\<lambda>a puts' st'. case prepare_ops ops puts' st' of
                          (Inl e, st'') \<Rightarrow> (Inl e, st'')
                        | (Inr (as, puts''), st'') \<Rightarrow> (Inr (a # as, puts''), st''))
      in case oper of
           GetOp ns k \<Rightarrow> (let st' = touch ns st in continue (AnItem (dict_get (bucket st' ns) k)) puts st')
         | SearchOp p flt cnt offset \<Rightarrow>
             (case filter_items p flt st of
                Inl e \<Rightarrow> (Inl e, st)
              | Inr xs \<Rightarrow> continue (SomeItems (page_of cnt offset xs)) puts st)
         | ListNamespacesOp conds depth cnt offset \<Rightarrow>
             continue (SomeNamespaces (list_namespaces conds depth cnt offset st)) puts st
         | PutOp ns k v \<Rightarrow> continue Nothing (dict_set (ns, k) v puts) st)"

definition put_item :: "(nat \<Rightarrow> int) \<Rightarrow> namespace \<Rightarrow> string \<Rightarrow> pydict option \<Rightarrow> memory_store \<Rightarrow> memory_store" where
  "put_item clock ns k v st =
     (let st' = touch ns st in
      case v of
        None \<Rightarrow> st'\<lparr>store_data := dict_set ns (dict_del k (bucket st' ns)) (store_data st')\<rparr>
      | Some d \<Rightarrow>
          (let n = clock_reads st';
               it = \<lparr>item_value = d, item_key = k, item_namespace = ns, created_at = clock n, updated_at = clock (Suc n)\<rparr>
           in \<lparr>store_data = dict_set ns (dict_set k it (bucket st' ns)) (store_data st'), clock_reads = n + 2\<rparr>))"

fun apply_put_ops :: "(nat \<Rightarrow> int) \<Rightarrow> pending_puts \<Rightarrow> memory_store \<Rightarrow> memory_store" where
  "apply_put_ops clock [] st = st"
| "apply_put_ops clock (((ns, k), v) # puts) st = apply_put_ops clock puts (put_item clock ns k v st)"

definition batch :: "(nat \<Rightarrow> int) \<Rightarrow> store_op list \<Rightarrow> memory_store \<Rightarrow> op_answer list result \<times> memory_store" where
  "batch clock ops st =
     (case prepare_ops ops [] st of
        (Inl e, st') \<Rightarrow> (Inl e, st')
      | (Inr (as, puts), st') \<Rightarrow> (Inr as, apply_put_ops clock puts st'))"

section \<open>The methods of the base class\<close>

definition namespace_ok :: "namespace \<Rightarrow> bool" where
  "namespace_ok ns \<longleftrightarrow> ns \<noteq> [] \<and> list_all (\<lambda>l. CHR ''.'' \<notin> set l \<and> l \<noteq> []) ns \<and> hd ns \<noteq> ''langgraph''"

definition validate_namespace :: "namespace \<Rightarrow> unit result" where
  "validate_namespace ns = (if namespace_ok ns then Inr () else Inl InvalidNamespaceError)"

text \<open>The operations a client calls; the arguments it leaves out have their defaults here (no
  filter, no query, no time to live).\<close>

record 's store_ops =
  op_get :: "namespace \<Rightarrow> string \<Rightarrow> 's \<Rightarrow> item option result \<times> 's"
  op_put :: "namespace \<Rightarrow> string \<Rightarrow> pydict \<Rightarrow> 's \<Rightarrow> unit result \<times> 's"
  op_delete :: "namespace \<Rightarrow> string \<Rightarrow> 's \<Rightarrow> unit result \<times> 's"
  op_search :: "namespace \<Rightarrow> nat \<Rightarrow> nat \<Rightarrow> 's \<Rightarrow> item list result \<times> 's"  \<comment> \<open>prefix, limit, offset\<close>

fun item_answer :: "op_answer list result \<times> 's \<Rightarrow> item option result \<times> 's" where
  "item_answer (Inr [AnItem x], st) = (Inr x, st)"
| "item_answer (Inl e, st) = (Inl e, st)"
| "item_answer (_, st) = (Inl TypeError, st)"

fun items_answer :: "op_answer list result \<times> 's \<Rightarrow> item list result \<times> 's" where
  "items_answer (Inr [SomeItems x], st) = (Inr x, st)"
| "items_answer (Inl e, st) = (Inl e, st)"
| "items_answer (_, st) = (Inl TypeError, st)"

fun unit_answer :: "'a result \<times> 's \<Rightarrow> unit result \<times> 's" where
  "unit_answer (Inr _, st) = (Inr (), st)"
| "unit_answer (Inl e, st) = (Inl e, st)"

definition memory_ops :: "(nat \<Rightarrow> int) \<Rightarrow> memory_store store_ops" where
  "memory_ops clock =
     \<lparr>op_get = (\<lambda>ns k st. item_answer (batch clock [GetOp ns k] st)),
      op_put = (\<lambda>ns k v st. case validate_namespace ns of
                  Inl e \<Rightarrow> (Inl e, st)
                | Inr _ \<Rightarrow> unit_answer (batch clock [PutOp ns k (Some v)] st)),
      op_delete = (\<lambda>ns k st. unit_answer (batch clock [PutOp ns k None] st)),
      op_search = (\<lambda>p cnt offset st. items_answer (batch clock [SearchOp p [] cnt offset] st))\<rparr>"

text \<open>Several clients read a whole namespace page by page. The loop ends when a page is short; with
  a store that never returns a short page it does not end, hence the partial function.\<close>

partial_function (option) read_pages ::
  "'s store_ops \<Rightarrow> nat \<Rightarrow> namespace \<Rightarrow> nat \<Rightarrow> item list \<Rightarrow> 's \<Rightarrow> (item list result \<times> 's) option" where
  "read_pages ops page ns offset acc s =
     (case op_search ops ns page offset s of
        (Inl e, s') \<Rightarrow> Some (Inl e, s')
      | (Inr xs, s') \<Rightarrow> if length xs < page then Some (Inr (acc @ xs), s')
                         else read_pages ops page ns (offset + page) (acc @ xs) s')"

definition page_size :: nat where
  "page_size = 100"

definition read_all :: "'s store_ops \<Rightarrow> namespace \<Rightarrow> (item list, 's) proc" where
  "read_all ops ns = read_pages ops page_size ns 0 []"

section \<open>What a store holds\<close>

definition look :: "memory_store \<Rightarrow> namespace \<Rightarrow> string \<Rightarrow> item option" where
  "look st ns k = dict_get (bucket st ns) k"

definition stored_well :: "namespace \<Rightarrow> (string, item) dict \<Rightarrow> bool" where
  "stored_well ns d \<longleftrightarrow> wf_dict d \<and> list_all (\<lambda>(k, it). item_key it = k \<and> item_namespace it = ns) d"

definition store_wf :: "memory_store \<Rightarrow> bool" where
  "store_wf st \<longleftrightarrow> wf_dict (store_data st) \<and> list_all (\<lambda>(ns, d). stored_well ns d) (store_data st)"

definition same_items :: "memory_store \<Rightarrow> memory_store \<Rightarrow> bool" where
  "same_items st st' \<longleftrightarrow> bucket st' = bucket st \<and> items_under st' = items_under st \<and> clock_reads st' = clock_reads st \<and>
     (store_wf st \<longrightarrow> store_wf st')"

lemma same_items_refl [simp]: "same_items st st"
  by (simp add: same_items_def)

lemma same_items_trans: "same_items st st' \<Longrightarrow> same_items st' st'' \<Longrightarrow> same_items st st''"
  by (simp add: same_items_def)

lemma same_items_look: "same_items st st' \<Longrightarrow> look st' = look st"
  by (intro ext) (simp add: same_items_def look_def)

lemma stored_well_Nil [simp]: "stored_well ns []"
  by (simp add: stored_well_def)

lemma set_dict_set: "x \<in> set (dict_set k v d) \<Longrightarrow> x = (k, v) \<or> x \<in> set d"
  by (induction d) (auto split: if_splits)

lemma store_wf_set:
  assumes "store_wf st" and "stored_well ns d"
  shows "store_wf \<lparr>store_data = dict_set ns d (store_data st), clock_reads = n\<rparr>"
  using assms by (auto simp: store_wf_def list_all_iff dest!: set_dict_set)

lemma store_wf_upd: "store_wf st \<Longrightarrow> stored_well ns d \<Longrightarrow> store_wf (st\<lparr>store_data := dict_set ns d (store_data st)\<rparr>)"
  by (auto simp: store_wf_def list_all_iff dest!: set_dict_set)

lemma set_dict_del: "x \<in> set (dict_del k d) \<Longrightarrow> x \<in> set d"
  by (simp add: AList.delete_eq)

lemma store_wf_bucket: "store_wf st \<Longrightarrow> stored_well ns (bucket st ns)"
  by (auto simp: store_wf_def bucket_def dict_getd_def list_all_iff split: option.splits dest: map_of_SomeD)

lemma stored_well_set: "stored_well ns d \<Longrightarrow> item_key it = k \<Longrightarrow> item_namespace it = ns \<Longrightarrow> stored_well ns (dict_set k it d)"
  by (auto simp: stored_well_def list_all_iff dest!: set_dict_set)

lemma stored_well_del: "stored_well ns d \<Longrightarrow> stored_well ns (dict_del k d)"
  by (auto simp: stored_well_def list_all_iff dest!: set_dict_del)

lemma bucket_touch [simp]: "bucket (touch ns st) = bucket st"
  by (intro ext) (simp add: touch_def bucket_def dict_getd_def)

lemma dict_set_new: "dict_get d k = None \<Longrightarrow> dict_set k v d = d @ [(k, v)]"
  by (induction d) auto

lemma touch_same_items [simp]: "same_items st (touch ns st)"
proof -
  have "items_under (touch ns st) = items_under st"
    by (intro ext) (simp add: touch_def items_under_def dict_set_new)
  moreover have "store_wf st \<longrightarrow> store_wf (touch ns st)"
    by (simp add: touch_def store_wf_upd)
  moreover have "clock_reads (touch ns st) = clock_reads st" by (simp add: touch_def)
  ultimately show ?thesis by (simp add: same_items_def)
qed

lemma look_put_item:
  "look (put_item clock ns k v st) ns' k' =
     (if ns' = ns \<and> k' = k
      then map_option (\<lambda>d. \<lparr>item_value = d, item_key = k, item_namespace = ns,
             created_at = clock (clock_reads st), updated_at = clock (Suc (clock_reads st))\<rparr>) v
      else look st ns' k')"
proof -
  have reads: "clock_reads (touch ns st) = clock_reads st" by (simp add: touch_def)
  have "bucket (put_item clock ns k v st) ns' =
     (if ns' = ns
      then (case v of None \<Rightarrow> dict_del k (bucket st ns)
            | Some d \<Rightarrow> dict_set k \<lparr>item_value = d, item_key = k, item_namespace = ns,
                created_at = clock (clock_reads st), updated_at = clock (Suc (clock_reads st))\<rparr> (bucket st ns))
      else bucket (touch ns st) ns')"
    by (cases v) (simp_all add: put_item_def Let_def bucket_def dict_getd_def reads touch_def)
  then show ?thesis by (cases v) (auto simp: look_def)
qed

lemma put_item_wf: "store_wf st \<Longrightarrow> store_wf (put_item clock ns k v st)"
proof -
  assume wf: "store_wf st"
  then have t: "store_wf (touch ns st)" using touch_same_items [of st ns] by (simp add: same_items_def)
  have b: "stored_well ns (bucket st ns)" using store_wf_bucket [OF wf] .
  show ?thesis
  proof (cases v)
    case None
    then show ?thesis
      using store_wf_upd [OF t stored_well_del [OF b, of k]] by (simp add: put_item_def Let_def)
  next
    case (Some d)
    then show ?thesis
      using store_wf_set [OF t stored_well_set [OF b]] by (simp add: put_item_def Let_def)
  qed
qed

text \<open>The items below a prefix are exactly the ones that can be looked up there, each once.\<close>

lemma items_under_iff:
  assumes "store_wf st"
  shows "it \<in> set (items_under st p) \<longleftrightarrow> has_prefix p (item_namespace it) \<and> look st (item_namespace it) (item_key it) = Some it"
proof
  assume "it \<in> set (items_under st p)"
  then obtain ns d k where d: "(ns, d) \<in> set (store_data st)" "has_prefix p ns" "(k, it) \<in> set d"
    by (auto simp: items_under_def)
  with assms have w: "stored_well ns d" by (auto simp: store_wf_def list_all_iff)
  then have "item_key it = k" "item_namespace it = ns" "dict_get d k = Some it"
    using d(3) by (auto simp: stored_well_def list_all_iff wf_dict_def)
  moreover have "bucket st ns = d"
    using assms d(1) by (simp add: bucket_def dict_getd_def store_wf_def wf_dict_def)
  ultimately show "has_prefix p (item_namespace it) \<and> look st (item_namespace it) (item_key it) = Some it"
    using d(2) by (simp add: look_def)
next
  assume r: "has_prefix p (item_namespace it) \<and> look st (item_namespace it) (item_key it) = Some it"
  then obtain d where "dict_get (store_data st) (item_namespace it) = Some d" "dict_get d (item_key it) = Some it"
    by (auto simp: look_def bucket_def dict_getd_def split: option.splits)
  then have "(item_namespace it, d) \<in> set (store_data st)" "(item_key it, it) \<in> set d"
    by (auto dest: map_of_SomeD)
  then show "it \<in> set (items_under st p)" using r by (force simp: items_under_def)
qed

text \<open>An item's address.\<close>

definition addr :: "item \<Rightarrow> namespace \<times> string" where
  "addr it = (item_namespace it, item_key it)"

definition group_items :: "namespace \<Rightarrow> namespace \<times> (string, item) dict \<Rightarrow> item list" where
  "group_items p g = (if has_prefix p (fst g) then map snd (snd g) else [])"

lemma items_under_alt: "items_under st p = concat (map (group_items p) (store_data st))"
proof -
  have "concat (map (\<lambda>(ns, d). map snd d) (filter (\<lambda>(ns, d). has_prefix p ns) xs)) = concat (map (group_items p) xs)" for xs
    by (induction xs) (auto simp: group_items_def)
  then show ?thesis by (simp add: items_under_def)
qed

lemma dict_set_old:
  "wf_dict d \<Longrightarrow> dict_get d k \<noteq> None \<Longrightarrow> dict_set k v d = map (\<lambda>(k', w). (k', if k' = k then v else w)) d"
proof (induction d)
  case Nil
  then show ?case by simp
next
  case (Cons x d)
  obtain k' w where x: "x = (k', w)" by (cases x)
  show ?case
  proof (cases "k' = k")
    case True
    then have "k \<notin> fst ` set d" using Cons.prems(1) x by (simp add: wf_dict_def)
    then have "map (\<lambda>(k', w). (k', if k' = k then v else w)) d = d" by (intro map_idI) force
    then show ?thesis using True x by simp
  next
    case False
    then show ?thesis using Cons x by (simp add: wf_dict_def)
  qed
qed

text \<open>Rewriting one namespace rewrites its part of every listing.\<close>

lemma items_under_rewrite:
  assumes "store_wf st" and "dict_get (store_data st) ns = Some d" and "map snd d' = concat (map f (map snd d))"
    and "\<And>it. item_namespace it \<noteq> ns \<Longrightarrow> f it = [it]"
  shows "items_under (st\<lparr>store_data := dict_set ns d' (store_data st)\<rparr>) p = concat (map f (items_under st p))"
proof -
  have wf: "wf_dict (store_data st)" using assms(1) by (simp add: store_wf_def)
  have "concat (map (group_items p) (map (\<lambda>(n, w). (n, if n = ns then d' else w)) xs)) = concat (map f (concat (map (group_items p) xs)))"
    if "set xs \<subseteq> set (store_data st)" for xs
    using that
  proof (induction xs)
    case Nil
    then show ?case by simp
  next
    case (Cons x xs)
    obtain n w where x: "x = (n, w)" by (cases x)
    with Cons.prems have nw: "(n, w) \<in> set (store_data st)" by simp
    have "group_items p (n, if n = ns then d' else w) = concat (map f (group_items p (n, w)))"
    proof (cases "n = ns")
      case True
      then have "w = d" using nw assms(2) wf by (simp add: wf_dict_def)
      then show ?thesis using True assms(3) by (simp add: group_items_def)
    next
      case False
      have "f it = [it]" if "it \<in> set (map snd w)" for it
      proof (rule assms(4))
        show "item_namespace it \<noteq> ns"
          using that nw False assms(1) by (fastforce simp: store_wf_def stored_well_def list_all_iff)
      qed
      then have "concat (map f (map snd w)) = map snd w" by (induction w) auto
      then show ?thesis using False by (simp add: group_items_def)
    qed
    then show ?case using Cons x by simp
  qed
  from this [of "store_data st"] show ?thesis
    using dict_set_old [OF wf, of ns d'] assms(2) by (simp add: items_under_alt)
qed

lemma items_under_distinct:
  assumes "store_wf st"
  shows "distinct (map addr (items_under st p))"
proof -
  have one: "distinct (map addr (group_items p (ns, d)))" if "stored_well ns d" for ns d
  proof -
    have "map item_key (map snd d) = map fst d"
      using that by (auto simp: stored_well_def list_all_iff)
    moreover have "distinct (map fst d)" using that by (simp add: stored_well_def wf_dict_def)
    ultimately have "distinct (map item_key (map snd d))" by (simp only:)
    then have "distinct (map addr (map snd d))"
      by (auto simp: distinct_map inj_on_def addr_def)
    then show ?thesis by (simp add: group_items_def)
  qed
  have loc: "fst ` addr ` set (group_items p (ns, d)) \<subseteq> {ns}" if "stored_well ns d" for ns d
    using that by (auto simp: group_items_def addr_def stored_well_def list_all_iff split: if_splits)
  have "distinct (map addr (concat (map (group_items p) xs))) \<and>
      fst ` addr ` set (concat (map (group_items p) xs)) \<subseteq> set (map fst xs)"
    if "distinct (map fst xs)" "list_all (\<lambda>(ns, d). stored_well ns d) xs" for xs
    using that
  proof (induction xs)
    case Nil
    then show ?case by simp
  next
    case (Cons x xs)
    obtain ns d where x: "x = (ns, d)" by (cases x)
    with Cons.prems have w: "stored_well ns d" by simp
    have r: "distinct (map addr (concat (map (group_items p) xs)))"
      "fst ` addr ` set (concat (map (group_items p) xs)) \<subseteq> set (map fst xs)"
      using Cons by auto
    have "addr ` set (group_items p (ns, d)) \<inter> addr ` set (concat (map (group_items p) xs)) = {}"
    proof -
      have "ns \<notin> set (map fst xs)" using Cons.prems(1) x by simp
      then show ?thesis using loc [OF w] r(2) by blast
    qed
    then have "distinct (map addr (group_items p x @ concat (map (group_items p) xs)))"
      using one [OF w] r(1) x by (simp add: distinct_append del: set_concat)
    moreover have "fst ` addr ` set (group_items p x @ concat (map (group_items p) xs)) \<subseteq> insert ns (set (map fst xs))"
      using loc [OF w] r(2) x unfolding set_append image_Un by blast
    ultimately show ?case using x by (simp del: set_concat)
  qed
  from this [of "store_data st"] assms show ?thesis
    by (simp add: items_under_alt store_wf_def wf_dict_def)
qed

section \<open>A batch\<close>

fun last_put :: "namespace \<Rightarrow> string \<Rightarrow> store_op list \<Rightarrow> pydict option option \<Rightarrow> pydict option option" where
  "last_put ns k [] acc = acc"
| "last_put ns k (oper # ops) acc =
     last_put ns k ops
       (case oper of PutOp ns' k' v \<Rightarrow> if ns' = ns \<and> k' = k then Some v else acc | _ \<Rightarrow> acc)"

text \<open>What an operation of a batch answers, given the store before the batch.\<close>

fun answers :: "memory_store \<Rightarrow> store_op \<Rightarrow> op_answer \<Rightarrow> bool" where
  "answers st (GetOp ns k) a \<longleftrightarrow> a = AnItem (look st ns k)"
| "answers st (SearchOp p flt cnt offset) a \<longleftrightarrow> (\<exists>xs. filter_items p flt st = Inr xs \<and> a = SomeItems (page_of cnt offset xs))"
| "answers st (ListNamespacesOp conds depth cnt offset) a \<longleftrightarrow> (\<exists>nss. a = SomeNamespaces nss)"
| "answers st (PutOp ns k v) a \<longleftrightarrow> a = Nothing"

lemma same_items_answers: "same_items st st' \<Longrightarrow> answers st' oper a = answers st oper a"
  by (cases oper) (simp_all add: same_items_look, simp add: filter_items_def same_items_def)

lemma prepare_ops_spec:
  "prepare_ops ops puts st = (Inr (as, puts'), st') \<Longrightarrow>
     same_items st st' \<and> list_all2 (answers st) ops as \<and>
     (\<forall>ns k. dict_get puts' (ns, k) = last_put ns k ops (dict_get puts (ns, k))) \<and> (wf_dict puts \<longrightarrow> wf_dict puts')"
proof (induction ops arbitrary: puts st as)
  case Nil
  then show ?case by simp
next
  case (Cons oper ops)
  define puts1 where "puts1 = (case oper of PutOp ns k v \<Rightarrow> dict_set (ns, k) v puts | _ \<Rightarrow> puts)"
  define st1 where "st1 = (case oper of GetOp ns k \<Rightarrow> touch ns st | _ \<Rightarrow> st)"
  obtain a as1 where as: "as = a # as1" and s1: "prepare_ops ops puts1 st1 = (Inr (as1, puts'), st')"
    and s3: "answers st oper a"
    using Cons.prems
    by (cases oper) (auto simp: Let_def look_def puts1_def st1_def split: prod.splits sum.splits)
  have s2: "same_items st st1" by (cases oper) (simp_all add: st1_def)
  have s4: "wf_dict puts \<longrightarrow> wf_dict puts1" by (cases oper) (simp_all add: puts1_def)
  have s5: "\<forall>ns k. last_put ns k ops (dict_get puts1 (ns, k)) = last_put ns k (oper # ops) (dict_get puts (ns, k))"
    by (cases oper) (auto simp: puts1_def)
  note r = Cons.IH [OF s1]
  have "list_all2 (answers st) ops as1"
    using r same_items_answers [OF s2] by (auto simp: list_all2_conv_all_nth)
  then show ?case using r s2 s3 s4 s5 as same_items_trans [OF s2] by auto
qed

lemma apply_put_ops_look:
  "wf_dict puts \<Longrightarrow> map_option item_value (look (apply_put_ops clock puts st) ns k) =
     (case dict_get puts (ns, k) of None \<Rightarrow> map_option item_value (look st ns k) | Some v \<Rightarrow> v)"
proof (induction puts arbitrary: st)
  case Nil
  then show ?case by simp
next
  case (Cons x puts)
  obtain ns' k' v where x: "x = ((ns', k'), v)" by (metis prod.exhaust)
  have wf: "wf_dict puts" and new: "(ns', k') \<notin> fst ` set puts" using Cons.prems x by (auto simp: wf_dict_def)
  then have "dict_get puts (ns', k') = None" by (simp add: map_of_eq_None_iff)
  then show ?case
    using Cons.IH [OF wf, of "put_item clock ns' k' v st"] x
    by (auto simp: look_put_item option.map_comp comp_def map_option.identity split: option.splits)
qed

lemma apply_put_ops_wf: "store_wf st \<Longrightarrow> store_wf (apply_put_ops clock puts st)"
proof (induction puts arbitrary: st)
  case Nil
  then show ?case by simp
next
  case (Cons x puts)
  then show ?case by (cases x; cases "fst x") (simp add: put_item_wf)
qed

text \<open>A batch reads first and writes last: when a batch does not raise, every read in it answers
  from the store as it was before the batch, wherever the writes stand, and afterwards each key
  holds the value of the last write to it in the batch, its old value if there was none.\<close>

theorem batch_reads_then_writes:
  assumes "batch clock ops st = (Inr as, st')"
  shows "list_all2 (answers st) ops as \<and>
     map_option item_value (look st' ns k) =
       (case last_put ns k ops None of None \<Rightarrow> map_option item_value (look st ns k) | Some v \<Rightarrow> v)"
proof -
  obtain puts st1 where p: "prepare_ops ops [] st = (Inr (as, puts), st1)" "st' = apply_put_ops clock puts st1"
    using assms by (auto simp: batch_def split: prod.splits sum.splits)
  note r = prepare_ops_spec [OF p(1)]
  have "look st1 = look st" using r same_items_look by blast
  then show ?thesis using r p(2) apply_put_ops_look [of puts clock st1 ns k] by (simp split: option.splits)
qed

definition demo_batch :: "store_op list" where
  "demo_batch = [PutOp [''r'', ''facts''] ''k'' (Some [(''v'', PInt 1)]), GetOp [''r'', ''facts''] ''k'',
     PutOp [''r'', ''facts''] ''k'' (Some [(''v'', PInt 2)])]"

theorem batch_reads_then_writes_witness:
  "list_all2 (answers empty_store) demo_batch [Nothing, AnItem None, Nothing] \<and>
   map_option item_value (look (snd (batch (\<lambda>n. int n) demo_batch empty_store)) [''r'', ''facts''] ''k'') = Some [(''v'', PInt 2)]"
  using batch_reads_then_writes [where clock = "\<lambda>n. int n" and ops = demo_batch and st = empty_store
      and as = "[Nothing, AnItem None, Nothing]" and st' = "snd (batch (\<lambda>n. int n) demo_batch empty_store)"
      and ns = "[''r'', ''facts'']" and k = "''k''"]
  by (simp add: batch_def demo_batch_def empty_store_def touch_def bucket_def dict_getd_def)

section \<open>Every store is well formed\<close>

lemma look_addr: "store_wf st \<Longrightarrow> look st ns k = Some it \<Longrightarrow> addr it = (ns, k)"
  using store_wf_bucket [of st ns]
  by (auto simp: look_def stored_well_def list_all_iff addr_def dest!: map_of_SomeD)

lemma prepare_ops_wf: "prepare_ops ops puts st = (r, st') \<Longrightarrow> store_wf st \<Longrightarrow> store_wf st'"
proof (induction ops arbitrary: puts st r)
  case Nil
  then show ?case by simp
next
  case (Cons oper ops)
  have "store_wf (touch ns st)" for ns using Cons.prems(2) touch_same_items by (auto simp: same_items_def)
  with Cons show ?case
    by (cases oper) (fastforce simp: Let_def split: prod.splits sum.splits)+
qed

lemma batch_wf: "store_wf st \<Longrightarrow> store_wf (snd (batch clock ops st))"
  using prepare_ops_wf [of ops "[]" st] by (auto simp: batch_def apply_put_ops_wf split: prod.splits sum.splits)

lemma batches_wf: "store_wf st \<Longrightarrow> store_wf (fold (\<lambda>ops st. snd (batch clock ops st)) bs st)"
  by (induction bs arbitrary: st) (simp_all add: batch_wf)

text \<open>C40. Items know their address: after any sequence of batches from the empty store, failing ones
  included, an item found under a namespace and a key carries that namespace and key and is among
  the items under the namespace, and no search sees two items of one address.\<close>

theorem store_stays_well_formed:
  "(let st = fold (\<lambda>ops st. snd (batch clock ops st)) batches empty_store
    in distinct (map addr (items_under st p)) \<and>
       (case look st ns k of None \<Rightarrow> True | Some it \<Rightarrow> addr it = (ns, k) \<and> it \<in> set (items_under st ns)))"
proof -
  let ?st = "fold (\<lambda>ops st. snd (batch clock ops st)) batches empty_store"
  have "store_wf empty_store" by (simp add: store_wf_def empty_store_def)
  then have wf: "store_wf ?st" by (rule batches_wf)
  have "addr it = (ns, k) \<and> it \<in> set (items_under ?st ns)" if "look ?st ns k = Some it" for it
    using look_addr [OF wf that] that by (auto simp: addr_def items_under_iff [OF wf] has_prefix_def)
  then show ?thesis using items_under_distinct [OF wf, of p] by (auto simp: Let_def split: option.splits)
qed

section \<open>The contract of a store\<close>

locale base_store =
  fixes ops :: "'s store_ops"
    and lookup :: "'s \<Rightarrow> namespace \<Rightarrow> string \<Rightarrow> item option"
    and under :: "'s \<Rightarrow> namespace \<Rightarrow> item list"
    and good :: "'s \<Rightarrow> bool"
  assumes get_law: "good s \<Longrightarrow>
      \<exists>s'. op_get ops ns k s = (Inr (lookup s ns k), s') \<and> good s' \<and> lookup s' = lookup s \<and> under s' = under s"
    and put_law: "good s \<Longrightarrow> namespace_ok ns \<Longrightarrow>
      \<exists>s' it. op_put ops ns k v s = (Inr (), s') \<and> good s' \<and> item_value it = v \<and> addr it = (ns, k) \<and>
        lookup s' = (\<lambda>ns' k'. if ns' = ns \<and> k' = k then Some it else lookup s ns' k') \<and>
        (lookup s ns k \<noteq> None \<longrightarrow> (\<forall>p. under s' p = map (\<lambda>x. if addr x = (ns, k) then it else x) (under s p)))"
    and put_bad_law: "\<not> namespace_ok ns \<Longrightarrow> op_put ops ns k v s = (Inl InvalidNamespaceError, s)"
    and delete_law: "good s \<Longrightarrow>
      \<exists>s'. op_delete ops ns k s = (Inr (), s') \<and> good s' \<and>
        lookup s' = (\<lambda>ns' k'. if ns' = ns \<and> k' = k then None else lookup s ns' k') \<and>
        (\<forall>p. under s' p = filter (\<lambda>x. addr x \<noteq> (ns, k)) (under s p))"
    and search_law: "good s \<Longrightarrow> op_search ops p cnt offset s = (Inr (page_of cnt offset (under s p)), s)"
    and under_law: "good s \<Longrightarrow>
      it \<in> set (under s p) \<longleftrightarrow> has_prefix p (item_namespace it) \<and> lookup s (item_namespace it) (item_key it) = Some it"
    and distinct_law: "good s \<Longrightarrow> distinct (map addr (under s p))"
begin

text \<open>Reading page by page ends and returns everything, in order, once.\<close>

lemma read_pages_all:
  assumes "good s" and "0 < page"
  shows "offset \<le> length (under s ns) \<Longrightarrow>
     read_pages ops page ns offset (take offset (under s ns)) s = Some (Inr (under s ns), s)"
proof (induction "length (under s ns) - offset" arbitrary: offset rule: less_induct)
  case less
  let ?xs = "under s ns"
  show ?case
  proof (cases "length (page_of page offset ?xs) < page")
    case True
    then have "length ?xs - offset < page" by (auto simp: page_of_def min_def split: if_splits)
    then have "take offset ?xs @ page_of page offset ?xs = ?xs" by (simp add: page_of_def)
    then show ?thesis using True search_law [OF assms(1)] by (subst read_pages.simps) simp
  next
    case False
    then have full: "page \<le> length ?xs - offset" by (auto simp: page_of_def min_def split: if_splits)
    then have le: "offset + page \<le> length ?xs" using less.prems by simp
    have "take offset ?xs @ page_of page offset ?xs = take (offset + page) ?xs"
      by (simp add: page_of_def take_add)
    moreover have "length ?xs - (offset + page) < length ?xs - offset" using le assms(2) by simp
    ultimately show ?thesis
      using False less.hyps [OF _ le] search_law [OF assms(1)] by (subst read_pages.simps) simp
  qed
qed

lemma read_all_law: "good s \<Longrightarrow> read_all ops ns s = Some (Inr (under s ns), s)"
  using read_pages_all [of s page_size 0 ns] by (simp add: read_all_def page_size_def)

end

text \<open>The in-memory store keeps the contract.\<close>

lemma filter_result_nil: "filter_result (\<lambda>_. Inr True) xs = Inr xs"
  by (induction xs) auto

lemma filter_items_nil [simp]: "filter_items p [] st = Inr (items_under st p)"
proof -
  have "passes_filter [] = (\<lambda>_. Inr True)" by (intro ext) (simp add: passes_filter_def)
  then show ?thesis by (simp add: filter_items_def filter_result_nil)
qed

lemma memory_get: "op_get (memory_ops clock) ns k st = (Inr (look st ns k), touch ns st)"
  by (simp add: memory_ops_def batch_def look_def)

lemma memory_put:
  "op_put (memory_ops clock) ns k v st =
     (if namespace_ok ns then (Inr (), put_item clock ns k (Some v) st) else (Inl InvalidNamespaceError, st))"
  by (simp add: memory_ops_def batch_def validate_namespace_def)

lemma memory_delete: "op_delete (memory_ops clock) ns k st = (Inr (), put_item clock ns k None st)"
  by (simp add: memory_ops_def batch_def)

lemma memory_search: "op_search (memory_ops clock) p cnt offset st = (Inr (page_of cnt offset (items_under st p)), st)"
  by (simp add: memory_ops_def batch_def)

text \<open>Writing an existing key rewrites it in place; deleting a key removes it from every listing.\<close>

lemma items_under_put_old:
  assumes "store_wf st" and "look st ns k \<noteq> None" and "look (put_item clock ns k (Some v) st) ns k = Some it"
  shows "items_under (put_item clock ns k (Some v) st) p = map (\<lambda>x. if addr x = (ns, k) then it else x) (items_under st p)"
proof -
  obtain d where d: "dict_get (store_data st) ns = Some d" "dict_get d k \<noteq> None"
    using assms(2) by (auto simp: look_def bucket_def dict_getd_def split: option.splits)
  then have t: "touch ns st = st" and b: "bucket st ns = d" by (auto simp: touch_def bucket_def dict_getd_def)
  have w: "stored_well ns d" using store_wf_bucket [OF assms(1), of ns] b by simp
  have put: "put_item clock ns k (Some v) st =
      (st\<lparr>store_data := dict_set ns (dict_set k it d) (store_data st)\<rparr>)\<lparr>clock_reads := clock_reads st + 2\<rparr>"
    using assms(3) by (simp add: look_put_item) (simp add: put_item_def t b Let_def)
  have "map snd (dict_set k it d) = map snd (map (\<lambda>(k', x). (k', if k' = k then it else x)) d)"
    using dict_set_old [of d k it] d(2) w by (simp only: stored_well_def simp_thms)
  also have "\<dots> = map (\<lambda>x. if addr x = (ns, k) then it else x) (map snd d)"
  proof -
    have "addr (snd y) = (ns, fst y)" if "y \<in> set d" for y
      using w that by (cases y) (auto simp: stored_well_def list_all_iff addr_def)
    then show ?thesis unfolding map_map by (intro map_cong refl) (simp add: case_prod_beta)
  qed
  finally have "map snd (dict_set k it d) = concat (map (\<lambda>x. [if addr x = (ns, k) then it else x]) (map snd d))"
    by (simp only: concat_map_singleton)
  then have "items_under (st\<lparr>store_data := dict_set ns (dict_set k it d) (store_data st)\<rparr>) p =
      concat (map (\<lambda>x. [if addr x = (ns, k) then it else x]) (items_under st p))"
    by (rule items_under_rewrite [OF assms(1) d(1)]) (simp add: addr_def)
  moreover have "items_under (s\<lparr>clock_reads := n\<rparr>) p = items_under s p" for s n by (simp add: items_under_def)
  ultimately show ?thesis by (simp only: put concat_map_singleton)
qed

lemma touch_get: "dict_get (store_data (touch ns st)) ns = Some (bucket st ns)"
  by (cases "dict_get (store_data st) ns") (simp_all add: touch_def bucket_def dict_getd_def)

lemma items_under_delete:
  assumes "store_wf st"
  shows "items_under (put_item clock ns k None st) p = filter (\<lambda>x. addr x \<noteq> (ns, k)) (items_under st p)"
proof -
  let ?st = "touch ns st"
  have same: "items_under ?st p = items_under st p" and wf: "store_wf ?st"
    using touch_same_items [of st ns] assms by (simp_all add: same_items_def)
  define d where "d = bucket st ns"
  have d: "dict_get (store_data ?st) ns = Some d" by (simp add: touch_get d_def)
  have b: "bucket st ns = d" by (simp add: d_def)
  have w: "stored_well ns d" using store_wf_bucket [OF assms, of ns] b by simp
  have flt: "concat (map (\<lambda>x. if P x then [x] else []) xs) = filter P xs" for P and xs :: "item list"
    by (induction xs) auto
  have "map snd (dict_del k d) = filter (\<lambda>x. addr x \<noteq> (ns, k)) (map snd d)"
    using w by (induction d) (auto simp: stored_well_def wf_dict_def addr_def)
  then have "map snd (dict_del k d) = concat (map (\<lambda>x. if addr x \<noteq> (ns, k) then [x] else []) (map snd d))"
    by (simp only: flt)
  then have "items_under (?st\<lparr>store_data := dict_set ns (dict_del k d) (store_data ?st)\<rparr>) p =
      concat (map (\<lambda>x. if addr x \<noteq> (ns, k) then [x] else []) (items_under ?st p))"
    by (rule items_under_rewrite [OF wf d]) (simp add: addr_def)
  then show ?thesis by (simp only: flt same) (simp add: put_item_def b Let_def)
qed

interpretation memory: base_store "memory_ops clock" look items_under store_wf for clock
proof
  fix s :: memory_store and ns :: namespace and k p v cnt offset it
  assume g: "store_wf s"
  show "\<exists>s'. op_get (memory_ops clock) ns k s = (Inr (look s ns k), s') \<and> store_wf s' \<and> look s' = look s \<and> items_under s' = items_under s"
    using g touch_same_items [of s ns] same_items_look [OF touch_same_items [of s ns]] by (simp add: memory_get same_items_def)
  show "\<exists>s' it. op_put (memory_ops clock) ns k v s = (Inr (), s') \<and> store_wf s' \<and> item_value it = v \<and> addr it = (ns, k) \<and>
        look s' = (\<lambda>ns' k'. if ns' = ns \<and> k' = k then Some it else look s ns' k') \<and>
        (look s ns k \<noteq> None \<longrightarrow> (\<forall>p. items_under s' p = map (\<lambda>x. if addr x = (ns, k) then it else x) (items_under s p)))"
    if "namespace_ok ns"
  proof -
    obtain it where it: "look (put_item clock ns k (Some v) s) ns k = Some it" "item_value it = v" "addr it = (ns, k)"
      by (simp add: look_put_item addr_def)
    moreover have "look (put_item clock ns k (Some v) s) = (\<lambda>ns' k'. if ns' = ns \<and> k' = k then Some it else look s ns' k')"
      using it(1) by (intro ext) (auto simp: look_put_item)
    ultimately show ?thesis
      using that put_item_wf [OF g] items_under_put_old [OF g _ it(1)]
      by (intro exI [of _ "put_item clock ns k (Some v) s"] exI [of _ it]) (simp add: memory_put)
  qed
  show "\<exists>s'. op_delete (memory_ops clock) ns k s = (Inr (), s') \<and> store_wf s' \<and>
        look s' = (\<lambda>ns' k'. if ns' = ns \<and> k' = k then None else look s ns' k') \<and>
        (\<forall>p. items_under s' p = filter (\<lambda>x. addr x \<noteq> (ns, k)) (items_under s p))"
    using put_item_wf [OF g] items_under_delete [OF g] by (auto simp: memory_delete look_put_item fun_eq_iff)
  show "op_search (memory_ops clock) p cnt offset s = (Inr (page_of cnt offset (items_under s p)), s)"
    by (simp add: memory_search)
  show "it \<in> set (items_under s p) \<longleftrightarrow> has_prefix p (item_namespace it) \<and> look s (item_namespace it) (item_key it) = Some it"
    by (rule items_under_iff [OF g])
  show "distinct (map addr (items_under s p))" by (rule items_under_distinct [OF g])
next
  fix s :: memory_store and ns k v
  show "\<not> namespace_ok ns \<Longrightarrow> op_put (memory_ops clock) ns k v s = (Inl InvalidNamespaceError, s)"
    by (simp add: memory_put)
qed

end
