(* ===== verification/Text.thy ===== *)
theory Text
  imports Prelude
begin

text \<open>
  The text operations of Python the program uses: \<open>int(s)\<close>, \<open>str\<close>, \<open>repr\<close> and \<open>json.dumps\<close> with
  \<open>ensure_ascii=False\<close>, \<open>str.partition\<close>, \<open>str.join\<close> and slicing into chunks. A string is a list of
  8-bit characters. The digits of a finite float are a parameter \<open>ff\<close>: no modelled code reads them
  back.
\<close>

section \<open>Numbers\<close>

definition digit_char :: "nat \<Rightarrow> char" where
  "digit_char n = char_of (48 + n)"

fun nat_str :: "nat \<Rightarrow> string" where
  "nat_str n = (if n < 10 then [digit_char n] else nat_str (n div 10) @ [digit_char (n mod 10)])"

declare nat_str.simps [simp del]

definition int_str :: "int \<Rightarrow> string" where
  "int_str i = (if i < 0 then ''-'' @ nat_str (nat (- i)) else nat_str (nat i))"

text \<open>\<open>int(s)\<close>: white space around, a sign, digits with single underscores between them.\<close>

fun digit_groups :: "bool \<Rightarrow> string \<Rightarrow> bool" where
  "digit_groups after_digit [] = after_digit"
| "digit_groups after_digit (c # cs) =
     (if is_digit c then digit_groups True cs
      else if c = CHR ''_'' \<and> after_digit then digit_groups False cs
      else False)"

definition py_int :: "string \<Rightarrow> int option" where
  "py_int s =
     (let t = strip s; neg = (take 1 t = ''-'');
          ds = (if take 1 t \<in> {''-'', ''+''} then drop 1 t else t)
      in if digit_groups False ds
         then Some (let v = int (digits_value (filter is_digit ds)) in if neg then - v else v)
         else None)"

lemma of_char_digit_char: "n < 10 \<Longrightarrow> of_char (digit_char n) = 48 + n"
  by (simp add: digit_char_def)

lemma is_digit_digit_char: "n < 10 \<Longrightarrow> is_digit (digit_char n)"
  by (simp add: is_digit_def digit_char_def)

lemma nat_str_digits: "list_all is_digit (nat_str n) \<and> nat_str n \<noteq> []"
proof (induction n rule: nat_str.induct)
  case (1 n)
  then show ?case by (subst (1 2) nat_str.simps) (auto simp: is_digit_digit_char)
qed

lemma digits_value_snoc: "digits_value (s @ [c]) = 10 * digits_value s + (of_char c - 48)"
  by (simp add: digits_value_def)

lemma digits_value_nat_str: "digits_value (nat_str n) = n"
proof (induction n rule: nat_str.induct)
  case (1 n)
  show ?case
  proof (cases "n < 10")
    case True
    then show ?thesis by (subst nat_str.simps) (simp add: digits_value_def of_char_digit_char)
  next
    case False
    with 1 show ?thesis
      by (subst nat_str.simps) (simp add: digits_value_snoc of_char_digit_char)
  qed
qed

lemma digit_groups_all: "list_all is_digit s \<Longrightarrow> digit_groups b s = (b \<or> s \<noteq> [])"
  by (induction s arbitrary: b) auto

lemma is_digit_not_space: "is_digit c \<Longrightarrow> \<not> is_space c"
  by (auto simp: is_digit_def is_space_def)

lemma dropWhile_unchanged: "s \<noteq> [] \<Longrightarrow> \<not> P (hd s) \<Longrightarrow> dropWhile P s = s"
  by (cases s) auto

lemma strip_unchanged: "s \<noteq> [] \<Longrightarrow> \<not> is_space (hd s) \<Longrightarrow> \<not> is_space (last s) \<Longrightarrow> strip s = s"
  by (simp add: strip_def lstrip_def rstrip_def dropWhile_unchanged hd_rev)

text \<open>Reading back a printed integer.\<close>

lemma py_int_int_str: "py_int (int_str i) = Some i"
proof -
  define ds where "ds = nat_str (if i < 0 then nat (- i) else nat i)"
  have ds: "list_all is_digit ds" "ds \<noteq> []" using nat_str_digits by (auto simp: ds_def)
  have sp: "\<not> is_space (last ds)" "\<not> is_space (hd ds)"
    using ds by (auto simp: list_all_iff is_digit_not_space)
  have hd: "hd ds \<noteq> CHR ''-'' \<and> hd ds \<noteq> CHR ''+''"
    using ds by (cases ds) (auto simp: is_digit_def)
  have val: "digits_value (filter is_digit ds) = (if i < 0 then nat (- i) else nat i)"
    using ds(1) by (simp add: ds_def list_all_iff digits_value_nat_str)
  have sign: "\<not> is_space CHR ''-''" by (simp add: is_space_def)
  show ?thesis
  proof (cases "i < 0")
    case True
    then have s: "int_str i = CHR ''-'' # ds" by (simp add: int_str_def ds_def)
    have "strip (CHR ''-'' # ds) = CHR ''-'' # ds" using ds sp sign by (intro strip_unchanged) auto
    with True val ds show ?thesis by (simp add: py_int_def s digit_groups_all)
  next
    case False
    then have s: "int_str i = ds" by (simp add: int_str_def ds_def)
    have "strip ds = ds" using ds sp by (intro strip_unchanged) auto
    with False val ds hd show ?thesis
      by (cases ds) (auto simp: py_int_def s digit_groups_all Let_def)
  qed
qed

section \<open>repr and str\<close>

definition hex_digit :: "nat \<Rightarrow> char" where
  "hex_digit n = (if n < 10 then digit_char n else char_of (87 + n))"

definition is_printable :: "char \<Rightarrow> bool" where
  "is_printable c \<longleftrightarrow> (let n = (of_char c :: nat) in 32 \<le> n \<and> n \<noteq> 173 \<and> \<not> (127 \<le> n \<and> n \<le> 160))"

definition repr_char :: "char \<Rightarrow> char \<Rightarrow> string" where
  "repr_char q c =
     (if c = q \<or> c = CHR 0x5C then [CHR 0x5C, c]
      else if c = CHR 0x0A then [CHR 0x5C, CHR ''n'']
      else if c = CHR 0x0D then [CHR 0x5C, CHR ''r'']
      else if c = CHR 0x09 then [CHR 0x5C, CHR ''t'']
      else if is_printable c then [c]
      else [CHR 0x5C, CHR ''x'', hex_digit (of_char c div 16), hex_digit (of_char c mod 16)])"

definition repr_str :: "string \<Rightarrow> string" where
  "repr_str s =
     (let q = (if CHR 0x27 \<in> set s \<and> CHR 0x22 \<notin> set s then CHR 0x22 else CHR 0x27)
      in [q] @ concat (map (repr_char q) s) @ [q])"

fun join :: "string \<Rightarrow> string list \<Rightarrow> string" where
  "join sep [] = []"
| "join sep [s] = s"
| "join sep (s # t # ts) = s @ sep @ join sep (t # ts)"

fun float_text :: "string \<Rightarrow> string \<Rightarrow> (rat \<Rightarrow> string) \<Rightarrow> pyfloat \<Rightarrow> string" where
  "float_text infs nans ff (Fin q) = ff q"
| "float_text infs nans ff PosInf = infs"
| "float_text infs nans ff NegInf = CHR ''-'' # infs"
| "float_text infs nans ff NaN = nans"

fun py_repr :: "(rat \<Rightarrow> string) \<Rightarrow> pyval \<Rightarrow> string" where
  "py_repr ff PNone = ''None''"
| "py_repr ff (PBool b) = (if b then ''True'' else ''False'')"
| "py_repr ff (PInt i) = int_str i"
| "py_repr ff (PFloat f) = float_text ''inf'' ''nan'' ff f"
| "py_repr ff (PStr s) = repr_str s"
| "py_repr ff (PList vs) = ''['' @ join '', '' (map (py_repr ff) vs) @ '']''"
| "py_repr ff (PDict d) = ''{'' @ join '', '' (map (\<lambda>kv. repr_str (fst kv) @ '': '' @ py_repr ff (snd kv)) d) @ ''}''"

fun py_str :: "(rat \<Rightarrow> string) \<Rightarrow> pyval \<Rightarrow> string" where
  "py_str ff (PStr s) = s"
| "py_str ff v = py_repr ff v"

section \<open>json.dumps\<close>

definition json_char :: "char \<Rightarrow> string" where
  "json_char c =
     (if c = CHR 0x22 \<or> c = CHR 0x5C then [CHR 0x5C, c]
      else if c = CHR 0x0A then [CHR 0x5C, CHR ''n'']
      else if c = CHR 0x0D then [CHR 0x5C, CHR ''r'']
      else if c = CHR 0x09 then [CHR 0x5C, CHR ''t'']
      else if c = CHR 0x08 then [CHR 0x5C, CHR ''b'']
      else if c = CHR 0x0C then [CHR 0x5C, CHR ''f'']
      else if (of_char c :: nat) < 32
        then [CHR 0x5C, CHR ''u'', CHR ''0'', CHR ''0'', hex_digit (of_char c div 16), hex_digit (of_char c mod 16)]
      else [c])"

definition json_str :: "string \<Rightarrow> string" where
  "json_str s = [CHR 0x22] @ concat (map json_char s) @ [CHR 0x22]"

fun json_dumps :: "(rat \<Rightarrow> string) \<Rightarrow> pyval \<Rightarrow> string" where
  "json_dumps ff PNone = ''null''"
| "json_dumps ff (PBool b) = (if b then ''true'' else ''false'')"
| "json_dumps ff (PInt i) = int_str i"
| "json_dumps ff (PFloat f) = float_text ''Infinity'' ''NaN'' ff f"
| "json_dumps ff (PStr s) = json_str s"
| "json_dumps ff (PList vs) = ''['' @ join '', '' (map (json_dumps ff) vs) @ '']''"
| "json_dumps ff (PDict d) = ''{'' @ join '', '' (map (\<lambda>kv. json_str (fst kv) @ '': '' @ json_dumps ff (snd kv)) d) @ ''}''"

section \<open>Splitting\<close>

text \<open>\<open>s.partition(c)\<close> for one character: head, whether the separator was found, tail.\<close>

definition partition_at :: "char \<Rightarrow> string \<Rightarrow> string \<times> bool \<times> string" where
  "partition_at c s =
     (let h = takeWhile (\<lambda>x. x \<noteq> c) s; r = dropWhile (\<lambda>x. x \<noteq> c) s in (h, r \<noteq> [], drop 1 r))"

text \<open>\<open>[s[o : o + n] for o in range(0, len(s), n)]\<close>, for a positive \<open>n\<close>.\<close>

text \<open>\<open>str.splitlines()\<close> and the character classes it breaks at; a carriage return takes a following
  line feed with it.\<close>

definition is_line_break :: "char \<Rightarrow> bool" where
  "is_line_break c \<longleftrightarrow> of_char c \<in> {10::nat, 11, 12, 13, 28, 29, 30, 133}"

function split_lines :: "string \<Rightarrow> string \<Rightarrow> string list" where
  "split_lines acc [] = (if acc = [] then [] else [rev acc])"
| "split_lines acc (c # cs) =
     (if is_line_break c
      then rev acc # split_lines [] (if of_char c = (13::nat) \<and> take 1 cs = [CHR 0x0A] then drop 1 cs else cs)
      else split_lines (c # acc) cs)"
  by pat_completeness auto
termination by (relation "measure (length \<circ> snd)") auto

definition splitlines :: "string \<Rightarrow> string list" where
  "splitlines s = split_lines [] s"

function chunks :: "nat \<Rightarrow> 'a list \<Rightarrow> 'a list list" where
  "chunks n xs = (if n = 0 \<or> xs = [] then [] else take n xs # chunks n (drop n xs))"
  by pat_completeness auto
termination by (relation "measure (\<lambda>(n, xs). length xs)") auto

declare chunks.simps [simp del]

lemma chunks_concat: "n > 0 \<Longrightarrow> concat (chunks n xs) = xs"
proof (induction n xs rule: chunks.induct)
  case (1 n xs)
  then show ?case by (subst chunks.simps) auto
qed

lemma chunks_bounds: "c \<in> set (chunks n xs) \<Longrightarrow> 0 < length c \<and> length c \<le> n"
proof (induction n xs rule: chunks.induct)
  case (1 n xs)
  show ?case
  proof (cases "n = 0 \<or> xs = []")
    case True
    with 1(2) show ?thesis by (simp add: chunks.simps [of n xs])
  next
    case False
    with 1(2) have "c = take n xs \<or> c \<in> set (chunks n (drop n xs))" by (subst (asm) chunks.simps) simp
    with False 1(1) show ?thesis by auto
  qed
qed

end
