(* ===== verification/Saver.thy ===== *)
theory Saver
  imports Store Text "HOL-Library.Product_Lexorder" "HOL-Library.Multiset"
begin

text \<open>
  The in-memory checkpoint saver, \<open>langgraph/checkpoint/memory/__init__.py\<close>, with the helpers of
  \<open>langgraph/checkpoint/base/__init__.py\<close>: checkpoints by thread, namespace and id, the blobs of the
  channels by version, the pending writes, and the history of a delta channel, in the saver's own
  walk and in the default one of the base class. Serialised values are the values themselves: what
  is stored is a copy. The empty dictionaries that a \<open>defaultdict\<close> makes on a read are left out, no
  operation tells them from missing ones.
\<close>

section \<open>Checkpoints and configurations\<close>

text \<open>\<open>'v\<close> are channel values, \<open>'r\<close> channel versions.\<close>

record ('v, 'r) saved_checkpoint =
  ck_format :: int
  ck_id :: string
  ck_ts :: string
  ck_values :: "(string, 'v) dict"
  ck_versions :: "(string, 'r) dict"
  ck_seen :: "(string, (string, 'r) dict) dict"
  ck_updated :: "string list option"

text \<open>The configurable part of a configuration, and its metadata.\<close>

record saver_config =
  cf_thread :: string
  cf_ns :: "string option"
  cf_id :: "string option"
  cf_other :: pydict
  cf_metadata :: pydict

record ('v, 'r) saved_entry =
  se_checkpoint :: "('v, 'r) saved_checkpoint"
  se_metadata :: pydict
  se_parent :: "string option"

text \<open>A stored write: task, channel, value, task path.\<close>

type_synonym 'v stored_write = "string \<times> string \<times> 'v \<times> string"

text \<open>A blob is None for an empty channel.\<close>

record ('v, 'r) saver =
  sv_storage :: "(string, (string, (string, ('v, 'r) saved_entry) dict) dict) dict"
  sv_writes :: "(string \<times> string \<times> string, (string \<times> int, 'v stored_write) dict) dict"
  sv_blobs :: "(string \<times> string \<times> string \<times> 'r, 'v option) dict"

definition empty_saver :: "('v, 'r) saver" where
  "empty_saver = \<lparr>sv_storage = [], sv_writes = [], sv_blobs = []\<rparr>"

record ('v, 'r) checkpoint_tuple =
  ct_thread :: string
  ct_ns :: string
  ct_id :: string
  ct_checkpoint :: "('v, 'r) saved_checkpoint"
  ct_metadata :: pydict
  ct_parent :: "string option"
  ct_writes :: "(string \<times> string \<times> 'v) list"

section \<open>Helpers of the base module\<close>

text \<open>\<open>get_checkpoint_metadata\<close>: strings lose their NUL characters; the metadata and the configurable
  part add the keys that are new, not excluded and of a simple type.\<close>

definition excluded_metadata_keys :: "string list" where
  "excluded_metadata_keys = [''thread_id'', ''checkpoint_id'', ''checkpoint_ns'', ''checkpoint_map'', ''langgraph_step'',
     ''langgraph_node'', ''langgraph_triggers'', ''langgraph_path'', ''langgraph_checkpoint_ns'']"

fun no_nul :: "pyval \<Rightarrow> pyval" where
  "no_nul (PStr s) = PStr (filter (\<lambda>c. c \<noteq> CHR 0x00) s)"
| "no_nul v = v"

fun is_simple :: "pyval \<Rightarrow> bool" where
  "is_simple (PStr _) = True"
| "is_simple (PInt _) = True"
| "is_simple (PBool _) = True"
| "is_simple (PFloat _) = True"
| "is_simple _ = False"

definition add_metadata :: "string \<times> pyval \<Rightarrow> pydict \<Rightarrow> pydict" where
  "add_metadata kv md =
     (if dict_get md (fst kv) \<noteq> None \<or> fst kv \<in> set excluded_metadata_keys \<or> take 2 (fst kv) = ''__'' \<or> \<not> is_simple (snd kv)
      then md else dict_set (fst kv) (no_nul (snd kv)) md)"

definition checkpoint_metadata :: "saver_config \<Rightarrow> pydict \<Rightarrow> pydict" where
  "checkpoint_metadata cfg md =
     fold add_metadata (cf_metadata cfg @ cf_other cfg) (map (\<lambda>(k, v). (k, no_nul v)) md)"

text \<open>\<open>WRITES_IDX_MAP\<close>.\<close>

definition write_index :: "string \<Rightarrow> nat \<Rightarrow> int" where
  "write_index c i =
     (if c = ''__error__'' then -1 else if c = ''__scheduled__'' then -2 else if c = ''__interrupt__'' then -3
      else if c = ''__resume__'' then -4 else int i)"

text \<open>\<open>if checkpoint_id := get_checkpoint_id(config)\<close>: an empty id counts as none.\<close>

definition wanted_id :: "saver_config \<Rightarrow> string option" where
  "wanted_id cfg = (case cf_id cfg of Some (c # cs) \<Rightarrow> Some (c # cs) | _ \<Rightarrow> None)"

section \<open>Reading\<close>

definition config_ns :: "saver_config \<Rightarrow> string" where
  "config_ns cfg = (case cf_ns cfg of Some n \<Rightarrow> n | None \<Rightarrow> [])"

definition entries_at :: "('v, 'r) saver \<Rightarrow> string \<Rightarrow> string \<Rightarrow> (string, ('v, 'r) saved_entry) dict" where
  "entries_at s t n = dict_getd (dict_getd (sv_storage s) t []) n []"

definition writes_at :: "('v, 'r) saver \<Rightarrow> string \<Rightarrow> string \<Rightarrow> string \<Rightarrow> (string \<times> int, 'v stored_write) dict" where
  "writes_at s t n i = dict_getd (sv_writes s) (t, n, i) []"

definition load_blobs :: "('v, 'r) saver \<Rightarrow> string \<Rightarrow> string \<Rightarrow> (string, 'r) dict \<Rightarrow> (string, 'v) dict" where
  "load_blobs s t n versions =
     fold (\<lambda>(k, ver) result. case dict_get (sv_blobs s) (t, n, k, ver) of Some (Some v) \<Rightarrow> dict_set k v result | _ \<Rightarrow> result) versions []"

definition tuple_of :: "('v, 'r) saver \<Rightarrow> string \<Rightarrow> string \<Rightarrow> string \<Rightarrow> ('v, 'r) saved_entry \<Rightarrow> ('v, 'r) checkpoint_tuple" where
  "tuple_of s t n i e =
     \<lparr>ct_thread = t, ct_ns = n, ct_id = i,
      ct_checkpoint = (se_checkpoint e)\<lparr>ck_values := load_blobs s t n (ck_versions (se_checkpoint e))\<rparr>,
      ct_metadata = se_metadata e,
      ct_parent = (case se_parent e of Some (c # cs) \<Rightarrow> Some (c # cs) | _ \<Rightarrow> None),
      ct_writes = map (\<lambda>(k, (tid, c, v, tp)). (tid, c, v)) (writes_at s t n i)\<rparr>"

definition get_tuple :: "saver_config \<Rightarrow> ('v, 'r) saver \<Rightarrow> ('v, 'r) checkpoint_tuple option" where
  "get_tuple cfg s =
     (let t = cf_thread cfg; n = config_ns cfg; es = entries_at s t n in
      case wanted_id cfg of
        Some i \<Rightarrow> map_option (tuple_of s t n i) (dict_get es i)
      | None \<Rightarrow>
          if es = [] then None
          else (let i = Max (set (map fst es)) in map_option (tuple_of s t n i) (dict_get es i)))"

text \<open>\<open>list\<close>, consumed to the end; newest first within a namespace.\<close>

definition newest_first :: "(string, 'a) dict \<Rightarrow> (string \<times> 'a) list" where
  "newest_first es = rev (sort_key fst es)"

definition listed :: "saver_config option \<Rightarrow> pydict \<Rightarrow> string option \<Rightarrow> string \<times> string \<times> string \<times> ('v, 'r) saved_entry \<Rightarrow> bool" where
  "listed cfg flt before h =
     (case h of (t, n, i, e) \<Rightarrow>
        (case cfg of None \<Rightarrow> True | Some c \<Rightarrow>
           (case cf_ns c of None \<Rightarrow> True | Some m \<Rightarrow> n = m) \<and> (case wanted_id c of None \<Rightarrow> True | Some j \<Rightarrow> i = j)) \<and>
        (case before of Some (b # bs) \<Rightarrow> i < b # bs | _ \<Rightarrow> True) \<and>
        list_all (\<lambda>(k, v). py_eq v (dict_getd (se_metadata e) k PNone)) flt)"

definition all_entries :: "string list \<Rightarrow> ('v, 'r) saver \<Rightarrow> (string \<times> string \<times> string \<times> ('v, 'r) saved_entry) list" where
  "all_entries threads s =
     concat (map (\<lambda>t. concat (map (\<lambda>(n, es). map (\<lambda>(i, e). (t, n, i, e)) (newest_first es)) (dict_getd (sv_storage s) t []))) threads)"

definition list_checkpoints ::
  "saver_config option \<Rightarrow> pydict \<Rightarrow> string option \<Rightarrow> int option \<Rightarrow> ('v, 'r) saver \<Rightarrow> ('v, 'r) checkpoint_tuple list" where
  "list_checkpoints cfg flt before cnt s =
     (let threads = (case cfg of Some c \<Rightarrow> [cf_thread c] | None \<Rightarrow> map fst (sv_storage s));
          hits = filter (listed cfg flt before) (all_entries threads s)
      in map (\<lambda>(t, n, i, e). tuple_of s t n i e) (case cnt of None \<Rightarrow> hits | Some m \<Rightarrow> take (nat m) hits))"

section \<open>Writing\<close>

definition put_blob :: "string \<Rightarrow> string \<Rightarrow> (string, 'v) dict \<Rightarrow> string \<times> 'r
    \<Rightarrow> (string \<times> string \<times> string \<times> 'r, 'v option) dict \<Rightarrow> (string \<times> string \<times> string \<times> 'r, 'v option) dict" where
  "put_blob t n values kv blobs = dict_set (t, n, fst kv, snd kv) (dict_get values (fst kv)) blobs"

definition put_entry :: "string \<Rightarrow> string \<Rightarrow> string \<Rightarrow> ('v, 'r) saved_entry \<Rightarrow> ('v, 'r) saver \<Rightarrow> ('v, 'r) saver" where
  "put_entry t n i e s =
     s\<lparr>sv_storage := dict_set t (dict_set n (dict_set i e (entries_at s t n)) (dict_getd (sv_storage s) t [])) (sv_storage s)\<rparr>"

text \<open>\<open>put\<close> answers the configuration of the new checkpoint; a configuration without a namespace is a
  KeyError.\<close>

definition put_checkpoint ::
  "saver_config \<Rightarrow> ('v, 'r) saved_checkpoint \<Rightarrow> pydict \<Rightarrow> (string, 'r) dict \<Rightarrow> ('v, 'r) saver \<Rightarrow> saver_config result \<times> ('v, 'r) saver" where
  "put_checkpoint cfg c md new_versions s =
     (case cf_ns cfg of
        None \<Rightarrow> (Inl KeyError, s)
      | Some n \<Rightarrow>
          (let t = cf_thread cfg;
               s1 = s\<lparr>sv_blobs := fold (put_blob t n (ck_values c)) new_versions (sv_blobs s)\<rparr>;
               e = \<lparr>se_checkpoint = c\<lparr>ck_values := []\<rparr>, se_metadata = checkpoint_metadata cfg md, se_parent = cf_id cfg\<rparr>
           in (Inr \<lparr>cf_thread = t, cf_ns = Some n, cf_id = Some (ck_id c), cf_other = [], cf_metadata = []\<rparr>,
               put_entry t n (ck_id c) e s1)))"

fun add_writes :: "string \<Rightarrow> string \<Rightarrow> nat \<Rightarrow> (string \<times> 'v) list \<Rightarrow> (string \<times> int, 'v stored_write) dict \<Rightarrow> (string \<times> int, 'v stored_write) dict" where
  "add_writes tid tp i [] d = d"
| "add_writes tid tp i ((c, v) # ws) d =
     add_writes tid tp (Suc i) ws
       (if 0 \<le> write_index c i \<and> dict_get d (tid, write_index c i) \<noteq> None then d
        else dict_set (tid, write_index c i) (tid, c, v, tp) d)"

definition put_writes ::
  "saver_config \<Rightarrow> (string \<times> 'v) list \<Rightarrow> string \<Rightarrow> string \<Rightarrow> ('v, 'r) saver \<Rightarrow> unit result \<times> ('v, 'r) saver" where
  "put_writes cfg ws tid tp s =
     (case cf_id cfg of
        None \<Rightarrow> (Inl KeyError, s)
      | Some i \<Rightarrow>
          (let t = cf_thread cfg; n = config_ns cfg in
           if ws = [] then (Inr (), s)
           else (Inr (), s\<lparr>sv_writes := dict_set (t, n, i) (add_writes tid tp 0 ws (writes_at s t n i)) (sv_writes s)\<rparr>)))"

definition delete_thread :: "string \<Rightarrow> ('v, 'r) saver \<Rightarrow> ('v, 'r) saver" where
  "delete_thread t s =
     \<lparr>sv_storage = dict_del t (sv_storage s), sv_writes = filter (\<lambda>(k, w). fst k \<noteq> t) (sv_writes s),
      sv_blobs = filter (\<lambda>(k, b). fst k \<noteq> t) (sv_blobs s)\<rparr>"

text \<open>\<open>get_next_version\<close>: the number before the first full stop, plus one, padded to 32 digits, and a
  random tail.\<close>

datatype version_arg = NoVersion | NumberVersion int | TextVersion string

definition next_number :: "version_arg \<Rightarrow> int result" where
  "next_number cur =
     (case cur of
        NoVersion \<Rightarrow> Inr 1
      | NumberVersion i \<Rightarrow> Inr (i + 1)
      | TextVersion s \<Rightarrow> (case py_int (fst (partition_at CHR ''.'' s)) of Some i \<Rightarrow> Inr (i + 1) | None \<Rightarrow> Inl ValueError))"

definition get_next_version :: "string \<Rightarrow> version_arg \<Rightarrow> string result" where
  "get_next_version tail cur =
     map_sum id (\<lambda>i. (let s = int_str \<bar>i\<bar> in
         if i < 0 then ''-'' @ replicate (31 - length s) CHR ''0'' @ s else replicate (32 - length s) CHR ''0'' @ s) @ ''.'' @ tail) (next_number cur)"

section \<open>The history of delta channels\<close>

text \<open>The ancestors of a checkpoint, nearest first. Parents that form a cycle make the loop endless.\<close>

partial_function (option) ancestors_from :: "(string, ('v, 'r) saved_entry) dict \<Rightarrow> string option \<Rightarrow> string list \<Rightarrow> string list option" where
  "ancestors_from es current chain =
     (case current of
        None \<Rightarrow> Some chain
      | Some i \<Rightarrow> (case dict_get es i of None \<Rightarrow> Some chain | Some e \<Rightarrow> ancestors_from es (se_parent e) (chain @ [i])))"

definition ancestors :: "(string, ('v, 'r) saved_entry) dict \<Rightarrow> string \<Rightarrow> string list option" where
  "ancestors es i = ancestors_from es (case dict_get es i of None \<Rightarrow> None | Some e \<Rightarrow> se_parent e) []"

text \<open>A history: the writes from old to new (task, channel, value), and the value to start from.\<close>

record 'v channel_history =
  ch_writes :: "(string \<times> string \<times> 'v) list"
  ch_seed :: "'v option"

record 'v walk =
  wk_collected :: "(string, (string \<times> string \<times> 'v) list) dict"
  wk_seeds :: "(string, 'v) dict"
  wk_remaining :: "string list"

definition start_walk :: "string list \<Rightarrow> 'v walk" where
  "start_walk chs = \<lparr>wk_collected = fold (\<lambda>c d. dict_set c [] d) chs [], wk_seeds = [], wk_remaining = remdups chs\<rparr>"

definition finish_walk :: "string list \<Rightarrow> 'v walk \<Rightarrow> (string, 'v channel_history) dict" where
  "finish_walk chs w =
     fold (\<lambda>c d. dict_set c \<lparr>ch_writes = rev (dict_getd (wk_collected w) c []), ch_seed = dict_get (wk_seeds w) c\<rparr> d) chs []"

definition collect_write :: "(string \<Rightarrow> bool) \<Rightarrow> string \<times> string \<times> 'v \<Rightarrow> 'v walk \<Rightarrow> 'v walk" where
  "collect_write skip x w =
     (if fst (snd x) \<notin> set (wk_remaining w) \<or> skip (fst (snd x)) then w
      else w\<lparr>wk_collected := dict_set (fst (snd x)) (dict_getd (wk_collected w) (fst (snd x)) [] @ [x]) (wk_collected w)\<rparr>)"

definition end_channel :: "(string \<Rightarrow> 'v option) \<Rightarrow> string \<Rightarrow> 'v walk \<Rightarrow> 'v walk" where
  "end_channel blob c w =
     (case blob c of None \<Rightarrow> w | Some v \<Rightarrow> w\<lparr>wk_seeds := dict_set c v (wk_seeds w), wk_remaining := removeAll c (wk_remaining w)\<rparr>)"

text \<open>The stored value of a channel at a checkpoint.\<close>

definition blob_at :: "('v, 'r) saver \<Rightarrow> string \<Rightarrow> string \<Rightarrow> ('v, 'r) saved_entry \<Rightarrow> string \<Rightarrow> 'v option" where
  "blob_at s t n e c =
     (case dict_get (ck_versions (se_checkpoint e)) c of
        None \<Rightarrow> None
      | Some ver \<Rightarrow> (case dict_get (sv_blobs s) (t, n, c, ver) of Some (Some v) \<Rightarrow> Some v | _ \<Rightarrow> None))"

text \<open>One step of the saver's own walk: the writes of the checkpoint in falling order of task and index,
  without those of a channel that ends here in a plain value. \<open>subsumes v\<close>: the value is neither
  None nor a snapshot.\<close>

definition own_step :: "('v \<Rightarrow> bool) \<Rightarrow> ('v, 'r) saver \<Rightarrow> string \<Rightarrow> string \<Rightarrow> string \<Rightarrow> 'v walk \<Rightarrow> 'v walk" where
  "own_step subsumes s t n i w =
     (if wk_remaining w = [] then w
      else (let blob = (case dict_get (entries_at s t n) i of None \<Rightarrow> (\<lambda>c. None) | Some e \<Rightarrow> blob_at s t n e);
                ws = map (\<lambda>(k, (tid, c, v, tp)). (tid, c, v)) (rev (sort_key fst (writes_at s t n i)));
                w1 = fold (collect_write (\<lambda>c. case blob c of Some v \<Rightarrow> subsumes v | None \<Rightarrow> False)) ws w
            in fold (end_channel blob) (wk_remaining w) w1))"

definition own_history ::
  "('v \<Rightarrow> bool) \<Rightarrow> saver_config \<Rightarrow> string list \<Rightarrow> ('v, 'r) saver \<Rightarrow> (string, 'v channel_history) dict option" where
  "own_history subsumes cfg chs s =
     (if chs = [] then Some []
      else (let t = cf_thread cfg; n = config_ns cfg; i = (case cf_id cfg of Some i \<Rightarrow> i | None \<Rightarrow> []) in
            map_option (\<lambda>chain. finish_walk chs (fold (own_step subsumes s t n) chain (start_walk chs)))
              (ancestors (entries_at s t n) i)))"

text \<open>The default walk of the base class, by \<open>get_tuple\<close> and the parent configuration: pending writes in
  the order they are stored, and a seed wherever the checkpoint has a value.\<close>

definition default_step :: "('v, 'r) checkpoint_tuple \<Rightarrow> 'v walk \<Rightarrow> 'v walk" where
  "default_step tup w =
     (let w1 = fold (collect_write (\<lambda>c. False)) (rev (ct_writes tup)) w
      in fold (end_channel (dict_get (ck_values (ct_checkpoint tup)))) (wk_remaining w) w1)"

partial_function (option) default_walk :: "('v, 'r) saver \<Rightarrow> string \<Rightarrow> string \<Rightarrow> string option \<Rightarrow> 'v walk \<Rightarrow> 'v walk option" where
  "default_walk s t n current w =
     (case current of
        None \<Rightarrow> Some w
      | Some i \<Rightarrow>
          if wk_remaining w = [] then Some w
          else (case get_tuple \<lparr>cf_thread = t, cf_ns = Some n, cf_id = Some i, cf_other = [], cf_metadata = []\<rparr> s of
                  None \<Rightarrow> Some w
                | Some tup \<Rightarrow> default_walk s t n (ct_parent tup) (default_step tup w)))"

definition default_history ::
  "saver_config \<Rightarrow> string list \<Rightarrow> ('v, 'r) saver \<Rightarrow> (string, 'v channel_history) dict option" where
  "default_history cfg chs s =
     (if chs = [] then Some []
      else map_option (finish_walk chs)
             (default_walk s (cf_thread cfg) (config_ns cfg)
                (case get_tuple cfg s of None \<Rightarrow> None | Some tup \<Rightarrow> ct_parent tup) (start_walk chs)))"

section \<open>Reading back a checkpoint\<close>

lemma fold_put_blob:
  "wf_dict nv \<Longrightarrow> dict_get (fold (put_blob t n values) nv blobs) (t', n', k, ver) =
     (if t' = t \<and> n' = n \<and> dict_get nv k = Some ver then Some (dict_get values k) else dict_get blobs (t', n', k, ver))"
proof (induction nv arbitrary: blobs)
  case Nil
  then show ?case by simp
next
  case (Cons x nv)
  obtain k1 v1 where x: "x = (k1, v1)" by (cases x)
  with Cons.prems have "wf_dict nv" "dict_get nv k1 = None" by (auto simp: wf_dict_def map_of_eq_None_iff)
  with Cons.IH [of "put_blob t n values x blobs"] show ?case by (auto simp: x put_blob_def)
qed

lemma load_blobs_get:
  assumes "wf_dict versions"
  shows "dict_get (load_blobs s t n versions) k =
     (case dict_get versions k of None \<Rightarrow> None
      | Some ver \<Rightarrow> (case dict_get (sv_blobs s) (t, n, k, ver) of Some (Some v) \<Rightarrow> Some v | _ \<Rightarrow> None))"
proof -
  have "dict_get (fold (\<lambda>(k, ver) result. case dict_get (sv_blobs s) (t, n, k, ver) of Some (Some v) \<Rightarrow> dict_set k v result | _ \<Rightarrow> result)
        versions acc) k =
     (case dict_get versions k of None \<Rightarrow> dict_get acc k
      | Some ver \<Rightarrow> (case dict_get (sv_blobs s) (t, n, k, ver) of Some (Some v) \<Rightarrow> Some v | _ \<Rightarrow> dict_get acc k))" for acc
    using assms
  proof (induction versions arbitrary: acc)
    case Nil
    then show ?case by simp
  next
    case (Cons x versions)
    obtain k1 v1 where x: "x = (k1, v1)" by (cases x)
    with Cons.prems have w: "wf_dict versions" "dict_get versions k1 = None" by (auto simp: wf_dict_def map_of_eq_None_iff)
    show ?case unfolding x fold.simps comp_apply Cons.IH [OF w(1)]
      using w(2) by (auto split: option.splits)
  qed
  from this [of "[]"] show ?thesis by (simp add: load_blobs_def split: option.splits)
qed

lemma entries_put:
  "entries_at (put_entry t n i e s) t' n' = (if t' = t \<and> n' = n then dict_set i e (entries_at s t n) else entries_at s t' n')"
  by (auto simp: entries_at_def put_entry_def dict_getd_def split: option.splits)

lemma put_checkpoint_run:
  assumes "cf_ns cfg = Some n"
  shows "put_checkpoint cfg c md nv s =
     (Inr \<lparr>cf_thread = cf_thread cfg, cf_ns = Some n, cf_id = Some (ck_id c), cf_other = [], cf_metadata = []\<rparr>,
      put_entry (cf_thread cfg) n (ck_id c)
        \<lparr>se_checkpoint = c\<lparr>ck_values := []\<rparr>, se_metadata = checkpoint_metadata cfg md, se_parent = cf_id cfg\<rparr>
        (s\<lparr>sv_blobs := fold (put_blob (cf_thread cfg) n (ck_values c)) nv (sv_blobs s)\<rparr>))"
  using assms by (simp add: put_checkpoint_def Let_def)

text \<open>C29. What is saved is read back: after saving a checkpoint with an id, reading the configuration
  that \<open>put\<close> answered finds that checkpoint, with its parent and metadata, the writes that were
  pending for it, and in every channel of a new version exactly the saved value (none for an empty
  channel), in every other channel the value stored for its version before; every checkpoint under
  another thread, namespace or id is still listed with what was saved for it.\<close>

theorem saved_checkpoint_read_back:
  assumes "cf_ns cfg = Some n" and "ck_id c \<noteq> []" and "wf_dict nv" and "wf_dict (ck_versions c)"
  shows "\<exists>cfg' s' tup. put_checkpoint cfg c md nv s = (Inr cfg', s') \<and> get_tuple cfg' s' = Some tup \<and>
     ct_id tup = ck_id c \<and> (ct_checkpoint tup)\<lparr>ck_values := ck_values c\<rparr> = c \<and> ct_metadata tup = checkpoint_metadata cfg md \<and>
     ct_parent tup = wanted_id cfg \<and>
     ct_writes tup = map (\<lambda>(k, (tid, ch, v, tp)). (tid, ch, v)) (writes_at s (cf_thread cfg) n (ck_id c)) \<and>
     (\<forall>k. dict_get (ck_values (ct_checkpoint tup)) k =
        (case dict_get (ck_versions c) k of None \<Rightarrow> None
         | Some ver \<Rightarrow> if dict_get nv k = Some ver then dict_get (ck_values c) k
                      else (case dict_get (sv_blobs s) (cf_thread cfg, n, k, ver) of Some (Some v) \<Rightarrow> Some v | _ \<Rightarrow> None))) \<and>
     (\<forall>t' n' i. (t', n', i) \<noteq> (cf_thread cfg, n, ck_id c) \<longrightarrow> dict_get (entries_at s' t' n') i = dict_get (entries_at s t' n') i)"
proof -
  obtain a as where i: "ck_id c = a # as" using assms(2) by (cases "ck_id c") auto
  let ?e = "\<lparr>se_checkpoint = c\<lparr>ck_values := []\<rparr>, se_metadata = checkpoint_metadata cfg md, se_parent = cf_id cfg\<rparr>"
  let ?b = "s\<lparr>sv_blobs := fold (put_blob (cf_thread cfg) n (ck_values c)) nv (sv_blobs s)\<rparr>"
  let ?s' = "put_entry (cf_thread cfg) n (ck_id c) ?e ?b"
  have blobs: "sv_blobs ?s' = fold (put_blob (cf_thread cfg) n (ck_values c)) nv (sv_blobs s)"
    and writes: "writes_at ?s' = writes_at s" by (simp_all add: put_entry_def writes_at_def fun_eq_iff)
  have ents: "entries_at ?b = entries_at s" by (simp add: entries_at_def fun_eq_iff)
  let ?tup = "tuple_of ?s' (cf_thread cfg) n (ck_id c) ?e"
  have "get_tuple \<lparr>cf_thread = cf_thread cfg, cf_ns = Some n, cf_id = Some (ck_id c), cf_other = [], cf_metadata = []\<rparr> ?s' = Some ?tup"
    by (simp add: get_tuple_def config_ns_def wanted_id_def i entries_put Let_def)
  moreover have "ct_parent ?tup = wanted_id cfg" by (simp add: tuple_of_def wanted_id_def)
  moreover have "dict_get (ck_values (ct_checkpoint ?tup)) k =
        (case dict_get (ck_versions c) k of None \<Rightarrow> None
         | Some ver \<Rightarrow> if dict_get nv k = Some ver then dict_get (ck_values c) k
                      else (case dict_get (sv_blobs s) (cf_thread cfg, n, k, ver) of Some (Some v) \<Rightarrow> Some v | _ \<Rightarrow> None))" for k
    using load_blobs_get [OF assms(4), of ?s' "cf_thread cfg" n k]
    by (simp add: tuple_of_def blobs fold_put_blob [OF assms(3)] split: option.splits)
  moreover have "dict_get (entries_at ?s' t' n') j = dict_get (entries_at s t' n') j" if "(t', n', j) \<noteq> (cf_thread cfg, n, ck_id c)" for t' n' j
    using that by (auto simp: entries_put ents)
  moreover have "(ct_checkpoint ?tup)\<lparr>ck_values := ck_values c\<rparr> = c" "ct_metadata ?tup = checkpoint_metadata cfg md" "ct_id ?tup = ck_id c"
    "ct_writes ?tup = map (\<lambda>(k, (tid, ch, v, tp)). (tid, ch, v)) (writes_at s (cf_thread cfg) n (ck_id c))"
    by (simp_all add: tuple_of_def writes)
  ultimately show ?thesis using put_checkpoint_run [OF assms(1)] by blast
qed

definition demo_checkpoint :: "string \<Rightarrow> (string, pyval) dict \<Rightarrow> (string, nat) dict \<Rightarrow> (pyval, nat) saved_checkpoint" where
  "demo_checkpoint i vals vers = \<lparr>ck_format = 2, ck_id = i, ck_ts = [], ck_values = vals, ck_versions = vers, ck_seen = [], ck_updated = None\<rparr>"

definition demo_config :: "string option \<Rightarrow> saver_config" where
  "demo_config i = \<lparr>cf_thread = ''t'', cf_ns = Some [], cf_id = i, cf_other = [], cf_metadata = []\<rparr>"

theorem saved_checkpoint_read_back_witness:
  "\<exists>cfg' s' tup. put_checkpoint (demo_config None) (demo_checkpoint ''1'' [(''x'', PInt 7)] [(''x'', 1)]) [] [(''x'', 1)] empty_saver = (Inr cfg', s') \<and>
     get_tuple cfg' s' = Some tup \<and> dict_get (ck_values (ct_checkpoint tup)) ''x'' = Some (PInt 7)"
proof -
  have h: "cf_ns (demo_config None) = Some []" "ck_id (demo_checkpoint ''1'' [(''x'', PInt 7)] [(''x'', 1)]) \<noteq> []"
    "wf_dict [(''x'', 1::nat)]" "wf_dict (ck_versions (demo_checkpoint ''1'' [(''x'', PInt 7)] [(''x'', 1)]))"
    by (simp_all add: demo_config_def demo_checkpoint_def wf_dict_def)
  have v: "dict_get (ck_versions (demo_checkpoint ''1'' [(''x'', PInt 7)] [(''x'', 1)])) ''x'' = Some 1"
    "dict_get (ck_values (demo_checkpoint ''1'' [(''x'', PInt 7)] [(''x'', 1)])) ''x'' = Some (PInt 7)"
    by (simp_all add: demo_checkpoint_def)
  from saved_checkpoint_read_back [OF h, of "[]" empty_saver] obtain cfg' s' tup where
    "put_checkpoint (demo_config None) (demo_checkpoint ''1'' [(''x'', PInt 7)] [(''x'', 1)]) [] [(''x'', 1)] empty_saver = (Inr cfg', s')"
    "get_tuple cfg' s' = Some tup" and vals: "\<forall>k. dict_get (ck_values (ct_checkpoint tup)) k =
        (case dict_get (ck_versions (demo_checkpoint ''1'' [(''x'', PInt 7)] [(''x'', 1)])) k of None \<Rightarrow> None
         | Some ver \<Rightarrow> if dict_get [(''x'', 1)] k = Some ver then dict_get (ck_values (demo_checkpoint ''1'' [(''x'', PInt 7)] [(''x'', 1)])) k
                      else (case dict_get (sv_blobs empty_saver) (cf_thread (demo_config None), [], k, ver) of Some (Some v) \<Rightarrow> Some v | _ \<Rightarrow> None))"
    by blast
  moreover have "dict_get (ck_values (ct_checkpoint tup)) ''x'' = Some (PInt 7)"
    unfolding vals [rule_format] v by simp
  ultimately show ?thesis by blast
qed

section \<open>Pending writes\<close>

text \<open>The writes of a call with the index each is stored under.\<close>

fun indexed :: "string \<Rightarrow> string \<Rightarrow> nat \<Rightarrow> (string \<times> 'v) list \<Rightarrow> (int \<times> 'v stored_write) list" where
  "indexed tid tp i [] = []"
| "indexed tid tp i ((c, v) # ws) = (write_index c i, (tid, c, v, tp)) # indexed tid tp (Suc i) ws"

lemma indexed_above: "(j, w) \<in> set (indexed tid tp i ws) \<Longrightarrow> j < 0 \<or> int i \<le> j"
proof (induction ws arbitrary: i)
  case Nil
  then show ?case by simp
next
  case (Cons x ws)
  obtain c v where "x = (c, v)" by (cases x)
  with Cons.prems Cons.IH [of "Suc i"] show ?case by (auto simp: write_index_def split: if_splits)
qed

lemma add_writes_get:
  "dict_get (add_writes tid tp i ws d) (tid', j) =
     (if tid' \<noteq> tid then dict_get d (tid', j)
      else if 0 \<le> j then (case dict_get d (tid, j) of Some w \<Rightarrow> Some w | None \<Rightarrow> map_of (indexed tid tp i ws) j)
      else (case map_of (rev (indexed tid tp i ws)) j of Some w \<Rightarrow> Some w | None \<Rightarrow> dict_get d (tid, j)))"
proof (induction ws arbitrary: i d)
  case Nil
  then show ?case by (simp split: option.splits)
next
  case (Cons x ws)
  obtain c v where x: "x = (c, v)" by (cases x)
  have none: "map_of (indexed tid tp (Suc i) ws) j = None" if "0 \<le> j" "j = write_index c i" for j
  proof -
    have "write_index c i = int i" using that by (auto simp: write_index_def split: if_splits)
    then show ?thesis using that indexed_above [of j _ tid tp "Suc i" ws] by (force simp: map_of_eq_None_iff)
  qed
  show ?case
    using none by (auto simp: x Cons.IH map_of_append map_add_def split: option.splits)
qed

definition stored_write_at :: "('v, 'r) saver \<Rightarrow> saver_config \<Rightarrow> string \<Rightarrow> int \<Rightarrow> 'v stored_write option" where
  "stored_write_at s cfg tid j = dict_get (writes_at s (cf_thread cfg) (config_ns cfg) (the (cf_id cfg))) (tid, j)"

lemma put_writes_get:
  assumes "cf_id cfg = Some i" and "put_writes cfg ws tid tp s = (Inr (), s')"
  shows "stored_write_at s' cfg tid' j =
     (if tid' \<noteq> tid then stored_write_at s cfg tid' j
      else if 0 \<le> j then (case stored_write_at s cfg tid j of Some w \<Rightarrow> Some w | None \<Rightarrow> map_of (indexed tid tp 0 ws) j)
      else (case map_of (rev (indexed tid tp 0 ws)) j of Some w \<Rightarrow> Some w | None \<Rightarrow> stored_write_at s cfg tid j))"
proof (cases "ws = []")
  case True
  then show ?thesis using assms by (auto simp: put_writes_def stored_write_at_def split: option.splits)
next
  case False
  then have "s' = s\<lparr>sv_writes := dict_set (cf_thread cfg, config_ns cfg, i) (add_writes tid tp 0 ws (writes_at s (cf_thread cfg) (config_ns cfg) i)) (sv_writes s)\<rparr>"
    using assms by (simp add: put_writes_def Let_def)
  then have "writes_at s' (cf_thread cfg) (config_ns cfg) i = add_writes tid tp 0 ws (writes_at s (cf_thread cfg) (config_ns cfg) i)"
    by (simp add: writes_at_def dict_getd_def)
  then show ?thesis using assms(1) by (simp add: stored_write_at_def add_writes_get split: option.splits)
qed

text \<open>C32. A replayed task does not change its writes: a regular write is stored once, the first value for
  its position stays; a special write (error, interrupt, resume) is replaced by the latest; other
  tasks keep theirs; and storing the same writes a second time changes nothing.\<close>

theorem pending_writes_first_wins:
  assumes "cf_id cfg = Some i" and "put_writes cfg ws tid tp s = (Inr (), s1)" and "put_writes cfg ws tid tp s1 = (Inr (), s2)"
  shows "(\<forall>j \<ge> 0. stored_write_at s1 cfg tid j =
       (case stored_write_at s cfg tid j of Some w \<Rightarrow> Some w | None \<Rightarrow> map_of (indexed tid tp 0 ws) j)) \<and>
     (\<forall>j < 0. stored_write_at s1 cfg tid j =
       (case map_of (rev (indexed tid tp 0 ws)) j of Some w \<Rightarrow> Some w | None \<Rightarrow> stored_write_at s cfg tid j)) \<and>
     (\<forall>tid' j. tid' \<noteq> tid \<longrightarrow> stored_write_at s1 cfg tid' j = stored_write_at s cfg tid' j) \<and>
     (\<forall>tid' j. stored_write_at s2 cfg tid' j = stored_write_at s1 cfg tid' j)"
proof (intro conjI allI impI)
  fix tid' j
  show "stored_write_at s2 cfg tid' j = stored_write_at s1 cfg tid' j"
    unfolding put_writes_get [OF assms(1,3)] put_writes_get [OF assms(1,2)] by (auto split: option.splits)
qed (simp_all add: put_writes_get [OF assms(1,2)])

theorem pending_writes_first_wins_witness:
  "stored_write_at (snd (put_writes (demo_config (Some ''1'')) [(''x'', PInt 2)] ''task'' []
       (snd (put_writes (demo_config (Some ''1'')) [(''x'', PInt 1)] ''task'' [] (empty_saver :: (pyval, nat) saver)))))
     (demo_config (Some ''1'')) ''task'' 0 = Some (''task'', ''x'', PInt 1, [])"
proof -
  let ?cfg = "demo_config (Some ''1'')" and ?ws = "[(''x'', PInt 2)]"
  have i: "cf_id ?cfg = Some ''1''" by (simp add: demo_config_def)
  have "\<exists>s'. put_writes ?cfg ws ''task'' [] s = (Inr (), s')" for ws and s :: "(pyval, nat) saver"
    by (simp add: put_writes_def demo_config_def Let_def)
  then obtain s0 s1 s2 :: "(pyval, nat) saver" where
    s0: "put_writes ?cfg [(''x'', PInt 1)] ''task'' [] empty_saver = (Inr (), s0)" and
    s1: "put_writes ?cfg ?ws ''task'' [] s0 = (Inr (), s1)" and s2: "put_writes ?cfg ?ws ''task'' [] s1 = (Inr (), s2)" by metis
  have "stored_write_at s0 ?cfg ''task'' 0 = Some (''task'', ''x'', PInt 1, [])"
    using put_writes_get [OF i s0, of "''task''" 0]
    by (simp add: stored_write_at_def writes_at_def empty_saver_def dict_getd_def write_index_def)
  with pending_writes_first_wins [OF i s1 s2] s0 s1 show ?thesis by simp
qed

section \<open>Deleting a thread\<close>

lemma dict_get_filter: "dict_get (filter (\<lambda>(k, v). P k) d) k = (if P k then dict_get d k else None)"
  by (induction d) auto

lemma entries_delete: "entries_at (delete_thread t s) t' n = (if t' = t then [] else entries_at s t' n)"
  by (simp add: entries_at_def delete_thread_def dict_getd_def)

lemma writes_delete: "writes_at (delete_thread t s) t' n i = (if t' = t then [] else writes_at s t' n i)"
  by (simp add: writes_at_def delete_thread_def dict_getd_def dict_get_filter)

lemma blobs_delete: "dict_get (sv_blobs (delete_thread t s)) (t', k) = (if t' = t then None else dict_get (sv_blobs s) (t', k))"
  by (simp add: delete_thread_def dict_get_filter)

lemma load_blobs_delete: "t' \<noteq> t \<Longrightarrow> load_blobs (delete_thread t s) t' n versions = load_blobs s t' n versions"
proof -
  assume "t' \<noteq> t"
  then have "(\<lambda>(k, ver) result. case dict_get (sv_blobs (delete_thread t s)) (t', n, k, ver) of Some (Some v) \<Rightarrow> dict_set k v result | _ \<Rightarrow> result) =
      (\<lambda>(k, ver) result. case dict_get (sv_blobs s) (t', n, k, ver) of Some (Some v) \<Rightarrow> dict_set k v result | _ \<Rightarrow> result)"
    by (intro ext) (simp add: blobs_delete split: prod.splits)
  then show ?thesis by (simp only: load_blobs_def)
qed

lemma tuple_delete: "t' \<noteq> t \<Longrightarrow> tuple_of (delete_thread t s) t' n i e = tuple_of s t' n i e"
  by (simp add: tuple_of_def load_blobs_delete writes_delete)

text \<open>Deleting a thread removes it and nothing else: afterwards no configuration of the thread finds a
  checkpoint, and the listing of the thread is empty; every read and every listing of another
  thread is as before.\<close>

theorem delete_thread_isolated:
  "get_tuple cfg (delete_thread t s) = (if cf_thread cfg = t then None else get_tuple cfg s) \<and>
   list_checkpoints (Some cfg) flt before cnt (delete_thread t s) =
     (if cf_thread cfg = t then [] else list_checkpoints (Some cfg) flt before cnt s)"
proof (cases "cf_thread cfg = t")
  case True
  have "all_entries [t] (delete_thread t s) = []" by (simp add: all_entries_def delete_thread_def dict_getd_def)
  with True show ?thesis
    by (simp add: get_tuple_def entries_delete list_checkpoints_def Let_def split: option.splits)
next
  case False
  let ?t = "cf_thread cfg"
  have ents: "all_entries [?t] (delete_thread t s) = all_entries [?t] s"
    using False by (simp add: all_entries_def delete_thread_def dict_getd_def)
  have fst_all: "fst h = ?t" if "h \<in> set (all_entries [?t] s)" for h using that by (auto simp: all_entries_def)
  have "map (\<lambda>(t', n, i, e). tuple_of (delete_thread t s) t' n i e) hs = map (\<lambda>(t', n, i, e). tuple_of s t' n i e) hs"
    if "set hs \<subseteq> set (all_entries [?t] s)" for hs
  proof (rule map_cong [OF refl])
    fix h
    assume "h \<in> set hs"
    with that fst_all [of h] False
    show "(\<lambda>(t', n, i, e). tuple_of (delete_thread t s) t' n i e) h = (\<lambda>(t', n, i, e). tuple_of s t' n i e) h"
      by (auto simp: tuple_delete split: prod.splits)
  qed
  note same = this
  define hits where "hits = (case cnt of None \<Rightarrow> filter (listed (Some cfg) flt before) (all_entries [?t] s)
      | Some m \<Rightarrow> take (nat m) (filter (listed (Some cfg) flt before) (all_entries [?t] s)))"
  have "set hits \<subseteq> set (all_entries [?t] s)"
    using set_take_subset [of _ "filter (listed (Some cfg) flt before) (all_entries [?t] s)"]
    by (auto simp: hits_def split: option.splits)
  from same [OF this] have "list_checkpoints (Some cfg) flt before cnt (delete_thread t s) = list_checkpoints (Some cfg) flt before cnt s"
    unfolding list_checkpoints_def option.case ents Let_def hits_def .
  moreover have "get_tuple cfg (delete_thread t s) = get_tuple cfg s"
    using False by (auto simp: get_tuple_def entries_delete tuple_delete Let_def fun_eq_iff split: option.splits intro!: option.map_cong)
  ultimately show ?thesis using False by simp
qed

section \<open>The latest checkpoint\<close>

lemma newest_first_hd:
  assumes "es \<noteq> []" and "wf_dict es"
  shows "\<exists>e rest. newest_first es = (Max (set (map fst es)), e) # rest \<and> dict_get es (Max (set (map fst es))) = Some e"
proof -
  let ?srt = "sort_key fst es"
  have ne: "?srt \<noteq> []" using assms(1) by (metis set_sort set_empty)
  obtain i e where l: "last ?srt = (i, e)" by (cases "last ?srt")
  have mem: "(i, e) \<in> set es" using last_in_set [OF ne] l by simp
  have "fst x \<le> i" if "x \<in> set es" for x
  proof -
    have "x \<in> set ?srt" using that by simp
    from this [unfolded in_set_conv_nth] obtain n where n: "n < length ?srt" "?srt ! n = x" by blast
    have "map fst ?srt ! n \<le> map fst ?srt ! (length ?srt - 1)"
      using n(1) by (intro sorted_nth_mono) auto
    then show ?thesis using n l ne by (simp add: last_conv_nth)
  qed
  then have "Max (set (map fst es)) = i" using mem by (intro Max_eqI) force+
  moreover have "newest_first es = (i, e) # rev (butlast ?srt)"
    using ne l by (metis newest_first_def append_butlast_last_id rev.simps(2) rev_append append_Cons append_Nil rev_swap rev_rev_ident)
  moreover have "dict_get es i = Some e" using mem assms(2) by (simp add: wf_dict_def)
  ultimately show ?thesis by blast
qed

lemma filter_group:
  assumes "wf_dict D"
  shows "filter (\<lambda>(t', n', i, e). n' = n) (concat (map (\<lambda>(n', es). map (\<lambda>(i, e). (t, n', i, e)) (newest_first es)) D)) =
     map (\<lambda>(i, e). (t, n, i, e)) (newest_first (dict_getd D n []))"
  using assms
proof (induction D)
  case Nil
  then show ?case by (simp add: dict_getd_def newest_first_def)
next
  case (Cons x D)
  obtain n1 es where x: "x = (n1, es)" by (cases x)
  with Cons.prems have w: "wf_dict D" "dict_get D n1 = None" by (auto simp: wf_dict_def map_of_eq_None_iff)
  have f: "filter (\<lambda>(t', n', i, e). n' = n) (map (\<lambda>(i, e). (t, n1, i, e)) xs) = (if n1 = n then map (\<lambda>(i, e). (t, n1, i, e)) xs else [])" for xs
    by (induction xs) auto
  show ?case using Cons.IH [OF w(1)] w(2) by (auto simp: x f dict_getd_def newest_first_def)
qed

text \<open>The latest checkpoint is the newest listed one: reading a thread and namespace without an id
  gives the first checkpoint that the listing of that thread and namespace with limit one yields,
  and nothing exactly when that listing is empty.\<close>

theorem latest_is_first_listed:
  assumes "wf_dict (dict_getd (sv_storage s) t [])" and "wf_dict (entries_at s t n)"
    and "cfg = \<lparr>cf_thread = t, cf_ns = Some n, cf_id = None, cf_other = ot, cf_metadata = md\<rparr>"
  shows "map_option (\<lambda>x. [x]) (get_tuple cfg s) =
     (if list_checkpoints (Some cfg) [] None (Some 1) s = [] then None else Some (list_checkpoints (Some cfg) [] None (Some 1) s))"
proof -
  have l: "listed (Some cfg) [] None = (\<lambda>(t', n', i, e). n' = n)"
    by (intro ext) (auto simp: listed_def assms(3) wanted_id_def)
  have hits: "filter (listed (Some cfg) [] None) (all_entries [t] s) = map (\<lambda>(i, e). (t, n, i, e)) (newest_first (entries_at s t n))"
    using filter_group [OF assms(1), of n t] by (simp add: l all_entries_def entries_at_def)
  show ?thesis
  proof (cases "entries_at s t n = []")
    case True
    then have "newest_first (entries_at s t n) = []" by (simp add: newest_first_def)
    with True hits show ?thesis by (simp add: list_checkpoints_def get_tuple_def assms(3) wanted_id_def config_ns_def Let_def)
  next
    case False
    from newest_first_hd [OF False assms(2)] obtain e rest where
      "newest_first (entries_at s t n) = (Max (set (map fst (entries_at s t n))), e) # rest"
      "dict_get (entries_at s t n) (Max (set (map fst (entries_at s t n)))) = Some e" by blast
    with False hits show ?thesis by (simp add: list_checkpoints_def get_tuple_def assms(3) wanted_id_def config_ns_def Let_def)
  qed
qed

section \<open>Walking the ancestors ends\<close>

datatype ('v, 'r) saver_op =
    SaveCheckpoint saver_config "('v, 'r) saved_checkpoint" pydict "(string, 'r) dict"
  | SaveWrites saver_config "(string \<times> 'v) list" string string
  | DropThread string

fun run_saver_op :: "('v, 'r) saver_op \<Rightarrow> ('v, 'r) saver \<Rightarrow> ('v, 'r) saver" where
  "run_saver_op (SaveCheckpoint cfg c md nv) s = snd (put_checkpoint cfg c md nv s)"
| "run_saver_op (SaveWrites cfg ws tid tp) s = snd (put_writes cfg ws tid tp s)"
| "run_saver_op (DropThread t) s = delete_thread t s"

text \<open>Checkpoint ids grow along the parents, as the time-ordered ids of the runtime do.\<close>

fun growing :: "('v, 'r) saver_op \<Rightarrow> bool" where
  "growing (SaveCheckpoint cfg c md nv) = (case cf_id cfg of None \<Rightarrow> True | Some p \<Rightarrow> p < ck_id c)"
| "growing _ = True"

definition older_parents :: "(string, ('v, 'r) saved_entry) dict \<Rightarrow> bool" where
  "older_parents es \<longleftrightarrow> (\<forall>i e p. dict_get es i = Some e \<and> se_parent e = Some p \<longrightarrow> p < i)"

lemma run_saver_op_entries:
  "entries_at (run_saver_op (SaveWrites cfg ws tid tp) s) t n = entries_at s t n"
  "entries_at (run_saver_op (DropThread t') s) t n = (if t = t' then [] else entries_at s t n)"
  by (auto simp: put_writes_def entries_at_def Let_def delete_thread_def dict_getd_def split: option.splits)

lemma run_saver_op_older:
  assumes "older_parents (entries_at s t n)" and "growing oper"
  shows "older_parents (entries_at (run_saver_op oper s) t n)"
proof (cases oper)
  case (SaveCheckpoint cfg c md nv)
  show ?thesis
  proof (cases "cf_ns cfg")
    case None
    then show ?thesis using assms(1) SaveCheckpoint by (simp add: put_checkpoint_def)
  next
    case (Some m)
    have e: "entries_at (s\<lparr>sv_blobs := b\<rparr>) = entries_at s" for b by (simp add: entries_at_def fun_eq_iff)
    from assms SaveCheckpoint Some show ?thesis
      by (auto simp: put_checkpoint_run entries_put e older_parents_def split: if_splits option.splits)
  qed
next
  case (SaveWrites cfg ws tid tp)
  then show ?thesis using assms(1) by (simp only: run_saver_op_entries)
next
  case (DropThread t')
  have "older_parents []" by (simp add: older_parents_def)
  then show ?thesis using assms(1) DropThread by (simp only: run_saver_op_entries split: if_split) blast
qed

lemma ancestors_from_ends:
  assumes "older_parents es"
  shows "\<exists>xs. ancestors_from es (Some i) chain = Some (chain @ xs) \<and> sorted_wrt (>) xs \<and> (\<forall>x \<in> set xs. x \<le> i)"
proof (induction "card {k \<in> fst ` set es. k \<le> i}" arbitrary: i chain rule: less_induct)
  case less
  show ?case
  proof (cases "dict_get es i")
    case None
    then show ?thesis by (subst ancestors_from.simps) simp
  next
    case (Some e)
    show ?thesis
    proof (cases "se_parent e")
      case None
      then show ?thesis using Some by (subst ancestors_from.simps) (simp add: ancestors_from.simps)
    next
      case p: (Some p)
      have lt: "p < i" using assms Some p by (auto simp: older_parents_def)
      have "i \<in> fst ` set es" using Some by (force dest: map_of_SomeD)
      then have "i \<in> {k \<in> fst ` set es. k \<le> i}" "i \<notin> {k \<in> fst ` set es. k \<le> p}" using lt by (auto dest: leD)
      moreover have "{k \<in> fst ` set es. k \<le> p} \<subseteq> {k \<in> fst ` set es. k \<le> i}" using less_imp_le [OF lt] by (auto intro: order_trans)
      ultimately have "{k \<in> fst ` set es. k \<le> p} \<subset> {k \<in> fst ` set es. k \<le> i}" by (intro psubsetI) metis+
      then have "card {k \<in> fst ` set es. k \<le> p} < card {k \<in> fst ` set es. k \<le> i}" by (intro psubset_card_mono) auto
      from less [OF this, of "chain @ [i]"] obtain xs where xs: "ancestors_from es (Some p) (chain @ [i]) = Some ((chain @ [i]) @ xs)"
        "sorted_wrt (>) xs" "\<forall>x \<in> set xs. x \<le> p" by blast
      then have "ancestors_from es (Some i) chain = Some (chain @ i # xs)" using Some p by (subst ancestors_from.simps) simp
      moreover have "sorted_wrt (>) (i # xs)" using xs(2,3) lt by auto
      ultimately show ?thesis using xs(3) lt by (intro exI [of _ "i # xs"]) auto
    qed
  qed
qed

text \<open>C34. Rebuilding a channel ends: whatever checkpoints, writes and deletions a saver has seen, if every
  saved checkpoint has a larger id than its parent, then the walk over the ancestors of any
  checkpoint ends, visiting strictly older checkpoints one after the other.\<close>

theorem ancestor_walk_ends:
  assumes "\<forall>oper \<in> set opers. growing oper"
  shows "\<exists>chain. ancestors (entries_at (fold run_saver_op opers empty_saver) t n) i = Some chain \<and> sorted_wrt (>) chain \<and> (\<forall>x \<in> set chain. x < i)"
proof -
  let ?es = "entries_at (fold run_saver_op opers empty_saver) t n"
  have "older_parents (entries_at (fold run_saver_op opers s) t n)" if "older_parents (entries_at s t n)" for s :: "('a, 'b) saver"
    using assms that by (induction opers arbitrary: s) (auto simp: run_saver_op_older simp del: run_saver_op.simps)
  from this [of empty_saver] have old: "older_parents ?es" by (simp add: empty_saver_def entries_at_def dict_getd_def older_parents_def)
  show ?thesis
  proof (cases "dict_get ?es i")
    case None
    then show ?thesis by (simp add: ancestors_def ancestors_from.simps)
  next
    case (Some e)
    show ?thesis
    proof (cases "se_parent e")
      case None
      then show ?thesis using Some by (simp add: ancestors_def ancestors_from.simps)
    next
      case p: (Some p)
      then have "p < i" using old Some by (auto simp: older_parents_def)
      moreover obtain xs where "ancestors_from ?es (Some p) [] = Some xs" "sorted_wrt (>) xs" "\<forall>x \<in> set xs. x \<le> p"
        using ancestors_from_ends [OF old, of p "[]"] by auto
      ultimately show ?thesis using Some p by (auto simp: ancestors_def)
    qed
  qed
qed

definition demo_saver_ops :: "(pyval, nat) saver_op list" where
  "demo_saver_ops =
     [SaveCheckpoint (demo_config None) (demo_checkpoint ''1'' [(''x'', PInt 7)] [(''x'', 4)]) [] [(''x'', 4)],
      SaveWrites (demo_config (Some ''1'')) [(''x'', PInt 5)] ''task'' [],
      SaveCheckpoint (demo_config (Some ''1'')) (demo_checkpoint ''2'' [] [(''x'', 5)]) [] [(''x'', 5)]]"

definition demo_entry :: "string \<Rightarrow> nat \<Rightarrow> string option \<Rightarrow> (pyval, nat) saved_entry" where
  "demo_entry i ver par = \<lparr>se_checkpoint = demo_checkpoint i [] [(''x'', ver)], se_metadata = [], se_parent = par\<rparr>"

lemma demo_saver_state:
  "fold run_saver_op demo_saver_ops empty_saver =
     \<lparr>sv_storage = [(''t'', [([], [(''1'', demo_entry ''1'' 4 None), (''2'', demo_entry ''2'' 5 (Some ''1''))])])],
      sv_writes = [((''t'', [], ''1''), [((''task'', 0), (''task'', ''x'', PInt 5, []))])],
      sv_blobs = [((''t'', [], ''x'', 4), Some (PInt 7)), ((''t'', [], ''x'', 5), None)]\<rparr>"
  by (simp add: demo_saver_ops_def demo_config_def demo_checkpoint_def demo_entry_def put_checkpoint_def put_entry_def put_blob_def put_writes_def
      empty_saver_def entries_at_def writes_at_def dict_getd_def write_index_def config_ns_def checkpoint_metadata_def Let_def)

lemma demo_saver_reads:
  "entries_at (fold run_saver_op demo_saver_ops empty_saver) ''t'' [] = [(''1'', demo_entry ''1'' 4 None), (''2'', demo_entry ''2'' 5 (Some ''1''))]"
  "writes_at (fold run_saver_op demo_saver_ops empty_saver) ''t'' [] i = (if i = ''1'' then [((''task'', 0), (''task'', ''x'', PInt 5, []))] else [])"
  "ancestors (entries_at (fold run_saver_op demo_saver_ops empty_saver) ''t'' []) ''2'' = Some [''1'']"
  by (simp_all add: demo_saver_state entries_at_def writes_at_def dict_getd_def ancestors_def ancestors_from.simps demo_entry_def)

lemma demo_config_reads:
  "cf_thread (demo_config i) = ''t''" "config_ns (demo_config i) = []" "cf_id (demo_config i) = i"
  by (simp_all add: demo_config_def config_ns_def)

lemma demo_saver_ops_growing: "\<forall>oper \<in> set demo_saver_ops. growing oper"
  by (simp add: demo_saver_ops_def demo_config_def demo_checkpoint_def)

theorem ancestor_walk_ends_witness:
  "\<exists>chain. ancestors (entries_at (fold run_saver_op demo_saver_ops empty_saver) ''t'' []) ''2'' = Some chain \<and> sorted_wrt (>) chain"
  using ancestor_walk_ends [OF demo_saver_ops_growing] by blast

theorem latest_is_first_listed_witness:
  "map_option (\<lambda>x. [x]) (get_tuple (demo_config None) (fold run_saver_op demo_saver_ops empty_saver)) =
     Some (list_checkpoints (Some (demo_config None)) [] None (Some 1) (fold run_saver_op demo_saver_ops empty_saver))"
proof -
  let ?s = "fold run_saver_op demo_saver_ops empty_saver"
  have h: "wf_dict (dict_getd (sv_storage ?s) ''t'' [])" "wf_dict (entries_at ?s ''t'' [])"
    "demo_config None = \<lparr>cf_thread = ''t'', cf_ns = Some [], cf_id = None, cf_other = [], cf_metadata = []\<rparr>"
    by (simp_all add: demo_saver_state dict_getd_def entries_at_def demo_config_def wf_dict_def)
  have "get_tuple (demo_config None) ?s \<noteq> None"
    by (simp add: get_tuple_def demo_config_reads demo_saver_reads wanted_id_def Let_def max_def)
  with latest_is_first_listed [OF h] show ?thesis by (simp split: if_splits)
qed

section \<open>Two walks\<close>

fun chain_from :: "(string, ('v, 'r) saved_entry) dict \<Rightarrow> string option \<Rightarrow> string list \<Rightarrow> bool" where
  "chain_from es cur [] \<longleftrightarrow> (case cur of None \<Rightarrow> True | Some i \<Rightarrow> dict_get es i = None)"
| "chain_from es cur (i # is) \<longleftrightarrow> cur = Some i \<and> (case dict_get es i of None \<Rightarrow> False | Some e \<Rightarrow> chain_from es (se_parent e) is)"

lemma ancestors_from_chain:
  assumes "ancestors_from es cur acc = Some r"
  shows "\<exists>is. r = acc @ is \<and> chain_from es cur is"
proof (rule ancestors_from.raw_induct [where P = "\<lambda>es cur acc r. \<exists>is. r = acc @ is \<and> chain_from es cur is", OF _ assms])
  fix walk es cur acc r
  assume 1: "\<And>es cur acc r. walk es cur acc = Some r \<Longrightarrow> \<exists>is. r = acc @ is \<and> chain_from es cur is"
    "(case cur of None \<Rightarrow> Some acc | Some i \<Rightarrow>
        (case dict_get es i of None \<Rightarrow> Some acc | Some e \<Rightarrow> walk es (se_parent e) (acc @ [i]))) = Some r"
  show "\<exists>is. r = acc @ is \<and> chain_from es cur is"
  proof (cases cur)
    case None
    with 1(2) show ?thesis by (intro exI [of _ "[]"]) simp
  next
    case (Some i)
    show ?thesis
    proof (cases "dict_get es i")
      case None
      with 1(2) Some show ?thesis by (intro exI [of _ "[]"]) simp
    next
      case e: (Some e)
      with 1 Some obtain js where "r = (acc @ [i]) @ js" "chain_from es (se_parent e) js" by fastforce
      with Some e show ?thesis by (intro exI [of _ "i # js"]) simp
    qed
  qed
qed

text \<open>Entries as the runtime makes them: ids that are not empty, one version per channel.\<close>

definition tidy :: "('v, 'r) saver \<Rightarrow> string \<Rightarrow> string \<Rightarrow> bool" where
  "tidy s t n \<longleftrightarrow> dict_get (entries_at s t n) [] = None \<and>
     (\<forall>i e. dict_get (entries_at s t n) i = Some e \<longrightarrow> wf_dict (ck_versions (se_checkpoint e)))"

text \<open>The writes of each checkpoint are stored in the order of task and index. Tasks store theirs as they finish, so
  that this is so for one task at a time, or when tasks happen to finish in the order of their ids.\<close>

definition stored_in_order :: "('v, 'r) saver \<Rightarrow> string \<Rightarrow> string \<Rightarrow> bool" where
  "stored_in_order s t n \<longleftrightarrow> (\<forall>i e. dict_get (entries_at s t n) i = Some e \<longrightarrow> sorted (map fst (writes_at s t n i)))"

text \<open>Every stored value is None or a snapshot.\<close>

definition snapshots_only :: "('v \<Rightarrow> bool) \<Rightarrow> ('v, 'r) saver \<Rightarrow> string \<Rightarrow> string \<Rightarrow> bool" where
  "snapshots_only subsumes s t n \<longleftrightarrow>
     (\<forall>i e c v. dict_get (entries_at s t n) i = Some e \<and> blob_at s t n e c = Some v \<longrightarrow> \<not> subsumes v)"

lemma default_step_own:
  assumes "tidy s t n" and "stored_in_order s t n" and "dict_get (entries_at s t n) i = Some e" and "snapshots_only subsumes s t n"
    and "wk_remaining w \<noteq> []"
  shows "default_step (tuple_of s t n i e) w = own_step subsumes s t n i w"
proof -
  have wf: "wf_dict (ck_versions (se_checkpoint e))" and srt: "sort_key fst (writes_at s t n i) = writes_at s t n i"
    using assms(1,2,3) by (auto simp: tidy_def stored_in_order_def sorted_sort_id intro: sort_key_id_if_sorted)
  have "dict_get (load_blobs s t n (ck_versions (se_checkpoint e))) = blob_at s t n e"
    by (intro ext) (simp add: load_blobs_get [OF wf] blob_at_def)
  moreover have "(\<lambda>c. case blob_at s t n e c of Some v \<Rightarrow> subsumes v | None \<Rightarrow> False) = (\<lambda>c. False)"
    using assms(3,4) by (intro ext) (simp add: snapshots_only_def split: option.splits)
  ultimately show ?thesis
    using assms(3,5) by (simp add: default_step_def own_step_def tuple_of_def srt rev_map Let_def)
qed

lemma own_steps_done: "wk_remaining w = [] \<Longrightarrow> fold (own_step subsumes s t n) is w = w"
  by (induction "is") (simp_all add: own_step_def)

lemma default_walk_own:
  assumes "tidy s t n" and "stored_in_order s t n" and "snapshots_only subsumes s t n"
  shows "chain_from (entries_at s t n) cur is \<Longrightarrow>
     default_walk s t n (case cur of Some (c # cs) \<Rightarrow> Some (c # cs) | _ \<Rightarrow> None) w = Some (fold (own_step subsumes s t n) is w)"
proof (induction "is" arbitrary: cur w)
  case Nil
  then show ?case
    by (subst default_walk.simps) (auto simp: get_tuple_def wanted_id_def config_ns_def Let_def split: option.splits list.splits)
next
  case (Cons i "is")
  obtain e where e: "cur = Some i" "dict_get (entries_at s t n) i = Some e" "chain_from (entries_at s t n) (se_parent e) is"
    using Cons.prems by (auto split: option.splits)
  obtain c cs where i: "i = c # cs" using e(2) assms(1) by (cases i) (auto simp: tidy_def)
  have get: "get_tuple \<lparr>cf_thread = t, cf_ns = Some n, cf_id = Some i, cf_other = [], cf_metadata = []\<rparr> s = Some (tuple_of s t n i e)"
    using e(2) i by (simp add: get_tuple_def wanted_id_def config_ns_def Let_def)
  show ?case
  proof (cases "wk_remaining w = []")
    case True
    then show ?thesis using e(1) i by (subst default_walk.simps) (simp add: own_steps_done own_step_def)
  next
    case False
    then show ?thesis
      using e(1) i get Cons.IH [OF e(3)] default_step_own [OF assms(1,2) e(2) assms(3) False]
      by (subst default_walk.simps) (simp add: tuple_of_def)
  qed
qed

text \<open>Walks that have found the same seeds and, for each channel, the same writes in some order.\<close>

definition same_walk :: "'v walk \<Rightarrow> 'v walk \<Rightarrow> bool" where
  "same_walk w w' \<longleftrightarrow> wk_seeds w = wk_seeds w' \<and> wk_remaining w = wk_remaining w' \<and>
     (\<forall>c. mset (dict_getd (wk_collected w) c []) = mset (dict_getd (wk_collected w') c []))"

lemma collected_writes:
  "wk_seeds (fold (collect_write skip) xs w) = wk_seeds w \<and> wk_remaining (fold (collect_write skip) xs w) = wk_remaining w \<and>
   dict_getd (wk_collected (fold (collect_write skip) xs w)) c [] =
     dict_getd (wk_collected w) c [] @ (if c \<in> set (wk_remaining w) \<and> \<not> skip c then filter (\<lambda>x. fst (snd x) = c) xs else [])"
proof (induction xs arbitrary: w)
  case (Cons x xs)
  show ?case using Cons.IH [of "collect_write skip x w"] by (auto simp: collect_write_def dict_getd_def)
qed simp

lemma same_walk_end: "same_walk w w' \<Longrightarrow> same_walk (fold (end_channel blob) cs w) (fold (end_channel blob) cs w')"
proof (induction cs arbitrary: w w')
  case (Cons c cs)
  have "same_walk (end_channel blob c w) (end_channel blob c w')" using Cons.prems by (simp add: same_walk_def end_channel_def split: option.split)
  with Cons.IH show ?case by simp
qed simp

lemma default_step_same:
  assumes "tidy s t n" and "dict_get (entries_at s t n) i = Some e" and "snapshots_only subsumes s t n" and "same_walk w w'" and "wk_remaining w' \<noteq> []"
  shows "same_walk (default_step (tuple_of s t n i e) w) (own_step subsumes s t n i w')"
proof -
  have wf: "wf_dict (ck_versions (se_checkpoint e))" using assms(1,2) by (auto simp: tidy_def)
  have blob: "dict_get (load_blobs s t n (ck_versions (se_checkpoint e))) = blob_at s t n e"
    by (intro ext) (simp add: load_blobs_get [OF wf] blob_at_def)
  have no: "(\<lambda>c. case blob_at s t n e c of Some v \<Rightarrow> subsumes v | None \<Rightarrow> False) = (\<lambda>c. False)"
    using assms(2,3) by (intro ext) (simp add: snapshots_only_def split: option.splits)
  let ?f = "\<lambda>(k, (tid, c, v, tp)). (tid, c, v)"
  let ?xs = "rev (map ?f (writes_at s t n i))" and ?ys = "map ?f (rev (sort_key fst (writes_at s t n i)))"
  have "mset ?xs = mset ?ys" by (simp add: mset_map)
  then have "mset (filter P ?xs) = mset (filter P ?ys)" for P by (metis mset_filter)
  with assms(4) have "same_walk (fold (collect_write (\<lambda>c. False)) ?xs w) (fold (collect_write (\<lambda>c. False)) ?ys w')"
    by (simp add: same_walk_def collected_writes)
  moreover have "wk_remaining w = wk_remaining w'" using assms(4) by (simp add: same_walk_def)
  ultimately show ?thesis using same_walk_end assms(2,5)
    by (simp add: default_step_def own_step_def tuple_of_def blob no Let_def)
qed

lemma default_walk_same:
  assumes "tidy s t n" and "snapshots_only subsumes s t n"
  shows "chain_from (entries_at s t n) cur is \<Longrightarrow> same_walk w w' \<Longrightarrow>
     \<exists>w1. default_walk s t n (case cur of Some (c # cs) \<Rightarrow> Some (c # cs) | _ \<Rightarrow> None) w = Some w1 \<and> same_walk w1 (fold (own_step subsumes s t n) is w')"
proof (induction "is" arbitrary: cur w w')
  case Nil
  then show ?case
    by (subst default_walk.simps) (auto simp: get_tuple_def wanted_id_def config_ns_def Let_def split: option.splits list.splits)
next
  case (Cons i "is")
  obtain e where e: "cur = Some i" "dict_get (entries_at s t n) i = Some e" "chain_from (entries_at s t n) (se_parent e) is"
    using Cons.prems by (auto split: option.splits)
  obtain c cs where i: "i = c # cs" using e(2) assms(1) by (cases i) (auto simp: tidy_def)
  have get: "get_tuple \<lparr>cf_thread = t, cf_ns = Some n, cf_id = Some i, cf_other = [], cf_metadata = []\<rparr> s = Some (tuple_of s t n i e)"
    using e(2) i by (simp add: get_tuple_def wanted_id_def config_ns_def Let_def)
  show ?case
  proof (cases "wk_remaining w' = []")
    case True
    then have "wk_remaining w = []" using Cons.prems(2) by (simp add: same_walk_def)
    then show ?thesis using e(1) i Cons.prems(2) True by (subst default_walk.simps) (simp add: own_steps_done own_step_def)
  next
    case False
    then have "wk_remaining w \<noteq> []" using Cons.prems(2) by (simp add: same_walk_def)
    then show ?thesis
      using e(1) i get Cons.IH [OF e(3) default_step_same [OF assms(1) e(2) assms(2) Cons.prems(2) False]]
      by (subst default_walk.simps) (simp add: tuple_of_def)
  qed
qed

lemma fold_dict_set_get:
  "dict_get (fold (\<lambda>c d. dict_set c (f c) d) chs acc) c = (if c \<in> set chs then Some (f c) else dict_get acc c)"
  by (induction chs arbitrary: acc) auto

lemma finish_walk_get:
  "dict_get (finish_walk chs w) c =
     (if c \<in> set chs then Some \<lparr>ch_writes = rev (dict_getd (wk_collected w) c []), ch_seed = dict_get (wk_seeds w) c\<rparr> else None)"
  by (simp add: finish_walk_def fold_dict_set_get)

text \<open>Two histories with the same channels, seeds and writes, whatever the order of the writes.\<close>

definition same_history :: "(string, 'v channel_history) dict \<Rightarrow> (string, 'v channel_history) dict \<Rightarrow> bool" where
  "same_history d d' \<longleftrightarrow> (\<forall>c. rel_option (\<lambda>h h'. ch_seed h = ch_seed h' \<and> mset (ch_writes h) = mset (ch_writes h')) (dict_get d c) (dict_get d' c))"

text \<open>C36. Both walks of a delta channel's history agree on snapshots. Where every stored value is a snapshot, ids are
  not empty and the ancestors end, the saver's own walk and the default walk of the base class both return, and with
  the same seed and the same writes for every channel; the histories are equal when the writes of every
  checkpoint are stored in the order of task and index, which the own walk imposes and the default one does not.\<close>

theorem delta_walks_agree:
  assumes "tidy s (cf_thread cfg) (config_ns cfg)" and "snapshots_only subsumes s (cf_thread cfg) (config_ns cfg)" and "cf_id cfg = Some (c # cs)"
    and "ancestors (entries_at s (cf_thread cfg) (config_ns cfg)) (c # cs) = Some chain"
  shows "\<exists>own dflt. own_history subsumes cfg chs s = Some own \<and> default_history cfg chs s = Some dflt \<and> same_history own dflt \<and>
    (stored_in_order s (cf_thread cfg) (config_ns cfg) \<longrightarrow> own = dflt)"
proof (cases "chs = []")
  case True
  then show ?thesis by (simp add: own_history_def default_history_def same_history_def)
next
  case False
  let ?es = "entries_at s (cf_thread cfg) (config_ns cfg)"
  let ?par = "case dict_get ?es (c # cs) of None \<Rightarrow> None | Some e \<Rightarrow> se_parent e"
  let ?own = "fold (own_step subsumes s (cf_thread cfg) (config_ns cfg)) chain (start_walk chs)"
  have chain: "chain_from ?es ?par chain" using ancestors_from_chain [of ?es ?par "[]" chain] assms(4) by (simp add: ancestors_def)
  have par: "(case get_tuple cfg s of None \<Rightarrow> None | Some tup \<Rightarrow> ct_parent tup) = (case ?par of Some (c # cs) \<Rightarrow> Some (c # cs) | _ \<Rightarrow> None)"
    using assms(3) by (simp add: get_tuple_def wanted_id_def Let_def tuple_of_def split: option.splits)
  have own: "own_history subsumes cfg chs s = Some (finish_walk chs ?own)" using False assms(3,4) by (simp add: own_history_def Let_def)
  have "same_walk (start_walk chs) (start_walk chs)" by (simp add: same_walk_def)
  from default_walk_same [OF assms(1,2) chain this] obtain w1 where
    w1: "default_walk s (cf_thread cfg) (config_ns cfg) (case ?par of Some (c # cs) \<Rightarrow> Some (c # cs) | _ \<Rightarrow> None) (start_walk chs) = Some w1"
    and same: "same_walk w1 ?own" by blast
  have dflt: "default_history cfg chs s = Some (finish_walk chs w1)" using False w1 par by (simp add: default_history_def)
  have "same_history (finish_walk chs ?own) (finish_walk chs w1)"
    using same by (simp add: same_history_def finish_walk_get same_walk_def)
  moreover have "w1 = ?own" if "stored_in_order s (cf_thread cfg) (config_ns cfg)"
    using default_walk_own [OF assms(1) that assms(2) chain, of "start_walk chs"] w1 by simp
  ultimately show ?thesis using own dflt by blast
qed

theorem delta_walks_agree_witness:
  "default_history (demo_config (Some ''2'')) [''x''] (fold run_saver_op demo_saver_ops empty_saver) =
     own_history (\<lambda>v. v = PInt 0) (demo_config (Some ''2'')) [''x''] (fold run_saver_op demo_saver_ops empty_saver)"
proof -
  let ?s = "fold run_saver_op demo_saver_ops empty_saver" and ?cfg = "demo_config (Some ''2'')"
  have t: "tidy ?s (cf_thread ?cfg) (config_ns ?cfg)"
    by (auto simp: tidy_def demo_config_reads demo_saver_reads demo_entry_def demo_checkpoint_def wf_dict_def split: if_splits)
  have i: "cf_id ?cfg = Some (CHR ''2'' # [])" by (simp add: demo_config_reads)
  have a: "ancestors (entries_at ?s (cf_thread ?cfg) (config_ns ?cfg)) (CHR ''2'' # []) = Some [''1'']"
    by (simp only: demo_config_reads demo_saver_reads(3))
  have sn: "snapshots_only (\<lambda>v. v = PInt 0) ?s (cf_thread ?cfg) (config_ns ?cfg)"
    by (auto simp: snapshots_only_def demo_config_reads demo_saver_state blob_at_def split: option.splits if_splits)
  have "stored_in_order ?s (cf_thread ?cfg) (config_ns ?cfg)"
    by (auto simp: stored_in_order_def demo_config_reads demo_saver_reads split: if_splits)
  with delta_walks_agree [OF t sn i a, of "[''x'']"] show ?thesis by auto
qed

text \<open>They differ on a plain value: when the nearest stored value of a channel is a plain one (from
  before the channel was a delta channel), the saver's own walk drops the writes made after that
  value, the default walk keeps them.\<close>

theorem delta_walks_differ:
  "own_history (\<lambda>v. v \<noteq> PNone) (demo_config (Some ''2'')) [''x''] (fold run_saver_op demo_saver_ops empty_saver) =
     Some [(''x'', \<lparr>ch_writes = [], ch_seed = Some (PInt 7)\<rparr>)] \<and>
   default_history (demo_config (Some ''2'')) [''x''] (fold run_saver_op demo_saver_ops empty_saver) =
     Some [(''x'', \<lparr>ch_writes = [(''task'', ''x'', PInt 5)], ch_seed = Some (PInt 7)\<rparr>)]"
proof -
  let ?s = "fold run_saver_op demo_saver_ops empty_saver"
  let ?e1 = "demo_entry ''1'' 4 None" and ?e2 = "demo_entry ''2'' 5 (Some ''1'')"
  have blob: "blob_at ?s ''t'' [] ?e1 ''x'' = Some (PInt 7)" by (simp add: blob_at_def demo_saver_state demo_entry_def demo_checkpoint_def)
  have own: "own_step (\<lambda>v. v \<noteq> PNone) ?s ''t'' [] ''1'' (start_walk [''x'']) =
      \<lparr>wk_collected = [(''x'', [])], wk_seeds = [(''x'', PInt 7)], wk_remaining = []\<rparr>"
    by (simp add: own_step_def start_walk_def demo_saver_reads blob collect_write_def end_channel_def Let_def)
  have load: "load_blobs ?s ''t'' [] [(''x'', 4)] = [(''x'', PInt 7)]" by (simp add: load_blobs_def demo_saver_state)
  have dft: "default_step (tuple_of ?s ''t'' [] ''1'' ?e1) (start_walk [''x'']) =
      \<lparr>wk_collected = [(''x'', [(''task'', ''x'', PInt 5)])], wk_seeds = [(''x'', PInt 7)], wk_remaining = []\<rparr>"
    by (simp add: default_step_def tuple_of_def start_walk_def demo_saver_reads demo_entry_def demo_checkpoint_def load collect_write_def
        end_channel_def dict_getd_def Let_def)
  have get: "get_tuple (demo_config (Some ''2'')) ?s = Some (tuple_of ?s ''t'' [] ''2'' ?e2)"
    "get_tuple \<lparr>cf_thread = ''t'', cf_ns = Some [], cf_id = Some ''1'', cf_other = [], cf_metadata = []\<rparr> ?s = Some (tuple_of ?s ''t'' [] ''1'' ?e1)"
    by (simp_all add: get_tuple_def demo_saver_reads demo_config_def wanted_id_def config_ns_def Let_def)
  have par: "ct_parent (tuple_of ?s ''t'' [] ''2'' ?e2) = Some ''1''" "ct_parent (tuple_of ?s ''t'' [] ''1'' ?e1) = None"
    by (simp_all add: tuple_of_def demo_entry_def)
  have rem: "wk_remaining (start_walk [''x''] :: pyval walk) \<noteq> []" by (simp add: start_walk_def)
  have "default_walk ?s ''t'' [] (Some ''1'') (start_walk [''x'']) = Some (default_step (tuple_of ?s ''t'' [] ''1'' ?e1) (start_walk [''x'']))"
    using rem by (subst default_walk.simps) (simp add: get par default_walk.simps)
  then show ?thesis
    unfolding own_history_def default_history_def demo_config_reads Let_def get
    by (simp add: demo_saver_reads(3) own dft par finish_walk_def dict_getd_def)
qed

text \<open>Two tasks that finish in the order against that of their ids: the default walk gives their writes as they were
  stored, the own walk sorted.\<close>

definition late_saver_ops :: "(pyval, nat) saver_op list" where
  "late_saver_ops =
     [SaveCheckpoint (demo_config None) (demo_checkpoint ''1'' [] []) [] [],
      SaveWrites (demo_config (Some ''1'')) [(''x'', PInt 2)] ''b'' [],
      SaveWrites (demo_config (Some ''1'')) [(''x'', PInt 1)] ''a'' []]"

lemma late_writes_order:
  "map (\<lambda>(k, (tid, c, v, tp)). v) (writes_at (fold run_saver_op late_saver_ops empty_saver) ''t'' [] ''1'') = [PInt 2, PInt 1]"
  "map (\<lambda>(k, (tid, c, v, tp)). v) (sort_key fst (writes_at (fold run_saver_op late_saver_ops empty_saver) ''t'' [] ''1'')) = [PInt 1, PInt 2]"
  by code_simp+

end
