(* ===== verification/Loop.thy ===== *)
theory Loop
  imports Pregel Saver
begin

text \<open>
  The loop around the superstep: \<open>langgraph/pregel/_loop.py\<close> (entering a run, ticks, the writes of the
  tasks as they finish, the end of a step) and the commit of \<open>pregel/_runner.py\<close>, over the superstep of
  the theory Pregel and the saver of the theory Saver. The graph is a top-level one without error
  handlers and \<open>Send\<close>s, its durability is not \<open>exit\<close>; a task is a node triggered by channels that reads
  a list of channels, and what it does is an argument. Tasks that run at the same time commit one after the other, in any order.
\<close>

section \<open>Writes of tasks\<close>

text \<open>A task writes values to channels; the runtime adds signals under reserved keys.\<close>

datatype write_value = ChanValue cval | Signal pyval

type_synonym loop_write = "string \<times> write_value"
type_synonym loop_pending = "string \<times> string \<times> write_value"
type_synonym loop_saver = "(write_value, nat) saver"

definition error_key :: string where "error_key = ''__error__''"
definition resume_key :: string where "resume_key = ''__resume__''"
definition error_source_key :: string where "error_source_key = ''__error_source_node__''"
definition no_writes_key :: string where "no_writes_key = ''__no_writes__''"

text \<open>The keys of \<open>WRITES_IDX_MAP\<close>.\<close>

definition special_key :: "string \<Rightarrow> bool" where
  "special_key k \<longleftrightarrow> write_index k 0 < 0"

text \<open>\<open>put_writes\<close>: writes under special keys only are deduplicated, the last one of a key stays.\<close>

definition dedupe_special :: "loop_write list \<Rightarrow> loop_write list" where
  "dedupe_special ws =
     (if list_all (\<lambda>w. special_key (fst w)) ws then fold (\<lambda>w d. dict_set (fst w) (snd w) d) ws [] else ws)"

definition kept_pending :: "string \<Rightarrow> loop_pending list \<Rightarrow> loop_pending list" where
  "kept_pending tid ps =
     (if tid = null_task_id then filter (\<lambda>(t, k, v). t \<noteq> tid \<or> \<not> special_key k) ps
      else filter (\<lambda>(t, k, v). t \<noteq> tid) ps)"

definition is_untracked :: "channels \<Rightarrow> string \<Rightarrow> bool" where
  "is_untracked chs k = (case dict_get chs k of Some (UntrackedValue s) \<Rightarrow> True | _ \<Rightarrow> False)"

definition writes_to_save :: "channels \<Rightarrow> string \<Rightarrow> loop_pending list \<Rightarrow> loop_write list \<Rightarrow> loop_write list" where
  "writes_to_save chs tid kept ws =
     filter (\<lambda>w. \<not> is_untracked chs (fst w))
       ((if tid = null_task_id then map snd (filter (\<lambda>p. fst p = tid) kept) else []) @ ws)"

text \<open>The pending writes in memory, and what the saver gets.\<close>

definition loop_put_writes ::
  "channels \<Rightarrow> saver_config \<Rightarrow> string \<Rightarrow> string \<Rightarrow> loop_write list \<Rightarrow> loop_pending list \<times> loop_saver \<Rightarrow> loop_pending list \<times> loop_saver" where
  "loop_put_writes chs cfg tid tp ws0 ps =
     (if ws0 = [] then ps
      else (let ws = dedupe_special ws0; kept = kept_pending tid (fst ps)
            in (kept @ map (Pair tid) ws, snd (put_writes cfg (writes_to_save chs tid kept ws) tid tp (snd ps)))))"

section \<open>Tasks\<close>

record loop_task =
  lt_id :: string
  lt_name :: string
  lt_triggers :: "string list"
  lt_writes :: "loop_write list"

definition lt_path :: "loop_task \<Rightarrow> path_part list" where
  "lt_path t = [PathName ''__pregel_pull'', PathName (lt_name t)]"

text \<open>\<open>tid_of\<close>: the hash of the checkpoint, the step and the name.\<close>

definition pull_task :: "(string \<Rightarrow> string) \<Rightarrow> processes \<Rightarrow> string \<Rightarrow> loop_task" where
  "pull_task tid_of ps name =
     \<lparr>lt_id = tid_of name, lt_name = name, lt_triggers = sort (dict_getd ps name []), lt_writes = []\<rparr>"

definition prepare_next_tasks ::
  "(string \<Rightarrow> string) \<Rightarrow> graph_checkpoint \<Rightarrow> channels \<Rightarrow> processes \<Rightarrow> (string, string list) dict \<Rightarrow> string set option \<Rightarrow> loop_task list" where
  "prepare_next_tasks tid_of cp chs ps t2n updated = map (pull_task tid_of ps) (next_pull_nodes cp chs ps t2n updated)"

text \<open>\<open>_reapply_writes_to_succeeded_nodes\<close>.\<close>

definition not_reapplied :: "string list" where
  "not_reapplied = [error_key, error_source_key, interrupt_key, resume_key]"

definition reapplied :: "string \<Rightarrow> loop_pending list \<Rightarrow> loop_write list" where
  "reapplied tid ps = map snd (filter (\<lambda>(t, k, v). t = tid \<and> k \<notin> set not_reapplied) ps)"

definition reapply_writes :: "loop_pending list \<Rightarrow> loop_task list \<Rightarrow> loop_task list" where
  "reapply_writes ps ts = map (\<lambda>t. t\<lparr>lt_writes := lt_writes t @ reapplied (lt_id t) ps\<rparr>) ts"

text \<open>How a task ends, with the writes it has made; \<open>commit\<close> of the runner, without error handlers.\<close>

datatype node_end = NodeDone | NodeInterrupted "pyval list" | NodeFailed pyval

type_synonym node_run = "loop_write list \<times> node_end"

fun writes_after :: "node_run \<Rightarrow> loop_write list" where
  "writes_after (ws, NodeDone) = (if ws = [] then [(no_writes_key, Signal PNone)] else ws)"
| "writes_after (ws, NodeInterrupted vs) = ws"
| "writes_after (ws, NodeFailed e) = ws @ [(error_key, Signal e)]"

fun writes_committed :: "node_run \<Rightarrow> loop_write list" where
  "writes_committed (ws, NodeInterrupted vs) =
     (if vs = [] then [] else (interrupt_key, Signal (PList vs)) # filter (\<lambda>w. fst w = resume_key) ws)"
| "writes_committed (ws, NodeDone) = writes_after (ws, NodeDone)"
| "writes_committed (ws, NodeFailed e) = writes_after (ws, NodeFailed e)"

text \<open>A superstep in progress.\<close>

record superstep =
  su_tasks :: "loop_task list"
  su_pending :: "loop_pending list"
  su_saver :: loop_saver

definition commit_task :: "channels \<Rightarrow> saver_config \<Rightarrow> loop_task \<Rightarrow> node_run \<Rightarrow> superstep \<Rightarrow> superstep" where
  "commit_task chs cfg t r su =
     (let (ps, s) = loop_put_writes chs cfg (lt_id t) (task_path_str (PathTuple (take 3 (lt_path t)))) (writes_committed r) (su_pending su, su_saver su)
      in \<lparr>su_tasks = map (\<lambda>x. if lt_id x = lt_id t then x\<lparr>lt_writes := writes_after r\<rparr> else x) (su_tasks su), su_pending = ps, su_saver = s\<rparr>)"

text \<open>Entering the run and the first tick: the newest checkpoint of the thread, its pending writes, the
  resume value of a \<open>Command\<close> (input None has none), and the tasks with the writes that are theirs.
  \<open>cfg\<close> is the configuration of that checkpoint. The runner starts the tasks without writes.\<close>

definition pending_of :: "saver_config \<Rightarrow> loop_saver \<Rightarrow> loop_pending list" where
  "pending_of cfg s = (case get_tuple (cfg\<lparr>cf_id := None\<rparr>) s of None \<Rightarrow> [] | Some tup \<Rightarrow> ct_writes tup)"

definition enter_superstep :: "channels \<Rightarrow> saver_config \<Rightarrow> loop_task list \<Rightarrow> pyval option \<Rightarrow> loop_saver \<Rightarrow> superstep" where
  "enter_superstep chs cfg tasks inp s =
     (let (ps, s') = (case inp of
            None \<Rightarrow> (pending_of cfg s, s)
          | Some v \<Rightarrow> loop_put_writes chs cfg null_task_id [] [(resume_key, Signal v)] (pending_of cfg s, s))
      in \<lparr>su_tasks = reapply_writes ps tasks, su_pending = ps, su_saver = s'\<rparr>)"

definition to_run :: "superstep \<Rightarrow> loop_task list" where
  "to_run su = filter (\<lambda>t. lt_writes t = []) (su_tasks su)"

text \<open>What \<open>apply_writes\<close> gets of a task.\<close>

definition chan_writes :: "loop_write list \<Rightarrow> (string \<times> cval) list" where
  "chan_writes ws = concat (map (\<lambda>(k, v). case v of ChanValue x \<Rightarrow> [(k, x)] | Signal x \<Rightarrow> []) ws)"

definition as_task_writes :: "loop_task \<Rightarrow> task_writes" where
  "as_task_writes t = \<lparr>path = lt_path t, task_name = lt_name t, task_out = chan_writes (lt_writes t), triggers = lt_triggers t\<rparr>"

section \<open>A superstep over interruptions, failures and crashes\<close>

text \<open>A task may commit at any time while it has no writes; the process may end at any time, and the run
  is entered again from what the saver has. The log \<open>lg\<close> is what the tasks did.\<close>

inductive superstep_run ::
  "channels \<Rightarrow> saver_config \<Rightarrow> loop_task list \<Rightarrow> loop_saver \<Rightarrow> superstep \<Rightarrow> (string \<times> node_run) list \<Rightarrow> bool"
  for chs cfg tasks s0 where
  start: "superstep_run chs cfg tasks s0 (enter_superstep chs cfg tasks None s0) []"
| commit: "superstep_run chs cfg tasks s0 su lg \<Longrightarrow> t \<in> set (to_run su) \<Longrightarrow>
     superstep_run chs cfg tasks s0 (commit_task chs cfg t r su) (lg @ [(lt_id t, r)])"
| reenter: "superstep_run chs cfg tasks s0 su lg \<Longrightarrow>
     superstep_run chs cfg tasks s0 (enter_superstep chs cfg tasks inp (su_saver su)) lg"

text \<open>Runs of tasks as nodes make them: channel values, and resume values recorded by \<open>interrupt\<close>; one that
  fails has written nothing to a channel; one that ends after an interrupt has.\<close>

fun clean_write :: "loop_write \<Rightarrow> bool" where
  "clean_write (k, ChanValue x) \<longleftrightarrow> k \<notin> set not_reapplied \<and> \<not> special_key k"
| "clean_write (k, Signal x) \<longleftrightarrow> k = resume_key"

fun clean_run :: "node_run \<Rightarrow> bool" where
  "clean_run (ws, NodeDone) \<longleftrightarrow> list_all clean_write ws \<and> (ws = [] \<or> list_ex (\<lambda>w. fst w \<noteq> resume_key) ws)"
| "clean_run (ws, NodeInterrupted vs) \<longleftrightarrow> list_all clean_write ws"
| "clean_run (ws, NodeFailed e) \<longleftrightarrow> list_all (\<lambda>w. clean_write w \<and> fst w = resume_key) ws"

definition done_writes :: "(string \<times> node_run) list \<Rightarrow> string \<Rightarrow> loop_write list option" where
  "done_writes lg tid = map_option (\<lambda>x. fst (snd x)) (find (\<lambda>x. fst x = tid \<and> snd (snd x) = NodeDone) lg)"

text \<open>The writes of a task that a saver's dictionary holds.\<close>

definition kept_by :: "string \<Rightarrow> (string \<times> int, write_value stored_write) dict \<Rightarrow> loop_write list" where
  "kept_by tid d = concat (map (\<lambda>(k, (t, c, v, tp)). if t = tid \<and> c \<notin> set not_reapplied then [(c, v)] else []) d)"

definition regular :: "loop_write list \<Rightarrow> loop_write list" where
  "regular ws = filter (\<lambda>w. fst w \<notin> set not_reapplied) ws"

definition writes_ok :: "(string \<times> int, write_value stored_write) dict \<Rightarrow> bool" where
  "writes_ok d \<longleftrightarrow> list_all (\<lambda>((t, j), (t', c, v, tp)). t' = t \<and> (j < 0 \<longleftrightarrow> special_key c) \<and> (special_key c \<longleftrightarrow> c \<in> set not_reapplied)) d"

definition storable :: "loop_write \<Rightarrow> bool" where
  "storable w \<longleftrightarrow> (special_key (fst w) \<longleftrightarrow> fst w \<in> set not_reapplied)"

lemma choice_sign:
  "(if a then -1 else if b then -2 else if c then -3 else if d then -4 else int i) < 0 \<longleftrightarrow>
   (if a then -1 else if b then -2 else if c then -3 else if d then -4 else int j) < 0"
  "\<not> (if a then -1 else if b then -2 else if c then -3 else if d then -4 else int j) < 0 \<Longrightarrow>
   (if a then -1 else if b then -2 else if c then -3 else if d then -4 else int i) = int i"
  by (auto split: if_splits)

lemma index_sign: "write_index c i < 0 \<longleftrightarrow> special_key c" "\<not> special_key c \<Longrightarrow> write_index c i = int i"
  unfolding special_key_def write_index_def by (rule choice_sign(1)) (erule choice_sign(2))

lemma concat_map_update:
  assumes "\<And>x. (k, x) \<in> set d \<Longrightarrow> g (k, x) = []" and "g (k, y) = []"
  shows "concat (map g (dict_set k y d)) = concat (map g d)"
  using assms by (induction d) auto

lemma dict_set_fresh: "dict_get d k = None \<Longrightarrow> dict_set k v d = d @ [(k, v)]"
  by (rule dict_set_new)

lemma restored_set_special:
  assumes "writes_ok d" and "j < 0" and "c \<in> set not_reapplied"
  shows "kept_by tid (dict_set (t, j) (t, c, v, tp) d) = kept_by tid d"
  unfolding kept_by_def
proof (rule concat_map_update)
  fix x
  assume "((t, j), x) \<in> set d"
  then show "(case ((t, j), x) of (k, t, c, v, tp) \<Rightarrow> if t = tid \<and> c \<notin> set not_reapplied then [(c, v)] else []) = []"
    using assms(1,2) by (auto simp: writes_ok_def list_all_iff)
qed (use assms(3) in simp)

lemma writes_ok_set:
  "writes_ok d \<Longrightarrow> (j < 0 \<longleftrightarrow> special_key c) \<Longrightarrow> (special_key c \<longleftrightarrow> c \<in> set not_reapplied) \<Longrightarrow> writes_ok (dict_set (t, j) (t, c, v, tp) d)"
  by (auto simp: writes_ok_def list_all_iff dest!: set_dict_set)

lemma restored_add_writes:
  assumes "writes_ok d" and "list_all storable ws" and "\<forall>j \<ge> int i. dict_get d (tid, j) = None"
  shows "writes_ok (add_writes tid tp i ws d) \<and>
     kept_by tid' (add_writes tid tp i ws d) = kept_by tid' d @ (if tid' = tid then regular ws else [])"
  using assms
proof (induction ws arbitrary: i d)
  case Nil
  then show ?case by (simp add: regular_def)
next
  case (Cons w ws)
  obtain c v where w: "w = (c, v)" by (cases w)
  have st: "special_key c \<longleftrightarrow> c \<in> set not_reapplied" using Cons.prems(2) by (simp add: w storable_def)
  show ?case
  proof (cases "special_key c")
    case True
    then have neg: "write_index c i < 0" by (simp add: index_sign)
    let ?d = "dict_set (tid, write_index c i) (tid, c, v, tp) d"
    have "writes_ok ?d" using Cons.prems(1) neg True st by (intro writes_ok_set) auto
    moreover have "\<forall>j \<ge> int (Suc i). dict_get ?d (tid, j) = None" using Cons.prems(3) neg by auto
    moreover have "kept_by tid' ?d = kept_by tid' d" using Cons.prems(1) neg True st by (intro restored_set_special) auto
    ultimately show ?thesis using Cons.IH [of ?d "Suc i"] Cons.prems(2) neg True st by (simp add: w regular_def)
  next
    case False
    then have idx: "write_index c i = int i" by (simp add: index_sign)
    let ?d = "d @ [((tid, int i), (tid, c, v, tp))]"
    have new: "dict_get d (tid, int i) = None" using Cons.prems(3) by simp
    have "writes_ok ?d" using Cons.prems(1) False st by (simp add: writes_ok_def)
    moreover have "\<forall>j \<ge> int (Suc i). dict_get ?d (tid, j) = None" using Cons.prems(3) by (simp add: map_add_def)
    moreover have "kept_by tid' ?d = kept_by tid' d @ (if tid' = tid then [(c, v)] else [])" using False st by (simp add: kept_by_def)
    ultimately show ?thesis
      using Cons.IH [of ?d "Suc i"] Cons.prems(2) False st new by (simp add: w regular_def idx dict_set_fresh)
  qed
qed

definition stored_of :: "saver_config \<Rightarrow> loop_saver \<Rightarrow> (string \<times> int, write_value stored_write) dict" where
  "stored_of cfg s = writes_at s (cf_thread cfg) (config_ns cfg) (the (cf_id cfg))"

definition has_entry :: "saver_config \<Rightarrow> loop_saver \<Rightarrow> bool" where
  "has_entry cfg s \<longleftrightarrow>
     (\<exists>i e. cf_id cfg = Some i \<and> i \<noteq> [] \<and> dict_get (entries_at s (cf_thread cfg) (config_ns cfg)) i = Some e \<and>
        i = Max (set (map fst (entries_at s (cf_thread cfg) (config_ns cfg)))))"

lemma put_writes_stored:
  assumes "has_entry cfg s"
  shows "has_entry cfg (snd (put_writes cfg ws tid tp s)) \<and>
     stored_of cfg (snd (put_writes cfg ws tid tp s)) = (if ws = [] then stored_of cfg s else add_writes tid tp 0 ws (stored_of cfg s))"
proof -
  have "entries_at (snd (put_writes cfg ws tid tp s)) t n = entries_at s t n" for t n
    using run_saver_op_entries(1) [of cfg ws tid tp s t n] by simp
  with assms show ?thesis
    by (auto simp: has_entry_def stored_of_def put_writes_def writes_at_def dict_getd_def Let_def)
qed

lemma pending_stored:
  assumes "has_entry cfg s"
  shows "pending_of cfg s = map (\<lambda>(k, (t, c, v, tp)). (t, c, v)) (stored_of cfg s)"
proof -
  let ?es = "entries_at s (cf_thread cfg) (config_ns cfg)"
  obtain i e where i: "cf_id cfg = Some i" "dict_get ?es i = Some e" "i = Max (set (map fst ?es))"
    using assms by (auto simp: has_entry_def)
  then have "?es \<noteq> []" by auto
  with i have "get_tuple (cfg\<lparr>cf_id := None\<rparr>) s = Some (tuple_of s (cf_thread cfg) (config_ns cfg) i e)"
    by (simp add: get_tuple_def wanted_id_def config_ns_def Let_def)
  then show ?thesis by (simp add: pending_of_def tuple_of_def stored_of_def i(1))
qed

lemma reapplied_stored: "reapplied tid (map (\<lambda>(k, (t, c, v, tp)). (t, c, v)) d) = kept_by tid d"
  by (induction d) (simp_all add: reapplied_def kept_by_def split: prod.splits)

lemma reapplied_pending: "has_entry cfg s \<Longrightarrow> reapplied tid (pending_of cfg s) = kept_by tid (stored_of cfg s)"
  by (simp add: pending_stored reapplied_stored)

lemma done_writes_snoc:
  "done_writes (lg @ [(t, r)]) tid =
     (case done_writes lg tid of Some ws \<Rightarrow> Some ws | None \<Rightarrow> if t = tid \<and> snd r = NodeDone then Some (fst r) else None)"
  by (induction lg) (auto simp: done_writes_def)

lemma done_writes_None: "done_writes lg tid = None \<longleftrightarrow> (\<forall>x \<in> set lg. fst x = tid \<longrightarrow> snd (snd x) \<noteq> NodeDone)"
  by (auto simp: done_writes_def find_None_iff)

lemma done_writes_Some: "done_writes lg tid = Some ws \<Longrightarrow> (tid, ws, NodeDone) \<in> set lg"
  by (induction lg) (auto simp: done_writes_def split: if_splits)

text \<open>Nothing comes after a task is done.\<close>

definition done_once :: "(string \<times> node_run) list \<Rightarrow> bool" where
  "done_once lg \<longleftrightarrow> (\<forall>i j. i < j \<and> j < length lg \<and> fst (lg ! i) = fst (lg ! j) \<longrightarrow> snd (snd (lg ! i)) \<noteq> NodeDone)"

lemma done_once_snoc: "done_once (lg @ [x]) \<longleftrightarrow> done_once lg \<and> done_writes lg (fst x) = None"
proof
  assume d: "done_once (lg @ [x])"
  have "done_once lg" unfolding done_once_def
  proof (intro allI impI)
    fix i j
    assume ij: "i < j \<and> j < length lg \<and> fst (lg ! i) = fst (lg ! j)"
    with d [unfolded done_once_def, rule_format, of i j] show "snd (snd (lg ! i)) \<noteq> NodeDone" by (simp add: nth_append)
  qed
  moreover have "snd (snd y) \<noteq> NodeDone" if y: "y \<in> set lg" "fst y = fst x" for y
  proof -
    obtain i where "i < length lg" "lg ! i = y" using y(1) by (auto simp: in_set_conv_nth)
    with y(2) d [unfolded done_once_def, rule_format, of i "length lg"] show ?thesis by (simp add: nth_append)
  qed
  ultimately show "done_once lg \<and> done_writes lg (fst x) = None" by (auto simp: done_writes_None)
next
  assume "done_once lg \<and> done_writes lg (fst x) = None"
  then show "done_once (lg @ [x])" by (auto simp: done_once_def done_writes_None nth_append less_Suc_eq)
qed

section \<open>What a commit stores\<close>

lemma keys [simp]:
  "special_key error_key" "special_key resume_key" "special_key interrupt_key" "\<not> special_key no_writes_key"
  "error_key \<in> set not_reapplied" "resume_key \<in> set not_reapplied" "interrupt_key \<in> set not_reapplied" "no_writes_key \<notin> set not_reapplied"
  by (simp_all add: special_key_def write_index_def error_key_def resume_key_def interrupt_key_def no_writes_key_def not_reapplied_def error_source_key_def)

lemma clean_storable: "clean_write w \<Longrightarrow> storable w"
  by (cases w rule: clean_write.cases) (simp_all add: storable_def)

lemma committed_storable: "clean_run r \<Longrightarrow> list_all storable (writes_committed r)"
proof -
  assume c: "clean_run r"
  obtain ws e where r: "r = (ws, e)" by (cases r)
  have "list_all storable ws" using c clean_storable by (cases e) (auto simp: r list_all_iff)
  then show ?thesis by (cases e) (auto simp: r list_all_iff storable_def)
qed

lemma committed_regular:
  "clean_run r \<Longrightarrow> regular (writes_committed r) = (if snd r = NodeDone then regular (writes_after r) else [])"
  by (cases r; cases "snd r") (auto simp: regular_def filter_empty_conv list_all_iff)

lemma fold_set_keys: "fst ` set (fold (\<lambda>w d. dict_set (fst w) (snd w) d) ws (d :: loop_write list)) = fst ` set d \<union> fst ` set ws"
  by (induction ws arbitrary: d) (auto simp: dom_update)

lemma dedupe_keys:
  assumes "w \<in> set (dedupe_special ws)"
  obtains w' where "w' \<in> set ws" "fst w' = fst w"
proof -
  have "fst ` set (dedupe_special ws) = fst ` set ws" using fold_set_keys [of ws "[]"] by (simp add: dedupe_special_def)
  then have "fst w \<in> fst ` set ws" using assms by (metis imageI)
  then obtain w' where "w' \<in> set ws" "fst w' = fst w" by (elim imageE) simp
  then show thesis by (rule that)
qed

lemma storable_key: "storable w' \<Longrightarrow> fst w' = fst w \<Longrightarrow> storable w"
  by (simp add: storable_def)

lemma dedupe_storable: "list_all storable ws \<Longrightarrow> list_all storable (dedupe_special ws)"
  unfolding list_all_iff by (metis dedupe_keys storable_key)

lemma dedupe_regular:
  assumes "list_all storable ws"
  shows "regular (dedupe_special ws) = regular ws"
proof (cases "list_all (\<lambda>w. special_key (fst w)) ws")
  case True
  then have all: "fst w \<in> set not_reapplied" if "w \<in> set ws" for w using that assms by (simp add: list_all_iff storable_def)
  then have "fst w \<in> set not_reapplied" if "w \<in> set (dedupe_special ws)" for w using that by (metis dedupe_keys)
  with all show ?thesis by (simp add: regular_def filter_empty_conv)
qed (simp add: dedupe_special_def)

lemma fold_set_nonempty: "d \<noteq> [] \<Longrightarrow> fold (\<lambda>w d. dict_set (fst w) (snd w) d) ws (d :: loop_write list) \<noteq> []"
  by (induction ws arbitrary: d) (auto simp: update_nonempty)

lemma dedupe_Nil [simp]: "ws \<noteq> [] \<Longrightarrow> dedupe_special ws \<noteq> []"
  using fold_set_nonempty [of "[hd ws]" "tl ws"] by (cases ws) (simp_all add: dedupe_special_def)

section \<open>The invariant of a superstep\<close>

definition fresh_superstep :: "channels \<Rightarrow> saver_config \<Rightarrow> loop_task list \<Rightarrow> loop_saver \<Rightarrow> bool" where
  "fresh_superstep chs cfg tasks s0 \<longleftrightarrow>
     distinct (map lt_id tasks) \<and> null_task_id \<notin> set (map lt_id tasks) \<and> list_all (\<lambda>t. lt_writes t = []) tasks \<and>
     list_all (\<lambda>(k, c). \<not> is_untracked chs k) chs \<and> has_entry cfg s0 \<and> stored_of cfg s0 = []"

text \<open>What memory holds of the tasks: a task that is done has writes, with the channel values it wrote.\<close>

definition memory_ok :: "loop_task list \<Rightarrow> (string \<times> node_run) list \<Rightarrow> loop_task list \<Rightarrow> bool" where
  "memory_ok tasks lg ts \<longleftrightarrow>
     (\<exists>w. ts = map (\<lambda>t. t\<lparr>lt_writes := w (lt_id t)\<rparr>) tasks \<and>
        (\<forall>t \<in> set tasks. case done_writes lg (lt_id t) of
             None \<Rightarrow> True | Some ws \<Rightarrow> w (lt_id t) \<noteq> [] \<and> chan_writes (w (lt_id t)) = chan_writes ws))"

text \<open>The saver holds the writes of the tasks that are done, and no channel write of another task.\<close>

definition saver_ok :: "saver_config \<Rightarrow> loop_task list \<Rightarrow> (string \<times> node_run) list \<Rightarrow> loop_saver \<Rightarrow> bool" where
  "saver_ok cfg tasks lg s \<longleftrightarrow>
     has_entry cfg s \<and> writes_ok (stored_of cfg s) \<and> kept_by null_task_id (stored_of cfg s) = [] \<and>
     (\<forall>t \<in> set tasks. kept_by (lt_id t) (stored_of cfg s) =
        (case done_writes lg (lt_id t) of None \<Rightarrow> [] | Some ws \<Rightarrow> regular (writes_after (ws, NodeDone))))"

lemma untracked_none: "list_all (\<lambda>(k, c). \<not> is_untracked chs k) chs \<Longrightarrow> \<not> is_untracked chs k"
  by (cases "dict_get chs k") (simp add: is_untracked_def, auto simp: list_all_iff dest!: map_of_SomeD)

lemma restored_Nil_fresh:
  assumes "writes_ok d" and "kept_by tid d = []" and "0 \<le> j"
  shows "dict_get d (tid, j) = None"
proof (rule ccontr)
  assume "dict_get d (tid, j) \<noteq> None"
  then obtain t c v tp where m: "((tid, j), (t, c, v, tp)) \<in> set d" by (auto dest!: map_of_SomeD)
  with assms(1,3) have "t = tid" "c \<notin> set not_reapplied" by (auto simp: writes_ok_def list_all_iff)
  with m have "(c, v) \<in> set (kept_by tid d)" by (force simp: kept_by_def)
  with assms(2) show False by simp
qed

lemma put_saver:
  assumes "\<And>ws. writes_to_save chs tid (kept_pending tid ps) ws = ws" and "list_all storable ws" and "has_entry cfg s"
    and "writes_ok (stored_of cfg s)" and "kept_by tid (stored_of cfg s) = []"
  shows "has_entry cfg (snd (loop_put_writes chs cfg tid tp ws (ps, s))) \<and>
     writes_ok (stored_of cfg (snd (loop_put_writes chs cfg tid tp ws (ps, s)))) \<and>
     kept_by tid' (stored_of cfg (snd (loop_put_writes chs cfg tid tp ws (ps, s)))) =
       kept_by tid' (stored_of cfg s) @ (if tid' = tid then regular ws else [])"
proof (cases "ws = []")
  case True
  with assms show ?thesis by (simp add: loop_put_writes_def regular_def)
next
  case False
  let ?ws = "dedupe_special ws"
  have s': "snd (loop_put_writes chs cfg tid tp ws (ps, s)) = snd (put_writes cfg ?ws tid tp s)"
    using False by (simp add: loop_put_writes_def assms(1) Let_def)
  have fresh: "\<forall>j \<ge> int 0. dict_get (stored_of cfg s) (tid, j) = None" using restored_Nil_fresh [OF assms(4,5)] by simp
  note add = restored_add_writes [OF assms(4) dedupe_storable [OF assms(2)] fresh, of tp tid']
  show ?thesis
    using put_writes_stored [OF assms(3), of ?ws tid tp] add False dedupe_regular [OF assms(2)] by (simp add: s')
qed

lemma task_saves_all: "(\<forall>k. \<not> is_untracked chs k) \<Longrightarrow> tid \<noteq> null_task_id \<Longrightarrow> writes_to_save chs tid kept ws = ws"
  by (simp add: writes_to_save_def)

lemma null_saves_all:
  assumes "\<forall>k. \<not> is_untracked chs k" and "has_entry cfg s" and "writes_ok (stored_of cfg s)" and "kept_by null_task_id (stored_of cfg s) = []"
  shows "writes_to_save chs null_task_id (kept_pending null_task_id (pending_of cfg s)) ws = ws"
proof -
  have "special_key c" if m: "(null_task_id, c, v) \<in> set (pending_of cfg s)" for c v
  proof -
    obtain t j tp where e: "((t, j), (null_task_id, c, v, tp)) \<in> set (stored_of cfg s)"
      using m by (auto simp: pending_stored [OF assms(2)])
    have "c \<in> set not_reapplied"
    proof (rule ccontr)
      assume "c \<notin> set not_reapplied"
      with e have "(c, v) \<in> set (kept_by null_task_id (stored_of cfg s))" by (force simp: kept_by_def)
      with assms(4) show False by simp
    qed
    with e assms(3) show ?thesis by (auto simp: writes_ok_def list_all_iff)
  qed
  then have "filter (\<lambda>p. fst p = null_task_id) (kept_pending null_task_id (pending_of cfg s)) = []"
    by (auto simp: kept_pending_def filter_empty_conv)
  with assms(1) show ?thesis by (simp add: writes_to_save_def)
qed

text \<open>Entering again keeps the saver's side, and restores memory from it.\<close>

lemma resume_storable: "list_all storable [(resume_key, Signal v)]"
  by (simp add: storable_def)

lemma saver_enter:
  assumes "saver_ok cfg tasks lg s" and "\<forall>k. \<not> is_untracked chs k"
  shows "saver_ok cfg tasks lg (su_saver (enter_superstep chs cfg tasks inp s))"
proof (cases inp)
  case None
  with assms(1) show ?thesis by (simp add: enter_superstep_def)
next
  case (Some v)
  have s: "has_entry cfg s" "writes_ok (stored_of cfg s)" "kept_by null_task_id (stored_of cfg s) = []"
    using assms(1) by (simp_all add: saver_ok_def)
  note put = put_saver [OF null_saves_all [OF assms(2) s] resume_storable [of v] s, where tp = "[]"]
  have e: "su_saver (enter_superstep chs cfg tasks inp s) =
      snd (loop_put_writes chs cfg null_task_id [] [(resume_key, Signal v)] (pending_of cfg s, s))"
    by (simp add: enter_superstep_def Some split: prod.splits)
  have "kept_by tid (stored_of cfg (su_saver (enter_superstep chs cfg tasks inp s))) = kept_by tid (stored_of cfg s)" for tid
    using put [of tid] by (simp add: e regular_def)
  with assms(1) put show ?thesis by (simp add: saver_ok_def e)
qed

lemma enter_tasks:
  assumes "has_entry cfg s" and "null_task_id \<notin> set (map lt_id tasks)"
  shows "su_tasks (enter_superstep chs cfg tasks inp s) = map (\<lambda>t. t\<lparr>lt_writes := lt_writes t @ kept_by (lt_id t) (stored_of cfg s)\<rparr>) tasks"
proof -
  have kept: "reapplied tid (fst (loop_put_writes chs cfg null_task_id [] ws (ps, s))) = reapplied tid ps" if "tid \<noteq> null_task_id" for tid ws ps
    using that by (induction ps) (auto simp: loop_put_writes_def reapplied_def kept_pending_def Let_def comp_def)
  then show ?thesis
    using assms(2) by (auto simp: enter_superstep_def reapply_writes_def reapplied_pending [OF assms(1)] split: option.splits prod.splits)
      (metis fst_conv imageI kept reapplied_pending [OF assms(1)])+
qed

lemma clean_chan_writes: "list_all clean_write ws \<Longrightarrow> chan_writes (regular ws) = chan_writes ws"
proof (induction ws)
  case (Cons w ws)
  then show ?case by (cases w rule: clean_write.cases) (auto simp: chan_writes_def regular_def)
qed (simp add: regular_def)

lemma done_clean:
  assumes "clean_run (ws, NodeDone)"
  shows "regular (writes_after (ws, NodeDone)) \<noteq> []" and "chan_writes (regular (writes_after (ws, NodeDone))) = chan_writes ws"
    and "chan_writes (writes_after (ws, NodeDone)) = chan_writes ws"
proof -
  have "fst w \<notin> set not_reapplied" if "w \<in> set ws" "fst w \<noteq> resume_key" for w
    using that assms by (cases w rule: clean_write.cases) (auto simp: list_all_iff)
  then show "regular (writes_after (ws, NodeDone)) \<noteq> []"
    using assms by (auto simp: regular_def filter_empty_conv list_ex_iff)
  show "chan_writes (regular (writes_after (ws, NodeDone))) = chan_writes ws" "chan_writes (writes_after (ws, NodeDone)) = chan_writes ws"
    using assms clean_chan_writes [of ws] by (auto simp: chan_writes_def regular_def)
qed

lemma memory_enter:
  assumes "saver_ok cfg tasks lg s" and "list_all (\<lambda>t. lt_writes t = []) tasks" and "\<forall>x \<in> set lg. clean_run (snd x)"
    and "null_task_id \<notin> set (map lt_id tasks)"
  shows "memory_ok tasks lg (su_tasks (enter_superstep chs cfg tasks inp s))"
proof -
  let ?w = "\<lambda>tid. kept_by tid (stored_of cfg s)"
  have e: "has_entry cfg s" using assms(1) by (simp add: saver_ok_def)
  have "su_tasks (enter_superstep chs cfg tasks inp s) = map (\<lambda>t. t\<lparr>lt_writes := ?w (lt_id t)\<rparr>) tasks"
    using assms(2) by (auto simp: enter_tasks [OF e assms(4)] list_all_iff)
  moreover have "?w (lt_id t) \<noteq> [] \<and> chan_writes (?w (lt_id t)) = chan_writes ws"
    if "t \<in> set tasks" "done_writes lg (lt_id t) = Some ws" for t ws
  proof -
    have "clean_run (ws, NodeDone)" using done_writes_Some [OF that(2)] assms(3) by auto
    moreover have "?w (lt_id t) = regular (writes_after (ws, NodeDone))" using assms(1) that by (simp add: saver_ok_def)
    ultimately show ?thesis using done_clean [of ws] by simp
  qed
  ultimately show ?thesis unfolding memory_ok_def by (intro exI [of _ ?w]) (auto split: option.splits)
qed

lemma memory_commit:
  assumes "memory_ok tasks lg (su_tasks su)" and "t \<in> set (to_run su)" and "clean_run r"
  shows "done_writes lg (lt_id t) = None \<and> lt_id t \<in> lt_id ` set tasks \<and> memory_ok tasks (lg @ [(lt_id t, r)]) (su_tasks (commit_task chs cfg t r su))"
proof -
  obtain w where w: "su_tasks su = map (\<lambda>t. t\<lparr>lt_writes := w (lt_id t)\<rparr>) tasks"
    "\<And>t ws. t \<in> set tasks \<Longrightarrow> done_writes lg (lt_id t) = Some ws \<Longrightarrow> w (lt_id t) \<noteq> [] \<and> chan_writes (w (lt_id t)) = chan_writes ws"
    using assms(1) by (fastforce simp: memory_ok_def)
  obtain t0 where t0: "t0 \<in> set tasks" "t = t0\<lparr>lt_writes := w (lt_id t0)\<rparr>" "w (lt_id t0) = []"
    using assms(2) by (auto simp: to_run_def w(1))
  have none: "done_writes lg (lt_id t) = None" using w(2) [OF t0(1)] t0 by (cases "done_writes lg (lt_id t0)") auto
  let ?w = "w(lt_id t := writes_after r)"
  have ts: "su_tasks (commit_task chs cfg t r su) = map (\<lambda>t. t\<lparr>lt_writes := ?w (lt_id t)\<rparr>) tasks"
    by (simp add: commit_task_def w(1) split: prod.splits)
  have "?w (lt_id x) \<noteq> [] \<and> chan_writes (?w (lt_id x)) = chan_writes ws"
    if "x \<in> set tasks" "done_writes (lg @ [(lt_id t, r)]) (lt_id x) = Some ws" for x ws
  proof (cases "lt_id x = lt_id t")
    case True
    with that(2) none have "snd r = NodeDone" "fst r = ws" by (auto simp: done_writes_snoc split: if_splits)
    then have "r = (ws, NodeDone)" by (cases r) simp
    with assms(3) True done_clean(3) [of ws] show ?thesis by simp
  next
    case False
    with that w(2) [OF that(1)] show ?thesis by (auto simp: done_writes_snoc split: option.splits)
  qed
  then have "memory_ok tasks (lg @ [(lt_id t, r)]) (su_tasks (commit_task chs cfg t r su))"
    unfolding memory_ok_def ts by (intro exI [of _ ?w]) (auto split: option.splits)
  with none t0 show ?thesis by auto
qed

lemma commit_saver:
  "su_saver (commit_task chs cfg t r su) =
     snd (loop_put_writes chs cfg (lt_id t) (task_path_str (PathTuple (take 3 (lt_path t)))) (writes_committed r) (su_pending su, su_saver su))"
  by (simp add: commit_task_def split: prod.splits)

lemma saver_commit:
  assumes "saver_ok cfg tasks lg (su_saver su)" and "\<forall>k. \<not> is_untracked chs k" and "lt_id t \<noteq> null_task_id" and "clean_run r"
    and "lt_id t \<in> lt_id ` set tasks" and "done_writes lg (lt_id t) = None"
  shows "saver_ok cfg tasks (lg @ [(lt_id t, r)]) (su_saver (commit_task chs cfg t r su))"
proof -
  have s: "has_entry cfg (su_saver su)" "writes_ok (stored_of cfg (su_saver su))" "kept_by (lt_id t) (stored_of cfg (su_saver su)) = []"
    using assms(1,5,6) by (auto simp: saver_ok_def)
  note put = put_saver [OF task_saves_all [OF assms(2,3)] committed_storable [OF assms(4)] s,
      where tp = "task_path_str (PathTuple (take 3 (lt_path t)))" and ps = "su_pending su", folded commit_saver]
  have "kept_by null_task_id (stored_of cfg (su_saver (commit_task chs cfg t r su))) = []"
    using put [of null_task_id] assms(1,3) by (simp add: saver_ok_def)
  moreover have "kept_by (lt_id x) (stored_of cfg (su_saver (commit_task chs cfg t r su))) =
      (case done_writes (lg @ [(lt_id t, r)]) (lt_id x) of None \<Rightarrow> [] | Some ws \<Rightarrow> regular (writes_after (ws, NodeDone)))"
    if "x \<in> set tasks" for x
    using put [of "lt_id x"] assms(1,6) that committed_regular [OF assms(4)]
    by (cases r) (auto simp: saver_ok_def done_writes_snoc split: option.splits)
  ultimately show ?thesis using put by (simp add: saver_ok_def)
qed

lemma superstep_invariant:
  assumes "superstep_run chs cfg tasks s0 su lg" and "fresh_superstep chs cfg tasks s0" and "\<forall>x \<in> set lg. clean_run (snd x)"
  shows "done_once lg \<and> saver_ok cfg tasks lg (su_saver su) \<and> memory_ok tasks lg (su_tasks su)"
  using assms
proof (induction rule: superstep_run.induct)
  case start
  then have ok: "saver_ok cfg tasks [] s0" and e: "list_all (\<lambda>t. lt_writes t = []) tasks" "null_task_id \<notin> set (map lt_id tasks)"
    by (simp_all add: fresh_superstep_def saver_ok_def writes_ok_def kept_by_def done_writes_def)
  moreover have "\<forall>k. \<not> is_untracked chs k" using start untracked_none by (auto simp: fresh_superstep_def)
  ultimately show ?case using memory_enter [OF ok e(1) _ e(2)] saver_enter by (simp add: done_once_def)
next
  case (reenter su lg inp)
  then have ok: "saver_ok cfg tasks lg (su_saver su)" and e: "list_all (\<lambda>t. lt_writes t = []) tasks" "null_task_id \<notin> set (map lt_id tasks)"
    by (simp_all add: fresh_superstep_def)
  moreover have "\<forall>k. \<not> is_untracked chs k" using reenter.prems(1) untracked_none by (auto simp: fresh_superstep_def)
  ultimately show ?case using memory_enter [OF ok e(1) _ e(2)] saver_enter reenter by simp
next
  case (commit su lg t r)
  then have IH: "done_once lg" "saver_ok cfg tasks lg (su_saver su)" "memory_ok tasks lg (su_tasks su)" and r: "clean_run r"
    by simp_all
  from memory_commit [OF IH(3) commit.hyps(2) r, of chs cfg]
  have none: "done_writes lg (lt_id t) = None" and mem: "lt_id t \<in> lt_id ` set tasks"
    and m: "memory_ok tasks (lg @ [(lt_id t, r)]) (su_tasks (commit_task chs cfg t r su))" by auto
  have "lt_id t \<noteq> null_task_id" using commit.prems(1) mem by (auto simp: fresh_superstep_def)
  moreover have "\<forall>k. \<not> is_untracked chs k" using commit.prems(1) untracked_none by (auto simp: fresh_superstep_def)
  ultimately have "saver_ok cfg tasks (lg @ [(lt_id t, r)]) (su_saver (commit_task chs cfg t r su))"
    using saver_commit [OF IH(2) _ _ r mem none] by blast
  with IH(1) none m show ?case by (simp add: done_once_snoc)
qed

lemma memory_Some:
  assumes "memory_ok tasks lg ts" and "\<forall>t \<in> set tasks. done_writes lg (lt_id t) \<noteq> None"
  shows "map as_task_writes ts = map (\<lambda>t. as_task_writes (t\<lparr>lt_writes := the (done_writes lg (lt_id t))\<rparr>)) tasks"
  using assms by (fastforce simp: memory_ok_def as_task_writes_def lt_path_def)

lemma enter_to_run:
  assumes "saver_ok cfg tasks lg s" and "fresh_superstep chs cfg tasks s0" and "\<forall>x \<in> set lg. clean_run (snd x)"
  shows "to_run (enter_superstep chs cfg tasks inp s) = filter (\<lambda>t. done_writes lg (lt_id t) = None) tasks"
proof -
  have e: "has_entry cfg s" and n: "null_task_id \<notin> set (map lt_id tasks)" and w: "\<And>t. t \<in> set tasks \<Longrightarrow> lt_writes t = []"
    using assms(1,2) by (simp_all add: saver_ok_def fresh_superstep_def list_all_iff)
  have iff: "kept_by (lt_id t) (stored_of cfg s) = [] \<longleftrightarrow> done_writes lg (lt_id t) = None" if t: "t \<in> set tasks" for t
  proof (cases "done_writes lg (lt_id t)")
    case None
    with assms(1) t show ?thesis by (simp add: saver_ok_def)
  next
    case (Some ws)
    then have "clean_run (ws, NodeDone)" using done_writes_Some assms(3) by fastforce
    with Some assms(1) t show ?thesis using done_clean(1) by (simp add: saver_ok_def)
  qed
  have "filter (\<lambda>t. lt_writes t = []) (map (\<lambda>t. t\<lparr>lt_writes := lt_writes t @ kept_by (lt_id t) (stored_of cfg s)\<rparr>) ts) =
      filter (\<lambda>t. done_writes lg (lt_id t) = None) ts" if "set ts \<subseteq> set tasks" for ts
    using that by (induction ts) (simp_all add: iff w)
  then show ?thesis by (simp add: to_run_def enter_tasks [OF e n])
qed

lemma runs_again:
  assumes "has_entry cfg s" and "null_task_id \<notin> set (map lt_id tasks)" and "list_all (\<lambda>t. lt_writes t = []) tasks" and "tid \<in> lt_id ` set tasks"
  shows "tid \<in> lt_id ` set (to_run (enter_superstep chs cfg tasks inp s)) \<longleftrightarrow> kept_by tid (stored_of cfg s) = []"
proof -
  obtain t where t: "t \<in> set tasks" "lt_id t = tid" using assms(4) by auto
  let ?f = "\<lambda>t. t\<lparr>lt_writes := lt_writes t @ kept_by (lt_id t) (stored_of cfg s)\<rparr>"
  have "to_run (enter_superstep chs cfg tasks inp s) = filter (\<lambda>t. lt_writes t = []) (map ?f tasks)"
    by (simp add: to_run_def enter_tasks [OF assms(1,2)])
  moreover have "lt_id (?f t) = tid" "lt_writes (?f t) = kept_by tid (stored_of cfg s)" using t assms(3) by (simp_all add: list_all_iff)
  ultimately show ?thesis using t(1) by (auto simp: image_iff)
qed

section \<open>What an interrupted superstep comes to\<close>


definition demo_loop_config :: saver_config where
  "demo_loop_config = \<lparr>cf_thread = ''t'', cf_ns = Some [], cf_id = Some ''1'', cf_other = [], cf_metadata = []\<rparr>"

definition demo_loop_saver :: loop_saver where
  "demo_loop_saver =
     \<lparr>sv_storage = [(''t'', [([], [(''1'', \<lparr>se_checkpoint = \<lparr>ck_format = 2, ck_id = ''1'', ck_ts = [], ck_values = [], ck_versions = [],
          ck_seen = [], ck_updated = None\<rparr>, se_metadata = [], se_parent = None\<rparr>)])])],
      sv_writes = [], sv_blobs = []\<rparr>"

definition demo_loop_tasks :: "loop_task list" where
  "demo_loop_tasks =
     [\<lparr>lt_id = ''ta'', lt_name = ''a'', lt_triggers = [''x''], lt_writes = []\<rparr>,
      \<lparr>lt_id = ''tb'', lt_name = ''b'', lt_triggers = [''x''], lt_writes = []\<rparr>]"

lemma demo_loop_fresh: "fresh_superstep demo_channels demo_loop_config demo_loop_tasks demo_loop_saver"
  by (simp add: fresh_superstep_def demo_loop_tasks_def demo_channels_def is_untracked_def has_entry_def stored_of_def writes_at_def
      entries_at_def demo_loop_config_def demo_loop_saver_def config_ns_def dict_getd_def null_task_id_def)




end
