(* ===== verification/Run.thy ===== *)
theory Run
  imports Loop
begin

text \<open>
  A run of a graph: \<open>langgraph/pregel/_loop.py\<close> (\<open>_first\<close>, \<open>tick\<close>, \<open>after_tick\<close>, \<open>_put_checkpoint\<close>), the loop of
  \<open>Pregel.stream\<close> in \<open>pregel/main.py\<close>, and \<open>pregel/_io.py\<close>, over the tasks of the theory Loop. The graph is a
  top-level one with a checkpointer, not of durability \<open>exit\<close>, entered at the newest checkpoint. What a
  node does is an argument; the checkpoints that are saved are recorded in order.
\<close>

section \<open>Inputs and outputs\<close>

datatype channel_keys = OneChannel string | ChannelList "string list"

text \<open>\<open>map_input\<close>; None is no input.\<close>

definition map_input :: "channel_keys \<Rightarrow> cval option \<Rightarrow> (string \<times> cval) list result" where
  "map_input ks chunk =
     (case chunk of
        None \<Rightarrow> Inr []
      | Some v \<Rightarrow>
          (case ks of
             OneChannel k \<Rightarrow> Inr [(k, v)]
           | ChannelList sel \<Rightarrow>
               (case v of
                  Plain (PDict d) \<Rightarrow> Inr (map (\<lambda>(k, x). (k, Plain x)) (filter (\<lambda>(k, x). k \<in> set sel) d))
                | _ \<Rightarrow> Inl TypeError)))"

text \<open>A \<open>Command\<close>: whether it is for the parent graph, the nodes to go to, the resume value, the updates.\<close>

record command =
  cmd_parent :: bool
  cmd_goto :: "string list"
  cmd_resume :: "pyval option"
  cmd_update :: "(string \<times> cval) list"

definition map_command :: "command \<Rightarrow> loop_write list result" where
  "map_command c =
     (if cmd_parent c then Inl InvalidUpdateError
      else Inr (map (\<lambda>n. (''branch:to:'' @ n, ChanValue (Plain (PStr ''__start__'')))) (cmd_goto c)
                @ (case cmd_resume c of None \<Rightarrow> [] | Some v \<Rightarrow> [(resume_key, Signal v)])
                @ map (\<lambda>(k, v). (k, ChanValue v)) (cmd_update c)))"

text \<open>\<open>read_channel\<close>, \<open>read_channels\<close>: an empty channel reads as None alone, and is left out of a selection.
  A channel that does not exist is a KeyError.\<close>

datatype channel_output = OneReading "reading option" | Readings "(string, reading) dict"

definition read_channel :: "channels \<Rightarrow> string \<Rightarrow> reading option result" where
  "read_channel chs k = (case dict_get chs k of None \<Rightarrow> Inl KeyError | Some c \<Rightarrow> Inr (chan_get c))"

fun read_selection :: "channels \<Rightarrow> string list \<Rightarrow> (string, reading) dict \<Rightarrow> (string, reading) dict result" where
  "read_selection chs [] d = Inr d"
| "read_selection chs (k # ks) d =
     (case read_channel chs k of
        Inl e \<Rightarrow> Inl e
      | Inr r \<Rightarrow> read_selection chs ks (case r of None \<Rightarrow> d | Some x \<Rightarrow> dict_set k x d))"

definition read_channels :: "channels \<Rightarrow> channel_keys \<Rightarrow> channel_output result" where
  "read_channels chs ks =
     (case ks of
        OneChannel k \<Rightarrow> map_sum id OneReading (read_channel chs k)
      | ChannelList sel \<Rightarrow> map_sum id Readings (read_selection chs sel []))"

text \<open>\<open>map_output_values\<close>: what is emitted, if anything; None stands for pending writes \<open>True\<close>.\<close>

definition map_output_values :: "channel_keys \<Rightarrow> loop_write list option \<Rightarrow> channels \<Rightarrow> channel_output list result" where
  "map_output_values ks pending chs =
     (if (case pending of
            None \<Rightarrow> True
          | Some ws \<Rightarrow> list_ex (\<lambda>w. case ks of OneChannel k \<Rightarrow> fst w = k | ChannelList sel \<Rightarrow> fst w \<in> set sel) ws)
      then map_sum id (\<lambda>v. [v]) (read_channels chs ks) else Inr [])"

section \<open>The graph and the state of a run\<close>

record graph =
  g_procs :: processes
  g_before :: interrupt_nodes
  g_after :: interrupt_nodes
  g_hidden :: "string \<Rightarrow> bool"
  g_task_id :: "int \<Rightarrow> string \<Rightarrow> string"
  g_node :: "loop_task \<Rightarrow> channels \<Rightarrow> node_run"
  g_next_version :: "nat option \<Rightarrow> nat"
  g_max_supersteps :: int
  g_input :: channel_keys

text \<open>A saved checkpoint: its source and step, the checkpoint, the counters of the delta channels, and
  the versions that are new.\<close>

record saved_step =
  ss_source :: string
  ss_step :: int
  ss_checkpoint :: stored_checkpoint
  ss_counters :: "(string, int \<times> int) dict"
  ss_new :: versions

record run_state =
  rs_cp :: graph_checkpoint
  rs_chs :: channels
  rs_step :: int
  rs_stop :: int
  rs_updated :: "string set option"
  rs_pending :: "loop_pending list"
  rs_counters :: "(string, int \<times> int) dict"
  rs_saved :: "saved_step list"
  rs_previous :: versions

abbreviation g_index :: "graph \<Rightarrow> (string, string list) dict" where
  "g_index g \<equiv> trigger_to_nodes (g_procs g)"

section \<open>Saving a checkpoint\<close>

text \<open>\<open>get_new_channel_versions\<close>.\<close>

definition new_channel_versions :: "versions \<Rightarrow> versions \<Rightarrow> versions" where
  "new_channel_versions prev cur = (if prev = [] then cur else filter (\<lambda>(k, v). v > dict_getd prev k 0) cur)"

text \<open>The counters of each delta channel: updates and supersteps since its last snapshot.\<close>

fun is_delta :: "chan \<Rightarrow> bool" where
  "is_delta (DeltaChannel s) = True"
| "is_delta _ = False"

definition count_one :: "bool \<Rightarrow> int \<times> int \<Rightarrow> int \<times> int" where
  "count_one written un = (if written then fst un + 1 else fst un, snd un + 1)"

definition count_delta :: "channels \<Rightarrow> string set option \<Rightarrow> (string, int \<times> int) dict \<Rightarrow> (string, int \<times> int) dict" where
  "count_delta chs updated prev =
     map (\<lambda>(k, c). (k, count_one (updated \<noteq> None \<and> k \<in> the updated) (dict_getd prev k (0, 0)))) (filter (\<lambda>(k, c). is_delta c) chs)"

definition reset_counters :: "string set \<Rightarrow> (string, int \<times> int) dict \<Rightarrow> (string, int \<times> int) dict" where
  "reset_counters snaps d = filter (\<lambda>(k, v). v \<noteq> (0, 0)) (map (\<lambda>(k, v). (k, if k \<in> snaps then (0, 0) else v)) d)"

text \<open>\<open>_put_checkpoint\<close> with a metadata of its own.\<close>

definition put_step :: "graph \<Rightarrow> string \<Rightarrow> run_state \<Rightarrow> run_state result" where
  "put_step g source st =
     (let counted = count_delta (rs_chs st) (rs_updated st) (rs_counters st);
          snaps = delta_channels_to_snapshot (g_max_supersteps g) (rs_chs st) counted
      in case create_checkpoint
                \<lparr>sc_values = [], sc_versions = channel_versions (rs_cp st), sc_seen = versions_seen (rs_cp st), sc_updated = None\<rparr>
                (Some (rs_chs st)) (rs_updated st) (Some (g_next_version g)) snaps of
           Inl e \<Rightarrow> Inl e
         | Inr sc \<Rightarrow>
             (let counters = reset_counters snaps counted
              in Inr (st\<lparr>rs_cp := \<lparr>channel_versions = sc_versions sc, versions_seen = sc_seen sc\<rparr>,
                         rs_step := rs_step st + 1,
                         rs_counters := counters,
                         rs_previous := sc_versions sc,
                         rs_saved := rs_saved st @ [\<lparr>ss_source = source, ss_step = rs_step st, ss_checkpoint = sc, ss_counters = counters,
                            ss_new = new_channel_versions (rs_previous st) (sc_versions sc)\<rparr>]\<rparr>)))"

section \<open>Entering a run\<close>

datatype run_input = NoInput | Chunk cval | CommandInput command cval

text \<open>\<open>is_xxh3_128_hexdigest\<close>.\<close>

definition is_digest :: "string \<Rightarrow> bool" where
  "is_digest s \<longleftrightarrow> length s = 32 \<and> list_all (\<lambda>c. c \<in> set ''0123456789abcdef'') s"

definition is_resume_map :: "pyval \<Rightarrow> bool" where
  "is_resume_map v = (case v of PDict d \<Rightarrow> list_all (\<lambda>(k, x). is_digest k) d | _ \<Rightarrow> False)"

text \<open>\<open>_pending_interrupts\<close>; the interrupt of a task has an id made from the task.\<close>

definition pending_interrupts :: "(string \<Rightarrow> string) \<Rightarrow> loop_pending list \<Rightarrow> string set" where
  "pending_interrupts iid ps =
     (let interrupted = set (map fst (filter (\<lambda>p. fst (snd p) = interrupt_key) ps));
          resumed = set (map fst (filter (\<lambda>p. fst (snd p) = resume_key) ps))
      in iid ` interrupted - iid ` (resumed \<inter> interrupted))"

text \<open>The in-memory part of \<open>put_writes\<close> for the null task.\<close>

definition put_null_writes :: "loop_write list \<Rightarrow> run_state \<Rightarrow> run_state" where
  "put_null_writes ws st =
     (if ws = [] then st
      else st\<lparr>rs_pending := kept_pending null_task_id (rs_pending st) @ map (Pair null_task_id) (dedupe_special ws)\<rparr>)"

lemma put_null_writes_frame [simp]:
  "rs_cp (put_null_writes ws st) = rs_cp st" "rs_chs (put_null_writes ws st) = rs_chs st" "rs_step (put_null_writes ws st) = rs_step st"
  "rs_stop (put_null_writes ws st) = rs_stop st" "rs_updated (put_null_writes ws st) = rs_updated st"
  "rs_counters (put_null_writes ws st) = rs_counters st" "rs_saved (put_null_writes ws st) = rs_saved st"
  "rs_previous (put_null_writes ws st) = rs_previous st"
  by (simp_all add: put_null_writes_def)

definition take_command :: "(string \<Rightarrow> string) \<Rightarrow> command \<Rightarrow> run_state \<Rightarrow> run_state result" where
  "take_command iid c st =
     (let is_map = (case cmd_resume c of None \<Rightarrow> False | Some v \<Rightarrow> is_resume_map v) in
      if cmd_resume c \<noteq> None \<and> \<not> is_map \<and> card (pending_interrupts iid (rs_pending st)) > 1 then Inl RuntimeError
      else (case map_command c of
              Inl e \<Rightarrow> Inl e
            | Inr ws0 \<Rightarrow>
                (let ws = filter (\<lambda>(k, v). \<not> (k = resume_key \<and> is_map)) ws0
                 in if ws = [] \<and> \<not> is_map then Inl EmptyInputError else Inr (put_null_writes ws st))))"

definition input_task :: "(string \<times> cval) list \<Rightarrow> task_writes" where
  "input_task ws = \<lparr>path = [], task_name = ''__input__'', task_out = ws, triggers = []\<rparr>"

definition apply_null_writes :: "graph \<Rightarrow> run_state \<Rightarrow> run_state result" where
  "apply_null_writes g st =
     (let ws = map snd (filter (\<lambda>p. fst p = null_task_id) (rs_pending st)) in
      if ws = [] then Inr st
      else (case apply_writes (rs_cp st) (rs_chs st) [input_task (chan_writes ws)] (Some (g_next_version g)) (g_index g) of
              Inl e \<Rightarrow> Inl e
            | Inr (u, cp, chs) \<Rightarrow>
                Inr (st\<lparr>rs_cp := cp, rs_chs := chs, rs_updated := map_option (\<lambda>x. x \<union> u) (rs_updated st)\<rparr>)))"

text \<open>Proceeding past the previous checkpoint: every channel counts as seen by the breakpoints.\<close>

definition pass_breakpoints :: "channels \<Rightarrow> graph_checkpoint \<Rightarrow> graph_checkpoint" where
  "pass_breakpoints chs cp =
     cp\<lparr>versions_seen := dict_set interrupt_key
          (fold (\<lambda>k d. case dict_get (channel_versions cp) k of None \<Rightarrow> d | Some v \<Rightarrow> dict_set k v d) (map fst chs)
             (dict_getd (versions_seen cp) interrupt_key [])) (versions_seen cp)\<rparr>"

definition tasks_of :: "graph \<Rightarrow> run_state \<Rightarrow> (string, string list) dict \<Rightarrow> loop_task list" where
  "tasks_of g st t2n = prepare_next_tasks (g_task_id g (rs_step st)) (rs_cp st) (rs_chs st) (g_procs g) t2n (rs_updated st)"

text \<open>The input writes to delta channels are kept among the pending writes, under the null task.\<close>

definition delta_input :: "channels \<Rightarrow> (string \<times> cval) list \<Rightarrow> loop_write list" where
  "delta_input chs ws =
     map (\<lambda>(c, v). (c, ChanValue v)) (filter (\<lambda>(c, v). case dict_get chs c of Some (DeltaChannel s) \<Rightarrow> True | _ \<Rightarrow> False) ws)"

definition take_input :: "graph \<Rightarrow> (string \<times> cval) list \<Rightarrow> run_state \<Rightarrow> run_state result" where
  "take_input g ws st =
     (let discarded = map as_task_writes (tasks_of g st []) in
      case apply_writes (rs_cp st) (rs_chs st) (discarded @ [input_task ws]) (Some (g_next_version g)) (g_index g) of
        Inl e \<Rightarrow> Inl e
      | Inr (u, cp, chs) \<Rightarrow>
          put_step g ''input'' ((put_null_writes (delta_input (rs_chs st) ws) (st\<lparr>rs_cp := cp, rs_chs := chs\<rparr>))\<lparr>rs_updated := Some u\<rparr>))"

text \<open>\<open>_first\<close>; \<open>same_run\<close> tells whether the run continues the one of the checkpoint. A \<open>Command\<close> on a
  thread without history is an input like any other, after its writes.\<close>

definition is_resuming :: "bool \<Rightarrow> run_input \<Rightarrow> run_state \<Rightarrow> bool" where
  "is_resuming same_run inp st \<longleftrightarrow>
     channel_versions (rs_cp st) \<noteq> [] \<and> (case inp of NoInput \<Rightarrow> True | CommandInput c v \<Rightarrow> True | Chunk v \<Rightarrow> same_run)"

definition first :: "graph \<Rightarrow> (string \<Rightarrow> string) \<Rightarrow> bool \<Rightarrow> run_input \<Rightarrow> run_state \<Rightarrow> run_state result" where
  "first g iid same_run inp st0 =
     (case (case inp of CommandInput c v \<Rightarrow> take_command iid c st0 | _ \<Rightarrow> Inr st0) of
        Inl e \<Rightarrow> Inl e
      | Inr st1 \<Rightarrow>
          (case apply_null_writes g st1 of
             Inl e \<Rightarrow> Inl e
           | Inr st2 \<Rightarrow>
               if is_resuming same_run inp st0 then Inr (st2\<lparr>rs_cp := pass_breakpoints (rs_chs st2) (rs_cp st2)\<rparr>)
               else (case map_input (g_input g) (case inp of NoInput \<Rightarrow> None | Chunk v \<Rightarrow> Some v | CommandInput c v \<Rightarrow> Some v) of
                       Inl e \<Rightarrow> Inl e
                     | Inr [] \<Rightarrow> Inl EmptyInputError
                     | Inr ws \<Rightarrow> take_input g ws st2)))"

section \<open>Ticks\<close>

datatype ticked = TickOver | TickDone | TickBreak | TickTasks "loop_task list"

definition breaks :: "graph \<Rightarrow> interrupt_nodes \<Rightarrow> graph_checkpoint \<Rightarrow> loop_task list \<Rightarrow> bool" where
  "breaks g ns cp ts \<longleftrightarrow> should_interrupt cp ns (map (\<lambda>t. (lt_name t, g_hidden g (lt_name t))) ts) \<noteq> []"

definition tick :: "graph \<Rightarrow> run_state \<Rightarrow> ticked" where
  "tick g st =
     (if rs_step st > rs_stop st then TickOver
      else (let ts0 = tasks_of g st (g_index g) in
            if ts0 = [] then TickDone
            else (let ts = (if rs_pending st \<noteq> [] then reapply_writes (rs_pending st) ts0 else ts0) in
                  if breaks g (g_before g) (rs_cp st) ts then TickBreak else TickTasks ts)))"

text \<open>The runner starts the tasks that have no writes; each runs on the channels of the step.\<close>

definition run_task :: "graph \<Rightarrow> channels \<Rightarrow> loop_task \<Rightarrow> loop_task \<times> node_end" where
  "run_task g chs t =
     (if lt_writes t \<noteq> [] then (t, NodeDone)
      else (let r = g_node g t chs in (t\<lparr>lt_writes := writes_after r\<rparr>, snd r)))"

definition after_tick :: "graph \<Rightarrow> loop_task list \<Rightarrow> run_state \<Rightarrow> run_state result" where
  "after_tick g ts st =
     (case apply_writes (rs_cp st) (rs_chs st) (map as_task_writes ts) (Some (g_next_version g)) (g_index g) of
        Inl e \<Rightarrow> Inl e
      | Inr (u, cp, chs) \<Rightarrow> put_step g ''loop'' (st\<lparr>rs_cp := cp, rs_chs := chs, rs_updated := Some u, rs_pending := []\<rparr>))"

text \<open>How a run ends. A failure goes before the interrupts, which are gathered.\<close>

datatype run_end =
    RunDone
  | RunOutOfSteps
  | RunBefore
  | RunAfter
  | RunInterrupted "pyval list"
  | RunFailed pyval
  | RunError py_exc

fun failure_of :: "node_end list \<Rightarrow> pyval option" where
  "failure_of [] = None"
| "failure_of (NodeFailed e # es) = Some e"
| "failure_of (NodeDone # es) = failure_of es"
| "failure_of (NodeInterrupted vs # es) = failure_of es"

fun interrupts_of :: "node_end list \<Rightarrow> pyval list list" where
  "interrupts_of [] = []"
| "interrupts_of (NodeInterrupted vs # es) = vs # interrupts_of es"
| "interrupts_of (NodeDone # es) = interrupts_of es"
| "interrupts_of (NodeFailed e # es) = interrupts_of es"

text \<open>One round of the loop: the end of the run, or the state of the next round.\<close>

definition run_round :: "graph \<Rightarrow> run_state \<Rightarrow> (run_end \<times> run_state) + run_state" where
  "run_round g st =
     (case tick g st of
        TickOver \<Rightarrow> Inl (RunOutOfSteps, st)
      | TickDone \<Rightarrow> Inl (RunDone, st)
      | TickBreak \<Rightarrow> Inl (RunBefore, st)
      | TickTasks ts \<Rightarrow>
          (let rs = map (run_task g (rs_chs st)) ts; ends = map snd rs in
           case failure_of ends of
             Some e \<Rightarrow> Inl (RunFailed e, st)
           | None \<Rightarrow>
               if interrupts_of ends \<noteq> [] then Inl (RunInterrupted (concat (interrupts_of ends)), st)
               else (case after_tick g (map fst rs) st of
                       Inl e \<Rightarrow> Inl (RunError e, st)
                     | Inr st' \<Rightarrow> if breaks g (g_after g) (rs_cp st') (map fst rs) then Inl (RunAfter, st') else Inr st')))"

lemma put_step_step: "put_step g src st = Inr st' \<Longrightarrow> rs_step st' = rs_step st + 1 \<and> rs_stop st' = rs_stop st"
  by (auto simp: put_step_def Let_def split: sum.splits)

lemma after_tick_step: "after_tick g ts st = Inr st' \<Longrightarrow> rs_step st' = rs_step st + 1 \<and> rs_stop st' = rs_stop st"
  by (auto simp: after_tick_def dest!: put_step_step split: sum.splits)

lemma round_goes_on:
  assumes "run_round g st = Inr st'"
  obtains ts where "tick g st = TickTasks ts" "rs_step st \<le> rs_stop st" "list_all (\<lambda>t. snd (run_task g (rs_chs st) t) = NodeDone) ts"
    "after_tick g (map (fst \<circ> run_task g (rs_chs st)) ts) st = Inr st'"
    "\<not> breaks g (g_after g) (rs_cp st') (map (fst \<circ> run_task g (rs_chs st)) ts)"
proof -
  have all_done: "list_all (\<lambda>e. e = NodeDone) es" if "failure_of es = None" "interrupts_of es = []" for es
    using that
  proof (induction es)
    case (Cons e es)
    then show ?case by (cases e) auto
  qed simp
  from assms obtain ts where ts: "tick g st = TickTasks ts"
    and f: "failure_of (map snd (map (run_task g (rs_chs st)) ts)) = None" and i: "interrupts_of (map snd (map (run_task g (rs_chs st)) ts)) = []"
    and a: "after_tick g (map fst (map (run_task g (rs_chs st)) ts)) st = Inr st'"
    and b: "\<not> breaks g (g_after g) (rs_cp st') (map fst (map (run_task g (rs_chs st)) ts))"
    unfolding run_round_def Let_def by (auto split: ticked.splits option.splits if_splits sum.splits)
  have "rs_step st \<le> rs_stop st" using ts by (simp add: tick_def split: if_splits)
  with ts a b all_done [OF f i] show thesis by (intro that) (simp_all add: list_all_iff)
qed

lemma round_step: "run_round g st = Inr st' \<Longrightarrow> rs_step st' = rs_step st + 1 \<and> rs_stop st' = rs_stop st \<and> rs_step st \<le> rs_stop st"
  by (elim round_goes_on) (auto dest: after_tick_step)

text \<open>The loop of \<open>Pregel.stream\<close>: it ends, since every round that goes on takes one of the steps.\<close>

function superstep_loop :: "graph \<Rightarrow> run_state \<Rightarrow> run_end \<times> run_state" where
  "superstep_loop g st = (case run_round g st of Inl r \<Rightarrow> r | Inr st' \<Rightarrow> superstep_loop g st')"
  by pat_completeness auto
termination
  by (relation "measure (\<lambda>(g, st). nat (rs_stop st + 1 - rs_step st))") (auto dest!: round_step)

text \<open>\<open>__enter__\<close>: the steps come from the metadata of the checkpoint and the recursion limit. Then the run.\<close>

record run_entry =
  en_cp :: graph_checkpoint
  en_channels :: channels
  en_step :: int
  en_updated :: "string list option"
  en_pending :: "loop_pending list"
  en_counters :: "(string, int \<times> int) dict"

definition enter_run :: "int \<Rightarrow> run_entry \<Rightarrow> run_state" where
  "enter_run limit e =
     \<lparr>rs_cp = en_cp e, rs_chs = en_channels e, rs_step = en_step e + 1, rs_stop = en_step e + 1 + limit + 1,
      rs_updated = (case en_updated e of Some (k # ks) \<Rightarrow> Some (set (k # ks)) | _ \<Rightarrow> None),
      rs_pending = en_pending e, rs_counters = en_counters e, rs_saved = [], rs_previous = channel_versions (en_cp e)\<rparr>"

definition invoke :: "graph \<Rightarrow> (string \<Rightarrow> string) \<Rightarrow> bool \<Rightarrow> int \<Rightarrow> run_input \<Rightarrow> run_entry \<Rightarrow> run_end \<times> run_state" where
  "invoke g iid same_run limit inp e =
     (let st0 = enter_run limit e in
      case first g iid same_run inp st0 of Inl e \<Rightarrow> (RunError e, st0) | Inr st1 \<Rightarrow> superstep_loop g st1)"

section \<open>Steps and their checkpoints\<close>

text \<open>What saving one more checkpoint does to the record of the run.\<close>

definition saved_more :: "string \<Rightarrow> run_state \<Rightarrow> run_state \<Rightarrow> bool" where
  "saved_more src st st' \<longleftrightarrow>
     rs_step st' = rs_step st + 1 \<and> rs_stop st' = rs_stop st \<and>
     (\<exists>x. rs_saved st' = rs_saved st @ [x] \<and> ss_step x = rs_step st \<and> ss_source x = src)"

lemma put_step_saved: "put_step g src st = Inr st' \<Longrightarrow> saved_more src st st'"
  by (auto simp: put_step_def saved_more_def Let_def split: sum.splits)

lemma saved_more_cong:
  "saved_more src st st' \<Longrightarrow> rs_step st0 = rs_step st \<Longrightarrow> rs_stop st0 = rs_stop st \<Longrightarrow> rs_saved st0 = rs_saved st \<Longrightarrow> saved_more src st0 st'"
  by (simp add: saved_more_def)

lemma after_tick_saved: "after_tick g ts st = Inr st' \<Longrightarrow> saved_more ''loop'' st st'"
  by (auto simp: after_tick_def split: sum.splits intro: saved_more_cong [OF put_step_saved])

text \<open>A chain of \<open>n\<close> loop steps.\<close>

definition looped :: "nat \<Rightarrow> run_state \<Rightarrow> run_state \<Rightarrow> bool" where
  "looped n st st' \<longleftrightarrow>
     rs_step st' = rs_step st + int n \<and> rs_stop st' = rs_stop st \<and>
     (\<exists>new. rs_saved st' = rs_saved st @ new \<and> map ss_step new = map (\<lambda>i. rs_step st + int i) [0..<n] \<and> list_all (\<lambda>x. ss_source x = ''loop'') new)"

lemma looped_0: "looped 0 st st"
  by (simp add: looped_def)

lemma looped_Suc:
  assumes "saved_more ''loop'' st st1" and "looped n st1 st'"
  shows "looped (Suc n) st st'"
proof -
  obtain x where x: "rs_saved st1 = rs_saved st @ [x]" "ss_step x = rs_step st" "ss_source x = ''loop''" "rs_step st1 = rs_step st + 1"
    using assms(1) by (auto simp: saved_more_def)
  obtain new where new: "rs_saved st' = rs_saved st1 @ new" "map ss_step new = map (\<lambda>i. rs_step st1 + int i) [0..<n]"
    "list_all (\<lambda>x. ss_source x = ''loop'') new" using assms(2) by (auto simp: looped_def)
  have "map ss_step (x # new) = map (\<lambda>i. rs_step st + int i) [0..<Suc n]"
    using x new(2) by (simp add: upt_conv_Cons map_Suc_upt [symmetric] comp_def del: upt_Suc)
  with assms x new show ?thesis by (auto simp: looped_def saved_more_def)
qed

lemma round_ends:
  assumes "run_round g st = Inl (e, st')"
  shows "(st' = st \<and> e \<noteq> RunAfter \<and> (e = RunOutOfSteps \<longleftrightarrow> rs_step st > rs_stop st)) \<or> (saved_more ''loop'' st st' \<and> e = RunAfter \<and> rs_step st \<le> rs_stop st)"
proof (cases "tick g st")
  case (TickTasks ts)
  then have "rs_step st \<le> rs_stop st" by (simp add: tick_def split: if_splits)
  with assms TickTasks show ?thesis
    unfolding run_round_def Let_def by (auto split: option.splits if_splits sum.splits dest: after_tick_saved)
qed (use assms in \<open>auto simp: run_round_def tick_def Let_def split: if_splits\<close>)

lemma superstep_loop_steps:
  "superstep_loop g st = (e, st') \<Longrightarrow>
     \<exists>n. looped n st st' \<and> int n \<le> max 0 (rs_stop st + 1 - rs_step st) \<and> (e = RunOutOfSteps \<longrightarrow> rs_step st' > rs_stop st)"
proof (induction g st rule: superstep_loop.induct)
  case (1 g st)
  show ?case
  proof (cases "run_round g st")
    case (Inl r)
    then have r: "run_round g st = Inl (e, st')" using 1(2) by simp
    from round_ends [OF r] show ?thesis
      using looped_0 looped_Suc [OF _ looped_0, of st st'] by (elim disjE) (fastforce, fastforce)
  next
    case (Inr st1)
    with 1(2) have "superstep_loop g st1 = (e, st')" by simp
    from 1(1) [OF Inr this] obtain n where n: "looped n st1 st'" "int n \<le> max 0 (rs_stop st1 + 1 - rs_step st1)"
      "e = RunOutOfSteps \<longrightarrow> rs_step st' > rs_stop st1" by blast
    have "saved_more ''loop'' st st1" using Inr by (elim round_goes_on) (rule after_tick_saved)
    with n round_step [OF Inr] show ?thesis by (intro exI [of _ "Suc n"]) (auto dest: looped_Suc)
  qed
qed

section \<open>What every step keeps\<close>

text \<open>A property of versions and channels that every operation on one channel keeps is kept by
  \<open>apply_writes\<close>.\<close>

inductive chan_step :: "chan \<Rightarrow> bool \<times> chan \<Rightarrow> bool" where
  "chan_update ws c = Inr r \<Longrightarrow> chan_step c r"
| "chan_step c (chan_consume c)"
| "chan_step c (chan_finish c)"

definition settles :: "(step_state \<Rightarrow> bool) \<Rightarrow> bool" where
  "settles Q \<longleftrightarrow> (\<forall>st k c r report nv. Q st \<longrightarrow> dict_get (ss_channels st) k = Some c \<longrightarrow> chan_step c r \<longrightarrow> Q (settle report nv k r st))"

lemma settlesD: "settles Q \<Longrightarrow> Q st \<Longrightarrow> dict_get (ss_channels st) k = Some c \<Longrightarrow> chan_step c r \<Longrightarrow> Q (settle report nv k r st)"
  unfolding settles_def by blast

lemma step_state_eta: "\<lparr>ss_versions = ss_versions st, ss_channels = ss_channels st, ss_updated = ss_updated st\<rparr> = (st :: step_state)"
  by (cases st) simp

lemma settles_consume: "settles Q \<Longrightarrow> Q st \<Longrightarrow> Q (consume_all nv ks st)"
proof (induction ks arbitrary: st)
  case (Cons k ks)
  then show ?case by (cases "dict_get (ss_channels st) k") (simp_all add: settlesD chan_step.intros)
qed simp

lemma settles_finish: "settles Q \<Longrightarrow> Q st \<Longrightarrow> Q (finish_all nv ks st)"
proof (induction ks arbitrary: st)
  case (Cons k ks)
  then show ?case by (cases "dict_get (ss_channels st) k") (simp_all add: settlesD chan_step.intros)
qed simp

lemma settles_update: "settles Q \<Longrightarrow> Q st \<Longrightarrow> update_all nv ws st = Inr st' \<Longrightarrow> Q st'"
proof (induction nv ws st rule: update_all.induct)
  case (2 nv k vs g st)
  show ?case
  proof (cases "dict_get (ss_channels st) k")
    case None
    with 2 show ?thesis by simp
  next
    case (Some c)
    with 2(5) obtain r where r: "chan_update vs c = Inr r" "update_all nv g (settle True nv k r st) = Inr st'" by (auto split: sum.splits)
    have "Q (settle True nv k r st)" using settlesD [OF 2(3,4) Some chan_step.intros(1) [OF r(1)]] .
    with 2(2) [OF Some r(1) 2(3)] r(2) show ?thesis by simp
  qed
qed simp

lemma settles_bump: "settles Q \<Longrightarrow> Q st \<Longrightarrow> bump_all nv ks st = Inr st' \<Longrightarrow> Q st'"
proof (induction nv ks st rule: bump_all.induct)
  case (2 nv k ks st)
  show ?case
  proof (cases "dict_get (ss_channels st) k")
    case None
    with 2 show ?thesis by simp
  next
    case (Some c)
    show ?thesis
    proof (cases "chan_available c \<and> k \<notin> ss_updated st")
      case True
      with 2(6) Some obtain r where r: "chan_update [] c = Inr r" "bump_all nv ks (settle True nv k r st) = Inr st'" by (auto split: sum.splits)
      have "Q (settle True nv k r st)" using settlesD [OF 2(4,5) Some chan_step.intros(1) [OF r(1)]] .
      with 2(2) [OF Some True r(1) 2(4)] r(2) show ?thesis by simp
    next
      case False
      with 2 Some show ?thesis by auto
    qed
  qed
qed simp

lemma settles_apply_writes:
  assumes "settles Q" and "Q \<lparr>ss_versions = channel_versions cp, ss_channels = chs, ss_updated = {}\<rparr>"
    and "apply_writes cp chs tasks nv t2n = Inr (u, cp', chs')"
  shows "Q \<lparr>ss_versions = channel_versions cp', ss_channels = chs', ss_updated = u\<rparr>"
proof -
  define st1 where "st1 = consume_all (map_option (\<lambda>f. f (highest_version (channel_versions cp))) nv) (read_channels_of (in_order tasks) chs)
      \<lparr>ss_versions = channel_versions cp, ss_channels = chs, ss_updated = {}\<rparr>"
  have c: "Q st1" unfolding st1_def by (rule settles_consume [OF assms(1,2)])
  have q: "\<And>nv g st. update_all nv g st1 = Inr st \<Longrightarrow> Q st" "\<And>nv ks st st'. bump_all nv ks st = Inr st' \<Longrightarrow> Q st \<Longrightarrow> Q st'"
    "\<And>nv ks st. Q st \<Longrightarrow> Q (finish_all nv ks st)"
    using settles_update [OF assms(1) c] settles_bump [OF assms(1)] settles_finish [OF assms(1)] by simp_all
  show ?thesis
    using assms(3) unfolding apply_writes_def Let_def st1_def [symmetric]
    by (auto simp: step_state_eta split: sum.splits if_splits dest!: q(1)) (blast intro: q(3) dest: q(2))+
qed

text \<open>The channels stay of their types, and delta channels available; versions are versions of channels.\<close>

fun alive :: "chan \<Rightarrow> bool" where
  "alive (DeltaChannel s) = (delta_value s \<noteq> None)"
| "alive _ = True"

definition like :: "channels \<Rightarrow> versions \<Rightarrow> channels \<Rightarrow> bool" where
  "like chs0 vs chs \<longleftrightarrow>
     wf_dict vs \<and> fst ` set vs \<subseteq> fst ` set chs \<and> map fst chs = map fst chs0 \<and>
     (\<forall>k c. dict_get chs k = Some c \<longrightarrow> alive c \<and> (\<exists>c0. dict_get chs0 k = Some c0 \<and> same_chan c0 c))"

lemma dict_set_keys: "dict_get d k = Some c \<Longrightarrow> map fst (dict_set k c' d) = map fst d"
  by (induction d) auto

lemma op_same_update: "chan_update ws c = Inr (u, c') \<Longrightarrow> same_chan c c' \<and> (alive c \<longrightarrow> alive c')"
  by (cases c)
     (auto simp: rewrap_Inr same_chan_def channel_defs Let_def delta_update_def dest: barrier_add_result split: if_splits sum.splits option.splits list.splits)

lemma op_same_consume: "chan_consume c = (u, c') \<Longrightarrow> same_chan c c' \<and> (alive c \<longrightarrow> alive c')"
  by (cases c) (auto simp: channel_defs same_chan_def split: if_splits)

lemma op_same_finish: "chan_finish c = (u, c') \<Longrightarrow> same_chan c c' \<and> (alive c \<longrightarrow> alive c')"
  by (cases c) (auto simp: channel_defs same_chan_def split: if_splits)

lemma chan_step_same: "chan_step c (u, c') \<Longrightarrow> same_chan c c' \<and> (alive c \<longrightarrow> alive c')"
  by (erule chan_step.cases) (metis op_same_update op_same_consume op_same_finish)+

lemma settles_like: "settles (\<lambda>st. like chs0 (ss_versions st) (ss_channels st))"
  unfolding settles_def
proof (intro allI impI)
  fix st :: step_state and k c r report nv
  assume l: "like chs0 (ss_versions st) (ss_channels st)" and k: "dict_get (ss_channels st) k = Some c" and "chan_step c r"
  obtain u c' where r: "r = (u, c')" by (cases r)
  obtain c0 where c0: "alive c" "dict_get chs0 k = Some c0" "same_chan c0 c" using l k unfolding like_def by metis
  with \<open>chan_step c r\<close> have c': "alive c'" "same_chan c0 c'" using chan_step_same [of c u c'] chan_same_trans [of c0 c c'] by (simp_all add: r)
  have keys: "map fst (dict_set k c' (ss_channels st)) = map fst (ss_channels st)" using k by (rule dict_set_keys)
  then have "fst ` set (dict_set k c' (ss_channels st)) = fst ` set (ss_channels st)" by (metis list.set_map)
  moreover have "k \<in> fst ` set (ss_channels st)" using k by (metis domI dom_map_of_conv_image_fst)
  ultimately have "like chs0 (ss_versions st) (dict_set k c' (ss_channels st)) \<and> like chs0 (dict_set k v (ss_versions st)) (dict_set k c' (ss_channels st))" for v
    using l c' c0(2) keys by (auto simp: like_def dom_update)
  then show "like chs0 (ss_versions (settle report nv k r st)) (ss_channels (settle report nv k r st))"
    by (cases nv) (simp_all add: settle_def r Let_def)
qed

lemma like_apply_writes:
  "apply_writes cp chs tasks nv t2n = Inr (u, cp', chs') \<Longrightarrow> like chs0 (channel_versions cp) chs \<Longrightarrow> like chs0 (channel_versions cp') chs'"
  using settles_apply_writes [OF settles_like] by force

text \<open>Saving changes no channel, and only versions of delta channels that are snapshotted.\<close>

lemma store_channels_versions:
  "store_channels nv upd snaps cs (values0, vs) = Inr (values', vs') \<Longrightarrow>
     map fst vs' = map fst vs \<and> (\<forall>k. k \<notin> snaps \<longrightarrow> dict_get vs' k = dict_get vs k)"
proof (induction cs arbitrary: values0 vs)
  case (Cons kc cs)
  obtain k c where kc: "kc = (k, c)" by (cases kc)
  show ?case
  proof (cases "dict_get vs k")
    case None
    with Cons show ?thesis by (simp add: kc)
  next
    case (Some v)
    have keys: "map fst (dict_set k w vs) = map fst vs" for w using dict_set_keys [OF Some] .
    show ?thesis
    proof (cases "k \<in> snaps")
      case True
      with Cons.prems Some obtain b where "store_channels nv upd snaps cs (dict_set k b values0,
          (case nv of Some f \<Rightarrow> if upd = None \<or> k \<notin> the upd then dict_set k (f (Some v)) vs else vs | None \<Rightarrow> vs)) = Inr (values', vs')"
        by (auto simp: kc split: sum.splits)
      from Cons.IH [OF this] keys True show ?thesis by (auto split: option.splits if_splits)
    next
      case False
      with Cons.prems Some Cons.IH show ?thesis by (auto simp: kc split: option.splits)
    qed
  qed
qed simp

lemma snapshots_of_deltas: "k \<in> delta_channels_to_snapshot m chs counters \<Longrightarrow> \<exists>s. (k, DeltaChannel s) \<in> set chs"
  by (force simp: delta_channels_to_snapshot_def delta_due_def split: chan.splits)

lemma put_step_keeps:
  assumes "put_step g src st = Inr st'"
  shows "rs_chs st' = rs_chs st \<and> rs_updated st' = rs_updated st \<and> rs_pending st' = rs_pending st \<and>
     versions_seen (rs_cp st') = versions_seen (rs_cp st) \<and> map fst (channel_versions (rs_cp st')) = map fst (channel_versions (rs_cp st)) \<and>
     (\<forall>k. (\<forall>s. (k, DeltaChannel s) \<notin> set (rs_chs st)) \<longrightarrow> dict_get (channel_versions (rs_cp st')) k = dict_get (channel_versions (rs_cp st)) k)"
proof -
  let ?snaps = "delta_channels_to_snapshot (g_max_supersteps g) (rs_chs st) (count_delta (rs_chs st) (rs_updated st) (rs_counters st))"
  from assms obtain values' vs' where run: "store_channels (Some (g_next_version g)) (rs_updated st) ?snaps (rs_chs st) ([], channel_versions (rs_cp st)) = Inr (values', vs')"
    and "rs_chs st' = rs_chs st" "rs_updated st' = rs_updated st" "rs_pending st' = rs_pending st"
    "versions_seen (rs_cp st') = versions_seen (rs_cp st)" and v: "channel_versions (rs_cp st') = vs'"
    by (auto simp: put_step_def create_checkpoint_def Let_def split: sum.splits)
  with store_channels_versions [OF run] show ?thesis using snapshots_of_deltas by fastforce
qed

lemma like_put_step:
  assumes "put_step g src st = Inr st'" and "like chs0 (channel_versions (rs_cp st)) (rs_chs st)"
  shows "like chs0 (channel_versions (rs_cp st')) (rs_chs st')"
proof -
  have v: "map fst (channel_versions (rs_cp st')) = map fst (channel_versions (rs_cp st))" and c: "rs_chs st' = rs_chs st"
    using put_step_keeps [OF assms(1)] by simp_all
  from v have "wf_dict (channel_versions (rs_cp st')) = wf_dict (channel_versions (rs_cp st))" by (simp add: wf_dict_def)
  moreover from v have "fst ` set (channel_versions (rs_cp st')) = fst ` set (channel_versions (rs_cp st))" by (metis list.set_map)
  ultimately show ?thesis using assms(2) by (simp add: like_def c)
qed

section \<open>Breakpoints\<close>

lemma fold_seen_versions:
  "dict_get (fold (\<lambda>k d. case dict_get vs k of None \<Rightarrow> d | Some v \<Rightarrow> dict_set k v d) ks d) k =
     (if k \<in> set ks \<and> dict_get vs k \<noteq> None then dict_get vs k else dict_get d k)"
  by (induction ks arbitrary: d) (auto split: option.splits)

lemma passed_no_interrupt:
  assumes "wf_dict (channel_versions cp)" and "fst ` set (channel_versions cp) \<subseteq> fst ` set chs"
  shows "should_interrupt (pass_breakpoints chs cp) ns ts = []"
proof -
  have "v \<le> dict_getd (dict_getd (versions_seen (pass_breakpoints chs cp)) interrupt_key []) k 0"
    if kv: "(k, v) \<in> set (channel_versions cp)" for k v
  proof -
    have get: "dict_get (channel_versions cp) k = Some v" using assms(1) kv by (simp add: wf_dict_def)
    have "k \<in> set (map fst chs)" using assms(2) kv by force
    with get show ?thesis by (simp add: pass_breakpoints_def dict_getd_def fold_seen_versions)
  qed
  then have "\<not> list_ex (\<lambda>(k, v). v > dict_getd (dict_getd (versions_seen (pass_breakpoints chs cp)) interrupt_key []) k 0) (channel_versions cp)"
    by (force simp: list_ex_iff)
  moreover have "channel_versions (pass_breakpoints chs cp) = channel_versions cp" by (simp add: pass_breakpoints_def)
  ultimately show ?thesis unfolding should_interrupt_def Let_def by simp
qed

lemma tick_passes:
  assumes "rs_cp st = pass_breakpoints (rs_chs st) cp" and "wf_dict (channel_versions cp)" and "fst ` set (channel_versions cp) \<subseteq> fst ` set (rs_chs st)"
  shows "tick g st \<noteq> TickBreak"
  using passed_no_interrupt [OF assms(2,3)] by (simp add: tick_def breaks_def assms(1) Let_def)

lemma break_after_progress:
  assumes "superstep_loop g st = (RunBefore, st')" and "tick g st \<noteq> TickBreak"
  shows "length (rs_saved st') > length (rs_saved st)"
proof (cases "run_round g st")
  case (Inl r)
  with assms have "run_round g st = Inl (RunBefore, st')" by simp
  with assms(2) show ?thesis by (auto simp: run_round_def Let_def split: ticked.splits option.splits if_splits sum.splits)
next
  case (Inr st1)
  then have "superstep_loop g st1 = (RunBefore, st')" using assms(1) by simp
  from superstep_loop_steps [OF this] have "length (rs_saved st1) \<le> length (rs_saved st')" by (auto simp: looped_def)
  moreover have "saved_more ''loop'' st st1" using Inr by (elim round_goes_on) (rule after_tick_saved)
  ultimately show ?thesis by (auto simp: saved_more_def)
qed

text \<open>An entry as a saver gives it: versions of channels, channels of the specification.\<close>

definition good_entry :: "run_entry \<Rightarrow> bool" where
  "good_entry e \<longleftrightarrow> like (en_channels e) (channel_versions (en_cp e)) (en_channels e)"

lemma enter_like: "good_entry e \<Longrightarrow> like (en_channels e) (channel_versions (rs_cp (enter_run limit e))) (rs_chs (enter_run limit e))"
  by (simp add: good_entry_def enter_run_def)

lemma take_command_keeps:
  "take_command iid c st = Inr st' \<Longrightarrow>
     rs_step st' = rs_step st \<and> rs_stop st' = rs_stop st \<and> rs_saved st' = rs_saved st \<and> rs_cp st' = rs_cp st \<and> rs_chs st' = rs_chs st"
  by (auto simp: take_command_def Let_def put_null_writes_def split: sum.splits if_splits)

lemma apply_null_keeps:
  "apply_null_writes g st = Inr st' \<Longrightarrow> like chs0 (channel_versions (rs_cp st)) (rs_chs st) \<Longrightarrow>
     rs_step st' = rs_step st \<and> rs_stop st' = rs_stop st \<and> rs_saved st' = rs_saved st \<and> like chs0 (channel_versions (rs_cp st')) (rs_chs st')"
  by (auto simp: apply_null_writes_def Let_def split: if_splits sum.splits dest: like_apply_writes)

text \<open>What entering comes to: the breakpoints passed, or an input checkpoint saved.\<close>

lemma first_cases:
  assumes "first g iid same_run inp st0 = Inr st1" and "like chs0 (channel_versions (rs_cp st0)) (rs_chs st0)"
  shows "like chs0 (channel_versions (rs_cp st1)) (rs_chs st1) \<and>
     (if is_resuming same_run inp st0
      then rs_step st1 = rs_step st0 \<and> rs_stop st1 = rs_stop st0 \<and> rs_saved st1 = rs_saved st0 \<and> tick g st1 \<noteq> TickBreak
      else saved_more ''input'' st0 st1)"
proof -
  from assms(1) obtain sta stb where a: "(case inp of CommandInput c v \<Rightarrow> take_command iid c st0 | _ \<Rightarrow> Inr st0) = Inr sta"
    and b: "apply_null_writes g sta = Inr stb"
    and f: "(if is_resuming same_run inp st0 then Inr (stb\<lparr>rs_cp := pass_breakpoints (rs_chs stb) (rs_cp stb)\<rparr>)
               else (case map_input (g_input g) (case inp of NoInput \<Rightarrow> None | Chunk v \<Rightarrow> Some v | CommandInput c v \<Rightarrow> Some v) of
                       Inl e \<Rightarrow> Inl e | Inr [] \<Rightarrow> Inl EmptyInputError | Inr ws \<Rightarrow> take_input g ws stb)) = Inr st1"
    unfolding first_def by (auto split: sum.splits)
  have "rs_step sta = rs_step st0 \<and> rs_stop sta = rs_stop st0 \<and> rs_saved sta = rs_saved st0 \<and> like chs0 (channel_versions (rs_cp sta)) (rs_chs sta)"
    using a assms(2) by (auto split: run_input.splits dest: take_command_keeps)
  with apply_null_keeps [OF b, of chs0]
  have stb: "rs_step stb = rs_step st0" "rs_stop stb = rs_stop st0" "rs_saved stb = rs_saved st0" "like chs0 (channel_versions (rs_cp stb)) (rs_chs stb)"
    by simp_all
  show ?thesis
  proof (cases "is_resuming same_run inp st0")
    case True
    then have st1: "st1 = stb\<lparr>rs_cp := pass_breakpoints (rs_chs stb) (rs_cp stb)\<rparr>" using f by simp
    have "tick g st1 \<noteq> TickBreak"
      using stb(4) by (intro tick_passes [where cp = "rs_cp stb"]) (simp_all add: st1 like_def)
    with stb True show ?thesis by (simp add: st1 pass_breakpoints_def)
  next
    case False
    then obtain ws where "take_input g ws stb = Inr st1" using f by (auto split: sum.splits list.splits)
    then obtain u cp chs tasks where ap: "apply_writes (rs_cp stb) (rs_chs stb) tasks (Some (g_next_version g)) (g_index g) = Inr (u, cp, chs)"
      and put: "put_step g ''input'' ((put_null_writes (delta_input (rs_chs stb) ws) (stb\<lparr>rs_cp := cp, rs_chs := chs\<rparr>))\<lparr>rs_updated := Some u\<rparr>) = Inr st1"
      by (auto simp: take_input_def Let_def split: sum.splits)
    have "saved_more ''input'' stb st1" using put_step_saved [OF put] by (rule saved_more_cong) simp_all
    then have "saved_more ''input'' st0 st1" using stb by (auto simp: saved_more_def)
    moreover have "like chs0 (channel_versions (rs_cp st1)) (rs_chs st1)"
      using like_put_step [OF put] like_apply_writes [OF ap stb(4)] by simp
    ultimately show ?thesis using False by simp
  qed
qed

section \<open>Runs end within the limit, and move on from breakpoints\<close>

text \<open>C9. Every run ends, with consecutive steps, each saved as one checkpoint: an input checkpoint, if
  the run does not resume, and one for each superstep, of which there are at most the recursion
  limit and one (the first is that of the start node), or two when the run resumes. A run that ends
  for lack of steps has done that many.\<close>

theorem run_ends_within_limit:
  assumes "invoke g iid same_run limit inp e = (r, st')" and "good_entry e" and "0 \<le> limit"
  shows "map ss_step (rs_saved st') = map (\<lambda>i. en_step e + 1 + int i) [0..<length (rs_saved st')] \<and>
     length (rs_saved st') \<le> nat limit + 2 \<and>
     (rs_saved st' \<noteq> [] \<longrightarrow>
        map ss_source (rs_saved st') =
          (if is_resuming same_run inp (enter_run limit e) then ''loop'' else ''input'') # replicate (length (rs_saved st') - 1) ''loop'') \<and>
     (r = RunOutOfSteps \<longrightarrow> length (rs_saved st') = nat limit + 2)"
proof (cases "first g iid same_run inp (enter_run limit e)")
  case (Inl x)
  with assms(1) show ?thesis by (auto simp: invoke_def enter_run_def Let_def)
next
  case (Inr st1)
  then have run: "superstep_loop g st1 = (r, st')" using assms(1) by (simp add: invoke_def Let_def del: superstep_loop.simps)
  obtain n where n: "looped n st1 st'" "int n \<le> max 0 (rs_stop st1 + 1 - rs_step st1)" "r = RunOutOfSteps \<longrightarrow> rs_step st' > rs_stop st1"
    using superstep_loop_steps [OF run] by blast
  obtain new where new: "rs_saved st' = rs_saved st1 @ new" "map ss_step new = map (\<lambda>i. rs_step st1 + int i) [0..<n]"
    "list_all (\<lambda>x. ss_source x = ''loop'') new" using n(1) by (auto simp: looped_def)
  have len: "length new = n" using arg_cong [OF new(2), of length] by simp
  have loops: "map ss_source new = replicate n ''loop''" using new(3) by (simp add: len [symmetric] list_all_iff map_replicate_const [symmetric])
  have st0: "rs_step (enter_run limit e) = en_step e + 1" "rs_stop (enter_run limit e) = en_step e + 1 + limit + 1" "rs_saved (enter_run limit e) = []"
    by (simp_all add: enter_run_def)
  note c = first_cases [OF Inr enter_like [OF assms(2)]]
  show ?thesis
  proof (cases "is_resuming same_run inp (enter_run limit e)")
    case True
    with c st0 have "rs_step st1 = en_step e + 1" "rs_stop st1 = en_step e + limit + 2" "rs_saved st1 = []" by simp_all
    with n new loops len assms(3) True show ?thesis by (cases n) (auto simp: looped_def)
  next
    case False
    with c obtain x where "rs_step st1 = en_step e + 2" "rs_stop st1 = en_step e + limit + 2" "rs_saved st1 = [x]"
      "ss_step x = en_step e + 1" "ss_source x = ''input''"
      using st0 by (auto simp: saved_more_def)
    with n new loops len assms(3) False show ?thesis
      by (auto simp: looped_def upt_conv_Cons map_Suc_upt [symmetric] comp_def simp del: upt_Suc)
  qed
qed

text \<open>C33. A run that resumes does not stop again at the breakpoint it stopped at: it stops before a node
  only after a superstep of its own.\<close>

theorem resumed_run_passes_breakpoint:
  assumes "invoke g iid same_run limit inp e = (RunBefore, st')" and "good_entry e" and "is_resuming same_run inp (enter_run limit e)"
  shows "rs_saved st' \<noteq> []"
proof (cases "first g iid same_run inp (enter_run limit e)")
  case (Inl x)
  with assms(1) show ?thesis by (simp add: invoke_def Let_def)
next
  case (Inr st1)
  then have run: "superstep_loop g st1 = (RunBefore, st')" using assms(1) by (simp add: invoke_def Let_def del: superstep_loop.simps)
  have "tick g st1 \<noteq> TickBreak" using first_cases [OF Inr enter_like [OF assms(2)]] assms(3) by simp
  from break_after_progress [OF run this] show ?thesis by auto
qed

section \<open>A run ends when nothing is left to do\<close>

definition ready_nodes :: "graph \<Rightarrow> run_state \<Rightarrow> string set" where
  "ready_nodes g st = {p. pull_ready (rs_cp st) (rs_chs st) (g_procs g) p}"

text \<open>The candidates of the next step are all the nodes that are ready.\<close>

definition complete :: "graph \<Rightarrow> run_state \<Rightarrow> bool" where
  "complete g st \<longleftrightarrow>
     set (next_pull_nodes (rs_cp st) (rs_chs st) (g_procs g) (g_index g) (rs_updated st)) = ready_nodes g st"

definition plain_triggers :: "graph \<Rightarrow> channels \<Rightarrow> bool" where
  "plain_triggers g chs \<longleftrightarrow> (\<forall>p trigs k s. dict_get (g_procs g) p = Some trigs \<and> k \<in> set trigs \<longrightarrow> dict_get chs k \<noteq> Some (DeltaChannel s))"

lemma same_delta: "same_chan c (DeltaChannel s) \<Longrightarrow> \<exists>s0. c = DeltaChannel s0"
  by (cases c) (auto simp: same_chan_def)

lemma same_proper: "same_chan c c' \<Longrightarrow> proper c \<Longrightarrow> proper c'"
  by (cases c') (auto simp: same_slots)

lemma like_delta: "like chs0 vs chs \<Longrightarrow> dict_get chs k = Some (DeltaChannel s) \<Longrightarrow> \<exists>s0. dict_get chs0 k = Some (DeltaChannel s0)"
  unfolding like_def by (metis same_delta)

lemma like_proper: "like chs0 vs chs \<Longrightarrow> all_proper chs0 \<Longrightarrow> all_proper chs"
  unfolding like_def all_proper_def by (metis same_proper)

lemma like_triggers: "like chs0 vs chs \<Longrightarrow> plain_triggers g chs0 \<Longrightarrow> plain_triggers g chs"
  unfolding plain_triggers_def by (metis like_delta)

text \<open>Saving leaves readiness and the candidates as they are.\<close>

lemma put_step_complete:
  assumes "put_step g src st = Inr st'" and "plain_triggers g (rs_chs st)" and "wf_dict (rs_chs st)"
    and "like chs0 (channel_versions (rs_cp st)) (rs_chs st)" and "complete g st"
  shows "complete g st'"
proof -
  note k = put_step_keeps [OF assms(1)]
  have same: "rs_chs st' = rs_chs st" "rs_updated st' = rs_updated st" "versions_seen (rs_cp st') = versions_seen (rs_cp st)" using k by simp_all
  have keys: "map fst (channel_versions (rs_cp st')) = map fst (channel_versions (rs_cp st))" using k by simp
  have empty: "channel_versions (rs_cp st') = [] \<longleftrightarrow> channel_versions (rs_cp st) = []" using keys by (metis map_is_Nil_conv)
  have ver: "dict_get (channel_versions (rs_cp st')) x = dict_get (channel_versions (rs_cp st)) x"
    if "dict_get (g_procs g) p = Some trigs" "x \<in> set trigs" for p trigs x
  proof -
    have "dict_get (rs_chs st) x \<noteq> Some (DeltaChannel s)" for s using assms(2) that unfolding plain_triggers_def by blast
    then have "(x, DeltaChannel s) \<notin> set (rs_chs st)" for s using assms(3) by (metis map_of_is_SomeI wf_dict_def)
    with k show ?thesis by blast
  qed
  have "pull_ready (rs_cp st') (rs_chs st') (g_procs g) = pull_ready (rs_cp st) (rs_chs st) (g_procs g)"
  proof
    show "pull_ready (rs_cp st') (rs_chs st') (g_procs g) p \<longleftrightarrow> pull_ready (rs_cp st) (rs_chs st) (g_procs g) p" for p
      unfolding pull_ready_iff same empty using ver by (auto simp: dict_getd_def)
  qed
  moreover from this have "next_pull_nodes (rs_cp st') (rs_chs st') (g_procs g) (g_index g) (rs_updated st') =
      next_pull_nodes (rs_cp st) (rs_chs st) (g_procs g) (g_index g) (rs_updated st)"
    unfolding next_pull_nodes_def candidate_nodes_def same empty by simp
  ultimately show ?thesis using assms(5) by (simp add: complete_def ready_nodes_def)
qed

lemma tasks_of_names: "set (map lt_name (tasks_of g st t2n)) = set (next_pull_nodes (rs_cp st) (rs_chs st) (g_procs g) t2n (rs_updated st))"
  by (auto simp: tasks_of_def prepare_next_tasks_def pull_task_def comp_def)

lemma tasks_of_triggers: "t \<in> set (tasks_of g st t2n) \<Longrightarrow> lt_triggers t = sort (dict_getd (g_procs g) (lt_name t) [])"
  by (auto simp: tasks_of_def prepare_next_tasks_def pull_task_def)

text \<open>What the loop keeps from round to round.\<close>

definition loop_ok :: "graph \<Rightarrow> channels \<Rightarrow> run_state \<Rightarrow> bool" where
  "loop_ok g chs0 st \<longleftrightarrow> like chs0 (channel_versions (rs_cp st)) (rs_chs st) \<and> channel_versions (rs_cp st) \<noteq> [] \<and> complete g st"

definition graph_ok :: "graph \<Rightarrow> channels \<Rightarrow> bool" where
  "graph_ok g chs0 \<longleftrightarrow> wf_dict chs0 \<and> all_proper chs0 \<and> plain_triggers g chs0"

lemma like_wf: "like chs0 vs chs \<Longrightarrow> wf_dict chs0 \<Longrightarrow> wf_dict chs"
  by (simp add: like_def wf_dict_def)

lemma settles_versions: "settles (\<lambda>st. ss_versions st \<noteq> [])"
  unfolding settles_def
proof (intro allI impI)
  fix st :: step_state and k c r report nv
  assume "ss_versions st \<noteq> []"
  then show "ss_versions (settle report nv k r st) \<noteq> []" by (cases nv; cases r) (simp_all add: settle_def Let_def update_nonempty)
qed

text \<open>Applying the writes of tasks that cover the ready nodes, and saving.\<close>

lemma apply_put_ok:
  assumes "like chs0 (channel_versions (rs_cp st)) (rs_chs st)" and "channel_versions (rs_cp st) \<noteq> []" and "graph_ok g chs0"
    and "apply_writes (rs_cp st) (rs_chs st) tasks (Some (g_next_version g)) (g_index g) = Inr (u, cp, chs)"
    and "\<And>p trigs. p \<in> ready_nodes g st \<Longrightarrow> dict_get (g_procs g) p = Some trigs \<Longrightarrow> \<exists>t \<in> set tasks. task_name t = p \<and> set (triggers t) = set trigs"
    and "put_step g src st2 = Inr st'" and "rs_cp st2 = cp" and "rs_chs st2 = chs" and "rs_updated st2 = Some u"
  shows "loop_ok g chs0 st'"
proof -
  have g: "wf_dict chs0" "all_proper chs0" "plain_triggers g chs0" using assms(3) by (simp_all add: graph_ok_def)
  have l: "like chs0 (channel_versions cp) chs" by (rule like_apply_writes [OF assms(4,1)])
  have "set (next_pull_nodes cp chs (g_procs g) (g_index g) (Some u)) = {p. pull_ready cp chs (g_procs g) p}"
    by (rule candidates_complete [OF assms(4) like_proper [OF assms(1) g(2)] assms(2)]) (use assms(5) in \<open>simp add: ready_nodes_def\<close>)
  then have c: "complete g st2" by (simp add: complete_def ready_nodes_def assms(7-9))
  have "complete g st'"
    by (rule put_step_complete [OF assms(6)]) (use c l like_triggers [OF l g(3)] like_wf [OF l g(1)] in \<open>simp_all add: assms(7,8)\<close>)
  moreover have "like chs0 (channel_versions (rs_cp st')) (rs_chs st')" using like_put_step [OF assms(6)] l by (simp add: assms(7,8))
  moreover have "channel_versions (rs_cp st') \<noteq> []"
    using settles_apply_writes [OF settles_versions _ assms(4)] assms(2,7) put_step_keeps [OF assms(6)] by (metis map_is_Nil_conv step_state.select_convs(1))
  ultimately show ?thesis by (simp add: loop_ok_def)
qed

lemma round_ok:
  assumes "run_round g st = Inr st'" and "loop_ok g chs0 st" and "graph_ok g chs0"
  shows "loop_ok g chs0 st'"
proof -
  obtain ts where ts: "tick g st = TickTasks ts" and a: "after_tick g (map (fst \<circ> run_task g (rs_chs st)) ts) st = Inr st'"
    using assms(1) by (elim round_goes_on)
  let ?tasks = "map as_task_writes (map (fst \<circ> run_task g (rs_chs st)) ts)"
  from a obtain u cp chs where ap: "apply_writes (rs_cp st) (rs_chs st) ?tasks (Some (g_next_version g)) (g_index g) = Inr (u, cp, chs)"
    and put: "put_step g ''loop'' (st\<lparr>rs_cp := cp, rs_chs := chs, rs_updated := Some u, rs_pending := []\<rparr>) = Inr st'"
    by (auto simp: after_tick_def split: sum.splits)
  have ok: "like chs0 (channel_versions (rs_cp st)) (rs_chs st)" "channel_versions (rs_cp st) \<noteq> []" "complete g st"
    using assms(2) by (simp_all add: loop_ok_def)
  have ts': "ts = tasks_of g st (g_index g) \<or> ts = reapply_writes (rs_pending st) (tasks_of g st (g_index g))"
    using ts by (auto simp: tick_def Let_def split: if_splits)
  have ran: "\<exists>t \<in> set ?tasks. task_name t = p \<and> set (triggers t) = set trigs"
    if p: "p \<in> ready_nodes g st" "dict_get (g_procs g) p = Some trigs" for p trigs
  proof -
    have "p \<in> set (map lt_name (tasks_of g st (g_index g)))" using p(1) ok(3) tasks_of_names by (simp add: complete_def)
    then obtain t0 where t0: "t0 \<in> set (tasks_of g st (g_index g))" "lt_name t0 = p" by auto
    from tasks_of_triggers [OF t0(1)] p(2) t0(2) have tr: "set (lt_triggers t0) = set trigs" by (simp add: dict_getd_def)
    from ts' t0(1) obtain t where t: "t \<in> set ts" "lt_name t = lt_name t0" "lt_triggers t = lt_triggers t0"
      by (force simp: reapply_writes_def)
    let ?t = "as_task_writes (fst (run_task g (rs_chs st) t))"
    have "?t \<in> set ?tasks" using t(1) by simp
    moreover have "task_name ?t = p" "set (triggers ?t) = set trigs" using t t0(2) tr by (simp_all add: as_task_writes_def run_task_def Let_def)
    ultimately show ?thesis by blast
  qed
  show ?thesis by (rule apply_put_ok [OF ok(1,2) assms(3) ap ran put]) simp_all
qed

lemma superstep_loop_quiescent:
  "superstep_loop g st = (RunDone, st') \<Longrightarrow> loop_ok g chs0 st \<Longrightarrow> graph_ok g chs0 \<Longrightarrow> ready_nodes g st' = {}"
proof (induction g st rule: superstep_loop.induct)
  case (1 g st)
  show ?case
  proof (cases "run_round g st")
    case (Inl r)
    then have "run_round g st = Inl (RunDone, st')" using 1(2) by simp
    then have "tick g st = TickDone \<and> st' = st"
      unfolding run_round_def Let_def by (auto split: ticked.splits option.splits if_splits sum.splits)
    then have "tasks_of g st (g_index g) = []" "st' = st" by (auto simp: tick_def Let_def split: if_splits)
    with 1(3) tasks_of_names [of g st "g_index g"] show ?thesis by (simp add: loop_ok_def complete_def)
  next
    case (Inr st1)
    with 1(2) have "superstep_loop g st1 = (RunDone, st')" by simp
    from 1(1) [OF Inr this round_ok [OF Inr 1(3,4)] 1(4)] show ?thesis .
  qed
qed

lemma take_input_ok:
  assumes "take_input g ws st = Inr st'" and "like chs0 (channel_versions (rs_cp st)) (rs_chs st)" and "channel_versions (rs_cp st) \<noteq> []"
    and "graph_ok g chs0"
  shows "loop_ok g chs0 st'"
proof -
  let ?tasks = "map as_task_writes (tasks_of g st []) @ [input_task ws]"
  from assms(1) obtain u cp chs where ap: "apply_writes (rs_cp st) (rs_chs st) ?tasks (Some (g_next_version g)) (g_index g) = Inr (u, cp, chs)"
    and put: "put_step g ''input'' ((put_null_writes (delta_input (rs_chs st) ws) (st\<lparr>rs_cp := cp, rs_chs := chs\<rparr>))\<lparr>rs_updated := Some u\<rparr>) = Inr st'"
    by (auto simp: take_input_def Let_def split: sum.splits)
  have ran: "\<exists>t \<in> set ?tasks. task_name t = p \<and> set (triggers t) = set trigs"
    if p: "p \<in> ready_nodes g st" "dict_get (g_procs g) p = Some trigs" for p trigs
  proof -
    have "p \<in> set (map fst (g_procs g))" using p(2) by (force dest: map_of_SomeD)
    then have "p \<in> set (map lt_name (tasks_of g st []))"
      unfolding tasks_of_names using p(1) assms(3) by (simp add: next_pull_nodes_def candidate_nodes_def ready_nodes_def)
    then obtain t where t: "t \<in> set (tasks_of g st [])" "lt_name t = p" by auto
    from tasks_of_triggers [OF t(1)] p(2) t(2) have "set (lt_triggers t) = set trigs" by (simp add: dict_getd_def)
    then have "task_name (as_task_writes t) = p" "set (triggers (as_task_writes t)) = set trigs" using t(2) by (simp_all add: as_task_writes_def)
    moreover have "as_task_writes t \<in> set ?tasks" using t(1) by simp
    ultimately show ?thesis by blast
  qed
  show ?thesis by (rule apply_put_ok [OF assms(2-4) ap ran put]) simp_all
qed

text \<open>C11. A run with a new input, on a thread with a history and without pending writes (it is not paused in a superstep), that ends
  as done leaves no node that is ready: looking only at the nodes of the channels updated last ends no run too
  early, over any number of supersteps, as long as no delta channel is a trigger.\<close>

theorem done_run_is_quiescent:
  assumes "invoke g iid same_run limit (Chunk v) e = (RunDone, st')" and "good_entry e" and "graph_ok g (en_channels e)"
    and "channel_versions (en_cp e) \<noteq> []" and "\<not> same_run" and "en_pending e = []"
  shows "ready_nodes g st' = {}"
proof -
  let ?st0 = "enter_run limit e"
  obtain st1 where f: "first g iid same_run (Chunk v) ?st0 = Inr st1" and run: "superstep_loop g st1 = (RunDone, st')"
    using assms(1) by (auto simp: invoke_def Let_def simp del: superstep_loop.simps split: sum.splits)
  have "apply_null_writes g ?st0 = Inr ?st0" using assms(6) by (simp add: apply_null_writes_def enter_run_def)
  moreover have "\<not> is_resuming same_run (Chunk v) ?st0" using assms(5) by (simp add: is_resuming_def)
  ultimately obtain ws where "take_input g ws ?st0 = Inr st1" using f by (auto simp: first_def split: sum.splits list.splits)
  from take_input_ok [OF this enter_like [OF assms(2)] _ assms(3)] assms(4)
  have "loop_ok g (en_channels e) st1" by (simp add: enter_run_def)
  from superstep_loop_quiescent [OF run this assms(3)] show ?thesis .
qed

text \<open>A graph of two nodes: \<open>n\<close> is triggered by \<open>a\<close> and writes \<open>b\<close>, which triggers \<open>m\<close>.\<close>

definition demo_graph :: graph where
  "demo_graph = \<lparr>g_procs = demo_processes, g_before = SomeNodes [''m''], g_after = SomeNodes [], g_hidden = (\<lambda>n. False),
     g_task_id = (\<lambda>i n. n), g_node = (\<lambda>t chs. (if lt_name t = ''n'' then [(''b'', ChanValue (Plain (PInt 1)))] else [], NodeDone)),
     g_next_version = increment, g_max_supersteps = 5000, g_input = OneChannel ''a''\<rparr>"

definition demo_entry0 :: run_entry where
  "demo_entry0 = \<lparr>en_cp = demo_cp, en_channels = demo_channels, en_step = 0, en_updated = Some [''a''], en_pending = [], en_counters = []\<rparr>"

lemma demo_good: "good_entry demo_entry0"
  by (simp add: good_entry_def demo_entry0_def like_def demo_cp_def demo_channels_def same_chan_def wf_dict_def)

lemma demo_ok: "graph_ok demo_graph (en_channels demo_entry0)"
  by (auto simp: graph_ok_def demo_entry0_def demo_graph_def demo_channels_def demo_processes_def plain_triggers_def all_proper_def wf_dict_def
      split: if_splits)

theorem run_ends_within_limit_witness:
  "\<exists>st'. invoke (demo_graph\<lparr>g_before := SomeNodes []\<rparr>) id False 1 (Chunk (Plain PNone)) demo_entry0 = (RunOutOfSteps, st') \<and> length (rs_saved st') = 3"
proof -
  obtain r st' where run: "invoke (demo_graph\<lparr>g_before := SomeNodes []\<rparr>) id False 1 (Chunk (Plain PNone)) demo_entry0 = (r, st')" by (rule prod.exhaust)
  have "fst (invoke (demo_graph\<lparr>g_before := SomeNodes []\<rparr>) id False 1 (Chunk (Plain PNone)) demo_entry0) = RunOutOfSteps" by code_simp
  with run have r: "r = RunOutOfSteps" by simp
  from run_ends_within_limit [OF run demo_good] r have "length (rs_saved st') = nat 1 + 2" by simp
  with run r show ?thesis by simp
qed

theorem resumed_run_passes_breakpoint_witness:
  "\<exists>st'. invoke demo_graph id False 25 NoInput demo_entry0 = (RunBefore, st') \<and> rs_saved st' \<noteq> []"
proof -
  obtain r st' where run: "invoke demo_graph id False 25 NoInput demo_entry0 = (r, st')" by (rule prod.exhaust)
  have "fst (invoke demo_graph id False 25 NoInput demo_entry0) = RunBefore" by code_simp
  with run have r: "r = RunBefore" by simp
  have "is_resuming False NoInput (enter_run 25 demo_entry0)" by (simp add: is_resuming_def enter_run_def demo_entry0_def demo_cp_def)
  from resumed_run_passes_breakpoint [OF run [unfolded r] demo_good this] run r show ?thesis by simp
qed

theorem done_run_is_quiescent_witness:
  "\<exists>st'. invoke (demo_graph\<lparr>g_before := SomeNodes []\<rparr>) id False 25 (Chunk (Plain PNone)) demo_entry0 = (RunDone, st') \<and>
     ready_nodes (demo_graph\<lparr>g_before := SomeNodes []\<rparr>) st' = {}"
proof -
  let ?g = "demo_graph\<lparr>g_before := SomeNodes []\<rparr>"
  obtain r st' where run: "invoke ?g id False 25 (Chunk (Plain PNone)) demo_entry0 = (r, st')" by (rule prod.exhaust)
  have "fst (invoke ?g id False 25 (Chunk (Plain PNone)) demo_entry0) = RunDone" by code_simp
  with run have r: "r = RunDone" by simp
  have g: "graph_ok ?g (en_channels demo_entry0)" using demo_ok by (simp add: graph_ok_def plain_triggers_def)
  have "channel_versions (en_cp demo_entry0) \<noteq> []" "en_pending demo_entry0 = []" by (simp_all add: demo_entry0_def demo_cp_def)
  with done_run_is_quiescent [OF run [unfolded r] demo_good g] run r show ?thesis by simp
qed

section \<open>Delta channels are snapshotted in time\<close>

definition snapshot_in :: "string \<Rightarrow> saved_step \<Rightarrow> bool" where
  "snapshot_in k x \<longleftrightarrow> (\<exists>v. dict_get (sc_values (ss_checkpoint x)) k = Some (StoredBlob (Snapshot v)))"

definition updated_in :: "string \<Rightarrow> saved_step \<Rightarrow> bool" where
  "updated_in k x \<longleftrightarrow> (case sc_updated (ss_checkpoint x) of None \<Rightarrow> False | Some ks \<Rightarrow> k \<in> set ks)"

text \<open>The checkpoints of a run that a reader of the channel has to walk back over.\<close>

definition gap :: "string \<Rightarrow> saved_step list \<Rightarrow> bool" where
  "gap k ys \<longleftrightarrow> list_all (\<lambda>x. \<not> snapshot_in k x) ys"

definition updates_in :: "string \<Rightarrow> saved_step list \<Rightarrow> int" where
  "updates_in k ys = int (length (filter (updated_in k) ys))"

lemma sorted_list_of_set_mem: "k \<in> set (sorted_list_of_set A) \<Longrightarrow> k \<in> A"
  by (cases "finite A") simp_all

lemma count_delta_get:
  assumes "wf_dict chs" and "dict_get chs k = Some (DeltaChannel s)"
  shows "dict_getd (count_delta chs updated prev) k (0, 0) = count_one (updated \<noteq> None \<and> k \<in> the updated) (dict_getd prev k (0, 0))"
  using assms by (induction chs) (auto simp: count_delta_def dict_getd_def wf_dict_def)

lemma count_delta_keys: "wf_dict chs \<Longrightarrow> wf_dict (count_delta chs updated prev)"
  by (induction chs) (auto simp: count_delta_def wf_dict_def image_iff)

lemma reset_counters_get:
  assumes "wf_dict d"
  shows "dict_getd (reset_counters snaps d) k (0, 0) = (if k \<in> snaps then (0, 0) else dict_getd d k (0, 0))"
  using assms
proof (induction d)
  case (Cons kv d)
  have "dict_get (reset_counters snaps d) k' = None" if "k' \<notin> fst ` set d" for k'
    using that by (force simp: reset_counters_def map_of_eq_None_iff)
  with Cons show ?case by (cases kv) (auto simp: reset_counters_def dict_getd_def wf_dict_def)
qed (simp add: reset_counters_def dict_getd_def)

text \<open>Saving one more checkpoint, seen from a delta channel: a snapshot when it is due.\<close>

lemma put_step_delta:
  assumes "put_step g src st = Inr st'" and "wf_dict (rs_chs st)" and "dict_get (rs_chs st) k = Some (DeltaChannel s)"
    and "delta_value s \<noteq> None" and "dict_get (channel_versions (rs_cp st)) k \<noteq> None"
  defines "un \<equiv> count_one (rs_updated st \<noteq> None \<and> k \<in> the (rs_updated st)) (dict_getd (rs_counters st) k (0, 0))"
  shows "\<exists>x. rs_saved st' = rs_saved st @ [x] \<and> (updated_in k x \<longrightarrow> rs_updated st \<noteq> None \<and> k \<in> the (rs_updated st)) \<and>
     (if fst un \<ge> snapshot_frequency s \<or> snd un \<ge> g_max_supersteps g
      then snapshot_in k x \<and> dict_getd (rs_counters st') k (0, 0) = (0, 0) else dict_getd (rs_counters st') k (0, 0) = un)"
proof -
  let ?counted = "count_delta (rs_chs st) (rs_updated st) (rs_counters st)"
  let ?snaps = "delta_channels_to_snapshot (g_max_supersteps g) (rs_chs st) ?counted"
  have un: "dict_getd ?counted k (0, 0) = un" unfolding un_def by (rule count_delta_get [OF assms(2,3)])
  have due: "k \<in> ?snaps \<longleftrightarrow> fst un \<ge> snapshot_frequency s \<or> snd un \<ge> g_max_supersteps g"
  proof -
    have "k \<in> ?snaps \<longleftrightarrow> delta_due (g_max_supersteps g) (DeltaChannel s) un"
    proof
      assume "k \<in> ?snaps"
      then obtain c where c: "(k, c) \<in> set (rs_chs st)" "delta_due (g_max_supersteps g) c un" by (auto simp: delta_channels_to_snapshot_def un)
      moreover from c(1) have "c = DeltaChannel s" using assms(2,3) by (simp add: wf_dict_def)
      ultimately show "delta_due (g_max_supersteps g) (DeltaChannel s) un" by simp
    next
      assume "delta_due (g_max_supersteps g) (DeltaChannel s) un"
      with map_of_SomeD [OF assms(3)] show "k \<in> ?snaps" by (force simp: delta_channels_to_snapshot_def un)
    qed
    with assms(4) show ?thesis by (simp add: delta_due_def)
  qed
  obtain values' vs' where run: "store_channels (Some (g_next_version g)) (rs_updated st) ?snaps (rs_chs st) ([], channel_versions (rs_cp st)) = Inr (values', vs')"
    and counters: "rs_counters st' = reset_counters ?snaps ?counted"
    and saved: "\<exists>x. rs_saved st' = rs_saved st @ [x] \<and> sc_values (ss_checkpoint x) = values' \<and>
       sc_updated (ss_checkpoint x) = map_option sorted_list_of_set (rs_updated st)"
    using assms(1) by (auto simp: put_step_def create_checkpoint_def Let_def split: sum.splits)
  from saved obtain x where x: "rs_saved st' = rs_saved st @ [x]" "sc_values (ss_checkpoint x) = values'"
    "sc_updated (ss_checkpoint x) = map_option sorted_list_of_set (rs_updated st)" by blast
  have "dict_get values' k = stored_form ?snaps k (DeltaChannel s)"
    using store_channels_stores [OF run assms(2,3,5)] by simp
  then have snap: "snapshot_in k x" if "k \<in> ?snaps" using that assms(4) x(2) by (auto simp: snapshot_in_def stored_form_def)
  have cnt: "dict_getd (rs_counters st') k (0, 0) = (if k \<in> ?snaps then (0, 0) else un)"
    using reset_counters_get [OF count_delta_keys [OF assms(2)]] un by (simp add: counters)
  have "updated_in k x \<longrightarrow> rs_updated st \<noteq> None \<and> k \<in> the (rs_updated st)"
    using x(3) sorted_list_of_set_mem by (cases "rs_updated st") (auto simp: updated_in_def)
  with x(1) snap cnt due show ?thesis by auto
qed

text \<open>The counters bound what was saved since the last snapshot, and every stretch without a snapshot is
  short.\<close>

definition counted_ok :: "string \<Rightarrow> int \<Rightarrow> int \<Rightarrow> (string, int \<times> int) dict \<Rightarrow> saved_step list \<Rightarrow> bool" where
  "counted_ok k freq m counters saved \<longleftrightarrow>
     (\<forall>xs ys. saved = xs @ ys \<and> gap k ys \<longrightarrow>
        updates_in k ys \<le> fst (dict_getd counters k (0, 0)) \<and> int (length ys) \<le> snd (dict_getd counters k (0, 0))) \<and>
     fst (dict_getd counters k (0, 0)) < freq \<and> snd (dict_getd counters k (0, 0)) < m \<and>
     (\<forall>xs ys zs. saved = xs @ ys @ zs \<and> gap k ys \<longrightarrow> updates_in k ys < freq \<and> int (length ys) < m)"

lemma counted_put:
  assumes "put_step g src st = Inr st'" and "wf_dict (rs_chs st)" and "dict_get (rs_chs st) k = Some (DeltaChannel s)"
    and "delta_value s \<noteq> None" and "dict_get (channel_versions (rs_cp st)) k \<noteq> None" and "0 < snapshot_frequency s" and "0 < g_max_supersteps g"
    and "counted_ok k (snapshot_frequency s) (g_max_supersteps g) (rs_counters st) (rs_saved st)"
  shows "counted_ok k (snapshot_frequency s) (g_max_supersteps g) (rs_counters st') (rs_saved st')"
proof -
  define w where "w \<longleftrightarrow> rs_updated st \<noteq> None \<and> k \<in> the (rs_updated st)"
  define c where "c = dict_getd (rs_counters st) k (0, 0)"
  define c' where "c' = dict_getd (rs_counters st') k (0, 0)"
  obtain x where x: "rs_saved st' = rs_saved st @ [x]" "updated_in k x \<longrightarrow> w"
    "if fst (count_one w c) \<ge> snapshot_frequency s \<or> snd (count_one w c) \<ge> g_max_supersteps g
     then snapshot_in k x \<and> c' = (0, 0) else c' = count_one w c"
    using put_step_delta [OF assms(1-5)] unfolding w_def c_def c'_def by blast
  have tail: "updates_in k ys \<le> fst c' \<and> int (length ys) \<le> snd c'" if ys: "rs_saved st' = xs @ ys" "gap k ys" for xs ys
  proof (cases ys rule: rev_cases)
    case Nil
    have "0 \<le> fst c \<and> 0 \<le> snd c"
      using assms(8) [unfolded counted_ok_def, THEN conjunct1, rule_format, of "rs_saved st" "[]"] by (simp add: gap_def updates_in_def c_def)
    with x(3) Nil show ?thesis by (auto simp: updates_in_def count_one_def split: if_splits)
  next
    case (snoc ys' y)
    with ys x(1) have "y = x" "rs_saved st = xs @ ys'" "gap k ys'" "\<not> snapshot_in k x" by (simp_all add: gap_def)
    with assms(8) have "updates_in k ys' \<le> fst c \<and> int (length ys') \<le> snd c" unfolding counted_ok_def c_def by blast
    with x(2,3) snoc \<open>y = x\<close> \<open>\<not> snapshot_in k x\<close> show ?thesis by (auto simp: updates_in_def count_one_def split: if_splits)
  qed
  have small: "fst c' < snapshot_frequency s \<and> snd c' < g_max_supersteps g"
    using x(3) assms(6,7) by (auto split: if_splits)
  have "updates_in k ys < snapshot_frequency s \<and> int (length ys) < g_max_supersteps g" if ys: "rs_saved st' = xs @ ys @ zs" "gap k ys" for xs ys zs
  proof (cases zs rule: rev_cases)
    case Nil
    with ys tail [of xs ys] small show ?thesis by auto
  next
    case (snoc zs' z)
    with ys x(1) have "rs_saved st = xs @ ys @ zs'" by simp
    with assms(8) ys(2) show ?thesis unfolding counted_ok_def by blast
  qed
  with tail small show ?thesis unfolding counted_ok_def c'_def by blast
qed

text \<open>What the loop keeps for a delta channel of frequency \<open>freq\<close> that has a version.\<close>

definition delta_ok :: "graph \<Rightarrow> channels \<Rightarrow> string \<Rightarrow> int \<Rightarrow> run_state \<Rightarrow> bool" where
  "delta_ok g chs0 k freq st \<longleftrightarrow>
     like chs0 (channel_versions (rs_cp st)) (rs_chs st) \<and> dict_get (channel_versions (rs_cp st)) k \<noteq> None \<and> counted_ok k freq (g_max_supersteps g) (rs_counters st) (rs_saved st)"

lemma same_delta_freq: "same_chan (DeltaChannel s) c \<Longrightarrow> \<exists>s'. c = DeltaChannel s' \<and> snapshot_frequency s' = snapshot_frequency s"
  by (cases c) (auto simp: same_chan_def dest: arg_cong [of _ _ snapshot_frequency])

lemma settles_version: "settles (\<lambda>st. dict_get (ss_versions st) k \<noteq> None)"
  unfolding settles_def
proof (intro allI impI)
  fix st :: step_state and k' c r report nv
  assume "dict_get (ss_versions st) k \<noteq> None"
  then show "dict_get (ss_versions (settle report nv k' r st)) k \<noteq> None" by (cases nv; cases r) (simp_all add: settle_def Let_def)
qed

lemma version_apply:
  "apply_writes cp chs tasks nv t2n = Inr (u, cp', chs') \<Longrightarrow> dict_get (channel_versions cp) k = Some v \<Longrightarrow> \<exists>v'. dict_get (channel_versions cp') k = Some v'"
  using settles_apply_writes [OF settles_version [of k]] by force

lemma apply_put_delta:
  assumes "delta_ok g chs0 k (snapshot_frequency s0) st" and "dict_get chs0 k = Some (DeltaChannel s0)" and "wf_dict chs0"
    and "0 < snapshot_frequency s0" and "0 < g_max_supersteps g"
    and "apply_writes (rs_cp st) (rs_chs st) tasks nv t2n = Inr (u, cp, chs)"
    and "put_step g src st2 = Inr st'" and "rs_cp st2 = cp" and "rs_chs st2 = chs" and "rs_counters st2 = rs_counters st" and "rs_saved st2 = rs_saved st"
  shows "delta_ok g chs0 k (snapshot_frequency s0) st'"
proof -
  have d: "like chs0 (channel_versions (rs_cp st)) (rs_chs st)" "dict_get (channel_versions (rs_cp st)) k \<noteq> None"
    "counted_ok k (snapshot_frequency s0) (g_max_supersteps g) (rs_counters st) (rs_saved st)" using assms(1) by (simp_all add: delta_ok_def)
  have l: "like chs0 (channel_versions cp) chs" by (rule like_apply_writes [OF assms(6) d(1)])
  have "k \<in> set (map fst chs)" using l assms(2) unfolding like_def by (metis domI dom_map_of_conv_image_fst list.set_map)
  then obtain c where c: "dict_get chs k = Some c" by (metis domD dom_map_of_conv_image_fst list.set_map)
  with l assms(2) have "alive c" "same_chan (DeltaChannel s0) c" unfolding like_def by fastforce+
  then obtain s where s: "c = DeltaChannel s" "snapshot_frequency s = snapshot_frequency s0" "delta_value s \<noteq> None" using same_delta_freq by fastforce
  have v: "dict_get (channel_versions cp) k \<noteq> None" using settles_apply_writes [OF settles_version _ assms(6), of k] d(2) by simp
  have ok: "counted_ok k (snapshot_frequency s) (g_max_supersteps g) (rs_counters st2) (rs_saved st2)" using d(3) by (simp add: s(2) assms(10,11))
  have "counted_ok k (snapshot_frequency s) (g_max_supersteps g) (rs_counters st') (rs_saved st')"
    by (rule counted_put [OF assms(7)]) (use l like_wf [OF l assms(3)] c s v assms(4,5) ok in \<open>simp_all add: assms(8,9)\<close>)
  moreover have "like chs0 (channel_versions (rs_cp st')) (rs_chs st')" using like_put_step [OF assms(7)] l by (simp add: assms(8,9))
  moreover have "dict_get (channel_versions (rs_cp st')) k \<noteq> None"
    using put_step_keeps [OF assms(7)] v by (metis assms(8) map_of_eq_None_iff list.set_map)
  ultimately show ?thesis by (simp add: delta_ok_def s(2))
qed

lemma delta_ok_cong:
  "delta_ok g chs0 k freq st \<Longrightarrow> rs_cp st' = rs_cp st \<Longrightarrow> rs_chs st' = rs_chs st \<Longrightarrow> rs_counters st' = rs_counters st \<Longrightarrow> rs_saved st' = rs_saved st \<Longrightarrow>
     delta_ok g chs0 k freq st'"
  by (simp add: delta_ok_def)

lemma round_delta:
  assumes "delta_ok g chs0 k (snapshot_frequency s0) st" and "dict_get chs0 k = Some (DeltaChannel s0)" and "wf_dict chs0"
    and "0 < snapshot_frequency s0" and "0 < g_max_supersteps g" and "after_tick g ts st = Inr st'"
  shows "delta_ok g chs0 k (snapshot_frequency s0) st'"
proof -
  obtain u cp chs where ap: "apply_writes (rs_cp st) (rs_chs st) (map as_task_writes ts) (Some (g_next_version g)) (g_index g) = Inr (u, cp, chs)"
    and put: "put_step g ''loop'' (st\<lparr>rs_cp := cp, rs_chs := chs, rs_updated := Some u, rs_pending := []\<rparr>) = Inr st'"
    using assms(6) by (auto simp: after_tick_def split: sum.splits)
  show ?thesis by (rule apply_put_delta [OF assms(1-5) ap put]) simp_all
qed

lemma superstep_loop_delta:
  "superstep_loop g st = (r, st') \<Longrightarrow> delta_ok g chs0 k (snapshot_frequency s0) st \<Longrightarrow> dict_get chs0 k = Some (DeltaChannel s0) \<Longrightarrow> wf_dict chs0 \<Longrightarrow>
     0 < snapshot_frequency s0 \<Longrightarrow> 0 < g_max_supersteps g \<Longrightarrow> delta_ok g chs0 k (snapshot_frequency s0) st'"
proof (induction g st rule: superstep_loop.induct)
  case (1 g st)
  note step = round_delta [OF 1(3-7)]
  show ?case
  proof (cases "run_round g st")
    case (Inl x)
    then have "run_round g st = Inl (r, st')" using 1(2) by simp
    then have "st' = st \<or> (\<exists>ts. after_tick g ts st = Inr st')"
      unfolding run_round_def Let_def by (auto split: ticked.splits option.splits if_splits sum.splits)
    with step 1(3) show ?thesis by blast
  next
    case (Inr st1)
    with 1(2) have run: "superstep_loop g st1 = (r, st')" by simp
    have "delta_ok g chs0 k (snapshot_frequency s0) st1" using Inr by (elim round_goes_on) (rule step)
    from 1(1) [OF Inr run this 1(4-7)] show ?thesis .
  qed
qed

lemma first_delta:
  assumes "first g iid same_run inp st0 = Inr st1" and "delta_ok g chs0 k (snapshot_frequency s0) st0" and "dict_get chs0 k = Some (DeltaChannel s0)"
    and "wf_dict chs0" and "0 < snapshot_frequency s0" and "0 < g_max_supersteps g"
  shows "delta_ok g chs0 k (snapshot_frequency s0) st1"
proof -
  from assms(1) obtain sta stb where a: "(case inp of CommandInput c v \<Rightarrow> take_command iid c st0 | _ \<Rightarrow> Inr st0) = Inr sta"
    and b: "apply_null_writes g sta = Inr stb"
    and f: "st1 = stb\<lparr>rs_cp := pass_breakpoints (rs_chs stb) (rs_cp stb)\<rparr> \<or> (\<exists>ws. take_input g ws stb = Inr st1)"
    unfolding first_def by (auto split: sum.splits if_splits list.splits)
  have "delta_ok g chs0 k (snapshot_frequency s0) sta"
    using a assms(2) by (auto simp: take_command_def Let_def put_null_writes_def split: run_input.splits sum.splits if_splits intro: delta_ok_cong)
  then have stb: "delta_ok g chs0 k (snapshot_frequency s0) stb"
    using b by (auto simp: apply_null_writes_def delta_ok_def Let_def split: if_splits sum.splits dest: like_apply_writes version_apply)
  from f show ?thesis
  proof (elim disjE exE)
    assume "st1 = stb\<lparr>rs_cp := pass_breakpoints (rs_chs stb) (rs_cp stb)\<rparr>"
    with stb show ?thesis by (simp add: delta_ok_def pass_breakpoints_def)
  next
    fix ws
    assume "take_input g ws stb = Inr st1"
    then obtain u cp chs tasks where ap: "apply_writes (rs_cp stb) (rs_chs stb) tasks (Some (g_next_version g)) (g_index g) = Inr (u, cp, chs)"
      and put: "put_step g ''input'' ((put_null_writes (delta_input (rs_chs stb) ws) (stb\<lparr>rs_cp := cp, rs_chs := chs\<rparr>))\<lparr>rs_updated := Some u\<rparr>) = Inr st1"
      by (auto simp: take_input_def Let_def split: sum.splits)
    show ?thesis by (rule apply_put_delta [OF stb assms(3-6) ap put]) simp_all
  qed
qed

text \<open>C10. Over any run that enters with a version of a delta channel, that is after the channel was first
  written, and with its two counters below their limits: among any consecutive checkpoints none of which holds a
  snapshot of the channel, fewer than its snapshot frequency have updated the channel, and there are fewer than the
  system-wide bound of supersteps: what a reader has to replay is bounded.\<close>

theorem delta_replay_bounded:
  assumes "invoke g iid same_run limit inp e = (r, st')" and "good_entry e" and "wf_dict (en_channels e)"
    and "dict_get (en_channels e) k = Some (DeltaChannel s)" and "dict_get (channel_versions (en_cp e)) k \<noteq> None"
    and "0 \<le> fst (dict_getd (en_counters e) k (0, 0))" and "fst (dict_getd (en_counters e) k (0, 0)) < snapshot_frequency s"
    and "0 \<le> snd (dict_getd (en_counters e) k (0, 0))" and "snd (dict_getd (en_counters e) k (0, 0)) < g_max_supersteps g"
    and "rs_saved st' = xs @ ys @ zs" and "gap k ys"
  shows "updates_in k ys < snapshot_frequency s \<and> int (length ys) < g_max_supersteps g"
proof -
  let ?st0 = "enter_run limit e"
  have "counted_ok k (snapshot_frequency s) (g_max_supersteps g) (rs_counters ?st0) (rs_saved ?st0)"
    using assms(6-9) by (simp add: counted_ok_def enter_run_def updates_in_def)
  then have ok0: "delta_ok g (en_channels e) k (snapshot_frequency s) ?st0"
    using enter_like [OF assms(2), of limit] assms(5) by (simp add: delta_ok_def enter_run_def)
  have pos: "0 < snapshot_frequency s" "0 < g_max_supersteps g" using assms(6-9) by simp_all
  have "delta_ok g (en_channels e) k (snapshot_frequency s) st'"
  proof (cases "first g iid same_run inp ?st0")
    case (Inl x)
    with assms(1) ok0 show ?thesis by (simp add: invoke_def Let_def)
  next
    case (Inr st1)
    then have "superstep_loop g st1 = (r, st')" using assms(1) by (simp add: invoke_def Let_def del: superstep_loop.simps)
    from superstep_loop_delta [OF this first_delta [OF Inr ok0 assms(4,3) pos] assms(4,3) pos] show ?thesis .
  qed
  with assms(10,11) show ?thesis unfolding delta_ok_def counted_ok_def by blast
qed

text \<open>A node that writes a delta channel of frequency 2 in two supersteps.\<close>

definition demo_delta_graph :: graph where
  "demo_delta_graph = \<lparr>g_procs = [(''n'', [''a'']), (''m'', [''b''])], g_before = SomeNodes [], g_after = SomeNodes [], g_hidden = (\<lambda>n. False),
     g_task_id = (\<lambda>i n. n),
     g_node = (\<lambda>t chs. ((''x'', ChanValue (Plain (PInt 1))) # (if lt_name t = ''n'' then [(''b'', ChanValue (Plain (PInt 1)))] else []), NodeDone)),
     g_next_version = increment, g_max_supersteps = 5000, g_input = OneChannel ''a''\<rparr>"

definition demo_delta_entry :: run_entry where
  "demo_delta_entry = \<lparr>en_cp = \<lparr>channel_versions = [(''x'', 1)], versions_seen = []\<rparr>,
     en_channels = demo_channels @ [(''x'', DeltaChannel \<lparr>delta_reducer = (\<lambda>v ws. Inr (PInt (int (length ws)))), snapshot_frequency = 2,
        delta_initial = PInt 0, delta_value = Some (PInt 0)\<rparr>)],
     en_step = 0, en_updated = None, en_pending = [], en_counters = []\<rparr>"

lemma demo_delta_good: "good_entry demo_delta_entry"
  by (simp add: good_entry_def demo_delta_entry_def like_def demo_channels_def same_chan_def wf_dict_def)

lemma delta_replay_bounded_witness:
  "let saved = rs_saved (snd (invoke demo_delta_graph id False 25 (Chunk (Plain PNone)) demo_delta_entry))
   in length saved = 3 \<and> updates_in ''x'' (take 2 saved) < 2"
proof -
  let ?i = "invoke demo_delta_graph id False 25 (Chunk (Plain PNone)) demo_delta_entry"
  let ?s = "\<lparr>delta_reducer = (\<lambda>v ws. Inr (PInt (int (length ws)))), snapshot_frequency = 2, delta_initial = PInt 0, delta_value = Some (PInt 0)\<rparr>"
  have run: "?i = (fst ?i, snd ?i)" by simp
  have len: "length (rs_saved (snd ?i)) = 3" by code_simp
  have "list_all (\<lambda>x. Option.is_none (dict_get (sc_values (ss_checkpoint x)) ''x'')) (take 2 (rs_saved (snd ?i)))" by code_simp
  then have gap: "gap ''x'' (take 2 (rs_saved (snd ?i)))" by (auto simp: gap_def snapshot_in_def list_all_iff)
  have e: "wf_dict (en_channels demo_delta_entry)" "dict_get (en_channels demo_delta_entry) ''x'' = Some (DeltaChannel ?s)"
    "dict_get (channel_versions (en_cp demo_delta_entry)) ''x'' \<noteq> None" "dict_getd (en_counters demo_delta_entry) ''x'' (0, 0) = (0, 0)"
    "g_max_supersteps demo_delta_graph = 5000"
    by (simp_all add: demo_delta_entry_def demo_delta_graph_def demo_channels_def wf_dict_def dict_getd_def)
  have "rs_saved (snd ?i) = [] @ take 2 (rs_saved (snd ?i)) @ drop 2 (rs_saved (snd ?i))" by simp
  from delta_replay_bounded [OF run demo_delta_good e(1-3) _ _ _ _ this gap] e(4,5) len show ?thesis by (simp add: Let_def)
qed

end
