(* ===== verification/Retry.thy ===== *)
theory Retry
  imports Loop Text
begin

text \<open>
  How the runner runs one task: \<open>langgraph/pregel/_retry.py\<close> with the retry and timeout policies of
  \<open>langgraph/types.py\<close> and the default rule of \<open>langgraph/_internal/_retry.py\<close>. The node and the jitter
  are arguments; times are exact rationals; the scope of a timed attempt is modelled as the sequence
  of its guarded calls. Traces, runtime patches and observers' errors are left out.
\<close>

section \<open>Checkpoint namespaces\<close>

fun split_at :: "char \<Rightarrow> string \<Rightarrow> string list" where
  "split_at d [] = [[]]"
| "split_at d (c # cs) =
     (if c = d then [] # split_at d cs
      else (case split_at d cs of [] \<Rightarrow> [[c]] | p # ps \<Rightarrow> (c # p) # ps))"

definition is_number :: "string \<Rightarrow> bool" where
  "is_number s \<longleftrightarrow> s \<noteq> [] \<and> list_all is_digit s"

definition recast_checkpoint_ns :: "string \<Rightarrow> string" where
  "recast_checkpoint_ns ns =
     join ''|'' (map (\<lambda>p. hd (split_at (CHR '':'') p)) (filter (\<lambda>p. \<not> is_number p) (split_at (CHR ''|'') ns)))"

definition drop_numbers :: "string list \<Rightarrow> string list" where
  "drop_numbers ps = rev (dropWhile is_number (rev ps))"

definition checkpoint_ns_for_parent_command :: "string \<Rightarrow> string" where
  "checkpoint_ns_for_parent_command ns =
     (let parts = drop_numbers (split_at (CHR ''|'') ns)
      in join ''|'' (drop_numbers (butlast parts)))"

section \<open>Policies\<close>

text \<open>An exception: its classes and their base classes, and for an HTTP error the status of the response and
  whether the response is true as a condition.\<close>

record node_exc =
  ne_classes :: "string list"
  ne_response :: "(int \<times> bool) option"

definition isinst :: "node_exc \<Rightarrow> string list \<Rightarrow> bool" where
  "isinst x cs \<longleftrightarrow> list_ex (\<lambda>c. c \<in> set cs) (ne_classes x)"

definition programming_errors :: "string list" where
  "programming_errors = [''ValueError'', ''TypeError'', ''ArithmeticError'', ''ImportError'', ''LookupError'', ''NameError'', ''SyntaxError'',
     ''RuntimeError'', ''ReferenceError'', ''StopIteration'', ''StopAsyncIteration'', ''OSError'']"

definition server_error :: "int \<Rightarrow> bool" where
  "server_error status \<longleftrightarrow> 500 \<le> status \<and> status < 600"

text \<open>\<open>default_retry_on\<close> of \<open>_internal/_retry.py\<close>. An HTTP status error of \<open>httpx\<close> has a response.\<close>

definition node_default_retry :: "node_exc \<Rightarrow> bool" where
  "node_default_retry x =
     (if isinst x [''ConnectionError''] then True
      else if isinst x [''httpx.HTTPStatusError''] then (case ne_response x of Some (status, t) \<Rightarrow> server_error status | None \<Rightarrow> False)
      else if isinst x [''requests.HTTPError''] then (case ne_response x of Some (status, True) \<Rightarrow> server_error status | _ \<Rightarrow> True)
      else \<not> isinst x programming_errors)"

datatype retry_on = OnClasses "string list" | OnPredicate "node_exc \<Rightarrow> bool"

record retry_policy =
  rp_initial :: rat
  rp_factor :: rat
  rp_max_interval :: rat
  rp_max_attempts :: int
  rp_jitter :: bool
  rp_on :: retry_on

definition should_retry_on :: "retry_policy \<Rightarrow> node_exc \<Rightarrow> bool" where
  "should_retry_on p x = (case rp_on p of OnClasses cs \<Rightarrow> isinst x cs | OnPredicate f \<Rightarrow> f x)"

text \<open>The sleep after failure number \<open>n\<close>; \<open>u\<close> is the random part.\<close>

definition retry_interval :: "retry_policy \<Rightarrow> nat \<Rightarrow> rat" where
  "retry_interval p n = min (rp_max_interval p) (rp_initial p * rp_factor p ^ (n - 1))"

definition retry_sleep :: "retry_policy \<Rightarrow> nat \<Rightarrow> rat \<Rightarrow> rat" where
  "retry_sleep p n u = (if rp_jitter p then retry_interval p n + u else retry_interval p n)"

section \<open>Running a task\<close>

text \<open>A command for another graph, with what the task's writers make of it here.\<close>

record graph_command =
  gc_graph :: string
  gc_writes :: "loop_write list"

datatype attempt_end =
    Returned
  | BubbledUp "pyval list"
  | CommandRaised graph_command
  | CancelledInside
  | ExcRaised node_exc

text \<open>An attempt gets its number and whether it resumes; it writes and ends.\<close>

type_synonym 's node_proc = "nat \<Rightarrow> bool \<Rightarrow> 's \<Rightarrow> (loop_write list \<times> attempt_end) \<times> 's"

datatype run_result =
    RunOk
  | RunBubbled "pyval list"
  | RunCommand graph_command
  | RunCancelled
  | RunRaised node_exc

record retry_run =
  rr_result :: run_result
  rr_writes :: "loop_write list"
  rr_attempts :: nat
  rr_sleeps :: "rat list"

definition take_command_here :: "string \<Rightarrow> string \<Rightarrow> graph_command \<Rightarrow> loop_write list \<Rightarrow> run_result \<times> loop_write list" where
  "take_command_here ns name c ws =
     (if gc_graph c \<in> {ns, recast_checkpoint_ns ns, name} then (RunOk, ws @ gc_writes c)
      else if gc_graph c = ''__parent__'' then (RunCommand (c\<lparr>gc_graph := checkpoint_ns_for_parent_command ns\<rparr>), ws)
      else (RunCommand c, ws))"

text \<open>What an attempt that is not tried again comes to.\<close>

definition attempt_result :: "string \<Rightarrow> string \<Rightarrow> loop_write list \<times> attempt_end \<Rightarrow> run_result \<times> loop_write list" where
  "attempt_result ns name r =
     (case r of (ws, e) \<Rightarrow>
        (case e of
           Returned \<Rightarrow> (RunOk, ws)
         | BubbledUp vs \<Rightarrow> (RunBubbled vs, ws)
         | CommandRaised c \<Rightarrow> take_command_here ns name c ws
         | CancelledInside \<Rightarrow> (RunCancelled, ws)
         | ExcRaised x \<Rightarrow> (RunRaised x, ws)))"

text \<open>The policy for a failure, unless it gives up: the first that matches.\<close>

definition retry_policy_for :: "retry_policy list \<Rightarrow> nat \<Rightarrow> attempt_end \<Rightarrow> retry_policy option" where
  "retry_policy_for ps failures e =
     (case e of
        ExcRaised x \<Rightarrow>
          (case find (\<lambda>p. should_retry_on p x) ps of
             None \<Rightarrow> None
           | Some p \<Rightarrow> if int failures \<ge> rp_max_attempts p then None else Some p)
      | _ \<Rightarrow> None)"

definition most_attempts :: "retry_policy list \<Rightarrow> nat" where
  "most_attempts ps = fold max (map (\<lambda>p. nat (rp_max_attempts p)) ps) 0"

lemma fold_max: "(x :: nat) \<le> fold max xs x \<and> (y \<in> set xs \<longrightarrow> y \<le> fold max xs x)"
proof (induction xs arbitrary: x)
  case (Cons z zs)
  from Cons [of "max z x"] show ?case by auto
qed simp

lemma retry_policy_for_bound: "retry_policy_for ps failures e = Some p \<Longrightarrow> failures < most_attempts ps \<and> int failures < rp_max_attempts p"
proof -
  assume "retry_policy_for ps failures e = Some p"
  then have p: "p \<in> set ps" "int failures < rp_max_attempts p"
    by (auto simp: retry_policy_for_def find_Some_iff split: attempt_end.splits option.splits if_splits)
  then have "nat (rp_max_attempts p) \<le> most_attempts ps" using fold_max [of 0 "map (\<lambda>p. nat (rp_max_attempts p)) ps"] by (auto simp: most_attempts_def)
  with p show ?thesis by linarith
qed

text \<open>The loop of \<open>run_with_retry\<close>: \<open>n\<close> attempts have failed so far. Each attempt starts without writes.\<close>

function run_attempts ::
  "retry_policy list \<Rightarrow> (nat \<Rightarrow> rat) \<Rightarrow> string \<Rightarrow> string \<Rightarrow> 's node_proc \<Rightarrow> nat \<Rightarrow> rat list \<Rightarrow> 's \<Rightarrow> retry_run \<times> 's" where
  "run_attempts ps jit ns name node n sleeps s =
     (case node (n + 1) (n > 0) s of
        (r, s') \<Rightarrow>
          (case retry_policy_for ps (n + 1) (snd r) of
             None \<Rightarrow>
               (case attempt_result ns name r of
                  (res, ws) \<Rightarrow> (\<lparr>rr_result = res, rr_writes = ws, rr_attempts = n + 1, rr_sleeps = sleeps\<rparr>, s'))
           | Some p \<Rightarrow> run_attempts ps jit ns name node (n + 1) (sleeps @ [retry_sleep p (n + 1) (jit n)]) s'))"
  by pat_completeness auto
termination
  by (relation "measure (\<lambda>(ps, jit, ns, name, node, n, sleeps, s). most_attempts ps - n)") (auto dest: retry_policy_for_bound)

definition run_with_retry ::
  "retry_policy list option \<Rightarrow> retry_policy list \<Rightarrow> (nat \<Rightarrow> rat) \<Rightarrow> string \<Rightarrow> string \<Rightarrow> 's node_proc \<Rightarrow> 's \<Rightarrow> retry_run \<times> 's" where
  "run_with_retry own shared jit ns name node s =
     run_attempts (case own of Some (p # ps) \<Rightarrow> p # ps | _ \<Rightarrow> shared) jit ns name node 0 [] s"

section \<open>The scope of a timed attempt\<close>

datatype refresh = Auto | Heartbeat

record timeout_policy =
  tp_run :: "rat option"
  tp_idle :: "rat option"
  tp_refresh :: refresh

text \<open>\<open>TimeoutPolicy.coerce\<close> of a policy: positive seconds, or no timeout.\<close>

definition coerce_seconds :: "rat option \<Rightarrow> rat option result" where
  "coerce_seconds t = (case t of None \<Rightarrow> Inr None | Some x \<Rightarrow> if x \<le> 0 then Inl ValueError else Inr (Some x))"

definition coerce_timeout :: "timeout_policy option \<Rightarrow> timeout_policy option result" where
  "coerce_timeout t =
     (case t of
        None \<Rightarrow> Inr None
      | Some p \<Rightarrow>
          (case coerce_seconds (tp_run p) of
             Inl e \<Rightarrow> Inl e
           | Inr run \<Rightarrow>
               (case coerce_seconds (tp_idle p) of
                  Inl e \<Rightarrow> Inl e
                | Inr idle \<Rightarrow>
                    Inr (if run = None \<and> idle = None then None
                         else Some \<lparr>tp_run = run, tp_idle = idle, tp_refresh = tp_refresh p\<rparr>))))"

text \<open>\<open>_TimedAttemptScope\<close>. \<open>sp_emitted\<close> is the time of the last progress event, None for minus infinity.\<close>

record scope =
  sp_active :: bool
  sp_progress :: rat
  sp_emitted :: "rat option"
  sp_min_interval :: rat
  sp_refresh :: "refresh option"
  sp_observed :: bool

text \<open>\<open>_resolve_timeout\<close>, and the scope \<open>_arun_with_timeout\<close> makes at time \<open>now\<close>.\<close>

definition open_scope :: "timeout_policy \<Rightarrow> bool \<Rightarrow> rat \<Rightarrow> scope" where
  "open_scope p observer now =
     \<lparr>sp_active = True, sp_progress = now, sp_emitted = None,
      sp_min_interval = (case tp_idle p of Some t \<Rightarrow> t / 4 | None \<Rightarrow> 0),
      sp_refresh = (if tp_idle p \<noteq> None then Some (tp_refresh p) else None),
      sp_observed = (observer \<and> tp_idle p \<noteq> None)\<rparr>"

text \<open>The guarded calls of a node, and what reaches the runtime.\<close>

datatype guarded =
    Touch
  | Send "loop_write list"
  | StreamChunk pyval
  | CallChild
  | WriterChunk pyval
  | Close

datatype effect =
    Wrote "loop_write list"
  | Streamed pyval
  | Called
  | CallRefused
  | Progress

definition refresh_progress :: "rat \<Rightarrow> scope \<Rightarrow> scope" where
  "refresh_progress now sp = (if sp_refresh sp = Some Auto then sp\<lparr>sp_progress := now\<rparr> else sp)"

definition scope_touch :: "rat \<Rightarrow> scope \<Rightarrow> effect list \<times> scope" where
  "scope_touch now sp =
     (let sp1 = sp\<lparr>sp_progress := now\<rparr> in
      if \<not> sp_observed sp then ([], sp1)
      else if (case sp_emitted sp of None \<Rightarrow> False | Some t \<Rightarrow> now - t < sp_min_interval sp) then ([], sp1)
      else ([Progress], sp1\<lparr>sp_emitted := Some now\<rparr>))"

fun guarded_call :: "rat \<Rightarrow> guarded \<Rightarrow> scope \<Rightarrow> effect list \<times> scope" where
  "guarded_call now Touch sp = scope_touch now sp"
| "guarded_call now (Send ws) sp =
     (if sp_active sp then ([Wrote ws], if ws \<noteq> [] then refresh_progress now sp else sp) else ([], sp))"
| "guarded_call now (StreamChunk v) sp = (if sp_active sp then ([Streamed v], refresh_progress now sp) else ([], sp))"
| "guarded_call now CallChild sp = (if sp_active sp then ([Called], refresh_progress now sp) else ([CallRefused], sp))"
| "guarded_call now (WriterChunk v) sp = (if sp_active sp then ([Streamed v], refresh_progress now sp) else ([], sp))"
| "guarded_call now Close sp = ([], sp\<lparr>sp_active := False\<rparr>)"

fun guarded_calls :: "(rat \<times> guarded) list \<Rightarrow> scope \<Rightarrow> (rat \<times> effect) list \<times> scope" where
  "guarded_calls [] sp = ([], sp)"
| "guarded_calls ((now, c) # cs) sp =
     (case guarded_call now c sp of
        (es, sp1) \<Rightarrow> (case guarded_calls cs sp1 of (es', sp2) \<Rightarrow> (map (Pair now) es @ es', sp2)))"

text \<open>One check of \<open>wait_for_idle_timeout\<close>: over, timed out, or the time to sleep.\<close>

datatype idle_check = IdleOver | IdleTimeout | IdleSleep rat

definition check_idle :: "rat \<Rightarrow> rat \<Rightarrow> scope \<Rightarrow> idle_check" where
  "check_idle idle now sp =
     (if \<not> sp_active sp then IdleOver
      else if sp_progress sp + idle - now \<le> 0 then IdleTimeout else IdleSleep (sp_progress sp + idle - now))"

section \<open>The trace of a task\<close>

text \<open>What attempt \<open>i\<close> (from 0) does when the ones before it were tried again.\<close>

primrec world_after :: "'s node_proc \<Rightarrow> nat \<Rightarrow> 's \<Rightarrow> 's" where
  "world_after node 0 s = s"
| "world_after node (Suc i) s = snd (node (Suc i) (i > 0) (world_after node i s))"

definition attempt_of :: "'s node_proc \<Rightarrow> 's \<Rightarrow> nat \<Rightarrow> loop_write list \<times> attempt_end" where
  "attempt_of node s i = fst (node (Suc i) (i > 0) (world_after node i s))"

definition retry_after :: "retry_policy list \<Rightarrow> 's node_proc \<Rightarrow> 's \<Rightarrow> nat \<Rightarrow> retry_policy option" where
  "retry_after ps node s i = retry_policy_for ps (Suc i) (snd (attempt_of node s i))"

lemma run_attempts_trace:
  assumes "run_attempts ps jit ns name node n sleeps (world_after node n s) = (rr, s')"
  shows "\<exists>m \<ge> n. (\<forall>i. n \<le> i \<and> i < m \<longrightarrow> retry_after ps node s i \<noteq> None) \<and> retry_after ps node s m = None \<and>
     (rr_result rr, rr_writes rr) = attempt_result ns name (attempt_of node s m) \<and> rr_attempts rr = Suc m \<and>
     rr_sleeps rr = sleeps @ map (\<lambda>i. retry_sleep (the (retry_after ps node s i)) (Suc i) (jit i)) [n..<m] \<and>
     s' = world_after node (Suc m) s"
  using assms
proof (induction "most_attempts ps - n" arbitrary: n sleeps rule: less_induct)
  case less
  let ?w = "world_after node n s"
  obtain r s1 where r: "node (n + 1) (n > 0) ?w = (r, s1)" by (rule prod.exhaust)
  have at: "attempt_of node s n = r" "s1 = world_after node (Suc n) s" using r by (simp_all add: attempt_of_def)
  show ?case
  proof (cases "retry_after ps node s n")
    case None
    then have "retry_policy_for ps (n + 1) (snd r) = None" by (simp add: retry_after_def at(1))
    with less.prems r at None show ?thesis by (intro exI [of _ n]) (auto split: prod.splits)
  next
    case (Some p)
    then have p: "retry_policy_for ps (n + 1) (snd r) = Some p" by (simp add: retry_after_def at(1))
    have smaller: "most_attempts ps - Suc n < most_attempts ps - n" using retry_policy_for_bound [OF p] by linarith
    have "run_attempts ps jit ns name node (Suc n) (sleeps @ [retry_sleep p (n + 1) (jit n)]) (world_after node (Suc n) s) = (rr, s')"
      using less.prems by (subst (asm) run_attempts.simps) (use r p at(2) in \<open>simp del: run_attempts.simps world_after.simps\<close>)
    from less.hyps [OF smaller this] obtain m where m: "Suc n \<le> m" "\<forall>i. Suc n \<le> i \<and> i < m \<longrightarrow> retry_after ps node s i \<noteq> None"
      "retry_after ps node s m = None" "(rr_result rr, rr_writes rr) = attempt_result ns name (attempt_of node s m)" "rr_attempts rr = Suc m"
      "rr_sleeps rr = (sleeps @ [retry_sleep p (n + 1) (jit n)]) @ map (\<lambda>i. retry_sleep (the (retry_after ps node s i)) (Suc i) (jit i)) [Suc n..<m]"
      "s' = world_after node (Suc m) s" by blast
    have "\<forall>i. n \<le> i \<and> i < m \<longrightarrow> retry_after ps node s i \<noteq> None" using m(2) Some by (metis le_antisym not_less_eq_eq option.distinct(1))
    with m Some show ?thesis by (intro exI [of _ m]) (simp add: upt_conv_Cons)
  qed
qed

text \<open>C27. Running a task with retries: the attempts go on exactly while the failure of each has a policy
  that has not given up, the first that matches it, so there are at most the most attempts of any
  policy, and always one; the result and the writes are those of the last attempt alone; each pause
  is the capped exponential backoff of the policy, with jitter when it asks for it.\<close>

theorem run_with_retry_trace:
  assumes "run_with_retry own shared jit ns name node s = (rr, s')"
    and "ps = (case own of Some (p # ps) \<Rightarrow> p # ps | _ \<Rightarrow> shared)"
  shows "\<exists>m. (\<forall>i < m. retry_after ps node s i \<noteq> None) \<and> retry_after ps node s m = None \<and>
     rr_attempts rr = Suc m \<and> Suc m \<le> max 1 (most_attempts ps) \<and>
     (rr_result rr, rr_writes rr) = attempt_result ns name (attempt_of node s m) \<and>
     rr_sleeps rr = map (\<lambda>i. retry_sleep (the (retry_after ps node s i)) (Suc i) (jit i)) [0..<m] \<and>
     (\<forall>i < m. retry_interval (the (retry_after ps node s i)) (Suc i) \<le> rp_max_interval (the (retry_after ps node s i)))"
proof -
  have "run_attempts ps jit ns name node 0 [] (world_after node 0 s) = (rr, s')"
    using assms unfolding run_with_retry_def by (simp del: run_attempts.simps)
  from run_attempts_trace [OF this] obtain m where m: "\<forall>i < m. retry_after ps node s i \<noteq> None" "retry_after ps node s m = None"
    "(rr_result rr, rr_writes rr) = attempt_result ns name (attempt_of node s m)" "rr_attempts rr = Suc m"
    "rr_sleeps rr = map (\<lambda>i. retry_sleep (the (retry_after ps node s i)) (Suc i) (jit i)) [0..<m]" by auto
  have "Suc m \<le> max 1 (most_attempts ps)"
  proof (cases m)
    case (Suc k)
    then obtain p where "retry_after ps node s k = Some p" using m(1) by auto
    then have "Suc k < most_attempts ps" using retry_policy_for_bound by (auto simp: retry_after_def)
    with Suc show ?thesis by simp
  qed simp
  moreover have "retry_interval p i \<le> rp_max_interval p" for p i by (simp add: retry_interval_def)
  ultimately show ?thesis using m by blast
qed

text \<open>A node that fails twice with a connection error and then finishes.\<close>

definition demo_policy :: retry_policy where
  "demo_policy = \<lparr>rp_initial = 1, rp_factor = 2, rp_max_interval = 100, rp_max_attempts = 3, rp_jitter = False, rp_on = OnPredicate node_default_retry\<rparr>"

definition demo_node :: "nat node_proc" where
  "demo_node i b s = (if s < 2 then (([(''x'', Signal (PInt (int s)))], ExcRaised \<lparr>ne_classes = [''ConnectionError'', ''OSError''], ne_response = None\<rparr>), s + 1)
                      else (([(''x'', Signal (PInt (int s)))], Returned), s + 1))"

theorem run_with_retry_trace_witness:
  "\<exists>rr s'. run_with_retry None [demo_policy] (\<lambda>i. 0) ''n'' ''n'' demo_node 0 = (rr, s') \<and>
     rr_attempts rr \<le> 3 \<and> rr_writes rr = [(''x'', Signal (PInt 2))] \<and> rr_sleeps rr = [1, 2]"
proof -
  obtain rr s' where run: "run_with_retry None [demo_policy] (\<lambda>i. 0) ''n'' ''n'' demo_node 0 = (rr, s')" by (rule prod.exhaust)
  have "max 1 (most_attempts [demo_policy]) = 3" by (simp add: most_attempts_def demo_policy_def)
  then have "rr_attempts rr \<le> 3" using run_with_retry_trace [OF run refl] by auto
  moreover have "rr_writes rr = [(''x'', Signal (PInt 2))] \<and> rr_sleeps rr = [1, 2]"
    using arg_cong [OF run, of "\<lambda>x. (rr_writes (fst x), rr_sleeps (fst x))"]
    by (simp add: run_with_retry_def demo_node_def retry_policy_for_def demo_policy_def should_retry_on_def node_default_retry_def isinst_def
        attempt_result_def retry_sleep_def retry_interval_def)
  ultimately show ?thesis using run by blast
qed

text \<open>The default rule asks whether the response of a \<open>requests\<close> error is true before it looks at the
  status; a response is true exactly when its status is below 400, so every error with a client
  status is retried, unlike the same error of \<open>httpx\<close>.\<close>

theorem client_errors_are_retried:
  assumes "t \<longleftrightarrow> status < 400" and "400 \<le> status" and "status < 500"
  shows "node_default_retry \<lparr>ne_classes = [''requests.HTTPError'', ''OSError''], ne_response = Some (status, t)\<rparr> \<and>
     \<not> node_default_retry \<lparr>ne_classes = [''httpx.HTTPStatusError''], ne_response = Some (status, t)\<rparr>"
  using assms by (simp add: node_default_retry_def isinst_def server_error_def)

theorem client_errors_are_retried_witness:
  "node_default_retry \<lparr>ne_classes = [''requests.HTTPError'', ''OSError''], ne_response = Some (404, False)\<rparr>"
  using client_errors_are_retried [of False 404] by simp

section \<open>Namespaces of parents\<close>

lemma split_at_nonempty: "split_at d s \<noteq> []"
  by (induction s) (auto split: list.splits)

lemma split_at_append: "d \<notin> set p \<Longrightarrow> split_at d (p @ d # s) = p # split_at d s"
  by (induction p) auto

lemma split_at_single: "d \<notin> set p \<Longrightarrow> split_at d p = [p]"
  by (induction p) auto

lemma join_Cons: "ps \<noteq> [] \<Longrightarrow> join sep (p # ps) = p @ sep @ join sep ps"
  by (cases ps) auto

lemma split_join: "ps \<noteq> [] \<Longrightarrow> list_all (\<lambda>p. d \<notin> set p) ps \<Longrightarrow> split_at d (join [d] ps) = ps"
proof (induction ps)
  case (Cons p ps)
  then show ?case by (cases "ps = []") (simp_all add: split_at_single split_at_append join_Cons)
qed simp

lemma drop_numbers_tail: "list_all is_number nums \<Longrightarrow> ps = [] \<or> \<not> is_number (last ps) \<Longrightarrow> drop_numbers (ps @ nums) = ps"
proof -
  assume n: "list_all is_number nums" and p: "ps = [] \<or> \<not> is_number (last ps)"
  have "dropWhile is_number (rev nums @ rev ps) = dropWhile is_number (rev ps)"
    by (rule dropWhile_append2) (use n in \<open>simp add: list_all_iff\<close>)
  also have "\<dots> = rev ps" using p by (cases ps rule: rev_cases) simp_all
  finally show ?thesis by (simp add: drop_numbers_def)
qed

text \<open>The parent of a checkpoint namespace is the path before the frame, whatever numeric segments
  tell concurrent tasks apart after the frame or before it.\<close>

theorem parent_namespace:
  assumes "list_all (\<lambda>p. CHR ''|'' \<notin> set p) (front @ nums @ [frame] @ nums')" and "\<not> is_number frame"
    and "list_all is_number nums" and "list_all is_number nums'" and "front = [] \<or> \<not> is_number (last front)"
  shows "checkpoint_ns_for_parent_command (join ''|'' (front @ nums @ [frame] @ nums')) = join ''|'' front"
proof -
  have "split_at (CHR ''|'') (join ''|'' (front @ nums @ [frame] @ nums')) = front @ nums @ [frame] @ nums'"
    by (rule split_join) (use assms(1) in simp_all)
  moreover have "drop_numbers ((front @ nums @ [frame]) @ nums') = front @ nums @ [frame]"
    by (rule drop_numbers_tail) (use assms(2,4) in simp_all)
  ultimately have "checkpoint_ns_for_parent_command (join ''|'' (front @ nums @ [frame] @ nums')) = join ''|'' (drop_numbers (front @ nums))"
    by (simp add: checkpoint_ns_for_parent_command_def Let_def butlast_append)
  with drop_numbers_tail [OF assms(3,5)] show ?thesis by simp
qed

theorem parent_namespace_witness:
  "checkpoint_ns_for_parent_command ''p:1|1|n:2|3'' = ''p:1''"
  using parent_namespace [of "[''p:1'']" "[''1'']" "''n:2''" "[''3'']"] by (simp add: is_number_def is_digit_def)

section \<open>Timed attempts\<close>

lemma closed_stays: "\<not> sp_active sp \<Longrightarrow> guarded_call now c sp = (es, sp') \<Longrightarrow> \<not> sp_active sp' \<and> set es \<subseteq> {CallRefused, Progress}"
  by (cases c) (auto simp: scope_touch_def Let_def split: if_splits)

lemma closed_silent: "\<not> sp_active sp \<Longrightarrow> guarded_calls cs sp = (es, sp') \<Longrightarrow> snd ` set es \<subseteq> {CallRefused, Progress}"
proof (induction cs arbitrary: sp es sp')
  case (Cons c cs)
  obtain now g where c: "c = (now, g)" by (cases c)
  obtain es1 sp1 where 1: "guarded_call now g sp = (es1, sp1)" by (rule prod.exhaust)
  obtain es2 sp2 where 2: "guarded_calls cs sp1 = (es2, sp2)" by (rule prod.exhaust)
  from closed_stays [OF Cons.prems(1) 1] have a: "\<not> sp_active sp1" "set es1 \<subseteq> {CallRefused, Progress}" by simp_all
  have "snd ` set es = set es1 \<union> snd ` set es2" using Cons.prems(2) by (auto simp: c 1 2 image_Un image_image)
  with Cons.IH [OF a(1) 2] a(2) show ?case by simp
qed simp

lemma guarded_calls_append:
  "guarded_calls (cs @ ds) sp = (case guarded_calls cs sp of (es, sp1) \<Rightarrow> (case guarded_calls ds sp1 of (es', sp2) \<Rightarrow> (es @ es', sp2)))"
  by (induction cs arbitrary: sp) (auto split: prod.splits)

text \<open>Once the scope of a timed attempt is closed, as it is when the attempt times out, nothing the
  abandoned node still does reaches the run: no write, no stream chunk, no child task.\<close>

theorem closed_attempt_is_silent:
  assumes "guarded_calls (cs @ [(t, Close)] @ ds) sp = (es, sp')"
  shows "\<exists>es1 es2. es = es1 @ es2 \<and> es1 = fst (guarded_calls cs sp) \<and> snd ` set es2 \<subseteq> {CallRefused, Progress}"
proof -
  obtain es1 sp1 where 1: "guarded_calls cs sp = (es1, sp1)" by (rule prod.exhaust)
  obtain es2 sp2 where 2: "guarded_calls ds (sp1\<lparr>sp_active := False\<rparr>) = (es2, sp2)" by (rule prod.exhaust)
  have "es = es1 @ es2" using assms by (simp add: guarded_calls_append 1 2)
  moreover have "snd ` set es2 \<subseteq> {CallRefused, Progress}" by (rule closed_silent [OF _ 2]) simp
  ultimately show ?thesis using 1 by auto
qed

theorem closed_attempt_is_silent_witness:
  "snd (0 :: rat, Wrote []) \<notin> snd ` set (drop 1 (fst (guarded_calls ([(1, Send [])] @ [(2, Close)] @ [(3, Send [])])
      (open_scope \<lparr>tp_run = None, tp_idle = Some 1, tp_refresh = Auto\<rparr> False 0))))"
proof -
  let ?sp = "open_scope \<lparr>tp_run = None, tp_idle = Some 1, tp_refresh = Auto\<rparr> False 0"
  obtain es sp' where run: "guarded_calls ([(1, Send [])] @ [(2, Close)] @ [(3, Send [])]) ?sp = (es, sp')" by (rule prod.exhaust)
  from closed_attempt_is_silent [OF run] obtain es1 es2 where e: "es = es1 @ es2" "es1 = fst (guarded_calls [(1, Send [])] ?sp)"
    "snd ` set es2 \<subseteq> {CallRefused, Progress}" by blast
  have "length es1 = 1" by (simp add: e(2) open_scope_def)
  with e run show ?thesis by auto
qed

end
