(* ===== verification/Graph.thy ===== *)
theory Graph
  imports Run Text
begin

text \<open>
  The graph builder of \<open>langgraph/graph/state.py\<close> and \<open>_branch.py\<close>: how the fields of a schema become channels,
  nodes, edges, joins and branches, their validation, and the compiled graph, whose nodes are triggered by
  channels and whose writers turn what a node returns into writes. Schemas and the functions of nodes and
  branches are user code: a schema is known by its annotations, a branch by what its path returns.
\<close>

section \<open>Results in sequence\<close>

definition and_then :: "'a result \<Rightarrow> ('a \<Rightarrow> 'b result) \<Rightarrow> 'b result" where
  "and_then r f = (case r of Inl e \<Rightarrow> Inl e | Inr x \<Rightarrow> f x)"

fun fold_res :: "('a \<Rightarrow> 's \<Rightarrow> 's result) \<Rightarrow> 'a list \<Rightarrow> 's \<Rightarrow> 's result" where
  "fold_res f [] s = Inr s"
| "fold_res f (x # xs) s = and_then (f x s) (fold_res f xs)"

lemma and_then_Inr [simp]: "and_then r f = Inr y \<longleftrightarrow> (\<exists>x. r = Inr x \<and> f x = Inr y)"
  by (cases r) (simp_all add: and_then_def)

lemma fold_res_invariant:
  assumes "fold_res f xs s = Inr s'" and "P s" and "\<And>x s s'. x \<in> set xs \<Longrightarrow> f x s = Inr s' \<Longrightarrow> P s \<Longrightarrow> P s'"
  shows "P s'"
  using assms
proof (induction xs arbitrary: s)
  case (Cons x xs)
  from Cons.prems(1) obtain s1 where s1: "f x s = Inr s1" "fold_res f xs s1 = Inr s'" by auto
  have "P s1" using Cons.prems(2,3) s1(1) by (meson list.set_intros(1))
  with Cons.IH [OF s1(2)] Cons.prems(3) show ?case by (meson list.set_intros(2))
qed simp

section \<open>Schemas\<close>

text \<open>A channel declared by an annotation. Reducers are named; all lambdas have the same name.\<close>

datatype chan_spec = LastValueSpec | ReducerSpec string | DeltaSpec string nat | OtherSpec string

definition operators_equal :: "string \<Rightarrow> string \<Rightarrow> bool" where
  "operators_equal a b \<longleftrightarrow> a = ''<lambda>'' \<or> b = ''<lambda>'' \<or> a = b"

fun spec_equal :: "chan_spec \<Rightarrow> chan_spec \<Rightarrow> bool" where
  "spec_equal (ReducerSpec a) (ReducerSpec b) = operators_equal a b"
| "spec_equal (DeltaSpec a f) (DeltaSpec b g) = (f = g \<and> operators_equal a b)"
| "spec_equal a b = (a = b)"

text \<open>The metadata of an annotation: a channel or its class, a managed value, a callable with the number of its
  positional parameters. \<open>WrappedType\<close> is any other type with arguments.\<close>

datatype meta = MetaChannel chan_spec | MetaManaged string | MetaFunction string nat | MetaOther

datatype type_form = PlainForm | AnnotatedForm type_form "meta list" | RequiredForm type_form | WrappedForm type_form

datatype schema = RootSchema type_form | FieldSchema "(string \<times> type_form) list"

datatype field_kind = ChannelField chan_spec | ManagedField string

fun managed_of :: "type_form \<Rightarrow> string option" where
  "managed_of PlainForm = None"
| "managed_of (AnnotatedForm t ms) =
     (case (if ms = [] then MetaOther else last ms) of MetaManaged m \<Rightarrow> Some m | _ \<Rightarrow> managed_of t)"
| "managed_of (RequiredForm t) = managed_of t"
| "managed_of (WrappedForm t) = managed_of t"

fun first_channel :: "meta list \<Rightarrow> chan_spec option" where
  "first_channel [] = None"
| "first_channel (m # ms) = (case m of MetaChannel c \<Rightarrow> Some c | _ \<Rightarrow> first_channel ms)"

fun channel_of :: "type_form \<Rightarrow> chan_spec option" where
  "channel_of (AnnotatedForm t ms) = first_channel ms"
| "channel_of _ = None"

fun binop_of :: "type_form \<Rightarrow> chan_spec option result" where
  "binop_of (AnnotatedForm t ms) =
     (case (if ms = [] then MetaOther else last ms) of
        MetaFunction f n \<Rightarrow> if n = 2 then Inr (Some (ReducerSpec f)) else Inl ValueError
      | _ \<Rightarrow> Inr None)"
| "binop_of _ = Inr None"

fun strip_required :: "type_form \<Rightarrow> type_form" where
  "strip_required (RequiredForm t) = t"
| "strip_required t = t"

definition get_channel :: "bool \<Rightarrow> type_form \<Rightarrow> field_kind result" where
  "get_channel allow_managed t =
     (let t' = strip_required t in
      case managed_of t' of
        Some m \<Rightarrow> if allow_managed then Inr (ManagedField m) else Inl ValueError
      | None \<Rightarrow>
          (case channel_of t' of
             Some c \<Rightarrow> Inr (ChannelField c)
           | None \<Rightarrow> (case binop_of t' of
                        Inl e \<Rightarrow> Inl e
                      | Inr (Some c) \<Rightarrow> Inr (ChannelField c)
                      | Inr None \<Rightarrow> Inr (ChannelField LastValueSpec))))"

text \<open>\<open>_get_channels\<close>: the fields of a schema, channels before managed values.\<close>

fun get_fields :: "(string \<times> type_form) list \<Rightarrow> (string, field_kind) dict result" where
  "get_fields [] = Inr []"
| "get_fields ((n, t) # fs) =
     (if n = ''__slots__'' then get_fields fs
      else and_then (get_channel True t) (\<lambda>k. and_then (get_fields fs) (\<lambda>ks. Inr ((n, k) # ks))))"

fun is_managed_field :: "field_kind \<Rightarrow> bool" where
  "is_managed_field (ManagedField m) = True"
| "is_managed_field (ChannelField c) = False"

definition get_channels :: "schema \<Rightarrow> (string, field_kind) dict result" where
  "get_channels s =
     (case s of
        RootSchema t \<Rightarrow> and_then (get_channel False t) (\<lambda>k. Inr [(''__root__'', k)])
      | FieldSchema fs \<Rightarrow>
          and_then (get_fields fs) (\<lambda>ks. Inr (filter (\<lambda>(n, k). \<not> is_managed_field k) ks @ filter (\<lambda>(n, k). is_managed_field k) ks)))"

section \<open>The builder\<close>

text \<open>Policies are values of any type. \<open>br_ends\<close> maps what a path may return to nodes.\<close>

record 'p policies =
  po_retry :: "'p option"
  po_cache :: "'p option"
  po_timeout :: "'p option"

record 'p node_spec =
  ns_schema :: string
  ns_ends :: "string list"
  ns_defer :: bool
  ns_policies :: "'p policies"
  ns_is_handler :: bool
  ns_handler :: "string option"

record branch_spec =
  br_ends :: "(string option, string) dict option"
  br_schema :: "string option"

record 'p builder =
  bd_nodes :: "(string, 'p node_spec) dict"
  bd_edges :: "(string \<times> string) list"
  bd_waiting :: "(string list \<times> string) list"
  bd_branches :: "(string, (string, branch_spec) dict) dict"
  bd_channels :: "(string, chan_spec) dict"
  bd_managed :: "(string, string) dict"
  bd_schemas :: "(string, (string, field_kind) dict) dict"
  bd_state :: string
  bd_input :: string
  bd_output :: string
  bd_defaults :: "'p policies"
  bd_default_handler :: bool
  bd_compiled :: bool

definition no_policies :: "'p policies" where
  "no_policies = \<lparr>po_retry = None, po_cache = None, po_timeout = None\<rparr>"

definition start_name :: string where "start_name = ''__start__''"

definition end_name :: string where "end_name = ''__end__''"

definition add_field :: "string \<times> field_kind \<Rightarrow> 'p builder \<Rightarrow> 'p builder result" where
  "add_field f b =
     (case f of
        (n, ChannelField c) \<Rightarrow>
          (case dict_get (bd_channels b) n of
             None \<Rightarrow> Inr (b\<lparr>bd_channels := dict_set n c (bd_channels b)\<rparr>)
           | Some c' \<Rightarrow> if spec_equal c' c \<or> c = LastValueSpec then Inr b else Inl ValueError)
      | (n, ManagedField m) \<Rightarrow>
          (case dict_get (bd_managed b) n of
             None \<Rightarrow> Inr (b\<lparr>bd_managed := dict_set n m (bd_managed b)\<rparr>)
           | Some m' \<Rightarrow> if m' = m then Inr b else Inl ValueError))"

definition add_schema :: "(string \<Rightarrow> schema) \<Rightarrow> bool \<Rightarrow> string \<Rightarrow> 'p builder \<Rightarrow> 'p builder result" where
  "add_schema schemas allow_managed s b =
     (if dict_get (bd_schemas b) s \<noteq> None then Inr b
      else and_then (get_channels (schemas s))
        (\<lambda>fs. if \<not> allow_managed \<and> list_ex (\<lambda>(n, k). is_managed_field k) fs then Inl ValueError
              else fold_res add_field fs (b\<lparr>bd_schemas := dict_set s fs (bd_schemas b)\<rparr>)))"

definition new_builder :: "(string \<Rightarrow> schema) \<Rightarrow> string \<Rightarrow> string option \<Rightarrow> string option \<Rightarrow> 'p builder result" where
  "new_builder schemas st inp out =
     (let i = (case inp of Some s \<Rightarrow> s | None \<Rightarrow> st); o' = (case out of Some s \<Rightarrow> s | None \<Rightarrow> st);
          b = \<lparr>bd_nodes = [], bd_edges = [], bd_waiting = [], bd_branches = [], bd_channels = [], bd_managed = [], bd_schemas = [],
               bd_state = st, bd_input = i, bd_output = o', bd_defaults = no_policies, bd_default_handler = False, bd_compiled = False\<rparr>
      in and_then (add_schema schemas True st b) (\<lambda>b1. and_then (add_schema schemas False i b1) (add_schema schemas False o')))"

text \<open>\<open>set_node_defaults\<close>: only what is given is set.\<close>

definition set_default :: "'p option \<Rightarrow> 'p option \<Rightarrow> 'p option" where
  "set_default given old = (case given of None \<Rightarrow> old | Some p \<Rightarrow> Some p)"

definition set_node_defaults :: "'p policies \<Rightarrow> bool \<Rightarrow> 'p builder \<Rightarrow> 'p builder" where
  "set_node_defaults p handler b =
     b\<lparr>bd_defaults := \<lparr>po_retry = set_default (po_retry p) (po_retry (bd_defaults b)), po_cache = set_default (po_cache p) (po_cache (bd_defaults b)),
         po_timeout = set_default (po_timeout p) (po_timeout (bd_defaults b))\<rparr>,
       bd_default_handler := (handler \<or> bd_default_handler b)\<rparr>"

text \<open>A declared node: its input schema, given or inferred, its ends, and whether it has an error handler.\<close>

record 'p node_decl =
  nd_schema :: "string option"
  nd_ends :: "string list"
  nd_defer :: bool
  nd_policies :: "'p policies"
  nd_handler :: bool

definition error_handler_name :: "string \<Rightarrow> string" where
  "error_handler_name n = ''__error_handler__'' @ n"

definition handler_spec :: "string \<Rightarrow> 'p node_spec" where
  "handler_spec s = \<lparr>ns_schema = s, ns_ends = [], ns_defer = False, ns_policies = no_policies, ns_is_handler = True, ns_handler = None\<rparr>"

definition add_node :: "(string \<Rightarrow> schema) \<Rightarrow> string \<Rightarrow> 'p node_decl \<Rightarrow> 'p builder \<Rightarrow> 'p builder result" where
  "add_node schemas n d b =
     (if dict_get (bd_nodes b) n \<noteq> None then Inl ValueError
      else if n \<in> {end_name, start_name} then Inl ValueError
      else if CHR ''|'' \<in> set n \<or> CHR '':'' \<in> set n then Inl ValueError
      else (let s = (case nd_schema d of Some s \<Rightarrow> s | None \<Rightarrow> bd_state b); h = error_handler_name n in
            if nd_handler d \<and> dict_get (bd_nodes b) h \<noteq> None then Inl ValueError
            else (let nodes = (if nd_handler d then dict_set h (handler_spec s) (bd_nodes b) else bd_nodes b);
                      spec = \<lparr>ns_schema = s, ns_ends = nd_ends d, ns_defer = nd_defer d, ns_policies = nd_policies d, ns_is_handler = False,
                              ns_handler = (if nd_handler d then Some h else None)\<rparr>;
                      b' = b\<lparr>bd_nodes := dict_set n spec nodes\<rparr>
                  in case nd_schema d of None \<Rightarrow> Inr b' | Some s' \<Rightarrow> add_schema schemas True s' b')))"

text \<open>Edges form a set: adding one again changes nothing.\<close>

definition add_edge :: "string \<Rightarrow> string \<Rightarrow> 'p builder \<Rightarrow> 'p builder result" where
  "add_edge s e b =
     (if s = end_name then Inl ValueError else if e = start_name then Inl ValueError
      else Inr (b\<lparr>bd_edges := List.insert (s, e) (bd_edges b)\<rparr>))"

definition add_waiting_edge :: "string list \<Rightarrow> string \<Rightarrow> 'p builder \<Rightarrow> 'p builder result" where
  "add_waiting_edge ss e b =
     (if list_ex (\<lambda>s. s = end_name \<or> dict_get (bd_nodes b) s = None) ss then Inl ValueError
      else if e = start_name then Inl ValueError
      else if e \<noteq> end_name \<and> dict_get (bd_nodes b) e = None then Inl ValueError
      else Inr (b\<lparr>bd_waiting := List.insert (ss, e) (bd_waiting b)\<rparr>))"

text \<open>The path map of a branch: a dictionary, a list of names, or what the return type of the path says.\<close>

datatype path_map = MapDict "(string option, string) dict" | MapList "string list" | MapInferred "string list option"

fun ends_of_map :: "path_map \<Rightarrow> (string option, string) dict option" where
  "ends_of_map (MapDict d) = Some d"
| "ends_of_map (MapList ns) = Some (map (\<lambda>n. (Some n, n)) (rev (remdups (rev ns))))"
| "ends_of_map (MapInferred None) = None"
| "ends_of_map (MapInferred (Some ns)) = Some (map (\<lambda>n. (Some n, n)) (rev (remdups (rev ns))))"

definition add_conditional_edges ::
  "(string \<Rightarrow> schema) \<Rightarrow> string \<Rightarrow> string \<Rightarrow> path_map \<Rightarrow> string option \<Rightarrow> 'p builder \<Rightarrow> 'p builder result" where
  "add_conditional_edges schemas source name pm s b =
     (let brs = dict_getd (bd_branches b) source [] in
      if dict_get brs name \<noteq> None then Inl ValueError
      else (let b' = b\<lparr>bd_branches := dict_set source (dict_set name \<lparr>br_ends = ends_of_map pm, br_schema = s\<rparr> brs) (bd_branches b)\<rparr>
            in case s of None \<Rightarrow> Inr b' | Some s' \<Rightarrow> add_schema schemas True s' b'))"

fun add_sequence_from ::
  "(string \<Rightarrow> schema) \<Rightarrow> string option \<Rightarrow> (string \<times> 'p node_decl) list \<Rightarrow> 'p builder \<Rightarrow> 'p builder result" where
  "add_sequence_from schemas prev [] b = Inr b"
| "add_sequence_from schemas prev ((n, d) # ns) b =
     (if dict_get (bd_nodes b) n \<noteq> None then Inl ValueError
      else and_then (add_node schemas n d b)
        (\<lambda>b1. and_then (case prev of None \<Rightarrow> Inr b1 | Some p \<Rightarrow> add_edge p n b1) (add_sequence_from schemas (Some n) ns)))"

definition add_sequence :: "(string \<Rightarrow> schema) \<Rightarrow> (string \<times> 'p node_decl) list \<Rightarrow> 'p builder \<Rightarrow> 'p builder result" where
  "add_sequence schemas ns b = (if ns = [] then Inl ValueError else add_sequence_from schemas None ns b)"

definition set_entry_point :: "string \<Rightarrow> 'p builder \<Rightarrow> 'p builder result" where
  "set_entry_point n = add_edge start_name n"

definition set_finish_point :: "string \<Rightarrow> 'p builder \<Rightarrow> 'p builder result" where
  "set_finish_point n = add_edge n end_name"

section \<open>Validation\<close>

definition all_edges :: "'p builder \<Rightarrow> (string \<times> string) list" where
  "all_edges b = bd_edges b @ concat (map (\<lambda>(ss, e). map (\<lambda>s. (s, e)) ss) (bd_waiting b))"

definition all_sources :: "'p builder \<Rightarrow> string list" where
  "all_sources b = map fst (all_edges b) @ map fst (bd_branches b) @ map fst (filter (\<lambda>(n, s). ns_ends s \<noteq> []) (bd_nodes b))"

definition known_target :: "'p builder \<Rightarrow> string \<Rightarrow> bool" where
  "known_target b e \<longleftrightarrow> dict_get (bd_nodes b) e \<noteq> None \<or> e = end_name"

definition branch_targets_known :: "'p builder \<Rightarrow> bool" where
  "branch_targets_known b \<longleftrightarrow>
     list_all (\<lambda>(s, brs). list_all (\<lambda>(n, br). case br_ends br of None \<Rightarrow> True | Some d \<Rightarrow> list_all (\<lambda>(l, e). known_target b e) d) brs) (bd_branches b)"

definition validate_builder :: "string list \<Rightarrow> 'p builder \<Rightarrow> 'p builder result" where
  "validate_builder stops b =
     (if list_ex (\<lambda>s. dict_get (bd_nodes b) s = None \<and> s \<noteq> start_name) (all_sources b) then Inl ValueError
      else if start_name \<notin> set (all_sources b) then Inl ValueError
      else if \<not> branch_targets_known b then Inl ValueError
      else if list_ex (\<lambda>e. \<not> known_target b e) (map snd (all_edges b) @ concat (map (\<lambda>(n, s). ns_ends s) (bd_nodes b))) then Inl ValueError
      else if list_ex (\<lambda>n. dict_get (bd_nodes b) n = None) stops then Inl ValueError
      else Inr (b\<lparr>bd_compiled := True\<rparr>))"

section \<open>Compilation\<close>

text \<open>The channels of a compiled graph: those of the state, managed values, the input, the pushed tasks, one per node,
  one per join.\<close>

datatype channel_kind =
    StateChannel chan_spec
  | ManagedChannel string
  | InputChannel
  | TaskChannel
  | BranchChannel bool
  | JoinChannel bool "string list"

datatype node_reads = ReadOne string | ReadMany "string list"

text \<open>The writers of a node: its update (of the root value, or of the keys), the targets of the commands it
  returns, an edge, a join, a branch.\<close>

datatype node_writer =
    WriteUpdates bool "string list"
  | WriteControl
  | WriteEdge string
  | WriteJoin string string
  | WriteBranch string branch_spec

record 'p compiled_node =
  cn_triggers :: "string list"
  cn_reads :: node_reads
  cn_writers :: "node_writer list"
  cn_policies :: "'p policies"
  cn_is_handler :: bool
  cn_handler :: "string option"

record 'p compiled_graph =
  cg_nodes :: "(string, 'p compiled_node) dict"
  cg_channels :: "(string, channel_kind) dict"
  cg_output :: node_reads
  cg_stream :: node_reads
  cg_before :: interrupt_nodes
  cg_after :: interrupt_nodes
  cg_handlers :: "(string, string) dict"

definition branch_to :: "string \<Rightarrow> string" where
  "branch_to n = ''branch:to:'' @ n"

definition join_name :: "string list \<Rightarrow> string \<Rightarrow> string" where
  "join_name ss e = ''join:'' @ join ''+'' ss @ '':'' @ e"

definition default_handler_name :: string where
  "default_handler_name = ''__default_error_handler__''"

text \<open>The defaults of the builder on one node: its own policies go first; a handler has no cache and no handler.\<close>

definition or_default :: "'p option \<Rightarrow> 'p option \<Rightarrow> 'p option" where
  "or_default own given = (case own of None \<Rightarrow> given | Some p \<Rightarrow> Some p)"

definition apply_defaults :: "'p policies \<Rightarrow> bool \<Rightarrow> 'p node_spec \<Rightarrow> 'p node_spec" where
  "apply_defaults d handler s =
     s\<lparr>ns_handler := (if \<not> ns_is_handler s \<and> handler \<and> ns_handler s = None then Some default_handler_name else ns_handler s),
       ns_policies := \<lparr>po_retry = or_default (po_retry (ns_policies s)) (po_retry d),
          po_cache = (if ns_is_handler s then po_cache (ns_policies s) else or_default (po_cache (ns_policies s)) (po_cache d)),
          po_timeout = or_default (po_timeout (ns_policies s)) (po_timeout d)\<rparr>\<rparr>"

definition with_defaults :: "'p builder \<Rightarrow> 'p builder result" where
  "with_defaults b =
     (if bd_default_handler b \<and> dict_get (bd_nodes b) default_handler_name \<noteq> None then Inl ValueError
      else (let nodes = (if bd_default_handler b then dict_set default_handler_name (handler_spec (bd_state b)) (bd_nodes b) else bd_nodes b)
            in Inr (b\<lparr>bd_nodes := map (\<lambda>(n, s). (n, apply_defaults (bd_defaults b) (bd_default_handler b) s)) nodes\<rparr>)))"

definition selection :: "string list \<Rightarrow> node_reads" where
  "selection ks = (if ks = [''__root__''] then ReadOne ''__root__'' else ReadMany ks)"

definition schema_fields :: "'p builder \<Rightarrow> string \<Rightarrow> (string, field_kind) dict" where
  "schema_fields b s = dict_getd (bd_schemas b) s []"

text \<open>\<open>attach_node\<close>.\<close>

definition start_node :: "'p builder \<Rightarrow> 'p compiled_node" where
  "start_node b =
     (let ks = map fst (filter (\<lambda>(n, k). \<not> is_managed_field k) (schema_fields b (bd_input b)))
      in \<lparr>cn_triggers = [start_name], cn_reads = ReadOne start_name, cn_writers = [WriteUpdates (ks = [''__root__'']) ks, WriteControl],
          cn_policies = no_policies, cn_is_handler = False, cn_handler = None\<rparr>)"

definition attached_node :: "'p builder \<Rightarrow> string \<Rightarrow> 'p node_spec \<Rightarrow> 'p compiled_node" where
  "attached_node b n s =
     (let ks = map fst (bd_channels b) @ map fst (bd_managed b)
      in \<lparr>cn_triggers = [branch_to n], cn_reads = selection (map fst (schema_fields b (ns_schema s))),
          cn_writers = [WriteUpdates (ks = [''__root__'']) ks, WriteControl], cn_policies = ns_policies s,
          cn_is_handler = ns_is_handler s, cn_handler = ns_handler s\<rparr>)"

definition add_writer :: "string \<Rightarrow> node_writer \<Rightarrow> 'p compiled_graph \<Rightarrow> 'p compiled_graph result" where
  "add_writer n w g =
     (case dict_get (cg_nodes g) n of
        None \<Rightarrow> Inl KeyError
      | Some c \<Rightarrow> Inr (g\<lparr>cg_nodes := dict_set n (c\<lparr>cn_writers := cn_writers c @ [w]\<rparr>) (cg_nodes g)\<rparr>))"

definition attach_edge :: "string \<times> string \<Rightarrow> 'p compiled_graph \<Rightarrow> 'p compiled_graph result" where
  "attach_edge p g = (if snd p = end_name then Inr g else add_writer (fst p) (WriteEdge (snd p)) g)"

definition attach_join :: "'p builder \<Rightarrow> string list \<times> string \<Rightarrow> 'p compiled_graph \<Rightarrow> 'p compiled_graph result" where
  "attach_join b p g =
     (let (ss, e) = p; c = join_name ss e in
      if e = end_name then Inr g
      else (case (dict_get (bd_nodes b) e, dict_get (cg_nodes g) e) of
              (Some spec, Some cn) \<Rightarrow>
                fold_res (\<lambda>s. add_writer s (WriteJoin c s)) ss
                  (g\<lparr>cg_channels := dict_set c (JoinChannel (ns_defer spec) ss) (cg_channels g),
                     cg_nodes := dict_set e (cn\<lparr>cn_triggers := cn_triggers cn @ [c]\<rparr>) (cg_nodes g)\<rparr>)
            | _ \<Rightarrow> Inl KeyError))"

definition attach_branch :: "string \<Rightarrow> string \<times> branch_spec \<Rightarrow> 'p compiled_graph \<Rightarrow> 'p compiled_graph result" where
  "attach_branch s br g = add_writer s (WriteBranch (fst br) (snd br)) g"

text \<open>\<open>validate_graph\<close> on the compiled graph.\<close>

definition is_managed_channel :: "channel_kind \<Rightarrow> bool" where
  "is_managed_channel k \<longleftrightarrow> (case k of ManagedChannel m \<Rightarrow> True | _ \<Rightarrow> False)"

definition base_channels :: "'p compiled_graph \<Rightarrow> string list" where
  "base_channels g = map fst (filter (\<lambda>(n, k). \<not> is_managed_channel k) (cg_channels g))"

fun reads_known :: "string list \<Rightarrow> string list \<Rightarrow> node_reads \<Rightarrow> bool" where
  "reads_known base all (ReadOne c) = (c \<in> set base)"
| "reads_known base all (ReadMany cs) = list_all (\<lambda>c. c \<in> set all) cs"

definition stops_known :: "'p compiled_graph \<Rightarrow> interrupt_nodes \<Rightarrow> bool" where
  "stops_known g i = (case i of AllNodes \<Rightarrow> True | SomeNodes ns \<Rightarrow> list_all (\<lambda>n. dict_get (cg_nodes g) n \<noteq> None) ns)"

definition validate_graph :: "'p compiled_graph \<Rightarrow> 'p compiled_graph result" where
  "validate_graph g =
     (let base = base_channels g; triggers = concat (map (\<lambda>(n, c). cn_triggers c) (cg_nodes g)) in
      if list_ex (\<lambda>(n, k). n \<in> set reserved) (cg_channels g) then Inl ValueError
      else if list_ex (\<lambda>(n, c). n \<in> set reserved \<or> \<not> reads_known base (map fst (cg_channels g)) (cn_reads c)) (cg_nodes g) then Inl ValueError
      else if list_ex (\<lambda>c. c \<notin> set base) triggers then Inl ValueError
      else if start_name \<notin> set base \<or> start_name \<notin> set triggers then Inl ValueError
      else if \<not> reads_known base base (cg_output g) \<or> \<not> reads_known base base (cg_stream g) then Inl ValueError
      else if \<not> stops_known g (cg_after g) \<or> \<not> stops_known g (cg_before g) then Inl ValueError
      else Inr g)"

text \<open>The interrupts \<open>compile\<close> has validated: none when all nodes interrupt afterwards.\<close>

definition validated_stops :: "interrupt_nodes \<Rightarrow> interrupt_nodes \<Rightarrow> string list" where
  "validated_stops before after =
     (case after of AllNodes \<Rightarrow> [] | SomeNodes as \<Rightarrow> (case before of AllNodes \<Rightarrow> [] | SomeNodes bs \<Rightarrow> bs) @ as)"

definition tasks_key :: string where "tasks_key = ''__pregel_tasks''"

text \<open>The channel of pushed tasks: the state may only declare it as a topic.\<close>

definition tasks_channel_free :: "'p builder \<Rightarrow> 'p builder result" where
  "tasks_channel_free b =
     (if dict_get (bd_managed b) tasks_key \<noteq> None \<or> dict_get (bd_channels b) tasks_key \<notin> {None, Some (OtherSpec ''Topic'')}
      then Inl ValueError else Inr b)"

definition attached_graph :: "interrupt_nodes \<Rightarrow> interrupt_nodes \<Rightarrow> 'p builder \<Rightarrow> 'p compiled_graph" where
  "attached_graph before after b =
     \<lparr>cg_nodes = (start_name, start_node b) # map (\<lambda>(n, s). (n, attached_node b n s)) (bd_nodes b),
      cg_channels = fold (\<lambda>(n, s). dict_set (branch_to n) (BranchChannel (ns_defer s))) (bd_nodes b)
         (dict_set tasks_key TaskChannel (dict_set start_name InputChannel
            (fold (\<lambda>(n, m). dict_set n (ManagedChannel m)) (bd_managed b)
               (fold (\<lambda>(n, c). dict_set n (StateChannel c)) (bd_channels b) [])))),
      cg_output = (let fs = schema_fields b (bd_output b)
                   in if map fst fs = [''__root__''] then ReadOne ''__root__'' else ReadMany (map fst (filter (\<lambda>(n, k). \<not> is_managed_field k) fs))),
      cg_stream = selection (map fst (bd_channels b)),
      cg_before = before, cg_after = after,
      cg_handlers = concat (map (\<lambda>(n, s). case ns_handler s of Some h \<Rightarrow> if ns_is_handler s then [] else [(n, h)] | None \<Rightarrow> []) (bd_nodes b))\<rparr>"

definition compile_graph :: "interrupt_nodes \<Rightarrow> interrupt_nodes \<Rightarrow> 'p builder \<Rightarrow> 'p compiled_graph result" where
  "compile_graph before after b0 =
     and_then (validate_builder (validated_stops before after) b0)
       (\<lambda>b1. and_then (and_then (with_defaults b1) tasks_channel_free)
          (\<lambda>b. and_then (fold_res attach_edge (bd_edges b) (attached_graph before after b))
             (\<lambda>g1. and_then (fold_res (attach_join b) (bd_waiting b) g1)
                (\<lambda>g2. and_then (fold_res (\<lambda>(s, brs). fold_res (attach_branch s) brs) (bd_branches b) g2) validate_graph))))"

section \<open>What the writers write\<close>

text \<open>An object with annotated keys: its attributes, and the keys of a pydantic model that were not set and
  whose default is None.\<close>

record typed_value =
  tv_attrs :: "(string, cval) dict"
  tv_unset :: "string list"

datatype goto_dest = GoNode string | GoSend string pyval | GoOther

datatype update_form =
    UpdateNone
  | UpdateItems "(string \<times> cval) list"
  | UpdateTyped "string list" typed_value
  | UpdateRoot cval

record node_command =
  nc_parent :: bool
  nc_goto :: "goto_dest list"
  nc_update :: update_form

datatype node_value =
    NoValue
  | DictValue "(string \<times> cval) list"
  | CommandValue node_command
  | SendValue string pyval
  | ListValue "node_value list"
  | TypedValue typed_value
  | OtherValue cval

datatype graph_write = ToChannel string cval | ToTask string pyval

datatype write_stop = ToParent node_command | WriteError py_exc

definition typed_tuples :: "string list \<Rightarrow> typed_value \<Rightarrow> (string \<times> cval) list" where
  "typed_tuples ks t =
     concat (map (\<lambda>k. case dict_get (tv_attrs t) k of
                         None \<Rightarrow> []
                       | Some v \<Rightarrow> if v = Plain PNone \<and> k \<in> set (tv_unset t) then [] else [(k, v)]) ks)"

definition update_tuples :: "node_command \<Rightarrow> (string \<times> cval) list" where
  "update_tuples c =
     (case nc_update c of
        UpdateNone \<Rightarrow> []
      | UpdateItems kvs \<Rightarrow> kvs
      | UpdateTyped ks t \<Rightarrow> typed_tuples ks t
      | UpdateRoot v \<Rightarrow> [(''__root__'', v)])"

fun is_command_value :: "node_value \<Rightarrow> bool" where
  "is_command_value (CommandValue c) = True"
| "is_command_value _ = False"

definition keep_keys :: "string list \<Rightarrow> (string \<times> cval) list \<Rightarrow> (string \<times> cval) list" where
  "keep_keys ks kvs = filter (\<lambda>(k, v). k \<in> set ks) kvs"

text \<open>\<open>_get_updates\<close>. A Send is an object with the annotated keys of its class.\<close>

fun get_updates :: "string list \<Rightarrow> node_value \<Rightarrow> (string \<times> cval) list result"
  and get_updates_all :: "string list \<Rightarrow> node_value list \<Rightarrow> (string \<times> cval) list result" where
  "get_updates ks NoValue = Inr []"
| "get_updates ks (DictValue kvs) = Inr (keep_keys ks kvs)"
| "get_updates ks (CommandValue c) = Inr (if nc_parent c then [] else keep_keys ks (update_tuples c))"
| "get_updates ks (SendValue n a) =
     Inr (typed_tuples ks \<lparr>tv_attrs = [(''node'', Plain (PStr n)), (''arg'', Plain a), (''timeout'', Plain PNone)], tv_unset = []\<rparr>)"
| "get_updates ks (ListValue xs) = (if list_ex is_command_value xs then get_updates_all ks xs else Inl InvalidUpdateError)"
| "get_updates ks (TypedValue t) = Inr (typed_tuples ks t)"
| "get_updates ks (OtherValue v) = Inl InvalidUpdateError"
| "get_updates_all ks [] = Inr []"
| "get_updates_all ks (x # xs) =
     (case get_updates ks x of
        Inl e \<Rightarrow> Inl e
      | Inr u \<Rightarrow> (case get_updates_all ks xs of Inl e \<Rightarrow> Inl e | Inr us \<Rightarrow> Inr (u @ us)))"

text \<open>\<open>_get_root\<close>; \<open>val\<close> is a returned value as the value of a channel.\<close>

definition root_item :: "(node_value \<Rightarrow> cval) \<Rightarrow> node_value \<Rightarrow> (string \<times> cval) list" where
  "root_item val x =
     (case x of CommandValue c \<Rightarrow> (if nc_parent c then [] else update_tuples c) | _ \<Rightarrow> [(''__root__'', val x)])"

definition get_root :: "(node_value \<Rightarrow> cval) \<Rightarrow> node_value \<Rightarrow> (string \<times> cval) list" where
  "get_root val v =
     (case v of
        NoValue \<Rightarrow> []
      | ListValue xs \<Rightarrow> if list_ex is_command_value xs then concat (map (root_item val) xs) else [(''__root__'', val v)]
      | _ \<Rightarrow> root_item val v)"

fun goto_write :: "goto_dest \<Rightarrow> graph_write list" where
  "goto_write (GoNode n) = (if n = end_name then [] else [ToChannel (branch_to n) (Plain PNone)])"
| "goto_write (GoSend n a) = [ToTask n a]"
| "goto_write GoOther = []"

definition commands_of :: "node_value \<Rightarrow> node_command list" where
  "commands_of v =
     (case v of
        CommandValue c \<Rightarrow> [c]
      | ListValue xs \<Rightarrow> concat (map (\<lambda>x. case x of CommandValue c \<Rightarrow> [c] | _ \<Rightarrow> []) xs)
      | _ \<Rightarrow> [])"

definition control_branch :: "node_value \<Rightarrow> write_stop + graph_write list" where
  "control_branch v =
     (case v of
        SendValue n a \<Rightarrow> Inr [ToTask n a]
      | _ \<Rightarrow> (case find nc_parent (commands_of v) of
                Some c \<Rightarrow> Inl (ToParent c)
              | None \<Rightarrow> Inr (concat (map (\<lambda>c. concat (map goto_write (nc_goto c))) (commands_of v)))))"

text \<open>What a path returns, and the writes \<open>_finish\<close> makes of it.\<close>

datatype route_dest = RouteTo "string option" | RouteSend string pyval

fun destination :: "(string option, string) dict option \<Rightarrow> route_dest \<Rightarrow> route_dest result" where
  "destination ends (RouteSend n a) = Inr (RouteSend n a)"
| "destination ends (RouteTo l) =
     (case ends of
        Some (e # es) \<Rightarrow> (case dict_get (e # es) l of None \<Rightarrow> Inl KeyError | Some n \<Rightarrow> Inr (RouteTo (Some n)))
      | _ \<Rightarrow> Inr (RouteTo l))"

fun destinations :: "(string option, string) dict option \<Rightarrow> route_dest list \<Rightarrow> route_dest list result" where
  "destinations ends [] = Inr []"
| "destinations ends (r # rs) = and_then (destination ends r) (\<lambda>d. and_then (destinations ends rs) (\<lambda>ds. Inr (d # ds)))"

fun route_write :: "route_dest \<Rightarrow> graph_write list" where
  "route_write (RouteTo None) = []"
| "route_write (RouteTo (Some n)) = (if n = end_name then [] else [ToChannel (branch_to n) (Plain PNone)])"
| "route_write (RouteSend n a) = [ToTask n a]"

definition branch_finish :: "branch_spec \<Rightarrow> route_dest list \<Rightarrow> graph_write list result" where
  "branch_finish br rs =
     and_then (destinations (br_ends br) rs)
       (\<lambda>ds. if RouteTo None \<in> set ds \<or> RouteTo (Some start_name) \<in> set ds then Inl ValueError
             else if list_ex (\<lambda>d. case d of RouteSend n a \<Rightarrow> n = end_name | _ \<Rightarrow> False) ds then Inl InvalidUpdateError
             else Inr (concat (map route_write ds)))"

text \<open>One writer on a returned value; \<open>route\<close> gives what the path of a branch returns.\<close>

definition as_write_error :: "'a result \<Rightarrow> write_stop + 'a" where
  "as_write_error r = map_sum WriteError id r"

definition run_writer ::
  "(node_value \<Rightarrow> cval) \<Rightarrow> (string \<Rightarrow> route_dest list result) \<Rightarrow> node_value \<Rightarrow> node_writer \<Rightarrow> write_stop + graph_write list" where
  "run_writer val route v w =
     (case w of
        WriteUpdates True ks \<Rightarrow> Inr (map (\<lambda>(k, x). ToChannel k x) (get_root val v))
      | WriteUpdates False ks \<Rightarrow> map_sum WriteError (map (\<lambda>(k, x). ToChannel k x)) (get_updates ks v)
      | WriteControl \<Rightarrow> control_branch v
      | WriteEdge e \<Rightarrow> Inr [ToChannel (branch_to e) (Plain PNone)]
      | WriteJoin c s \<Rightarrow> Inr [ToChannel c (Plain (PStr s))]
      | WriteBranch n br \<Rightarrow> as_write_error (and_then (route n) (branch_finish br)))"

fun run_writers ::
  "(node_value \<Rightarrow> cval) \<Rightarrow> (string \<Rightarrow> route_dest list result) \<Rightarrow> node_value \<Rightarrow> node_writer list \<Rightarrow> write_stop + graph_write list" where
  "run_writers val route v [] = Inr []"
| "run_writers val route v (w # ws) =
     (case run_writer val route v w of
        Inl e \<Rightarrow> Inl e
      | Inr us \<Rightarrow> map_sum id (\<lambda>rest. us @ rest) (run_writers val route v ws))"

section \<open>The compiled nodes\<close>

definition writers_of :: "'p compiled_graph \<Rightarrow> string \<Rightarrow> node_writer list" where
  "writers_of g n = (case dict_get (cg_nodes g) n of None \<Rightarrow> [] | Some c \<Rightarrow> cn_writers c)"

definition triggers_of :: "'p compiled_graph \<Rightarrow> string \<Rightarrow> string list" where
  "triggers_of g n = (case dict_get (cg_nodes g) n of None \<Rightarrow> [] | Some c \<Rightarrow> cn_triggers c)"

definition has_node :: "'p compiled_graph \<Rightarrow> string \<Rightarrow> bool" where
  "has_node g n \<longleftrightarrow> dict_get (cg_nodes g) n \<noteq> None"

lemma add_writer_effect:
  assumes "add_writer n w g = Inr g'"
  shows "writers_of g' m = writers_of g m @ (if m = n then [w] else []) \<and> triggers_of g' = triggers_of g \<and> has_node g' = has_node g \<and>
    cg_channels g' = cg_channels g \<and> has_node g n"
proof -
  from assms obtain c where c: "dict_get (cg_nodes g) n = Some c"
    and g': "g' = g\<lparr>cg_nodes := dict_set n (c\<lparr>cn_writers := cn_writers c @ [w]\<rparr>) (cg_nodes g)\<rparr>"
    by (auto simp: add_writer_def split: option.splits)
  have "writers_of g' m = writers_of g m @ (if m = n then [w] else [])" by (simp add: writers_of_def g' c)
  moreover have "triggers_of g' = triggers_of g" by (rule ext) (simp add: triggers_of_def g' c)
  moreover have "has_node g' = has_node g" by (rule ext) (simp add: has_node_def g' c)
  ultimately show ?thesis using c by (simp add: g' has_node_def)
qed

definition edge_writers :: "string \<Rightarrow> (string \<times> string) list \<Rightarrow> node_writer list" where
  "edge_writers n es = concat (map (\<lambda>(s, e). if s = n \<and> e \<noteq> end_name then [WriteEdge e] else []) es)"

lemma attach_edges_effect:
  "fold_res attach_edge es g = Inr g' \<Longrightarrow>
   writers_of g' n = writers_of g n @ edge_writers n es \<and> triggers_of g' = triggers_of g \<and> has_node g' = has_node g \<and> cg_channels g' = cg_channels g"
proof (induction es arbitrary: g)
  case (Cons p es)
  obtain s e where p: "p = (s, e)" by (cases p)
  from Cons.prems obtain g1 where g1: "attach_edge p g = Inr g1" "fold_res attach_edge es g1 = Inr g'" by auto
  show ?case
  proof (cases "e = end_name")
    case True
    with g1(1) p have "g1 = g" by (simp add: attach_edge_def)
    with Cons.IH [OF g1(2)] True show ?thesis by (simp add: p edge_writers_def)
  next
    case False
    with g1(1) p have "add_writer s (WriteEdge e) g = Inr g1" by (simp add: attach_edge_def)
    from add_writer_effect [OF this, of n] Cons.IH [OF g1(2)] False show ?thesis by (auto simp: p edge_writers_def)
  qed
qed (simp add: edge_writers_def)

lemma add_join_writers_effect:
  "fold_res (\<lambda>s. add_writer s (WriteJoin c s)) ss g = Inr g' \<Longrightarrow>
   writers_of g' n = writers_of g n @ map (WriteJoin c) (filter (\<lambda>s. s = n) ss) \<and> triggers_of g' = triggers_of g \<and> has_node g' = has_node g \<and>
   cg_channels g' = cg_channels g"
proof (induction ss arbitrary: g)
  case (Cons s ss)
  from Cons.prems obtain g1 where g1: "add_writer s (WriteJoin c s) g = Inr g1" "fold_res (\<lambda>s. add_writer s (WriteJoin c s)) ss g1 = Inr g'" by auto
  from add_writer_effect [OF g1(1), of n] Cons.IH [OF g1(2)] show ?case by auto
qed simp

definition join_writers :: "string \<Rightarrow> (string list \<times> string) list \<Rightarrow> node_writer list" where
  "join_writers n js =
     concat (map (\<lambda>(ss, e). if e = end_name then [] else map (WriteJoin (join_name ss e)) (filter (\<lambda>s. s = n) ss)) js)"

definition join_triggers :: "string \<Rightarrow> (string list \<times> string) list \<Rightarrow> string list" where
  "join_triggers n js = concat (map (\<lambda>(ss, e). if e = n \<and> e \<noteq> end_name then [join_name ss e] else []) js)"

definition join_channels :: "'p builder \<Rightarrow> (string list \<times> string) list \<Rightarrow> (string, channel_kind) dict \<Rightarrow> (string, channel_kind) dict" where
  "join_channels b js d =
     fold (\<lambda>(ss, e) d. if e = end_name then d
             else dict_set (join_name ss e) (JoinChannel (case dict_get (bd_nodes b) e of Some s \<Rightarrow> ns_defer s | None \<Rightarrow> False) ss) d) js d"

lemma attach_joins_effect:
  "fold_res (attach_join b) js g = Inr g' \<Longrightarrow>
   writers_of g' n = writers_of g n @ join_writers n js \<and> triggers_of g' n = triggers_of g n @ join_triggers n js \<and> has_node g' = has_node g \<and>
   cg_channels g' = join_channels b js (cg_channels g)"
proof (induction js arbitrary: g)
  case (Cons p js)
  obtain ss e where p: "p = (ss, e)" by (cases p)
  from Cons.prems obtain g1 where g1: "attach_join b p g = Inr g1" "fold_res (attach_join b) js g1 = Inr g'" by auto
  show ?case
  proof (cases "e = end_name")
    case True
    with g1(1) p have "g1 = g" by (simp add: attach_join_def)
    with Cons.IH [OF g1(2)] True show ?thesis by (simp add: p join_writers_def join_triggers_def join_channels_def)
  next
    case False
    let ?c = "join_name ss e"
    from g1(1) p False obtain spec cn where nodes: "dict_get (bd_nodes b) e = Some spec" "dict_get (cg_nodes g) e = Some cn"
      and joined: "fold_res (\<lambda>s. add_writer s (WriteJoin ?c s)) ss
        (g\<lparr>cg_channels := dict_set ?c (JoinChannel (ns_defer spec) ss) (cg_channels g),
           cg_nodes := dict_set e (cn\<lparr>cn_triggers := cn_triggers cn @ [?c]\<rparr>) (cg_nodes g)\<rparr>) = Inr g1"
      by (auto simp: attach_join_def Let_def split: option.splits)
    let ?g0 = "g\<lparr>cg_channels := dict_set ?c (JoinChannel (ns_defer spec) ss) (cg_channels g),
           cg_nodes := dict_set e (cn\<lparr>cn_triggers := cn_triggers cn @ [?c]\<rparr>) (cg_nodes g)\<rparr>"
    have base: "writers_of ?g0 n = writers_of g n" "triggers_of ?g0 n = triggers_of g n @ (if n = e then [?c] else [])" "has_node ?g0 = has_node g"
      using nodes(2) by (auto simp: writers_of_def triggers_of_def has_node_def fun_eq_iff)
    from add_join_writers_effect [OF joined, of n] base have
      one: "writers_of g1 n = writers_of g n @ map (WriteJoin ?c) (filter (\<lambda>s. s = n) ss)" "has_node g1 = has_node g"
      "triggers_of g1 n = triggers_of g n @ (if n = e then [?c] else [])"
      "cg_channels g1 = dict_set ?c (JoinChannel (ns_defer spec) ss) (cg_channels g)" by simp_all
    from Cons.IH [OF g1(2)] one False nodes(1) show ?thesis
      by (auto simp: p join_writers_def join_triggers_def join_channels_def)
  qed
qed (simp add: join_writers_def join_triggers_def join_channels_def)

definition branch_writers :: "string \<Rightarrow> (string, (string, branch_spec) dict) dict \<Rightarrow> node_writer list" where
  "branch_writers n brss = concat (map (\<lambda>(s, brs). if s = n then map (\<lambda>(m, br). WriteBranch m br) brs else []) brss)"

lemma attach_branches_of_effect:
  "fold_res (attach_branch s) brs g = Inr g' \<Longrightarrow>
   writers_of g' n = writers_of g n @ (if s = n then map (\<lambda>(m, br). WriteBranch m br) brs else []) \<and> triggers_of g' = triggers_of g \<and>
   has_node g' = has_node g \<and> cg_channels g' = cg_channels g"
proof (induction brs arbitrary: g)
  case (Cons br brs)
  from Cons.prems obtain g1 where g1: "attach_branch s br g = Inr g1" "fold_res (attach_branch s) brs g1 = Inr g'"
    by auto
  from add_writer_effect [OF g1(1) [unfolded attach_branch_def], of n] Cons.IH [OF g1(2)] show ?case by (auto simp: case_prod_unfold)
qed simp

lemma attach_branches_effect:
  "fold_res (\<lambda>(s, brs). fold_res (attach_branch s) brs) brss g = Inr g' \<Longrightarrow>
   writers_of g' n = writers_of g n @ branch_writers n brss \<and> triggers_of g' = triggers_of g \<and> has_node g' = has_node g \<and> cg_channels g' = cg_channels g"
proof (induction brss arbitrary: g)
  case (Cons p brss)
  obtain s brs where p: "p = (s, brs)" by (cases p)
  from Cons.prems obtain g1 where g1: "fold_res (attach_branch s) brs g = Inr g1"
    "fold_res (\<lambda>(s, brs). fold_res (attach_branch s) brs) brss g1 = Inr g'" by (auto simp: p)
  from attach_branches_of_effect [OF g1(1), of n] Cons.IH [OF g1(2)] show ?case by (auto simp: p branch_writers_def)
qed (simp add: branch_writers_def)

text \<open>The nodes of a compiled graph: the start node and those of the builder, with their writers in order.\<close>

definition initial_writers :: "'p builder \<Rightarrow> string \<Rightarrow> node_writer list" where
  "initial_writers b n =
     (let ks = (if n = start_name then map fst (filter (\<lambda>(n, k). \<not> is_managed_field k) (schema_fields b (bd_input b)))
                else map fst (bd_channels b) @ map fst (bd_managed b))
      in [WriteUpdates (ks = [''__root__'']) ks, WriteControl])"

lemma attached_graph_nodes:
  assumes "dict_get (bd_nodes b) start_name = None"
  shows "has_node (attached_graph before after b) n \<longleftrightarrow> n = start_name \<or> dict_get (bd_nodes b) n \<noteq> None"
    and "has_node (attached_graph before after b) n \<Longrightarrow> writers_of (attached_graph before after b) n = initial_writers b n"
    and "has_node (attached_graph before after b) n \<Longrightarrow> triggers_of (attached_graph before after b) n = [if n = start_name then start_name else branch_to n]"
proof -
  have get: "dict_get (map (\<lambda>(n, s). (n, attached_node b n s)) nodes) n = map_option (attached_node b n) (dict_get nodes n)" for nodes
    by (induction nodes) auto
  have nodes: "dict_get (cg_nodes (attached_graph before after b)) n =
      (if n = start_name then Some (start_node b) else map_option (attached_node b n) (dict_get (bd_nodes b) n))"
    by (simp add: attached_graph_def get)
  show "has_node (attached_graph before after b) n \<longleftrightarrow> n = start_name \<or> dict_get (bd_nodes b) n \<noteq> None"
    by (simp add: has_node_def nodes)
  show "has_node (attached_graph before after b) n \<Longrightarrow> writers_of (attached_graph before after b) n = initial_writers b n"
    unfolding has_node_def writers_of_def nodes
    by (cases "dict_get (bd_nodes b) n") (simp_all add: initial_writers_def start_node_def attached_node_def Let_def split: if_splits)
  show "has_node (attached_graph before after b) n \<Longrightarrow> triggers_of (attached_graph before after b) n = [if n = start_name then start_name else branch_to n]"
    unfolding has_node_def triggers_of_def nodes
    by (cases "dict_get (bd_nodes b) n") (simp_all add: start_node_def attached_node_def Let_def split: if_splits)
qed

lemma dict_get_map_val: "dict_get (map (\<lambda>(n, s). (n, f s)) d) n = map_option f (dict_get d n)"
  by (induction d) auto

lemma with_defaults_keeps:
  assumes "with_defaults b0 = Inr b"
  shows "bd_edges b = bd_edges b0 \<and> bd_waiting b = bd_waiting b0 \<and> bd_branches b = bd_branches b0 \<and> bd_channels b = bd_channels b0 \<and>
    bd_managed b = bd_managed b0 \<and> bd_schemas b = bd_schemas b0 \<and> bd_input b = bd_input b0 \<and>
    (dict_get (bd_nodes b) n \<noteq> None \<longleftrightarrow> dict_get (bd_nodes b0) n \<noteq> None \<or> (bd_default_handler b0 \<and> n = default_handler_name))"
  using assms by (auto simp: with_defaults_def Let_def dict_get_map_val split: if_splits)

lemma compiled_graph_parts:
  assumes "compile_graph before after b0 = Inr g" and "dict_get (bd_nodes b0) start_name = None"
  obtains b where "with_defaults (b0\<lparr>bd_compiled := True\<rparr>) = Inr b" and "validate_builder (validated_stops before after) b0 = Inr (b0\<lparr>bd_compiled := True\<rparr>)"
    and "\<And>n. has_node g n \<longleftrightarrow> n = start_name \<or> dict_get (bd_nodes b) n \<noteq> None"
    and "\<And>n. has_node g n \<Longrightarrow> writers_of g n = initial_writers b n @ edge_writers n (bd_edges b0) @ join_writers n (bd_waiting b0) @
        branch_writers n (bd_branches b0)"
    and "\<And>n. has_node g n \<Longrightarrow> triggers_of g n = (if n = start_name then start_name else branch_to n) # join_triggers n (bd_waiting b0)"
    and "cg_channels g = join_channels b (bd_waiting b0) (cg_channels (attached_graph before after b))"
proof -
  from assms(1) obtain b1 b g1 g2 g3 where v: "validate_builder (validated_stops before after) b0 = Inr b1" and d: "with_defaults b1 = Inr b"
    and e: "fold_res attach_edge (bd_edges b) (attached_graph before after b) = Inr g1"
    and j: "fold_res (attach_join b) (bd_waiting b) g1 = Inr g2"
    and r: "fold_res (\<lambda>(s, brs). fold_res (attach_branch s) brs) (bd_branches b) g2 = Inr g3" and "validate_graph g3 = Inr g"
    by (auto simp: compile_graph_def tasks_channel_free_def split: if_splits)
  then have g: "g3 = g" by (auto simp: validate_graph_def Let_def split: if_splits)
  from v have b1: "b1 = b0\<lparr>bd_compiled := True\<rparr>" by (auto simp: validate_builder_def split: if_splits)
  note keeps = with_defaults_keeps [OF d]
  have same: "bd_edges b = bd_edges b0" "bd_waiting b = bd_waiting b0" "bd_branches b = bd_branches b0" using keeps by (simp_all add: b1)
  have "start_name \<noteq> default_handler_name" by (simp add: start_name_def default_handler_name_def)
  with keeps [of start_name] assms(2) have no_start: "dict_get (bd_nodes b) start_name = None" by (auto simp: b1)
  note base = attached_graph_nodes [OF no_start, of before after]
  note E = attach_edges_effect [OF e] and J = attach_joins_effect [OF j] and R = attach_branches_effect [OF r, unfolded g]
  have nodes: "has_node g n \<longleftrightarrow> n = start_name \<or> dict_get (bd_nodes b) n \<noteq> None" for n using E J R base(1) by simp
  show ?thesis
  proof
    show "with_defaults (b0\<lparr>bd_compiled := True\<rparr>) = Inr b" using d b1 by simp
    show "validate_builder (validated_stops before after) b0 = Inr (b0\<lparr>bd_compiled := True\<rparr>)" using v b1 by simp
    show "has_node g n \<longleftrightarrow> n = start_name \<or> dict_get (bd_nodes b) n \<noteq> None" for n by (rule nodes)
    show "cg_channels g = join_channels b (bd_waiting b0) (cg_channels (attached_graph before after b))" using E J R same by simp
    fix n assume n: "has_node g n"
    with nodes base(1) have at: "has_node (attached_graph before after b) n" by simp
    show "writers_of g n = initial_writers b n @ edge_writers n (bd_edges b0) @ join_writers n (bd_waiting b0) @ branch_writers n (bd_branches b0)"
      using E [of n] J [of n] R [of n] base(2) [OF at] same by simp
    show "triggers_of g n = (if n = start_name then start_name else branch_to n) # join_triggers n (bd_waiting b0)"
      using E [of n] J [of n] R [of n] base(3) [OF at] same by simp
  qed
qed

text \<open>A default error handler becomes a node of the builder itself, so a second compilation finds it taken.\<close>

lemma second_compile_rejected:
  assumes "with_defaults b = Inr b'" and "bd_default_handler b"
  shows "with_defaults b' = Inl ValueError"
proof -
  have "bd_default_handler b' = bd_default_handler b" using assms by (auto simp: with_defaults_def Let_def split: if_splits)
  then show ?thesis using assms with_defaults_keeps [OF assms(1), of default_handler_name] by (auto simp: with_defaults_def)
qed

section \<open>Writes lead to the successors\<close>

lemma run_writers_member:
  "run_writers val route v ws = Inr us \<Longrightarrow> u \<in> set us \<longleftrightarrow> (\<exists>w \<in> set ws. \<exists>x. run_writer val route v w = Inr x \<and> u \<in> set x)"
proof (induction ws arbitrary: us)
  case (Cons w ws)
  then obtain x rest where "run_writer val route v w = Inr x" "run_writers val route v ws = Inr rest" "us = x @ rest"
    by (auto simp: map_sum_def split: sum.splits)
  with Cons.IH show ?case by auto
qed simp

lemma run_writers_each: "run_writers val route v ws = Inr us \<Longrightarrow> w \<in> set ws \<Longrightarrow> \<exists>x. run_writer val route v w = Inr x"
  by (induction ws arbitrary: us) (auto simp: map_sum_def split: sum.splits)

lemma branch_to_inject [simp]: "branch_to a = branch_to b \<longleftrightarrow> a = b"
  by (simp add: branch_to_def)

lemma join_name_not_branch [simp]: "join_name ss e \<noteq> branch_to t" "branch_to t \<noteq> join_name ss e"
  by (simp_all add: join_name_def branch_to_def)

lemma get_updates_keys: "get_updates ks v = Inr us \<Longrightarrow> (k, x) \<in> set us \<Longrightarrow> k \<in> set ks"
  and "get_updates_all ks vs = Inr us \<Longrightarrow> (k, x) \<in> set us \<Longrightarrow> k \<in> set ks"
proof (induction ks v and ks vs arbitrary: us and us rule: get_updates_get_updates_all.induct)
  case (9 ks x xs)
  then show ?case by (auto split: sum.splits)
qed (auto simp: keep_keys_def typed_tuples_def split: if_splits option.splits)

lemma control_targets:
  assumes "control_branch v = Inr us"
  shows "ToChannel (branch_to t) x \<in> set us \<longleftrightarrow> x = Plain PNone \<and> t \<noteq> end_name \<and> (\<exists>c \<in> set (commands_of v). GoNode t \<in> set (nc_goto c))"
proof -
  have goto: "ToChannel (branch_to t) x \<in> set (goto_write d) \<longleftrightarrow> x = Plain PNone \<and> t \<noteq> end_name \<and> d = GoNode t" for d
    by (cases d) auto
  show ?thesis
  proof (cases "\<exists>n a. v = SendValue n a")
    case True
    with assms show ?thesis by (auto simp: control_branch_def commands_of_def)
  next
    case False
    then have "control_branch v = (case find nc_parent (commands_of v) of
        Some c \<Rightarrow> Inl (ToParent c) | None \<Rightarrow> Inr (concat (map (\<lambda>c. concat (map goto_write (nc_goto c))) (commands_of v))))"
      by (cases v) (auto simp: control_branch_def)
    with assms have "us = concat (map (\<lambda>c. concat (map goto_write (nc_goto c))) (commands_of v))" by (auto split: option.splits)
    then show ?thesis by (auto simp: goto)
  qed
qed

lemma branch_targets:
  assumes "branch_finish br rs = Inr us"
  shows "ToChannel (branch_to t) x \<in> set us \<longleftrightarrow>
    x = Plain PNone \<and> t \<noteq> end_name \<and> (\<exists>ds. destinations (br_ends br) rs = Inr ds \<and> RouteTo (Some t) \<in> set ds)"
proof -
  have one: "ToChannel (branch_to t) x \<in> set (route_write d) \<longleftrightarrow> x = Plain PNone \<and> t \<noteq> end_name \<and> d = RouteTo (Some t)" for d
    by (cases d rule: route_write.cases) auto
  from assms obtain ds where "destinations (br_ends br) rs = Inr ds" "us = concat (map route_write ds)"
    by (auto simp: branch_finish_def split: if_splits)
  then show ?thesis by (auto simp: one)
qed

text \<open>The targets a node leads to when it has returned \<open>v\<close>: its edges, the targets of its commands and what its
  branches route to.\<close>

definition leads_to :: "'p builder \<Rightarrow> (string \<Rightarrow> route_dest list result) \<Rightarrow> string \<Rightarrow> node_value \<Rightarrow> string \<Rightarrow> bool" where
  "leads_to b route n v t \<longleftrightarrow> t \<noteq> end_name \<and>
     ((n, t) \<in> set (bd_edges b) \<or> (\<exists>c \<in> set (commands_of v). GoNode t \<in> set (nc_goto c)) \<or>
      (\<exists>brs m br rs ds. (n, brs) \<in> set (bd_branches b) \<and> (m, br) \<in> set brs \<and> route m = Inr rs \<and>
         destinations (br_ends br) rs = Inr ds \<and> RouteTo (Some t) \<in> set ds))"

definition state_keys :: "'p builder \<Rightarrow> string list" where
  "state_keys b = map fst (bd_channels b) @ map fst (bd_managed b) @ map fst (schema_fields b (bd_input b))"

lemma branch_writers_mem:
  "w \<in> set (branch_writers n brss) \<longleftrightarrow> (\<exists>brs m br. (n, brs) \<in> set brss \<and> (m, br) \<in> set brs \<and> w = WriteBranch m br)"
  by (induction brss) (auto simp: branch_writers_def)

lemma edge_writers_mem: "w \<in> set (edge_writers n es) \<longleftrightarrow> (\<exists>e. (n, e) \<in> set es \<and> e \<noteq> end_name \<and> w = WriteEdge e)"
  by (induction es) (auto simp: edge_writers_def)

lemma writes_lead_to:
  assumes compiled: "compile_graph before after b = Inr g" and start: "dict_get (bd_nodes b) start_name = None"
    and keys: "branch_to t \<notin> set (state_keys b)" "''__root__'' \<notin> set (state_keys b)"
    and node: "has_node g n" and run: "run_writers val route v (writers_of g n) = Inr us"
  shows "(\<exists>x. ToChannel (branch_to t) x \<in> set us) \<longleftrightarrow> leads_to b route n v t"
proof -
  from compiled start obtain b' where b': "with_defaults (b\<lparr>bd_compiled := True\<rparr>) = Inr b'"
    and ws: "\<And>n. has_node g n \<Longrightarrow> writers_of g n = initial_writers b' n @ edge_writers n (bd_edges b) @ join_writers n (bd_waiting b) @
        branch_writers n (bd_branches b)"
    by (rule compiled_graph_parts) blast
  have same: "bd_channels b' = bd_channels b" "bd_managed b' = bd_managed b" "schema_fields b' (bd_input b') = schema_fields b (bd_input b)"
    using with_defaults_keeps [OF b'] by (simp_all add: schema_fields_def)
  obtain ks where init: "initial_writers b' n = [WriteUpdates False ks, WriteControl]" and ks: "set ks \<subseteq> set (state_keys b)"
  proof -
    define ks where "ks = (if n = start_name then map fst (filter (\<lambda>(n, k). \<not> is_managed_field k) (schema_fields b (bd_input b)))
                else map fst (bd_channels b) @ map fst (bd_managed b))"
    have sub: "set ks \<subseteq> set (state_keys b)" by (auto simp: ks_def state_keys_def)
    then have "ks \<noteq> [''__root__'']" using keys(2) by auto
    then have "initial_writers b' n = [WriteUpdates False ks, WriteControl]"
      unfolding initial_writers_def same ks_def [symmetric] Let_def by simp
    with sub that show thesis by blast
  qed
  note mem = run_writers_member [OF run [unfolded ws [OF node]]]
  define hit where "hit w \<longleftrightarrow> (\<exists>us x. run_writer val route v w = Inr us \<and> ToChannel (branch_to t) x \<in> set us)" for w
  have upd: "\<not> hit (WriteUpdates False ks)"
    using ks keys(1) get_updates_keys(1) by (fastforce simp: hit_def run_writer_def map_sum_def split: sum.splits)
  have "\<exists>us. control_branch v = Inr us"
    using run_writers_each [OF run [unfolded ws [OF node]], of WriteControl] by (simp add: init run_writer_def)
  then have control: "hit WriteControl \<longleftrightarrow> t \<noteq> end_name \<and> (\<exists>c \<in> set (commands_of v). GoNode t \<in> set (nc_goto c))"
    using control_targets by (fastforce simp: hit_def run_writer_def)
  have one_edge: "hit (WriteEdge e) \<longleftrightarrow> e = t" for e by (auto simp: hit_def run_writer_def)
  have edges: "(\<exists>w \<in> set (edge_writers n (bd_edges b)). hit w) \<longleftrightarrow> t \<noteq> end_name \<and> (n, t) \<in> set (bd_edges b)"
    by (auto simp: Bex_def edge_writers_mem one_edge)
  have joins: "\<not> (\<exists>w \<in> set (join_writers n (bd_waiting b)). hit w)"
    by (auto simp: join_writers_def hit_def run_writer_def split: if_splits)
  have branches: "(\<exists>w \<in> set (branch_writers n (bd_branches b)). hit w) \<longleftrightarrow>
      t \<noteq> end_name \<and> (\<exists>brs m br rs ds. (n, brs) \<in> set (bd_branches b) \<and> (m, br) \<in> set brs \<and> route m = Inr rs \<and>
         destinations (br_ends br) rs = Inr ds \<and> RouteTo (Some t) \<in> set ds)" (is "?l \<longleftrightarrow> ?r")
  proof
    assume ?l
    then obtain w where w: "w \<in> set (branch_writers n (bd_branches b))" "hit w" by (elim bexE)
    from w(1) [unfolded branch_writers_mem] obtain brs m br where br: "(n, brs) \<in> set (bd_branches b)" "(m, br) \<in> set brs"
      and w': "w = WriteBranch m br" by (elim exE conjE)
    from w(2) [unfolded hit_def w'] obtain us x where hit: "run_writer val route v (WriteBranch m br) = Inr us"
      "ToChannel (branch_to t) x \<in> set us" by (elim exE conjE)
    from hit(1) obtain rs where rs: "route m = Inr rs" "branch_finish br rs = Inr us"
      by (auto simp: run_writer_def as_write_error_def map_sum_def split: sum.splits)
    from iffD1 [OF branch_targets [OF rs(2)] hit(2)] obtain ds where ds: "t \<noteq> end_name" "destinations (br_ends br) rs = Inr ds"
      "RouteTo (Some t) \<in> set ds" by (elim exE conjE)
    show ?r by (intro conjI exI [of _ brs] exI [of _ m] exI [of _ br] exI [of _ rs] exI [of _ ds] br rs(1) ds)
  next
    assume ?r
    then obtain brs m br rs ds where r: "t \<noteq> end_name" "(n, brs) \<in> set (bd_branches b)" "(m, br) \<in> set brs" "route m = Inr rs"
      "destinations (br_ends br) rs = Inr ds" "RouteTo (Some t) \<in> set ds" by (elim exE conjE)
    have w: "WriteBranch m br \<in> set (branch_writers n (bd_branches b))"
      unfolding branch_writers_mem by (intro exI [of _ brs] exI [of _ m] exI [of _ br] conjI r refl)
    then have "WriteBranch m br \<in> set (initial_writers b' n @ edge_writers n (bd_edges b) @ join_writers n (bd_waiting b) @ branch_writers n (bd_branches b))"
      by simp
    from run_writers_each [OF run [unfolded ws [OF node]] this] obtain us where us: "run_writer val route v (WriteBranch m br) = Inr us" ..
    with r(4) have "branch_finish br rs = Inr us"
      by (auto simp: run_writer_def as_write_error_def map_sum_def split: sum.splits)
    from branch_targets [OF this] r have "ToChannel (branch_to t) (Plain PNone) \<in> set us" by blast
    with us have "hit (WriteBranch m br)" unfolding hit_def by blast
    with w show ?l by (rule rev_bexI)
  qed
  have "(\<exists>x. ToChannel (branch_to t) x \<in> set us) \<longleftrightarrow>
      (\<exists>w \<in> set (initial_writers b' n @ edge_writers n (bd_edges b) @ join_writers n (bd_waiting b) @ branch_writers n (bd_branches b)). hit w)"
    using mem unfolding hit_def by blast
  also have "\<dots> \<longleftrightarrow> leads_to b route n v t"
    using upd control edges joins branches unfolding init leads_to_def set_append bex_Un by auto
  finally show ?thesis .
qed

text \<open>A graph of two nodes: \<open>a\<close> is the entry point, a branch of \<open>a\<close> goes on to \<open>b\<close> or to the end.\<close>

definition flow_build :: "unit builder result" where
  "flow_build =
     (let schemas = (\<lambda>s. FieldSchema [(''m'', PlainForm)]);
          d = \<lparr>nd_schema = None, nd_ends = [], nd_defer = False, nd_policies = no_policies, nd_handler = False\<rparr>
      in and_then (new_builder schemas ''State'' None None) (\<lambda>b.
         and_then (add_node schemas ''a'' d b) (\<lambda>b. and_then (add_node schemas ''b'' d b) (\<lambda>b.
         and_then (set_entry_point ''a'' b) (\<lambda>b.
         and_then (add_conditional_edges schemas ''a'' ''pick'' (MapList [''b'', ''__end__'']) None b) (set_finish_point ''b''))))))"

definition flow_builder :: "unit builder" where
  "flow_builder = (case flow_build of Inr b \<Rightarrow> b
     | Inl e \<Rightarrow> \<lparr>bd_nodes = [], bd_edges = [], bd_waiting = [], bd_branches = [], bd_channels = [], bd_managed = [], bd_schemas = [],
         bd_state = '''', bd_input = '''', bd_output = '''', bd_defaults = no_policies, bd_default_handler = False, bd_compiled = False\<rparr>)"

definition flow_graph :: "unit compiled_graph" where
  "flow_graph = (case compile_graph (SomeNodes []) (SomeNodes []) flow_builder of Inr g \<Rightarrow> g
     | Inl e \<Rightarrow> \<lparr>cg_nodes = [], cg_channels = [], cg_output = ReadMany [], cg_stream = ReadMany [],
         cg_before = AllNodes, cg_after = AllNodes, cg_handlers = []\<rparr>)"

lemma flow_compiled: "compile_graph (SomeNodes []) (SomeNodes []) flow_builder = Inr flow_graph"
proof -
  have "case compile_graph (SomeNodes []) (SomeNodes []) flow_builder of Inl e \<Rightarrow> False | Inr g \<Rightarrow> True" by code_simp
  then show ?thesis by (simp add: flow_graph_def split: sum.splits)
qed

section \<open>Targets are declared\<close>

definition target_declared :: "'p compiled_graph \<Rightarrow> string \<Rightarrow> bool" where
  "target_declared g e \<longleftrightarrow> e = end_name \<or> (has_node g e \<and> branch_to e \<in> set (base_channels g))"

definition writer_declared :: "'p compiled_graph \<Rightarrow> node_writer \<Rightarrow> bool" where
  "writer_declared g w =
     (case w of
        WriteEdge e \<Rightarrow> e \<noteq> end_name \<and> target_declared g e
      | WriteJoin c s \<Rightarrow> c \<in> set (base_channels g)
      | WriteBranch m br \<Rightarrow> (case br_ends br of None \<Rightarrow> True | Some d \<Rightarrow> list_all (\<lambda>(l, e). target_declared g e) d)
      | _ \<Rightarrow> True)"

lemma validated_triggers:
  assumes "validate_graph g0 = Inr g" and "has_node g n" and "c \<in> set (triggers_of g n)"
  shows "c \<in> set (base_channels g)"
proof -
  from assms(2,3) obtain cn where cn: "dict_get (cg_nodes g) n = Some cn" "c \<in> set (cn_triggers cn)"
    by (auto simp: has_node_def triggers_of_def)
  from map_of_SomeD [OF cn(1)] cn(2) have "c \<in> set (concat (map (\<lambda>(n, c). cn_triggers c) (cg_nodes g)))" by force
  moreover have "\<not> list_ex (\<lambda>c. c \<notin> set (base_channels g)) (concat (map (\<lambda>(n, c). cn_triggers c) (cg_nodes g)))"
    using assms(1) unfolding validate_graph_def Let_def by (metis Inl_Inr_False sum.inject(2))
  ultimately show ?thesis unfolding list_ex_iff by blast
qed

lemma compile_validates: "compile_graph before after b = Inr g \<Longrightarrow> \<exists>g0. validate_graph g0 = Inr g"
  by (auto simp: compile_graph_def)

lemma compiled_writers_declared:
  assumes compiled: "compile_graph before after b = Inr g" and start: "dict_get (bd_nodes b) start_name = None"
    and n: "has_node g n" and w: "w \<in> set (writers_of g n)"
  shows "writer_declared g w"
proof -
  from compiled start obtain b' where b': "with_defaults (b\<lparr>bd_compiled := True\<rparr>) = Inr b'"
    and valid: "validate_builder (validated_stops before after) b = Inr (b\<lparr>bd_compiled := True\<rparr>)"
    and nodes: "\<And>n. has_node g n \<longleftrightarrow> n = start_name \<or> dict_get (bd_nodes b') n \<noteq> None"
    and ws: "\<And>n. has_node g n \<Longrightarrow> writers_of g n = initial_writers b' n @ edge_writers n (bd_edges b) @ join_writers n (bd_waiting b) @
        branch_writers n (bd_branches b)"
    and ts: "\<And>n. has_node g n \<Longrightarrow> triggers_of g n = (if n = start_name then start_name else branch_to n) # join_triggers n (bd_waiting b)"
    by (rule compiled_graph_parts) blast
  from compile_validates [OF compiled] obtain g0 where g0: "validate_graph g0 = Inr g" ..
  have known: "target_declared g e \<and> (\<forall>c \<in> set (join_triggers e (bd_waiting b)). e = end_name \<or> c \<in> set (base_channels g))" if "known_target b e" for e
  proof (cases "e = end_name")
    case False
    with that have "dict_get (bd_nodes b) e \<noteq> None" by (simp add: known_target_def)
    with start with_defaults_keeps [OF b', of e] nodes [of e] have e: "e \<noteq> start_name" "has_node g e" by auto
    with ts [OF e(2)] validated_triggers [OF g0 e(2)] show ?thesis by (simp add: target_declared_def)
  qed (simp add: target_declared_def)
  have edges: "list_all (known_target b) (map snd (all_edges b))" and branches: "branch_targets_known b"
    using valid by (auto simp: validate_builder_def list_ex_iff list_all_iff split: if_splits)
  from w ws [OF n] consider "w \<in> set (initial_writers b' n)" | "w \<in> set (edge_writers n (bd_edges b))" |
      "w \<in> set (join_writers n (bd_waiting b))" | "w \<in> set (branch_writers n (bd_branches b))" by auto
  then show ?thesis
  proof cases
    case 1
    then show ?thesis by (auto simp: initial_writers_def Let_def writer_declared_def)
  next
    case 2
    then obtain e where e: "(n, e) \<in> set (bd_edges b)" "e \<noteq> end_name" "w = WriteEdge e" by (auto simp: edge_writers_mem)
    with edges have "known_target b e" by (force simp: list_all_iff all_edges_def)
    with known e show ?thesis by (simp add: writer_declared_def)
  next
    case 3
    then obtain ss e where e: "(ss, e) \<in> set (bd_waiting b)" "e \<noteq> end_name" "n \<in> set ss" "w = WriteJoin (join_name ss e) n"
      by (auto simp: join_writers_def split: if_splits)
    then have "(n, e) \<in> set (all_edges b)" by (force simp: all_edges_def)
    with edges have "known_target b e" by (force simp: list_all_iff)
    moreover have "join_name ss e \<in> set (join_triggers e (bd_waiting b))" using e(1,2) by (force simp: join_triggers_def)
    ultimately show ?thesis using known [of e] e(2,4) by (auto simp: writer_declared_def)
  next
    case 4
    then obtain brs m br where br: "(n, brs) \<in> set (bd_branches b)" "(m, br) \<in> set brs" "w = WriteBranch m br"
      by (auto simp: branch_writers_mem)
    with branches have "case br_ends br of None \<Rightarrow> True | Some d \<Rightarrow> list_all (\<lambda>(l, e). known_target b e) d"
      by (fastforce simp: branch_targets_known_def list_all_iff)
    with known br(3) show ?thesis by (auto simp: writer_declared_def list_all_iff split: option.splits)
  qed
qed
text \<open>C20. A compiled graph has no dangling declared target: every edge, every join and every branch with a path map among the
  writers of a node writes to the channel of a node of the graph or ends the run, because compilation has validated
  every declared target and every trigger against the declared channels. Commands and branches without a path map name their
  targets only when they run; nothing is claimed of them.\<close>

theorem compiled_targets_declared:
  assumes "compile_graph before after b = Inr g" and "dict_get (bd_nodes b) start_name = None"
    and "has_node g n" and "w \<in> set (writers_of g n)"
  shows "writer_declared g w"
  by (rule compiled_writers_declared [OF assms])

theorem compiled_targets_declared_witness:
  "writer_declared flow_graph (WriteBranch ''pick'' \<lparr>br_ends = Some [(Some ''b'', ''b''), (Some ''__end__'', ''__end__'')], br_schema = None\<rparr>)"
proof (rule compiled_targets_declared [OF flow_compiled])
  show "dict_get (bd_nodes flow_builder) start_name = None" by code_simp
  show "has_node flow_graph ''a''" by code_simp
  show "WriteBranch ''pick'' \<lparr>br_ends = Some [(Some ''b'', ''b''), (Some ''__end__'', ''__end__'')], br_schema = None\<rparr> \<in> set (writers_of flow_graph ''a'')"
    by code_simp
qed

end
