(* ===== verification/Messages.thy ===== *)
theory Messages
  imports Prelude
begin

text \<open>
  Chat messages and the two reducers of \<open>langgraph/graph/message.py\<close>: \<open>add_messages\<close>, which
  merges by id with tombstones applied at the end, and \<open>_messages_delta_reducer\<close>, the batch reducer
  of delta channels; and \<open>robot_agent/hooks.py\<close>. The reducers are shown to implement one
  list specification, \<open>upsert\<close>.
\<close>

section \<open>Messages\<close>

text \<open>The message classes of langchain_core, as far as this program tells them apart.\<close>

datatype role = HumanRole | AIRole | SystemRole | ToolRole | RemoveRole

record tool_call =
  call_name :: string
  call_id :: "string option"
  call_args :: pydict

record message =
  role :: role
  msg_id :: "string option"
  content :: pyval
  msg_name :: "string option"
  tool_calls :: "tool_call list"
  tool_call_id :: "string option"
  status :: "string option"

definition remove_all_messages :: string where
  "remove_all_messages = ''__remove_all__''"

definition plain_message :: "role \<Rightarrow> string \<Rightarrow> string \<Rightarrow> message" where
  "plain_message r i txt = \<lparr>role = r, msg_id = Some i, content = PStr txt, msg_name = None,
     tool_calls = [], tool_call_id = None, status = None\<rparr>"

abbreviation is_system :: "message \<Rightarrow> bool" where
  "is_system m \<equiv> role m = SystemRole"

abbreviation is_remove :: "message \<Rightarrow> bool" where
  "is_remove m \<equiv> role m = RemoveRole"

section \<open>The index both reducers keep\<close>

text \<open>
  \<open>{m.id: i for i, m in enumerate(ms)}\<close>, restricted to the messages that satisfy \<open>keep\<close>. The keys
  are optional ids, since \<open>None\<close> is a key like any other.
\<close>

fun id_index :: "(message \<Rightarrow> bool) \<Rightarrow> nat \<Rightarrow> message list \<Rightarrow> (string option, nat) dict \<Rightarrow> (string option, nat) dict" where
  "id_index keep i [] d = d"
| "id_index keep i (m # ms) d = id_index keep (Suc i) ms (if keep m then dict_set (msg_id m) i d else d)"

section \<open>add_messages\<close>

text \<open>Missing ids: \<open>fresh\<close> numbers the draws of \<open>uuid4\<close>, the left list draws first.\<close>

fun assign_ids :: "(nat \<Rightarrow> string) \<Rightarrow> nat \<Rightarrow> message list \<Rightarrow> message list \<times> nat" where
  "assign_ids fresh k [] = ([], k)"
| "assign_ids fresh k (m # ms) =
     (if msg_id m = None
      then (let (ms', k') = assign_ids fresh (Suc k) ms in (m\<lparr>msg_id := Some (fresh k)\<rparr> # ms', k'))
      else (let (ms', k') = assign_ids fresh k ms in (m # ms', k')))"

definition is_remove_all :: "message \<Rightarrow> bool" where
  "is_remove_all m \<longleftrightarrow> is_remove m \<and> msg_id m = Some remove_all_messages"

record merge_state =
  merged :: "message list"
  merged_by_id :: "(string option, nat) dict"
  ids_to_remove :: "string option set"

definition merge_one :: "message \<Rightarrow> merge_state \<Rightarrow> merge_state result" where
  "merge_one m s =
     (case dict_get (merged_by_id s) (msg_id m) of
        Some i \<Rightarrow>
          if is_remove m then Inr (s\<lparr>ids_to_remove := insert (msg_id m) (ids_to_remove s)\<rparr>)
          else Inr (s\<lparr>ids_to_remove := ids_to_remove s - {msg_id m}, merged := (merged s)[i := m]\<rparr>)
      | None \<Rightarrow>
          if is_remove m then Inl ValueError
          else Inr (s\<lparr>merged_by_id := dict_set (msg_id m) (length (merged s)) (merged_by_id s),
                     merged := merged s @ [m]\<rparr>))"

fun merge_all :: "message list \<Rightarrow> merge_state \<Rightarrow> merge_state result" where
  "merge_all [] s = Inr s"
| "merge_all (m # ms) s = (case merge_one m s of Inl e \<Rightarrow> Inl e | Inr s' \<Rightarrow> merge_all ms s')"

definition merge_messages :: "message list \<Rightarrow> message list \<Rightarrow> message list result" where
  "merge_messages left right =
     (case merge_all right \<lparr>merged = left, merged_by_id = id_index (\<lambda>_. True) 0 left [], ids_to_remove = {}\<rparr> of
        Inl e \<Rightarrow> Inl e
      | Inr s \<Rightarrow> Inr (filter (\<lambda>m. msg_id m \<notin> ids_to_remove s) (merged s)))"

text \<open>A message argument is a list or a single message-like value; \<open>conv\<close> stands for the
  coercions of langchain_core and \<open>fmt\<close> for its OpenAI formatter.\<close>

datatype 'r messages_arg = Many "'r list" | Single 'r

fun coerce_list :: "('r \<Rightarrow> message) \<Rightarrow> 'r messages_arg \<Rightarrow> message list" where
  "coerce_list conv (Many rs) = map conv rs"
| "coerce_list conv (Single r) = [conv r]"

definition apply_format :: "(message list \<Rightarrow> message list) \<Rightarrow> string option \<Rightarrow> message list \<Rightarrow> message list result" where
  "apply_format fmt format ms =
     (case format of
        None \<Rightarrow> Inr ms
      | Some f \<Rightarrow> if f = ''langchain-openai'' then Inr (fmt ms) else if f \<noteq> [] then Inl ValueError else Inr ms)"

definition add_messages ::
  "('r \<Rightarrow> message) \<Rightarrow> (message list \<Rightarrow> message list) \<Rightarrow> (nat \<Rightarrow> string) \<Rightarrow> string option
     \<Rightarrow> 'r messages_arg \<Rightarrow> 'r messages_arg \<Rightarrow> message list result" where
  "add_messages conv fmt fresh format left right =
     (let (l, k) = assign_ids fresh 0 (coerce_list conv left);
          (r, _) = assign_ids fresh k (coerce_list conv right)
      in case last_index is_remove_all r of
           Some i \<Rightarrow> Inr (drop (Suc i) r)
         | None \<Rightarrow> (case merge_messages l r of Inl e \<Rightarrow> Inl e | Inr ms \<Rightarrow> apply_format fmt format ms))"

text \<open>The wrapper: both arguments or neither; with neither the call is a partial application.\<close>

datatype add_outcome = Merged "message list" | PartialReducer

definition add_messages_wrapper ::
  "('r \<Rightarrow> message) \<Rightarrow> (message list \<Rightarrow> message list) \<Rightarrow> (nat \<Rightarrow> string) \<Rightarrow> string option
     \<Rightarrow> 'r messages_arg option \<Rightarrow> 'r messages_arg option \<Rightarrow> add_outcome result" where
  "add_messages_wrapper conv fmt fresh format left right =
     (case (left, right) of
        (Some l, Some r) \<Rightarrow> (case add_messages conv fmt fresh format l r of Inl e \<Rightarrow> Inl e | Inr ms \<Rightarrow> Inr (Merged ms))
      | (None, None) \<Rightarrow> Inr PartialReducer
      | _ \<Rightarrow> Inl ValueError)"

section \<open>_messages_delta_reducer\<close>

fun flatten_writes :: "'r messages_arg list \<Rightarrow> 'r list" where
  "flatten_writes [] = []"
| "flatten_writes (Many rs # ws) = rs @ flatten_writes ws"
| "flatten_writes (Single r # ws) = r # flatten_writes ws"

definition delta_one ::
  "message \<Rightarrow> message option list \<times> (string option, nat) dict \<Rightarrow> message option list \<times> (string option, nat) dict" where
  "delta_one m s =
     (let (res, index) = s in
      if msg_id m = None then (res @ [Some m], index)
      else if is_remove m then
        (case dict_get index (msg_id m) of
           Some i \<Rightarrow> (res[i := None], dict_del (msg_id m) index)
         | None \<Rightarrow> (res, index))
      else
        (case dict_get index (msg_id m) of
           Some i \<Rightarrow> (res[i := Some m], index)
         | None \<Rightarrow> (res @ [Some m], dict_set (msg_id m) (length res) index)))"

definition somes :: "'a option list \<Rightarrow> 'a list" where
  "somes xs = concat (map (\<lambda>x. case x of None \<Rightarrow> [] | Some a \<Rightarrow> [a]) xs)"

definition messages_delta_reducer ::
  "('r \<Rightarrow> message) \<Rightarrow> message list \<Rightarrow> 'r messages_arg list \<Rightarrow> message list" where
  "messages_delta_reducer conv state writes =
     somes (fst (fold delta_one (map conv (flatten_writes writes))
       (map Some state, id_index (\<lambda>m. msg_id m \<noteq> None) 0 state [])))"

section \<open>hooks.py\<close>

definition leading_system :: "message list \<Rightarrow> nat" where
  "leading_system ms = length (takeWhile is_system ms)"

definition insert_after_leading_system_messages :: "message list \<Rightarrow> message \<Rightarrow> message list" where
  "insert_after_leading_system_messages ms block =
     (let n = leading_system ms in take n ms @ [block] @ drop n ms)"

section \<open>The specification: update in place or append\<close>

text \<open>
  \<open>upsert\<close> says what one incoming message does to a list whose ids are distinct. It knows neither
  index nor holes.
\<close>

definition upsert :: "message \<Rightarrow> message list \<Rightarrow> message list" where
  "upsert m ms =
     (if msg_id m = None then ms @ [m]
      else if is_remove m then filter (\<lambda>x. msg_id x \<noteq> msg_id m) ms
      else if msg_id m \<in> msg_id ` set ms then map (\<lambda>x. if msg_id x = msg_id m then m else x) ms
      else ms @ [m])"

definition ids_of :: "message list \<Rightarrow> string option list" where
  "ids_of ms = filter (\<lambda>i. i \<noteq> None) (map msg_id ms)"

definition distinct_ids :: "message list \<Rightarrow> bool" where
  "distinct_ids ms \<longleftrightarrow> distinct (ids_of ms)"

lemma ids_of_simps [simp]:
  "ids_of [] = []"
  "ids_of (m # ms) = (if msg_id m = None then ids_of ms else msg_id m # ids_of ms)"
  "ids_of (xs @ ys) = ids_of xs @ ids_of ys"
  by (simp_all add: ids_of_def)

lemma set_ids_of: "set (ids_of ms) = msg_id ` set ms - {None}"
  by (auto simp: ids_of_def)

lemma ids_of_replace: "ids_of (map (\<lambda>x. if msg_id x = msg_id m then m else x) ms) = ids_of ms"
  by (induction ms) auto

lemma ids_of_filter: "ids_of (filter (\<lambda>x. msg_id x \<noteq> k) ms) = filter (\<lambda>i. i \<noteq> k) (ids_of ms)"
  by (induction ms) auto

text \<open>The specification keeps ids distinct.\<close>

lemma distinct_ids_upsert: "distinct_ids ms \<Longrightarrow> distinct_ids (upsert m ms)"
  by (auto simp: distinct_ids_def upsert_def ids_of_replace ids_of_filter set_ids_of)

lemma distinct_ids_fold: "distinct_ids ms \<Longrightarrow> distinct_ids (fold upsert xs ms)"
  by (induction xs arbitrary: ms) (simp_all add: distinct_ids_upsert)

section \<open>The delta reducer implements the specification\<close>

lemma somes_simps [simp]:
  "somes [] = []"
  "somes (None # xs) = somes xs"
  "somes (Some a # xs) = a # somes xs"
  "somes (xs @ ys) = somes xs @ somes ys"
  "somes (map Some ms) = ms"
proof -
  show "somes (map Some ms) = ms" by (induction ms) (simp_all add: somes_def)
qed (simp_all add: somes_def)

lemma in_somes: "m \<in> set (somes xs) \<longleftrightarrow> Some m \<in> set xs"
  by (auto simp: somes_def split: option.splits)

lemma in_somes_nth: "m \<in> set (somes xs) \<longleftrightarrow> (\<exists>j < length xs. xs ! j = Some m)"
  unfolding in_somes by (auto simp only: in_set_conv_nth)

definition sits_at :: "message option list \<Rightarrow> nat \<Rightarrow> string option \<Rightarrow> bool" where
  "sits_at res i k \<longleftrightarrow> i < length res \<and> (\<exists>m. res ! i = Some m \<and> msg_id m = k)"

text \<open>The index says exactly where each id sits.\<close>

definition wf_index :: "message option list \<Rightarrow> (string option, nat) dict \<Rightarrow> bool" where
  "wf_index res index \<longleftrightarrow> (\<forall>k i. dict_get index k = Some i \<longleftrightarrow> k \<noteq> None \<and> sits_at res i k)"

lemma sits_at_append: "sits_at (res @ [Some m]) i k \<longleftrightarrow> sits_at res i k \<or> i = length res \<and> msg_id m = k"
  by (auto simp: sits_at_def nth_append less_Suc_eq)

lemma sits_at_update: "sits_at (res[i := x]) j k \<longleftrightarrow> (if j = i then i < length res \<and> (\<exists>m. x = Some m \<and> msg_id m = k) else sits_at res j k)"
  by (auto simp: sits_at_def nth_list_update)

lemma wf_index_unique: "wf_index res index \<Longrightarrow> k \<noteq> None \<Longrightarrow> sits_at res i k \<Longrightarrow> sits_at res j k \<Longrightarrow> i = j"
  unfolding wf_index_def by (metis option.inject)

text \<open>An indexed id splits the list at its only occurrence.\<close>

lemma wf_index_split:
  assumes wf: "wf_index res index" and k: "dict_get index k = Some i"
  obtains us m vs where "res = us @ Some m # vs" "length us = i" "msg_id m = k"
    "\<forall>x \<in> set (somes us). msg_id x \<noteq> k" "\<forall>x \<in> set (somes vs). msg_id x \<noteq> k"
proof -
  from wf k have "k \<noteq> None" and here: "sits_at res i k" by (simp_all add: wf_index_def)
  then obtain m where m: "i < length res" "res ! i = Some m" "msg_id m = k" by (auto simp: sits_at_def)
  have uniq: "sits_at res j k \<Longrightarrow> j = i" for j using wf_index_unique [OF wf \<open>k \<noteq> None\<close> _ here] .
  show thesis
  proof (rule that)
    show "res = take i res @ Some m # drop (Suc i) res" using m by (metis id_take_nth_drop)
    show "length (take i res) = i" using m by simp
    show "\<forall>x \<in> set (somes (take i res)). msg_id x \<noteq> k"
    proof
      fix x assume "x \<in> set (somes (take i res))"
      then obtain j where "j < i" "j < length res" "res ! j = Some x"
        by (auto simp: in_somes_nth)
      then show "msg_id x \<noteq> k" using uniq [of j] by (auto simp: sits_at_def)
    qed
    show "\<forall>x \<in> set (somes (drop (Suc i) res)). msg_id x \<noteq> k"
    proof
      fix x assume "x \<in> set (somes (drop (Suc i) res))"
      then obtain j where "j < length res - Suc i" "res ! (Suc i + j) = Some x"
        by (auto simp: in_somes_nth)
      then have "Suc i + j < length res" "res ! (Suc i + j) = Some x" by auto
      then show "msg_id x \<noteq> k" using uniq [of "Suc i + j"] by (auto simp: sits_at_def)
    qed
  qed (rule m)
qed

lemma map_replace_id: "\<forall>x \<in> set ms. msg_id x \<noteq> k \<Longrightarrow> map (\<lambda>x. if msg_id x = k then m else x) ms = ms"
  by (induction ms) auto

lemma sits_at_ex: "k \<in> msg_id ` set (somes res) \<longleftrightarrow> (\<exists>i. sits_at res i k)"
proof
  assume "k \<in> msg_id ` set (somes res)"
  then obtain m i where "i < length res" "res ! i = Some m" "msg_id m = k"
    by (auto simp: in_somes_nth)
  then show "\<exists>i. sits_at res i k" by (auto simp: sits_at_def)
next
  assume "\<exists>i. sits_at res i k"
  then obtain i m where "i < length res" "res ! i = Some m" "msg_id m = k"
    by (auto simp: sits_at_def)
  then have "m \<in> set (somes res)" by (metis in_somes nth_mem)
  with \<open>msg_id m = k\<close> show "k \<in> msg_id ` set (somes res)" by blast
qed

lemma wf_index_absent: "wf_index res index \<Longrightarrow> k \<noteq> None \<Longrightarrow> dict_get index k = None \<longleftrightarrow> k \<notin> msg_id ` set (somes res)"
  unfolding sits_at_ex wf_index_def by (metis not_None_eq)

lemma delta_one_refines:
  assumes wf: "wf_index res index" and step: "delta_one m (res, index) = (res', index')"
  shows "wf_index res' index' \<and> somes res' = upsert m (somes res)"
proof (cases "msg_id m = None")
  case True
  with step wf show ?thesis by (auto simp: delta_one_def upsert_def wf_index_def sits_at_append)
next
  case named: False
  show ?thesis
  proof (cases "dict_get index (msg_id m)")
    case None
    with wf named have fresh: "msg_id m \<notin> msg_id ` set (somes res)" by (simp add: wf_index_absent)
    then have keep: "filter (\<lambda>x. msg_id x \<noteq> msg_id m) (somes res) = somes res"
      by (intro filter_True) (metis image_eqI)
    have no: "\<not> sits_at res i (msg_id m)" for i
      using wf None named unfolding wf_index_def by (metis option.distinct(1))
    show ?thesis
      using step wf named None fresh keep no
      by (auto simp: delta_one_def upsert_def wf_index_def sits_at_append split: if_splits)
  next
    case (Some i)
    obtain us m0 vs where sp: "res = us @ Some m0 # vs" "length us = i" "msg_id m0 = msg_id m"
      "\<forall>x \<in> set (somes us). msg_id x \<noteq> msg_id m" "\<forall>x \<in> set (somes vs). msg_id x \<noteq> msg_id m"
      using wf_index_split [OF wf Some] .
    have upd: "res[i := x] = us @ x # vs" for x using sp(1,2) by auto
    have only: "sits_at res j (msg_id m) \<longleftrightarrow> j = i" for j
      using wf Some named unfolding wf_index_def by (metis option.inject)
    have len: "i < length res" using sp(1,2) by simp
    show ?thesis
    proof (cases "is_remove m")
      case True
      with step named Some have s': "res' = res[i := None]" "index' = dict_del (msg_id m) index"
        by (simp_all add: delta_one_def)
      have "sits_at res i k \<Longrightarrow> k = msg_id m" for k
        using only [of i] by (auto simp: sits_at_def)
      with only have "sits_at (res[i := None]) j k \<longleftrightarrow> sits_at res j k \<and> k \<noteq> msg_id m" for j k
        unfolding sits_at_update by (metis option.distinct(1))
      with wf have "wf_index res' index'" by (auto simp: s' wf_index_def)
      moreover have "somes res' = upsert m (somes res)"
        using sp named True unfolding s'(1) upd by (simp add: upsert_def)
      ultimately show ?thesis by simp
    next
      case False
      with step named Some have s': "res' = res[i := Some m]" "index' = index"
        by (simp_all add: delta_one_def)
      have "sits_at (res[i := Some m]) j k \<longleftrightarrow> sits_at res j k" for j k
        using only [of i] len unfolding sits_at_update by (auto simp: sits_at_def)
      with wf have "wf_index res' index'" by (auto simp: s' wf_index_def)
      moreover have "somes res' = upsert m (somes res)"
        using sp named False unfolding s'(1) upd by (simp add: upsert_def map_replace_id)
      ultimately show ?thesis by simp
    qed
  qed
qed

lemma delta_fold_refines:
  "wf_index res index \<Longrightarrow> somes (fst (fold delta_one ms (res, index))) = fold upsert ms (somes res)"
proof (induction ms arbitrary: res index)
  case Nil
  then show ?case by simp
next
  case (Cons m ms)
  obtain res' index' where s: "delta_one m (res, index) = (res', index')"
    by (cases "delta_one m (res, index)")
  with delta_one_refines [OF Cons.prems s] Cons.IH [of res' index'] show ?case by simp
qed

text \<open>The initial index.\<close>

lemma last_index_from_shift:
  "last_index_from P (n + j) ms (map_option (\<lambda>i. n + i) acc) = map_option (\<lambda>i. n + i) (last_index_from P j ms acc)"
proof (induction ms arbitrary: j acc)
  case Nil
  then show ?case by simp
next
  case (Cons m ms)
  from Cons.IH [of "Suc j" "if P m then Some j else acc"] show ?case by (cases "P m") simp_all
qed

lemma id_index_append:
  "id_index keep n (xs @ [y]) d = (let d' = id_index keep n xs d in if keep y then dict_set (msg_id y) (n + length xs) d' else d')"
  by (induction xs arbitrary: n d) (simp_all add: Let_def)

lemma id_index_get:
  "dict_get (id_index keep n ms d) k =
     (case last_index (\<lambda>m. keep m \<and> msg_id m = k) ms of Some i \<Rightarrow> Some (n + i) | None \<Rightarrow> dict_get d k)"
proof (induction ms arbitrary: n d rule: rev_induct)
  case Nil
  then show ?case by simp
next
  case (snoc m ms)
  then show ?case by (auto simp: id_index_append Let_def last_index_snoc)
qed

lemma distinct_ids_nth:
  "distinct_ids ms \<Longrightarrow> i < length ms \<Longrightarrow> j < length ms \<Longrightarrow> msg_id (ms ! i) = msg_id (ms ! j)
   \<Longrightarrow> msg_id (ms ! i) \<noteq> None \<Longrightarrow> i = j"
proof (induction ms arbitrary: i j)
  case Nil
  then show ?case by simp
next
  case (Cons m ms)
  have mem: "msg_id (ms ! n) \<in> msg_id ` set ms" if "n < length ms" for n using that by simp
  from Cons.prems Cons.IH show ?case
    by (cases i; cases j; auto simp: distinct_ids_def set_ids_of split: if_splits; metis mem)
qed

lemma wf_index_initial:
  assumes "distinct_ids ms"
  shows "wf_index (map Some ms) (id_index (\<lambda>m. msg_id m \<noteq> None) 0 ms [])"
  unfolding wf_index_def
proof (intro allI)
  fix k i
  let ?P = "\<lambda>m. msg_id m \<noteq> None \<and> msg_id m = k"
  have "last_index ?P ms = Some i \<longleftrightarrow> k \<noteq> None \<and> sits_at (map Some ms) i k"
  proof
    assume "last_index ?P ms = Some i"
    from last_index_SomeD [OF this] show "k \<noteq> None \<and> sits_at (map Some ms) i k" by (auto simp: sits_at_def)
  next
    assume "k \<noteq> None \<and> sits_at (map Some ms) i k"
    then have i: "i < length ms" "msg_id (ms ! i) = k" "k \<noteq> None" by (auto simp: sits_at_def)
    then have "?P (ms ! i)" "ms ! i \<in> set ms" by simp_all
    then have "last_index ?P ms \<noteq> None" unfolding last_index_None_iff by blast
    then obtain j where j: "last_index ?P ms = Some j" by blast
    with last_index_SomeD [OF j] distinct_ids_nth [OF assms, of j i] i show "last_index ?P ms = Some i" by simp
  qed
  moreover have "dict_get (id_index (\<lambda>m. msg_id m \<noteq> None) 0 ms []) k = last_index ?P ms"
    by (simp add: id_index_get split: option.split)
  ultimately show "dict_get (id_index (\<lambda>m. msg_id m \<noteq> None) 0 ms []) k = Some i \<longleftrightarrow> k \<noteq> None \<and> sits_at (map Some ms) i k"
    by (simp only:)
qed

lemma delta_reducer_spec:
  assumes "distinct_ids state"
  shows "messages_delta_reducer conv state writes = fold upsert (map conv (flatten_writes writes)) state"
  using delta_fold_refines [OF wf_index_initial [OF assms]] by (simp add: messages_delta_reducer_def)

lemma flatten_writes_append: "flatten_writes (xs @ ys) = flatten_writes xs @ flatten_writes ys"
  by (induction xs rule: flatten_writes.induct) simp_all

text \<open>The delta reducer refines its specification: on a state with distinct ids, the indexed
  one-pass reducer with holes computes the fold of \<open>upsert\<close> (append, replace in place, delete) over
  the flattened writes.\<close>

theorem delta_reducer_refines_upsert:
  assumes "distinct_ids state"
  shows "messages_delta_reducer conv state writes = fold upsert (map conv (flatten_writes writes)) state \<and>
     distinct_ids (messages_delta_reducer conv state writes)"
  by (simp add: delta_reducer_spec [OF assms] distinct_ids_fold [OF assms])

theorem delta_reducer_refines_upsert_witness:
  "messages_delta_reducer id [plain_message HumanRole ''1'' ''a'', plain_message AIRole ''2'' ''b'']
      [Many [plain_message RemoveRole ''1'' [] ], Single (plain_message AIRole ''3'' ''c'')]
   = [plain_message AIRole ''2'' ''b'', plain_message AIRole ''3'' ''c'']"
  using delta_reducer_refines_upsert [of "[plain_message HumanRole ''1'' ''a'', plain_message AIRole ''2'' ''b'']" id
     "[Many [plain_message RemoveRole ''1'' [] ], Single (plain_message AIRole ''3'' ''c'')]"]
  by (simp add: upsert_def distinct_ids_def plain_message_def)

text \<open>Batching invariance, which \<open>DeltaChannel\<close> requires of its reducer: reducing the writes of
  two supersteps one after the other gives the same list as reducing them in one batch.\<close>

theorem delta_reducer_batching_invariant:
  assumes "distinct_ids state"
  shows "messages_delta_reducer conv (messages_delta_reducer conv state xs) ys
       = messages_delta_reducer conv state (xs @ ys)"
proof -
  have "distinct_ids (messages_delta_reducer conv state xs)"
    by (simp add: delta_reducer_spec [OF assms] distinct_ids_fold [OF assms])
  from delta_reducer_spec [OF this] show ?thesis
    by (simp add: delta_reducer_spec [OF assms] flatten_writes_append)
qed

theorem delta_reducer_batching_invariant_witness:
  "messages_delta_reducer id (messages_delta_reducer id [plain_message AIRole ''2'' ''b''] [Single (plain_message RemoveRole ''2'' [])])
      [Single (plain_message AIRole ''2'' ''c'')]
   = messages_delta_reducer id [plain_message AIRole ''2'' ''b'']
      ([Single (plain_message RemoveRole ''2'' [])] @ [Single (plain_message AIRole ''2'' ''c'')])"
  by (rule delta_reducer_batching_invariant) (simp add: distinct_ids_def plain_message_def)

section \<open>add_messages by its effect on each id\<close>

text \<open>What one incoming message decides about the message with id \<open>k\<close>.\<close>

definition decide :: "string option \<Rightarrow> message \<Rightarrow> message option \<Rightarrow> message option" where
  "decide k m v = (if msg_id m = k then (if is_remove m then None else Some m) else v)"

definition lookup_id :: "message list \<Rightarrow> string option \<Rightarrow> message option" where
  "lookup_id ms k = find (\<lambda>m. msg_id m = k) ms"

lemma lookup_id_simps [simp]:
  "lookup_id [] k = None"
  "lookup_id (m # ms) k = (if msg_id m = k then Some m else lookup_id ms k)"
  by (simp_all add: lookup_id_def)

lemma lookup_id_append: "lookup_id (xs @ ys) k = (case lookup_id xs k of None \<Rightarrow> lookup_id ys k | Some m \<Rightarrow> Some m)"
  by (induction xs) auto

lemma lookup_id_None_iff: "lookup_id ms k = None \<longleftrightarrow> k \<notin> msg_id ` set ms"
  by (induction ms) auto

lemma lookup_id_filter:
  "lookup_id (filter (\<lambda>m. msg_id m \<notin> dead) ms) k = (if k \<in> dead then None else lookup_id ms k)"
  by (induction ms) auto

abbreviation replace_id :: "message \<Rightarrow> message list \<Rightarrow> message list" where
  "replace_id m ms \<equiv> map (\<lambda>x. if msg_id x = msg_id m then m else x) ms"

lemma lookup_replace_id_iff:
  "lookup_id (replace_id m ms) k = (if k = msg_id m \<and> k \<in> msg_id ` set ms then Some m else lookup_id ms k)"
  by (induction ms) auto

lemma lookup_replace_id:
  "msg_id m \<in> msg_id ` set ms \<Longrightarrow> lookup_id (replace_id m ms) k = (if k = msg_id m then Some m else lookup_id ms k)"
  unfolding lookup_replace_id_iff by auto

lemma lookup_id_snoc:
  "msg_id y \<notin> msg_id ` set xs \<Longrightarrow> lookup_id (xs @ [y]) k = (if msg_id y = k then Some y else lookup_id xs k)"
  by (induction xs) auto

lemma map_msg_id_replace: "map msg_id (replace_id m ms) = map msg_id ms"
  by (induction ms) auto

lemma update_as_replace:
  assumes "distinct (map msg_id ms)" and "i < length ms" and "msg_id (ms ! i) = msg_id m"
  shows "ms[i := m] = replace_id m ms"
proof (rule nth_equalityI)
  fix j assume "j < length (ms[i := m])"
  then have j: "j < length ms" by simp
  have "msg_id (ms ! j) = msg_id (ms ! i) \<longleftrightarrow> j = i"
    using assms(1,2) j by (metis length_map nth_eq_iff_index_eq nth_map)
  with assms j show "ms[i := m] ! j = replace_id m ms ! j" by (simp add: nth_list_update)
qed simp

text \<open>The invariant of the merge loop.\<close>

definition merge_inv :: "message list \<Rightarrow> merge_state \<Rightarrow> bool" where
  "merge_inv left s \<longleftrightarrow>
     distinct (map msg_id (merged s)) \<and>
     take (length left) (map msg_id (merged s)) = map msg_id left \<and>
     (\<forall>k i. dict_get (merged_by_id s) k = Some i \<longleftrightarrow> i < length (merged s) \<and> msg_id (merged s ! i) = k)"

definition visible :: "merge_state \<Rightarrow> string option \<Rightarrow> message option" where
  "visible s k = (if k \<in> ids_to_remove s then None else lookup_id (merged s) k)"

lemma merge_inv_known:
  assumes "merge_inv left s"
  shows "dict_get (merged_by_id s) k = None \<longleftrightarrow> k \<notin> msg_id ` set (merged s)"
proof -
  have "k \<in> msg_id ` set (merged s) \<longleftrightarrow> (\<exists>i < length (merged s). msg_id (merged s ! i) = k)"
    by (force simp: in_set_conv_nth)
  also have "\<dots> \<longleftrightarrow> (\<exists>i. dict_get (merged_by_id s) k = Some i)"
    using assms by (simp add: merge_inv_def)
  finally show ?thesis by (cases "dict_get (merged_by_id s) k") simp_all
qed

text \<open>The three ways one message is merged.\<close>

lemma merge_one_cases:
  assumes inv: "merge_inv left s" and step: "merge_one m s = Inr s'"
  obtains (appended) "\<not> is_remove m" "msg_id m \<notin> msg_id ` set (merged s)"
      "s' = s\<lparr>merged_by_id := dict_set (msg_id m) (length (merged s)) (merged_by_id s), merged := merged s @ [m]\<rparr>"
    | (tombstone) "is_remove m" "msg_id m \<in> msg_id ` set (merged s)"
      "s' = s\<lparr>ids_to_remove := insert (msg_id m) (ids_to_remove s)\<rparr>"
    | (replaced) "\<not> is_remove m" "msg_id m \<in> msg_id ` set (merged s)"
      "s' = s\<lparr>ids_to_remove := ids_to_remove s - {msg_id m}, merged := replace_id m (merged s)\<rparr>"
proof (cases "dict_get (merged_by_id s) (msg_id m)")
  case None
  have "msg_id m \<notin> msg_id ` set (merged s)" using merge_inv_known [OF inv] None by blast
  moreover have "\<not> is_remove m" using step None by (auto simp: merge_one_def)
  ultimately show thesis using step None by (intro appended) (simp_all add: merge_one_def)
next
  case (Some i)
  then have known: "msg_id m \<in> msg_id ` set (merged s)" using merge_inv_known [OF inv, of "msg_id m"] by auto
  have i: "i < length (merged s)" "msg_id (merged s ! i) = msg_id m" "distinct (map msg_id (merged s))"
    using inv Some by (simp_all add: merge_inv_def)
  show thesis
  proof (cases "is_remove m")
    case True
    with step Some known show thesis by (intro tombstone) (simp_all add: merge_one_def)
  next
    case False
    with step Some known update_as_replace [OF i(3,1,2)] show thesis by (intro replaced) (simp_all add: merge_one_def)
  qed
qed

lemma merge_one_inv:
  assumes inv: "merge_inv left s" and step: "merge_one m s = Inr s'"
  shows "merge_inv left s'"
  using inv step
proof (cases rule: merge_one_cases)
  case appended
  have len: "length left \<le> length (merged s)"
    using inv by (metis length_map length_take merge_inv_def min.cobounded1)
  from inv appended(2) have fresh: "i < length (merged s) \<Longrightarrow> msg_id (merged s ! i) \<noteq> msg_id m" for i
    by (metis image_eqI nth_mem)
  from inv have get: "dict_get (merged_by_id s) k = Some i \<longleftrightarrow> i < length (merged s) \<and> msg_id (merged s ! i) = k" for k i
    by (simp add: merge_inv_def)
  have "dict_get (merged_by_id s') k = Some i \<longleftrightarrow> i < length (merged s') \<and> msg_id (merged s' ! i) = k" for k i
    using fresh by (auto simp: appended(3) get nth_append less_Suc_eq)
  moreover have "distinct (map msg_id (merged s')) \<and> take (length left) (map msg_id (merged s')) = map msg_id left"
    using inv appended(2) len by (simp add: merge_inv_def appended(3))
  ultimately show ?thesis by (simp add: merge_inv_def)
next
  case tombstone
  with inv show ?thesis by (simp add: merge_inv_def)
next
  case replaced
  define ms where "ms = replace_id m (merged s)"
  have ids: "map msg_id ms = map msg_id (merged s)" unfolding ms_def by (rule map_msg_id_replace)
  then have len: "length ms = length (merged s)" by (metis length_map)
  have "msg_id (ms ! i) = msg_id (merged s ! i)" if "i < length (merged s)" for i
    using ids that len by (metis nth_map)
  with inv show ?thesis by (auto simp: merge_inv_def replaced(3) ms_def [symmetric] ids len)
qed

text \<open>What is visible after one message, with removed ids a subset of the known ones.\<close>

lemma merge_one_visible:
  assumes inv: "merge_inv left s" and dead: "ids_to_remove s \<subseteq> msg_id ` set (merged s)" and step: "merge_one m s = Inr s'"
  shows "visible s' k = decide k m (visible s k) \<and> ids_to_remove s' \<subseteq> msg_id ` set (merged s')"
  using inv step
proof (cases rule: merge_one_cases)
  case appended
  with dead show ?thesis by (auto simp: visible_def decide_def lookup_id_snoc)
next
  case tombstone
  with dead show ?thesis by (auto simp: visible_def decide_def)
next
  case replaced
  have "msg_id ` set (replace_id m (merged s)) = msg_id ` set (merged s)"
    using arg_cong [OF map_msg_id_replace [of m "merged s"], of set] by (simp only: set_map)
  moreover have "visible s' k = decide k m (visible s k)"
    using lookup_replace_id [OF replaced(2), of k] by (cases "k = msg_id m") (simp_all add: visible_def decide_def replaced(1,3))
  ultimately show ?thesis using dead unfolding replaced(3) by auto
qed

lemma merge_all_spec:
  "merge_all ms s = Inr s' \<Longrightarrow> merge_inv left s \<Longrightarrow> ids_to_remove s \<subseteq> msg_id ` set (merged s) \<Longrightarrow>
   merge_inv left s' \<and> visible s' k = fold (decide k) ms (visible s k)"
proof (induction ms arbitrary: s)
  case Nil
  then show ?case by simp
next
  case (Cons m ms)
  from Cons.prems(1) obtain s1 where s1: "merge_one m s = Inr s1" "merge_all ms s1 = Inr s'"
    by (auto split: sum.splits)
  from Cons.IH [OF s1(2) merge_one_inv [OF Cons.prems(2) s1(1)]] merge_one_visible [OF Cons.prems(2,3) s1(1)]
  show ?case by simp
qed

definition initial_merge :: "message list \<Rightarrow> merge_state" where
  "initial_merge left = \<lparr>merged = left, merged_by_id = id_index (\<lambda>_. True) 0 left [], ids_to_remove = {}\<rparr>"

lemma merge_inv_initial:
  assumes "distinct (map msg_id left)"
  shows "merge_inv left (initial_merge left)"
proof -
  have "last_index (\<lambda>m. msg_id m = k) left = Some i \<longleftrightarrow> i < length left \<and> msg_id (left ! i) = k" for k i
  proof
    assume "last_index (\<lambda>m. msg_id m = k) left = Some i"
    from last_index_SomeD [OF this] show "i < length left \<and> msg_id (left ! i) = k" by simp
  next
    assume i: "i < length left \<and> msg_id (left ! i) = k"
    then have "left ! i \<in> set left" "msg_id (left ! i) = k" by simp_all
    then have "last_index (\<lambda>m. msg_id m = k) left \<noteq> None" unfolding last_index_None_iff by blast
    then obtain j where j: "last_index (\<lambda>m. msg_id m = k) left = Some j" by blast
    from last_index_SomeD [OF j] i assms have "j = i"
      by (metis (no_types, lifting) length_map nth_eq_iff_index_eq nth_map)
    with j show "last_index (\<lambda>m. msg_id m = k) left = Some i" by simp
  qed
  moreover have "dict_get (id_index (\<lambda>_. True) 0 left []) k = last_index (\<lambda>m. msg_id m = k) left" for k
    by (simp add: id_index_get split: option.split)
  ultimately show ?thesis using assms by (simp add: merge_inv_def initial_merge_def)
qed

text \<open>C28. What a completed merge holds: on a left list with distinct ids, the last right message
  with an id decides (a removal deletes, anything else replaces or inserts), ids nobody mentions
  keep their left message, ids stay distinct, and the surviving left messages keep their order
  in front of the new ones.\<close>

theorem merge_messages_spec:
  assumes "distinct (map msg_id left)" and "merge_messages left right = Inr out"
  shows "lookup_id out k = fold (decide k) right (lookup_id left k) \<and> distinct (map msg_id out) \<and>
    (\<exists>new. map msg_id out = filter (\<lambda>i. i \<in> msg_id ` set out) (map msg_id left) @ new)"
proof -
  from assms(2) obtain s where s: "merge_all right (initial_merge left) = Inr s"
    and out: "out = filter (\<lambda>m. msg_id m \<notin> ids_to_remove s) (merged s)"
    by (auto simp: merge_messages_def initial_merge_def split: sum.splits)
  have sub: "ids_to_remove (initial_merge left) \<subseteq> msg_id ` set (merged (initial_merge left))"
    by (simp add: initial_merge_def)
  note spec = merge_all_spec [OF s merge_inv_initial [OF assms(1)] sub]
  from spec [of k] have look: "lookup_id out k = fold (decide k) right (lookup_id left k)"
    by (simp add: out lookup_id_filter visible_def initial_merge_def)
  let ?p = "\<lambda>i. i \<notin> ids_to_remove s"
  have ids: "map msg_id out = filter ?p (map msg_id (merged s))"
    by (simp add: out filter_map comp_def)
  have split: "map msg_id (merged s) = map msg_id left @ drop (length left) (map msg_id (merged s))"
    using spec by (metis append_take_drop_id merge_inv_def)
  have mem: "i \<in> msg_id ` set out \<longleftrightarrow> ?p i" if "i \<in> set (map msg_id left)" for i
  proof -
    have "i \<in> set (map msg_id (merged s))" using that by (subst split) simp
    then show ?thesis by (auto simp: out)
  qed
  have "map msg_id out = filter ?p (map msg_id left) @ filter ?p (drop (length left) (map msg_id (merged s)))"
    unfolding ids by (subst split) (rule filter_append)
  moreover have "filter ?p (map msg_id left) = filter (\<lambda>i. i \<in> msg_id ` set out) (map msg_id left)"
    using mem by (intro filter_cong) simp_all
  moreover have "distinct (map msg_id out)" using spec by (simp add: ids merge_inv_def)
  ultimately show ?thesis using look by metis
qed

theorem merge_messages_spec_witness:
  "lookup_id [plain_message AIRole ''1'' ''c''] (Some ''1'')
    = fold (decide (Some ''1'')) [plain_message RemoveRole ''1'' [], plain_message AIRole ''1'' ''c'']
        (lookup_id [plain_message HumanRole ''1'' ''a''] (Some ''1''))"
  using merge_messages_spec [of "[plain_message HumanRole ''1'' ''a'']"
      "[plain_message RemoveRole ''1'' [], plain_message AIRole ''1'' ''c'']" "[plain_message AIRole ''1'' ''c'']" "Some ''1''"]
  by (simp add: merge_messages_def merge_one_def plain_message_def)

text \<open>The ids a merge knows after one message.\<close>

lemma merge_one_ids:
  assumes "merge_inv left s" and "merge_one m s = Inr s'"
  shows "msg_id ` set (merged s') = msg_id ` set (merged s) \<union> msg_id ` set (filter (\<lambda>m. \<not> is_remove m) [m])"
  using assms
proof (cases rule: merge_one_cases)
  case replaced
  have "msg_id ` set (replace_id m (merged s)) = msg_id ` set (merged s)"
    using arg_cong [OF map_msg_id_replace [of m "merged s"], of set] by (simp only: set_map)
  with replaced show ?thesis by auto
qed auto

lemma merge_all_fails_iff:
  "merge_inv left s \<Longrightarrow> merge_all ms s = Inl ValueError \<longleftrightarrow>
   (\<exists>us m vs. ms = us @ m # vs \<and> is_remove m \<and>
      msg_id m \<notin> msg_id ` set (merged s) \<and> msg_id m \<notin> msg_id ` set (filter (\<lambda>x. \<not> is_remove x) us))"
proof (induction ms arbitrary: s)
  case Nil
  then show ?case by simp
next
  case (Cons m ms)
  have known: "dict_get (merged_by_id s) (msg_id m) = None \<longleftrightarrow> msg_id m \<notin> msg_id ` set (merged s)"
    by (rule merge_inv_known [OF Cons.prems])
  show ?case
  proof (cases "merge_one m s")
    case (Inl e)
    then have "is_remove m \<and> msg_id m \<notin> msg_id ` set (merged s) \<and> e = ValueError"
      using known by (auto simp: merge_one_def split: option.splits if_splits)
    then have "m # ms = [] @ m # ms \<and> is_remove m \<and> msg_id m \<notin> msg_id ` set (merged s)
        \<and> msg_id m \<notin> msg_id ` set (filter (\<lambda>x. \<not> is_remove x) [])" and "e = ValueError"
      by simp_all
    then show ?thesis using Inl by (auto intro: exI [of _ "[]"])
  next
    case (Inr s1)
    have ok: "\<not> (is_remove m \<and> msg_id m \<notin> msg_id ` set (merged s))"
      using Inr known by (auto simp: merge_one_def)
    note ids = merge_one_ids [OF Cons.prems Inr]
    have "merge_all (m # ms) s = Inl ValueError \<longleftrightarrow> merge_all ms s1 = Inl ValueError" by (simp add: Inr)
    also have "\<dots> \<longleftrightarrow> (\<exists>us x vs. ms = us @ x # vs \<and> is_remove x \<and> msg_id x \<notin> msg_id ` set (merged s) \<and>
        msg_id x \<notin> msg_id ` set (filter (\<lambda>x. \<not> is_remove x) (m # us)))"
      unfolding Cons.IH [OF merge_one_inv [OF Cons.prems Inr]] ids
      by (intro ex_cong1) (auto split: if_splits)
    also have "\<dots> \<longleftrightarrow> (\<exists>us x vs. m # ms = us @ x # vs \<and> is_remove x \<and> msg_id x \<notin> msg_id ` set (merged s) \<and>
        msg_id x \<notin> msg_id ` set (filter (\<lambda>x. \<not> is_remove x) us))" (is "_ = (\<exists>us x vs. ?R us x vs)")
    proof
      assume "\<exists>us x vs. ms = us @ x # vs \<and> is_remove x \<and> msg_id x \<notin> msg_id ` set (merged s) \<and>
        msg_id x \<notin> msg_id ` set (filter (\<lambda>x. \<not> is_remove x) (m # us))"
      then obtain us x vs where "?R (m # us) x vs" by auto
      then show "\<exists>us x vs. ?R us x vs" by blast
    next
      assume "\<exists>us x vs. ?R us x vs"
      then obtain us x vs where r: "?R us x vs" by blast
      with ok obtain us' where "us = m # us'" by (cases us) auto
      with r have "ms = us' @ x # vs \<and> is_remove x \<and> msg_id x \<notin> msg_id ` set (merged s) \<and>
        msg_id x \<notin> msg_id ` set (filter (\<lambda>x. \<not> is_remove x) (m # us'))" by simp
      then show "\<exists>us x vs. ms = us @ x # vs \<and> is_remove x \<and> msg_id x \<notin> msg_id ` set (merged s) \<and>
        msg_id x \<notin> msg_id ` set (filter (\<lambda>x. \<not> is_remove x) (m # us))" by blast
    qed
    finally show ?thesis .
  qed
qed

text \<open>Removing what is not there: a merge fails exactly when some removal names an id that
  neither the left list nor any earlier, non-removing right message has.\<close>

theorem merge_fails_iff:
  assumes "distinct (map msg_id left)"
  shows "merge_messages left right = Inl ValueError \<longleftrightarrow>
    (\<exists>us m vs. right = us @ m # vs \<and> is_remove m \<and>
       msg_id m \<notin> msg_id ` set left \<and> msg_id m \<notin> msg_id ` set (filter (\<lambda>x. \<not> is_remove x) us))"
proof -
  have "merge_messages left right = Inl ValueError \<longleftrightarrow> merge_all right (initial_merge left) = Inl ValueError"
    by (auto simp: merge_messages_def initial_merge_def split: sum.splits)
  then show ?thesis
    by (simp add: merge_all_fails_iff [OF merge_inv_initial [OF assms]]) (simp add: initial_merge_def)
qed

theorem merge_fails_iff_witness:
  "merge_messages [] [plain_message AIRole ''1'' [], plain_message RemoveRole ''2'' []] = Inl ValueError"
proof -
  let ?a = "plain_message AIRole ''1'' []" and ?r = "plain_message RemoveRole ''2'' []"
  have "[?a, ?r] = [?a] @ ?r # [] \<and> is_remove ?r \<and>
      msg_id ?r \<notin> msg_id ` set [] \<and> msg_id ?r \<notin> msg_id ` set (filter (\<lambda>x. \<not> is_remove x) [?a])"
    by (simp add: plain_message_def)
  then have "\<exists>us m vs. [?a, ?r] = us @ m # vs \<and> is_remove m \<and>
       msg_id m \<notin> msg_id ` set [] \<and> msg_id m \<notin> msg_id ` set (filter (\<lambda>x. \<not> is_remove x) us)"
    by blast
  then show ?thesis using merge_fails_iff [of "[]" "[?a, ?r]"] by simp
qed

text \<open>Without removals the two reducers coincide.\<close>

lemma merge_one_upsert:
  assumes "merge_inv left s" and "merge_one m s = Inr s'" and "\<not> is_remove m" and "msg_id m \<noteq> None" and "ids_to_remove s = {}"
  shows "merged s' = upsert m (merged s) \<and> ids_to_remove s' = {}"
  using assms(1,2) by (cases rule: merge_one_cases) (use assms(3-5) in \<open>simp_all add: upsert_def\<close>)

lemma merge_all_upsert:
  "merge_inv left s \<Longrightarrow> ids_to_remove s = {} \<Longrightarrow> list_all (\<lambda>m. \<not> is_remove m \<and> msg_id m \<noteq> None) ms \<Longrightarrow>
   \<exists>s'. merge_all ms s = Inr s' \<and> merged s' = fold upsert ms (merged s) \<and> ids_to_remove s' = {}"
proof (induction ms arbitrary: s)
  case Nil
  then show ?case by simp
next
  case (Cons m ms)
  then have "\<not> is_remove m" by simp
  then obtain s1 where s1: "merge_one m s = Inr s1"
    by (cases "dict_get (merged_by_id s) (msg_id m)") (simp_all add: merge_one_def)
  note m1 = merge_one_upsert [OF Cons.prems(1) s1]
  from Cons.IH [OF merge_one_inv [OF Cons.prems(1) s1]] Cons.prems(2,3) m1 s1
  show ?case by simp
qed

text \<open>Equivalence of the two reducers: on messages that all have ids and none of which is a
  removal, \<open>add_messages\<close> and the delta reducer compute the same list.\<close>

theorem reducers_agree_without_removals:
  assumes "distinct (map msg_id left)" and "list_all (\<lambda>m. msg_id m \<noteq> None) left"
    and "list_all (\<lambda>m. \<not> is_remove m \<and> msg_id m \<noteq> None) right"
  shows "add_messages id fmt fresh None (Many left) (Many right)
       = Inr (messages_delta_reducer id left [Many right])"
proof -
  have asg: "list_all (\<lambda>m. msg_id m \<noteq> None) ms \<Longrightarrow> assign_ids fresh k ms = (ms, k)" for ms and k :: nat
    by (induction ms) auto
  have right: "list_all (\<lambda>m. msg_id m \<noteq> None) right" using assms(3) by (simp add: list_all_iff)
  have no_all: "last_index is_remove_all right = None"
    using assms(3) by (auto simp: last_index_None_iff is_remove_all_def list_all_iff)
  have "map msg_id left = ids_of left" using assms(2) by (induction left) auto
  then have "distinct_ids left" using assms(1) by (simp add: distinct_ids_def)
  moreover obtain s where "merge_all right (initial_merge left) = Inr s" "merged s = fold upsert right left" "ids_to_remove s = {}"
    using merge_all_upsert [OF merge_inv_initial [OF assms(1)] _ assms(3)] by (auto simp: initial_merge_def)
  then have "merge_messages left right = Inr (fold upsert right left)"
    by (simp add: merge_messages_def initial_merge_def)
  ultimately show ?thesis
    by (simp add: add_messages_def asg [OF assms(2)] asg [OF right] no_all apply_format_def delta_reducer_spec)
qed

theorem reducers_agree_without_removals_witness:
  "add_messages id id (\<lambda>_. []) None (Many [plain_message HumanRole ''1'' ''a'']) (Many [plain_message AIRole ''2'' ''b''])
     = Inr (messages_delta_reducer id [plain_message HumanRole ''1'' ''a''] [Many [plain_message AIRole ''2'' ''b'']])"
  by (rule reducers_agree_without_removals) (simp_all add: plain_message_def)

text \<open>They differ on a message that is removed and then written again in the same update: the
  delta reducer moves it to the end of the history, \<open>add_messages\<close> puts it back where it was.\<close>

theorem reducers_differ_on_rewrite:
  assumes "msg_id a = Some i" and "msg_id b = Some j" and "i \<noteq> j" and "i \<noteq> remove_all_messages"
    and "is_remove r" and "msg_id r = Some i" and "\<not> is_remove a'" and "msg_id a' = Some i"
  shows "add_messages id fmt fresh None (Many [a, b]) (Many [r, a']) = Inr [a', b] \<and>
         messages_delta_reducer id [a, b] [Many [r, a']] = [b, a']"
  using assms
  by (simp add: add_messages_def is_remove_all_def merge_messages_def merge_one_def apply_format_def
      last_index_def messages_delta_reducer_def delta_one_def)

theorem reducers_differ_on_rewrite_witness:
  "add_messages id id (\<lambda>_. []) None (Many [plain_message HumanRole ''1'' ''a'', plain_message AIRole ''2'' ''b''])
      (Many [plain_message RemoveRole ''1'' [], plain_message HumanRole ''1'' ''c''])
     = Inr [plain_message HumanRole ''1'' ''c'', plain_message AIRole ''2'' ''b'']"
  using reducers_differ_on_rewrite [of "plain_message HumanRole ''1'' ''a''" "''1''" "plain_message AIRole ''2'' ''b''" "''2''"
     "plain_message RemoveRole ''1'' []" "plain_message HumanRole ''1'' ''c''" id "\<lambda>_. []"]
  by (simp add: plain_message_def remove_all_messages_def)

text \<open>The marker that clears the history: everything before it, on both sides, is dropped.\<close>

lemma add_messages_remove_all:
  assumes "is_remove_all r" and "list_all (\<lambda>m. \<not> is_remove_all m \<and> msg_id m \<noteq> None) kept"
    and "list_all (\<lambda>m. msg_id m \<noteq> None) left"
  shows "add_messages id fmt fresh format (Many left) (Many (r # kept)) = Inr kept"
proof -
  have asg: "list_all (\<lambda>m. msg_id m \<noteq> None) ms \<Longrightarrow> assign_ids fresh k ms = (ms, k)" for ms and k :: nat
    by (induction ms) auto
  have named: "list_all (\<lambda>m. msg_id m \<noteq> None) (r # kept)"
    using assms(1,2) by (auto simp: list_all_iff is_remove_all_def)
  have skip: "list_all (\<lambda>m. \<not> P m) ms \<Longrightarrow> last_index_from P n ms acc = acc" for P :: "message \<Rightarrow> bool" and ms n acc
    by (induction ms arbitrary: n) simp_all
  have "last_index is_remove_all (r # kept) = Some 0"
    using assms(1,2) by (simp add: last_index_def) (rule skip, simp add: list_all_iff)
  then show ?thesis using assms(1)
    by (simp add: add_messages_def asg [OF assms(3)] asg [OF named] del: assign_ids.simps)
qed

end
