(* ===== verification/ToolNode.thy ===== *)
theory ToolNode
  imports Messages Text
begin

text \<open>
  The tool node of \<open>langgraph/prebuilt/tool_node.py\<close>: which arguments of a tool are injected, how the calls
  of a model are found in the input, how one call is executed (validation, injection, errors, the answer of
  the tool), the interceptor around it, and how the outputs of the calls are combined. Tools, interceptors and
  error handlers are user code and arguments of the definitions. The calls of a node run in the order of the
  list, on a state they share.
\<close>

section \<open>Injected arguments\<close>

text \<open>The types the annotations of a tool are made of: an instance of a marker with its field, a marker class,
  a union or \<open>Annotated\<close> type, a generic type with its origin, and every other type.\<close>

datatype marker = StateMarker | StoreMarker | RuntimeMarker

datatype type_arg =
    MarkerInstance marker "string option"
  | MarkerClass marker
  | Joined "type_arg list"
  | Generic "marker option" "type_arg list"
  | OtherType string

fun is_injection :: "marker \<Rightarrow> type_arg \<Rightarrow> bool" where
  "is_injection m (MarkerInstance m' f) = (m' = m)"
| "is_injection m (MarkerClass m') = (m' = m)"
| "is_injection m (Joined ts) = list_ex (is_injection m) ts"
| "is_injection m (Generic origin ts) = (origin = Some m)"
| "is_injection m (OtherType s) = False"

fun type_args :: "type_arg \<Rightarrow> type_arg list" where
  "type_args (Joined ts) = ts"
| "type_args (Generic origin ts) = ts"
| "type_args _ = []"

datatype injection = NoInjection | FoundArgument type_arg | FoundMarker

definition injection_from_type :: "marker \<Rightarrow> type_arg \<Rightarrow> injection result" where
  "injection_from_type m t =
     (case filter (is_injection m) (type_args t) of
        [] \<Rightarrow> Inr (if is_injection m t then FoundMarker else NoInjection)
      | [a] \<Rightarrow> Inr (FoundArgument a)
      | _ \<Rightarrow> Inl ValueError)"

record injected_args =
  ia_state :: "(string, string option) dict"
  ia_store :: "string option"
  ia_runtime :: "string option"
  ia_keys :: "string list"
  ia_optional :: "string list"

text \<open>A tool: the type hints of its function and of its schema, the fields of the schema that are required,
  and what it does. \<open>tl_hidden\<close> is langchain's test for an injected argument type.\<close>

datatype msg_item = Message message | RawMessage pyval

datatype field = Msgs "msg_item list" | Val pyval

datatype node_state =
    ListState "msg_item list"
  | DictState "(string, field) dict"
  | ObjectState "(string, field) dict"

record tool_runtime =
  rt_state :: node_state
  rt_call_id :: "string option"
  rt_store :: bool

datatype tool_arg = Given pyval | StateField field | WholeState node_state | StoreArg | RuntimeArg tool_runtime

record invocation =
  inv_name :: string
  inv_id :: "string option"
  inv_args :: "(string, tool_arg) dict"

text \<open>What a tool may raise. \<open>OtherExc\<close> lists the class of the exception and its base classes.\<close>

record error_detail =
  ed_loc :: "pyval list"
  ed_msg :: "string option"
  ed_input :: "pyval option"

datatype tool_exc =
    BubbleUp "pyval list"
  | ValidationExc "error_detail list"
  | InvocationExc string pydict "error_detail list"
  | OtherExc "string list"

datatype command_target = ThisGraph | ParentGraph | NamedGraph string

datatype goto_item = SendTo string pyval | GotoNode string

datatype goto = GotoList "goto_item list" | GotoTuple "goto_item list" | GotoOne goto_item

datatype command_update = NoUpdate | DictUpdate "(string, field) dict" | ListUpdate "msg_item list" | OtherUpdate pyval

record tool_command =
  tc_graph :: command_target
  tc_goto :: goto
  tc_resume :: "pyval option"
  tc_update :: command_update

datatype response_item = GaveCommand tool_command | GaveMessage message | GaveOther

datatype response = ResponseItem response_item | ResponseList "response_item list"

record 's tool =
  tl_name :: string
  tl_direct :: bool
  tl_func_hints :: "(string, type_arg) dict"
  tl_schema_hints :: "(string, type_arg) dict"
  tl_required :: "(string, bool) dict"
  tl_hidden :: "type_arg \<Rightarrow> bool"
  tl_invoke :: "invocation \<Rightarrow> 's \<Rightarrow> (tool_exc + response) \<times> 's"

definition scan_state :: "(string, bool) dict \<Rightarrow> string \<Rightarrow> injection \<Rightarrow> injected_args \<Rightarrow> injected_args" where
  "scan_state required n found ia =
     (case found of
        NoInjection \<Rightarrow> ia
      | FoundArgument (MarkerInstance StateMarker (Some f)) \<Rightarrow>
          if f = [] then ia\<lparr>ia_state := dict_set n None (ia_state ia)\<rparr>
          else ia\<lparr>ia_state := dict_set n (Some f) (ia_state ia),
                  ia_optional := (if dict_get required n = Some False then n # ia_optional ia else ia_optional ia)\<rparr>
      | _ \<Rightarrow> ia\<lparr>ia_state := dict_set n None (ia_state ia)\<rparr>)"

definition scan_annotation ::
  "(type_arg \<Rightarrow> bool) \<Rightarrow> (string, bool) dict \<Rightarrow> string \<times> type_arg \<Rightarrow> injected_args \<Rightarrow> injected_args result" where
  "scan_annotation hidden required p ia =
     (let (n, t) = p;
          ia1 = (if hidden t then ia\<lparr>ia_keys := n # ia_keys ia\<rparr> else ia);
          ia2 = (if n = ''runtime'' then ia1\<lparr>ia_runtime := Some n\<rparr> else ia1)
      in case injection_from_type StateMarker t of
           Inl e \<Rightarrow> Inl e
         | Inr s \<Rightarrow>
             (case injection_from_type StoreMarker t of
                Inl e \<Rightarrow> Inl e
              | Inr st \<Rightarrow>
                  (case injection_from_type RuntimeMarker t of
                     Inl e \<Rightarrow> Inl e
                   | Inr r \<Rightarrow>
                       (let ia3 = scan_state required n s ia2;
                            ia4 = (if st = NoInjection then ia3 else ia3\<lparr>ia_store := Some n\<rparr>)
                        in Inr (if r = NoInjection then ia4 else ia4\<lparr>ia_runtime := Some n\<rparr>)))))"

fun scan_annotations ::
  "(type_arg \<Rightarrow> bool) \<Rightarrow> (string, bool) dict \<Rightarrow> (string \<times> type_arg) list \<Rightarrow> injected_args \<Rightarrow> injected_args result" where
  "scan_annotations hidden required [] ia = Inr ia"
| "scan_annotations hidden required (p # ps) ia =
     (case scan_annotation hidden required p ia of Inl e \<Rightarrow> Inl e | Inr ia' \<Rightarrow> scan_annotations hidden required ps ia')"

text \<open>The hints of the schema go before those of the function.\<close>

definition tool_annotations :: "'s tool \<Rightarrow> (string, type_arg) dict" where
  "tool_annotations t = fold (\<lambda>(n, a). dict_set n a) (tl_schema_hints t) (fold (\<lambda>(n, a). dict_set n a) (tl_func_hints t) [])"

definition all_injected_args :: "'s tool \<Rightarrow> injected_args result" where
  "all_injected_args t =
     scan_annotations (tl_hidden t) (tl_required t)
       (tool_annotations t)
       \<lparr>ia_state = [], ia_store = None, ia_runtime = None, ia_keys = [], ia_optional = []\<rparr>"

section \<open>Errors\<close>

definition raised_class :: "py_exc \<Rightarrow> tool_exc" where
  "raised_class e =
     OtherExc (case e of
        ValueError \<Rightarrow> [''ValueError'']
      | KeyError \<Rightarrow> [''KeyError'', ''LookupError'']
      | TypeError \<Rightarrow> [''TypeError'']
      | AttributeError \<Rightarrow> [''AttributeError'']
      | IndexError \<Rightarrow> [''IndexError'', ''LookupError'']
      | _ \<Rightarrow> [''RuntimeError''])"

fun exc_classes :: "tool_exc \<Rightarrow> string list" where
  "exc_classes (BubbleUp vs) = [''GraphBubbleUp'', ''Exception'']"
| "exc_classes (ValidationExc ds) = [''ValidationError'', ''ValueError'', ''Exception'']"
| "exc_classes (InvocationExc n a ds) = [''ToolInvocationError'', ''ToolException'', ''Exception'']"
| "exc_classes (OtherExc cs) = cs @ [''Exception'']"

definition exc_is :: "tool_exc \<Rightarrow> string list \<Rightarrow> bool" where
  "exc_is e cs \<longleftrightarrow> list_ex (\<lambda>c. c \<in> set cs) (exc_classes e)"

fun is_bubble :: "tool_exc \<Rightarrow> bool" where
  "is_bubble (BubbleUp vs) = True"
| "is_bubble _ = False"

text \<open>The values of \<open>handle_tool_errors\<close>. A handler is known by its parameters; a hint is a union of classes
  or a class, each with whether it is an exception class.\<close>

datatype type_hint = UnionHint "(string \<times> bool) list" | ClassHint string bool

record handler_param =
  hp_name :: string
  hp_hint :: "type_hint option"

datatype error_handler =
    HandleFlag bool
  | HandleText string
  | HandleClass string
  | HandleClasses "string list"
  | HandleCall "handler_param list" "tool_exc \<Rightarrow> tool_exc + string"

definition infer_handled_types :: "handler_param list \<Rightarrow> string list result" where
  "infer_handled_types ps =
     (case ps of
        [] \<Rightarrow> Inr [''Exception'']
      | p # qs \<Rightarrow>
          (let first = (if hp_name p \<in> {''self'', ''cls''} \<and> length ps = 2 then hd qs else p)
           in case hp_hint first of
                None \<Rightarrow> Inr [''Exception'']
              | Some (UnionHint cs) \<Rightarrow> if list_all snd cs then Inr (map fst cs) else Inl ValueError
              | Some (ClassHint c exc) \<Rightarrow> if exc then Inr [c] else Inl ValueError))"

fun handler_on :: "error_handler \<Rightarrow> bool" where
  "handler_on (HandleFlag b) = b"
| "handler_on (HandleText s) = (s \<noteq> [])"
| "handler_on (HandleClasses cs) = (cs \<noteq> [])"
| "handler_on _ = True"

fun handled_types :: "error_handler \<Rightarrow> string list result" where
  "handled_types (HandleClass c) = Inr [c]"
| "handled_types (HandleClasses cs) = Inr cs"
| "handled_types (HandleCall ps f) = infer_handled_types ps"
| "handled_types _ = Inr [''Exception'']"

text \<open>Texts and conversions that are langchain's or Python's: \<open>repr\<close> of an exception, \<open>str\<close> of arguments and
  of a value, the conversion of raw messages, JSON, the types of content blocks.\<close>

record node_texts =
  tx_repr :: "tool_exc \<Rightarrow> string"
  tx_args :: "pydict \<Rightarrow> string"
  tx_str :: "pyval \<Rightarrow> string"
  tx_message :: "pyval \<Rightarrow> message"
  tx_messages :: "pyval \<Rightarrow> message list result"
  tx_dump :: "pyval \<Rightarrow> string"
  tx_blocks :: "string list"

definition tool_call_error_text :: "node_texts \<Rightarrow> tool_exc \<Rightarrow> string" where
  "tool_call_error_text tx e = ''Error: '' @ tx_repr tx e @ [CHR 0x0A] @ '' Please fix your mistakes.''"

definition invalid_tool_text :: "string \<Rightarrow> string list \<Rightarrow> string" where
  "invalid_tool_text n tools = ''Error: '' @ n @ '' is not a valid tool, try one of ['' @ join '', '' tools @ ''].''"

definition detail_text :: "node_texts \<Rightarrow> error_detail \<Rightarrow> string" where
  "detail_text tx d =
     join ''.'' (map (tx_str tx) (ed_loc d)) @ '': '' @ (case ed_msg d of Some m \<Rightarrow> m | None \<Rightarrow> ''Unknown error'')"

definition invocation_text :: "node_texts \<Rightarrow> string \<Rightarrow> pydict \<Rightarrow> error_detail list \<Rightarrow> string" where
  "invocation_text tx n a ds =
     ''Error invoking tool '' @ [CHR 0x27] @ n @ [CHR 0x27] @ '' with kwargs '' @ tx_args tx a @ '' with error:'' @ [CHR 0x0A]
     @ '' '' @ join [CHR 0x0A] (map (detail_text tx) ds) @ [CHR 0x0A] @ '' Please fix the error and try again.''"

definition default_handler :: "node_texts \<Rightarrow> error_handler" where
  "default_handler tx =
     HandleCall [\<lparr>hp_name = ''e'', hp_hint = Some (ClassHint ''Exception'' True)\<rparr>]
       (\<lambda>e. case e of InvocationExc n a ds \<Rightarrow> Inr (invocation_text tx n a ds) | _ \<Rightarrow> Inl e)"

definition handle_tool_error :: "node_texts \<Rightarrow> tool_exc \<Rightarrow> error_handler \<Rightarrow> tool_exc + string" where
  "handle_tool_error tx e h =
     (case h of
        HandleText s \<Rightarrow> Inr s
      | HandleCall ps f \<Rightarrow> f e
      | _ \<Rightarrow> Inr (tool_call_error_text tx e))"

definition injected_names :: "injected_args \<Rightarrow> string list" where
  "injected_names ia = map fst (ia_state ia) @ (case ia_store ia of None \<Rightarrow> [] | Some n \<Rightarrow> [n]) @ (case ia_runtime ia of None \<Rightarrow> [] | Some n \<Rightarrow> [n])"

definition filter_validation_errors :: "error_detail list \<Rightarrow> injected_args option \<Rightarrow> error_detail list" where
  "filter_validation_errors ds ia =
     (let names = (case ia of None \<Rightarrow> [] | Some i \<Rightarrow> injected_names i)
      in map (\<lambda>d. d\<lparr>ed_input := (case ed_input d of Some (PDict kvs) \<Rightarrow> Some (PDict (filter (\<lambda>(k, v). k \<notin> set names) kvs)) | o' \<Rightarrow> o')\<rparr>)
           (filter (\<lambda>d. ed_loc d \<noteq> [] \<and> hd (ed_loc d) \<notin> PStr ` set names) ds))"

definition error_message :: "tool_call \<Rightarrow> string \<Rightarrow> message" where
  "error_message c txt = \<lparr>role = ToolRole, msg_id = None, content = PStr txt, msg_name = Some (call_name c), tool_calls = [],
     tool_call_id = call_id c, status = Some ''error''\<rparr>"

section \<open>The node\<close>

datatype out_item = OutMessage message | OutCommand tool_command

datatype tool_output = OneItem out_item | ItemList "out_item list"

datatype input_type = ListInput | DictInput | CallsInput

record 's tool_request =
  rq_call :: tool_call
  rq_tool :: "'s tool option"
  rq_state :: node_state
  rq_runtime :: tool_runtime

type_synonym 's executor = "'s tool_request \<Rightarrow> 's \<Rightarrow> (tool_exc + tool_output) \<times> 's"

record 's tool_node =
  tn_tools :: "(string, 's tool) dict"
  tn_injected :: "(string, injected_args) dict"
  tn_handler :: error_handler
  tn_key :: string
  tn_wrap :: "('s executor \<Rightarrow> 's executor) option"

fun register_tools :: "'s tool list \<Rightarrow> 's tool_node \<Rightarrow> 's tool_node result" where
  "register_tools [] nd = Inr nd"
| "register_tools (t # ts) nd =
     (case all_injected_args t of
        Inl e \<Rightarrow> Inl e
      | Inr ia \<Rightarrow> register_tools ts (nd\<lparr>tn_tools := dict_set (tl_name t) t (tn_tools nd), tn_injected := dict_set (tl_name t) ia (tn_injected nd)\<rparr>))"

definition make_tool_node ::
  "'s tool list \<Rightarrow> error_handler \<Rightarrow> string \<Rightarrow> ('s executor \<Rightarrow> 's executor) option \<Rightarrow> 's tool_node result" where
  "make_tool_node tools h key wrap =
     register_tools tools \<lparr>tn_tools = [], tn_injected = [], tn_handler = h, tn_key = key, tn_wrap = wrap\<rparr>"

section \<open>The input\<close>

text \<open>\<open>ToolCalls\<close> is a list whose last item is a tool call, \<open>CallWithContext\<close> the payload of a Send.\<close>

datatype node_input = StateInput node_state | ToolCalls "tool_call list" | CallWithContext tool_call node_state

fun find_ai_message :: "msg_item list \<Rightarrow> message option" where
  "find_ai_message [] = None"
| "find_ai_message (Message m # ms) = (if role m = AIRole then Some m else find_ai_message ms)"
| "find_ai_message (RawMessage v # ms) = find_ai_message ms"

definition calls_of_messages :: "msg_item list \<Rightarrow> tool_call list result" where
  "calls_of_messages ms = (case find_ai_message (rev ms) of None \<Rightarrow> Inl ValueError | Some m \<Rightarrow> Inr (tool_calls m))"

text \<open>The field of the messages: missing or false, it is no input; reversing a value that is no sequence fails.\<close>

definition calls_of_field :: "field option \<Rightarrow> tool_call list result" where
  "calls_of_field f =
     (case f of
        None \<Rightarrow> Inl ValueError
      | Some (Msgs ms) \<Rightarrow> if ms = [] then Inl ValueError else calls_of_messages ms
      | Some (Val v) \<Rightarrow>
          if \<not> truthy v then Inl ValueError
          else (case v of PStr s \<Rightarrow> Inl ValueError | PList xs \<Rightarrow> Inl ValueError | PDict d \<Rightarrow> Inl ValueError | _ \<Rightarrow> Inl TypeError))"

definition parse_input :: "string \<Rightarrow> node_input \<Rightarrow> (tool_call list \<times> input_type) result" where
  "parse_input key inp =
     (case inp of
        ToolCalls cs \<Rightarrow> Inr (cs, CallsInput)
      | CallWithContext c st \<Rightarrow> Inr ([c], CallsInput)
      | StateInput (ListState ms) \<Rightarrow> if ms = [] then Inl IndexError else map_sum id (\<lambda>cs. (cs, ListInput)) (calls_of_messages ms)
      | StateInput (DictState d) \<Rightarrow> map_sum id (\<lambda>cs. (cs, DictInput)) (calls_of_field (dict_get d key))
      | StateInput (ObjectState d) \<Rightarrow> map_sum id (\<lambda>cs. (cs, DictInput)) (calls_of_field (dict_get d key)))"

text \<open>\<open>channels\<close> is what \<open>CONFIG_KEY_READ\<close> reads from all channels, when it is configured.\<close>

definition extract_state :: "(string, field) dict option \<Rightarrow> node_input \<Rightarrow> node_state" where
  "extract_state channels inp =
     (case inp of
        CallWithContext c st \<Rightarrow> st
      | ToolCalls cs \<Rightarrow> (if cs = [] then ListState [] else DictState (case channels of None \<Rightarrow> [] | Some d \<Rightarrow> d))
      | StateInput st \<Rightarrow> st)"

section \<open>Injection\<close>

text \<open>A list state stands for the dictionary of its messages when a tool asks for no other field.\<close>

definition state_for_injection :: "string \<Rightarrow> (string, string option) dict \<Rightarrow> node_state \<Rightarrow> node_state result" where
  "state_for_injection key wanted st =
     (case st of
        ListState ms \<Rightarrow>
          (let required = map snd wanted
           in if length required = 1 \<and> hd required = Some key \<or> hd required = None then Inr (DictState [(key, Msgs ms)])
              else Inl ValueError)
      | _ \<Rightarrow> Inr st)"

fun inject_state ::
  "py_exc \<Rightarrow> node_state \<Rightarrow> (string, field) dict \<Rightarrow> string list \<Rightarrow> (string \<times> string option) list \<Rightarrow> (string, tool_arg) dict
     \<Rightarrow> (string, tool_arg) dict result" where
  "inject_state missing st d optional [] acc = Inr acc"
| "inject_state missing st d optional ((n, want) # ws) acc =
     (case want of
        None \<Rightarrow> inject_state missing st d optional ws (dict_set n (WholeState st) acc)
      | Some f \<Rightarrow>
          (case dict_get d f of
             Some v \<Rightarrow> inject_state missing st d optional ws (dict_set n (StateField v) acc)
           | None \<Rightarrow> if n \<in> set optional then inject_state missing st d optional ws acc else Inl missing))"

definition inject_state_args :: "string \<Rightarrow> injected_args \<Rightarrow> node_state \<Rightarrow> (string, tool_arg) dict result" where
  "inject_state_args key ia st =
     (if ia_state ia = [] then Inr []
      else (case state_for_injection key (ia_state ia) st of
              Inl e \<Rightarrow> Inl e
            | Inr st' \<Rightarrow>
                (case st' of
                   DictState d \<Rightarrow> inject_state KeyError st' d (ia_optional ia) (ia_state ia) []
                 | ObjectState d \<Rightarrow> inject_state AttributeError st' d (ia_optional ia) (ia_state ia) []
                 | ListState ms \<Rightarrow> Inl TypeError)))"

definition given_args :: "pydict \<Rightarrow> (string, tool_arg) dict" where
  "given_args a = map (\<lambda>(k, v). (k, Given v)) a"

definition trusted_args :: "string \<Rightarrow> injected_args \<Rightarrow> tool_runtime \<Rightarrow> (string, tool_arg) dict result" where
  "trusted_args key ia rt =
     (case inject_state_args key ia (rt_state rt) of
        Inl e \<Rightarrow> Inl e
      | Inr a1 \<Rightarrow>
          (if ia_store ia \<noteq> None \<and> \<not> rt_store rt then Inl ValueError
           else (let a2 = (case ia_store ia of None \<Rightarrow> a1 | Some n \<Rightarrow> dict_set n StoreArg a1)
                 in Inr (case ia_runtime ia of None \<Rightarrow> a2 | Some n \<Rightarrow> dict_set n (RuntimeArg rt) a2))))"

definition injection_plan :: "'s tool_node \<Rightarrow> string \<Rightarrow> 's tool option \<Rightarrow> injected_args option result" where
  "injection_plan nd n tool =
     (case dict_get (tn_injected nd) n of
        Some ia \<Rightarrow> Inr (Some ia)
      | None \<Rightarrow> (case tool of None \<Rightarrow> Inr None | Some t \<Rightarrow> map_sum id Some (all_injected_args t)))"

definition inject_tool_args :: "'s tool_node \<Rightarrow> tool_call \<Rightarrow> tool_runtime \<Rightarrow> 's tool option \<Rightarrow> (string, tool_arg) dict result" where
  "inject_tool_args nd c rt tool =
     (case injection_plan nd (call_name c) tool of
        Inl e \<Rightarrow> Inl e
      | Inr None \<Rightarrow> Inr (given_args (call_args c))
      | Inr (Some ia) \<Rightarrow>
          (case trusted_args (tn_key nd) ia rt of
             Inl e \<Rightarrow> Inl e
           | Inr trusted \<Rightarrow>
               Inr (fold (\<lambda>(k, v). dict_set k v) trusted
                      (filter (\<lambda>(k, v). k \<notin> set (ia_keys ia)) (given_args (call_args c))))))"

section \<open>The answer of a tool\<close>

definition msg_content_output :: "node_texts \<Rightarrow> pyval \<Rightarrow> pyval" where
  "msg_content_output tx v =
     (case v of
        PStr s \<Rightarrow> v
      | PList xs \<Rightarrow>
          if list_all (\<lambda>x. case x of PDict d \<Rightarrow> (case dict_get d ''type'' of Some (PStr t) \<Rightarrow> t \<in> set (tx_blocks tx) | _ \<Rightarrow> False) | _ \<Rightarrow> False) xs
          then v else PStr (tx_dump tx v)
      | _ \<Rightarrow> PStr (tx_dump tx v))"

text \<open>The messages of an update as objects, and the update with the matching ones named after the tool: only
  a message that was an object is the one in the update.\<close>

definition item_message :: "node_texts \<Rightarrow> msg_item \<Rightarrow> message" where
  "item_message tx x = (case x of Message m \<Rightarrow> m | RawMessage v \<Rightarrow> tx_message tx v)"

definition terminates :: "tool_call \<Rightarrow> message \<Rightarrow> bool" where
  "terminates c m \<longleftrightarrow> role m = ToolRole \<and> tool_call_id m = call_id c"

definition name_item :: "tool_call \<Rightarrow> msg_item \<Rightarrow> msg_item" where
  "name_item c x =
     (case x of Message m \<Rightarrow> (if terminates c m then Message (m\<lparr>msg_name := Some (call_name c)\<rparr>) else x) | RawMessage v \<Rightarrow> x)"

definition remove_all_message :: message where
  "remove_all_message = \<lparr>role = RemoveRole, msg_id = Some remove_all_messages, content = PStr [], msg_name = None, tool_calls = [],
     tool_call_id = None, status = None\<rparr>"

definition finish_command :: "tool_call \<Rightarrow> bool \<Rightarrow> message list \<Rightarrow> tool_command \<Rightarrow> tool_command \<Rightarrow> tool_command result" where
  "finish_command c require ms cmd named =
     (if ms = [remove_all_message] then Inr cmd
      else if require \<and> tc_graph cmd = ThisGraph \<and> \<not> list_ex (terminates c) ms then Inl ValueError
      else Inr named)"

definition validate_tool_command ::
  "node_texts \<Rightarrow> string \<Rightarrow> tool_command \<Rightarrow> tool_call \<Rightarrow> input_type \<Rightarrow> bool \<Rightarrow> tool_command result" where
  "validate_tool_command tx key cmd c ity require =
     (case tc_update cmd of
        DictUpdate d \<Rightarrow>
          (if ity = ListInput then Inl ValueError
           else (case dict_get d key of
                   None \<Rightarrow> finish_command c require [] cmd cmd
                 | Some (Msgs xs) \<Rightarrow>
                     finish_command c require (map (item_message tx) xs) cmd
                       (cmd\<lparr>tc_update := DictUpdate (dict_set key (Msgs (map (name_item c) xs)) d)\<rparr>)
                 | Some (Val v) \<Rightarrow>
                     (case tx_messages tx v of Inl e \<Rightarrow> Inl e | Inr ms \<Rightarrow> finish_command c require ms cmd cmd)))
      | ListUpdate xs \<Rightarrow>
          (if ity \<noteq> ListInput then Inl ValueError
           else finish_command c require (map (item_message tx) xs) cmd (cmd\<lparr>tc_update := ListUpdate (map (name_item c) xs)\<rparr>))
      | _ \<Rightarrow> Inr cmd)"

definition set_content :: "node_texts \<Rightarrow> message \<Rightarrow> message" where
  "set_content tx m = m\<lparr>content := msg_content_output tx (content m)\<rparr>"

text \<open>How often the items of a list answer the call: as messages, or inside the updates of commands.\<close>

definition item_terminators :: "string \<Rightarrow> tool_call \<Rightarrow> response_item \<Rightarrow> nat" where
  "item_terminators key c x =
     (case x of
        GaveMessage m \<Rightarrow> (if tool_call_id m = call_id c then 1 else 0)
      | GaveCommand cmd \<Rightarrow>
          (case tc_update cmd of
             DictUpdate d \<Rightarrow>
               (case dict_get d key of
                  Some (Msgs xs) \<Rightarrow> length (filter (\<lambda>x. case x of Message m \<Rightarrow> terminates c m | RawMessage v \<Rightarrow> False) xs)
                | _ \<Rightarrow> 0)
           | _ \<Rightarrow> 0)
      | GaveOther \<Rightarrow> 0)"

text \<open>The messages field of a command's update that cannot be iterated over.\<close>

definition unreadable_update :: "string \<Rightarrow> response_item \<Rightarrow> bool" where
  "unreadable_update key x =
     (case x of
        GaveCommand cmd \<Rightarrow>
          (case tc_update cmd of
             DictUpdate d \<Rightarrow>
               (case dict_get d key of
                  Some (Val v) \<Rightarrow> (case v of PStr s \<Rightarrow> False | PList xs \<Rightarrow> False | PDict kvs \<Rightarrow> False | _ \<Rightarrow> True)
                | _ \<Rightarrow> False)
           | _ \<Rightarrow> False)
      | _ \<Rightarrow> False)"

fun validate_items :: "node_texts \<Rightarrow> string \<Rightarrow> tool_call \<Rightarrow> input_type \<Rightarrow> response_item list \<Rightarrow> out_item list result" where
  "validate_items tx key c ity [] = Inr []"
| "validate_items tx key c ity (x # xs) =
     (case (case x of
              GaveCommand cmd \<Rightarrow> map_sum id OutCommand (validate_tool_command tx key cmd c ity False)
            | GaveMessage m \<Rightarrow> Inr (OutMessage (set_content tx m))
            | GaveOther \<Rightarrow> Inl TypeError) of
        Inl e \<Rightarrow> Inl e
      | Inr y \<Rightarrow> map_sum id (\<lambda>ys. y # ys) (validate_items tx key c ity xs))"

definition validate_tool_command_list ::
  "node_texts \<Rightarrow> string \<Rightarrow> response_item list \<Rightarrow> tool_call \<Rightarrow> input_type \<Rightarrow> out_item list result" where
  "validate_tool_command_list tx key xs c ity =
     (if list_ex (unreadable_update key) xs then Inl TypeError
      else if sum_list (map (item_terminators key c) xs) \<noteq> 1 then Inl ValueError
      else validate_items tx key c ity xs)"

text \<open>The tests for a \<open>Command\<close> or a \<open>ToolMessage\<close>: a message of another class is neither.\<close>

definition tool_item :: "response_item \<Rightarrow> bool" where
  "tool_item x = (case x of GaveCommand cmd \<Rightarrow> True | GaveMessage m \<Rightarrow> role m = ToolRole | GaveOther \<Rightarrow> False)"

definition normalize_tool_response ::
  "node_texts \<Rightarrow> string \<Rightarrow> response \<Rightarrow> tool_call \<Rightarrow> input_type \<Rightarrow> tool_output result" where
  "normalize_tool_response tx key r c ity =
     (case r of
        ResponseItem x \<Rightarrow>
          if \<not> tool_item x then Inl TypeError
          else (case x of
                  GaveCommand cmd \<Rightarrow> map_sum id (\<lambda>y. OneItem (OutCommand y)) (validate_tool_command tx key cmd c ity True)
                | GaveMessage m \<Rightarrow> Inr (OneItem (OutMessage (set_content tx m)))
                | GaveOther \<Rightarrow> Inl TypeError)
      | ResponseList xs \<Rightarrow>
          if \<not> list_all tool_item xs then Inl TypeError else map_sum id ItemList (validate_tool_command_list tx key xs c ity))"

section \<open>One call\<close>

text \<open>An exception inside a call: a bubbling one is raised, the others are handled as configured.\<close>

definition handle_exc :: "node_texts \<Rightarrow> 's tool_node \<Rightarrow> tool_call \<Rightarrow> tool_exc \<Rightarrow> tool_exc + tool_output" where
  "handle_exc tx nd c e =
     (if is_bubble e then Inl e
      else (case handled_types (tn_handler nd) of
              Inl e' \<Rightarrow> Inl (raised_class e')
            | Inr cs \<Rightarrow>
                if \<not> handler_on (tn_handler nd) \<or> \<not> exc_is e cs then Inl e
                else map_sum id (\<lambda>txt. OneItem (OutMessage (error_message c txt))) (handle_tool_error tx e (tn_handler nd))))"

definition call_tool ::
  "node_texts \<Rightarrow> 's tool_node \<Rightarrow> input_type \<Rightarrow> tool_call \<Rightarrow> 's tool \<Rightarrow> (string, tool_arg) dict \<Rightarrow> 's \<Rightarrow> (tool_exc + tool_output) \<times> 's" where
  "call_tool tx nd ity c t a s =
     (case tl_invoke t \<lparr>inv_name = call_name c, inv_id = call_id c, inv_args = a\<rparr> s of
        (r, s') \<Rightarrow>
          (case r of
             Inl (ValidationExc ds) \<Rightarrow>
               Inl (InvocationExc (call_name c) (call_args c) (filter_validation_errors ds (dict_get (tn_injected nd) (call_name c))))
           | Inl e \<Rightarrow> Inl e
           | Inr resp \<Rightarrow> map_sum raised_class id (normalize_tool_response tx (tn_key nd) resp c ity), s'))"

definition execute_tool :: "node_texts \<Rightarrow> 's tool_node \<Rightarrow> input_type \<Rightarrow> 's executor" where
  "execute_tool tx nd ity rq s =
     (let c = rq_call rq in
      case rq_tool rq of
        None \<Rightarrow>
          (if dict_get (tn_tools nd) (call_name c) = None
           then (Inr (OneItem (OutMessage (error_message c (invalid_tool_text (call_name c) (map fst (tn_tools nd)))))), s)
           else (Inl (raised_class TypeError), s))
      | Some t \<Rightarrow>
          (case inject_tool_args nd c (rq_runtime rq) (Some t) of
             Inl e \<Rightarrow> (Inl (raised_class e), s)
           | Inr a \<Rightarrow>
               (case call_tool tx nd ity c t a s of
                  (Inr out, s') \<Rightarrow> (Inr out, s')
                | (Inl e, s') \<Rightarrow> (handle_exc tx nd c e, s'))))"

definition run_one :: "node_texts \<Rightarrow> 's tool_node \<Rightarrow> input_type \<Rightarrow> tool_runtime \<Rightarrow> tool_call \<Rightarrow> 's \<Rightarrow> (tool_exc + tool_output) \<times> 's" where
  "run_one tx nd ity rt c s =
     (let rq = \<lparr>rq_call = c, rq_tool = dict_get (tn_tools nd) (call_name c), rq_state = rt_state rt, rq_runtime = rt\<rparr> in
      case tn_wrap nd of
        None \<Rightarrow> execute_tool tx nd ity rq s
      | Some w \<Rightarrow>
          (case w (execute_tool tx nd ity) rq s of
             (Inr out, s') \<Rightarrow> (Inr out, s')
           | (Inl e, s') \<Rightarrow>
               ((if \<not> handler_on (tn_handler nd) then Inl e
                 else map_sum id (\<lambda>txt. OneItem (OutMessage (error_message c txt))) (handle_tool_error tx e (tn_handler nd))), s')))"

section \<open>All calls\<close>

definition call_runtime :: "node_state \<Rightarrow> bool \<Rightarrow> tool_call \<Rightarrow> tool_runtime" where
  "call_runtime st store c = \<lparr>rt_state = st, rt_call_id = call_id c, rt_store = store\<rparr>"

fun run_calls ::
  "node_texts \<Rightarrow> 's tool_node \<Rightarrow> input_type \<Rightarrow> node_state \<Rightarrow> bool \<Rightarrow> tool_call list \<Rightarrow> 's \<Rightarrow> (tool_exc + tool_output) list \<times> 's" where
  "run_calls tx nd ity st store [] s = ([], s)"
| "run_calls tx nd ity st store (c # cs) s =
     (case run_one tx nd ity (call_runtime st store c) c s of
        (r, s1) \<Rightarrow> (case run_calls tx nd ity st store cs s1 of (rs, s2) \<Rightarrow> (r # rs, s2)))"

text \<open>The outputs in the order of the calls, or the first exception; every call has run by then.\<close>

fun gather :: "('e + 'a) list \<Rightarrow> 'e + 'a list" where
  "gather [] = Inr []"
| "gather (Inl e # rs) = Inl e"
| "gather (Inr x # rs) = map_sum id (\<lambda>xs. x # xs) (gather rs)"

fun output_items :: "tool_output \<Rightarrow> out_item list" where
  "output_items (OneItem x) = [x]"
| "output_items (ItemList xs) = xs"

fun is_command :: "out_item \<Rightarrow> bool" where
  "is_command (OutCommand c) = True"
| "is_command (OutMessage m) = False"

text \<open>The updates a node returns: one for all messages, or a list of commands and updates of one message.\<close>

datatype messages_update = AsList "message list" | AsDict string "message list"

datatype mixed = CommandItem tool_command | UpdateItem messages_update

datatype node_output = Updates messages_update | MixedList "mixed list"

definition as_update :: "input_type \<Rightarrow> string \<Rightarrow> message list \<Rightarrow> messages_update" where
  "as_update ity key ms = (if ity = ListInput then AsList ms else AsDict key ms)"

fun is_send :: "goto_item \<Rightarrow> bool" where
  "is_send (SendTo n v) = True"
| "is_send (GotoNode n) = False"

text \<open>The sends of a command that is merged into the one for the parent graph.\<close>

definition parent_sends :: "tool_command \<Rightarrow> goto_item list option" where
  "parent_sends c =
     (case tc_goto c of
        GotoList gs \<Rightarrow> if tc_graph c = ParentGraph \<and> list_all is_send gs then Some gs else None
      | _ \<Rightarrow> None)"

definition parent_command :: "goto_item list \<Rightarrow> tool_command" where
  "parent_command gs = \<lparr>tc_graph = ParentGraph, tc_goto = GotoList gs, tc_resume = None, tc_update = NoUpdate\<rparr>"

fun combine_items :: "input_type \<Rightarrow> string \<Rightarrow> out_item list \<Rightarrow> mixed list \<Rightarrow> goto_item list option \<Rightarrow> mixed list \<times> goto_item list option" where
  "combine_items ity key [] acc parent = (acc, parent)"
| "combine_items ity key (OutMessage m # xs) acc parent = combine_items ity key xs (acc @ [UpdateItem (as_update ity key [m])]) parent"
| "combine_items ity key (OutCommand c # xs) acc parent =
     (case parent_sends c of
        Some gs \<Rightarrow> combine_items ity key xs acc (Some (case parent of None \<Rightarrow> gs | Some hs \<Rightarrow> hs @ gs))
      | None \<Rightarrow> combine_items ity key xs (acc @ [CommandItem c]) parent)"

fun out_message :: "out_item \<Rightarrow> message list" where
  "out_message (OutMessage m) = [m]"
| "out_message (OutCommand c) = []"

definition combine_tool_outputs :: "input_type \<Rightarrow> string \<Rightarrow> tool_output list \<Rightarrow> node_output" where
  "combine_tool_outputs ity key outs =
     (let flat = concat (map output_items outs) in
      if \<not> list_ex is_command flat then Updates (as_update ity key (concat (map out_message flat)))
      else (case combine_items ity key flat [] None of
              (acc, parent) \<Rightarrow> MixedList (acc @ (case parent of None \<Rightarrow> [] | Some gs \<Rightarrow> [CommandItem (parent_command gs)]))))"

text \<open>\<open>_func\<close>: \<open>store\<close> says whether the graph has a store, \<open>channels\<close> what it reads for a Send payload.\<close>

definition tool_node_run ::
  "node_texts \<Rightarrow> 's tool_node \<Rightarrow> bool \<Rightarrow> (string, field) dict option \<Rightarrow> node_input \<Rightarrow> 's \<Rightarrow> (tool_exc + node_output) \<times> 's" where
  "tool_node_run tx nd store channels inp s =
     (case parse_input (tn_key nd) inp of
        Inl e \<Rightarrow> (Inl (raised_class e), s)
      | Inr (cs, ity) \<Rightarrow>
          (case run_calls tx nd ity (extract_state channels inp) store cs s of
             (rs, s') \<Rightarrow> (map_sum id (combine_tool_outputs ity (tn_key nd)) (gather rs), s')))"

text \<open>\<open>tools_condition\<close>: whether the last message has calls. A message is not false, a raw one has no calls.\<close>

definition tools_condition :: "string \<Rightarrow> node_state \<Rightarrow> string result" where
  "tools_condition key st =
     (let route = (\<lambda>ms. case last ms of Message m \<Rightarrow> (if tool_calls m \<noteq> [] then ''tools'' else ''__end__'') | RawMessage v \<Rightarrow> ''__end__'');
          by_field = (\<lambda>d. case dict_get d key of
                        None \<Rightarrow> Inl ValueError
                      | Some (Msgs ms) \<Rightarrow> if ms = [] then Inl ValueError else Inr (route ms)
                      | Some (Val v) \<Rightarrow> if \<not> truthy v then Inl ValueError
                                      else (case v of PStr s \<Rightarrow> Inr ''__end__'' | PList xs \<Rightarrow> Inr ''__end__'' | PDict kvs \<Rightarrow> Inl KeyError | _ \<Rightarrow> Inl TypeError))
      in case st of
           ListState ms \<Rightarrow> if ms = [] then Inl IndexError else Inr (route ms)
         | DictState d \<Rightarrow> by_field d
         | ObjectState d \<Rightarrow> by_field d)"

section \<open>Injected arguments cannot be forged\<close>

fun is_given :: "tool_arg \<Rightarrow> bool" where
  "is_given (Given v) = True"
| "is_given _ = False"

lemma list_all_update: "list_all P al \<Longrightarrow> P (k, v) \<Longrightarrow> list_all P (AList.update k v al)"
  by (induction al) auto

lemma dict_get_fold_set:
  "dict_get (fold (\<lambda>(k, v). dict_set k v) tr base) n = Some x \<Longrightarrow> (n, x) \<in> set tr \<or> dict_get base n = Some x"
proof (induction tr arbitrary: base)
  case (Cons p tr)
  obtain k v where p: "p = (k, v)" by (cases p)
  from Cons.prems have "dict_get (fold (\<lambda>(k, v). dict_set k v) tr (dict_set k v base)) n = Some x" by (simp add: p)
  from Cons.IH [OF this] show ?case by (auto simp: p split: if_splits)
qed simp

lemma dict_get_fold_cong:
  "dict_get base n = dict_get base' n \<Longrightarrow>
   dict_get (fold (\<lambda>(k, v). dict_set k v) tr base) n = dict_get (fold (\<lambda>(k, v). dict_set k v) tr base') n"
proof (induction tr arbitrary: base base')
  case (Cons p tr)
  obtain k v where p: "p = (k, v)" by (cases p)
  show ?case using Cons.IH [of "dict_set k v base" "dict_set k v base'"] Cons.prems by (simp add: p)
qed simp

lemma dict_get_fold_other:
  "n \<notin> fst ` set tr \<Longrightarrow> dict_get (fold (\<lambda>(k, v). dict_set k v) tr base) n = dict_get base n"
  by (induction tr arbitrary: base) auto

lemma dict_get_filter_key: "dict_get (filter (\<lambda>(k, v). k \<notin> K) d) n = (if n \<in> K then None else dict_get d n)"
  by (induction d) auto

lemma dict_get_given: "dict_get (given_args a) n = map_option Given (dict_get a n)"
  by (induction a) (auto simp: given_args_def)

lemma inject_state_trusted:
  "inject_state e st d opt ws acc = Inr tr \<Longrightarrow> list_all (\<lambda>(k, a). \<not> is_given a) acc \<Longrightarrow> list_all (\<lambda>(k, a). \<not> is_given a) tr"
  by (induction e st d opt ws acc rule: inject_state.induct) (auto simp: list_all_update split: option.splits if_splits)

lemma dict_keys_set: "fst ` set (dict_set k v d) = insert k (fst ` set d)"
  by (induction d) auto

lemma inject_state_keys:
  "inject_state e st d opt ws acc = Inr tr \<Longrightarrow> fst ` set tr \<subseteq> fst ` set acc \<union> fst ` set ws"
proof (induction ws arbitrary: acc)
  case (Cons w ws)
  obtain n want where w: "w = (n, want)" by (cases w)
  from Cons.prems consider "inject_state e st d opt ws acc = Inr tr" | x where "inject_state e st d opt ws (dict_set n x acc) = Inr tr"
    by (auto simp: w split: option.splits if_splits)
  then show ?case
  proof cases
    case 1
    from Cons.IH [OF this] show ?thesis by auto
  next
    case 2
    from Cons.IH [OF this] show ?thesis by (auto simp: w dict_keys_set)
  qed
qed simp

lemma trusted_args_not_given:
  assumes "trusted_args key ia rt = Inr tr"
  shows "list_all (\<lambda>(k, a). \<not> is_given a) tr"
proof -
  from assms obtain a1 where a1: "inject_state_args key ia (rt_state rt) = Inr a1"
    and tr: "list_all (\<lambda>(k, a). \<not> is_given a) a1 \<Longrightarrow> list_all (\<lambda>(k, a). \<not> is_given a) tr"
    by (auto simp: trusted_args_def Let_def list_all_update split: sum.splits if_splits option.splits)
  from a1 have "list_all (\<lambda>(k, a). \<not> is_given a) a1"
    by (auto simp: inject_state_args_def split: if_splits sum.splits node_state.splits intro: inject_state_trusted)
  then show ?thesis by (rule tr)
qed

lemma trusted_args_keys: "trusted_args key ia rt = Inr tr \<Longrightarrow> fst ` set tr \<subseteq> set (injected_names ia)"
proof -
  assume "trusted_args key ia rt = Inr tr"
  then obtain a1 where a1: "inject_state_args key ia (rt_state rt) = Inr a1"
    and eq: "tr = (let a2 = (case ia_store ia of None \<Rightarrow> a1 | Some n \<Rightarrow> dict_set n StoreArg a1)
       in (case ia_runtime ia of None \<Rightarrow> a2 | Some n \<Rightarrow> dict_set n (RuntimeArg rt) a2))"
    by (simp add: trusted_args_def Let_def split: sum.splits if_splits)
  have tr: "fst ` set tr \<subseteq> fst ` set a1 \<union> set (case ia_store ia of None \<Rightarrow> [] | Some n \<Rightarrow> [n]) \<union> set (case ia_runtime ia of None \<Rightarrow> [] | Some n \<Rightarrow> [n])"
    unfolding eq by (cases "ia_store ia"; cases "ia_runtime ia"; simp add: Let_def dict_keys_set) (blast+)?
  have "fst ` set a1 \<subseteq> fst ` set (ia_state ia)"
  proof (cases "ia_state ia = []")
    case True
    with a1 show ?thesis by (simp add: inject_state_args_def)
  next
    case False
    with a1 obtain e st d opt where "inject_state e st d opt (ia_state ia) [] = Inr a1"
      by (simp add: inject_state_args_def split: sum.splits node_state.splits)
    from inject_state_keys [OF this] show ?thesis by simp
  qed
  then show "fst ` set tr \<subseteq> set (injected_names ia)"
    using tr unfolding injected_names_def set_append set_map by blast
qed

lemma scan_state_keys: "ia_keys (scan_state r n found ia) = ia_keys ia"
  by (simp add: scan_state_def split: injection.splits type_arg.splits marker.splits option.splits)

lemma scan_annotation_keys:
  "scan_annotation h r (n, t) ia = Inr ia' \<Longrightarrow> set (ia_keys ia') = set (ia_keys ia) \<union> (if h t then {n} else {})"
  by (simp add: scan_annotation_def Let_def split: sum.splits if_splits) (auto simp: scan_state_keys)

lemma scan_annotations_keys:
  "scan_annotations h r ps ia = Inr ia' \<Longrightarrow> (n, t) \<in> set ps \<Longrightarrow> h t \<Longrightarrow> n \<in> set (ia_keys ia')"
proof -
  have mono: "scan_annotations h r ps ia = Inr ia' \<Longrightarrow> set (ia_keys ia) \<subseteq> set (ia_keys ia')" for ps ia
    by (induction ps arbitrary: ia) (fastforce simp: scan_annotation_keys split: sum.splits)+
  show "scan_annotations h r ps ia = Inr ia' \<Longrightarrow> (n, t) \<in> set ps \<Longrightarrow> h t \<Longrightarrow> n \<in> set (ia_keys ia')"
  proof (induction ps arbitrary: ia)
    case (Cons p ps)
    obtain ia1 where ia1: "scan_annotation h r p ia = Inr ia1" "scan_annotations h r ps ia1 = Inr ia'"
      using Cons.prems(1) by (auto split: sum.splits)
    show ?case
    proof (cases "p = (n, t)")
      case True
      with ia1(1) Cons.prems(3) have "n \<in> set (ia_keys ia1)" by (simp add: scan_annotation_keys)
      then show ?thesis using mono [OF ia1(2)] by blast
    next
      case False
      then show ?thesis using Cons.IH [OF ia1(2)] Cons.prems by simp
    qed
  qed simp
qed

text \<open>Every registered tool has its injection plan.\<close>

definition plans_known :: "'s tool_node \<Rightarrow> bool" where
  "plans_known nd \<longleftrightarrow> (\<forall>n t. dict_get (tn_tools nd) n = Some t \<longrightarrow> (\<exists>ia. all_injected_args t = Inr ia \<and> dict_get (tn_injected nd) n = Some ia))"

lemma register_tools_plans: "register_tools ts nd = Inr nd' \<Longrightarrow> plans_known nd \<Longrightarrow> plans_known nd'"
proof (induction ts arbitrary: nd)
  case (Cons t ts)
  then obtain ia where ia: "all_injected_args t = Inr ia"
    "register_tools ts (nd\<lparr>tn_tools := dict_set (tl_name t) t (tn_tools nd), tn_injected := dict_set (tl_name t) ia (tn_injected nd)\<rparr>) = Inr nd'"
    by (auto split: sum.splits)
  from Cons.prems(2) ia(1)
  have "plans_known (nd\<lparr>tn_tools := dict_set (tl_name t) t (tn_tools nd), tn_injected := dict_set (tl_name t) ia (tn_injected nd)\<rparr>)"
    by (auto simp: plans_known_def)
  with Cons.IH ia(2) show ?case by blast
qed simp

lemma make_tool_node_plans: "make_tool_node tools h key wrap = Inr nd \<Longrightarrow> plans_known nd"
  unfolding make_tool_node_def by (erule register_tools_plans) (simp add: plans_known_def)

text \<open>C12. Every parameter that langchain takes for an injected one gets no value from the model: the injected
  value, if there is one, is the same for all arguments of the call. Every parameter that is neither injected
  nor so marked gets what the model gave.\<close>

theorem injected_args_not_forgeable:
  assumes "make_tool_node tools h key wrap = Inr nd" and "dict_get (tn_tools nd) (call_name c) = Some t"
    and "inject_tool_args nd c rt (Some t) = Inr a"
  shows "\<exists>ia. all_injected_args t = Inr ia \<and>
    (\<forall>n ty. (n, ty) \<in> set (tool_annotations t) \<and> tl_hidden t ty \<longrightarrow>
       (\<forall>v. dict_get a n \<noteq> Some (Given v)) \<and>
       (\<forall>given. \<exists>a'. inject_tool_args nd (c\<lparr>call_args := given\<rparr>) rt (Some t) = Inr a' \<and> dict_get a' n = dict_get a n)) \<and>
    (\<forall>n. n \<notin> set (ia_keys ia) \<union> set (injected_names ia) \<longrightarrow> dict_get a n = map_option Given (dict_get (call_args c) n))"
proof -
  from make_tool_node_plans [OF assms(1)] assms(2) obtain ia where
    ia: "all_injected_args t = Inr ia" "dict_get (tn_injected nd) (call_name c) = Some ia"
    by (auto simp: plans_known_def)
  let ?merge = "\<lambda>tr g. fold (\<lambda>(k, v). dict_set k v) tr (filter (\<lambda>(k, v). k \<notin> set (ia_keys ia)) (given_args g))"
  from assms(3) ia(2) obtain tr where tr: "trusted_args (tn_key nd) ia rt = Inr tr" and a: "a = ?merge tr (call_args c)"
    by (auto simp: inject_tool_args_def injection_plan_def split: sum.splits)
  have again: "inject_tool_args nd (c\<lparr>call_args := given\<rparr>) rt (Some t) = Inr (?merge tr given)" for given
    using tr ia(2) by (simp add: inject_tool_args_def injection_plan_def)
  have clean: "\<not> is_given x" if "(n, x) \<in> set tr" for n x
    using trusted_args_not_given [OF tr] that by (auto simp: list_all_iff)
  have hidden: "n \<in> set (ia_keys ia)" if "(n, ty) \<in> set (tool_annotations t)" "tl_hidden t ty" for n ty
    using scan_annotations_keys ia(1) that unfolding all_injected_args_def by blast
  have given: "dict_get a n \<noteq> Some (Given v)" if "n \<in> set (ia_keys ia)" for n v
    using dict_get_fold_set [of tr "filter (\<lambda>(k, v). k \<notin> set (ia_keys ia)) (given_args (call_args c))" n "Given v"] clean [of n "Given v"] that
    unfolding a by (auto simp: dict_get_filter_key)
  have same: "dict_get (?merge tr given) n = dict_get a n" if "n \<in> set (ia_keys ia)" for n given
    unfolding a by (rule dict_get_fold_cong) (simp add: dict_get_filter_key that)
  have "fst ` set tr \<subseteq> set (injected_names ia)" by (rule trusted_args_keys [OF tr])
  then have kept: "dict_get a n = map_option Given (dict_get (call_args c) n)"
    if "n \<notin> set (ia_keys ia) \<union> set (injected_names ia)" for n
    using that unfolding a by (subst dict_get_fold_other) (auto simp: dict_get_filter_key dict_get_given)
  show ?thesis using ia(1) hidden given same again kept by blast
qed

text \<open>A tool with a parameter for the messages of the state; \<open>demo_node\<close> has it with the given handler.\<close>

definition demo_tool :: "(invocation \<Rightarrow> tool_exc + response) \<Rightarrow> nat tool" where
  "demo_tool f = \<lparr>tl_name = ''look'', tl_direct = False, tl_func_hints = [(''q'', OtherType ''str'')],
     tl_schema_hints = [(''seen'', Joined [OtherType ''list'', MarkerInstance StateMarker (Some ''messages'')])],
     tl_required = [(''seen'', True)], tl_hidden = (\<lambda>t. is_injection StateMarker t), tl_invoke = (\<lambda>iv n. (f iv, Suc n))\<rparr>"

definition demo_reply :: "invocation \<Rightarrow> tool_exc + response" where
  "demo_reply iv = Inr (ResponseItem (GaveMessage \<lparr>role = ToolRole, msg_id = None, content = PStr ''ok'', msg_name = Some (inv_name iv),
     tool_calls = [], tool_call_id = inv_id iv, status = None\<rparr>))"

definition demo_texts :: node_texts where
  "demo_texts = \<lparr>tx_repr = (\<lambda>e. ''e''), tx_args = (\<lambda>a. ''{}''), tx_str = (\<lambda>v. ''v''), tx_message = (\<lambda>v. plain_message HumanRole ''1'' ''x''),
     tx_messages = (\<lambda>v. Inr []), tx_dump = (\<lambda>v. ''d''), tx_blocks = [''text'']\<rparr>"

definition demo_node :: "error_handler \<Rightarrow> (invocation \<Rightarrow> tool_exc + response) \<Rightarrow> nat tool_node" where
  "demo_node h f = \<lparr>tn_tools = [(''look'', demo_tool f)],
     tn_injected = [(''look'', \<lparr>ia_state = [(''seen'', Some ''messages'')], ia_store = None, ia_runtime = None, ia_keys = [''seen''], ia_optional = []\<rparr>)],
     tn_handler = h, tn_key = ''messages'', tn_wrap = None\<rparr>"

definition demo_call :: tool_call where
  "demo_call = \<lparr>call_name = ''look'', call_id = Some ''1'', call_args = [(''q'', PStr ''a''), (''seen'', PStr ''forged'')]\<rparr>"

lemma demo_node_made: "make_tool_node [demo_tool f] h ''messages'' None = Inr (demo_node h f)"
  by (simp add: make_tool_node_def all_injected_args_def tool_annotations_def demo_tool_def demo_node_def scan_annotation_def scan_state_def
      injection_from_type_def Let_def)

theorem injected_args_not_forgeable_witness:
  "\<exists>a. inject_tool_args (demo_node (HandleFlag True) demo_reply) demo_call (call_runtime (ListState []) False demo_call)
         (Some (demo_tool demo_reply)) = Inr a \<and>
     (\<forall>v. dict_get a ''seen'' \<noteq> Some (Given v)) \<and> dict_get a ''q'' = Some (Given (PStr ''a''))"
proof -
  let ?rt = "call_runtime (ListState []) False demo_call"
  define a where "a = [(''q'', Given (PStr ''a'')), (''seen'', StateField (Msgs []))]"
  have inj: "inject_tool_args (demo_node (HandleFlag True) demo_reply) demo_call ?rt (Some (demo_tool demo_reply)) = Inr a"
    by (simp add: a_def inject_tool_args_def injection_plan_def demo_node_def demo_call_def trusted_args_def inject_state_args_def
        state_for_injection_def call_runtime_def given_args_def)
  have tool: "dict_get (tn_tools (demo_node (HandleFlag True) demo_reply)) (call_name demo_call) = Some (demo_tool demo_reply)"
    by (simp add: demo_node_def demo_call_def)
  have ann: "(''seen'', Joined [OtherType ''list'', MarkerInstance StateMarker (Some ''messages'')]) \<in> set (tool_annotations (demo_tool demo_reply))"
    "tl_hidden (demo_tool demo_reply) (Joined [OtherType ''list'', MarkerInstance StateMarker (Some ''messages'')])"
    by (simp_all add: demo_tool_def tool_annotations_def)
  from injected_args_not_forgeable [OF demo_node_made tool inj] ann
  have "\<forall>v. dict_get a ''seen'' \<noteq> Some (Given v)" by blast
  with inj show ?thesis by (auto simp: a_def)
qed

section \<open>Failures of tools\<close>

lemma run_one_unwrapped:
  assumes "tn_wrap nd = None" and "dict_get (tn_tools nd) (call_name c) = Some t"
    and "inject_tool_args nd c rt (Some t) = Inr a"
  shows "run_one tx nd ity rt c s =
    (case call_tool tx nd ity c t a s of (Inr out, s') \<Rightarrow> (Inr out, s') | (Inl e, s') \<Rightarrow> (handle_exc tx nd c e, s'))"
  using assms by (simp add: run_one_def execute_tool_def Let_def split: prod.split sum.split)

lemma default_handler_types: "handled_types (default_handler tx) = Inr [''Exception'']"
  by (simp add: default_handler_def infer_handled_types_def)

lemma exc_is_exception: "exc_is e [''Exception'']"
  by (cases e) (auto simp: exc_is_def)

lemma handle_exc_default:
  assumes "tn_handler nd = default_handler tx"
  shows "handle_exc tx nd c e =
    (case e of InvocationExc n a ds \<Rightarrow> Inr (OneItem (OutMessage (error_message c (invocation_text tx n a ds)))) | _ \<Rightarrow> Inl e)"
proof (cases e)
  case BubbleUp
  then show ?thesis by (simp add: handle_exc_def)
next
  case (InvocationExc n a ds)
  then show ?thesis unfolding handle_exc_def assms default_handler_types
    by (simp add: exc_is_def handle_tool_error_def default_handler_def)
next
  case (OtherExc cs)
  have "exc_is (OtherExc cs) [''Exception'']" by (rule exc_is_exception)
  then show ?thesis unfolding handle_exc_def assms default_handler_types OtherExc
    by (simp add: handle_tool_error_def default_handler_def)
next
  case (ValidationExc ds)
  then show ?thesis unfolding handle_exc_def assms default_handler_types
    by (simp add: exc_is_def handle_tool_error_def default_handler_def)
qed

lemma call_tool_raises:
  assumes "tl_invoke t \<lparr>inv_name = call_name c, inv_id = call_id c, inv_args = a\<rparr> s = (Inl e, s')"
  shows "call_tool tx nd ity c t a s =
    (Inl (case e of
            ValidationExc ds \<Rightarrow> InvocationExc (call_name c) (call_args c) (filter_validation_errors ds (dict_get (tn_injected nd) (call_name c)))
          | _ \<Rightarrow> e), s')"
  using assms by (simp add: call_tool_def split: tool_exc.splits)

lemma filtered_details_not_injected:
  "d \<in> set (filter_validation_errors ds (Some ia)) \<Longrightarrow> ed_loc d \<noteq> [] \<and> (\<forall>n \<in> set (injected_names ia). hd (ed_loc d) \<noteq> PStr n)"
  by (auto simp: filter_validation_errors_def Let_def)

text \<open>The exception the handler sees: invalid arguments are reported as those of the call.\<close>

definition seen_exc :: "'s tool_node \<Rightarrow> tool_call \<Rightarrow> tool_exc \<Rightarrow> tool_exc" where
  "seen_exc nd c e =
     (case e of
        ValidationExc ds \<Rightarrow> InvocationExc (call_name c) (call_args c) (filter_validation_errors ds (dict_get (tn_injected nd) (call_name c)))
      | _ \<Rightarrow> e)"

lemma bubble_seen: "is_bubble (seen_exc nd c e) = is_bubble e"
  by (cases e) (simp_all add: seen_exc_def)

text \<open>C26. When a tool raises in a node without an interceptor, an interruption always leaves the node. Anything else
  is answered by an error message for the call, or leaves the node, as the handler says: a flag, a text (the empty
  one handles nothing), a class, a tuple of classes, or a function, whose annotation gives the classes and whose
  own exception leaves the node. Under the default handler only invalid arguments are answered, by a
  message that speaks of no injected parameter. The effects of the tool stay.\<close>

theorem tool_failures_by_kind:
  assumes "tn_wrap nd = None" and "dict_get (tn_tools nd) (call_name c) = Some t"
    and "inject_tool_args nd c rt (Some t) = Inr a"
    and "tl_invoke t \<lparr>inv_name = call_name c, inv_id = call_id c, inv_args = a\<rparr> s = (Inl e, s')"
  shows "(is_bubble e \<longrightarrow> run_one tx nd ity rt c s = (Inl e, s')) \<and>
    (tn_handler nd = default_handler tx \<longrightarrow>
       (case e of
          ValidationExc ds \<Rightarrow>
            (\<exists>shown. run_one tx nd ity rt c s =
                 (Inr (OneItem (OutMessage (error_message c (invocation_text tx (call_name c) (call_args c) shown)))), s') \<and>
               (\<forall>d \<in> set shown. \<forall>ia. dict_get (tn_injected nd) (call_name c) = Some ia \<longrightarrow>
                  (\<forall>n \<in> set (injected_names ia). hd (ed_loc d) \<noteq> PStr n)))
        | InvocationExc n args ds \<Rightarrow> run_one tx nd ity rt c s = (Inr (OneItem (OutMessage (error_message c (invocation_text tx n args ds)))), s')
        | _ \<Rightarrow> run_one tx nd ity rt c s = (Inl e, s'))) \<and>
    (\<not> is_bubble e \<longrightarrow>
       (let e1 = seen_exc nd c e; answered = (\<lambda>txt. (Inr (OneItem (OutMessage (error_message c txt))), s')) in
        run_one tx nd ity rt c s =
          (case tn_handler nd of
             HandleFlag b \<Rightarrow> if b then answered (tool_call_error_text tx e1) else (Inl e1, s')
           | HandleText txt \<Rightarrow> if txt = [] then (Inl e1, s') else answered txt
           | HandleClass cl \<Rightarrow> if exc_is e1 [cl] then answered (tool_call_error_text tx e1) else (Inl e1, s')
           | HandleClasses cls \<Rightarrow> if exc_is e1 cls then answered (tool_call_error_text tx e1) else (Inl e1, s')
           | HandleCall ps f \<Rightarrow>
               (case infer_handled_types ps of
                  Inl x \<Rightarrow> (Inl (raised_class x), s')
                | Inr cls \<Rightarrow>
                    if exc_is e1 cls then (case f e1 of Inl e2 \<Rightarrow> (Inl e2, s') | Inr txt \<Rightarrow> answered txt) else (Inl e1, s')))))"
proof (intro conjI impI)
  note run = run_one_unwrapped [OF assms(1-3), of tx ity s] call_tool_raises [OF assms(4), of tx nd ity]
  show "run_one tx nd ity rt c s = (Inl e, s')" if "is_bubble e"
    using that by (cases e) (simp_all add: run handle_exc_def)
  show "case e of
          ValidationExc ds \<Rightarrow>
            (\<exists>shown. run_one tx nd ity rt c s =
                 (Inr (OneItem (OutMessage (error_message c (invocation_text tx (call_name c) (call_args c) shown)))), s') \<and>
               (\<forall>d \<in> set shown. \<forall>ia. dict_get (tn_injected nd) (call_name c) = Some ia \<longrightarrow>
                  (\<forall>n \<in> set (injected_names ia). hd (ed_loc d) \<noteq> PStr n)))
        | InvocationExc n args ds \<Rightarrow> run_one tx nd ity rt c s = (Inr (OneItem (OutMessage (error_message c (invocation_text tx n args ds)))), s')
        | _ \<Rightarrow> run_one tx nd ity rt c s = (Inl e, s')"
    if h: "tn_handler nd = default_handler tx"
  proof (cases e)
    case (ValidationExc ds)
    have "\<forall>d \<in> set (filter_validation_errors ds (dict_get (tn_injected nd) (call_name c))). \<forall>ia. dict_get (tn_injected nd) (call_name c) = Some ia \<longrightarrow>
        (\<forall>n \<in> set (injected_names ia). hd (ed_loc d) \<noteq> PStr n)"
      using filtered_details_not_injected by fastforce
    then show ?thesis by (auto simp: ValidationExc run handle_exc_default [OF h])
  qed (simp_all add: run handle_exc_default [OF h])
  show "let e1 = seen_exc nd c e; answered = (\<lambda>txt. (Inr (OneItem (OutMessage (error_message c txt))), s')) in
        run_one tx nd ity rt c s =
          (case tn_handler nd of
             HandleFlag b \<Rightarrow> if b then answered (tool_call_error_text tx e1) else (Inl e1, s')
           | HandleText txt \<Rightarrow> if txt = [] then (Inl e1, s') else answered txt
           | HandleClass cl \<Rightarrow> if exc_is e1 [cl] then answered (tool_call_error_text tx e1) else (Inl e1, s')
           | HandleClasses cls \<Rightarrow> if exc_is e1 cls then answered (tool_call_error_text tx e1) else (Inl e1, s')
           | HandleCall ps f \<Rightarrow>
               (case infer_handled_types ps of
                  Inl x \<Rightarrow> (Inl (raised_class x), s')
                | Inr cls \<Rightarrow>
                    if exc_is e1 cls then (case f e1 of Inl e2 \<Rightarrow> (Inl e2, s') | Inr txt \<Rightarrow> answered txt) else (Inl e1, s')))"
    if "\<not> is_bubble e"
  proof -
    have "\<not> is_bubble (seen_exc nd c e)" using that by (simp add: bubble_seen)
    moreover have "run_one tx nd ity rt c s = (handle_exc tx nd c (seen_exc nd c e), s')"
      by (simp add: run seen_exc_def)
    moreover have "\<not> exc_is (seen_exc nd c e) []" by (simp add: exc_is_def list_ex_iff)
    ultimately show ?thesis
      by (cases "tn_handler nd") (auto simp: Let_def handle_exc_def exc_is_exception handle_tool_error_def map_sum_def split: sum.splits)
  qed
qed

theorem tool_failures_by_kind_witness:
  "\<exists>shown. run_one demo_texts (demo_node (default_handler demo_texts) (\<lambda>iv. Inl (ValidationExc [\<lparr>ed_loc = [PStr ''seen''], ed_msg = None, ed_input = None\<rparr>])))
      ListInput (call_runtime (ListState []) False demo_call) demo_call 0 =
    (Inr (OneItem (OutMessage (error_message demo_call (invocation_text demo_texts ''look'' (call_args demo_call) shown)))), 1)"
proof -
  let ?exc = "ValidationExc [\<lparr>ed_loc = [PStr ''seen''], ed_msg = None, ed_input = None\<rparr>]"
  let ?nd = "demo_node (default_handler demo_texts) (\<lambda>iv. Inl ?exc)" and ?rt = "call_runtime (ListState []) False demo_call"
  have "tn_wrap ?nd = None" "dict_get (tn_tools ?nd) (call_name demo_call) = Some (demo_tool (\<lambda>iv. Inl ?exc))" "tn_handler ?nd = default_handler demo_texts"
    by (simp_all add: demo_node_def demo_call_def)
  moreover have "inject_tool_args ?nd demo_call ?rt (Some (demo_tool (\<lambda>iv. Inl ?exc))) = Inr [(''q'', Given (PStr ''a'')), (''seen'', StateField (Msgs []))]"
    by (simp add: inject_tool_args_def injection_plan_def demo_node_def demo_call_def trusted_args_def inject_state_args_def
        state_for_injection_def call_runtime_def given_args_def)
  moreover have "tl_invoke (demo_tool (\<lambda>iv. Inl ?exc)) iv 0 = (Inl ?exc, 1)" for iv by (simp add: demo_tool_def)
  ultimately have "\<exists>shown. run_one demo_texts ?nd ListInput ?rt demo_call 0 =
      (Inr (OneItem (OutMessage (error_message demo_call (invocation_text demo_texts (call_name demo_call) (call_args demo_call) shown)))), 1)"
    using tool_failures_by_kind [of ?nd demo_call "demo_tool (\<lambda>iv. Inl ?exc)" ?rt _ 0 ?exc 1 demo_texts ListInput] by auto
  then show ?thesis by (simp add: demo_call_def)
qed

text \<open>With an interceptor the node catches interruptions too, and under \<open>True\<close> answers them.\<close>

lemma wrapped_interrupt_is_answered:
  assumes "tn_wrap nd = Some (\<lambda>execute. execute)" and "tn_handler nd = HandleFlag True"
    and "dict_get (tn_tools nd) (call_name c) = Some t" and "inject_tool_args nd c rt (Some t) = Inr a"
    and "tl_invoke t \<lparr>inv_name = call_name c, inv_id = call_id c, inv_args = a\<rparr> s = (Inl (BubbleUp vs), s')"
  shows "run_one tx nd ity rt c s = (Inr (OneItem (OutMessage (error_message c (tool_call_error_text tx (BubbleUp vs))))), s')"
  using assms by (simp add: run_one_def execute_tool_def Let_def call_tool_raises [OF assms(5)] handle_exc_def handle_tool_error_def)

text \<open>The field of a nested annotation is not seen: the whole state is injected.\<close>

lemma nested_state_annotation_loses_field:
  "map_sum id ia_state (scan_annotation (\<lambda>t. True) [] (''foo'', Joined [Joined [OtherType ''str'', MarkerInstance StateMarker (Some ''foo'')], OtherType ''None''])
     \<lparr>ia_state = [], ia_store = None, ia_runtime = None, ia_keys = [], ia_optional = []\<rparr>) = Inr [(''foo'', None)]"
  by (simp add: scan_annotation_def injection_from_type_def scan_state_def Let_def)

section \<open>Every call is answered\<close>

definition answers_call :: "tool_call \<Rightarrow> out_item list \<Rightarrow> bool" where
  "answers_call c xs \<longleftrightarrow> (\<exists>m. OutMessage m \<in> set xs \<and> terminates c m)"

definition tool_messages_only :: "out_item list \<Rightarrow> bool" where
  "tool_messages_only xs \<longleftrightarrow> (\<forall>m. OutMessage m \<in> set xs \<longrightarrow> role m = ToolRole)"

lemma error_message_answers: "terminates c (error_message c txt)" "role (error_message c txt) = ToolRole"
  by (simp_all add: terminates_def error_message_def)

lemma set_content_answers: "terminates c (set_content tx m) = terminates c m" "role (set_content tx m) = role m"
  by (simp_all add: terminates_def set_content_def)

lemma validated_items:
  "validate_items tx key c ity xs = Inr ys \<Longrightarrow>
   (\<forall>m. GaveMessage m \<in> set xs \<longrightarrow> OutMessage (set_content tx m) \<in> set ys) \<and>
   (\<forall>m'. OutMessage m' \<in> set ys \<longrightarrow> (\<exists>m. GaveMessage m \<in> set xs \<and> m' = set_content tx m)) \<and>
   (\<not> list_ex is_command ys \<longrightarrow> (\<forall>x \<in> set xs. \<exists>m. x = GaveMessage m))"
proof (induction xs arbitrary: ys)
  case (Cons x xs)
  obtain y zs where y: "(case x of
              GaveCommand cmd \<Rightarrow> map_sum id OutCommand (validate_tool_command tx key cmd c ity False)
            | GaveMessage m \<Rightarrow> Inr (OutMessage (set_content tx m))
            | GaveOther \<Rightarrow> Inl TypeError) = Inr y"
    and zs: "validate_items tx key c ity xs = Inr zs" and ys: "ys = y # zs"
    using Cons.prems by (auto split: sum.splits simp: map_sum_def)
  note IH = Cons.IH [OF zs]
  show ?case
  proof (cases x)
    case (GaveCommand cmd)
    with y obtain cmd' where "y = OutCommand cmd'" by (auto simp: map_sum_def split: sum.splits)
    then show ?thesis using IH by (auto simp: ys GaveCommand)
  next
    case (GaveMessage m)
    with y have "y = OutMessage (set_content tx m)" by simp
    then show ?thesis using IH by (auto simp: ys GaveMessage)
  next
    case GaveOther
    with y show ?thesis by simp
  qed
qed simp

lemma terminator_message:
  assumes "sum_list (map (item_terminators key c) xs) = 1" and "\<forall>x \<in> set xs. \<exists>m. x = GaveMessage m"
  shows "\<exists>m. GaveMessage m \<in> set xs \<and> tool_call_id m = call_id c"
proof (rule ccontr)
  assume none: "\<not> ?thesis"
  have "item_terminators key c x = 0" if "x \<in> set xs" for x
    using none assms(2) that by (force simp: item_terminators_def)
  then have "sum_list (map (item_terminators key c) xs) = 0" by (simp add: sum_list_eq_0_iff)
  with assms(1) show False by simp
qed

text \<open>The node binds no message a tool gives by itself: it is passed on with its content normalised.\<close>

definition own_message :: "node_texts \<Rightarrow> response \<Rightarrow> message \<Rightarrow> bool" where
  "own_message tx r m \<longleftrightarrow> (\<exists>m0. r = ResponseItem (GaveMessage m0) \<and> m = set_content tx m0)"

definition tool_gave :: "node_texts \<Rightarrow> 's tool_node \<Rightarrow> tool_call \<Rightarrow> message \<Rightarrow> bool" where
  "tool_gave tx nd c m \<longleftrightarrow>
     (\<exists>t a s r. dict_get (tn_tools nd) (call_name c) = Some t \<and>
        fst (tl_invoke t \<lparr>inv_name = call_name c, inv_id = call_id c, inv_args = a\<rparr> s) = Inr r \<and> own_message tx r m)"

lemma normalized_response_answers:
  assumes "normalize_tool_response tx key r c ity = Inr out"
  shows "tool_messages_only (output_items out) \<and>
    (\<not> list_ex is_command (output_items out) \<longrightarrow> answers_call c (output_items out) \<or> (\<exists>m. output_items out = [OutMessage m] \<and> own_message tx r m))"
proof (cases r)
  case (ResponseItem x)
  show ?thesis
  proof (cases x)
    case (GaveCommand cmd)
    with assms(1) ResponseItem obtain y where "out = OneItem (OutCommand y)"
      by (auto simp: normalize_tool_response_def tool_item_def map_sum_def split: sum.splits)
    then show ?thesis by (simp add: tool_messages_only_def)
  next
    case (GaveMessage m)
    with assms ResponseItem show ?thesis
      by (auto simp: normalize_tool_response_def tool_item_def own_message_def tool_messages_only_def set_content_answers split: if_splits)
  next
    case GaveOther
    with assms(1) ResponseItem show ?thesis by (simp add: normalize_tool_response_def tool_item_def)
  qed
next
  case (ResponseList xs)
  with assms(1) obtain ys where ys: "out = ItemList ys" "validate_items tx key c ity xs = Inr ys"
    "sum_list (map (item_terminators key c) xs) = 1"
    by (auto simp: normalize_tool_response_def validate_tool_command_list_def map_sum_def split: sum.splits if_splits)
  note items = validated_items [OF ys(2)]
  from assms ResponseList have "list_all tool_item xs" by (simp add: normalize_tool_response_def split: if_splits)
  then have role: "role m = ToolRole" if "GaveMessage m \<in> set xs" for m
    using that by (auto simp: list_all_iff tool_item_def)
  have "answers_call c ys" if "\<not> list_ex is_command ys"
  proof -
    from items that have "\<forall>x \<in> set xs. \<exists>m. x = GaveMessage m" by blast
    from terminator_message [OF ys(3) this] obtain m where m: "GaveMessage m \<in> set xs" "tool_call_id m = call_id c" by blast
    with items have "OutMessage (set_content tx m) \<in> set ys" by blast
    moreover have "terminates c (set_content tx m)" using m role by (simp add: set_content_def terminates_def)
    ultimately show ?thesis unfolding answers_call_def by blast
  qed
  moreover have "tool_messages_only ys"
    using items role by (auto simp: tool_messages_only_def set_content_answers)
  ultimately show ?thesis by (simp add: ys(1))
qed

lemma handled_exc_answers:
  "handle_exc tx nd c e = Inr out \<Longrightarrow> tool_messages_only (output_items out) \<and> answers_call c (output_items out)"
  by (auto simp: handle_exc_def map_sum_def tool_messages_only_def answers_call_def error_message_answers split: if_splits sum.splits)

lemma run_one_answers:
  assumes "tn_wrap nd = None" and "run_one tx nd ity rt c s = (Inr out, s')"
  shows "tool_messages_only (output_items out) \<and>
    (\<not> list_ex is_command (output_items out) \<longrightarrow> answers_call c (output_items out) \<or> (\<exists>m. output_items out = [OutMessage m] \<and> tool_gave tx nd c m))"
proof (cases "dict_get (tn_tools nd) (call_name c)")
  case None
  with assms have "out = OneItem (OutMessage (error_message c (invalid_tool_text (call_name c) (map fst (tn_tools nd)))))"
    by (simp add: run_one_def execute_tool_def Let_def)
  then show ?thesis by (simp add: tool_messages_only_def answers_call_def error_message_answers)
next
  case (Some t)
  from assms Some obtain a where a: "inject_tool_args nd c rt (Some t) = Inr a"
    by (auto simp: run_one_def execute_tool_def Let_def split: sum.splits)
  obtain r s1 where call: "call_tool tx nd ity c t a s = (r, s1)" by (cases "call_tool tx nd ity c t a s")
  note run = run_one_unwrapped [OF assms(1) Some a, of tx ity s, unfolded assms(2) call]
  show ?thesis
  proof (cases r)
    case (Inl e)
    with run have "handle_exc tx nd c e = Inr out" by simp
    then show ?thesis using handled_exc_answers by blast
  next
    case (Inr out')
    with run have "call_tool tx nd ity c t a s = (Inr out, s')" by (simp add: call)
    then obtain resp where inv: "fst (tl_invoke t \<lparr>inv_name = call_name c, inv_id = call_id c, inv_args = a\<rparr> s) = Inr resp"
      and norm: "normalize_tool_response tx (tn_key nd) resp c ity = Inr out"
      by (auto simp: call_tool_def map_sum_def split: prod.splits sum.splits tool_exc.splits)
    have "own_message tx resp m \<Longrightarrow> tool_gave tx nd c m" for m using Some inv unfolding tool_gave_def by blast
    with normalized_response_answers [OF norm] show ?thesis by blast
  qed
qed

lemma gather_answers:
  assumes "tn_wrap nd = None"
  shows "run_calls tx nd ity st store cs s = (rs, s') \<Longrightarrow> gather rs = Inr outs \<Longrightarrow>
    list_all2 (\<lambda>c out. tool_messages_only (output_items out) \<and>
      (\<not> list_ex is_command (output_items out) \<longrightarrow> answers_call c (output_items out) \<or> (\<exists>m. output_items out = [OutMessage m] \<and> tool_gave tx nd c m))) cs outs"
proof (induction cs arbitrary: s rs outs)
  case Nil
  then show ?case by simp
next
  case (Cons c cs)
  obtain r s1 rs2 s2 where r: "run_one tx nd ity (call_runtime st store c) c s = (r, s1)"
    and rest: "run_calls tx nd ity st store cs s1 = (rs2, s2)" "rs = r # rs2" "s' = s2"
    using Cons.prems(1) by (auto split: prod.splits)
  then obtain out outs2 where out: "r = Inr out" "gather rs2 = Inr outs2" "outs = out # outs2"
    using Cons.prems(2) by (cases r) (auto simp: map_sum_def split: sum.splits)
  have "run_calls tx nd ity st store cs s1 = (rs2, s')" using rest by simp
  from Cons.IH [OF this out(2)] run_one_answers [OF assms] r show ?case by (simp add: out)
qed

lemma out_message_mem: "m \<in> set (out_message x) \<longleftrightarrow> x = OutMessage m"
  by (cases x) auto

fun update_messages :: "messages_update \<Rightarrow> message list" where
  "update_messages (AsList ms) = ms"
| "update_messages (AsDict key ms) = ms"

lemma as_update_messages [simp]: "update_messages (as_update ity key ms) = ms"
  by (simp add: as_update_def)

text \<open>The messages for one call: one of them is bound to the call, or there is one, which its tool made itself.\<close>

definition answer_group :: "node_texts \<Rightarrow> 's tool_node \<Rightarrow> tool_call \<Rightarrow> message list \<Rightarrow> bool" where
  "answer_group tx nd c g \<longleftrightarrow> (\<exists>m \<in> set g. terminates c m) \<or> (\<exists>m. g = [m] \<and> tool_gave tx nd c m)"

lemma calls_answered_in_order:
  assumes "tn_wrap nd = None" and "parse_input (tn_key nd) inp = Inr (cs, ity)"
    and "tool_node_run tx nd store channels inp s = (Inr (Updates u), s')"
  shows "\<exists>groups. update_messages u = concat groups \<and> list_all2 (answer_group tx nd) cs groups \<and>
    (\<forall>m \<in> set (update_messages u). role m = ToolRole)"
proof -
  from assms(2,3) obtain rs outs where rs: "run_calls tx nd ity (extract_state channels inp) store cs s = (rs, s')"
    "gather rs = Inr outs" and u: "combine_tool_outputs ity (tn_key nd) outs = Updates u"
    by (auto simp: tool_node_run_def map_sum_def split: prod.splits sum.splits)
  from u have plain: "\<not> list_ex is_command (concat (map output_items outs))"
    and msgs: "update_messages u = concat (map out_message (concat (map output_items outs)))"
    by (auto simp: combine_tool_outputs_def Let_def split: if_splits prod.splits)
  let ?group = "\<lambda>out. concat (map out_message (output_items out))"
  from plain have "\<forall>out \<in> set outs. \<not> list_ex is_command (output_items out)" by (auto simp: list_ex_iff)
  with gather_answers [OF assms(1) rs]
  have all: "list_all2 (\<lambda>c out. tool_messages_only (output_items out) \<and>
      (answers_call c (output_items out) \<or> (\<exists>m. output_items out = [OutMessage m] \<and> tool_gave tx nd c m))) cs outs"
    by (auto simp: list_all2_conv_all_nth)
  have mem: "m \<in> set (?group out) \<longleftrightarrow> OutMessage m \<in> set (output_items out)" for m out
    by (auto simp: out_message_mem)
  have "answer_group tx nd c (?group out)"
    if "answers_call c (output_items out) \<or> (\<exists>m. output_items out = [OutMessage m] \<and> tool_gave tx nd c m)" for c out
    using that
  proof
    assume "answers_call c (output_items out)"
    then obtain m where "m \<in> set (?group out)" "terminates c m" unfolding answers_call_def mem by blast
    then show ?thesis unfolding answer_group_def by blast
  qed (auto simp: answer_group_def)
  then have "list_all2 (answer_group tx nd) cs (map ?group outs)"
    unfolding list_all2_map2 using all by (auto intro: list_all2_mono simp del: set_concat set_map)
  moreover have "update_messages u = concat (map ?group outs)"
    unfolding msgs by (induction outs) simp_all
  moreover have "role m = ToolRole" if "m \<in> set (update_messages u)" for m
  proof -
    from that obtain out where out: "out \<in> set outs" "m \<in> set (?group out)"
      unfolding calculation(2) by auto
    with all obtain c where "tool_messages_only (output_items out)"
      by (auto simp: list_all2_conv_all_nth in_set_conv_nth)
    with out(2) show ?thesis unfolding mem tool_messages_only_def by blast
  qed
  ultimately show ?thesis by blast
qed

text \<open>C30. When a node without an interceptor returns plain messages, they are in groups, one for each call in the
  order of the calls, whatever its tools do: a group has a message bound to its call, or it is the one
  message the tool of the call made itself, which the node passes on without looking at its id. All are
  tool messages, for unknown tools and handled failures too.\<close>

theorem every_call_answered_in_order:
  assumes "tn_wrap nd = None" and "parse_input (tn_key nd) inp = Inr (cs, ity)"
    and "tool_node_run tx nd store channels inp s = (Inr (Updates u), s')"
  shows "\<exists>groups. update_messages u = concat groups \<and>
    list_all2 (\<lambda>c g. (\<exists>m \<in> set g. terminates c m) \<or> (\<exists>m. g = [m] \<and> tool_gave tx nd c m)) cs groups \<and>
    (\<forall>m \<in> set (update_messages u). role m = ToolRole)"
  using calls_answered_in_order [OF assms] unfolding answer_group_def .

definition demo_state :: node_state where
  "demo_state = DictState [(''messages'', Msgs [Message (plain_message HumanRole ''h'' ''hi''),
     Message ((plain_message AIRole ''a'' [])\<lparr>tool_calls := [demo_call, demo_call\<lparr>call_name := ''other'', call_id := Some ''2''\<rparr>]\<rparr>)])]"

definition plain_tool_message :: "string \<Rightarrow> string option \<Rightarrow> message" where
  "plain_tool_message txt i = \<lparr>role = ToolRole, msg_id = None, content = PStr txt, msg_name = None, tool_calls = [],
     tool_call_id = i, status = None\<rparr>"

theorem every_call_answered_in_order_witness:
  "\<exists>u. tool_node_run demo_texts (demo_node (default_handler demo_texts) demo_reply) True None (StateInput demo_state) 0 = (Inr (Updates u), 1) \<and>
     map tool_call_id (update_messages u) = [Some ''1'', Some ''2''] \<and>
     (\<exists>groups. update_messages u = concat groups \<and> length groups = 2)"
proof -
  let ?nd = "demo_node (default_handler demo_texts) demo_reply"
  let ?cs = "[demo_call, demo_call\<lparr>call_name := ''other'', call_id := Some ''2''\<rparr>]"
  define u where "u = AsDict ''messages''
     [\<lparr>role = ToolRole, msg_id = None, content = PStr ''ok'', msg_name = Some ''look'', tool_calls = [], tool_call_id = Some ''1'', status = None\<rparr>,
      error_message (demo_call\<lparr>call_name := ''other'', call_id := Some ''2''\<rparr>) (invalid_tool_text ''other'' [''look''])]"
  have parsed: "parse_input (tn_key ?nd) (StateInput demo_state) = Inr (?cs, DictInput)"
    by (simp add: parse_input_def demo_state_def demo_node_def calls_of_field_def calls_of_messages_def plain_message_def)
  have run: "tool_node_run demo_texts ?nd True None (StateInput demo_state) 0 = (Inr (Updates u), 1)"
    unfolding tool_node_run_def parsed
    by (simp add: run_one_def execute_tool_def Let_def demo_node_def demo_call_def demo_state_def demo_tool_def demo_reply_def inject_tool_args_def
        injection_plan_def trusted_args_def inject_state_args_def state_for_injection_def call_runtime_def given_args_def extract_state_def
        call_tool_def normalize_tool_response_def tool_item_def set_content_def msg_content_output_def combine_tool_outputs_def as_update_def u_def)
  have wrap: "tn_wrap ?nd = None" by (simp add: demo_node_def)
  from every_call_answered_in_order [OF wrap parsed run]
  have "\<exists>groups. update_messages u = concat groups \<and> length groups = length ?cs"
    by (elim exE conjE) (drule list_all2_lengthD, rule exI, rule conjI, assumption, simp)
  then have "\<exists>groups. update_messages u = concat groups \<and> length groups = 2" by auto
  with run show ?thesis by (auto simp: u_def error_message_def demo_call_def)
qed

text \<open>The id of a message a tool made itself is not checked, where that of a command's messages is.\<close>

lemma own_message_unchecked:
  "normalize_tool_response tx key (ResponseItem (GaveMessage (plain_tool_message ''ok'' (Some ''other'')))) c ity =
     Inr (OneItem (OutMessage (set_content tx (plain_tool_message ''ok'' (Some ''other'')))))"
  by (simp add: normalize_tool_response_def tool_item_def plain_tool_message_def)

section \<open>The outputs are combined\<close>

text \<open>What an output adds to the list, and the sends it adds to the command for the parent graph.\<close>

definition kept_item :: "input_type \<Rightarrow> string \<Rightarrow> out_item \<Rightarrow> mixed list" where
  "kept_item ity key x =
     (case x of
        OutMessage m \<Rightarrow> [UpdateItem (as_update ity key [m])]
      | OutCommand c \<Rightarrow> (if parent_sends c = None then [CommandItem c] else []))"

definition sends_to_parent :: "out_item \<Rightarrow> goto_item list list" where
  "sends_to_parent x =
     (case x of OutMessage m \<Rightarrow> [] | OutCommand c \<Rightarrow> (case parent_sends c of None \<Rightarrow> [] | Some gs \<Rightarrow> [gs]))"

lemma combine_items_spec:
  "combine_items ity key xs acc parent =
    (acc @ concat (map (kept_item ity key) xs),
     (let given = (case parent of None \<Rightarrow> [] | Some gs \<Rightarrow> [gs]) @ concat (map sends_to_parent xs)
      in if given = [] then None else Some (concat given)))"
proof (induction ity key xs acc parent rule: combine_items.induct)
  case (1 ity key acc parent)
  then show ?case by (simp split: option.split)
next
  case (2 ity key m xs acc parent)
  then show ?case by (simp add: kept_item_def sends_to_parent_def)
next
  case (3 ity key c xs acc parent)
  show ?case
  proof (cases "parent_sends c")
    case None
    from 3(1) [OF None] None show ?thesis by (simp add: kept_item_def sends_to_parent_def)
  next
    case (Some gs)
    from 3(2) [OF Some] Some show ?thesis by (cases parent) (simp_all add: kept_item_def sends_to_parent_def Let_def)
  qed
qed

text \<open>Combining the outputs of the calls, when one of them is a command: messages and commands keep their
  order, each message an update of its own, and the commands that only send to the parent graph become
  one last command with all their sends in order, and nothing else of them.\<close>

theorem combined_outputs_keep_order:
  assumes "list_ex is_command (concat (map output_items outs))"
  shows "combine_tool_outputs ity key outs =
    (let flat = concat (map output_items outs); sends = concat (map sends_to_parent flat)
     in MixedList (concat (map (kept_item ity key) flat) @ (if sends = [] then [] else [CommandItem (parent_command (concat sends))])))"
  using assms by (simp add: combine_tool_outputs_def Let_def combine_items_spec del: concat_eq_Nil_conv Nil_eq_concat_conv)

theorem combined_outputs_keep_order_witness:
  "combine_tool_outputs DictInput ''messages''
     [OneItem (OutCommand \<lparr>tc_graph = ParentGraph, tc_goto = GotoList [SendTo ''a'' PNone], tc_resume = None,
        tc_update = DictUpdate [(''k'', Val (PInt 1))]\<rparr>),
      OneItem (OutCommand (parent_command [SendTo ''b'' PNone]))] =
   MixedList [CommandItem (parent_command [SendTo ''a'' PNone, SendTo ''b'' PNone])]"
proof -
  let ?c = "\<lparr>tc_graph = ParentGraph, tc_goto = GotoList [SendTo ''a'' PNone], tc_resume = None, tc_update = DictUpdate [(''k'', Val (PInt 1))]\<rparr>"
  have "list_ex is_command (concat (map output_items [OneItem (OutCommand ?c), OneItem (OutCommand (parent_command [SendTo ''b'' PNone]))]))"
    by simp
  from combined_outputs_keep_order [OF this, of DictInput "''messages''"] show ?thesis
    by (simp add: parent_sends_def parent_command_def kept_item_def sends_to_parent_def)
qed

end
