(* ===== verification/React.thy ===== *)
theory React
  imports Graph ToolNode
begin

text \<open>
  The prebuilt agent of \<open>prebuilt/chat_agent_executor.py\<close>: the model node with its prompt, the checks of the chat
  history and of the steps that remain, the routers between the nodes, and the graph \<open>create_react_agent\<close> builds
  with the operations of theory Graph. Models and hooks are user code: parameters.
\<close>

section \<open>State and prompt\<close>

text \<open>The keys of the state the agent itself reads; None when a key is missing.\<close>

record chat_state =
  as_messages :: "message list option"
  as_llm_input :: "message list option"
  as_remaining :: "int option"

text \<open>\<open>RemainingStepsManager\<close> and \<open>IsLastStepManager\<close>.\<close>

definition remaining_steps :: "int \<Rightarrow> int \<Rightarrow> int" where
  "remaining_steps stop step = stop - step"

definition is_last_step :: "int \<Rightarrow> int \<Rightarrow> bool" where
  "is_last_step stop step \<longleftrightarrow> step = stop - 1"

text \<open>\<open>CallPrompt\<close> is a callable or a runnable, \<open>AsyncPrompt\<close> a coroutine function, which has no synchronous form.\<close>

datatype agent_prompt = NoPrompt | TextPrompt string | MessagePrompt message | CallPrompt "chat_state \<Rightarrow> message list option result" | AsyncPrompt

definition system_message :: "string \<Rightarrow> message" where
  "system_message txt =
     \<lparr>role = SystemRole, msg_id = None, content = PStr txt, msg_name = None, tool_calls = [], tool_call_id = None, status = None\<rparr>"

definition prepend_message :: "message \<Rightarrow> message list option \<Rightarrow> message list option result" where
  "prepend_message m ms = (case ms of None \<Rightarrow> Inl TypeError | Some xs \<Rightarrow> Inr (Some (m # xs)))"

definition prompt_input :: "agent_prompt \<Rightarrow> chat_state \<Rightarrow> message list option result" where
  "prompt_input p s =
     (case p of
        NoPrompt \<Rightarrow> Inr (as_messages s)
      | TextPrompt txt \<Rightarrow> prepend_message (system_message txt) (as_messages s)
      | MessagePrompt m \<Rightarrow> prepend_message m (as_messages s)
      | CallPrompt f \<Rightarrow> f s
      | AsyncPrompt \<Rightarrow> Inl TypeError)"

section \<open>Models and their tools\<close>

text \<open>A bound tool as a dictionary: its type, the name of its function, its own name.\<close>

record bound_tool =
  bt_type :: "string option"
  bt_function :: "string option"
  bt_name :: "string option"

datatype chat_model = ChatModel string | BoundModel "bound_tool list option" chat_model | ModelSequence "chat_model list" | OtherModel

fun is_model_step :: "chat_model \<Rightarrow> bool" where
  "is_model_step (ChatModel n) = True"
| "is_model_step (BoundModel ts m) = True"
| "is_model_step _ = False"

definition first_model_step :: "chat_model \<Rightarrow> chat_model" where
  "first_model_step m =
     (case m of
        ModelSequence ms \<Rightarrow> (case find is_model_step ms of Some x \<Rightarrow> x | None \<Rightarrow> m)
      | _ \<Rightarrow> m)"

fun bound_names :: "bound_tool list \<Rightarrow> string list result" where
  "bound_names [] = Inr []"
| "bound_names (t # ts) =
     (if bt_type t = Some ''function''
      then (case bt_function t of None \<Rightarrow> Inl KeyError | Some n \<Rightarrow> map_sum id (\<lambda>ns. n # ns) (bound_names ts))
      else (case bt_name t of
              Some n \<Rightarrow> if n = '''' then bound_names ts else map_sum id (\<lambda>ns. n # ns) (bound_names ts)
            | None \<Rightarrow> bound_names ts))"

definition should_bind_tools :: "chat_model \<Rightarrow> string list \<Rightarrow> nat \<Rightarrow> bool result" where
  "should_bind_tools m tools builtin =
     (case first_model_step m of
        BoundModel (Some bound) b \<Rightarrow>
          if int (length tools) \<noteq> int (length bound) - int builtin then Inl ValueError
          else and_then (bound_names bound) (\<lambda>ns. if \<not> set tools \<subseteq> set ns then Inl ValueError else Inr False)
      | _ \<Rightarrow> Inr True)"

definition get_model :: "chat_model \<Rightarrow> string result" where
  "get_model m =
     (case (case first_model_step m of BoundModel ts b \<Rightarrow> b | m' \<Rightarrow> m') of
        ChatModel n \<Rightarrow> Inr n
      | _ \<Rightarrow> Inl TypeError)"

section \<open>The model node\<close>

definition calls_of_history :: "message list \<Rightarrow> tool_call list" where
  "calls_of_history ms = concat (map tool_calls (filter (\<lambda>m. role m = AIRole) ms))"

definition answered_ids :: "message list \<Rightarrow> string option list" where
  "answered_ids ms = map tool_call_id (filter (\<lambda>m. role m = ToolRole) ms)"

definition validate_chat_history :: "message list \<Rightarrow> unit result" where
  "validate_chat_history ms =
     (if filter (\<lambda>c. call_id c \<notin> set (answered_ids ms)) (calls_of_history ms) = [] then Inr () else Inl ValueError)"

text \<open>\<open>direct\<close>: the names of the tools that return directly. A list without calls counts as all of them.\<close>

definition are_more_steps_needed :: "string list \<Rightarrow> chat_state \<Rightarrow> message \<Rightarrow> bool" where
  "are_more_steps_needed direct s r =
     (let calls = role r = AIRole \<and> tool_calls r \<noteq> [];
          all_direct = role r = AIRole \<and> list_all (\<lambda>c. call_name c \<in> set direct) (tool_calls r)
      in case as_remaining s of
           None \<Rightarrow> False
         | Some n \<Rightarrow> n < 1 \<and> all_direct \<or> n < 2 \<and> calls)"

definition model_input_state :: "bool \<Rightarrow> chat_state \<Rightarrow> chat_state result" where
  "model_input_state pre s =
     (let ms = (if pre then (case as_llm_input s of Some (m # ms) \<Rightarrow> Some (m # ms) | _ \<Rightarrow> as_messages s) else as_messages s)
      in case ms of
           None \<Rightarrow> Inl ValueError
         | Some xs \<Rightarrow> and_then (validate_chat_history xs) (\<lambda>_. Inr (s\<lparr>as_messages := Some xs\<rparr>)))"

definition apology :: "string option \<Rightarrow> message" where
  "apology i =
     \<lparr>role = AIRole, msg_id = i, content = PStr ''Sorry, need more steps to process this request.'', msg_name = None, tool_calls = [],
      tool_call_id = None, status = None\<rparr>"

text \<open>\<open>model\<close> answers the input the prompt makes of the state; a dynamic one may depend on the state.\<close>

definition call_model ::
  "bool \<Rightarrow> bool \<Rightarrow> string list \<Rightarrow> string option \<Rightarrow> agent_prompt \<Rightarrow> (chat_state \<Rightarrow> message list option \<Rightarrow> message result) \<Rightarrow> chat_state
     \<Rightarrow> message list result" where
  "call_model async_model pre direct name p model s =
     (if async_model then Inl RuntimeError
      else and_then (model_input_state pre s)
        (\<lambda>s'. and_then (and_then (prompt_input p s') (model s'))
          (\<lambda>r. let r' = r\<lparr>msg_name := name\<rparr>
                in Inr (if are_more_steps_needed direct s' r' then [apology (msg_id r')] else [r']))))"

text \<open>The node for a structured response; \<open>system\<close> is the prompt of a pair, \<open>structured\<close> the model's own call.\<close>

definition generate_structured_response ::
  "bool \<Rightarrow> string option \<Rightarrow> chat_model \<Rightarrow> (string \<Rightarrow> message list option \<Rightarrow> pyval result) \<Rightarrow> chat_state \<Rightarrow> pyval result" where
  "generate_structured_response async_model system m structured s =
     (if async_model then Inl RuntimeError
      else and_then (case system of None \<Rightarrow> Inr (as_messages s) | Some txt \<Rightarrow> prepend_message (system_message txt) (as_messages s))
        (\<lambda>ms. and_then (get_model (ModelSequence (OtherModel # (case m of ModelSequence xs \<Rightarrow> xs | _ \<Rightarrow> [m]))))
          (\<lambda>n. structured n ms)))"

section \<open>The routers\<close>

text \<open>A configuration: which optional nodes there are, the version, the tools that return directly, and a call of a
  tool as the payload of a Send.\<close>

record agent_config =
  ac_pre :: bool
  ac_post :: bool
  ac_response :: bool
  ac_version :: string
  ac_direct :: "string list"
  ac_payload :: "tool_call \<Rightarrow> chat_state \<Rightarrow> pyval"

definition entrypoint :: "agent_config \<Rightarrow> string" where
  "entrypoint cfg = (if ac_pre cfg then ''pre_model_hook'' else ''agent'')"

definition send_calls :: "agent_config \<Rightarrow> chat_state \<Rightarrow> tool_call list \<Rightarrow> route_dest list" where
  "send_calls cfg s cs = map (\<lambda>c. RouteSend ''tools'' (ac_payload cfg c s)) cs"

definition should_continue :: "agent_config \<Rightarrow> chat_state \<Rightarrow> route_dest list result" where
  "should_continue cfg s =
     (case as_messages s of
        None \<Rightarrow> Inl TypeError
      | Some [] \<Rightarrow> Inl IndexError
      | Some (m # ms) \<Rightarrow>
          (let l = last (m # ms) in
           if role l \<noteq> AIRole \<or> tool_calls l = []
           then Inr [RouteTo (Some (if ac_post cfg then ''post_model_hook'' else if ac_response cfg then ''generate_structured_response'' else end_name))]
           else if ac_version cfg = ''v1'' then Inr [RouteTo (Some ''tools'')]
           else if ac_version cfg = ''v2''
           then Inr (if ac_post cfg then [RouteTo (Some ''post_model_hook'')] else send_calls cfg s (tool_calls l))
           else Inr [RouteTo None]))"

definition post_model_hook_router :: "agent_config \<Rightarrow> chat_state \<Rightarrow> route_dest list result" where
  "post_model_hook_router cfg s =
     (case as_messages s of
        None \<Rightarrow> Inl TypeError
      | Some ms \<Rightarrow>
          (case find (\<lambda>m. role m = AIRole) (rev ms) of
             None \<Rightarrow> Inl StopIteration
           | Some a \<Rightarrow>
               (let pending = filter (\<lambda>c. call_id c \<notin> set (answered_ids ms)) (tool_calls a) in
                if pending \<noteq> [] then Inr (send_calls cfg s pending)
                else if role (last ms) = ToolRole then Inr [RouteTo (Some (entrypoint cfg))]
                else if ac_response cfg then Inr [RouteTo (Some ''generate_structured_response'')]
                else Inr [RouteTo (Some end_name)])))"

definition direct_name :: "string list \<Rightarrow> message \<Rightarrow> bool" where
  "direct_name direct m \<longleftrightarrow> (case msg_name m of None \<Rightarrow> False | Some n \<Rightarrow> n \<in> set direct)"

fun direct_answer :: "string list \<Rightarrow> message list \<Rightarrow> bool" where
  "direct_answer direct [] = False"
| "direct_answer direct (m # ms) = (if role m \<noteq> ToolRole then False else direct_name direct m \<or> direct_answer direct ms)"

text \<open>The loop variable after the loop: the first message from the end that is no tool message, else the oldest one.\<close>

definition loop_message :: "message list \<Rightarrow> message option" where
  "loop_message ms =
     (case find (\<lambda>m. role m \<noteq> ToolRole) (rev ms) of
        Some m \<Rightarrow> Some m
      | None \<Rightarrow> (case ms of [] \<Rightarrow> None | m # _ \<Rightarrow> Some m))"

definition route_tool_responses :: "agent_config \<Rightarrow> chat_state \<Rightarrow> route_dest list result" where
  "route_tool_responses cfg s =
     (case as_messages s of
        None \<Rightarrow> Inl TypeError
      | Some ms \<Rightarrow>
          if direct_answer (ac_direct cfg) (rev ms) then Inr [RouteTo (Some end_name)]
          else (case loop_message ms of
                  None \<Rightarrow> Inl UnboundLocalError
                | Some m \<Rightarrow>
                    if role m = AIRole \<and> list_ex (\<lambda>c. call_name c \<in> set (ac_direct cfg)) (tool_calls m)
                    then Inr [RouteTo (Some end_name)]
                    else Inr [RouteTo (Some (entrypoint cfg))]))"

section \<open>The graph of the agent\<close>

definition plain_decl :: "string option \<Rightarrow> string list \<Rightarrow> unit node_decl" where
  "plain_decl s ends = \<lparr>nd_schema = s, nd_ends = ends, nd_defer = False, nd_policies = no_policies, nd_handler = False\<rparr>"

definition when_step :: "bool \<Rightarrow> ('b \<Rightarrow> 'b result) list \<Rightarrow> ('b \<Rightarrow> 'b result) list" where
  "when_step c steps = (if c then steps else [])"

definition apply_steps :: "('b \<Rightarrow> 'b result) list \<Rightarrow> 'b \<Rightarrow> 'b result" where
  "apply_steps steps b = fold_res (\<lambda>f. f) steps b"

text \<open>The schema of the state and, with a hook before the model, the one that adds its input.\<close>

definition input_schema :: "agent_config \<Rightarrow> string" where
  "input_schema cfg = (if ac_pre cfg then ''CallModelInputSchema'' else ''State'')"

definition agent_paths :: "agent_config \<Rightarrow> string list" where
  "agent_paths cfg =
     (if ac_post cfg then [''post_model_hook''] else [''tools'', if ac_response cfg then ''generate_structured_response'' else end_name])"

definition post_model_hook_paths :: "agent_config \<Rightarrow> string list" where
  "post_model_hook_paths cfg =
     [entrypoint cfg, ''tools'', if ac_response cfg then ''generate_structured_response'' else end_name]"

text \<open>\<open>hook\<close>: what type hints of the two hooks declare.\<close>

definition plain_graph :: "(string \<Rightarrow> schema) \<Rightarrow> (string \<Rightarrow> unit node_decl) \<Rightarrow> agent_config \<Rightarrow> unit builder \<Rightarrow> unit builder result" where
  "plain_graph schemas hook cfg =
     apply_steps
       ([add_node schemas ''agent'' (plain_decl (Some (input_schema cfg)) [])] @
        when_step (ac_pre cfg) [add_node schemas ''pre_model_hook'' (hook ''pre_model_hook''), add_edge ''pre_model_hook'' ''agent''] @
        [set_entry_point (entrypoint cfg)] @
        when_step (ac_post cfg) [add_node schemas ''post_model_hook'' (hook ''post_model_hook''), add_edge ''agent'' ''post_model_hook''] @
        when_step (ac_response cfg)
          [add_node schemas ''generate_structured_response'' (plain_decl None []),
           add_edge (if ac_post cfg then ''post_model_hook'' else ''agent'') ''generate_structured_response''])"

definition tools_graph :: "(string \<Rightarrow> schema) \<Rightarrow> (string \<Rightarrow> unit node_decl) \<Rightarrow> agent_config \<Rightarrow> unit builder \<Rightarrow> unit builder result" where
  "tools_graph schemas hook cfg =
     apply_steps
       ([add_node schemas ''agent'' (plain_decl (Some (input_schema cfg)) []), add_node schemas ''tools'' (plain_decl None [])] @
        when_step (ac_pre cfg) [add_node schemas ''pre_model_hook'' (hook ''pre_model_hook''), add_edge ''pre_model_hook'' ''agent''] @
        [set_entry_point (entrypoint cfg)] @
        when_step (ac_post cfg) [add_node schemas ''post_model_hook'' (hook ''post_model_hook''), add_edge ''agent'' ''post_model_hook''] @
        when_step (ac_response cfg) [add_node schemas ''generate_structured_response'' (plain_decl None [])] @
        when_step (ac_post cfg)
          [add_conditional_edges schemas ''post_model_hook'' ''post_model_hook_router'' (MapList (post_model_hook_paths cfg)) None] @
        [add_conditional_edges schemas ''agent'' ''should_continue'' (MapList (agent_paths cfg)) None,
         if ac_direct cfg \<noteq> []
         then add_conditional_edges schemas ''tools'' ''route_tool_responses'' (MapList [entrypoint cfg, end_name]) None
         else add_edge ''tools'' (entrypoint cfg)])"

definition react_builder ::
  "(string \<Rightarrow> schema) \<Rightarrow> (string \<Rightarrow> unit node_decl) \<Rightarrow> agent_config \<Rightarrow> bool \<Rightarrow> unit builder result" where
  "react_builder schemas hook cfg has_tools =
     and_then (new_builder schemas ''State'' None None) ((if has_tools then tools_graph else plain_graph) schemas hook cfg)"

text \<open>\<open>create_react_agent\<close> for tools given by name and whether they return directly; \<open>keys\<close> are those of a state schema
  of the caller, \<open>m\<close> is a static model. Without tools no router looks at the tools that return directly.\<close>

definition create_react_agent ::
  "(string \<Rightarrow> schema) \<Rightarrow> (string \<Rightarrow> unit node_decl) \<Rightarrow> agent_config \<Rightarrow> string list option \<Rightarrow> (string \<times> bool) list \<Rightarrow> nat \<Rightarrow>
   chat_model option \<Rightarrow> string list \<Rightarrow> string list \<Rightarrow> unit compiled_graph result" where
  "create_react_agent schemas hook cfg keys tools builtin m before_nodes after_nodes =
     (if ac_version cfg \<notin> {''v1'', ''v2''} then Inl ValueError
      else if (case keys of None \<Rightarrow> False
               | Some ks \<Rightarrow> \<not> set ([''messages'', ''remaining_steps''] @ (if ac_response cfg then [''structured_response''] else [])) \<subseteq> set ks)
      then Inl ValueError
      else and_then (case m of None \<Rightarrow> Inr False | Some cm \<Rightarrow> should_bind_tools cm (map fst tools) builtin)
        (\<lambda>_. and_then (react_builder schemas hook (cfg\<lparr>ac_direct := map fst (filter snd tools)\<rparr>) (tools \<noteq> []))
               (compile_graph (SomeNodes before_nodes) (SomeNodes after_nodes))))"

definition react_router :: "agent_config \<Rightarrow> string \<Rightarrow> chat_state \<Rightarrow> route_dest list result" where
  "react_router cfg name s =
     (if name = ''should_continue'' then should_continue cfg s
      else if name = ''post_model_hook_router'' then post_model_hook_router cfg s
      else route_tool_responses cfg s)"

section \<open>The graph compiles in every configuration\<close>

text \<open>The schemas of \<open>AgentState\<close> and its descendants, and hooks without type hints.\<close>

definition agent_schemas :: "bool \<Rightarrow> string \<Rightarrow> schema" where
  "agent_schemas response s =
     FieldSchema
       ([(''messages'', AnnotatedForm (WrappedForm PlainForm) [MetaFunction ''add_messages'' 2]),
         (''remaining_steps'', RequiredForm (AnnotatedForm PlainForm [MetaManaged ''RemainingStepsManager'']))] @
        (if response then [(''structured_response'', PlainForm)] else []) @
        (if s = ''CallModelInputSchema'' then [(''llm_input_messages'', WrappedForm PlainForm)] else []))"

definition react_compiles :: "bool \<Rightarrow> bool \<Rightarrow> bool \<Rightarrow> bool \<Rightarrow> bool \<Rightarrow> bool" where
  "react_compiles pre post response direct has_tools =
     (let cfg = \<lparr>ac_pre = pre, ac_post = post, ac_response = response, ac_version = ''v2'',
                 ac_direct = (if direct then [''t''] else []), ac_payload = (\<lambda>c s. PNone)\<rparr>
      in case create_react_agent (agent_schemas response) (\<lambda>n. plain_decl None []) cfg None (if has_tools then [(''t'', direct)] else []) 0 None [] [] of
           Inl e \<Rightarrow> False | Inr g \<Rightarrow> True)"

lemma compiles_with_tools:
  "list_all (\<lambda>(c, d). react_compiles False False c d True) [(False, False), (False, True), (True, False), (True, True)]"
  by code_simp

lemma compiles_with_tools_after:
  "list_all (\<lambda>(c, d). react_compiles False True c d True) [(False, False), (False, True), (True, False), (True, True)]"
  by code_simp

lemma compiles_with_tools_before:
  "list_all (\<lambda>(c, d). react_compiles True False c d True) [(False, False), (False, True), (True, False), (True, True)]"
  by code_simp

lemma compiles_with_tools_both:
  "list_all (\<lambda>(c, d). react_compiles True True c d True) [(False, False), (False, True), (True, False), (True, True)]"
  by code_simp

lemma compiles_without_tools:
  "list_all (\<lambda>(a, b, c). react_compiles a b c False False)
     [(False, False, False), (False, False, True), (False, True, False), (False, True, True),
      (True, False, False), (True, False, True), (True, True, False), (True, True, True)]"
  by code_simp

lemma no_tools_no_direct: "react_compiles pre post response direct False = react_compiles pre post response False False"
  by (simp add: react_compiles_def create_react_agent_def)

text \<open>Whatever hooks, response format and tools an agent is created with, its graph passes both validations and
  compiles.\<close>

theorem react_graph_compiles: "react_compiles pre post response direct has_tools"
proof (cases has_tools)
  case True
  with compiles_with_tools compiles_with_tools_after compiles_with_tools_before compiles_with_tools_both show ?thesis
    by (cases pre; cases post; cases response; cases direct) simp_all
next
  case False
  have "react_compiles pre post response False False" using compiles_without_tools by (cases pre; cases post; cases response) simp_all
  with False show ?thesis by (simp add: no_tools_no_direct [of pre post response direct])
qed

section \<open>What the routers return is declared\<close>

lemma add_schema_keeps: "add_schema schemas a s b = Inr b' \<Longrightarrow> bd_branches b' = bd_branches b \<and> bd_edges b' = bd_edges b"
proof (cases "dict_get (bd_schemas b) s")
  case None
  assume "add_schema schemas a s b = Inr b'"
  with None obtain fs where run: "fold_res add_field fs (b\<lparr>bd_schemas := dict_set s fs (bd_schemas b)\<rparr>) = Inr b'"
    by (auto simp: add_schema_def split: if_splits)
  show ?thesis
  proof (rule fold_res_invariant [OF run, of "\<lambda>x. bd_branches x = bd_branches b \<and> bd_edges x = bd_edges b"])
    fix f x x'
    assume "add_field f x = Inr x'" and "bd_branches x = bd_branches b \<and> bd_edges x = bd_edges b"
    then show "bd_branches x' = bd_branches b \<and> bd_edges x' = bd_edges b"
      by (auto simp: add_field_def split: prod.splits field_kind.splits option.splits if_splits)
  qed simp
qed (simp add: add_schema_def)

lemma add_node_keeps: "add_node schemas n d b = Inr b' \<Longrightarrow> bd_branches b' = bd_branches b \<and> bd_edges b' = bd_edges b"
  by (auto simp: add_node_def Let_def dest!: add_schema_keeps split: if_splits option.splits)

lemma add_edge_keeps: "add_edge s e b = Inr b' \<Longrightarrow> bd_branches b' = bd_branches b \<and> bd_edges b' = List.insert (s, e) (bd_edges b)"
  by (auto simp: add_edge_def split: if_splits)

lemma new_builder_empty: "new_builder schemas st i out = Inr b \<Longrightarrow> bd_branches b = [] \<and> bd_edges b = []"
  by (auto simp: new_builder_def Let_def dest!: add_schema_keeps)

lemma add_branch_keeps:
  "add_conditional_edges schemas source name pm None b = Inr b' \<Longrightarrow>
   bd_edges b' = bd_edges b \<and>
   bd_branches b' = dict_set source (dict_set name \<lparr>br_ends = ends_of_map pm, br_schema = None\<rparr> (dict_getd (bd_branches b) source [])) (bd_branches b)"
  by (auto simp: add_conditional_edges_def Let_def split: if_splits)

text \<open>The branches and the edges of an agent with tools.\<close>

definition react_branches :: "agent_config \<Rightarrow> (string, (string, branch_spec) dict) dict" where
  "react_branches cfg =
     (if ac_post cfg then [(''post_model_hook'', [(''post_model_hook_router'', \<lparr>br_ends = ends_of_map (MapList (post_model_hook_paths cfg)), br_schema = None\<rparr>)])]
      else []) @
     [(''agent'', [(''should_continue'', \<lparr>br_ends = ends_of_map (MapList (agent_paths cfg)), br_schema = None\<rparr>)])] @
     (if ac_direct cfg \<noteq> []
      then [(''tools'', [(''route_tool_responses'', \<lparr>br_ends = ends_of_map (MapList [entrypoint cfg, end_name]), br_schema = None\<rparr>)])] else [])"

definition react_edges :: "agent_config \<Rightarrow> (string \<times> string) set" where
  "react_edges cfg =
     {(start_name, entrypoint cfg)} \<union> (if ac_pre cfg then {(''pre_model_hook'', ''agent'')} else {}) \<union>
     (if ac_post cfg then {(''agent'', ''post_model_hook'')} else {}) \<union> (if ac_direct cfg \<noteq> [] then {} else {(''tools'', entrypoint cfg)})"

lemma apply_steps_simps [simp]: "apply_steps [] b = Inr b" "apply_steps (f # fs) b = and_then (f b) (apply_steps fs)"
  by (simp_all add: apply_steps_def [abs_def])

lemma apply_steps_append [simp]: "apply_steps (fs @ gs) b = and_then (apply_steps fs b) (apply_steps gs)"
  by (induction fs arbitrary: b) (auto simp: and_then_def split: sum.splits)

text \<open>What a step of the builder does to the branches and to the edges.\<close>

definition wiring :: "'p builder \<Rightarrow> (string, (string, branch_spec) dict) dict \<times> (string \<times> string) set" where
  "wiring b = (bd_branches b, set (bd_edges b))"

definition wires :: "('p builder \<Rightarrow> 'p builder result) \<Rightarrow>
   ((string, (string, branch_spec) dict) dict \<times> (string \<times> string) set \<Rightarrow> (string, (string, branch_spec) dict) dict \<times> (string \<times> string) set) \<Rightarrow> bool" where
  "wires f \<phi> \<longleftrightarrow> (\<forall>b b'. f b = Inr b' \<longrightarrow> wiring b' = \<phi> (wiring b))"

lemma wires_add_node: "wires (add_node schemas n d) id"
  by (auto simp: wires_def wiring_def dest: add_node_keeps)

lemma wires_add_edge: "wires (add_edge s e) (apsnd (insert (s, e)))"
  by (auto simp: wires_def wiring_def dest: add_edge_keeps)

lemma wires_add_branch:
  "wires (add_conditional_edges schemas source name pm None)
     (apfst (\<lambda>d. dict_set source (dict_set name \<lparr>br_ends = ends_of_map pm, br_schema = None\<rparr> (dict_getd d source [])) d))"
  by (auto simp: wires_def wiring_def dest: add_branch_keeps)

lemma wires_steps: "list_all2 wires fs \<phi>s \<Longrightarrow> apply_steps fs b = Inr b' \<Longrightarrow> wiring b' = fold (\<lambda>\<phi>. \<phi>) \<phi>s (wiring b)"
proof (induction arbitrary: b rule: list_all2_induct)
  case (Cons f fs \<phi> \<phi>s)
  from Cons.prems obtain b1 where "f b = Inr b1" "apply_steps fs b1 = Inr b'" by auto
  with Cons.hyps(1) Cons.IH show ?case by (simp add: wires_def)
qed simp

lemma wires_when: "list_all2 wires fs \<phi>s \<Longrightarrow> list_all2 wires (when_step c fs) (if c then \<phi>s else [])"
  by (simp add: when_step_def)

lemma tools_graph_wiring:
  assumes "tools_graph schemas hook cfg b0 = Inr b" and "wiring b0 = ([], {})"
  shows "wiring b = (react_branches cfg, react_edges cfg)"
proof -
  let ?branch = "\<lambda>source name pm. apfst (\<lambda>d. dict_set source (dict_set name \<lparr>br_ends = ends_of_map pm, br_schema = None\<rparr> (dict_getd d source [])) d)"
  let ?edge = "\<lambda>s e. apsnd (insert (s, e))"
  let ?steps = "[id, id] @ (if ac_pre cfg then [id, ?edge ''pre_model_hook'' ''agent''] else []) @ [?edge start_name (entrypoint cfg)] @
      (if ac_post cfg then [id, ?edge ''agent'' ''post_model_hook''] else []) @ (if ac_response cfg then [id] else []) @
      (if ac_post cfg then [?branch ''post_model_hook'' ''post_model_hook_router'' (MapList (post_model_hook_paths cfg))] else []) @
      [?branch ''agent'' ''should_continue'' (MapList (agent_paths cfg)),
       if ac_direct cfg \<noteq> [] then ?branch ''tools'' ''route_tool_responses'' (MapList [entrypoint cfg, end_name])
       else ?edge ''tools'' (entrypoint cfg)]"
  have "wiring b = fold (\<lambda>\<phi>. \<phi>) ?steps (wiring b0)"
    by (rule wires_steps [OF _ assms(1) [unfolded tools_graph_def set_entry_point_def]])
      (intro list_all2_appendI wires_when list.rel_intros wires_add_node wires_add_edge wires_add_branch, simp add: wires_add_edge wires_add_branch del: ends_of_map.simps)
  also have "\<dots> = (react_branches cfg, react_edges cfg)"
    unfolding assms(2) react_branches_def react_edges_def
    by (cases "ac_pre cfg"; cases "ac_post cfg"; cases "ac_response cfg"; cases "ac_direct cfg = []") (simp_all add: dict_getd_def insert_commute)
  finally show ?thesis .
qed

lemma react_builder_wiring:
  assumes "react_builder schemas hook cfg True = Inr b"
  shows "bd_branches b = react_branches cfg \<and> set (bd_edges b) = react_edges cfg"
proof -
  from assms obtain b0 where b0: "new_builder schemas ''State'' None None = Inr b0" "tools_graph schemas hook cfg b0 = Inr b"
    by (auto simp: react_builder_def)
  have "wiring b0 = ([], {})" using new_builder_empty [OF b0(1)] by (simp add: wiring_def)
  from tools_graph_wiring [OF b0(2) this] show ?thesis by (simp add: wiring_def)
qed

lemma ends_of_names: "distinct ns \<Longrightarrow> dict_get (map (\<lambda>n. (Some n, n)) ns) (Some x) = (if x \<in> set ns then Some x else None)"
  by (induction ns) auto

lemma sends_finish:
  assumes "n \<noteq> end_name" shows "\<exists>us. branch_finish br (map (\<lambda>c. RouteSend n (f c)) cs) = Inr us"
proof -
  have "destinations (br_ends br) (map (\<lambda>c. RouteSend n (f c)) cs) = Inr (map (\<lambda>c. RouteSend n (f c)) cs)"
    by (induction cs) (simp_all add: and_then_def)
  with assms show ?thesis by (auto simp: branch_finish_def and_then_def list_ex_iff)
qed

lemma named_route_finishes:
  assumes "distinct ns" and "x \<in> set ns" and "x \<noteq> start_name"
  shows "\<exists>us. branch_finish \<lparr>br_ends = ends_of_map (MapList ns), br_schema = None\<rparr> [RouteTo (Some x)] = Inr us"
proof -
  have "rev (remdups (rev ns)) = ns" using assms(1) by (simp add: distinct_remdups_id)
  moreover obtain e es where es: "map (\<lambda>n. (Some n, n)) ns = e # es" using assms(2) by (cases ns) auto
  ultimately have "destination (ends_of_map (MapList ns)) (RouteTo (Some x)) = Inr (RouteTo (Some x))"
    using ends_of_names [OF assms(1), of x] assms(2) by (simp del: list.map)
  with assms(3) show ?thesis by (auto simp: branch_finish_def and_then_def)
qed

text \<open>C21. No router of the agent ever leaves its declared paths: for version 2, and for version 1 without a hook
  after the model, what a branch's router returns on any state is accepted by the path map the branch was declared
  with, so routing raises no error of its own.\<close>

theorem react_routes_declared:
  assumes "react_builder schemas hook cfg True = Inr b"
    and "ac_version cfg = ''v2'' \<or> (ac_version cfg = ''v1'' \<and> \<not> ac_post cfg)"
    and "(n, brs) \<in> set (bd_branches b)" and "(m, br) \<in> set brs" and "react_router cfg m s = Inr rs"
  shows "\<exists>us. branch_finish br rs = Inr us"
proof -
  have start: "''agent'' \<noteq> start_name" "''tools'' \<noteq> start_name" "''post_model_hook'' \<noteq> start_name" "''pre_model_hook'' \<noteq> start_name"
    "''generate_structured_response'' \<noteq> start_name" "end_name \<noteq> start_name" "''tools'' \<noteq> end_name"
    by (simp_all add: start_name_def end_name_def)
  then have entry: "entrypoint cfg \<noteq> start_name" by (simp add: entrypoint_def)
  have paths: "distinct (agent_paths cfg)" "distinct (post_model_hook_paths cfg)" "distinct [entrypoint cfg, end_name]"
    by (simp_all add: agent_paths_def post_model_hook_paths_def entrypoint_def end_name_def)
  note finish = named_route_finishes [OF paths(1)] named_route_finishes [OF paths(2)] named_route_finishes [OF paths(3)]
  note sends = sends_finish [OF start(7)]
  from react_builder_wiring [OF assms(1)] assms(3,4) consider
      "m = ''should_continue''" "br = \<lparr>br_ends = ends_of_map (MapList (agent_paths cfg)), br_schema = None\<rparr>"
    | "m = ''post_model_hook_router''" "br = \<lparr>br_ends = ends_of_map (MapList (post_model_hook_paths cfg)), br_schema = None\<rparr>"
    | "m = ''route_tool_responses''" "br = \<lparr>br_ends = ends_of_map (MapList [entrypoint cfg, end_name]), br_schema = None\<rparr>"
    by (auto simp: react_branches_def split: if_splits)
  then show ?thesis
  proof cases
    case 1
    with assms(5) have "should_continue cfg s = Inr rs" by (simp add: react_router_def)
    then consider t where "rs = [RouteTo (Some t)]" "t \<in> set (agent_paths cfg)" "t \<noteq> start_name" | cs where "rs = send_calls cfg s cs"
      using assms(2) start by (auto simp: should_continue_def Let_def agent_paths_def split: option.splits list.splits if_splits)
    then show ?thesis using finish(1) sends by cases (simp_all add: 1 send_calls_def del: ends_of_map.simps)
  next
    case 2
    with assms(5) have "post_model_hook_router cfg s = Inr rs" by (simp add: react_router_def)
    then consider t where "rs = [RouteTo (Some t)]" "t \<in> set (post_model_hook_paths cfg)" "t \<noteq> start_name" | cs where "rs = send_calls cfg s cs"
      using start entry by (auto simp: post_model_hook_router_def Let_def post_model_hook_paths_def split: option.splits if_splits)
    then show ?thesis using finish(2) sends by cases (simp_all add: 2 send_calls_def del: ends_of_map.simps)
  next
    case 3
    with assms(5) have "route_tool_responses cfg s = Inr rs" by (simp add: react_router_def)
    then consider t where "rs = [RouteTo (Some t)]" "t \<in> set [entrypoint cfg, end_name]" "t \<noteq> start_name"
      using start entry by (auto simp: route_tool_responses_def split: option.splits if_splits)
    then show ?thesis using finish(3) by cases (simp add: 3 del: ends_of_map.simps)
  qed
qed
section \<open>The guard of the remaining steps\<close>

lemma guarded_response:
  assumes "call_model am pre direct name p model s = Inr ms" and "as_remaining s = Some n" and "n < 2"
  obtains m where "ms = [m]" "role m = AIRole \<longrightarrow> tool_calls m = []"
proof -
  from assms(1) obtain s' x r where s': "model_input_state pre s = Inr s'"
    and ms: "ms = (if are_more_steps_needed direct s' (r\<lparr>msg_name := name\<rparr>) then [apology (msg_id (r\<lparr>msg_name := name\<rparr>))] else [r\<lparr>msg_name := name\<rparr>])"
    by (cases am) (auto simp: call_model_def Let_def)
  have "as_remaining s' = Some n"
    using s' assms(2) by (auto simp: model_input_state_def Let_def split: option.splits)
  then have "\<not> are_more_steps_needed direct s' (r\<lparr>msg_name := name\<rparr>) \<Longrightarrow> role r = AIRole \<longrightarrow> tool_calls r = []"
    using assms(3) by (auto simp: are_more_steps_needed_def Let_def)
  with ms that [of "apology (msg_id r)"] that [of "r\<lparr>msg_name := name\<rparr>"] show thesis
    by (cases "are_more_steps_needed direct s' (r\<lparr>msg_name := name\<rparr>)") (simp_all add: apology_def)
qed

text \<open>C7. Once fewer than two steps remain, the agent calls no tool any more: whatever the model answers, the message
  the model node adds carries no calls, and the router goes to the node after the agent or ends the run.\<close>

theorem out_of_steps_calls_no_tool:
  assumes "call_model am (ac_pre cfg) (ac_direct cfg) name p model s = Inr ms" and "as_remaining s = Some n" and "n < 2"
    and "as_messages s' = Some (history @ ms)" and "should_continue cfg s' = Inr rs"
  shows "rs = [RouteTo (Some (if ac_post cfg then ''post_model_hook'' else if ac_response cfg then ''generate_structured_response'' else end_name))]"
proof -
  obtain m where m: "ms = [m]" "role m = AIRole \<longrightarrow> tool_calls m = []" by (rule guarded_response [OF assms(1-3)])
  have "as_messages s' = Some (history @ [m])" using assms(4) by (simp add: m(1))
  moreover obtain x xs where x: "history @ [m] = x # xs" by (cases "history @ [m]") simp_all
  moreover have "last (x # xs) = m" unfolding x [symmetric] by simp
  ultimately have at: "as_messages s' = Some (x # xs)" "last (x # xs) = m" by simp_all
  from assms(5) m(2) show ?thesis unfolding should_continue_def at option.case list.case Let_def at(2)
    by (auto split: if_splits)
qed

definition demo_agent :: agent_config where
  "demo_agent = \<lparr>ac_pre = False, ac_post = False, ac_response = False, ac_version = ''v2'', ac_direct = [''stop''],
     ac_payload = (\<lambda>c s. PStr (call_name c))\<rparr>"

definition demo_question :: message where
  "demo_question = plain_message HumanRole ''h'' ''hi''"

definition demo_request :: message where
  "demo_request = (plain_message AIRole ''a'' [])\<lparr>tool_calls := [demo_call]\<rparr>"

definition demo_agent_state :: "int \<Rightarrow> message list \<Rightarrow> chat_state" where
  "demo_agent_state n ms = \<lparr>as_messages = Some ms, as_llm_input = None, as_remaining = Some n\<rparr>"

theorem out_of_steps_calls_no_tool_witness:
  "call_model False False [''stop''] (Some ''robot'') (TextPrompt ''be kind'') (\<lambda>s ms. Inr demo_request) (demo_agent_state 1 [demo_question]) =
     Inr [apology (Some ''a'')] \<and>
   should_continue demo_agent (demo_agent_state 0 [demo_question, apology (Some ''a'')]) = Inr [RouteTo (Some end_name)]"
proof -
  have called: "call_model False (ac_pre demo_agent) (ac_direct demo_agent) (Some ''robot'') (TextPrompt ''be kind'') (\<lambda>s ms. Inr demo_request)
      (demo_agent_state 1 [demo_question]) = Inr [apology (Some ''a'')]"
    by code_simp
  obtain rs where rs: "should_continue demo_agent (demo_agent_state 0 ([demo_question] @ [apology (Some ''a'')])) = Inr rs"
    by (simp add: should_continue_def demo_agent_state_def apology_def)
  have "rs = [RouteTo (Some (if ac_post demo_agent then ''post_model_hook'' else if ac_response demo_agent then ''generate_structured_response'' else end_name))]"
    by (rule out_of_steps_calls_no_tool [OF called _ _ _ rs, of 1 "[demo_question]"]) (simp_all add: demo_agent_state_def)
  with called rs show ?thesis by (simp add: demo_agent_def)
qed

text \<open>An answer without calls counts as one whose tools all return directly: with no step left it is replaced.\<close>

lemma final_answer_replaced:
  "role r = AIRole \<Longrightarrow> tool_calls r = [] \<Longrightarrow> as_remaining s = Some n \<Longrightarrow> n < 1 \<Longrightarrow> are_more_steps_needed direct s r"
  by (simp add: are_more_steps_needed_def)

text \<open>Version 1 with a hook after the model: the first call leaves the declared paths.\<close>

lemma first_version_leaves_paths:
  assumes "ac_version cfg = ''v1''" and "ac_post cfg"
    and "as_messages s = Some (history @ [m])" and "role m = AIRole" and "tool_calls m \<noteq> []"
  shows "\<exists>rs. should_continue cfg s = Inr rs \<and>
    branch_finish \<lparr>br_ends = ends_of_map (MapList (agent_paths cfg)), br_schema = None\<rparr> rs = Inl KeyError"
proof -
  obtain x xs where x: "history @ [m] = x # xs" by (cases "history @ [m]") simp_all
  have l: "last (x # xs) = m" unfolding x [symmetric] by simp
  have "should_continue cfg s = Inr [RouteTo (Some ''tools'')]"
    unfolding should_continue_def assms(3) x option.case list.case Let_def l using assms by simp
  then show ?thesis using assms(2) by (simp add: agent_paths_def branch_finish_def and_then_def)
qed

section \<open>The history stays valid\<close>

lemma validate_chat_history_iff:
  "validate_chat_history ms = Inr () \<longleftrightarrow> (\<forall>c \<in> set (calls_of_history ms). call_id c \<in> set (answered_ids ms))"
  by (auto simp: validate_chat_history_def filter_empty_conv)

lemma history_append [simp]:
  "calls_of_history (xs @ ys) = calls_of_history xs @ calls_of_history ys" "answered_ids (xs @ ys) = answered_ids xs @ answered_ids ys"
  by (simp_all add: calls_of_history_def answered_ids_def)

lemma tool_messages_call_nothing: "\<forall>m \<in> set ms. role m = ToolRole \<Longrightarrow> calls_of_history ms = []"
  by (induction ms) (auto simp: calls_of_history_def)


definition demo_round :: "messages_update list" where
  "demo_round =
     (case tool_node_run demo_texts (demo_node (default_handler demo_texts) demo_reply) True None (CallWithContext demo_call (ListState [])) 0 of
        (Inr (Updates u), s) \<Rightarrow> [u] | _ \<Rightarrow> [])"


theorem react_routes_declared_witness:
  "should_continue demo_agent (demo_agent_state 5 [demo_question, demo_request]) = Inr [RouteSend ''tools'' (PStr ''look'')] \<and>
   (\<exists>us. branch_finish \<lparr>br_ends = Some [(Some ''tools'', ''tools''), (Some ''__end__'', ''__end__'')], br_schema = None\<rparr>
      [RouteSend ''tools'' (PStr ''look'')] = Inr us)"
proof -
  have "case react_builder (agent_schemas False) (\<lambda>n. plain_decl None []) demo_agent True of Inl e \<Rightarrow> False | Inr b \<Rightarrow> True" by code_simp
  then obtain b where b: "react_builder (agent_schemas False) (\<lambda>n. plain_decl None []) demo_agent True = Inr b" by (auto split: sum.splits)
  have route: "should_continue demo_agent (demo_agent_state 5 [demo_question, demo_request]) = Inr [RouteSend ''tools'' (PStr ''look'')]" by code_simp
  have "\<exists>us. branch_finish \<lparr>br_ends = Some [(Some ''tools'', ''tools''), (Some ''__end__'', ''__end__'')], br_schema = None\<rparr>
      [RouteSend ''tools'' (PStr ''look'')] = Inr us"
  proof (rule react_routes_declared [OF b])
    show "ac_version demo_agent = ''v2'' \<or> ac_version demo_agent = ''v1'' \<and> \<not> ac_post demo_agent" by (simp add: demo_agent_def)
    show "(''agent'', [(''should_continue'', \<lparr>br_ends = Some [(Some ''tools'', ''tools''), (Some ''__end__'', ''__end__'')], br_schema = None\<rparr>)])
        \<in> set (bd_branches b)"
      using react_builder_wiring [OF b] by (simp add: react_branches_def demo_agent_def agent_paths_def end_name_def)
    show "(''should_continue'', \<lparr>br_ends = Some [(Some ''tools'', ''tools''), (Some ''__end__'', ''__end__'')], br_schema = None\<rparr>)
        \<in> set [(''should_continue'', \<lparr>br_ends = Some [(Some ''tools'', ''tools''), (Some ''__end__'', ''__end__'')], br_schema = None\<rparr>)]" by simp
    show "react_router demo_agent ''should_continue'' (demo_agent_state 5 [demo_question, demo_request]) = Inr [RouteSend ''tools'' (PStr ''look'')]"
      using route by (simp add: react_router_def)
  qed
  with route show ?thesis by simp
qed
end
