(* ===== verification/Successors.thy ===== *)
theory Successors
  imports Graph
begin

text \<open>
  The compiled graph against the graph it was built from. A node's own channel is an \<open>EphemeralValue\<close> without a
  guard: after a step it has a value exactly when a task has written to it. So the nodes Pregel runs next
  are the nodes the edges, branches and commands of the finished tasks lead to.
\<close>

section \<open>A channel that lasts one step\<close>

definition one_step :: "chan \<Rightarrow> bool" where
  "one_step c \<longleftrightarrow> (\<exists>v. c = EphemeralValue \<lparr>guard = False, gs_value = v\<rparr>)"

lemma settle_other: "k' \<noteq> k \<Longrightarrow> dict_get (ss_channels (settle rep (Some nv) k' r st)) k = dict_get (ss_channels st) k \<and>
    dict_get (ss_versions (settle rep (Some nv) k' r st)) k = dict_get (ss_versions st) k \<and>
    (k \<in> ss_updated (settle rep (Some nv) k' r st) \<longleftrightarrow> k \<in> ss_updated st)"
  by (cases r) (auto simp: settle_def Let_def)

lemma settle_same: "dict_get (ss_channels (settle rep (Some nv) k (u, c) st)) k = Some c \<and>
    dict_get (ss_versions (settle rep (Some nv) k (u, c) st)) k = (if u then Some nv else dict_get (ss_versions st) k) \<and>
    (k \<in> ss_updated (settle rep (Some nv) k (u, c) st) \<longleftrightarrow> k \<in> ss_updated st \<or> u \<and> rep \<and> chan_available c)"
  by (auto simp: settle_def Let_def)

text \<open>What a phase leaves of the channel \<open>k\<close>.\<close>

definition view :: "string \<Rightarrow> step_state \<Rightarrow> chan option \<times> nat option \<times> bool" where
  "view k st = (dict_get (ss_channels st) k, dict_get (ss_versions st) k, k \<in> ss_updated st)"

lemma settle_view:
  "view k (settle rep (Some nv) k' (u, c) st) =
    (if k' = k then (Some c, if u then Some nv else dict_get (ss_versions st) k, k \<in> ss_updated st \<or> u \<and> rep \<and> chan_available c) else view k st)"
  using settle_other [of k' k rep nv "(u, c)" st] settle_same [of rep nv k u c st] by (auto simp: view_def)

lemma consume_all_view:
  "view k st = (Some c, v, b) \<Longrightarrow> one_step c \<Longrightarrow> view k (consume_all (Some nv) ks st) = (Some c, v, b)"
proof (induction ks arbitrary: st)
  case (Cons k' ks)
  show ?case
  proof (cases "dict_get (ss_channels st) k'")
    case None
    with Cons show ?thesis by simp
  next
    case (Some c')
    obtain u d where d: "chan_consume c' = (u, d)" by (cases "chan_consume c'")
    have "view k (settle False (Some nv) k' (u, d) st) = (Some c, v, b)"
    proof (cases "k' = k")
      case True
      with Some Cons.prems(1) have "c' = c" by (simp add: view_def)
      with d Cons.prems(2) have "u = False" "d = c" by (auto simp: one_step_def no_change_def)
      with True Cons.prems(1) show ?thesis unfolding settle_view by (simp add: view_def)
    next
      case False
      with Cons.prems(1) show ?thesis by (simp add: settle_view)
    qed
    from Cons.IH [OF this Cons.prems(2)] Some d show ?thesis by simp
  qed
qed simp

lemma finish_all_view:
  "view k st = (Some c, v, b) \<Longrightarrow> one_step c \<Longrightarrow> view k (finish_all (Some nv) ks st) = (Some c, v, b)"
proof (induction ks arbitrary: st)
  case (Cons k' ks)
  show ?case
  proof (cases "dict_get (ss_channels st) k'")
    case None
    with Cons show ?thesis by simp
  next
    case (Some c')
    obtain u d where d: "chan_finish c' = (u, d)" by (cases "chan_finish c'")
    have "view k (settle True (Some nv) k' (u, d) st) = (Some c, v, b)"
    proof (cases "k' = k")
      case True
      with Some Cons.prems(1) have "c' = c" by (simp add: view_def)
      with d Cons.prems(2) have "u = False" "d = c" by (auto simp: one_step_def no_change_def)
      with True Cons.prems(1) show ?thesis unfolding settle_view by (simp add: view_def)
    next
      case False
      with Cons.prems(1) show ?thesis by (simp add: settle_view)
    qed
    from Cons.IH [OF this Cons.prems(2)] Some d show ?thesis by simp
  qed
qed simp

lemma one_step_update:
  "one_step c \<Longrightarrow> chan_update vs c = Inr (u, d) \<Longrightarrow>
   one_step d \<and> (vs \<noteq> [] \<longrightarrow> u \<and> chan_available d) \<and> (vs = [] \<longrightarrow> u = chan_available c \<and> \<not> chan_available d)"
  by (auto simp: one_step_def rewrap_def ephemeral_update_def split: if_splits)

lemma update_all_view:
  "update_all (Some nv) g st = Inr st' \<Longrightarrow> distinct (map fst g) \<Longrightarrow> list_all (\<lambda>(k, vs). vs \<noteq> []) g \<Longrightarrow>
   view k st = (Some c, v, b) \<Longrightarrow> one_step c \<Longrightarrow>
   (if k \<in> fst ` set g then (\<exists>d. one_step d \<and> chan_available d \<and> view k st' = (Some d, Some nv, True)) else view k st' = (Some c, v, b))"
proof (induction g arbitrary: st c v b)
  case (Cons p g)
  obtain k' vs where p: "p = (k', vs)" by (cases p)
  show ?case
  proof (cases "dict_get (ss_channels st) k'")
    case None
    with Cons.prems(4) have "k' \<noteq> k" by (auto simp: view_def)
    with Cons.IH [of st c v b] Cons.prems None show ?thesis by (auto simp: p)
  next
    case (Some c')
    with Cons.prems(1) obtain u d where d: "chan_update vs c' = Inr (u, d)" and
      run: "update_all (Some nv) g (settle True (Some nv) k' (u, d) st) = Inr st'"
      by (auto simp: p split: sum.splits)
    show ?thesis
    proof (cases "k' = k")
      case True
      with Some Cons.prems(4) have c': "c' = c" by (simp add: view_def)
      from one_step_update [OF Cons.prems(5) d [unfolded c']] Cons.prems(3)
      have d': "one_step d" "u" "chan_available d" by (auto simp: p)
      have "view k (settle True (Some nv) k' (u, d) st) = (Some d, Some nv, True)"
        using True d' by (simp add: settle_view)
      moreover have "k \<notin> fst ` set g" using Cons.prems(2) True by (force simp: p)
      ultimately show ?thesis using Cons.IH [OF run _ _ _ d'(1), of "Some nv" True] Cons.prems(2,3) d' True
        by (auto simp: p)
    next
      case False
      with Cons.prems(4) have "view k (settle True (Some nv) k' (u, d) st) = (Some c, v, b)" by (simp add: settle_view)
      from Cons.IH [OF run _ _ this Cons.prems(5)] Cons.prems(2,3) False show ?thesis by (simp add: p)
    qed
  qed
qed simp

lemma bump_all_view:
  "bump_all (Some nv) ks st = Inr st' \<Longrightarrow> view k st = (Some c, v, b) \<Longrightarrow> one_step c \<Longrightarrow>
   (b \<longrightarrow> view k st' = (Some c, v, b)) \<and>
   (\<not> b \<longrightarrow> (\<exists>d v'. one_step d \<and> view k st' = (Some d, v', False) \<and> (chan_available d \<longrightarrow> k \<notin> set ks \<and> d = c)))"
proof (induction ks arbitrary: st c v)
  case (Cons k' ks)
  show ?case
  proof (cases "\<exists>c'. dict_get (ss_channels st) k' = Some c' \<and> chan_available c' \<and> k' \<notin> ss_updated st")
    case False
    then have run: "bump_all (Some nv) ks st = Inr st'" using Cons.prems(1) by (auto split: option.splits if_splits)
    show ?thesis
    proof (cases "k' = k \<and> \<not> b")
      case True
      with False Cons.prems(2) have "\<not> chan_available c" by (auto simp: view_def)
      with Cons.IH [OF run Cons.prems(2,3)] show ?thesis by (metis list.set_intros(2) set_ConsD)
    next
      case nk: False
      with Cons.IH [OF run Cons.prems(2,3)] show ?thesis by auto
    qed
  next
    case True
    then obtain c' where c': "dict_get (ss_channels st) k' = Some c'" "chan_available c'" "k' \<notin> ss_updated st" by blast
    with Cons.prems(1) obtain u d where d: "chan_update [] c' = Inr (u, d)" and
      run: "bump_all (Some nv) ks (settle True (Some nv) k' (u, d) st) = Inr st'"
      by (auto split: sum.splits)
    show ?thesis
    proof (cases "k' = k")
      case False
      with Cons.prems(2) have "view k (settle True (Some nv) k' (u, d) st) = (Some c, v, b)" by (simp add: settle_view)
      from Cons.IH [OF run this Cons.prems(3)] False show ?thesis by auto
    next
      case k: True
      with c' Cons.prems(2) have eq: "c' = c" "\<not> b" by (auto simp: view_def)
      from one_step_update [OF Cons.prems(3) d [unfolded eq]] have d': "one_step d" "\<not> chan_available d" by auto
      have "view k (settle True (Some nv) k' (u, d) st) = (Some d, if u then Some nv else dict_get (ss_versions st) k, b)"
        using k eq(2) d' c'(3) by (auto simp: settle_view)
      from Cons.IH [OF run this d'(1)] eq d'(2) show ?thesis by auto
    qed
  qed
qed auto

lemma group_writes_spec:
  "distinct (map fst g) \<Longrightarrow> list_all (\<lambda>(k, vs). vs \<noteq> []) g \<Longrightarrow>
   distinct (map fst (group_writes chs ws g)) \<and> list_all (\<lambda>(k, vs). vs \<noteq> []) (group_writes chs ws g) \<and>
   fst ` set (group_writes chs ws g) = fst ` set g \<union> {k \<in> fst ` set ws. k \<notin> set control_keys \<and> dict_get chs k \<noteq> None}"
proof (induction ws arbitrary: g)
  case (Cons w ws)
  obtain k x where w: "w = (k, x)" by (cases w)
  let ?g = "if k \<in> set control_keys then g else if dict_get chs k \<noteq> None then dict_set k (dict_getd g k [] @ [x]) g else g"
  have nonempty: "list_all (\<lambda>(k, vs). vs \<noteq> []) (dict_set k (ys @ [x]) g)" for ys
    using Cons.prems(2) by (induction g) auto
  have keys: "fst ` set (dict_set k y g) = insert k (fst ` set g)" for y by (induction g) auto
  have "distinct (map fst ?g)" using Cons.prems(1) by (simp add: distinct_update)
  moreover have "list_all (\<lambda>(k, vs). vs \<noteq> []) ?g" using Cons.prems(2) nonempty by simp
  moreover have "fst ` set ?g = fst ` set g \<union> (if k \<notin> set control_keys \<and> dict_get chs k \<noteq> None then {k} else {})" by (simp add: keys)
  ultimately show ?case using Cons.IH [of ?g] unfolding w by auto
qed simp

text \<open>All phases: a written one-step channel has a value and the new version, another is empty.\<close>

lemma apply_writes_phases:
  assumes run: "apply_writes cp chs tasks (Some f) t2n = Inr (updated, cp', chs')" and bump: "\<exists>t \<in> set tasks. triggers t \<noteq> []"
  obtains st1 st2 st3 where
    "st1 = consume_all (Some (f (highest_version (channel_versions cp)))) (read_channels_of (in_order tasks) chs)
       \<lparr>ss_versions = channel_versions cp, ss_channels = chs, ss_updated = {}\<rparr>"
    "update_all (Some (f (highest_version (channel_versions cp)))) (group_writes (ss_channels st1) (concat (map task_out (in_order tasks))) []) st1 = Inr st2"
    "bump_all (Some (f (highest_version (channel_versions cp)))) (map fst (ss_channels st2)) st2 = Inr st3"
    "\<lparr>ss_versions = channel_versions cp', ss_channels = chs', ss_updated = updated\<rparr> =
       (if ss_updated st3 \<inter> set (map fst t2n) = {} then finish_all (Some (f (highest_version (channel_versions cp)))) (map fst (ss_channels st3)) st3 else st3)"
proof -
  have b: "list_ex (\<lambda>t. triggers t \<noteq> []) (in_order tasks)" using bump by (auto simp: list_ex_iff in_order_def)
  let ?nv = "f (highest_version (channel_versions cp))"
  define st1 where "st1 = consume_all (Some ?nv) (read_channels_of (in_order tasks) chs)
       \<lparr>ss_versions = channel_versions cp, ss_channels = chs, ss_updated = {}\<rparr>"
  from run obtain st2 where st2: "update_all (Some ?nv) (group_writes (ss_channels st1) (concat (map task_out (in_order tasks))) []) st1 = Inr st2"
    by (auto simp: apply_writes_def Let_def st1_def split: sum.splits)
  define bumped where "bumped = bump_all (Some ?nv) (map fst (ss_channels st2)) st2"
  have "bumped = Inl e \<Longrightarrow> apply_writes cp chs tasks (Some f) t2n = Inl e" for e
    unfolding apply_writes_def Let_def option.map st1_def [symmetric] st2 sum.case bumped_def [symmetric]
    by (simp only: sum.case b if_True)
  then have "bumped \<noteq> Inl e" for e using run by (metis Inl_Inr_False)
  then obtain st3 where "bumped = Inr st3" by (cases bumped) blast+
  then have st3: "bump_all (Some ?nv) (map fst (ss_channels st2)) st2 = Inr st3" by (simp add: bumped_def)
  define st4 where "st4 = (if ss_updated st3 \<inter> set (map fst t2n) = {} then finish_all (Some ?nv) (map fst (ss_channels st3)) st3 else st3)"
  have "Inr (ss_updated st4, \<lparr>channel_versions = ss_versions st4,
      versions_seen = fold (see_versions (channel_versions cp)) (in_order tasks) (versions_seen cp)\<rparr>, ss_channels st4)
    = (Inr (updated, cp', chs') :: (string set \<times> graph_checkpoint \<times> channels) result)"
    unfolding run [symmetric] apply_writes_def Let_def option.map st1_def [symmetric] st2 sum.case
    by (simp only: b if_True simp_thms st3 sum.case st4_def)
  then have "\<lparr>ss_versions = channel_versions cp', ss_channels = chs', ss_updated = updated\<rparr> = st4"
    by (cases st4) auto
  with that [OF st1_def st2 st3] show thesis unfolding st4_def by blast
qed

lemma one_step_after:
  assumes run: "apply_writes cp chs tasks (Some f) t2n = Inr (updated, cp', chs')" and bump: "\<exists>t \<in> set tasks. triggers t \<noteq> []"
    and c: "dict_get chs k = Some c" "one_step c" "k \<notin> set control_keys"
  shows "\<exists>d. one_step d \<and> dict_get chs' k = Some d \<and> (chan_available d \<longleftrightarrow> (\<exists>t \<in> set tasks. k \<in> fst ` set (task_out t))) \<and>
    (chan_available d \<longrightarrow> dict_get (channel_versions cp') k = Some (f (highest_version (channel_versions cp))))"
proof -
  let ?nv = "f (highest_version (channel_versions cp))"
  let ?st0 = "\<lparr>ss_versions = channel_versions cp, ss_channels = chs, ss_updated = {}\<rparr>"
  from apply_writes_phases [OF run bump] obtain st1 st2 st3 where
    st1: "st1 = consume_all (Some ?nv) (read_channels_of (in_order tasks) chs) ?st0"
    and st2: "update_all (Some ?nv) (group_writes (ss_channels st1) (concat (map task_out (in_order tasks))) []) st1 = Inr st2"
    and st3: "bump_all (Some ?nv) (map fst (ss_channels st2)) st2 = Inr st3"
    and st4: "\<lparr>ss_versions = channel_versions cp', ss_channels = chs', ss_updated = updated\<rparr> =
       (if ss_updated st3 \<inter> set (map fst t2n) = {} then finish_all (Some ?nv) (map fst (ss_channels st3)) st3 else st3)"
    by metis
  let ?st4 = "\<lparr>ss_versions = channel_versions cp', ss_channels = chs', ss_updated = updated\<rparr>"
  have "view k ?st0 = (Some c, dict_get (channel_versions cp) k, False)" using c by (simp add: view_def)
  from consume_all_view [OF this c(2)] have v1: "view k st1 = (Some c, dict_get (channel_versions cp) k, False)" by (simp add: st1)
  let ?g = "group_writes (ss_channels st1) (concat (map task_out (in_order tasks))) []"
  note g = group_writes_spec [of "[]" "ss_channels st1" "concat (map task_out (in_order tasks))"]
  have "dict_get (ss_channels st1) k \<noteq> None" using v1 by (simp add: view_def)
  then have hit: "k \<in> fst ` set ?g \<longleftrightarrow> (\<exists>t \<in> set tasks. k \<in> fst ` set (task_out t))" using g c(3) by (auto simp: in_order_def)
  have v2: "if k \<in> fst ` set ?g then (\<exists>d. one_step d \<and> chan_available d \<and> view k st2 = (Some d, Some ?nv, True))
      else view k st2 = (Some c, dict_get (channel_versions cp) k, False)"
    by (rule update_all_view [OF st2 _ _ v1 c(2)]) (use g in auto)
  have same: "view k ?st4 = view k st3" if "view k st3 = (Some d, v, b)" "one_step d" for d v b
    using finish_all_view [OF that] that(1) unfolding st4 by simp
  show ?thesis
  proof (cases "k \<in> fst ` set ?g")
    case True
    with v2 obtain d where d: "one_step d" "chan_available d" "view k st2 = (Some d, Some ?nv, True)" by auto
    with bump_all_view [OF st3 d(3,1)] have "view k st3 = (Some d, Some ?nv, True)" by simp
    with same [OF this d(1)] have "view k ?st4 = (Some d, Some ?nv, True)" by simp
    with d hit True show ?thesis by (auto simp: view_def)
  next
    case False
    with v2 have v2': "view k st2 = (Some c, dict_get (channel_versions cp) k, False)" by simp
    then have "k \<in> set (map fst (ss_channels st2))" using map_of_SomeD [of "ss_channels st2" k c] by (force simp: view_def)
    with bump_all_view [OF st3 v2' c(2)] obtain d v' where d: "one_step d" "view k st3 = (Some d, v', False)" "\<not> chan_available d" by auto
    with same [OF d(2,1)] have "view k ?st4 = (Some d, v', False)" by simp
    with d hit False show ?thesis by (auto simp: view_def)
  qed
qed

text \<open>A node whose only trigger is such a channel is ready for the next step exactly when the channel was written.
  What a node has seen of the channel is no newer than the channel.\<close>

lemma ready_iff_written:
  assumes run: "apply_writes cp chs tasks (Some f) t2n = Inr (updated, cp', chs')" and bump: "\<exists>t \<in> set tasks. triggers t \<noteq> []"
    and c: "dict_get chs k = Some c" "one_step c" "k \<notin> set control_keys"
    and proper: "all_proper chs" and newer: "\<And>v. (case v of None \<Rightarrow> 0 | Some w \<Rightarrow> w) < f v"
    and trig: "dict_get ps p = Some [k]"
    and seen: "\<And>v. seen_version (versions_seen cp) p k = Some v \<Longrightarrow> \<exists>w. dict_get (channel_versions cp) k = Some w \<and> v \<le> w"
  shows "pull_ready cp' chs' ps p \<longleftrightarrow> (\<exists>t \<in> set tasks. k \<in> fst ` set (task_out t))"
proof -
  let ?nv = "f (highest_version (channel_versions cp))"
  from one_step_after [OF run bump c] obtain d where d: "one_step d" "dict_get chs' k = Some d"
    "chan_available d \<longleftrightarrow> (\<exists>t \<in> set tasks. k \<in> fst ` set (task_out t))"
    "chan_available d \<Longrightarrow> dict_get (channel_versions cp') k = Some ?nv" by blast
  have ready: "chan_ready chs' k = chan_available d" using d(2) by (simp add: chan_ready_def)
  have below: "w < ?nv" if w: "dict_get (channel_versions cp) k = Some w" for w
  proof -
    have "w \<in> set (map snd (channel_versions cp))" using map_of_SomeD [OF w] by force
    then have "w \<le> Max (set (map snd (channel_versions cp)))" "highest_version (channel_versions cp) = Some (Max (set (map snd (channel_versions cp))))"
      by (auto simp: highest_version_def)
    with newer [of "Some (Max (set (map snd (channel_versions cp))))"] show ?thesis by simp
  qed
  have "versions_seen cp' = fold (see_versions (channel_versions cp)) (in_order tasks) (versions_seen cp)"
    using apply_writes_ok [OF run proper] by simp
  then have seen': "seen_version (versions_seen cp') p k = seen_version (versions_seen cp) p k \<or>
      seen_version (versions_seen cp') p k = dict_get (channel_versions cp) k"
    using seen_fold [of "versions_seen cp" p "channel_versions cp" "in_order tasks" k] by auto
  have old: "v < ?nv" if "seen_version (versions_seen cp') p k = Some v" for v
  proof (cases "seen_version (versions_seen cp') p k = dict_get (channel_versions cp) k")
    case True
    with that below show ?thesis by simp
  next
    case False
    with seen' that have "seen_version (versions_seen cp) p k = Some v" by simp
    from seen [OF this] obtain w where "dict_get (channel_versions cp) k = Some w" "v \<le> w" by blast
    with below [of w] show ?thesis by simp
  qed
  have pos: "0 < ?nv"
    using newer [of "highest_version (channel_versions cp)"] by (cases "highest_version (channel_versions cp)") simp_all
  have iff: "pull_ready cp' chs' ps p \<longleftrightarrow> channel_versions cp' \<noteq> [] \<and> chan_available d \<and> (dict_get (versions_seen cp') p = None \<or>
      dict_getd (channel_versions cp') k 0 > (case seen_version (versions_seen cp') p k of None \<Rightarrow> 0 | Some v \<Rightarrow> v))"
    by (simp add: pull_ready_iff trig ready)
  have "channel_versions cp' \<noteq> [] \<and> dict_getd (channel_versions cp') k 0 > (case seen_version (versions_seen cp') p k of None \<Rightarrow> 0 | Some v \<Rightarrow> v)"
    if "chan_available d"
    using d(4) [OF that] pos old by (auto simp: dict_getd_def split: option.split)
  then have "pull_ready cp' chs' ps p \<longleftrightarrow> chan_available d" unfolding iff by blast
  then show ?thesis by (simp only: d(3))
qed

section \<open>The nodes that run next\<close>

definition graph_processes :: "'p compiled_graph \<Rightarrow> processes" where
  "graph_processes g = map (\<lambda>(n, c). (n, cn_triggers c)) (cg_nodes g)"

text \<open>The writes of a task: to channels, and tasks pushed to the channel of tasks. \<open>pack\<close> is a pushed task as a value.\<close>

definition channel_writes :: "(string \<Rightarrow> pyval \<Rightarrow> cval) \<Rightarrow> graph_write list \<Rightarrow> (string \<times> cval) list" where
  "channel_writes pack us = map (\<lambda>u. case u of ToChannel k x \<Rightarrow> (k, x) | ToTask n a \<Rightarrow> (tasks_key, pack n a)) us"

text \<open>A task of a node of the graph that has returned \<open>rets (task_name t)\<close> and run its writers.\<close>

definition finished_task ::
  "'p compiled_graph \<Rightarrow> (node_value \<Rightarrow> cval) \<Rightarrow> (string \<Rightarrow> pyval \<Rightarrow> cval) \<Rightarrow> (string \<Rightarrow> string \<Rightarrow> route_dest list result) \<Rightarrow>
   (string \<Rightarrow> node_value) \<Rightarrow> task_writes \<Rightarrow> bool" where
  "finished_task g val pack route rets t \<longleftrightarrow>
     has_node g (task_name t) \<and> triggers t = triggers_of g (task_name t) \<and>
     (case run_writers val (route (task_name t)) (rets (task_name t)) (writers_of g (task_name t)) of
        Inl e \<Rightarrow> False | Inr us \<Rightarrow> task_out t = channel_writes pack us)"

lemma dict_get_triggers: "dict_get (map (\<lambda>(n, c). (n, cn_triggers c)) d) n = map_option cn_triggers (dict_get d n)"
  by (induction d) auto

lemma graph_processes_get: "dict_get (graph_processes g) n = (if has_node g n then Some (triggers_of g n) else None)"
  by (auto simp: graph_processes_def dict_get_triggers has_node_def triggers_of_def split: option.split)

lemma channel_writes_keys: "branch_to x \<in> fst ` set (channel_writes pack us) \<longleftrightarrow> (\<exists>v. ToChannel (branch_to x) v \<in> set us)"
proof (induction us)
  case (Cons u us)
  then show ?case by (cases u) (auto simp: channel_writes_def branch_to_def tasks_key_def)
qed (simp add: channel_writes_def)

lemma compiled_triggers:
  assumes "compile_graph before after b = Inr g" and "dict_get (bd_nodes b) start_name = None"
  shows "has_node g n \<Longrightarrow> triggers_of g n = (if n = start_name then start_name else branch_to n) # join_triggers n (bd_waiting b)"
    and "dict_get (bd_nodes b) n \<noteq> None \<Longrightarrow> has_node g n"
proof -
  obtain b' where b': "with_defaults (b\<lparr>bd_compiled := True\<rparr>) = Inr b'" "\<And>n. has_node g n \<longleftrightarrow> n = start_name \<or> dict_get (bd_nodes b') n \<noteq> None"
    and tr: "\<And>n. has_node g n \<Longrightarrow> triggers_of g n = (if n = start_name then start_name else branch_to n) # join_triggers n (bd_waiting b)"
    using assms by (rule compiled_graph_parts) blast
  show "has_node g n \<Longrightarrow> triggers_of g n = (if n = start_name then start_name else branch_to n) # join_triggers n (bd_waiting b)" by (rule tr)
  show "dict_get (bd_nodes b) n \<noteq> None \<Longrightarrow> has_node g n" using b'(2) with_defaults_keeps [OF b'(1), of n] by simp
qed

lemma join_triggers_none: "n \<notin> snd ` set js \<Longrightarrow> join_triggers n js = []"
  by (induction js) (auto simp: join_triggers_def)

text \<open>C8. The nodes Pregel runs after a step are the successors in the declared graph: of a node of a compiled graph that
  is not deferred and that no waiting edge joins, \<open>apply_writes\<close> and the candidate scan choose it for the next step exactly
  when a finished task of the step leads to it, by an edge, by a command it returned or by what one of its branches
  routes to. The state has named keys (no \<open>__root__\<close>), the step ran every node that was ready, by the edges only: no Send tasks.\<close>

theorem next_nodes_are_successors:
  assumes compiled: "compile_graph before after b = Inr g" and start: "dict_get (bd_nodes b) start_name = None"
    and names: "branch_to x \<notin> set (state_keys b)" "''__root__'' \<notin> set (state_keys b)"
    and node: "dict_get (bd_nodes b) x \<noteq> None" "x \<notin> snd ` set (bd_waiting b)"
    and run: "apply_writes cp chs tasks (Some f) (trigger_to_nodes (graph_processes g)) = Inr (updated, cp', chs')"
    and newer: "\<And>v. (case v of None \<Rightarrow> 0 | Some w \<Rightarrow> w) < f v" and proper: "all_proper chs"
    and tasks: "tasks \<noteq> []" "\<And>t. t \<in> set tasks \<Longrightarrow> finished_task g val pack route rets t"
    and all_ran: "\<And>p. pull_ready cp chs (graph_processes g) p \<Longrightarrow> \<exists>t \<in> set tasks. task_name t = p"
    and channel: "dict_get chs (branch_to x) = Some c" "one_step c" and versions: "channel_versions cp \<noteq> []"
    and seen: "\<And>v. seen_version (versions_seen cp) x (branch_to x) = Some v \<Longrightarrow> \<exists>w. dict_get (channel_versions cp) (branch_to x) = Some w \<and> v \<le> w"
  shows "x \<in> set (next_pull_nodes cp' chs' (graph_processes g) (trigger_to_nodes (graph_processes g)) (Some updated)) \<longleftrightarrow>
    (\<exists>t \<in> set tasks. leads_to b (route (task_name t)) (task_name t) (rets (task_name t)) x)"
proof -
  note tr = compiled_triggers [OF compiled start]
  from node have x: "has_node g x" "x \<noteq> start_name" using tr(2) start by auto
  have "dict_get (graph_processes g) x = Some [branch_to x]"
    using tr(1) [OF x(1)] x join_triggers_none [OF node(2)] by (simp add: graph_processes_get)
  moreover have bump: "\<exists>t \<in> set tasks. triggers t \<noteq> []"
  proof -
    from tasks(1) obtain t where t: "t \<in> set tasks" by (cases tasks) auto
    from tasks(2) [OF t] tr(1) [of "task_name t"] have "triggers t \<noteq> []" by (simp add: finished_task_def)
    with t show ?thesis by blast
  qed
  moreover have "branch_to x \<notin> set control_keys" by (simp add: branch_to_def control_keys_def push_key_def interrupt_key_def)
  ultimately have ready: "pull_ready cp' chs' (graph_processes g) x \<longleftrightarrow> (\<exists>t \<in> set tasks. branch_to x \<in> fst ` set (task_out t))"
    using ready_iff_written [OF run bump channel _ proper newer _ seen] by blast
  have "set (next_pull_nodes cp' chs' (graph_processes g) (trigger_to_nodes (graph_processes g)) (Some updated)) =
      {p. pull_ready cp' chs' (graph_processes g) p}"
  proof (rule candidates_complete [OF run proper versions])
    fix p trigs
    assume p: "pull_ready cp chs (graph_processes g) p" "dict_get (graph_processes g) p = Some trigs"
    from all_ran [OF p(1)] obtain t where t: "t \<in> set tasks" "task_name t = p" by blast
    with tasks(2) [OF t(1)] p(2) have "triggers t = trigs" by (auto simp: finished_task_def graph_processes_get)
    with t show "\<exists>t \<in> set tasks. task_name t = p \<and> set (triggers t) = set trigs" by blast
  qed
  moreover have "branch_to x \<in> fst ` set (task_out t) \<longleftrightarrow> leads_to b (route (task_name t)) (task_name t) (rets (task_name t)) x"
    if t: "t \<in> set tasks" for t
  proof -
    from tasks(2) [OF t] obtain us where us: "has_node g (task_name t)" "task_out t = channel_writes pack us"
      "run_writers val (route (task_name t)) (rets (task_name t)) (writers_of g (task_name t)) = Inr us"
      by (auto simp: finished_task_def split: sum.splits)
    from writes_lead_to [OF compiled start names us(1,3)] show ?thesis unfolding us(2) channel_writes_keys .
  qed
  ultimately show ?thesis using ready by simp
qed

text \<open>A step of the graph of two nodes: \<open>a\<close> has run and its branch goes on to \<open>b\<close>.\<close>

definition flow_cp :: graph_checkpoint where
  "flow_cp = \<lparr>channel_versions = [(''branch:to:a'', 2)], versions_seen = []\<rparr>"

definition flow_channels :: channels where
  "flow_channels = [(''m'', LastValue None), (''branch:to:a'', EphemeralValue \<lparr>guard = False, gs_value = Some (Plain PNone)\<rparr>),
      (''branch:to:b'', EphemeralValue \<lparr>guard = False, gs_value = None\<rparr>)]"

definition flow_task :: task_writes where
  "flow_task = \<lparr>path = [], task_name = ''a'', task_out = [(''m'', Plain (PInt 1)), (''branch:to:b'', Plain PNone)],
     triggers = [''branch:to:a'']\<rparr>"

definition flow_route :: "string \<Rightarrow> string \<Rightarrow> route_dest list result" where
  "flow_route n br = Inr [RouteTo (Some ''b'')]"

definition flow_value :: "string \<Rightarrow> node_value" where
  "flow_value n = DictValue [(''m'', Plain (PInt 1))]"

definition flow_after :: "string set \<times> graph_checkpoint \<times> channels" where
  "flow_after = ({''branch:to:b'', ''m''}, \<lparr>channel_versions = [(''branch:to:a'', 3), (''m'', 3), (''branch:to:b'', 3)],
       versions_seen = [(''a'', [(''branch:to:a'', 2)])]\<rparr>,
     [(''m'', LastValue (Some (Plain (PInt 1)))), (''branch:to:a'', EphemeralValue \<lparr>guard = False, gs_value = None\<rparr>),
      (''branch:to:b'', EphemeralValue \<lparr>guard = False, gs_value = Some (Plain PNone)\<rparr>)])"

lemma flow_procs: "graph_processes flow_graph = [(''__start__'', [''__start__'']), (''a'', [''branch:to:a'']), (''b'', [''branch:to:b''])]"
  by code_simp

lemma flow_step: "apply_writes flow_cp flow_channels [flow_task] (Some increment) (trigger_to_nodes (graph_processes flow_graph)) = Inr flow_after"
  unfolding flow_procs
  by (simp add: apply_writes_def in_order_def flow_cp_def flow_channels_def flow_task_def flow_after_def Let_def
      highest_version_def read_channels_of_def reserved_def control_keys_def interrupt_key_def push_key_def see_versions_def
      dict_getd_def settle_def channel_defs rewrap_def increment_def trigger_to_nodes_def)

lemma flow_task_finished: "finished_task flow_graph (\<lambda>v. Plain PNone) (\<lambda>n. Plain) flow_route flow_value flow_task"
  by code_simp

theorem next_nodes_are_successors_witness:
  "''b'' \<in> set (next_pull_nodes (fst (snd flow_after)) (snd (snd flow_after)) (graph_processes flow_graph)
      (trigger_to_nodes (graph_processes flow_graph)) (Some (fst flow_after))) \<longleftrightarrow>
    (\<exists>t \<in> set [flow_task]. leads_to flow_builder (flow_route (task_name t)) (task_name t) (flow_value (task_name t)) ''b'')"
proof (rule next_nodes_are_successors [OF flow_compiled])
  show "dict_get (bd_nodes flow_builder) start_name = None" by code_simp
  show "branch_to ''b'' \<notin> set (state_keys flow_builder)" by code_simp
  show "''__root__'' \<notin> set (state_keys flow_builder)" by code_simp
  show "dict_get (bd_nodes flow_builder) ''b'' \<noteq> None" by code_simp
  show "''b'' \<notin> snd ` set (bd_waiting flow_builder)" by code_simp
  show "apply_writes flow_cp flow_channels [flow_task] (Some increment) (trigger_to_nodes (graph_processes flow_graph)) =
      Inr (fst flow_after, fst (snd flow_after), snd (snd flow_after))"
    using flow_step by simp
  show "(case v of None \<Rightarrow> 0 | Some w \<Rightarrow> w) < increment v" for v by (cases v) (simp_all add: increment_def)
  show "all_proper flow_channels" by (simp add: all_proper_def flow_channels_def)
  show "[flow_task] \<noteq> []" by simp
  show "finished_task flow_graph (\<lambda>v. Plain PNone) (\<lambda>n. Plain) flow_route flow_value t" if "t \<in> set [flow_task]" for t
    using that flow_task_finished by simp
  show "\<exists>t \<in> set [flow_task]. task_name t = p" if "pull_ready flow_cp flow_channels (graph_processes flow_graph) p" for p
    using that by (auto simp: flow_procs pull_ready_iff flow_channels_def chan_ready_def flow_task_def split: if_splits)
  show "dict_get flow_channels (branch_to ''b'') = Some (EphemeralValue \<lparr>guard = False, gs_value = None\<rparr>)"
    by (simp add: flow_channels_def branch_to_def)
  show "one_step (EphemeralValue \<lparr>guard = False, gs_value = None\<rparr>)" by (simp add: one_step_def)
  show "channel_versions flow_cp \<noteq> []" by (simp add: flow_cp_def)
  show "\<exists>w. dict_get (channel_versions flow_cp) (branch_to ''b'') = Some w \<and> v \<le> w"
    if "seen_version (versions_seen flow_cp) ''b'' (branch_to ''b'') = Some v" for v
    using that by (simp add: flow_cp_def seen_version_def)
qed
end
