(* ===== verification/Streams.thy ===== *)
theory Streams
  imports Prelude
begin

text \<open>
  The streaming library: \<open>stream/stream_channel.py\<close> (channels with one subscriber, cursors, fan-out) and
  \<open>stream/_mux.py\<close> (the dispatcher that runs events through transformers and numbers the main log). The code of a
  transformer is a parameter: what it pushes, what it makes of the event, what it raises. Timestamps of
  forwarded events are left out.
\<close>

section \<open>Channels\<close>

text \<open>A channel: \<open>sch_async\<close> is None while unbound, \<open>sch_method\<close> the method it is forwarded under. An item carries the
  stamp of the mux.\<close>

record 'x schan =
  sch_name :: "string option"
  sch_items :: "(nat \<times> 'x) list"
  sch_closed :: bool
  sch_error :: "py_exc option"
  sch_async :: "bool option"
  sch_subscribed :: bool
  sch_method :: "string option"

definition new_schan :: "string option \<Rightarrow> 'x schan" where
  "new_schan name =
     \<lparr>sch_name = name, sch_items = [], sch_closed = False, sch_error = None, sch_async = None, sch_subscribed = False, sch_method = None\<rparr>"

definition make_schan :: "string option \<Rightarrow> int option \<Rightarrow> 'x schan result" where
  "make_schan name maxlen =
     (case maxlen of Some n \<Rightarrow> if n \<le> 0 then Inl ValueError else Inr (new_schan name) | None \<Rightarrow> Inr (new_schan name))"

definition bind_schan :: "bool \<Rightarrow> 'x schan \<Rightarrow> 'x schan result" where
  "bind_schan async c = (if sch_async c \<noteq> None then Inl RuntimeError else Inr (c\<lparr>sch_async := Some async\<rparr>))"

text \<open>The item is kept only for a subscriber.\<close>

definition keep_item :: "nat \<Rightarrow> 'x \<Rightarrow> 'x schan \<Rightarrow> 'x schan result" where
  "keep_item stamp x c =
     (if sch_subscribed c
      then if sch_closed c then Inl RuntimeError else Inr (c\<lparr>sch_items := sch_items c @ [(stamp, x)]\<rparr>)
      else Inr c)"

definition close_schan :: "'x schan \<Rightarrow> 'x schan" where
  "close_schan c = c\<lparr>sch_closed := True\<rparr>"

definition fail_schan :: "py_exc \<Rightarrow> 'x schan \<Rightarrow> 'x schan" where
  "fail_schan e c = c\<lparr>sch_error := Some e, sch_closed := True\<rparr>"

text \<open>\<open>__iter__\<close> and \<open>__aiter__\<close>.\<close>

definition subscribe_schan :: "bool \<Rightarrow> 'x schan \<Rightarrow> 'x schan result" where
  "subscribe_schan async c =
     (case sch_async c of
        None \<Rightarrow> Inl TypeError
      | Some a \<Rightarrow> if a \<noteq> async then Inl TypeError else if sch_subscribed c then Inl RuntimeError else Inr (c\<lparr>sch_subscribed := True\<rparr>))"

section \<open>Cursors\<close>

text \<open>One step of a cursor over a state that holds the channel. The pump, when there is one, says whether it produced an
  event; a pump that always claims to may keep the cursor from returning.\<close>

datatype 'x cursor_step = Yield 'x | Raise py_exc | Stop

partial_function (option) cursor_next ::
  "('m \<Rightarrow> 'x schan) \<Rightarrow> ('x schan \<Rightarrow> 'm \<Rightarrow> 'm) \<Rightarrow> ('m \<Rightarrow> bool \<times> 'm) option \<Rightarrow> 'm \<Rightarrow> ('x cursor_step \<times> 'm) option" where
  "cursor_next get put pump m =
     (case sch_items (get m) of
        (stamp, x) # rest \<Rightarrow> Some (Yield x, put ((get m)\<lparr>sch_items := rest\<rparr>) m)
      | [] \<Rightarrow>
          (if sch_closed (get m)
           then Some (case sch_error (get m) of Some e \<Rightarrow> (Raise e, m) | None \<Rightarrow> (Stop, m))
           else (case pump of
                   None \<Rightarrow> Some (Stop, m)
                 | Some f \<Rightarrow>
                     (case f m of (produced, m') \<Rightarrow>
                        if \<not> produced \<and> sch_items (get m') = [] \<and> \<not> sch_closed (get m') then Some (Stop, m')
                        else cursor_next get put pump m'))))"

section \<open>Fan-out\<close>

text \<open>The state of \<open>tee\<close>: the buffers of the branches, which branches have ended, whether the source has, and the source.
  \<open>te_error\<close> is what \<open>atee\<close> remembers.\<close>

record ('x, 'm) tee =
  te_buffers :: "'x list list"
  te_ended :: "bool list"
  te_exhausted :: bool
  te_error :: "py_exc option"
  te_dead :: bool
  te_source :: 'm

definition make_tee :: "nat \<Rightarrow> 'm \<Rightarrow> ('x, 'm) tee result" where
  "make_tee n src =
     (if n < 1 then Inl ValueError
      else Inr \<lparr>te_buffers = replicate n [], te_ended = replicate n False, te_exhausted = False, te_error = None, te_dead = False, te_source = src\<rparr>)"

text \<open>A generator that has returned or raised only stops from then on.\<close>

definition pull_source :: "('m \<Rightarrow> 'x cursor_step \<times> 'm) \<Rightarrow> ('x, 'm) tee \<Rightarrow> 'x cursor_step \<times> ('x, 'm) tee" where
  "pull_source step t =
     (if te_dead t then (Stop, t)
      else (case step (te_source t) of (r, src) \<Rightarrow>
              (r, t\<lparr>te_source := src, te_dead := (case r of Yield x \<Rightarrow> False | _ \<Rightarrow> True)\<rparr>)))"

definition end_branch :: "nat \<Rightarrow> ('x, 'm) tee \<Rightarrow> ('x, 'm) tee" where
  "end_branch i t = t\<lparr>te_ended := (te_ended t)[i := True]\<rparr>"

text \<open>\<open>next\<close> on branch \<open>i\<close>: from its buffer, else one item of the source for every branch.\<close>

definition tee_next :: "('m \<Rightarrow> 'x cursor_step \<times> 'm) \<Rightarrow> nat \<Rightarrow> ('x, 'm) tee \<Rightarrow> 'x cursor_step \<times> ('x, 'm) tee" where
  "tee_next step i t =
     (if te_ended t ! i then (Stop, t)
      else (case te_buffers t ! i of
              x # rest \<Rightarrow> (Yield x, t\<lparr>te_buffers := (te_buffers t)[i := rest]\<rparr>)
            | [] \<Rightarrow>
                if te_exhausted t then (Stop, end_branch i t)
                else (case pull_source step t of
                        (Yield x, t') \<Rightarrow> (Yield x, t'\<lparr>te_buffers := (map (\<lambda>b. b @ [x]) (te_buffers t'))[i := []]\<rparr>)
                      | (Stop, t') \<Rightarrow> (Stop, end_branch i (t'\<lparr>te_exhausted := True\<rparr>))
                      | (Raise e, t') \<Rightarrow> (Raise e, end_branch i t'))))"

definition atee_next :: "('m \<Rightarrow> 'x cursor_step \<times> 'm) \<Rightarrow> nat \<Rightarrow> ('x, 'm) tee \<Rightarrow> 'x cursor_step \<times> ('x, 'm) tee" where
  "atee_next step i t =
     (let finish = (\<lambda>t'. ((case te_error t' of Some e \<Rightarrow> Raise e | None \<Rightarrow> Stop), end_branch i t')) in
      if te_ended t ! i then (Stop, t)
      else (case te_buffers t ! i of
              x # rest \<Rightarrow> (Yield x, t\<lparr>te_buffers := (te_buffers t)[i := rest]\<rparr>)
            | [] \<Rightarrow>
                if te_exhausted t then finish t
                else (case pull_source step t of
                        (Yield x, t') \<Rightarrow> (Yield x, t'\<lparr>te_buffers := (map (\<lambda>b. b @ [x]) (te_buffers t'))[i := []]\<rparr>)
                      | (Stop, t') \<Rightarrow> finish (t'\<lparr>te_exhausted := True\<rparr>)
                      | (Raise e, t') \<Rightarrow> finish (t'\<lparr>te_error := Some e, te_exhausted := True\<rparr>))))"

section \<open>Transformers\<close>

record 'd proto_event =
  pev_method :: string
  pev_namespace :: "string list"
  pev_data :: 'd
  pev_interrupts :: "'d list"
  pev_seq :: "nat option"

text \<open>What a projection holds under a key: a channel with its name, or anything else.\<close>

datatype projected = ProjChannel "string option" | ProjOther

text \<open>A transformer: its class, the flags of its class, the methods of the asynchronous lane it overrides, its projection
  (None when it is no dictionary), and its code over a state \<open>'s\<close>. The code pushes items to the channels of its
  projection, by key, and then returns or raises.\<close>

type_synonym 'd pushes = "(string \<times> 'd) list"

record ('d, 's) transformer =
  tfm_class :: string
  tfm_before :: bool
  tfm_native :: bool
  tfm_requires_async :: bool
  tfm_supports_sync :: bool
  tfm_overrides :: "string list"
  tfm_init :: "(string \<times> projected) list option"
  tfm_process :: "'s \<Rightarrow> 'd proto_event \<Rightarrow> 's \<times> 'd proto_event \<times> 'd pushes \<times> bool result"
  tfm_finalize :: "'s \<Rightarrow> 's \<times> 'd pushes \<times> py_exc option"
  tfm_fail :: "py_exc \<Rightarrow> 's \<Rightarrow> 's \<times> 'd pushes \<times> py_exc option"
  tfm_start :: 's

definition transformer_requires_async :: "('d, 's) transformer \<Rightarrow> bool" where
  "transformer_requires_async t \<longleftrightarrow>
     (if tfm_requires_async t then True else if tfm_supports_sync t then False
      else list_ex (\<lambda>n. n \<in> set (tfm_overrides t)) [''aprocess'', ''afinalize'', ''afail''])"

section \<open>The mux\<close>

text \<open>A registered transformer with its state and the places of its channels.\<close>

record ('d, 's) attached =
  at_code :: "('d, 's) transformer"
  at_places :: "(string \<times> nat) list"
  at_state :: 's

record ('d, 's) mux =
  mux_async :: bool
  mux_scope :: "string list"
  mux_assign :: bool
  mux_events :: "'d proto_event schan"
  mux_channels :: "'d schan list"
  mux_seq :: nat
  mux_push_seq :: nat
  mux_attached :: "('d, 's) attached list"
  mux_owners :: "(string \<times> string) list"
  mux_native :: "string list"
  mux_factories :: "(string list \<Rightarrow> ('d, 's) transformer) list option"

text \<open>An operation returns what it raised, if anything, and the mux.\<close>

definition log_event :: "'d proto_event \<Rightarrow> ('d, 's) mux \<Rightarrow> py_exc option \<times> ('d, 's) mux" where
  "log_event ev m =
     (let m1 = (if mux_assign m then m\<lparr>mux_seq := mux_seq m + 1\<rparr> else m);
          ev1 = (if mux_assign m then ev\<lparr>pev_seq := Some (mux_seq m1)\<rparr> else ev)
      in case keep_item (mux_push_seq m1 + 1) ev1 (mux_events m1) of
           Inl e \<Rightarrow> (Some e, m1)
         | Inr c \<Rightarrow> (None, m1\<lparr>mux_events := c, mux_push_seq := (if sch_subscribed c then mux_push_seq m1 + 1 else mux_push_seq m1)\<rparr>))"

definition forward_event :: "string \<Rightarrow> 'd \<Rightarrow> 'd proto_event" where
  "forward_event method x = \<lparr>pev_method = method, pev_namespace = [], pev_data = x, pev_interrupts = [], pev_seq = None\<rparr>"

text \<open>\<open>push\<close> on the channel in place \<open>i\<close>, with what it forwards.\<close>

definition channel_push :: "nat \<Rightarrow> 'd \<Rightarrow> ('d, 's) mux \<Rightarrow> py_exc option \<times> ('d, 's) mux" where
  "channel_push i x m =
     (case keep_item (mux_push_seq m + 1) x (mux_channels m ! i) of
        Inl e \<Rightarrow> (Some e, m)
      | Inr c \<Rightarrow>
          (let m1 = m\<lparr>mux_channels := (mux_channels m)[i := c], mux_push_seq := (if sch_subscribed c then mux_push_seq m + 1 else mux_push_seq m)\<rparr>
           in case sch_method c of None \<Rightarrow> (None, m1) | Some method \<Rightarrow> log_event (forward_event method x) m1))"

fun run_pushes :: "(string \<times> nat) list \<Rightarrow> 'd pushes \<Rightarrow> ('d, 's) mux \<Rightarrow> py_exc option \<times> ('d, 's) mux" where
  "run_pushes places [] m = (None, m)"
| "run_pushes places ((k, x) # ps) m =
     (case dict_get places k of
        None \<Rightarrow> (Some KeyError, m)
      | Some i \<Rightarrow> (case channel_push i x m of (None, m1) \<Rightarrow> run_pushes places ps m1 | (Some e, m1) \<Rightarrow> (Some e, m1)))"

definition set_state :: "nat \<Rightarrow> 's \<Rightarrow> ('d, 's) mux \<Rightarrow> ('d, 's) mux" where
  "set_state j s m = m\<lparr>mux_attached := (mux_attached m)[j := (mux_attached m ! j)\<lparr>at_state := s\<rparr>]\<rparr>"

text \<open>The transformers from place \<open>j\<close> on see the event, each as the one before left it.\<close>

fun process_from :: "nat \<Rightarrow> nat \<Rightarrow> bool \<Rightarrow> 'd proto_event \<Rightarrow> ('d, 's) mux \<Rightarrow> (bool \<times> 'd proto_event) result \<times> ('d, 's) mux" where
  "process_from 0 j keep ev m = (Inr (keep, ev), m)"
| "process_from (Suc n) j keep ev m =
     (let a = mux_attached m ! j in
      case tfm_process (at_code a) (at_state a) ev of (s, ev1, ps, r) \<Rightarrow>
        (case run_pushes (at_places a) ps (set_state j s m) of
           (Some e, m1) \<Rightarrow> (Inl e, m1)
         | (None, m1) \<Rightarrow> (case r of Inl e \<Rightarrow> (Inl e, m1) | Inr k \<Rightarrow> process_from n (j + 1) (keep \<and> k) ev1 m1)))"

definition mux_push :: "'d proto_event \<Rightarrow> ('d, 's) mux \<Rightarrow> py_exc option \<times> ('d, 's) mux" where
  "mux_push ev m =
     (case process_from (length (mux_attached m)) 0 True ev m of
        (Inl e, m1) \<Rightarrow> (Some e, m1)
      | (Inr (keep, ev1), m1) \<Rightarrow> if keep then log_event ev1 m1 else (None, m1))"

text \<open>A hook of every transformer, whatever the others raise: the first exception is reported.\<close>

fun hooks_from ::
  "(('d, 's) transformer \<Rightarrow> 's \<Rightarrow> 's \<times> 'd pushes \<times> py_exc option) \<Rightarrow> nat \<Rightarrow> nat \<Rightarrow> ('d, 's) mux \<Rightarrow> py_exc option \<times> ('d, 's) mux" where
  "hooks_from hook 0 j m = (None, m)"
| "hooks_from hook (Suc n) j m =
     (let a = mux_attached m ! j in
      case hook (at_code a) (at_state a) of (s, ps, r) \<Rightarrow>
        (case run_pushes (at_places a) ps (set_state j s m) of (pushed, m1) \<Rightarrow>
           (let mine = (case pushed of Some e \<Rightarrow> Some e | None \<Rightarrow> r) in
            case hooks_from hook n (j + 1) m1 of (later, m2) \<Rightarrow>
              ((case mine of Some e \<Rightarrow> Some e | None \<Rightarrow> later), m2))))"

definition close_open :: "'x schan \<Rightarrow> 'x schan" where
  "close_open c = (if sch_closed c then c else close_schan c)"

definition fail_open :: "py_exc \<Rightarrow> 'x schan \<Rightarrow> 'x schan" where
  "fail_open e c = (if sch_closed c then c else fail_schan e c)"

definition close_all :: "('d, 's) mux \<Rightarrow> ('d, 's) mux" where
  "close_all m = m\<lparr>mux_channels := map close_open (mux_channels m), mux_events := close_schan (mux_events m)\<rparr>"

definition mux_close :: "('d, 's) mux \<Rightarrow> py_exc option \<times> ('d, 's) mux" where
  "mux_close m =
     (case hooks_from tfm_finalize (length (mux_attached m)) 0 m of (e, m1) \<Rightarrow> (e, close_all m1))"

definition mux_fail :: "py_exc \<Rightarrow> ('d, 's) mux \<Rightarrow> ('d, 's) mux" where
  "mux_fail err m =
     (case hooks_from (\<lambda>t. tfm_fail t err) (length (mux_attached m)) 0 m of (e, m1) \<Rightarrow>
        m1\<lparr>mux_channels := map (fail_open err) (mux_channels m1), mux_events := fail_schan err (mux_events m1)\<rparr>)"

text \<open>The asynchronous lane: how the tasks the transformers have scheduled ended comes first.\<close>

datatype task_end = TaskDone | TaskCancelled | TaskRaised py_exc

definition first_task_error :: "task_end list \<Rightarrow> py_exc option" where
  "first_task_error ts =
     (case find (\<lambda>t. case t of TaskRaised e \<Rightarrow> True | _ \<Rightarrow> False) ts of Some (TaskRaised e) \<Rightarrow> Some e | _ \<Rightarrow> None)"

definition mux_aclose :: "task_end list \<Rightarrow> ('d, 's) mux \<Rightarrow> py_exc option \<times> ('d, 's) mux" where
  "mux_aclose pending m = (case first_task_error pending of Some e \<Rightarrow> (Some e, m) | None \<Rightarrow> mux_close m)"

definition mux_afail :: "py_exc \<Rightarrow> ('d, 's) mux \<Rightarrow> ('d, 's) mux" where
  "mux_afail err m =
     (case hooks_from (\<lambda>t. tfm_fail t err) (length (mux_attached m)) 0 m of (e, m1) \<Rightarrow>
        m1\<lparr>mux_channels := map (fail_open err) (mux_channels m1), mux_events := fail_open err (mux_events m1)\<rparr>)"

section \<open>Registration\<close>

text \<open>\<open>_bind_and_wire\<close>: the channels of a projection in order. A named channel is forwarded, under its own name for a
  native transformer.\<close>

definition wire_method :: "bool \<Rightarrow> string option \<Rightarrow> string option" where
  "wire_method native name = (case name of None \<Rightarrow> None | Some n \<Rightarrow> Some (if native then n else ''custom:'' @ n))"

fun bind_and_wire :: "bool \<Rightarrow> bool \<Rightarrow> (string \<times> projected) list \<Rightarrow> 'd schan list \<Rightarrow> 'd schan list \<times> (string \<times> nat) list" where
  "bind_and_wire async native [] chs = (chs, [])"
| "bind_and_wire async native ((k, ProjOther) # ps) chs = bind_and_wire async native ps chs"
| "bind_and_wire async native ((k, ProjChannel name) # ps) chs =
     (case bind_and_wire async native ps (chs @ [(new_schan name)\<lparr>sch_async := Some async, sch_method := wire_method native name\<rparr>]) of
        (chs', places) \<Rightarrow> (chs', (k, length chs) # places))"

definition register_transformer :: "('d, 's) transformer \<Rightarrow> ('d, 's) mux \<Rightarrow> ('d, 's) mux result" where
  "register_transformer t m =
     (if transformer_requires_async t \<and> \<not> mux_async m then Inl RuntimeError
      else (case tfm_init t of
              None \<Rightarrow> Inl TypeError
            | Some proj \<Rightarrow>
                if list_ex (\<lambda>(k, p). k \<in> fst ` set (mux_owners m)) proj then Inl ValueError
                else (case bind_and_wire (mux_async m) (tfm_native t) proj (mux_channels m) of (chs, places) \<Rightarrow>
                        Inr (m\<lparr>mux_channels := chs, mux_attached := mux_attached m @ [\<lparr>at_code = t, at_places = places, at_state = tfm_start t\<rparr>],
                               mux_owners := mux_owners m @ map (\<lambda>(k, p). (k, tfm_class t)) proj,
                               mux_native := mux_native m @ (if tfm_native t then map fst proj else [])\<rparr>))))"

fun register_all :: "('d, 's) transformer list \<Rightarrow> ('d, 's) mux \<Rightarrow> ('d, 's) mux result" where
  "register_all [] m = Inr m"
| "register_all (t # ts) m = (case register_transformer t m of Inl e \<Rightarrow> Inl e | Inr m1 \<Rightarrow> register_all ts m1)"

definition before_first :: "('d, 's) transformer list \<Rightarrow> ('d, 's) transformer list" where
  "before_first ts = filter tfm_before ts @ filter (\<lambda>t. \<not> tfm_before t) ts"

definition empty_mux :: "bool \<Rightarrow> (string list \<Rightarrow> ('d, 's) transformer) list option \<Rightarrow> string list \<Rightarrow> bool \<Rightarrow> ('d, 's) mux" where
  "empty_mux async fs scope assign =
     \<lparr>mux_async = async, mux_scope = scope, mux_assign = assign, mux_events = (new_schan None)\<lparr>sch_async := Some async\<rparr>, mux_channels = [],
      mux_seq = 0, mux_push_seq = 0, mux_attached = [], mux_owners = [], mux_native = [], mux_factories = fs\<rparr>"

definition make_mux ::
  "('d, 's) transformer list \<Rightarrow> bool \<Rightarrow> (string list \<Rightarrow> ('d, 's) transformer) list option \<Rightarrow> string list \<Rightarrow> bool \<Rightarrow> ('d, 's) mux result" where
  "make_mux ts async fs scope assign =
     (case register_all (case fs of None \<Rightarrow> [] | Some gs \<Rightarrow> before_first (map (\<lambda>f. f scope) gs)) (empty_mux async fs scope assign) of
        Inl e \<Rightarrow> Inl e
      | Inr m \<Rightarrow> register_all (before_first ts) m)"

definition make_child :: "string list \<Rightarrow> ('d, 's) mux \<Rightarrow> ('d, 's) mux result" where
  "make_child scope m =
     (case mux_factories m of
        None \<Rightarrow> Inl RuntimeError
      | Some fs \<Rightarrow> make_mux [] (mux_async m) (Some fs) scope False)"

definition transformer_by_key :: "string \<Rightarrow> ('d, 's) mux \<Rightarrow> string option" where
  "transformer_by_key k m = dict_get (mux_owners m) k"

section \<open>Invariants of the mux\<close>

text \<open>What the three primitive changes keep, every operation keeps: transformers reach the mux through them alone.\<close>

locale mux_invariant =
  fixes P :: "('d, 's) mux \<Rightarrow> bool"
  assumes logged: "P m \<Longrightarrow> P (snd (log_event ev m))"
    and pushed: "P m \<Longrightarrow> P (snd (channel_push i x m))"
    and stated: "P m \<Longrightarrow> P (set_state j s m)"
begin

lemma run_pushes_keeps: "P m \<Longrightarrow> P (snd (run_pushes places ps m))"
proof (induction ps arbitrary: m)
  case (Cons p ps)
  obtain k x where p: "p = (k, x)" by (cases p)
  show ?case
  proof (cases "dict_get places k")
    case (Some i)
    obtain e m1 where push: "channel_push i x m = (e, m1)" by (cases "channel_push i x m")
    with pushed [OF Cons.prems, of i x] have "P m1" by simp
    with Cons.IH push Some show ?thesis by (cases e) (simp_all add: p)
  qed (use Cons.prems in \<open>simp add: p\<close>)
qed simp

lemma process_from_keeps: "P m \<Longrightarrow> P (snd (process_from n j keep ev m))"
proof (induction n arbitrary: j keep ev m)
  case (Suc n)
  let ?a = "mux_attached m ! j"
  obtain s ev1 ps r where code: "tfm_process (at_code ?a) (at_state ?a) ev = (s, ev1, ps, r)" by (metis prod_cases4)
  obtain e m1 where run: "run_pushes (at_places ?a) ps (set_state j s m) = (e, m1)" by (cases "run_pushes (at_places ?a) ps (set_state j s m)")
  with run_pushes_keeps [OF stated [OF Suc.prems], of "at_places ?a" ps j s] have "P m1" by simp
  with Suc.IH code run show ?case by (auto simp: Let_def split: option.split sum.split)
qed simp

lemma mux_push_keeps: "P m \<Longrightarrow> P (snd (mux_push ev m))"
  using process_from_keeps [of m "length (mux_attached m)" 0 True ev] logged
  by (auto simp: mux_push_def split: prod.splits sum.splits)

lemma hooks_from_keeps: "P m \<Longrightarrow> P (snd (hooks_from hook n j m))"
proof (induction n arbitrary: j m)
  case (Suc n)
  let ?a = "mux_attached m ! j"
  obtain s ps r where code: "hook (at_code ?a) (at_state ?a) = (s, ps, r)" by (metis prod_cases3)
  obtain e m1 where run: "run_pushes (at_places ?a) ps (set_state j s m) = (e, m1)" by (cases "run_pushes (at_places ?a) ps (set_state j s m)")
  with run_pushes_keeps [OF stated [OF Suc.prems], of "at_places ?a" ps j s] have "P m1" by simp
  with Suc.IH [of m1 "j + 1"] code run show ?case by (cases "hooks_from hook n (j + 1) m1") (simp add: Let_def)
qed simp

end

section \<open>The main log is ordered\<close>

text \<open>\<open>read\<close>: the events the consumer has taken from the log so far.\<close>

definition ordered_log :: "'d proto_event list \<Rightarrow> ('d, 's) mux \<Rightarrow> bool" where
  "ordered_log read m \<longleftrightarrow> mux_assign m \<and>
     (\<exists>ns. map pev_seq (read @ map snd (sch_items (mux_events m))) = map Some ns \<and> sorted_wrt (<) ns \<and> (\<forall>n \<in> set ns. n \<le> mux_seq m))"

definition stamped :: "nat \<Rightarrow> 'x schan \<Rightarrow> bool" where
  "stamped n c \<longleftrightarrow> sorted_wrt (<) (map fst (sch_items c)) \<and> (\<forall>k \<in> fst ` set (sch_items c). k \<le> n)"

definition stamps_ordered :: "('d, 's) mux \<Rightarrow> bool" where
  "stamps_ordered m \<longleftrightarrow> stamped (mux_push_seq m) (mux_events m) \<and> (\<forall>c \<in> set (mux_channels m). stamped (mux_push_seq m) c)"

lemma keep_item_cases:
  assumes "keep_item k x c = Inr c'"
  shows "c' = (if sch_subscribed c then c\<lparr>sch_items := sch_items c @ [(k, x)]\<rparr> else c) \<and> sch_subscribed c' = sch_subscribed c"
  using assms by (auto simp: keep_item_def split: if_splits)

lemma ordered_log_event:
  assumes "ordered_log read m" shows "ordered_log read (snd (log_event ev m))"
proof -
  let ?items = "read @ map snd (sch_items (mux_events m))"
  from assms obtain ns where a: "mux_assign m" and ns: "map pev_seq ?items = map Some ns" "sorted_wrt (<) ns" "\<forall>n \<in> set ns. n \<le> mux_seq m"
    by (auto simp: ordered_log_def)
  have grown: "map Some ns @ [Some (mux_seq m + 1)] = map Some (ns @ [mux_seq m + 1])" "sorted_wrt (<) (ns @ [mux_seq m + 1])"
    "\<forall>n \<in> set (ns @ [mux_seq m + 1]). n \<le> mux_seq m + 1"
    using ns(2,3) by (force simp: sorted_wrt_append less_Suc_eq_le)+
  have kept: "\<exists>ms. map Some ns = map Some ms \<and> sorted_wrt (<) ms \<and> (\<forall>n \<in> set ms. n \<le> mux_seq m + 1)"
    using ns by (intro exI [of _ ns]) force
  show ?thesis
  proof (cases "keep_item (mux_push_seq m + 1) (ev\<lparr>pev_seq := Some (mux_seq m + 1)\<rparr>) (mux_events m)")
    case (Inl e)
    with a kept ns(1) show ?thesis by (simp add: log_event_def ordered_log_def Let_def)
  next
    case (Inr c)
    show ?thesis
    proof (cases "sch_subscribed (mux_events m)")
      case True
      with keep_item_cases [OF Inr] have "map pev_seq (read @ map snd (sch_items c)) = map Some (ns @ [mux_seq m + 1])"
        using ns(1) by simp
      with a Inr grown(2,3) show ?thesis unfolding log_event_def ordered_log_def Let_def
        by (intro conjI exI [of _ "ns @ [mux_seq m + 1]"]) simp_all
    next
      case False
      with keep_item_cases [OF Inr] have "c = mux_events m" by simp
      with a Inr kept ns(1) show ?thesis by (simp add: log_event_def ordered_log_def Let_def)
    qed
  qed
qed

lemma ordered_channel_push:
  assumes "ordered_log read m" shows "ordered_log read (snd (channel_push i x m))"
proof (cases "keep_item (mux_push_seq m + 1) x (mux_channels m ! i)")
  case (Inr c)
  let ?m = "m\<lparr>mux_channels := (mux_channels m)[i := c], mux_push_seq := (if sch_subscribed c then mux_push_seq m + 1 else mux_push_seq m)\<rparr>"
  have "ordered_log read ?m" using assms by (simp add: ordered_log_def)
  with ordered_log_event [of read ?m] Inr show ?thesis by (auto simp: channel_push_def Let_def split: option.split)
qed (use assms in \<open>simp add: channel_push_def\<close>)

interpretation ordered: mux_invariant "ordered_log read" for read
  by unfold_locales (auto simp: ordered_log_event ordered_channel_push, simp add: ordered_log_def set_state_def)

lemma stamped_later: "stamped n c \<Longrightarrow> n \<le> n' \<Longrightarrow> stamped n' c"
  by (force simp: stamped_def)

lemma stamped_grows: "stamped n c \<Longrightarrow> stamped (n + 1) (c\<lparr>sch_items := sch_items c @ [(n + 1, x)]\<rparr>)"
  by (force simp: stamped_def sorted_wrt_append)

lemma stamps_log_event:
  assumes "stamps_ordered m" shows "stamps_ordered (snd (log_event ev m))"
proof -
  define m1 where "m1 = (if mux_assign m then m\<lparr>mux_seq := mux_seq m + 1\<rparr> else m)"
  define ev1 where "ev1 = (if mux_assign m then ev\<lparr>pev_seq := Some (mux_seq m1)\<rparr> else ev)"
  have m1: "mux_push_seq m1 = mux_push_seq m" "mux_events m1 = mux_events m" "mux_channels m1 = mux_channels m" by (simp_all add: m1_def)
  have out: "log_event ev m = (case keep_item (mux_push_seq m + 1) ev1 (mux_events m) of Inl e \<Rightarrow> (Some e, m1)
      | Inr c \<Rightarrow> (None, m1\<lparr>mux_events := c, mux_push_seq := (if sch_subscribed c then mux_push_seq m + 1 else mux_push_seq m)\<rparr>))"
    unfolding log_event_def Let_def m1_def [symmetric] ev1_def [symmetric] m1 ..
  show ?thesis
  proof (cases "keep_item (mux_push_seq m + 1) ev1 (mux_events m)")
    case (Inr c)
    from keep_item_cases [OF Inr] assms stamped_grows [of "mux_push_seq m"] show ?thesis
      unfolding out Inr sum.case by (auto simp: stamps_ordered_def m1 intro: stamped_later)
  qed (use assms in \<open>simp add: out stamps_ordered_def m1\<close>)
qed

lemma stamps_channel_push:
  assumes "stamps_ordered m" shows "stamps_ordered (snd (channel_push i x m))"
proof (cases "keep_item (mux_push_seq m + 1) x (mux_channels m ! i)")
  case (Inr c)
  let ?m = "m\<lparr>mux_channels := (mux_channels m)[i := c], mux_push_seq := (if sch_subscribed c then mux_push_seq m + 1 else mux_push_seq m)\<rparr>"
  have "stamps_ordered ?m"
  proof (cases "i < length (mux_channels m)")
    case True
    then have "stamped (mux_push_seq m) (mux_channels m ! i)" using assms by (simp add: stamps_ordered_def)
    with keep_item_cases [OF Inr] stamped_grows have c: "stamped (mux_push_seq ?m) c" by auto
    have "stamped (mux_push_seq ?m) d" if "d \<in> set ((mux_channels m)[i := c])" for d
    proof -
      from set_update_subset_insert that have "d = c \<or> d \<in> set (mux_channels m)" by fastforce
      with c assms show ?thesis by (auto simp: stamps_ordered_def intro: stamped_later)
    qed
    moreover have "stamped (mux_push_seq ?m) (mux_events m)" using assms by (auto simp: stamps_ordered_def intro: stamped_later)
    ultimately show ?thesis by (simp add: stamps_ordered_def)
  next
    case False
    then have "(mux_channels m)[i := c] = mux_channels m" by (intro list_update_beyond) (simp add: not_less)
    then show ?thesis using assms by (auto simp: stamps_ordered_def intro: stamped_later)
  qed
  with stamps_log_event [of ?m] Inr show ?thesis by (auto simp: channel_push_def Let_def split: option.split)
qed (use assms in \<open>simp add: channel_push_def\<close>)

interpretation stamps: mux_invariant stamps_ordered
  by unfold_locales (auto simp: stamps_log_event stamps_channel_push, simp add: stamps_ordered_def set_state_def)


section \<open>Steps of a stream\<close>

text \<open>What the run and the consumers do with a mux: events pushed, items taken by the consumers of the log and of the
  channels, subscriptions, the end. \<open>read\<close> is what the consumer of the log has taken.\<close>

inductive stream_step :: "'d proto_event list \<times> ('d, 's) mux \<Rightarrow> 'd proto_event list \<times> ('d, 's) mux \<Rightarrow> bool" where
  pushes: "stream_step (read, m) (read, snd (mux_push ev m))"
| pushes_item: "stream_step (read, m) (read, snd (channel_push i x m))"
| subscribes_log: "subscribe_schan async (mux_events m) = Inr c \<Longrightarrow> stream_step (read, m) (read, m\<lparr>mux_events := c\<rparr>)"
| subscribes: "i < length (mux_channels m) \<Longrightarrow> subscribe_schan async (mux_channels m ! i) = Inr c \<Longrightarrow>
    stream_step (read, m) (read, m\<lparr>mux_channels := (mux_channels m)[i := c]\<rparr>)"
| takes: "cursor_next mux_events (\<lambda>c m. m\<lparr>mux_events := c\<rparr>) None m = Some (Yield ev, m') \<Longrightarrow> stream_step (read, m) (read @ [ev], m')"
| takes_item: "i < length (mux_channels m) \<Longrightarrow>
    cursor_next (\<lambda>m. mux_channels m ! i) (\<lambda>c m. m\<lparr>mux_channels := (mux_channels m)[i := c]\<rparr>) None m = Some (Yield x, m') \<Longrightarrow>
    stream_step (read, m) (read, m')"
| closes: "stream_step (read, m) (read, snd (mux_close m))"
| fails: "stream_step (read, m) (read, mux_fail e m)"
| closes_async: "stream_step (read, m) (read, snd (mux_aclose pending m))"
| fails_async: "stream_step (read, m) (read, mux_afail e m)"

lemma cursor_yields:
  assumes "cursor_next get put None m = Some (Yield x, m')"
  obtains stamp rest where "sch_items (get m) = (stamp, x) # rest" "m' = put ((get m)\<lparr>sch_items := rest\<rparr>) m"
proof (cases "sch_items (get m)")
  case Nil
  with assms show ?thesis by (subst (asm) cursor_next.simps) (auto split: if_splits option.splits)
next
  case (Cons p rest)
  obtain k y where "p = (k, y)" by (cases p)
  with Cons assms that show ?thesis by (subst (asm) cursor_next.simps) auto
qed

lemma subscribe_items: "subscribe_schan async c = Inr c' \<Longrightarrow> sch_items c' = sch_items c"
  by (auto simp: subscribe_schan_def split: option.splits if_splits)

lemma closing_items [simp]:
  "sch_items (close_open c) = sch_items c" "sch_items (fail_open e c) = sch_items c" "sch_items (close_schan c) = sch_items c"
  "sch_items (fail_schan e c) = sch_items c"
  by (simp_all add: close_open_def fail_open_def close_schan_def fail_schan_def)

definition stream_ordered :: "'d proto_event list \<times> ('d, 's) mux \<Rightarrow> bool" where
  "stream_ordered s \<longleftrightarrow> ordered_log (fst s) (snd s) \<and> stamps_ordered (snd s)"

lemma ordered_log_cong:
  "mux_assign m' = mux_assign m \<Longrightarrow> sch_items (mux_events m') = sch_items (mux_events m) \<Longrightarrow> mux_seq m' = mux_seq m \<Longrightarrow>
   ordered_log read m' = ordered_log read m"
  by (simp add: ordered_log_def)

lemma stamps_close: "stamps_ordered m \<Longrightarrow> (\<And>c. sch_items (f c) = sch_items c) \<Longrightarrow> sch_items ev = sch_items (mux_events m) \<Longrightarrow>
   stamps_ordered (m\<lparr>mux_channels := map f (mux_channels m), mux_events := ev\<rparr>)"
  unfolding stamps_ordered_def by (auto simp: stamped_def)

lemma stamps_update_channel:
  assumes "stamps_ordered m" and "i < length (mux_channels m)" and "stamped (mux_push_seq m) (mux_channels m ! i) \<Longrightarrow> stamped (mux_push_seq m) c"
  shows "stamps_ordered (m\<lparr>mux_channels := (mux_channels m)[i := c]\<rparr>)"
proof -
  have "stamped (mux_push_seq m) c" using assms by (simp add: stamps_ordered_def)
  moreover have "d = c \<or> d \<in> set (mux_channels m)" if "d \<in> set ((mux_channels m)[i := c])" for d
    using set_update_subset_insert that by fastforce
  ultimately show ?thesis using assms(1) by (auto simp: stamps_ordered_def)
qed

lemma stamped_rest: "sch_items c = (k, x) # rest \<Longrightarrow> stamped n c \<Longrightarrow> stamped n (c\<lparr>sch_items := rest\<rparr>)"
  by (auto simp: stamped_def)

lemma ended_ordered:
  assumes "stream_ordered (read, m)" and "\<And>c. sch_items (f c) = sch_items c"
    and "sch_items ev = sch_items (mux_events (snd (hooks_from hook n j m)))"
  shows "stream_ordered (read, (snd (hooks_from hook n j m))\<lparr>mux_channels := map f (mux_channels (snd (hooks_from hook n j m))), mux_events := ev\<rparr>)"
proof -
  let ?m = "snd (hooks_from hook n j m)"
  have "ordered_log read ?m" "stamps_ordered ?m"
    using assms(1) by (simp_all add: stream_ordered_def ordered.hooks_from_keeps stamps.hooks_from_keeps)
  with stamps_close [of ?m f ev, OF _ assms(2,3)] assms(3) show ?thesis by (simp add: stream_ordered_def ordered_log_def)
qed

lemma stream_step_ordered: "stream_step s s' \<Longrightarrow> stream_ordered s \<Longrightarrow> stream_ordered s'"
proof (induction rule: stream_step.induct)
  case (pushes read m ev)
  then show ?case by (simp add: stream_ordered_def ordered.mux_push_keeps stamps.mux_push_keeps)
next
  case (pushes_item read m i x)
  then show ?case by (simp add: stream_ordered_def ordered_channel_push stamps_channel_push)
next
  case (subscribes_log async m c read)
  with subscribe_items [OF subscribes_log.hyps] show ?case
    by (simp add: stream_ordered_def stamps_ordered_def stamped_def ordered_log_def)
next
  case (subscribes i m async c read)
  have "stamped (mux_push_seq m) (mux_channels m ! i) \<Longrightarrow> stamped (mux_push_seq m) c"
    using subscribe_items [OF subscribes.hyps(2)] by (simp add: stamped_def)
  with subscribes.prems stamps_update_channel [OF _ subscribes.hyps(1), of c] show ?case
    by (simp add: stream_ordered_def ordered_log_def)
next
  case (takes m ev m' read)
  from cursor_yields [OF takes.hyps] obtain k rest where rest: "sch_items (mux_events m) = (k, ev) # rest"
    "m' = m\<lparr>mux_events := (mux_events m)\<lparr>sch_items := rest\<rparr>\<rparr>" by metis
  with takes.prems stamped_rest [OF rest(1)] show ?case
    by (auto simp: stream_ordered_def ordered_log_def stamps_ordered_def)
next
  case (takes_item i m x m' read)
  from cursor_yields [OF takes_item.hyps(2)] obtain k rest where rest: "sch_items (mux_channels m ! i) = (k, x) # rest"
    "m' = m\<lparr>mux_channels := (mux_channels m)[i := (mux_channels m ! i)\<lparr>sch_items := rest\<rparr>]\<rparr>" by metis
  with takes_item stamps_update_channel [OF _ takes_item.hyps(1) stamped_rest [OF rest(1)]] show ?case
    by (simp add: stream_ordered_def) (simp add: ordered_log_def)
next
  case (closes read m)
  then show ?case
    using ended_ordered [OF closes.prems, where hook = tfm_finalize and f = close_open and ev = "close_schan (mux_events (snd (hooks_from tfm_finalize (length (mux_attached m)) 0 m)))"]
    by (simp add: mux_close_def close_all_def case_prod_beta)
next
  case (fails read m e)
  then show ?case
    using ended_ordered [OF fails.prems, where hook = "\<lambda>t. tfm_fail t e" and f = "fail_open e" and
        ev = "fail_schan e (mux_events (snd (hooks_from (\<lambda>t. tfm_fail t e) (length (mux_attached m)) 0 m)))"]
    by (simp add: mux_fail_def case_prod_beta)
next
  case (closes_async read m pending)
  then show ?case
    using ended_ordered [OF closes_async.prems, where hook = tfm_finalize and f = close_open and
        ev = "close_schan (mux_events (snd (hooks_from tfm_finalize (length (mux_attached m)) 0 m)))"]
    by (cases "first_task_error pending") (simp_all add: mux_aclose_def mux_close_def close_all_def case_prod_beta)
next
  case (fails_async read m e)
  then show ?case
    using ended_ordered [OF fails_async.prems, where hook = "\<lambda>t. tfm_fail t e" and f = "fail_open e" and
        ev = "fail_open e (mux_events (snd (hooks_from (\<lambda>t. tfm_fail t e) (length (mux_attached m)) 0 m)))"]
    by (simp add: mux_afail_def case_prod_beta)
qed

lemma register_transformer_log:
  "register_transformer t m = Inr m' \<Longrightarrow> mux_events m' = mux_events m \<and> mux_assign m' = mux_assign m \<and> mux_seq m' = mux_seq m \<and>
   mux_push_seq m' = mux_push_seq m"
  by (auto simp: register_transformer_def split: if_splits option.splits prod.splits)

lemma bind_and_wire_fresh:
  "bind_and_wire async native ps chs = (chs', places) \<Longrightarrow> \<forall>c \<in> set chs. sch_items c = [] \<Longrightarrow> \<forall>c \<in> set chs'. sch_items c = []"
proof (induction async native ps chs arbitrary: places rule: bind_and_wire.induct)
  case (3 async native k name ps chs)
  then show ?case by (auto simp: new_schan_def split: prod.splits)
qed auto

lemma register_transformer_fresh:
  "register_transformer t m = Inr m' \<Longrightarrow> \<forall>c \<in> set (mux_channels m). sch_items c = [] \<Longrightarrow> \<forall>c \<in> set (mux_channels m'). sch_items c = []"
  by (auto simp: register_transformer_def split: if_splits option.splits prod.splits dest!: bind_and_wire_fresh)

lemma register_all_log:
  "register_all ts m = Inr m' \<Longrightarrow> mux_events m' = mux_events m \<and> mux_assign m' = mux_assign m \<and> mux_seq m' = mux_seq m \<and>
   mux_push_seq m' = mux_push_seq m"
proof (induction ts arbitrary: m)
  case (Cons t ts)
  then obtain m1 where m1: "register_transformer t m = Inr m1" "register_all ts m1 = Inr m'" by (auto split: sum.splits)
  from register_transformer_log [OF m1(1)] Cons.IH [OF m1(2)] show ?case by simp
qed simp

lemma register_all_fresh:
  "register_all ts m = Inr m' \<Longrightarrow> \<forall>c \<in> set (mux_channels m). sch_items c = [] \<Longrightarrow> \<forall>c \<in> set (mux_channels m'). sch_items c = []"
proof (induction ts arbitrary: m)
  case (Cons t ts)
  then obtain m1 where m1: "register_transformer t m = Inr m1" "register_all ts m1 = Inr m'" by (auto split: sum.splits)
  from Cons.IH [OF m1(2) register_transformer_fresh [OF m1(1) Cons.prems(2)]] show ?case .
qed simp

lemma made_mux_ordered:
  assumes "make_mux ts async fs scope True = Inr m" shows "stream_ordered ([], m)"
proof -
  from assms obtain m1 where m1: "register_all (case fs of None \<Rightarrow> [] | Some gs \<Rightarrow> before_first (map (\<lambda>f. f scope) gs)) (empty_mux async fs scope True) = Inr m1"
    "register_all (before_first ts) m1 = Inr m" by (auto simp: make_mux_def split: sum.splits)
  have "\<forall>c \<in> set (mux_channels m). sch_items c = []"
    using register_all_fresh [OF m1(2) register_all_fresh [OF m1(1)]] by (simp add: empty_mux_def)
  with register_all_log [OF m1(1)] register_all_log [OF m1(2)] show ?thesis
    by (simp add: stream_ordered_def ordered_log_def stamps_ordered_def stamped_def empty_mux_def new_schan_def)
qed

text \<open>C14. The main log has a total order: whatever transformers a root mux is made with, whatever they push while they
  process events, however channels are pushed to, subscribed, read, closed or failed in between, the events its
  consumer has read and is still to read carry strictly increasing sequence numbers, and the stamps of
  every channel increase too.\<close>

theorem root_log_totally_ordered:
  assumes "make_mux ts async fs scope True = Inr m0" and "stream_step\<^sup>*\<^sup>* ([], m0) (read, m)"
  shows "(\<exists>ns. map pev_seq (read @ map snd (sch_items (mux_events m))) = map Some ns \<and> sorted_wrt (<) ns) \<and>
    (\<forall>c \<in> set (mux_channels m). sorted_wrt (<) (map fst (sch_items c)))"
proof -
  from assms(2) have "stream_ordered (read, m)"
  proof (induction rule: rtranclp_induct2)
    case refl
    show ?case by (rule made_mux_ordered [OF assms(1)])
  next
    case (step r1 m1 r2 m2)
    then show ?case using stream_step_ordered by blast
  qed
  then show ?thesis by (auto simp: stream_ordered_def ordered_log_def stamps_ordered_def stamped_def)
qed

text \<open>A transformer that echoes the data of an event on its channel and drops what it is told to.\<close>

definition echo :: "(nat, unit) transformer" where
  "echo = \<lparr>tfm_class = ''Echo'', tfm_before = False, tfm_native = False, tfm_requires_async = False, tfm_supports_sync = False,
     tfm_overrides = [], tfm_init = Some [(''echo'', ProjChannel (Some ''echo''))],
     tfm_process = (\<lambda>s ev. (s, ev, [(''echo'', pev_data ev)], Inr (pev_data ev \<noteq> 0))),
     tfm_finalize = (\<lambda>s. (s, [], Some ValueError)), tfm_fail = (\<lambda>e s. (s, [], None)), tfm_start = ()\<rparr>"

definition values_event :: "nat \<Rightarrow> nat proto_event" where
  "values_event n = \<lparr>pev_method = ''values'', pev_namespace = [], pev_data = n, pev_interrupts = [], pev_seq = None\<rparr>"

definition echo_mux :: "(nat, unit) mux" where
  "echo_mux = (case make_mux [echo] False None [] True of Inr m \<Rightarrow> m | Inl e \<Rightarrow> empty_mux False None [] True)"

lemma echo_mux_made: "make_mux [echo] False None [] True = Inr echo_mux"
proof -
  have "case make_mux [echo] False None [] True of Inl e \<Rightarrow> False | Inr m \<Rightarrow> True" by code_simp
  then show ?thesis by (simp add: echo_mux_def split: sum.splits)
qed

definition read_mux :: "(nat, unit) mux" where
  "read_mux = echo_mux\<lparr>mux_events := (mux_events echo_mux)\<lparr>sch_subscribed := True\<rparr>\<rparr>"

theorem root_log_totally_ordered_witness:
  "map (\<lambda>ev. (pev_method ev, pev_seq ev)) (map snd (sch_items (mux_events (snd (mux_push (values_event 7) read_mux)))))
     = [(''custom:echo'', Some 1), (''values'', Some 2)] \<and>
   (\<exists>ns. map pev_seq ([] @ map snd (sch_items (mux_events (snd (mux_push (values_event 7) read_mux))))) = map Some ns \<and> sorted_wrt (<) ns)"
proof -
  have "subscribe_schan False (mux_events echo_mux) = Inr (mux_events read_mux)" by code_simp
  from subscribes_log [OF this, of "[]"] have "stream_step ([], echo_mux) ([], read_mux)" by (simp add: read_mux_def)
  with pushes [of "[]" read_mux "values_event 7"]
  have "stream_step\<^sup>*\<^sup>* ([], echo_mux) ([], snd (mux_push (values_event 7) read_mux))"
    by (blast intro: converse_rtranclp_into_rtranclp)
  from root_log_totally_ordered [OF echo_mux_made this] have
    "\<exists>ns. map pev_seq ([] @ map snd (sch_items (mux_events (snd (mux_push (values_event 7) read_mux))))) = map Some ns \<and> sorted_wrt (<) ns" by blast
  moreover have "map (\<lambda>ev. (pev_method ev, pev_seq ev)) (map snd (sch_items (mux_events (snd (mux_push (values_event 7) read_mux)))))
     = [(''custom:echo'', Some 1), (''values'', Some 2)]" by code_simp
  ultimately show ?thesis by blast
qed

section \<open>How a stream ends\<close>

fun cursor_run :: "('m \<Rightarrow> 'x schan) \<Rightarrow> ('x schan \<Rightarrow> 'm \<Rightarrow> 'm) \<Rightarrow> ('m \<Rightarrow> bool \<times> 'm) option \<Rightarrow> nat \<Rightarrow> 'm \<Rightarrow> 'x cursor_step list option" where
  "cursor_run get put pump 0 m = Some []"
| "cursor_run get put pump (Suc k) m =
     (case cursor_next get put pump m of
        None \<Rightarrow> None
      | Some (Yield x, m') \<Rightarrow> map_option (\<lambda>rs. Yield x # rs) (cursor_run get put pump k m')
      | Some (r, m') \<Rightarrow> Some [r])"

definition drained :: "'x schan \<Rightarrow> 'x cursor_step list" where
  "drained c = map (\<lambda>(k, x). Yield x) (sch_items c) @ [case sch_error c of Some e \<Rightarrow> Raise e | None \<Rightarrow> Stop]"

text \<open>The consumer of a closed channel gets what is left and then its end, without the pump.\<close>

lemma closed_channel_drains:
  assumes get_put: "\<And>c m. Q m \<Longrightarrow> get (put c m) = c \<and> Q (put c m)" and "Q m" and "sch_closed (get m)"
  shows "cursor_run get put pump (Suc (length (sch_items (get m)))) m = Some (drained (get m))"
proof -
  have "Q m \<Longrightarrow> sch_items (get m) = items \<Longrightarrow> sch_closed (get m) \<Longrightarrow> sch_error (get m) = err \<Longrightarrow>
      cursor_run get put pump (Suc (length items)) m = Some (map (\<lambda>(k, x). Yield x) items @ [case err of Some e \<Rightarrow> Raise e | None \<Rightarrow> Stop])" for items err m
  proof (induction items arbitrary: m)
    case Nil
    then show ?case by (simp add: cursor_next.simps [of get put pump m] split: option.split)
  next
    case (Cons p items)
    obtain k x where p: "p = (k, x)" by (cases p)
    let ?m = "put ((get m)\<lparr>sch_items := items\<rparr>) m"
    have "cursor_next get put pump m = Some (Yield x, ?m)" using Cons.prems(2) by (simp add: cursor_next.simps [of get put pump m] p)
    moreover have "cursor_run get put pump (Suc (length items)) ?m = Some (map (\<lambda>(k, x). Yield x) items @ [case err of Some e \<Rightarrow> Raise e | None \<Rightarrow> Stop])"
      by (rule Cons.IH) (simp_all add: get_put Cons.prems)
    ultimately show ?case by (simp add: p)
  qed
  with assms(2,3) show ?thesis by (simp add: drained_def)
qed

definition log_put :: "'d proto_event schan \<Rightarrow> ('d, 's) mux \<Rightarrow> ('d, 's) mux" where
  "log_put c m = m\<lparr>mux_events := c\<rparr>"

definition channel_put :: "nat \<Rightarrow> 'd schan \<Rightarrow> ('d, 's) mux \<Rightarrow> ('d, 's) mux" where
  "channel_put i c m = m\<lparr>mux_channels := (mux_channels m)[i := c]\<rparr>"

text \<open>Whether the channels and the log are closed, and with what error.\<close>

definition ends :: "('d, 's) mux \<Rightarrow> (bool \<times> py_exc option) list \<times> bool \<times> py_exc option" where
  "ends m = (map (\<lambda>c. (sch_closed c, sch_error c)) (mux_channels m), sch_closed (mux_events m), sch_error (mux_events m))"

lemma keep_item_ends: "keep_item k x c = Inr c' \<Longrightarrow> sch_closed c' = sch_closed c \<and> sch_error c' = sch_error c"
  by (auto dest!: keep_item_cases)

lemma log_event_ends: "ends (snd (log_event ev m)) = ends m"
  by (auto simp: log_event_def Let_def ends_def dest: keep_item_ends split: sum.split)

lemma channel_push_ends: "ends (snd (channel_push i x m)) = ends m"
proof (cases "keep_item (mux_push_seq m + 1) x (mux_channels m ! i)")
  case (Inr c)
  let ?m = "m\<lparr>mux_channels := (mux_channels m)[i := c], mux_push_seq := (if sch_subscribed c then mux_push_seq m + 1 else mux_push_seq m)\<rparr>"
  let ?f = "\<lambda>c. (sch_closed c, sch_error c)"
  have "(map ?f (mux_channels m))[i := ?f c] = map ?f (mux_channels m)"
  proof (cases "i < length (mux_channels m)")
    case True
    with keep_item_ends [OF Inr] show ?thesis by (intro list_update_same_conv [THEN iffD2]) simp_all
  next
    case False
    then show ?thesis by (intro list_update_beyond) simp
  qed
  then have same: "ends ?m = ends m" by (simp add: ends_def map_update)
  show ?thesis unfolding channel_push_def Inr sum.case Let_def
    by (cases "sch_method c") (simp_all only: option.case snd_conv log_event_ends same)
qed (simp add: channel_push_def)

interpretation ending: mux_invariant "\<lambda>m. ends m = x" for x
  by unfold_locales (simp_all add: log_event_ends channel_push_ends, simp add: ends_def set_state_def)

lemma hooks_keep_ends: "ends (snd (hooks_from hook n j m)) = ends m"
  by (rule ending.hooks_from_keeps) simp

lemma end_parts:
  fixes err :: py_exc
  assumes "i < length (mux_channels m)" and "\<not> sch_closed (mux_channels m ! i)" and "sch_error (mux_channels m ! i) = None"
    and "sch_error (mux_events m) = None"
  defines "mc \<equiv> snd (mux_close m)" and "mf \<equiv> mux_fail err m"
  shows "cursor_run mux_events log_put pump (Suc (length (sch_items (mux_events mc)))) mc =
      Some (map (\<lambda>(k, x). Yield x) (sch_items (mux_events mc)) @ [Stop])"
    and "cursor_run (\<lambda>m. mux_channels m ! i) (channel_put i) pump' (Suc (length (sch_items (mux_channels mc ! i)))) mc =
      Some (map (\<lambda>(k, x). Yield x) (sch_items (mux_channels mc ! i)) @ [Stop])"
    and "cursor_run mux_events log_put pump (Suc (length (sch_items (mux_events mf)))) mf =
      Some (map (\<lambda>(k, x). Yield x) (sch_items (mux_events mf)) @ [Raise err])"
    and "cursor_run (\<lambda>m. mux_channels m ! i) (channel_put i) pump' (Suc (length (sch_items (mux_channels mf ! i)))) mf =
      Some (map (\<lambda>(k, x). Yield x) (sch_items (mux_channels mf ! i)) @ [Raise err])"
proof -
  let ?n = "length (mux_attached m)"
  have log: "cursor_run mux_events log_put pump (Suc (length (sch_items (mux_events x)))) x = Some (drained (mux_events x))"
    if "sch_closed (mux_events x)" for x :: "('a, 'b) mux"
    by (rule closed_channel_drains [where Q = "\<lambda>_. True"]) (simp_all add: log_put_def that)
  have chan: "cursor_run (\<lambda>m. mux_channels m ! i) (channel_put i) pump' (Suc (length (sch_items (mux_channels x ! i)))) x = Some (drained (mux_channels x ! i))"
    if "sch_closed (mux_channels x ! i)" "i < length (mux_channels x)" for x :: "('a, 'b) mux"
    by (rule closed_channel_drains [where Q = "\<lambda>m. i < length (mux_channels m)"]) (simp_all add: channel_put_def that)
  have open': "i < length (mux_channels x) \<and> \<not> sch_closed (mux_channels x ! i) \<and> sch_error (mux_channels x ! i) = None \<and> sch_error (mux_events x) = None"
    if "ends x = ends m" for x :: "('a, 'b) mux"
  proof -
    from that have maps: "map (\<lambda>c. (sch_closed c, sch_error c)) (mux_channels x) = map (\<lambda>c. (sch_closed c, sch_error c)) (mux_channels m)"
      "sch_error (mux_events x) = sch_error (mux_events m)"
      by (simp_all add: ends_def)
    from map_eq_imp_length_eq [OF maps(1)] have l: "length (mux_channels x) = length (mux_channels m)" .
    with nth_map [of i "mux_channels x" "\<lambda>c. (sch_closed c, sch_error c)"] nth_map [of i "mux_channels m" "\<lambda>c. (sch_closed c, sch_error c)"]
      maps assms(1-4) show ?thesis by simp
  qed
  note hooked = open' [OF hooks_keep_ends]
  have mc: "sch_closed (mux_events mc)" "sch_error (mux_events mc) = None" "i < length (mux_channels mc)" "sch_closed (mux_channels mc ! i)"
    "sch_error (mux_channels mc ! i) = None"
    using hooked [of tfm_finalize ?n 0] by (simp_all add: mc_def mux_close_def case_prod_beta close_all_def close_schan_def close_open_def)
  have mf: "sch_closed (mux_events mf)" "sch_error (mux_events mf) = Some err" "i < length (mux_channels mf)" "sch_closed (mux_channels mf ! i)"
    "sch_error (mux_channels mf ! i) = Some err"
    using hooked [of "\<lambda>t. tfm_fail t err" ?n 0] by (simp_all add: mf_def mux_fail_def case_prod_beta fail_schan_def fail_open_def)
  show "cursor_run mux_events log_put pump (Suc (length (sch_items (mux_events mc)))) mc =
      Some (map (\<lambda>(k, x). Yield x) (sch_items (mux_events mc)) @ [Stop])"
    using log [OF mc(1)] by (simp add: drained_def mc del: cursor_run.simps)
  show "cursor_run (\<lambda>m. mux_channels m ! i) (channel_put i) pump' (Suc (length (sch_items (mux_channels mc ! i)))) mc =
      Some (map (\<lambda>(k, x). Yield x) (sch_items (mux_channels mc ! i)) @ [Stop])"
    using chan [OF mc(4,3)] by (simp add: drained_def mc del: cursor_run.simps)
  show "cursor_run mux_events log_put pump (Suc (length (sch_items (mux_events mf)))) mf =
      Some (map (\<lambda>(k, x). Yield x) (sch_items (mux_events mf)) @ [Raise err])"
    using log [OF mf(1)] by (simp add: drained_def mf del: cursor_run.simps)
  show "cursor_run (\<lambda>m. mux_channels m ! i) (channel_put i) pump' (Suc (length (sch_items (mux_channels mf ! i)))) mf =
      Some (map (\<lambda>(k, x). Yield x) (sch_items (mux_channels mf ! i)) @ [Raise err])"
    using chan [OF mf(4,3)] by (simp add: drained_def mf del: cursor_run.simps)
qed

text \<open>C23. The end of a run reaches every consumer: after \<open>close\<close> the consumers of the log and of every channel that was
  open get what is left in order and then stop, after \<open>fail\<close> they get what is left and then the error of the run,
  even when hooks of transformers raise or push to the end; no consumer waits for the pump any more.\<close>

theorem end_reaches_every_consumer:
  assumes "i < length (mux_channels m)" and "\<not> sch_closed (mux_channels m ! i)" and "sch_error (mux_channels m ! i) = None"
    and "sch_error (mux_events m) = None"
  shows "let mc = snd (mux_close m); mf = mux_fail err m; left = (\<lambda>c. map (\<lambda>(k, x). Yield x) (sch_items c));
             log = (\<lambda>x. cursor_run mux_events log_put pump (Suc (length (sch_items (mux_events x)))) x);
             chan = (\<lambda>x. cursor_run (\<lambda>m. mux_channels m ! i) (channel_put i) pump' (Suc (length (sch_items (mux_channels x ! i)))) x)
         in log mc = Some (map (\<lambda>(k, x). Yield x) (sch_items (mux_events mc)) @ [Stop]) \<and> chan mc = Some (left (mux_channels mc ! i) @ [Stop]) \<and>
            log mf = Some (map (\<lambda>(k, x). Yield x) (sch_items (mux_events mf)) @ [Raise err]) \<and> chan mf = Some (left (mux_channels mf ! i) @ [Raise err])"
  unfolding Let_def using end_parts [OF assms] by blast

theorem end_reaches_every_consumer_witness:
  "cursor_run (\<lambda>m. mux_channels m ! 0) (channel_put 0) None 1 (mux_fail OSError (snd (mux_push (values_event 7) read_mux))) = Some [Raise OSError]"
proof -
  let ?m = "snd (mux_push (values_event 7) read_mux)"
  have "0 < length (mux_channels ?m)" "\<not> sch_closed (mux_channels ?m ! 0)" "sch_error (mux_channels ?m ! 0) = None" "sch_error (mux_events ?m) = None"
    by code_simp+
  from end_reaches_every_consumer [OF this, of OSError None None] have
    "cursor_run (\<lambda>m. mux_channels m ! 0) (channel_put 0) None (Suc (length (sch_items (mux_channels (mux_fail OSError ?m) ! 0)))) (mux_fail OSError ?m) =
       Some (map (\<lambda>(k, x). Yield x) (sch_items (mux_channels (mux_fail OSError ?m) ! 0)) @ [Raise OSError])"
    unfolding Let_def by blast
  moreover have "sch_items (mux_channels (mux_fail OSError ?m) ! 0) = []" by code_simp
  ultimately show ?thesis by simp
qed

text \<open>A scheduled task that raised: \<open>aclose\<close> returns before any cleanup, the log stays open.\<close>

lemma aclose_leaves_open: "first_task_error pending = Some e \<Longrightarrow> mux_aclose pending m = (Some e, m)"
  by (simp add: mux_aclose_def)

section \<open>The branches of a fan-out\<close>

inductive pulled_from :: "('m \<Rightarrow> 'x cursor_step \<times> 'm) \<Rightarrow> 'm \<Rightarrow> 'x list \<Rightarrow> 'm \<Rightarrow> bool" for step where
  pulled_none: "pulled_from step src [] src"
| pulled_more: "pulled_from step src xs m \<Longrightarrow> step m = (Yield x, m') \<Longrightarrow> pulled_from step src (xs @ [x]) m'"

fun tee_run :: "(nat \<Rightarrow> 't \<Rightarrow> 'x cursor_step \<times> 't) \<Rightarrow> nat list \<Rightarrow> 't \<Rightarrow> (nat \<times> 'x cursor_step) list \<times> 't" where
  "tee_run nxt [] t = ([], t)"
| "tee_run nxt (i # is) t = (case nxt i t of (r, t1) \<Rightarrow> (case tee_run nxt is t1 of (out, t2) \<Rightarrow> ((i, r) # out, t2)))"

definition yields :: "nat \<Rightarrow> (nat \<times> 'x cursor_step) list \<Rightarrow> 'x list" where
  "yields i out = concat (map (\<lambda>(j, r). if j = i then (case r of Yield x \<Rightarrow> [x] | _ \<Rightarrow> []) else []) out)"

text \<open>What both fan-outs do with their buffers and the source.\<close>

locale fan_out =
  fixes step :: "'m \<Rightarrow> 'x cursor_step \<times> 'm" and nxt :: "nat \<Rightarrow> ('x, 'm) tee \<Rightarrow> 'x cursor_step \<times> ('x, 'm) tee"
  assumes buffered: "nxt i t = (Yield x, t') \<Longrightarrow> i < length (te_buffers t) \<Longrightarrow> te_buffers t ! i \<noteq> [] \<Longrightarrow>
      \<exists>rest. te_buffers t ! i = x # rest \<and> te_buffers t' = (te_buffers t)[i := rest] \<and> te_source t' = te_source t \<and> te_dead t' = te_dead t"
    and fetched: "nxt i t = (Yield x, t') \<Longrightarrow> i < length (te_buffers t) \<Longrightarrow> te_buffers t ! i = [] \<Longrightarrow>
      \<not> te_dead t \<and> \<not> te_dead t' \<and> step (te_source t) = (Yield x, te_source t') \<and> te_buffers t' = (map (\<lambda>b. b @ [x]) (te_buffers t))[i := []]"
    and stopped: "nxt i t = (r, t') \<Longrightarrow> (\<And>x. r \<noteq> Yield x) \<Longrightarrow> te_buffers t' = te_buffers t \<and> (te_source t' = te_source t \<and> te_dead t' = te_dead t \<or> te_dead t')"
begin

definition sharing :: "'m \<Rightarrow> nat \<Rightarrow> 'x list \<Rightarrow> (nat \<Rightarrow> 'x list) \<Rightarrow> ('x, 'm) tee \<Rightarrow> bool" where
  "sharing src n pulled got t \<longleftrightarrow> length (te_buffers t) = n \<and> (\<forall>i < n. got i @ te_buffers t ! i = pulled) \<and>
     (\<exists>m. pulled_from step src pulled m \<and> (\<not> te_dead t \<longrightarrow> m = te_source t))"

lemma next_shares:
  assumes "sharing src n pulled got t" and "i < n" and "nxt i t = (r, t')"
  shows "\<exists>pulled'. sharing src n pulled' (got(i := got i @ (case r of Yield x \<Rightarrow> [x] | _ \<Rightarrow> []))) t'"
proof -
  from assms(1) obtain m where sh: "length (te_buffers t) = n" "\<And>j. j < n \<Longrightarrow> got j @ te_buffers t ! j = pulled"
    "pulled_from step src pulled m" "\<not> te_dead t \<Longrightarrow> m = te_source t" by (auto simp: sharing_def)
  show ?thesis
  proof (cases r)
    case (Yield x)
    show ?thesis
    proof (cases "te_buffers t ! i = []")
      case True
      from fetched [of i t x t'] assms(2,3) sh(1) Yield True have
        f: "\<not> te_dead t" "step (te_source t) = (Yield x, te_source t')" "te_buffers t' = (map (\<lambda>b. b @ [x]) (te_buffers t))[i := []]" by auto
      have "pulled_from step src (pulled @ [x]) (te_source t')"
        using pulled_more [OF sh(3)] sh(4) f(1,2) by simp
      moreover have "(got(i := got i @ [x])) j @ te_buffers t' ! j = pulled @ [x]" if "j < n" for j
        using sh(1,2) that True f(3) by (cases "j = i") auto
      ultimately show ?thesis using f(3) sh(1) Yield by (auto simp: sharing_def)
    next
      case False
      from buffered [of i t x t'] assms(2,3) sh(1) Yield False obtain rest where
        f: "te_buffers t ! i = x # rest" "te_buffers t' = (te_buffers t)[i := rest]" "te_source t' = te_source t" "te_dead t' = te_dead t" by auto
      have "(got(i := got i @ [x])) j @ te_buffers t' ! j = pulled" if "j < n" for j
        using sh(1) sh(2) [OF that] f that assms(2) by (cases "j = i") auto
      then show ?thesis using f sh Yield by (auto simp: sharing_def)
    qed
  next
    case (Raise e)
    with stopped [OF assms(3)] sh have "sharing src n pulled got t'" by (auto simp: sharing_def)
    with Raise show ?thesis by (auto simp: fun_upd_idem)
  next
    case Stop
    with stopped [OF assms(3)] sh have "sharing src n pulled got t'" by (auto simp: sharing_def)
    with Stop show ?thesis by (auto simp: fun_upd_idem)
  qed
qed

lemma run_shares:
  "sharing src n pulled got t \<Longrightarrow> \<forall>i \<in> set is. i < n \<Longrightarrow> tee_run nxt is t = (out, t') \<Longrightarrow>
   \<exists>pulled'. sharing src n pulled' (\<lambda>i. got i @ yields i out) t'"
proof (induction "is" arbitrary: pulled got t out)
  case Nil
  then show ?case by (auto simp: yields_def)
next
  case (Cons i "is")
  obtain r t1 where r: "nxt i t = (r, t1)" by (cases "nxt i t")
  obtain out2 t2 where rest: "tee_run nxt is t1 = (out2, t2)" by (cases "tee_run nxt is t1")
  from Cons.prems(3) r rest have out: "out = (i, r) # out2" "t2 = t'" by simp_all
  from next_shares [OF Cons.prems(1) _ r] Cons.prems(2) obtain pulled1 where
    "sharing src n pulled1 (got(i := got i @ (case r of Yield x \<Rightarrow> [x] | _ \<Rightarrow> []))) t1" by auto
  from Cons.IH [OF this _ rest [unfolded out(2)]] Cons.prems(2) obtain pulled2 where
    p: "sharing src n pulled2 (\<lambda>j. (got(i := got i @ (case r of Yield x \<Rightarrow> [x] | _ \<Rightarrow> []))) j @ yields j out2) t'" by auto
  have "(\<lambda>j. (got(i := got i @ (case r of Yield x \<Rightarrow> [x] | _ \<Rightarrow> []))) j @ yields j out2) = (\<lambda>j. got j @ yields j out)"
    by (auto simp: fun_eq_iff yields_def out(1))
  with p show ?case by auto
qed

lemma branches_share:
  assumes "make_tee n src = Inr t" and "\<forall>i \<in> set is. i < n" and "tee_run nxt is t = (out, t')"
  shows "\<exists>pulled m. pulled_from step src pulled m \<and> (\<forall>i < n. yields i out @ te_buffers t' ! i = pulled)"
proof -
  have "sharing src n [] (\<lambda>i. []) t"
    using assms(1) pulled_none by (auto simp: make_tee_def sharing_def split: if_splits)
  from run_shares [OF this assms(2,3)] show ?thesis by (auto simp: sharing_def)
qed

end

lemma pull_source_cases:
  assumes "pull_source step t = (r, t')"
  shows "te_buffers t' = te_buffers t \<and> te_exhausted t' = te_exhausted t \<and> te_error t' = te_error t \<and> te_ended t' = te_ended t \<and>
    (if te_dead t then r = Stop \<and> t' = t
     else step (te_source t) = (r, te_source t') \<and> te_dead t' = (\<forall>x. r \<noteq> Yield x))"
  using assms by (cases "step (te_source t)"; cases "fst (step (te_source t))") (auto simp: pull_source_def split: if_splits)

interpretation sync_tee: fan_out step "tee_next step" for step
  by unfold_locales
    (auto simp: tee_next_def end_branch_def split: list.splits if_splits prod.splits cursor_step.splits dest!: pull_source_cases)

interpretation async_tee: fan_out step "atee_next step" for step
  by unfold_locales
    (auto simp: atee_next_def end_branch_def Let_def split: list.splits if_splits prod.splits cursor_step.splits option.splits dest!: pull_source_cases)

text \<open>C22. Every branch of \<open>tee\<close> and of \<open>atee\<close> sees the same stream: however the branches are advanced, what a branch has
  yielded followed by what its buffer holds is the same for all of them, and it is what the source has given,
  in order, each item pulled once.\<close>

theorem branches_see_the_source:
  assumes "make_tee n src = Inr t" and "\<forall>i \<in> set is. i < n" and "nxt = tee_next step \<or> nxt = atee_next step" and "tee_run nxt is t = (out, t')"
  shows "\<exists>pulled m. pulled_from step src pulled m \<and> (\<forall>i < n. yields i out @ te_buffers t' ! i = pulled)"
  using assms(3) sync_tee.branches_share [OF assms(1,2)] async_tee.branches_share [OF assms(1,2)] assms(4) by blast

definition count_step :: "nat \<Rightarrow> nat cursor_step \<times> nat" where
  "count_step n = (if n < 3 then (Yield n, n + 1) else (Raise OSError, n))"

theorem branches_see_the_source_witness:
  "fst (tee_run (tee_next count_step) [0, 1, 1, 0] \<lparr>te_buffers = [[], []], te_ended = [False, False], te_exhausted = False, te_error = None, te_dead = False, te_source = 0\<rparr>)
     = [(0, Yield 0), (1, Yield 0), (1, Yield 1), (0, Yield 1)] \<and>
   (\<exists>pulled m. pulled_from count_step 0 pulled m \<and> length pulled = 2)"
proof -
  let ?t = "\<lparr>te_buffers = [[], []], te_ended = [False, False], te_exhausted = False, te_error = None, te_dead = False, te_source = (0 :: nat)\<rparr>
    :: (nat, nat) tee"
  have made: "make_tee 2 0 = Inr ?t" by (simp add: make_tee_def numeral_2_eq_2)
  obtain out t' where run: "tee_run (tee_next count_step) [0, 1, 1, 0] ?t = (out, t')" by (cases "tee_run (tee_next count_step) [0, 1, 1, 0] ?t")
  have "fst (tee_run (tee_next count_step) [0, 1, 1, 0] ?t) = [(0, Yield 0), (1, Yield 0), (1, Yield 1), (0, Yield 1)] \<and>
      te_buffers (snd (tee_run (tee_next count_step) [0, 1, 1, 0] ?t)) = [[], []]" by code_simp
  then have out: "out = [(0, Yield 0), (1, Yield 0), (1, Yield 1), (0, Yield 1)]" "te_buffers t' = [[], []]" unfolding run fst_conv snd_conv by blast+
  obtain pulled m where "pulled_from count_step 0 pulled m" "\<forall>i < 2. yields i out @ te_buffers t' ! i = pulled"
    using branches_see_the_source [OF made _ _ run, of count_step] by auto
  then have "pulled_from count_step 0 pulled m" "length pulled = 2" by (auto simp: out yields_def dest: spec [of _ 0])
  with out run show ?thesis by auto
qed

text \<open>An error of the source: \<open>tee\<close> raises it in the branch that met it, the others just stop.\<close>

lemma tee_error_reaches_one:
  "map snd (fst (tee_run (tee_next count_step) [0, 1] \<lparr>te_buffers = [[], []], te_ended = [False, False], te_exhausted = False,
     te_error = None, te_dead = False, te_source = 3\<rparr>)) = [Raise OSError, Stop]"
  "map snd (fst (tee_run (atee_next count_step) [0, 1] \<lparr>te_buffers = [[], []], te_ended = [False, False], te_exhausted = False,
     te_error = None, te_dead = False, te_source = 3\<rparr>)) = [Raise OSError, Raise OSError]"
  by code_simp+
end
