(* ===== verification/Lifecycle.thy ===== *)
theory Lifecycle
  imports Streams Text
begin

text \<open>
  The built-in transformers of \<open>stream/transformers.py\<close>: the projections of one level, the routing of message events to
  the streams of their runs, and the lifecycle of subgraphs inferred from task events. Stream handles of
  subgraphs and their child muxes are not modelled.
\<close>

section \<open>Projections of one level\<close>

text \<open>\<open>CustomTransformer\<close>, \<open>UpdatesTransformer\<close>, \<open>CheckpointsTransformer\<close>, \<open>DebugTransformer\<close>, \<open>TasksTransformer\<close>:
  the data of the events of one method at the transformer's own level.\<close>

definition own_level :: "string \<Rightarrow> string list \<Rightarrow> 'd proto_event \<Rightarrow> bool" where
  "own_level method scope ev \<longleftrightarrow> pev_method ev = method \<and> pev_namespace ev = scope"

definition level_transformer :: "string \<Rightarrow> string \<Rightarrow> string list \<Rightarrow> ('d, unit) transformer" where
  "level_transformer cls method scope =
     \<lparr>tfm_class = cls, tfm_before = False, tfm_native = True, tfm_requires_async = False, tfm_supports_sync = False, tfm_overrides = [],
      tfm_init = Some [(method, ProjChannel None)],
      tfm_process = (\<lambda>s ev. (s, ev, if own_level method scope ev then [(method, pev_data ev)] else [], Inr True)),
      tfm_finalize = (\<lambda>s. (s, [], None)), tfm_fail = (\<lambda>e s. (s, [], None)), tfm_start = ()\<rparr>"

definition custom_transformer :: "string list \<Rightarrow> ('d, unit) transformer" where
  "custom_transformer = level_transformer ''CustomTransformer'' ''custom''"

definition updates_transformer :: "string list \<Rightarrow> ('d, unit) transformer" where
  "updates_transformer = level_transformer ''UpdatesTransformer'' ''updates''"

definition checkpoints_transformer :: "string list \<Rightarrow> ('d, unit) transformer" where
  "checkpoints_transformer = level_transformer ''CheckpointsTransformer'' ''checkpoints''"

definition debug_transformer :: "string list \<Rightarrow> ('d, unit) transformer" where
  "debug_transformer = level_transformer ''DebugTransformer'' ''debug''"

definition tasks_transformer :: "string list \<Rightarrow> ('d, unit) transformer" where
  "tasks_transformer = level_transformer ''TasksTransformer'' ''tasks''"

record 'd values_state =
  vs_latest :: "'d option"
  vs_interrupted :: bool
  vs_interrupts :: "'d list"

definition values_process :: "string list \<Rightarrow> 'd values_state \<Rightarrow> 'd proto_event \<Rightarrow> 'd values_state \<times> 'd pushes" where
  "values_process scope s ev =
     (if own_level ''values'' scope ev
      then (s\<lparr>vs_latest := Some (pev_data ev), vs_interrupted := (vs_interrupted s \<or> pev_interrupts ev \<noteq> []),
              vs_interrupts := vs_interrupts s @ pev_interrupts ev\<rparr>, [(''values'', pev_data ev)])
      else (s, []))"

definition values_transformer :: "string list \<Rightarrow> ('d, 'd values_state) transformer" where
  "values_transformer scope =
     \<lparr>tfm_class = ''ValuesTransformer'', tfm_before = False, tfm_native = True, tfm_requires_async = False, tfm_supports_sync = False,
      tfm_overrides = [], tfm_init = Some [(''values'', ProjChannel None)],
      tfm_process = (\<lambda>s ev. case values_process scope s ev of (s', ps) \<Rightarrow> (s', ev, ps, Inr True)),
      tfm_finalize = (\<lambda>s. (s, [], None)), tfm_fail = (\<lambda>e s. (s, [], None)),
      tfm_start = \<lparr>vs_latest = None, vs_interrupted = False, vs_interrupts = []\<rparr>\<rparr>"

section \<open>Message events\<close>

text \<open>What a messages event carries: a protocol event of a run, a whole message with the events it is replayed as, a chunk
  or a tool message. A stream is its node, its message id and the events dispatched to it.\<close>

datatype message_part = EventPart string pydict | WholePart "string option" "pydict list" | OtherPart

record message_stream =
  mst_node :: "string option"
  mst_id :: "pyval option"
  mst_events :: "pydict list"
  mst_error :: "py_exc option"

text \<open>\<open>mrt_streams\<close>: every stream made; \<open>mrt_pushed\<close>: their places in the order in which they were pushed.\<close>

record message_router =
  mrt_streams :: "message_stream list"
  mrt_pushed :: "nat list"
  mrt_by_run :: "(string, nat) dict"
  mrt_ignored :: "string list"

definition new_router :: message_router where
  "new_router = \<lparr>mrt_streams = [], mrt_pushed = [], mrt_by_run = [], mrt_ignored = []\<rparr>"

definition dispatch :: "nat \<Rightarrow> pydict \<Rightarrow> message_router \<Rightarrow> message_router" where
  "dispatch i ev r = r\<lparr>mrt_streams := (mrt_streams r)[i := (mrt_streams r ! i)\<lparr>mst_events := mst_events (mrt_streams r ! i) @ [ev]\<rparr>]\<rparr>"

definition message_id_of :: "pydict \<Rightarrow> pyval option" where
  "message_id_of ev = (case dict_get ev ''message_id'' of None \<Rightarrow> None | Some PNone \<Rightarrow> None | Some v \<Rightarrow> Some v)"

definition route_event :: "string \<Rightarrow> string option \<Rightarrow> pydict \<Rightarrow> message_router \<Rightarrow> message_router" where
  "route_event run node ev r =
     (let kind = dict_get ev ''event'' in
      if kind = Some (PStr ''message-start'')
      then if dict_get ev ''role'' = Some (PStr ''tool'') then r\<lparr>mrt_ignored := List.insert run (mrt_ignored r)\<rparr>
           else (let i = length (mrt_streams r) in
                 dispatch i ev (r\<lparr>mrt_streams := mrt_streams r @ [\<lparr>mst_node = node, mst_id = message_id_of ev, mst_events = [], mst_error = None\<rparr>],
                                  mrt_pushed := mrt_pushed r @ [i], mrt_by_run := dict_set run i (mrt_by_run r)\<rparr>))
      else if run \<in> set (mrt_ignored r)
      then if kind = Some (PStr ''message-finish'') then r\<lparr>mrt_ignored := removeAll run (mrt_ignored r)\<rparr> else r
      else (case dict_get (mrt_by_run r) run of
              None \<Rightarrow> r
            | Some i \<Rightarrow>
                (let r1 = dispatch i ev r
                 in if kind = Some (PStr ''message-finish'') then r1\<lparr>mrt_by_run := dict_del run (mrt_by_run r1)\<rparr> else r1)))"

definition route_whole :: "string option \<Rightarrow> string option \<Rightarrow> pydict list \<Rightarrow> message_router \<Rightarrow> message_router" where
  "route_whole node i evs r =
     r\<lparr>mrt_streams := mrt_streams r @ [\<lparr>mst_node = node, mst_id = map_option PStr i, mst_events = evs, mst_error = None\<rparr>],
       mrt_pushed := mrt_pushed r @ [length (mrt_streams r)]\<rparr>"

definition route_part :: "string option \<Rightarrow> message_part \<Rightarrow> message_router \<Rightarrow> message_router" where
  "route_part node p r =
     (case p of
        EventPart run ev \<Rightarrow> if dict_get ev ''event'' = None then r else route_event run node ev r
      | WholePart i evs \<Rightarrow> route_whole node i evs r
      | OtherPart \<Rightarrow> r)"

text \<open>The message events of the own level; the data is the node and the payload.\<close>

definition messages_process :: "string list \<Rightarrow> (string option \<times> message_part) proto_event \<Rightarrow> message_router \<Rightarrow> message_router" where
  "messages_process scope ev r =
     (if own_level ''messages'' scope ev then route_part (fst (pev_data ev)) (snd (pev_data ev)) r else r)"

definition finalize_router :: "message_router \<Rightarrow> message_router" where
  "finalize_router r = r\<lparr>mrt_by_run := [], mrt_ignored := []\<rparr>"

fun fail_streams :: "py_exc \<Rightarrow> nat list \<Rightarrow> message_stream list \<Rightarrow> message_stream list" where
  "fail_streams e [] ss = ss"
| "fail_streams e (i # is) ss = fail_streams e is (ss[i := (ss ! i)\<lparr>mst_error := Some e\<rparr>])"

definition fail_router :: "py_exc \<Rightarrow> message_router \<Rightarrow> message_router" where
  "fail_router e r = (finalize_router r)\<lparr>mrt_streams := fail_streams e (map snd (mrt_by_run r)) (mrt_streams r)\<rparr>"

section \<open>The lifecycle of subgraphs\<close>

datatype subgraph_status = Started | Completed | Failed | Interrupted | Drained

record lifecycle_payload =
  lp_event :: subgraph_status
  lp_namespace :: "string list"
  lp_graph_name :: "pyval option"
  lp_trigger :: "string option"
  lp_cause :: "string option"
  lp_error :: "string option"

text \<open>\<open>lc_deep\<close>: all depths below the scope, or its direct children only.\<close>

record lifecycle =
  lc_scope :: "string list"
  lc_deep :: bool
  lc_seen :: "string list list"
  lc_open :: "(string list, string) dict"
  lc_names :: "(string list, pyval option) dict"
  lc_calls :: "(string, string) dict"

definition new_lifecycle :: "bool \<Rightarrow> string list \<Rightarrow> lifecycle" where
  "new_lifecycle deep scope = \<lparr>lc_scope = scope, lc_deep = deep, lc_seen = [], lc_open = [], lc_names = [], lc_calls = []\<rparr>"

definition parse_ns_segment :: "string \<Rightarrow> string \<times> string option" where
  "parse_ns_segment s = (case partition_at (CHR '':'') s of (name, sep, tid) \<Rightarrow> (name, if sep then Some tid else None))"

definition should_track :: "lifecycle \<Rightarrow> string list \<Rightarrow> bool" where
  "should_track l ns \<longleftrightarrow>
     (let depth = length (lc_scope l) in
      (if lc_deep l then length ns > depth else length ns = depth + 1) \<and> take depth ns = lc_scope l)"

text \<open>\<open>data.get("metadata") or {}\<close> and the name of the agent in it.\<close>

definition agent_name_of :: "pydict \<Rightarrow> pyval option result" where
  "agent_name_of data =
     (case dict_get data ''metadata'' of
        None \<Rightarrow> Inr None
      | Some v \<Rightarrow>
          if \<not> truthy v then Inr None
          else (case v of
                  PDict d \<Rightarrow> Inr (case dict_get d ''lc_agent_name'' of None \<Rightarrow> None | Some PNone \<Rightarrow> None | Some x \<Rightarrow> Some x)
                | _ \<Rightarrow> Inl AttributeError))"

definition record_identity :: "string list \<Rightarrow> pydict \<Rightarrow> lifecycle \<Rightarrow> lifecycle result" where
  "record_identity ns data l =
     (if dict_get (lc_names l) ns \<noteq> None then Inr l
      else (case agent_name_of data of Inl e \<Rightarrow> Inl e | Inr n \<Rightarrow> Inr (l\<lparr>lc_names := dict_set ns n (lc_names l)\<rparr>)))"

fun first_call_id :: "pyval list \<Rightarrow> string option" where
  "first_call_id [] = None"
| "first_call_id (PDict d # vs) = (case dict_get d ''id'' of Some (PStr i) \<Rightarrow> Some i | _ \<Rightarrow> first_call_id vs)"
| "first_call_id (v # vs) = first_call_id vs"

definition triggering_call :: "pyval option \<Rightarrow> string option" where
  "triggering_call payload =
     (case payload of
        Some (PDict d) \<Rightarrow>
          (case dict_get d ''tool_call'' of
             Some (PDict c) \<Rightarrow> (case dict_get c ''id'' of Some (PStr i) \<Rightarrow> Some i | _ \<Rightarrow> None)
           | _ \<Rightarrow> None)
      | Some (PList vs) \<Rightarrow> first_call_id vs
      | _ \<Rightarrow> None)"

definition record_pending_tool_calls :: "pydict \<Rightarrow> lifecycle \<Rightarrow> lifecycle" where
  "record_pending_tool_calls data l =
     (case dict_get data ''id'' of
        Some (PStr tid) \<Rightarrow>
          (case triggering_call (dict_get data ''input'') of None \<Rightarrow> l | Some c \<Rightarrow> l\<lparr>lc_calls := dict_set tid c (lc_calls l)\<rparr>)
      | _ \<Rightarrow> l)"

text \<open>\<open>_on_started\<close> and \<open>_on_terminal\<close> of \<open>LifecycleTransformer\<close>.\<close>

definition on_started :: "string list \<Rightarrow> pyval option \<Rightarrow> string option \<Rightarrow> string option \<Rightarrow> lifecycle_payload list" where
  "on_started ns name trigger cause =
     (case trigger of
        None \<Rightarrow> []
      | Some t \<Rightarrow>
          [\<lparr>lp_event = Started, lp_namespace = ns, lp_graph_name = (case name of Some v \<Rightarrow> if truthy v then Some v else None | None \<Rightarrow> None),
            lp_trigger = Some t, lp_cause = cause, lp_error = None\<rparr>])"

definition on_terminal :: "string list \<Rightarrow> subgraph_status \<Rightarrow> string option \<Rightarrow> lifecycle_payload" where
  "on_terminal ns st err =
     \<lparr>lp_event = st, lp_namespace = ns, lp_graph_name = None, lp_trigger = None, lp_cause = None, lp_error = err\<rparr>"

definition handle_task_start :: "string list \<Rightarrow> pydict \<Rightarrow> lifecycle \<Rightarrow> lifecycle \<times> lifecycle_payload list result" where
  "handle_task_start ns data l =
     (if \<not> should_track l ns \<or> ns \<in> set (lc_seen l) then (l, Inr [])
      else (case agent_name_of data of
              Inl e \<Rightarrow> (l\<lparr>lc_seen := ns # lc_seen l\<rparr>, Inl e)
            | Inr agent \<Rightarrow>
                (let (parsed, trigger) = parse_ns_segment (last ns);
                     name = (if agent \<noteq> None then agent else if parsed = '''' then None else Some (PStr parsed));
                     cause = (if agent \<noteq> None
                              then (case trigger of
                                      None \<Rightarrow> None
                                    | Some t \<Rightarrow> (case dict_get (lc_calls l) t of Some c \<Rightarrow> if c = '''' then None else Some c | None \<Rightarrow> None))
                              else None);
                     l1 = l\<lparr>lc_seen := ns # lc_seen l\<rparr>
                 in (case trigger of None \<Rightarrow> l1 | Some t \<Rightarrow> l1\<lparr>lc_open := dict_set ns t (lc_open l1)\<rparr>,
                     Inr (on_started ns name trigger cause)))))"

definition terminal_from_result :: "(pyval \<Rightarrow> string) \<Rightarrow> pydict \<Rightarrow> subgraph_status \<times> string option" where
  "terminal_from_result str data =
     (if (case dict_get data ''interrupts'' of None \<Rightarrow> False | Some v \<Rightarrow> truthy v) then (Interrupted, None)
      else (case dict_get data ''error'' of
              Some v \<Rightarrow> if truthy v then (Failed, Some (str v)) else (Completed, None)
            | None \<Rightarrow> (Completed, None)))"

definition closed_by :: "string list \<Rightarrow> pyval \<Rightarrow> string list \<times> string \<Rightarrow> bool" where
  "closed_by ns result p \<longleftrightarrow> butlast (fst p) = ns \<and> PStr (snd p) = result"

definition handle_task_result :: "(pyval \<Rightarrow> string) \<Rightarrow> string list \<Rightarrow> pydict \<Rightarrow> lifecycle \<Rightarrow> lifecycle \<times> lifecycle_payload list" where
  "handle_task_result str ns data l =
     (case dict_get data ''id'' of
        None \<Rightarrow> (l, [])
      | Some i \<Rightarrow>
          if \<not> truthy i then (l, [])
          else (case terminal_from_result str data of (st, err) \<Rightarrow>
                  (l\<lparr>lc_open := filter (\<lambda>p. \<not> closed_by ns i p) (lc_open l)\<rparr>,
                   map (\<lambda>p. on_terminal (fst p) st err) (filter (closed_by ns i) (lc_open l)))))"

text \<open>One event; task events are kept from the main log.\<close>

definition lifecycle_process ::
  "(pyval \<Rightarrow> string) \<Rightarrow> lifecycle \<Rightarrow> pyval proto_event \<Rightarrow> lifecycle \<times> lifecycle_payload list \<times> bool result" where
  "lifecycle_process str l ev =
     (if pev_method ev \<noteq> ''tasks'' then (l, [], Inr True)
      else (case pev_data ev of
              PDict data \<Rightarrow>
                if dict_get data ''result'' \<noteq> None
                then (case handle_task_result str (pev_namespace ev) data l of (l', ps) \<Rightarrow> (l', ps, Inr False))
                else (case record_identity (pev_namespace ev) data l of
                        Inl e \<Rightarrow> (l, [], Inl e)
                      | Inr l1 \<Rightarrow>
                          (let l2 = record_pending_tool_calls data l1
                           in case handle_task_start (pev_namespace ev) data l2 of
                                (l3, Inl e) \<Rightarrow> (l3, [], Inl e)
                              | (l3, Inr ps) \<Rightarrow> (l3, ps, Inr False)))
            | _ \<Rightarrow> (l, [], Inl TypeError)))"

datatype run_error = DrainedRun | InterruptedRun | FailedRun string

fun status_from_exception :: "run_error \<Rightarrow> subgraph_status \<times> string option" where
  "status_from_exception DrainedRun = (Drained, None)"
| "status_from_exception InterruptedRun = (Interrupted, None)"
| "status_from_exception (FailedRun e) = (Failed, Some e)"

definition lifecycle_end :: "subgraph_status \<Rightarrow> string option \<Rightarrow> lifecycle \<Rightarrow> lifecycle \<times> lifecycle_payload list" where
  "lifecycle_end st err l = (l\<lparr>lc_open := []\<rparr>, map (\<lambda>p. on_terminal (fst p) st err) (lc_open l))"

definition lifecycle_finalize :: "lifecycle \<Rightarrow> lifecycle \<times> lifecycle_payload list" where
  "lifecycle_finalize l = lifecycle_end Completed None l"

definition lifecycle_fail :: "run_error \<Rightarrow> lifecycle \<Rightarrow> lifecycle \<times> lifecycle_payload list" where
  "lifecycle_fail e l = (case status_from_exception e of (st, err) \<Rightarrow> lifecycle_end st err l)"

section \<open>Every started subgraph ends once\<close>

fun lifecycle_run :: "(pyval \<Rightarrow> string) \<Rightarrow> lifecycle \<Rightarrow> pyval proto_event list \<Rightarrow> lifecycle \<times> lifecycle_payload list" where
  "lifecycle_run str l [] = (l, [])"
| "lifecycle_run str l (ev # evs) =
     (case lifecycle_process str l ev of (l1, ps, r) \<Rightarrow> (case lifecycle_run str l1 evs of (l2, qs) \<Rightarrow> (l2, ps @ qs)))"

definition payloads_of :: "string list \<Rightarrow> lifecycle_payload list \<Rightarrow> lifecycle_payload list" where
  "payloads_of ns ps = filter (\<lambda>p. lp_namespace p = ns) ps"

text \<open>What has been said of a namespace so far.\<close>

definition told :: "lifecycle \<Rightarrow> lifecycle_payload list \<Rightarrow> bool" where
  "told l ps \<longleftrightarrow> distinct (map fst (lc_open l)) \<and> fst ` set (lc_open l) \<subseteq> set (lc_seen l) \<and>
     (\<forall>ns. (ns \<notin> set (lc_seen l) \<longrightarrow> payloads_of ns ps = []) \<and>
           (ns \<in> fst ` set (lc_open l) \<longrightarrow> map lp_event (payloads_of ns ps) = [Started]) \<and>
           (ns \<in> set (lc_seen l) - fst ` set (lc_open l) \<longrightarrow>
              payloads_of ns ps = [] \<or> (\<exists>st. st \<noteq> Started \<and> map lp_event (payloads_of ns ps) = [Started, st])))"

lemma payloads_append [simp]: "payloads_of ns (ps @ qs) = payloads_of ns ps @ payloads_of ns qs"
  by (simp add: payloads_of_def)

lemma terminal_status: "fst (terminal_from_result str data) \<noteq> Started"
  by (auto simp: terminal_from_result_def split: option.split)

lemma exception_status: "fst (status_from_exception e) \<noteq> Started"
  by (cases e) simp_all

lemma payloads_of_terminals:
  "distinct (map fst ps) \<Longrightarrow> payloads_of ns (map (\<lambda>p. on_terminal (fst p) st err) ps) = (if ns \<in> fst ` set ps then [on_terminal ns st err] else [])"
  by (induction ps) (auto simp: payloads_of_def on_terminal_def)

lemma told_closing:
  assumes "told l ps" and "st \<noteq> Started"
  shows "told (l\<lparr>lc_open := filter (\<lambda>p. \<not> Q p) (lc_open l)\<rparr>) (ps @ map (\<lambda>p. on_terminal (fst p) st err) (filter Q (lc_open l)))"
proof -
  let ?l = "l\<lparr>lc_open := filter (\<lambda>p. \<not> Q p) (lc_open l)\<rparr>" and ?qs = "map (\<lambda>p. on_terminal (fst p) st err) (filter Q (lc_open l))"
  from assms(1) have d: "distinct (map fst (lc_open l))" and sub: "fst ` set (lc_open l) \<subseteq> set (lc_seen l)" by (simp_all add: told_def)
  have dq: "distinct (map fst (filter P (lc_open l)))" for P using d by (simp add: distinct_map_filter)
  have split: "ns \<in> fst ` set (filter Q (lc_open l)) \<longleftrightarrow> ns \<in> fst ` set (lc_open l) \<and> ns \<notin> fst ` set (filter (\<lambda>p. \<not> Q p) (lc_open l))" for ns
    using d by (auto simp: distinct_map inj_on_def)
  have one: "(ns \<notin> set (lc_seen ?l) \<longrightarrow> payloads_of ns (ps @ ?qs) = []) \<and>
      (ns \<in> fst ` set (lc_open ?l) \<longrightarrow> map lp_event (payloads_of ns (ps @ ?qs)) = [Started]) \<and>
      (ns \<in> set (lc_seen ?l) - fst ` set (lc_open ?l) \<longrightarrow>
         payloads_of ns (ps @ ?qs) = [] \<or> (\<exists>st. st \<noteq> Started \<and> map lp_event (payloads_of ns (ps @ ?qs)) = [Started, st]))" for ns
  proof (cases "ns \<in> fst ` set (filter Q (lc_open l))")
    case True
    with split have at: "ns \<in> fst ` set (lc_open l)" "ns \<notin> fst ` set (lc_open ?l)" by simp_all
    with assms(1) have "map lp_event (payloads_of ns ps) = [Started]" by (simp add: told_def)
    moreover have "payloads_of ns ?qs = [on_terminal ns st err]" using True by (simp only: payloads_of_terminals [OF dq] if_True)
    ultimately have "map lp_event (payloads_of ns (ps @ ?qs)) = [Started, st]" by (simp add: on_terminal_def)
    with at sub assms(2) show ?thesis by auto
  next
    case False
    then have none: "payloads_of ns ?qs = []" using dq by (simp add: payloads_of_terminals)
    from False split have "ns \<in> fst ` set (lc_open ?l) \<longleftrightarrow> ns \<in> fst ` set (lc_open l)" by auto
    with none assms(1) show ?thesis by (simp add: told_def)
  qed
  have "distinct (map fst (lc_open ?l))" using dq by simp
  moreover have "fst ` set (lc_open ?l) \<subseteq> set (lc_seen ?l)" using sub by auto
  ultimately show ?thesis using one unfolding told_def by blast
qed

lemma update_new: "k \<notin> fst ` set d \<Longrightarrow> dict_set k v d = d @ [(k, v)]"
  by (induction d) auto

lemma told_starting:
  assumes "told l ps" and "ns \<notin> set (lc_seen l)"
  shows "told (l\<lparr>lc_seen := ns # lc_seen l, lc_open := dict_set ns t (lc_open l)\<rparr>) (ps @ on_started ns name (Some t) cause)"
proof -
  from assms have new: "ns \<notin> fst ` set (lc_open l)" and quiet: "payloads_of ns ps = []" by (auto simp: told_def)
  from new have set: "dict_set ns t (lc_open l) = lc_open l @ [(ns, t)]" by (rule update_new)
  have own: "map lp_event (payloads_of ns (on_started ns name (Some t) cause)) = [Started]" by (simp add: payloads_of_def on_started_def)
  have others: "ms \<noteq> ns \<Longrightarrow> payloads_of ms (on_started ns name (Some t) cause) = []" for ms by (simp add: payloads_of_def on_started_def)
  let ?l = "l\<lparr>lc_seen := ns # lc_seen l, lc_open := dict_set ns t (lc_open l)\<rparr>" and ?ps = "ps @ on_started ns name (Some t) cause"
  have one: "(ms \<notin> set (lc_seen ?l) \<longrightarrow> payloads_of ms ?ps = []) \<and>
      (ms \<in> fst ` set (lc_open ?l) \<longrightarrow> map lp_event (payloads_of ms ?ps) = [Started]) \<and>
      (ms \<in> set (lc_seen ?l) - fst ` set (lc_open ?l) \<longrightarrow>
         payloads_of ms ?ps = [] \<or> (\<exists>st. st \<noteq> Started \<and> map lp_event (payloads_of ms ?ps) = [Started, st]))" for ms
  proof (cases "ms = ns")
    case True
    with own quiet show ?thesis by (simp add: set)
  next
    case False
    with assms(1) others [OF False] show ?thesis by (simp add: told_def set)
  qed
  have "distinct (map fst (lc_open ?l))" and "fst ` set (lc_open ?l) \<subseteq> set (lc_seen ?l)"
    using assms(1) new by (auto simp: told_def set)
  with one show ?thesis unfolding told_def by blast
qed

lemma told_unlabelled:
  assumes "told l ps" and "ns \<notin> set (lc_seen l)"
  shows "told (l\<lparr>lc_seen := ns # lc_seen l\<rparr>) ps"
  using assms by (auto simp: told_def)

lemma told_recording:
  "told (l\<lparr>lc_names := n\<rparr>) ps = told l ps" "told (l\<lparr>lc_calls := c\<rparr>) ps = told l ps"
  by (simp_all add: told_def)

lemma told_identity: "told l ps \<Longrightarrow> record_identity ns data l = Inr l' \<Longrightarrow> told l' ps"
  by (auto simp: record_identity_def told_recording split: if_splits sum.splits)

lemma told_calls: "told l ps \<Longrightarrow> told (record_pending_tool_calls data l) ps"
  by (auto simp: record_pending_tool_calls_def told_recording split: option.split pyval.split)

definition pushed :: "lifecycle_payload list result \<Rightarrow> lifecycle_payload list" where
  "pushed r = (case r of Inl e \<Rightarrow> [] | Inr ps \<Rightarrow> ps)"

lemma told_start:
  assumes "told l ps"
  shows "told (fst (handle_task_start ns data l)) (ps @ pushed (snd (handle_task_start ns data l)))"
proof (cases "\<not> should_track l ns \<or> ns \<in> set (lc_seen l)")
  case True
  with assms show ?thesis by (simp add: handle_task_start_def pushed_def)
next
  case False
  then have new: "ns \<notin> set (lc_seen l)" by simp
  show ?thesis
  proof (cases "agent_name_of data")
    case (Inl e)
    with False assms told_unlabelled [OF assms new] show ?thesis by (simp add: handle_task_start_def pushed_def)
  next
    case (Inr agent)
    obtain parsed trigger where seg: "parse_ns_segment (last ns) = (parsed, trigger)" by (cases "parse_ns_segment (last ns)") auto
    show ?thesis
    proof (cases trigger)
      case None
      with False Inr seg told_unlabelled [OF assms new] show ?thesis by (simp add: handle_task_start_def pushed_def on_started_def Let_def)
    next
      case (Some t)
      with False Inr seg told_starting [OF assms new] show ?thesis by (simp add: handle_task_start_def pushed_def Let_def)
    qed
  qed
qed

lemma told_result:
  assumes "told l ps"
  shows "told (fst (handle_task_result str ns data l)) (ps @ snd (handle_task_result str ns data l))"
proof -
  obtain st err where te: "terminal_from_result str data = (st, err)" by (cases "terminal_from_result str data") auto
  have "st \<noteq> Started" using terminal_status [of str data] te by simp
  from told_closing [OF assms this] te assms show ?thesis by (auto simp: handle_task_result_def split: option.split)
qed

lemma told_process:
  assumes "told l ps"
  shows "told (fst (lifecycle_process str l ev)) (ps @ fst (snd (lifecycle_process str l ev)))"
proof (cases "pev_method ev = ''tasks'' \<and> (\<exists>data. pev_data ev = PDict data)")
  case False
  with assms show ?thesis by (cases "pev_data ev") (auto simp: lifecycle_process_def)
next
  case True
  then obtain data where ev: "pev_method ev = ''tasks''" "pev_data ev = PDict data" by blast
  show ?thesis
  proof (cases "dict_get data ''result'' \<noteq> None")
    case True
    with ev told_result [OF assms] show ?thesis by (simp add: lifecycle_process_def case_prod_beta)
  next
    case False
    show ?thesis
    proof (cases "record_identity (pev_namespace ev) data l")
      case (Inl e)
      with ev False assms show ?thesis by (simp add: lifecycle_process_def)
    next
      case (Inr l1)
      let ?h = "handle_task_start (pev_namespace ev) data (record_pending_tool_calls data l1)"
      have t: "told (fst ?h) (ps @ pushed (snd ?h))" by (intro told_start told_calls told_identity [OF assms Inr])
      obtain l3 r where h: "?h = (l3, r)" by (cases ?h) auto
      with t ev False Inr show ?thesis by (cases r) (simp_all add: lifecycle_process_def pushed_def)
    qed
  qed
qed

lemma told_run:
  "told l ps \<Longrightarrow> told (fst (lifecycle_run str l evs)) (ps @ snd (lifecycle_run str l evs))"
proof (induction evs arbitrary: l ps)
  case Nil
  then show ?case by simp
next
  case (Cons ev evs)
  from Cons.IH [OF told_process [OF Cons.prems, of str ev]] show ?case by (simp add: case_prod_beta)
qed

lemma told_end:
  assumes "told l ps" and "st \<noteq> Started"
  shows "told (fst (lifecycle_end st err l)) (ps @ snd (lifecycle_end st err l))"
  using told_closing [OF assms, of "\<lambda>p. True" err] by (simp add: lifecycle_end_def)

definition task_event :: "string list \<Rightarrow> pydict \<Rightarrow> pyval proto_event" where
  "task_event ns data = \<lparr>pev_method = ''tasks'', pev_namespace = ns, pev_data = PDict data, pev_interrupts = [], pev_seq = None\<rparr>"

text \<open>A whole life of one level: the events of the run and what the lifecycle channel carries when the run ends, by a normal
  end or by an exception.\<close>

definition lifecycle_life :: "(pyval \<Rightarrow> string) \<Rightarrow> bool \<Rightarrow> string list \<Rightarrow> pyval proto_event list \<Rightarrow> run_error option \<Rightarrow> lifecycle_payload list" where
  "lifecycle_life str deep scope evs err =
     (case lifecycle_run str (new_lifecycle deep scope) evs of
        (l, ps) \<Rightarrow> ps @ snd (case err of None \<Rightarrow> lifecycle_finalize l | Some e \<Rightarrow> lifecycle_fail e l))"

text \<open>C15. Whatever the order of task events, failed ones included, and whether the run ends normally or by an exception, the lifecycle
  channel carries for every namespace either nothing or exactly one start followed by exactly one terminal status.\<close>

theorem every_started_subgraph_ends_once:
  "(\<lambda>es. es = [] \<or> (length es = 2 \<and> hd es = Started \<and> last es \<noteq> Started))
     (map lp_event (payloads_of ns (lifecycle_life str deep scope evs err)))"
proof -
  let ?r = "lifecycle_run str (new_lifecycle deep scope) evs"
  have "told (new_lifecycle deep scope) []" by (simp add: told_def new_lifecycle_def payloads_of_def)
  from told_run [OF this] have t: "told (fst ?r) (snd ?r)" by simp
  define f where "f = (case err of None \<Rightarrow> lifecycle_finalize (fst ?r) | Some e \<Rightarrow> lifecycle_fail e (fst ?r))"
  have "\<exists>st er. st \<noteq> Started \<and> f = lifecycle_end st er (fst ?r)"
  proof (cases err)
    case None
    then show ?thesis by (auto simp: f_def lifecycle_finalize_def intro: exI [of _ Completed])
  next
    case (Some e)
    then show ?thesis using exception_status [of e] by (cases "status_from_exception e") (auto simp: f_def lifecycle_fail_def)
  qed
  then obtain st er where "st \<noteq> Started" and f: "f = lifecycle_end st er (fst ?r)" by blast
  with told_end [OF t] have told: "told (fst f) (snd ?r @ snd f)" by simp
  have closed: "lc_open (fst f) = []" by (simp add: f lifecycle_end_def)
  have life: "lifecycle_life str deep scope evs err = snd ?r @ snd f" by (simp add: lifecycle_life_def f_def case_prod_beta)
  have "payloads_of ns (snd ?r @ snd f) = [] \<or> (\<exists>st. st \<noteq> Started \<and> map lp_event (payloads_of ns (snd ?r @ snd f)) = [Started, st])"
    using told closed unfolding told_def by (cases "ns \<in> set (lc_seen (fst f))") auto
  then show ?thesis unfolding life by (auto simp del: payloads_append)
qed

lemma subgraph_reported:
  "map lp_event (lifecycle_life (\<lambda>v. ''e'') True [] 
     [task_event [''a:1''] [], task_event [''a:1'', ''b:2''] [], task_event [''a:1''] [(''id'', PStr ''2''), (''result'', PNone), (''error'', PStr ''x'')]] None)
   = [Started, Started, Failed, Completed]"
  by code_simp

end
