(* ===== verification/RunStream.thy ===== *)
theory RunStream
  imports Streams
begin

text \<open>
  Run streams (\<open>stream/run_stream.py\<close>, \<open>stream/_convert.py\<close>): the pump that pulls the graph and pushes to the mux, the
  final output, abort, the interleaved projections, and the asynchronous pump that lets one task pull at a time.
  The iterator of the graph is a step function over its state. Timestamps, backpressure and the cancellation of a pull by
  others than \<open>abort\<close> are left out.
  At most one task pulls and a waiting one is always told; the output is the last value of a run that ended normally;
  interleaving gives the items in the order of their pushes.
\<close>

section \<open>The run and its pump\<close>

record 'd stream_part =
  spt_type :: string
  spt_ns :: "string list"
  spt_data :: 'd
  spt_interrupts :: "'d list option"

definition convert_to_protocol_event :: "'d stream_part \<Rightarrow> 'd proto_event" where
  "convert_to_protocol_event p =
     \<lparr>pev_method = spt_type p, pev_namespace = spt_ns p, pev_data = spt_data p,
      pev_interrupts = (case spt_interrupts p of None \<Rightarrow> [] | Some is \<Rightarrow> is), pev_seq = None\<rparr>"

text \<open>\<open>rs_iter\<close>: the iterator of the graph; None for the handle of a subgraph and after \<open>abort\<close>.\<close>

record ('d, 's, 'g) run_stream =
  rs_iter :: "'g option"
  rs_mux :: "('d, 's) mux"
  rs_exhausted :: bool
  rs_latest :: "'d option"
  rs_interrupted :: bool
  rs_interrupts :: "'d list"

definition new_run_stream :: "'g option \<Rightarrow> ('d, 's) mux \<Rightarrow> ('d, 's, 'g) run_stream" where
  "new_run_stream it m =
     \<lparr>rs_iter = it, rs_mux = m, rs_exhausted = False, rs_latest = None, rs_interrupted = False, rs_interrupts = []\<rparr>"

definition observe_event :: "'d proto_event \<Rightarrow> ('d, 's, 'g) run_stream \<Rightarrow> ('d, 's, 'g) run_stream" where
  "observe_event ev r =
     (if pev_method ev \<noteq> ''values'' \<or> pev_namespace ev \<noteq> mux_scope (rs_mux r) then r
      else r\<lparr>rs_latest := Some (pev_data ev), rs_interrupted := (rs_interrupted r \<or> pev_interrupts ev \<noteq> []),
             rs_interrupts := rs_interrupts r @ pev_interrupts ev\<rparr>)"

text \<open>What the pump does with an exception: \<open>StopIteration\<close>, of the graph or of a transformer, ends the run.\<close>

definition end_run :: "py_exc \<Rightarrow> ('d, 's, 'g) run_stream \<Rightarrow> bool result \<times> ('d, 's, 'g) run_stream" where
  "end_run e r =
     (if e = StopIteration
      then (case mux_close (rs_mux r) of
              (None, m) \<Rightarrow> (Inr False, r\<lparr>rs_mux := m, rs_exhausted := True\<rparr>)
            | (Some e1, m) \<Rightarrow> (Inl e1, r\<lparr>rs_mux := m\<rparr>))
      else (Inr False, r\<lparr>rs_mux := mux_fail e (rs_mux r), rs_exhausted := True\<rparr>))"

definition pump_next :: "('g \<Rightarrow> 'd stream_part cursor_step \<times> 'g) \<Rightarrow> ('d, 's, 'g) run_stream \<Rightarrow> bool result \<times> ('d, 's, 'g) run_stream" where
  "pump_next step r =
     (if rs_exhausted r then (Inr False, r)
      else (case rs_iter r of
              None \<Rightarrow> (Inr False, r)
            | Some g \<Rightarrow>
                (case step g of
                   (Yield part, g1) \<Rightarrow>
                     (let ev = convert_to_protocol_event part; r1 = observe_event ev (r\<lparr>rs_iter := Some g1\<rparr>) in
                      case mux_push ev (rs_mux r1) of
                        (None, m) \<Rightarrow> (Inr True, r1\<lparr>rs_mux := m\<rparr>)
                      | (Some e, m) \<Rightarrow> end_run e (r1\<lparr>rs_mux := m\<rparr>))
                 | (Stop, g1) \<Rightarrow> end_run StopIteration (r\<lparr>rs_iter := Some g1\<rparr>)
                 | (Raise e, g1) \<Rightarrow> end_run e (r\<lparr>rs_iter := Some g1\<rparr>))))"

text \<open>What closing the iterator or the mux raises is dropped.\<close>

definition abort_run :: "('d, 's, 'g) run_stream \<Rightarrow> ('d, 's, 'g) run_stream" where
  "abort_run r = (if rs_exhausted r then r else r\<lparr>rs_exhausted := True, rs_iter := None, rs_mux := snd (mux_close (rs_mux r))\<rparr>)"

partial_function (option) drive_until_done :: "('r \<Rightarrow> bool result \<times> 'r) \<Rightarrow> 'r \<Rightarrow> (unit result \<times> 'r) option" where
  "drive_until_done pump r =
     (case pump r of
        (Inl e, r1) \<Rightarrow> Some (Inl e, r1)
      | (Inr more_events, r1) \<Rightarrow> if more_events then drive_until_done pump r1 else Some (Inr (), r1))"

text \<open>\<open>output\<close>, \<open>interrupted\<close> and \<open>interrupts\<close>: drive to the end, then the error of the log, else what was observed.\<close>

definition after_the_end ::
  "(('d, 's, 'g) run_stream \<Rightarrow> 'a) \<Rightarrow> ('g \<Rightarrow> 'd stream_part cursor_step \<times> 'g) \<Rightarrow> ('d, 's, 'g) run_stream \<Rightarrow> ('a result \<times> ('d, 's, 'g) run_stream) option" where
  "after_the_end f step r =
     (case drive_until_done (pump_next step) r of
        None \<Rightarrow> None
      | Some (Inl e, r1) \<Rightarrow> Some (Inl e, r1)
      | Some (Inr u, r1) \<Rightarrow> Some (case sch_error (mux_events (rs_mux r1)) of Some e \<Rightarrow> Inl e | None \<Rightarrow> Inr (f r1), r1))"

definition run_output ::
  "('g \<Rightarrow> 'd stream_part cursor_step \<times> 'g) \<Rightarrow> ('d, 's, 'g) run_stream \<Rightarrow> ('d option result \<times> ('d, 's, 'g) run_stream) option" where
  "run_output = after_the_end rs_latest"

definition run_interrupted ::
  "('g \<Rightarrow> 'd stream_part cursor_step \<times> 'g) \<Rightarrow> ('d, 's, 'g) run_stream \<Rightarrow> (bool result \<times> ('d, 's, 'g) run_stream) option" where
  "run_interrupted = after_the_end rs_interrupted"

definition run_interrupts ::
  "('g \<Rightarrow> 'd stream_part cursor_step \<times> 'g) \<Rightarrow> ('d, 's, 'g) run_stream \<Rightarrow> ('d list result \<times> ('d, 's, 'g) run_stream) option" where
  "run_interrupts = after_the_end rs_interrupts"

section \<open>The asynchronous pump\<close>

text \<open>One pull; \<open>pending\<close> is how the tasks scheduled by transformers end. The run counts as exhausted before the mux is
  closed.\<close>

definition apump_next ::
  "task_end list \<Rightarrow> ('g \<Rightarrow> 'd stream_part cursor_step \<times> 'g) \<Rightarrow> ('d, 's, 'g) run_stream \<Rightarrow> bool result \<times> ('d, 's, 'g) run_stream" where
  "apump_next pending step r =
     (let failed = (\<lambda>e r1. (Inr False, r1\<lparr>rs_exhausted := True, rs_mux := mux_afail e (rs_mux r1)\<rparr>)) in
      if rs_exhausted r then (Inr False, r)
      else (case rs_iter r of
              None \<Rightarrow> (Inr False, r)
            | Some g \<Rightarrow>
                (case step g of
                   (Yield part, g1) \<Rightarrow>
                     (let ev = convert_to_protocol_event part; r1 = observe_event ev (r\<lparr>rs_iter := Some g1\<rparr>) in
                      case mux_push ev (rs_mux r1) of
                        (None, m) \<Rightarrow> (Inr True, r1\<lparr>rs_mux := m\<rparr>)
                      | (Some e, m) \<Rightarrow> failed e (r1\<lparr>rs_mux := m\<rparr>))
                 | (Stop, g1) \<Rightarrow>
                     (case mux_aclose pending (rs_mux r) of
                        (None, m) \<Rightarrow> (Inr False, r\<lparr>rs_iter := Some g1, rs_exhausted := True, rs_mux := m\<rparr>)
                      | (Some e, m) \<Rightarrow> (Inl e, r\<lparr>rs_iter := Some g1, rs_exhausted := True, rs_mux := m\<rparr>))
                 | (Raise e, g1) \<Rightarrow> failed e (r\<lparr>rs_iter := Some g1\<rparr>))))"

definition aabort_run :: "task_end list \<Rightarrow> ('d, 's, 'g) run_stream \<Rightarrow> ('d, 's, 'g) run_stream" where
  "aabort_run pending r =
     (if rs_exhausted r then r else r\<lparr>rs_exhausted := True, rs_iter := None, rs_mux := snd (mux_aclose pending (rs_mux r))\<rparr>)"

text \<open>Who pulls: a task that finds the pump taken waits until it is told of progress. \<open>Told\<close>: notified, and to return
  whether the run goes on.\<close>

datatype pump_phase = Outside | Pulling | Waiting | Told

record 't pump_state =
  ps_pumping :: bool
  ps_exhausted :: bool
  ps_phase :: "'t \<Rightarrow> pump_phase"

definition notify_all :: "('t \<Rightarrow> pump_phase) \<Rightarrow> 't \<Rightarrow> pump_phase" where
  "notify_all f t = (if f t = Waiting then Told else f t)"

inductive pump_step :: "'t pump_state \<Rightarrow> 't pump_state \<Rightarrow> bool" where
  takes_pump: "ps_phase s t = Outside \<Longrightarrow> \<not> ps_exhausted s \<Longrightarrow> \<not> ps_pumping s \<Longrightarrow>
    pump_step s (s\<lparr>ps_pumping := True, ps_phase := (ps_phase s)(t := Pulling)\<rparr>)"
| waits: "ps_phase s t = Outside \<Longrightarrow> \<not> ps_exhausted s \<Longrightarrow> ps_pumping s \<Longrightarrow> pump_step s (s\<lparr>ps_phase := (ps_phase s)(t := Waiting)\<rparr>)"
| run_ends: "ps_phase s t = Pulling \<Longrightarrow> pump_step s (s\<lparr>ps_exhausted := True\<rparr>)"
| releases: "ps_phase s t = Pulling \<Longrightarrow>
    pump_step s (s\<lparr>ps_pumping := False, ps_phase := notify_all ((ps_phase s)(t := Outside))\<rparr>)"
| returns: "ps_phase s t = Told \<Longrightarrow> pump_step s (s\<lparr>ps_phase := (ps_phase s)(t := Outside)\<rparr>)"
| aborts: "\<not> ps_exhausted s \<Longrightarrow> pump_step s (s\<lparr>ps_exhausted := True, ps_phase := notify_all (ps_phase s)\<rparr>)"

definition idle_pump :: "'t pump_state" where
  "idle_pump = \<lparr>ps_pumping = False, ps_exhausted = False, ps_phase = (\<lambda>t. Outside)\<rparr>"

text \<open>The handle of a subgraph does not pull: it asks the pump of its parent, unless it or its log has ended.\<close>

definition handle_pump_next :: "bool \<Rightarrow> ('r \<Rightarrow> bool result \<times> 'r) option \<Rightarrow> ('d, 's, 'g) run_stream \<Rightarrow> 'r \<Rightarrow> bool result \<times> 'r" where
  "handle_pump_next seen_terminal parent_pump h r =
     (if rs_exhausted h \<or> seen_terminal \<or> sch_closed (mux_events (rs_mux h)) then (Inr False, r)
      else (case parent_pump of None \<Rightarrow> (Inr False, r) | Some pump \<Rightarrow> pump r))"

section \<open>Interleaved projections\<close>

text \<open>The channel of a projection key.\<close>

definition channel_of :: "string \<Rightarrow> ('d, 's) mux \<Rightarrow> nat result" where
  "channel_of k m =
     (if dict_get (mux_owners m) k = None then Inl KeyError
      else (case dict_get (concat (map at_places (mux_attached m))) k of None \<Rightarrow> Inl TypeError | Some i \<Rightarrow> Inr i))"

definition set_subscribed :: "bool \<Rightarrow> nat \<Rightarrow> ('d, 's) mux \<Rightarrow> ('d, 's) mux" where
  "set_subscribed b i m = m\<lparr>mux_channels := (mux_channels m)[i := (mux_channels m ! i)\<lparr>sch_subscribed := b\<rparr>]\<rparr>"

fun release_channels :: "(string \<times> nat) list \<Rightarrow> ('d, 's) mux \<Rightarrow> ('d, 's) mux" where
  "release_channels [] m = m"
| "release_channels ((name, i) # chs) m = release_channels chs (set_subscribed False i m)"

fun lock_channels :: "string list \<Rightarrow> (string \<times> nat) list \<Rightarrow> ('d, 's) mux \<Rightarrow> (string \<times> nat) list result \<times> ('d, 's) mux" where
  "lock_channels [] chs m = (Inr chs, m)"
| "lock_channels (name # names) chs m =
     (case channel_of name m of
        Inl e \<Rightarrow> (Inl e, release_channels chs m)
      | Inr i \<Rightarrow>
          if sch_async (mux_channels m ! i) \<noteq> Some False then (Inl TypeError, release_channels chs m)
          else if sch_subscribed (mux_channels m ! i) then (Inl RuntimeError, release_channels chs m)
          else lock_channels names (chs @ [(name, i)]) (set_subscribed True i m))"

text \<open>One look at the channels: which are done, and the oldest item that waits.\<close>

fun scan_channels ::
  "(string \<times> nat) list \<Rightarrow> ('d, 's) mux \<Rightarrow> string list \<Rightarrow> (nat \<times> string \<times> nat) option \<Rightarrow> (string list \<times> (nat \<times> string \<times> nat) option) result" where
  "scan_channels [] m fin best = Inr (fin, best)"
| "scan_channels ((name, i) # chs) m fin best =
     (let c = mux_channels m ! i in
      if name \<in> set fin then scan_channels chs m fin best
      else (case sch_items c of
              [] \<Rightarrow>
                if sch_closed c
                then (case sch_error c of Some e \<Rightarrow> Inl e | None \<Rightarrow> scan_channels chs m (name # fin) best)
                else scan_channels chs m fin best
            | (k, x) # rest \<Rightarrow>
                scan_channels chs m fin (case best of None \<Rightarrow> Some (k, name, i) | Some (b, q) \<Rightarrow> if k < b then Some (k, name, i) else best)))"

text \<open>When the pump has nothing more: the channels that have ended.\<close>

fun finish_channels :: "(string \<times> nat) list \<Rightarrow> ('d, 's) mux \<Rightarrow> string list \<Rightarrow> string list result" where
  "finish_channels [] m fin = Inr fin"
| "finish_channels ((name, i) # chs) m fin =
     (let c = mux_channels m ! i in
      if name \<notin> set fin \<and> sch_items c = [] \<and> sch_closed c
      then (case sch_error c of Some e \<Rightarrow> Inl e | None \<Rightarrow> finish_channels chs m (name # fin))
      else finish_channels chs m fin)"

text \<open>One step of the generator; the stamp is shown beside what it yields.\<close>

partial_function (option) interleave_next ::
  "('r \<Rightarrow> ('d, 's) mux) \<Rightarrow> (('d, 's) mux \<Rightarrow> 'r \<Rightarrow> 'r) \<Rightarrow> ('r \<Rightarrow> bool result \<times> 'r) option \<Rightarrow> (string \<times> nat) list \<Rightarrow> string list \<Rightarrow> 'r \<Rightarrow>
   ((nat \<times> string \<times> 'd) cursor_step \<times> string list \<times> 'r) option" where
  "interleave_next get put pump chs fin r =
     (if length chs \<le> length fin then Some (Stop, fin, r)
      else (case scan_channels chs (get r) fin None of
              Inl e \<Rightarrow> Some (Raise e, fin, r)
            | Inr (fin1, Some (k, name, i)) \<Rightarrow>
                (let c = mux_channels (get r) ! i
                 in Some (Yield (k, name, snd (hd (sch_items c))), fin1,
                          put ((get r)\<lparr>mux_channels := (mux_channels (get r))[i := c\<lparr>sch_items := tl (sch_items c)\<rparr>]\<rparr>) r))
            | Inr (fin1, None) \<Rightarrow>
                (case (case pump of None \<Rightarrow> (Inr False, r) | Some f \<Rightarrow> f r) of
                   (Inl e, r1) \<Rightarrow> Some (Raise e, fin1, r1)
                 | (Inr produced, r1) \<Rightarrow>
                     if produced then interleave_next get put pump chs fin1 r1
                     else (case finish_channels chs (get r1) fin1 of
                             Inl e \<Rightarrow> Some (Raise e, fin1, r1)
                           | Inr fin2 \<Rightarrow> if length fin2 = length fin1 then Some (Stop, fin2, r1) else interleave_next get put pump chs fin2 r1))))"

text \<open>However the generator ends it gives the channels back.\<close>

definition interleave ::
  "('r \<Rightarrow> ('d, 's) mux) \<Rightarrow> (('d, 's) mux \<Rightarrow> 'r \<Rightarrow> 'r) \<Rightarrow> ('r \<Rightarrow> bool result \<times> 'r) option \<Rightarrow> (string \<times> nat) list \<Rightarrow> string list \<Rightarrow> 'r \<Rightarrow>
   ((nat \<times> string \<times> 'd) cursor_step \<times> string list \<times> 'r) option" where
  "interleave get put pump chs fin r =
     (case interleave_next get put pump chs fin r of
        None \<Rightarrow> None
      | Some (st, fin1, r1) \<Rightarrow>
          Some (st, fin1, case st of Yield y \<Rightarrow> r1 | _ \<Rightarrow> put (release_channels chs (get r1)) r1))"

section \<open>One task pulls, and nobody waits for nothing\<close>

definition pump_inv :: "'t pump_state \<Rightarrow> bool" where
  "pump_inv s \<longleftrightarrow> (ps_pumping s \<longleftrightarrow> (\<exists>t. ps_phase s t = Pulling)) \<and>
     (\<forall>t u. ps_phase s t = Pulling \<longrightarrow> ps_phase s u = Pulling \<longrightarrow> t = u) \<and> (\<forall>t. ps_phase s t = Waiting \<longrightarrow> ps_pumping s)"

lemma notified [simp]:
  "notify_all f t = Pulling \<longleftrightarrow> f t = Pulling" "notify_all f t \<noteq> Waiting" "notify_all f t = Outside \<longleftrightarrow> f t = Outside"
  by (simp_all add: notify_all_def)

lemma pump_step_inv: "pump_step s s' \<Longrightarrow> pump_inv s \<Longrightarrow> pump_inv s'"
proof (induction rule: pump_step.induct)
  case (waits s t)
  have same: "((ps_phase s)(t := Waiting)) x = Pulling \<longleftrightarrow> ps_phase s x = Pulling" for x using waits.hyps(1) by simp
  from waits show ?case by (simp add: pump_inv_def same del: fun_upd_apply)
next
  case (releases s t)
  then show ?case by (auto simp: pump_inv_def split: if_splits)
next
  case (returns s t)
  then have same: "((ps_phase s)(t := Outside)) x = Pulling \<longleftrightarrow> ps_phase s x = Pulling" "((ps_phase s)(t := Outside)) x = Waiting \<longleftrightarrow> ps_phase s x = Waiting" for x
    by simp_all
  from returns show ?case by (simp add: pump_inv_def same del: fun_upd_apply) blast
qed (auto simp: pump_inv_def split: if_splits)

text \<open>However tasks ask for events of one asynchronous run and whenever it ends or is aborted, at most one of them pulls
  the graph, and a task waits only while another one pulls, whose release wakes every waiting task.\<close>

lemma one_task_pulls:
  assumes "pump_step\<^sup>*\<^sup>* idle_pump s"
  shows "(ps_phase s t = Pulling \<longrightarrow> ps_phase s u = Pulling \<longrightarrow> t = u) \<and>
    (ps_phase s w = Waiting \<longrightarrow>
       (\<exists>p. ps_phase s p = Pulling \<and> pump_step s (s\<lparr>ps_pumping := False, ps_phase := notify_all ((ps_phase s)(p := Outside))\<rparr>) \<and>
            notify_all ((ps_phase s)(p := Outside)) w = Told))"
proof -
  have "pump_inv idle_pump" by (simp add: pump_inv_def idle_pump_def)
  with assms have inv: "pump_inv s" by (induction rule: rtranclp_induct) (auto intro: pump_step_inv)
  then have "ps_phase s t = Pulling \<longrightarrow> ps_phase s u = Pulling \<longrightarrow> t = u" by (simp add: pump_inv_def)
  moreover have "\<exists>p. ps_phase s p = Pulling \<and> pump_step s (s\<lparr>ps_pumping := False, ps_phase := notify_all ((ps_phase s)(p := Outside))\<rparr>) \<and>
      notify_all ((ps_phase s)(p := Outside)) w = Told" if w: "ps_phase s w = Waiting"
  proof -
    from inv w obtain p where p: "ps_phase s p = Pulling" by (auto simp: pump_inv_def)
    with w have "notify_all ((ps_phase s)(p := Outside)) w = Told" by (auto simp: notify_all_def)
    with p releases [OF p] show ?thesis by blast
  qed
  ultimately show ?thesis by blast
qed

lemma one_task_pulls_demo:
  "\<exists>s. pump_step\<^sup>*\<^sup>* idle_pump s \<and> ps_phase s (1 :: nat) = Waiting \<and> (\<exists>p. ps_phase s p = Pulling)"
proof -
  define s1 :: "nat pump_state" where "s1 = idle_pump\<lparr>ps_pumping := True, ps_phase := (ps_phase idle_pump)(0 := Pulling)\<rparr>"
  define s2 where "s2 = s1\<lparr>ps_phase := (ps_phase s1)(1 := Waiting)\<rparr>"
  have "pump_step idle_pump s1" unfolding s1_def by (rule takes_pump) (simp_all add: idle_pump_def)
  moreover have "pump_step s1 s2" unfolding s2_def by (rule waits) (simp_all add: idle_pump_def s1_def)
  ultimately have reach: "pump_step\<^sup>*\<^sup>* idle_pump s2" by (blast intro: converse_rtranclp_into_rtranclp)
  have w: "ps_phase s2 1 = Waiting" by (simp add: s2_def)
  from one_task_pulls [OF reach, of 0 0 1] w have "\<exists>p. ps_phase s2 p = Pulling" by blast
  with reach w show ?thesis by blast
qed

section \<open>The output of a run\<close>

text \<open>The iterator of a finite graph: its parts, then an exception or the normal end.\<close>

definition parts_step :: "'d stream_part list \<times> py_exc option \<Rightarrow> 'd stream_part cursor_step \<times> 'd stream_part list \<times> py_exc option" where
  "parts_step g = (case g of (p # ps, e) \<Rightarrow> (Yield p, ps, e) | ([], Some e) \<Rightarrow> (Raise e, [], None) | ([], None) \<Rightarrow> (Stop, [], None))"

definition own_value :: "string list \<Rightarrow> 'd stream_part \<Rightarrow> bool" where
  "own_value scope p \<longleftrightarrow> spt_type p = ''values'' \<and> spt_ns p = scope"

definition interrupts_of :: "'d stream_part \<Rightarrow> 'd list" where
  "interrupts_of p = (case spt_interrupts p of None \<Rightarrow> [] | Some is \<Rightarrow> is)"

text \<open>What a run has seen: the last value, and all interrupts, of the own level.\<close>

definition run_seen :: "string list \<Rightarrow> 'd stream_part list \<Rightarrow> ('d, 's, 'g) run_stream \<Rightarrow> bool" where
  "run_seen scope ps r \<longleftrightarrow> mux_scope (rs_mux r) = scope \<and> (let own = filter (own_value scope) ps in
     rs_latest r = (if own = [] then None else Some (spt_data (last own))) \<and>
     rs_interrupts r = concat (map interrupts_of own) \<and> rs_interrupted r = (concat (map interrupts_of own) \<noteq> []))"

lemma log_event_keeps:
  "mux_channels (snd (log_event ev m)) = mux_channels m" "mux_push_seq m \<le> mux_push_seq (snd (log_event ev m))"
  "mux_attached (snd (log_event ev m)) = mux_attached m" "mux_owners (snd (log_event ev m)) = mux_owners m"
  "mux_scope (snd (log_event ev m)) = mux_scope m"
  by (auto simp: log_event_def Let_def split: sum.split)

lemma channel_push_cases:
  obtains "snd (channel_push i x m) = m"
  | c where "keep_item (mux_push_seq m + 1) x (mux_channels m ! i) = Inr c"
      "mux_channels (snd (channel_push i x m)) = (mux_channels m)[i := c]"
      "(if sch_subscribed c then mux_push_seq m + 1 else mux_push_seq m) \<le> mux_push_seq (snd (channel_push i x m))"
      "mux_attached (snd (channel_push i x m)) = mux_attached m" "mux_owners (snd (channel_push i x m)) = mux_owners m"
      "mux_scope (snd (channel_push i x m)) = mux_scope m"
proof (cases "keep_item (mux_push_seq m + 1) x (mux_channels m ! i)")
  case (Inl e)
  then show ?thesis by (intro that(1)) (simp add: channel_push_def)
next
  case (Inr c)
  let ?m = "m\<lparr>mux_channels := (mux_channels m)[i := c], mux_push_seq := (if sch_subscribed c then mux_push_seq m + 1 else mux_push_seq m)\<rparr>"
  have out: "snd (channel_push i x m) = (case sch_method c of None \<Rightarrow> ?m | Some method \<Rightarrow> snd (log_event (forward_event method x) ?m))"
    unfolding channel_push_def Inr sum.case Let_def by (cases "sch_method c") simp_all
  show ?thesis
  proof (rule that(2) [OF Inr])
  qed (use log_event_keeps [where m = ?m] in \<open>auto simp: out split: option.split\<close>)
qed

interpretation scoped: mux_invariant "\<lambda>m. mux_scope m = x" for x
proof unfold_locales
  fix m :: "('a, 'b) mux" and i y
  assume "mux_scope m = x"
  then show "mux_scope (snd (channel_push i y m)) = x" by (cases rule: channel_push_cases [of i y m]) simp_all
qed (simp_all add: log_event_keeps, simp add: set_state_def)

lemma push_scope [simp]: "mux_scope (snd (mux_push ev m)) = mux_scope m"
  by (rule scoped.mux_push_keeps) simp

lemma close_scope [simp]: "mux_scope (snd (mux_close m)) = mux_scope m"
  by (simp add: mux_close_def close_all_def case_prod_beta scoped.hooks_from_keeps)

lemma fail_scope [simp]: "mux_scope (mux_fail e m) = mux_scope m"
  by (simp add: mux_fail_def case_prod_beta scoped.hooks_from_keeps)

lemma run_seen_congruent:
  "mux_scope (rs_mux r') = mux_scope (rs_mux r) \<Longrightarrow> rs_latest r' = rs_latest r \<Longrightarrow> rs_interrupts r' = rs_interrupts r \<Longrightarrow>
   rs_interrupted r' = rs_interrupted r \<Longrightarrow> run_seen scope ps r' = run_seen scope ps r"
  by (simp add: run_seen_def)

lemma observed: "run_seen scope ps r \<Longrightarrow> run_seen scope (ps @ [p]) (observe_event (convert_to_protocol_event p) r)"
  by (auto simp: run_seen_def observe_event_def convert_to_protocol_event_def own_value_def interrupts_of_def Let_def)

lemma ended_run:
  assumes "end_run e r = (out, r')"
  shows "run_seen scope ps r' = run_seen scope ps r \<and> (out = Inr False \<and> (e = StopIteration \<or> sch_error (mux_events (rs_mux r')) = Some e) \<or> (\<exists>e1. out = Inl e1))"
proof (cases "e = StopIteration")
  case True
  obtain x m where close: "mux_close (rs_mux r) = (x, m)" by (cases "mux_close (rs_mux r)")
  with close_scope [of "rs_mux r"] have m: "mux_scope m = mux_scope (rs_mux r)" by simp
  show ?thesis
  proof (cases x)
    case None
    with True close assms have "out = Inr False" "r' = r\<lparr>rs_mux := m, rs_exhausted := True\<rparr>" by (simp_all add: end_run_def)
    with True m show ?thesis by (simp add: run_seen_def)
  next
    case (Some e1)
    with True close assms have "out = Inl e1" "r' = r\<lparr>rs_mux := m\<rparr>" by (simp_all add: end_run_def)
    with m show ?thesis by (simp add: run_seen_def)
  qed
next
  case False
  with assms have r': "out = Inr False" "r' = r\<lparr>rs_mux := mux_fail e (rs_mux r), rs_exhausted := True\<rparr>" by (simp_all add: end_run_def)
  have "sch_error (mux_events (mux_fail e (rs_mux r))) = Some e" by (simp add: mux_fail_def case_prod_beta fail_schan_def)
  with r' run_seen_congruent [of r' r] show ?thesis by simp
qed

text \<open>A transformer whose code does not raise \<open>StopIteration\<close>, which the pump takes for the end of the graph.\<close>

definition polite :: "('d, 's) transformer \<Rightarrow> bool" where
  "polite t \<longleftrightarrow> (\<forall>s ev. snd (snd (snd (tfm_process t s ev))) \<noteq> Inl StopIteration)"

definition polite_mux :: "('d, 's) mux \<Rightarrow> bool" where
  "polite_mux m \<longleftrightarrow> (\<forall>a \<in> set (mux_attached m). polite (at_code a))"

lemma set_state_codes: "map at_code (mux_attached (set_state j s m)) = map at_code (mux_attached m)"
  by (cases "j < length (mux_attached m)") (simp_all add: set_state_def map_update list_update_beyond list_update_same_conv)

lemma codes_polite: "map at_code (mux_attached m') = map at_code (mux_attached m) \<Longrightarrow> polite_mux m' = polite_mux m"
proof -
  assume "map at_code (mux_attached m') = map at_code (mux_attached m)"
  then have "at_code ` set (mux_attached m') = at_code ` set (mux_attached m)" by (metis set_map)
  then show ?thesis unfolding polite_mux_def by (metis (no_types, opaque_lifting) imageE image_eqI)
qed

interpretation coded: mux_invariant "\<lambda>m. map at_code (mux_attached m) = x" for x
proof unfold_locales
  fix m :: "('a, 'b) mux" and i y
  assume "map at_code (mux_attached m) = x"
  then show "map at_code (mux_attached (snd (channel_push i y m))) = x" by (cases rule: channel_push_cases [of i y m]) simp_all
qed (simp_all add: log_event_keeps set_state_codes)

lemma log_event_raises: "fst (log_event ev m) = None \<or> fst (log_event ev m) = Some RuntimeError"
  by (auto simp: log_event_def Let_def keep_item_def)

lemma log_event_no_stop: "fst (log_event ev m) \<noteq> Some StopIteration"
  using log_event_raises [of ev m] by auto

lemma channel_push_raises: "fst (channel_push i x m) = None \<or> fst (channel_push i x m) = Some RuntimeError"
  using log_event_raises by (auto simp: channel_push_def Let_def keep_item_def split: option.split)

lemma run_pushes_raises: "fst (run_pushes places ps m) \<noteq> Some StopIteration"
proof (induction ps arbitrary: m)
  case (Cons p ps)
  obtain k x where p: "p = (k, x)" by (cases p)
  show ?case
  proof (cases "dict_get places k")
    case (Some i)
    obtain e m1 where push: "channel_push i x m = (e, m1)" by (cases "channel_push i x m")
    with Cons.IH [of m1] channel_push_raises [of i x m] Some show ?thesis by (cases e) (simp_all add: p)
  qed (simp add: p)
qed simp

lemma process_from_raises:
  "polite_mux m \<Longrightarrow> n + j \<le> length (mux_attached m) \<Longrightarrow> fst (process_from n j keep ev m) \<noteq> Inl StopIteration"
proof (induction n arbitrary: j keep ev m)
  case (Suc n)
  let ?a = "mux_attached m ! j"
  obtain s ev1 ps r where code: "tfm_process (at_code ?a) (at_state ?a) ev = (s, ev1, ps, r)" by (metis prod_cases4)
  have "?a \<in> set (mux_attached m)" using Suc.prems(2) by simp
  with Suc.prems(1) code have r: "r \<noteq> Inl StopIteration" unfolding polite_mux_def polite_def by (metis snd_conv)
  obtain e m1 where run: "run_pushes (at_places ?a) ps (set_state j s m) = (e, m1)" by (cases "run_pushes (at_places ?a) ps (set_state j s m)")
  have m1: "map at_code (mux_attached m1) = map at_code (mux_attached m)"
    using coded.run_pushes_keeps [OF set_state_codes, of "at_places ?a" ps] run by (metis snd_conv)
  with codes_polite [OF m1] map_eq_imp_length_eq [OF m1] Suc.prems Suc.IH [of m1 "j + 1"] r run_pushes_raises [of "at_places ?a" ps "set_state j s m"] run code
  show ?case by (auto simp: Let_def split: option.split sum.split)
qed simp

lemma mux_push_raises: "polite_mux m \<Longrightarrow> fst (mux_push ev m) \<noteq> Some StopIteration"
  using process_from_raises [of m "length (mux_attached m)" 0 True ev]
  by (auto simp: mux_push_def log_event_no_stop split: prod.split sum.split)

lemma mux_push_polite: "polite_mux m \<Longrightarrow> polite_mux (snd (mux_push ev m))"
  using codes_polite [OF coded.mux_push_keeps [OF refl]] by blast

text \<open>The drive to the end of a finite graph.\<close>

lemma drive_ends:
  assumes "rs_iter r = Some (ps, err)" and "\<not> rs_exhausted r" and "run_seen scope before r" and "err \<noteq> Some StopIteration"
    and "polite_mux (rs_mux r)"
  shows "\<exists>out r'. drive_until_done (pump_next parts_step) r = Some (out, r') \<and>
    ((\<exists>e. out = Inl e) \<or> sch_error (mux_events (rs_mux r')) \<noteq> None \<or> (run_seen scope (before @ ps) r' \<and> err = None))"
  using assms
proof (induction ps arbitrary: r before)
  case Nil
  define e where "e = (case err of None \<Rightarrow> StopIteration | Some e \<Rightarrow> e)"
  let ?r = "r\<lparr>rs_iter := Some ([], None)\<rparr>"
  have pump: "pump_next parts_step r = end_run e ?r"
    using Nil by (cases err) (simp_all add: pump_next_def parts_step_def e_def)
  obtain out r' where run: "end_run e ?r = (out, r')" by (cases "end_run e ?r")
  have seen: "run_seen scope before r'" using ended_run [OF run, of scope before] Nil.prems(3) run_seen_congruent [of ?r r] by simp
  from ended_run [OF run, of scope before] consider e1 where "out = Inl e1" | "out = Inr False" "e = StopIteration \<or> sch_error (mux_events (rs_mux r')) = Some e" by blast
  then show ?case
  proof cases
    case 1
    with pump run show ?thesis by (intro exI [of _ "Inl e1"] exI [of _ r']) (simp add: drive_until_done.simps)
  next
    case 2
    have "sch_error (mux_events (rs_mux r')) \<noteq> None \<or> (run_seen scope (before @ []) r' \<and> err = None)"
      using 2(2) seen Nil.prems(4) by (cases err) (auto simp: e_def)
    with 2 pump run show ?thesis by (intro exI [of _ "Inr ()"] exI [of _ r']) (simp add: drive_until_done.simps)
  qed
next
  case (Cons p ps)
  let ?ev = "convert_to_protocol_event p"
  let ?r1 = "observe_event ?ev (r\<lparr>rs_iter := Some (ps, err)\<rparr>)"
  obtain x m where push: "mux_push ?ev (rs_mux ?r1) = (x, m)" by (cases "mux_push ?ev (rs_mux ?r1)")
  let ?r2 = "?r1\<lparr>rs_mux := m\<rparr>"
  have "run_seen scope before (r\<lparr>rs_iter := Some (ps, err)\<rparr>)" using Cons.prems(3) by (simp add: run_seen_def)
  from observed [OF this] have s1: "run_seen scope (before @ [p]) ?r1" .
  have "mux_scope m = mux_scope (rs_mux ?r1)" using push_scope [of ?ev "rs_mux ?r1"] push by simp
  with s1 have s2: "run_seen scope (before @ [p]) ?r2" by (simp add: run_seen_def)
  have polite: "polite_mux (rs_mux ?r1)" using Cons.prems(5) by (simp add: observe_event_def)
  with mux_push_polite [of "rs_mux ?r1" ?ev] push have p2: "polite_mux (rs_mux ?r2)" by simp
  have it: "rs_iter ?r2 = Some (ps, err)" "\<not> rs_exhausted ?r2" using Cons.prems(2) by (simp_all add: observe_event_def)
  show ?case
  proof (cases x)
    case None
    then have "pump_next parts_step r = (Inr True, ?r2)"
      using Cons.prems push by (simp add: pump_next_def parts_step_def Let_def)
    then have "drive_until_done (pump_next parts_step) r = drive_until_done (pump_next parts_step) ?r2"
      by (subst drive_until_done.simps) simp
    with Cons.IH [OF it s2 Cons.prems(4) p2] show ?thesis by simp
  next
    case (Some e)
    then have pump: "pump_next parts_step r = end_run e ?r2"
      using Cons.prems push by (simp add: pump_next_def parts_step_def Let_def)
    from polite mux_push_raises [of "rs_mux ?r1" ?ev] push Some have "e \<noteq> StopIteration" by simp
    then have "end_run e ?r2 = (Inr False, ?r2\<lparr>rs_mux := mux_fail e m, rs_exhausted := True\<rparr>)" by (simp add: end_run_def)
    moreover have "sch_error (mux_events (mux_fail e m)) = Some e" by (simp add: mux_fail_def case_prod_beta fail_schan_def)
    ultimately show ?thesis using pump
      by (intro exI [of _ "Inr ()"] exI [of _ "?r2\<lparr>rs_mux := mux_fail e m, rs_exhausted := True\<rparr>"]) (simp add: drive_until_done.simps)
  qed
qed

text \<open>Over a graph that ends, asking for the output ends, whatever the transformers do short of raising
  \<open>StopIteration\<close>: it raises what stopped the run, or else the graph has ended normally and the output is the
  last value of the run's own level, the interrupts those of all its values in order.\<close>

lemma output_is_last_value:
  assumes "\<forall>a \<in> set (mux_attached m). polite (at_code a)" and "err \<noteq> Some StopIteration"
  shows "case run_output parts_step (new_run_stream (Some (ps, err)) m) of
      None \<Rightarrow> False
    | Some (Inl e, r) \<Rightarrow> True
    | Some (Inr v, r) \<Rightarrow> err = None \<and>
        (let own = filter (own_value (mux_scope m)) ps in
         v = (if own = [] then None else Some (spt_data (last own))) \<and> rs_interrupts r = concat (map interrupts_of own))"
proof -
  let ?r = "new_run_stream (Some (ps, err)) m"
  have "run_seen (mux_scope m) [] ?r" by (simp add: run_seen_def new_run_stream_def Let_def)
  with assms obtain out r' where run: "drive_until_done (pump_next parts_step) ?r = Some (out, r')"
    and what: "(\<exists>e. out = Inl e) \<or> sch_error (mux_events (rs_mux r')) \<noteq> None \<or> (run_seen (mux_scope m) ([] @ ps) r' \<and> err = None)"
    using drive_ends [of ?r ps err "mux_scope m" "[]"] by (auto simp: new_run_stream_def polite_mux_def)
  show ?thesis
  proof (cases out)
    case (Inl e)
    with run show ?thesis by (simp add: run_output_def after_the_end_def)
  next
    case (Inr u)
    show ?thesis
    proof (cases "sch_error (mux_events (rs_mux r'))")
      case (Some e)
      with run Inr show ?thesis by (simp add: run_output_def after_the_end_def)
    next
      case None
      with what Inr have "run_seen (mux_scope m) ps r'" "err = None" by auto
      then show ?thesis using run Inr None by (simp add: run_output_def after_the_end_def run_seen_def Let_def)
    qed
  qed
qed

lemma register_all_codes: "register_all ts m = Inr m' \<Longrightarrow> map at_code (mux_attached m') = map at_code (mux_attached m) @ ts"
proof (induction ts arbitrary: m)
  case (Cons t ts)
  then obtain m1 where m1: "register_transformer t m = Inr m1" "register_all ts m1 = Inr m'" by (auto split: sum.splits)
  have "map at_code (mux_attached m1) = map at_code (mux_attached m) @ [t]"
    using m1(1) by (auto simp: register_transformer_def split: if_splits option.splits prod.splits)
  with Cons.IH [OF m1(2)] show ?case by simp
qed simp

text \<open>What a run shows when its transformers behave, and a graph that fails after two values.\<close>

definition demo_part :: "nat \<Rightarrow> nat stream_part" where
  "demo_part n = \<lparr>spt_type = ''values'', spt_ns = [], spt_data = n, spt_interrupts = Some [n + 1]\<rparr>"

lemma output_is_last_value_demo:
  "polite echo \<and> (case run_output parts_step (new_run_stream (Some ([demo_part 3, demo_part 4], Some OSError)) echo_mux) of
      None \<Rightarrow> False | Some (Inl e, r) \<Rightarrow> True | Some (Inr v, r) \<Rightarrow> False)"
proof -
  have polite: "polite echo" by (simp add: polite_def echo_def)
  have "register_all (before_first [echo]) (empty_mux False None [] True) = Inr echo_mux" using echo_mux_made by (simp add: make_mux_def)
  from register_all_codes [OF this] have "map at_code (mux_attached echo_mux) = [echo]" by (simp add: empty_mux_def before_first_def echo_def)
  then have "\<forall>a \<in> set (mux_attached echo_mux). polite (at_code a)" using polite by auto
  from output_is_last_value [OF this, of "Some OSError" "[demo_part 3, demo_part 4]"] polite show ?thesis
    by (auto simp: Let_def split: option.splits sum.splits)
qed

text \<open>The hooks of a run whose \<open>finalize\<close> raised run again when it is asked for more: it does not count as exhausted.\<close>

lemma failed_close_is_repeated:
  assumes "rs_iter r = Some g" and "\<not> rs_exhausted r" and "step g = (Stop, g1)" and "mux_close (rs_mux r) = (Some e, m)" and "step g1 = (Stop, g2)"
  shows "fst (pump_next step r) = Inl e"
    and "rs_mux (snd (pump_next step (snd (pump_next step r)))) = snd (mux_close m)"
  using assms by (simp_all add: pump_next_def end_run_def split: option.split prod.split)

text \<open>A scheduled task that raised leaves the asynchronous pump with its error, and the log open.\<close>

lemma scheduled_error_leaves_log_open:
  assumes "rs_iter r = Some g" and "\<not> rs_exhausted r" and "step g = (Stop, g1)" and "first_task_error pending = Some e"
  shows "apump_next pending step r = (Inl e, r\<lparr>rs_iter := Some g1, rs_exhausted := True\<rparr>)"
  using assms by (simp add: apump_next_def aclose_leaves_open)

section \<open>Interleaving keeps the order of arrival\<close>

text \<open>What the channels at the places \<open>I\<close> hold is newer than \<open>k\<close>.\<close>

definition beyond :: "nat \<Rightarrow> nat set \<Rightarrow> ('d, 's) mux \<Rightarrow> bool" where
  "beyond k I m \<longleftrightarrow> k \<le> mux_push_seq m \<and>
     (\<forall>i \<in> I. i < length (mux_channels m) \<longrightarrow> (\<forall>p \<in> set (sch_items (mux_channels m ! i)). k < fst p))"

text \<open>No two channels hold items of one stamp.\<close>

definition apart :: "('d, 's) mux \<Rightarrow> bool" where
  "apart m \<longleftrightarrow> stamps_ordered m \<and> (\<forall>i j. i < length (mux_channels m) \<longrightarrow> j < length (mux_channels m) \<longrightarrow> i \<noteq> j \<longrightarrow>
     fst ` set (sch_items (mux_channels m ! i)) \<inter> fst ` set (sch_items (mux_channels m ! j)) = {})"

definition layout :: "('d, 's) mux \<Rightarrow> (string \<times> string) list \<times> (string \<times> nat) list list \<times> nat" where
  "layout m = (mux_owners m, map at_places (mux_attached m), length (mux_channels m))"

lemma set_state_layout: "layout (set_state j s m) = layout m"
proof -
  have "map at_places ((mux_attached m)[j := (mux_attached m ! j)\<lparr>at_state := s\<rparr>]) = map at_places (mux_attached m)"
    by (cases "j < length (mux_attached m)") (simp_all add: map_update list_update_beyond list_update_same_conv)
  then show ?thesis by (simp add: layout_def set_state_def)
qed

interpretation placed: mux_invariant "\<lambda>m. layout m = x" for x
proof unfold_locales
  fix m :: "('a, 'b) mux" and i y
  assume "layout m = x"
  then show "layout (snd (channel_push i y m)) = x" by (cases rule: channel_push_cases [of i y m]) (simp_all add: layout_def)
qed (simp_all add: layout_def log_event_keeps, simp add: set_state_layout [unfolded layout_def])

lemma beyond_push:
  assumes "beyond k I m" shows "beyond k I (snd (channel_push i x m))"
proof (cases rule: channel_push_cases [of i x m])
  case (2 c)
  have "k < fst p" if j: "j \<in> I" "j < length (mux_channels m)" and p: "p \<in> set (sch_items ((mux_channels m)[i := c] ! j))" for j p
  proof (cases "j = i")
    case True
    then have "p \<in> set (sch_items c)" using p j by simp
    then have "p = (mux_push_seq m + 1, x) \<or> p \<in> set (sch_items (mux_channels m ! j))"
      using keep_item_cases [OF 2(1)] True by (auto split: if_splits)
    with assms j show ?thesis by (auto simp: beyond_def)
  next
    case False
    with p assms j show ?thesis by (simp add: beyond_def)
  qed
  moreover have "k \<le> mux_push_seq (snd (channel_push i x m))" using assms 2(3) by (auto simp: beyond_def split: if_splits)
  ultimately show ?thesis by (simp add: beyond_def 2(2))
qed (use assms in simp)

interpretation newer: mux_invariant "beyond k I" for k I
proof unfold_locales
  fix m :: "('a, 'b) mux" and ev
  assume "beyond k I m"
  then show "beyond k I (snd (log_event ev m))"
    using log_event_keeps(2) [of m ev] by (auto simp: beyond_def log_event_keeps(1))
next
  fix m :: "('a, 'b) mux" and j and s :: 'b
  assume "beyond k I m"
  then show "beyond k I (set_state j s m)" by (simp add: beyond_def set_state_def)
qed (rule beyond_push)

lemma disjoint_insert_sub: "A \<subseteq> insert a B \<Longrightarrow> a \<notin> C \<Longrightarrow> B \<inter> C = {} \<Longrightarrow> A \<inter> C = {}"
  by blast

lemma disjoint_subsets: "A \<inter> B = {} \<Longrightarrow> A' \<subseteq> A \<Longrightarrow> B' \<subseteq> B \<Longrightarrow> A' \<inter> B' = {}"
  by blast

lemma apartD:
  "apart m \<Longrightarrow> i < length (mux_channels m) \<Longrightarrow> j < length (mux_channels m) \<Longrightarrow> i \<noteq> j \<Longrightarrow>
   fst ` set (sch_items (mux_channels m ! i)) \<inter> fst ` set (sch_items (mux_channels m ! j)) = {}"
  by (simp add: apart_def)

lemma apart_push:
  assumes "apart m" shows "apart (snd (channel_push i x m))"
proof (cases rule: channel_push_cases [of i x m])
  case (2 c)
  have items: "fst ` set (sch_items c) \<subseteq> insert (mux_push_seq m + 1) (fst ` set (sch_items (mux_channels m ! i)))"
    using keep_item_cases [OF 2(1)] by (auto split: if_splits)
  have old: "s \<le> mux_push_seq m" if "j < length (mux_channels m)" "s \<in> fst ` set (sch_items (mux_channels m ! j))" for j s
    using assms that by (auto simp: apart_def stamps_ordered_def stamped_def)
  have other: "fst ` set (sch_items c) \<inter> fst ` set (sch_items (mux_channels m ! j)) = {}"
    if j: "i < length (mux_channels m)" "j < length (mux_channels m)" "j \<noteq> i" for j
  proof -
    have "mux_push_seq m + 1 \<notin> fst ` set (sch_items (mux_channels m ! j))" using old [OF j(2)] by force
    moreover have "fst ` set (sch_items (mux_channels m ! i)) \<inter> fst ` set (sch_items (mux_channels m ! j)) = {}"
      by (rule apartD [OF assms j(1,2) j(3) [symmetric]])
    ultimately show ?thesis using disjoint_insert_sub [OF items] by simp
  qed
  have "fst ` set (sch_items ((mux_channels m)[i := c] ! a)) \<inter> fst ` set (sch_items ((mux_channels m)[i := c] ! b)) = {}"
    if ab: "a < length (mux_channels m)" "b < length (mux_channels m)" "a \<noteq> b" for a b
  proof -
    consider "a = i" | "b = i" | "a \<noteq> i" "b \<noteq> i" by blast
    then show ?thesis
    proof cases
      case 1
      with other [of b] ab show ?thesis by simp
    next
      case 2
      with other [of a] ab show ?thesis by (simp add: Int_commute)
    next
      case 3
      then have "(mux_channels m)[i := c] ! a = mux_channels m ! a" "(mux_channels m)[i := c] ! b = mux_channels m ! b" by simp_all
      with apartD [OF assms ab] show ?thesis by simp
    qed
  qed
  then show ?thesis using stamps_channel_push [of m i x] assms unfolding apart_def by (simp add: 2(2))
qed (use assms in simp)

interpretation separate: mux_invariant apart
proof unfold_locales
  fix m :: "('a, 'b) mux" and ev
  assume "apart m"
  then show "apart (snd (log_event ev m))"
    using stamps_log_event by (auto simp: apart_def log_event_keeps(1))
next
  fix m :: "('a, 'b) mux" and j and s :: 'b
  assume "apart m"
  then show "apart (set_state j s m)"
    using stamps.stated [of m j s] by (simp add: apart_def set_state_def)
qed (rule apart_push)

text \<open>What the pump and the generator keep, and the bound the next yields have.\<close>

definition merging :: "(string \<times> nat) list \<Rightarrow> string list \<Rightarrow> nat \<Rightarrow> ('d, 's) mux \<Rightarrow> bool" where
  "merging chs fin k m \<longleftrightarrow> apart m \<and> (\<forall>(name, i) \<in> set chs. i < length (mux_channels m)) \<and>
     beyond k {i. \<exists>name. (name, i) \<in> set chs \<and> name \<notin> set fin} m"

lemma same_items:
  assumes "apart m" and "\<And>c. sch_items (f c) = sch_items c" and "sch_items ev = sch_items (mux_events m)"
  shows "apart (m\<lparr>mux_channels := map f (mux_channels m), mux_events := ev\<rparr>)"
    and "beyond k I m \<Longrightarrow> beyond k I (m\<lparr>mux_channels := map f (mux_channels m), mux_events := ev\<rparr>)"
  using assms stamps_close [of m f ev] by (simp_all add: apart_def beyond_def)

lemma merging_ops:
  assumes "merging chs fin k m"
  shows "merging chs fin k (snd (mux_push ev m))" and "merging chs fin k (snd (mux_close m))" and "merging chs fin k (mux_fail e m)"
proof -
  let ?I = "{i. \<exists>name. (name, i) \<in> set chs \<and> name \<notin> set fin}"
  from assms have a: "apart m" and l: "\<forall>(name, i) \<in> set chs. i < length (mux_channels m)" and b: "beyond k ?I m"
    by (simp_all add: merging_def)
  have len: "length (mux_channels m') = length (mux_channels m)" if "layout m' = layout m" for m' :: "('a, 'b) mux"
    using that by (simp add: layout_def)
  have l1: "length (mux_channels (snd (mux_push ev m))) = length (mux_channels m)" by (rule len, rule placed.mux_push_keeps) simp
  have l2: "length (mux_channels (snd (hooks_from hook n j m))) = length (mux_channels m)" for hook n j
    by (rule len, rule placed.hooks_from_keeps) simp
  show "merging chs fin k (snd (mux_push ev m))"
    using separate.mux_push_keeps [OF a] newer.mux_push_keeps [OF b] l by (simp add: merging_def l1)
  have h: "apart (snd (hooks_from hook n j m))" "beyond k ?I (snd (hooks_from hook n j m))" for hook n j
    using separate.hooks_from_keeps [OF a] newer.hooks_from_keeps [OF b] by blast+
  show "merging chs fin k (snd (mux_close m))"
    using same_items(1) [OF h(1), where f = close_open] same_items(2) [OF h(1) _ _ h(2), where f = close_open] l
    by (simp add: merging_def mux_close_def close_all_def case_prod_beta l2)
  show "merging chs fin k (mux_fail e m)"
    using same_items(1) [OF h(1), where f = "fail_open e"] same_items(2) [OF h(1) _ _ h(2), where f = "fail_open e"] l
    by (simp add: merging_def mux_fail_def case_prod_beta l2)
qed

lemma end_run_mux: "rs_mux (snd (end_run e r)) = (if e = StopIteration then snd (mux_close (rs_mux r)) else mux_fail e (rs_mux r))"
  by (simp add: end_run_def split: option.split prod.split)

lemma observe_mux [simp]: "rs_mux (observe_event ev r) = rs_mux r"
  by (simp add: observe_event_def)

lemma merging_pump: "merging chs fin k (rs_mux r) \<Longrightarrow> merging chs fin k (rs_mux (snd (pump_next step r)))"
  using merging_ops [of chs fin k "rs_mux r"]
proof (cases "rs_exhausted r \<or> rs_iter r = None")
  case True
  assume "merging chs fin k (rs_mux r)"
  with True show ?thesis by (auto simp: pump_next_def)
next
  case False
  assume m: "merging chs fin k (rs_mux r)"
  from False obtain g where g: "rs_iter r = Some g" by blast
  obtain s g1 where s: "step g = (s, g1)" by (cases "step g")
  show ?thesis
  proof (cases s)
    case (Yield part)
    let ?ev = "convert_to_protocol_event part"
    obtain x m1 where push: "mux_push ?ev (rs_mux r) = (x, m1)" by (cases "mux_push ?ev (rs_mux r)")
    with merging_ops(1) [OF m, of ?ev] have "merging chs fin k m1" by simp
    then show ?thesis using False g s Yield push merging_ops(2,3) [of chs fin k m1]
      by (cases x) (simp_all add: pump_next_def Let_def end_run_mux)
  next
    case (Raise e)
    with False g s merging_ops(2,3) [OF m] show ?thesis by (simp add: pump_next_def end_run_mux)
  next
    case Stop
    with False g s merging_ops(2,3) [OF m] show ?thesis by (simp add: pump_next_def end_run_mux)
  qed
qed

lemma merging_fewer: "merging chs fin k m \<Longrightarrow> set fin \<subseteq> set fin' \<Longrightarrow> merging chs fin' k m"
  by (auto simp: merging_def beyond_def)

text \<open>What one look finds: an item at the head of a channel that is not done, no younger than the head of any such channel.\<close>

lemma scan_finds:
  "scan_channels chs m fin best = Inr (fin', best') \<Longrightarrow>
   set fin \<subseteq> set fin' \<and>
   (case best' of
      None \<Rightarrow> best = None
    | Some (k, name, i) \<Rightarrow>
        (best = Some (k, name, i) \<or> ((name, i) \<in> set chs \<and> name \<notin> set fin \<and> (\<exists>x rest. sch_items (mux_channels m ! i) = (k, x) # rest))) \<and>
        (\<forall>b q. best = Some (b, q) \<longrightarrow> k \<le> b) \<and>
        (\<forall>(n, j) \<in> set chs. n \<notin> set fin' \<longrightarrow> (\<forall>s x rest. sch_items (mux_channels m ! j) = (s, x) # rest \<longrightarrow> k \<le> s)))"
proof (induction chs arbitrary: fin best)
  case Nil
  then show ?case by (auto split: option.split)
next
  case (Cons c chs)
  obtain name i where c: "c = (name, i)" by (cases c)
  show ?case
  proof (cases "name \<in> set fin")
    case True
    with Cons.prems have "scan_channels chs m fin best = Inr (fin', best')" by (simp add: c Let_def)
    from Cons.IH [OF this] True show ?thesis by (auto simp: c split: option.splits)
  next
    case False
    show ?thesis
    proof (cases "sch_items (mux_channels m ! i)")
      case Nil
      show ?thesis
      proof (cases "sch_closed (mux_channels m ! i)")
        case True
        with Cons.prems False Nil have "scan_channels chs m (name # fin) best = Inr (fin', best')"
          by (simp add: c Let_def split: option.splits)
        from Cons.IH [OF this] Nil show ?thesis by (auto simp: c split: option.splits)
      next
        case cl: False
        with Cons.prems False Nil have "scan_channels chs m fin best = Inr (fin', best')" by (simp add: c Let_def)
        from Cons.IH [OF this] Nil show ?thesis by (auto simp: c split: option.splits)
      qed
    next
      case (Cons p rest)
      obtain k0 x where p: "p = (k0, x)" by (cases p)
      define b1 where "b1 = (case best of None \<Rightarrow> Some (k0, name, i) | Some (b, q) \<Rightarrow> if k0 < b then Some (k0, name, i) else best)"
      from Cons.prems False Cons p have scan: "scan_channels chs m fin b1 = Inr (fin', best')" by (simp add: c Let_def b1_def)
      obtain b q where bq: "b1 = Some (b, q)" "b \<le> k0" "\<And>b0 q0. best = Some (b0, q0) \<Longrightarrow> b \<le> b0"
        "b1 = Some (k0, name, i) \<or> b1 = best"
      proof (cases best)
        case None
        then show ?thesis by (intro that [of k0 "(name, i)"]) (simp_all add: b1_def)
      next
        case (Some y)
        obtain b q where y: "y = (b, q)" by (cases y)
        show ?thesis
        proof (cases "k0 < b")
          case True
          with Some y show ?thesis by (intro that [of k0 "(name, i)"]) (simp_all add: b1_def)
        next
          case False
          with Some y show ?thesis by (intro that [of b q]) (simp_all add: b1_def)
        qed
      qed
      from Cons.IH [OF scan] bq(1) obtain k n j where best': "best' = Some (k, n, j)" by (cases best') auto
      from Cons.IH [OF scan] bq best' Cons p False show ?thesis by (auto simp: c dest: order_trans)
    qed
  qed
qed

lemma taking_keeps:
  assumes m: "merging chs fin k m" and "(name, i) \<in> set chs" and "name \<notin> set fin" and items: "sch_items (mux_channels m ! i) = (s, x) # rest"
    and least: "\<forall>(n, j) \<in> set chs. n \<notin> set fin1 \<longrightarrow> (\<forall>t y r. sch_items (mux_channels m ! j) = (t, y) # r \<longrightarrow> s \<le> t)"
  shows "k < s \<and> merging chs fin1 s (m\<lparr>mux_channels := (mux_channels m)[i := (mux_channels m ! i)\<lparr>sch_items := rest\<rparr>]\<rparr>)"
proof -
  let ?c = "(mux_channels m ! i)\<lparr>sch_items := rest\<rparr>" and ?m = "m\<lparr>mux_channels := (mux_channels m)[i := (mux_channels m ! i)\<lparr>sch_items := rest\<rparr>]\<rparr>"
  let ?I = "{i. \<exists>name. (name, i) \<in> set chs \<and> name \<notin> set fin1}"
  from m have a: "apart m" and l: "\<forall>(name, i) \<in> set chs. i < length (mux_channels m)"
    and b: "beyond k {i. \<exists>name. (name, i) \<in> set chs \<and> name \<notin> set fin} m" by (simp_all add: merging_def)
  from l assms(2) have i: "i < length (mux_channels m)" by auto
  from a have so: "stamps_ordered m" by (simp add: apart_def)
  have st: "stamped (mux_push_seq m) (mux_channels m ! j)" if "j < length (mux_channels m)" for j using so that by (simp add: stamps_ordered_def)
  have sub: "set (sch_items (mux_channels ?m ! p)) \<subseteq> set (sch_items (mux_channels m ! p))" for p
    using items i by (cases "p = i") auto
  from b i assms(2,3) items have "k < s" by (auto simp: beyond_def)
  moreover have "s \<le> mux_push_seq m" using st [OF i] items by (auto simp: stamped_def)
  moreover have "stamps_ordered ?m" using stamps_update_channel [OF so i] stamped_rest [OF items] by blast
  moreover have "fst ` set (sch_items (mux_channels ?m ! p)) \<inter> fst ` set (sch_items (mux_channels ?m ! q)) = {}"
    if "p < length (mux_channels m)" "q < length (mux_channels m)" "p \<noteq> q" for p q
    by (rule disjoint_subsets [OF apartD [OF a that] image_mono [OF sub] image_mono [OF sub]])
  moreover have "s < t" if j: "j \<in> ?I" "j < length (mux_channels m)" and t: "(t, y) \<in> set (sch_items (mux_channels ?m ! j))" for j t y
  proof (cases "j = i")
    case True
    with t i st [OF i] items show ?thesis by (auto simp: stamped_def)
  next
    case False
    with t have old: "(t, y) \<in> set (sch_items (mux_channels m ! j))" by simp
    then obtain s1 y1 r1 where hd: "sch_items (mux_channels m ! j) = (s1, y1) # r1" by (cases "sch_items (mux_channels m ! j)") auto
    from least j(1) hd have "s \<le> s1" by blast
    moreover have "s1 \<noteq> s" using apartD [OF a i j(2)] False hd items by auto
    moreover have "s1 \<le> t" using st [OF j(2)] old hd by (auto simp: stamped_def)
    ultimately show ?thesis by simp
  qed
  ultimately show ?thesis using l by (fastforce simp: merging_def apart_def beyond_def)
qed

definition run_put :: "('d, 's) mux \<Rightarrow> ('d, 's, 'g) run_stream \<Rightarrow> ('d, 's, 'g) run_stream" where
  "run_put m r = r\<lparr>rs_mux := m\<rparr>"

definition merge_spec :: "(string \<times> nat) list \<Rightarrow> string list \<Rightarrow> ('d, 's, 'g) run_stream \<Rightarrow> (nat \<times> string \<times> 'd) cursor_step \<times> string list \<times> ('d, 's, 'g) run_stream \<Rightarrow> bool" where
  "merge_spec chs fin r out \<longleftrightarrow> (\<forall>k s name x. merging chs fin k (rs_mux r) \<longrightarrow> fst out = Yield (s, name, x) \<longrightarrow>
     k < s \<and> name \<in> fst ` set chs \<and> merging chs (fst (snd out)) s (rs_mux (snd (snd out))))"

lemma merge_spec_later:
  assumes "merge_spec chs fin1 r1 out" and "set fin \<subseteq> set fin1" and "\<And>k. merging chs fin1 k (rs_mux r) \<Longrightarrow> merging chs fin1 k (rs_mux r1)"
  shows "merge_spec chs fin r out"
  unfolding merge_spec_def
proof (intro allI impI)
  fix k s name x
  assume m: "merging chs fin k (rs_mux r)" and y: "fst out = Yield (s, name, x)"
  from assms(3) [OF merging_fewer [OF m assms(2)]] y assms(1) show
    "k < s \<and> name \<in> fst ` set chs \<and> merging chs (fst (snd out)) s (rs_mux (snd (snd out)))" by (simp add: merge_spec_def)
qed

lemma finish_grows: "finish_channels chs m fin = Inr fin' \<Longrightarrow> set fin \<subseteq> set fin'"
proof (induction chs arbitrary: fin)
  case (Cons c chs)
  obtain name i where c: "c = (name, i)" by (cases c)
  from Cons.prems have "finish_channels chs m fin = Inr fin' \<or> finish_channels chs m (name # fin) = Inr fin'"
    by (auto simp: c Let_def split: if_splits option.splits)
  with Cons.IH show ?case by fastforce
qed simp

lemma merge_spec_taken:
  assumes "scan_channels chs (rs_mux r) fin None = Inr (fin1, Some (s, name, i))"
  shows "merge_spec chs fin r
    (Yield (s, name, snd (hd (sch_items (mux_channels (rs_mux r) ! i)))), fin1,
     run_put ((rs_mux r)\<lparr>mux_channels := (mux_channels (rs_mux r))[i := (mux_channels (rs_mux r) ! i)\<lparr>sch_items := tl (sch_items (mux_channels (rs_mux r) ! i))\<rparr>]\<rparr>) r)"
proof -
  from scan_finds [OF assms] obtain x rest where found: "set fin \<subseteq> set fin1" "(name, i) \<in> set chs" "name \<notin> set fin"
      "sch_items (mux_channels (rs_mux r) ! i) = (s, x) # rest"
      "\<forall>(n, j) \<in> set chs. n \<notin> set fin1 \<longrightarrow> (\<forall>t y q. sch_items (mux_channels (rs_mux r) ! j) = (t, y) # q \<longrightarrow> s \<le> t)"
    by auto
  have "k < s \<and> merging chs fin1 s ((rs_mux r)\<lparr>mux_channels := (mux_channels (rs_mux r))[i := (mux_channels (rs_mux r) ! i)\<lparr>sch_items := rest\<rparr>]\<rparr>)"
    if "merging chs fin k (rs_mux r)" for k
    by (rule taking_keeps [OF that found(2-5)])
  moreover have "name \<in> fst ` set chs" using found(2) by force
  ultimately show ?thesis using found(4) by (simp add: merge_spec_def run_put_def)
qed

lemma interleave_step:
  fixes r :: "('d, 's, 'g) run_stream"
  assumes "interleave_next rs_mux run_put (Some (pump_next step)) chs fin r = Some out"
  shows "merge_spec chs fin r out"
proof -
  have "get = rs_mux \<longrightarrow> put = run_put \<longrightarrow> pump = Some (pump_next step) \<longrightarrow> merge_spec chs fin r out"
    if "interleave_next get put pump chs fin r = Some out"
    for get put pump chs fin and r :: "('d, 's, 'g) run_stream" and out
    using that
  proof (rule interleave_next.raw_induct [rotated], intro impI)
    fix f :: "(('d, 's, 'g) run_stream \<Rightarrow> ('d, 's) mux) \<Rightarrow> (('d, 's) mux \<Rightarrow> ('d, 's, 'g) run_stream \<Rightarrow> ('d, 's, 'g) run_stream) \<Rightarrow>
       (('d, 's, 'g) run_stream \<Rightarrow> bool result \<times> ('d, 's, 'g) run_stream) option \<Rightarrow> (string \<times> nat) list \<Rightarrow> string list \<Rightarrow> ('d, 's, 'g) run_stream \<Rightarrow>
       ((nat \<times> string \<times> 'd) cursor_step \<times> string list \<times> ('d, 's, 'g) run_stream) option"
    fix get put pump chs fin r out
    assume IH: "\<And>get put pump chs fin r out. f get put pump chs fin r = Some out \<Longrightarrow>
        get = rs_mux \<longrightarrow> put = run_put \<longrightarrow> pump = Some (pump_next step) \<longrightarrow> merge_spec chs fin r out"
      and body: "(if length chs \<le> length fin then Some (Stop, fin, r)
        else (case scan_channels chs (get r) fin None of
              Inl e \<Rightarrow> Some (Raise e, fin, r)
            | Inr (fin1, Some (k, name, i)) \<Rightarrow>
                (let c = mux_channels (get r) ! i
                 in Some (Yield (k, name, snd (hd (sch_items c))), fin1,
                          put ((get r)\<lparr>mux_channels := (mux_channels (get r))[i := c\<lparr>sch_items := tl (sch_items c)\<rparr>]\<rparr>) r))
            | Inr (fin1, None) \<Rightarrow>
                (case (case pump of None \<Rightarrow> (Inr False, r) | Some f \<Rightarrow> f r) of
                   (Inl e, r1) \<Rightarrow> Some (Raise e, fin1, r1)
                 | (Inr produced, r1) \<Rightarrow>
                     if produced then f get put pump chs fin1 r1
                     else (case finish_channels chs (get r1) fin1 of
                             Inl e \<Rightarrow> Some (Raise e, fin1, r1)
                           | Inr fin2 \<Rightarrow> if length fin2 = length fin1 then Some (Stop, fin2, r1) else f get put pump chs fin2 r1)))) = Some out"
      and args: "get = rs_mux" "put = run_put" "pump = Some (pump_next step)"
    obtain p r1 where pump: "pump_next step r = (p, r1)" by (cases "pump_next step r")
    have pumped: "merging chs fin1 k (rs_mux r) \<Longrightarrow> merging chs fin1 k (rs_mux r1)" for fin1 k
      using merging_pump [of chs fin1 k r step] pump by simp
    have none: "merge_spec chs fin r out" if "\<And>y. fst out \<noteq> Yield y" using that by (simp add: merge_spec_def)
    show "merge_spec chs fin r out"
    proof (cases "length chs \<le> length fin")
      case True
      with body none show ?thesis by auto
    next
      case False
      show ?thesis
      proof (cases "scan_channels chs (rs_mux r) fin None")
        case (Inl e)
        with False body args none show ?thesis by auto
      next
        case (Inr q)
        obtain fin1 b where q: "q = (fin1, b)" by (cases q)
        show ?thesis
        proof (cases b)
          case (Some kni)
          obtain k name i where kni: "kni = (k, name, i)" by (metis prod_cases3)
          with False body args Inr q Some merge_spec_taken [of chs r fin fin1 k name i] show ?thesis by (simp add: Let_def)
        next
          case None
          from scan_finds [OF Inr [unfolded q]] have more: "set fin \<subseteq> set fin1" by simp
          note later = merge_spec_later [OF _ _ pumped]
          show ?thesis
          proof (cases p)
            case (Inl e)
            with False body args \<open>scan_channels chs (rs_mux r) fin None = Inr q\<close> q None pump none show ?thesis by auto
          next
            case p: (Inr produced)
            show ?thesis
            proof (cases produced)
              case True
              with False body args Inr q None pump p have "f rs_mux run_put (Some (pump_next step)) chs fin1 r1 = Some out" by simp
              from later [OF IH [OF this, simplified] more] show ?thesis .
            next
              case idle: False
              show ?thesis
              proof (cases "finish_channels chs (rs_mux r1) fin1")
                case (Inl e)
                with False body args Inr q None pump p idle have "out = (Raise e, fin1, r1)" by simp
                with none show ?thesis by simp
              next
                case fin2: (Inr fin2)
                show ?thesis
                proof (cases "length fin2 = length fin1")
                  case True
                  with False body args Inr q None pump p idle fin2 have "out = (Stop, fin2, r1)" by simp
                  with none show ?thesis by simp
                next
                  case grown: False
                  with False body args Inr q None pump p idle fin2 have "f rs_mux run_put (Some (pump_next step)) chs fin2 r1 = Some out" by simp
                  from later [OF IH [OF this, simplified]] more finish_grows [OF fin2] show ?thesis by blast
                qed
              qed
            qed
          qed
        qed
      qed
    qed
  qed
  with assms show ?thesis by blast
qed

text \<open>The first \<open>n\<close> items of the generator, with their stamps.\<close>

fun interleave_take ::
  "('g \<Rightarrow> 'd stream_part cursor_step \<times> 'g) \<Rightarrow> (string \<times> nat) list \<Rightarrow> nat \<Rightarrow> string list \<Rightarrow> ('d, 's, 'g) run_stream \<Rightarrow> (nat \<times> string \<times> 'd) list option" where
  "interleave_take step chs 0 fin r = Some []"
| "interleave_take step chs (Suc n) fin r =
     (case interleave rs_mux run_put (Some (pump_next step)) chs fin r of
        None \<Rightarrow> None
      | Some (Yield y, fin1, r1) \<Rightarrow> map_option (\<lambda>ys. y # ys) (interleave_take step chs n fin1 r1)
      | Some (_, fin1, r1) \<Rightarrow> Some [])"

lemma take_ordered:
  "merging chs fin k (rs_mux r) \<Longrightarrow> interleave_take step chs n fin r = Some ys \<Longrightarrow>
   sorted_wrt (<) (k # map fst ys) \<and> (fst \<circ> snd) ` set ys \<subseteq> fst ` set chs"
proof (induction n arbitrary: fin k r ys)
  case (Suc n)
  show ?case
  proof (cases "interleave_next rs_mux run_put (Some (pump_next step)) chs fin r")
    case None
    with Suc.prems show ?thesis by (simp add: interleave_def)
  next
    case (Some out)
    obtain st fin1 r1 where out: "out = (st, fin1, r1)" by (metis prod_cases3)
    show ?thesis
    proof (cases st)
      case (Yield y)
      obtain s name x where y: "y = (s, name, x)" by (metis prod_cases3)
      from Suc.prems(2) Some out Yield obtain zs where zs: "interleave_take step chs n fin1 r1 = Some zs" "ys = y # zs"
        by (auto simp: interleave_def)
      from interleave_step [OF Some] Suc.prems(1) out Yield y
      have s: "k < s" "name \<in> fst ` set chs" "merging chs fin1 s (rs_mux r1)" by (auto simp: merge_spec_def)
      from Suc.IH [OF s(3) zs(1)] s(1,2) zs(2) y show ?thesis by (auto intro: less_trans)
    qed (use Suc.prems(2) Some out in \<open>auto simp: interleave_def\<close>)
  qed
qed simp

text \<open>The projections of a mux lie in its channels.\<close>

definition well_placed :: "('d, 's) mux \<Rightarrow> bool" where
  "well_placed m \<longleftrightarrow> (\<forall>p \<in> set (mux_attached m). \<forall>(k, i) \<in> set (at_places p). i < length (mux_channels m))"

lemma bind_and_wire_places:
  "bind_and_wire async native ps chs = (chs', pl) \<Longrightarrow> length chs \<le> length chs' \<and> (\<forall>(k, i) \<in> set pl. i < length chs')"
proof (induction async native ps chs arbitrary: pl rule: bind_and_wire.induct)
  case (3 async native k name ps chs)
  then show ?case by (fastforce split: prod.splits)
qed auto

lemma register_transformer_placed: "register_transformer t m = Inr m' \<Longrightarrow> well_placed m \<Longrightarrow> well_placed m'"
  by (fastforce simp: register_transformer_def well_placed_def split: if_splits option.splits prod.splits dest!: bind_and_wire_places)

lemma register_all_placed: "register_all ts m = Inr m' \<Longrightarrow> well_placed m \<Longrightarrow> well_placed m'"
proof (induction ts arbitrary: m)
  case (Cons t ts)
  then obtain m1 where m1: "register_transformer t m = Inr m1" "register_all ts m1 = Inr m'" by (auto split: sum.splits)
  from Cons.IH [OF m1(2) register_transformer_placed [OF m1(1) Cons.prems(2)]] show ?case .
qed simp

lemma made_mux:
  assumes "make_mux ts async fs scope assign = Inr m"
  shows "well_placed m" and "merging [] [] 0 m" and "\<forall>c \<in> set (mux_channels m). sch_items c = []"
proof -
  from assms obtain m1 where m1: "register_all (case fs of None \<Rightarrow> [] | Some gs \<Rightarrow> before_first (map (\<lambda>f. f scope) gs)) (empty_mux async fs scope assign) = Inr m1"
    "register_all (before_first ts) m1 = Inr m" by (auto simp: make_mux_def split: sum.splits)
  show "well_placed m"
    using register_all_placed [OF m1(2) register_all_placed [OF m1(1)]] by (simp add: well_placed_def empty_mux_def)
  show fresh: "\<forall>c \<in> set (mux_channels m). sch_items c = []"
    using register_all_fresh [OF m1(2) register_all_fresh [OF m1(1)]] by (simp add: empty_mux_def)
  from fresh register_all_log [OF m1(1)] register_all_log [OF m1(2)] show "merging [] [] 0 m"
    by (simp add: merging_def apart_def beyond_def stamps_ordered_def stamped_def empty_mux_def new_schan_def)
qed

text \<open>A projection reached from the attached transformers has a place.\<close>

lemma channel_of_placed: "channel_of k m = Inr i \<Longrightarrow> well_placed m \<Longrightarrow> i < length (mux_channels m)"
  by (fastforce simp: channel_of_def well_placed_def dest: map_of_SomeD split: if_splits option.splits)

lemma merging_subscribed: "merging chs fin k m \<Longrightarrow> merging chs fin k (set_subscribed b i m)"
proof -
  assume m: "merging chs fin k m"
  have items: "sch_items (mux_channels (set_subscribed b i m) ! j) = sch_items (mux_channels m ! j)" for j
    by (cases "i = j"; cases "i < length (mux_channels m)") (simp_all add: set_subscribed_def list_update_beyond)
  have len: "length (mux_channels (set_subscribed b i m)) = length (mux_channels m)" "mux_push_seq (set_subscribed b i m) = mux_push_seq m"
    "mux_events (set_subscribed b i m) = mux_events m"
    by (simp_all add: set_subscribed_def)
  have ok: "stamps_ordered m" using m by (simp add: merging_def apart_def)
  then have "stamped (mux_push_seq m) (mux_channels m ! j)" if "j < length (mux_channels m)" for j
    using that by (simp add: stamps_ordered_def)
  then have "stamped (mux_push_seq m) (mux_channels (set_subscribed b i m) ! j)" if "j < length (mux_channels m)" for j
    using that unfolding stamped_def items by simp
  with ok have "stamps_ordered (set_subscribed b i m)"
    unfolding stamps_ordered_def len by (auto simp: in_set_conv_nth len)
  with m show ?thesis by (simp add: merging_def apart_def beyond_def items len)
qed

lemma subscribed_placed: "well_placed m \<Longrightarrow> well_placed (set_subscribed b i m)"
  by (simp add: well_placed_def set_subscribed_def)

lemma locked:
  "lock_channels names chs m = (Inr chs', m') \<Longrightarrow> well_placed m \<Longrightarrow> \<forall>(n, i) \<in> set chs. i < length (mux_channels m) \<Longrightarrow>
   (\<forall>(n, i) \<in> set chs'. i < length (mux_channels m)) \<and> fst ` set chs' = fst ` set chs \<union> set names \<and>
   (\<forall>bound fin k. merging bound fin k m \<longrightarrow> merging bound fin k m')"
proof (induction names arbitrary: chs m)
  case (Cons name names)
  from Cons.prems(1) obtain i where i: "channel_of name m = Inr i" "lock_channels names (chs @ [(name, i)]) (set_subscribed True i m) = (Inr chs', m')"
    by (auto split: sum.splits if_splits)
  from channel_of_placed [OF i(1) Cons.prems(2)] Cons.prems(3)
    have "\<forall>(n, j) \<in> set (chs @ [(name, i)]). j < length (mux_channels (set_subscribed True i m))" by (auto simp: set_subscribed_def)
  from Cons.IH [OF i(2) subscribed_placed [OF Cons.prems(2)] this] merging_subscribed [of _ _ _ m True i]
  show ?case by (auto simp: set_subscribed_def)
qed simp

text \<open>A run whose pump has been asked \<open>n\<close> times.\<close>

fun pump_times :: "('g \<Rightarrow> 'd stream_part cursor_step \<times> 'g) \<Rightarrow> nat \<Rightarrow> ('d, 's, 'g) run_stream \<Rightarrow> ('d, 's, 'g) run_stream" where
  "pump_times step 0 r = r"
| "pump_times step (Suc n) r = pump_times step n (snd (pump_next step r))"

lemma close_layout: "layout (snd (mux_close m)) = layout m"
proof -
  have "layout (snd (hooks_from tfm_finalize (length (mux_attached m)) 0 m)) = layout m" by (rule placed.hooks_from_keeps) simp
  then show ?thesis by (simp add: mux_close_def close_all_def case_prod_beta layout_def)
qed

lemma fail_layout: "layout (mux_fail e m) = layout m"
proof -
  have "layout (snd (hooks_from (\<lambda>t. tfm_fail t e) (length (mux_attached m)) 0 m)) = layout m" by (rule placed.hooks_from_keeps) simp
  then show ?thesis by (simp add: mux_fail_def case_prod_beta layout_def)
qed

lemma push_layout: "mux_push ev m = (x, m') \<Longrightarrow> layout m' = layout m"
  using placed.mux_push_keeps [of m "layout m" ev] by simp

lemma pump_layout: "layout (rs_mux (snd (pump_next step r))) = layout (rs_mux r)"
  by (auto simp: pump_next_def Let_def end_run_mux close_layout fail_layout dest: push_layout split: option.split prod.splits cursor_step.split)

lemma layout_placed: "layout m' = layout m \<Longrightarrow> well_placed m \<Longrightarrow> well_placed m' \<and> length (mux_channels m') = length (mux_channels m)"
proof -
  assume l: "layout m' = layout m" and w: "well_placed m"
  from l have "at_places ` set (mux_attached m') = at_places ` set (mux_attached m)" and len: "length (mux_channels m') = length (mux_channels m)"
    by (simp_all add: layout_def) (metis list.set_map)
  with w show ?thesis unfolding well_placed_def len by (metis (no_types, lifting) image_iff)
qed

lemma pumped_run:
  "layout (rs_mux (pump_times step n r)) = layout (rs_mux r) \<and>
   (merging chs fin k (rs_mux r) \<longrightarrow> merging chs fin k (rs_mux (pump_times step n r)))"
  by (induction n arbitrary: r) (simp_all add: pump_layout merging_pump)

text \<open>Interleaving gives the items in the order in which they were pushed: whatever transformers the mux is made with and
  however often the run has been pumped before, what \<open>interleave\<close> yields over the locked channels carries strictly increasing
  stamps, and each item comes under a name that was asked for.\<close>

lemma interleaved_in_push_order:
  assumes "make_mux ts async fs scope assign = Inr m0" and "r = pump_times step k (new_run_stream it m0)"
    and "lock_channels names [] (rs_mux r) = (Inr chs, m1)" and "interleave_take step chs n [] (run_put m1 r) = Some ys"
  shows "sorted_wrt (<) (map fst ys) \<and> (fst \<circ> snd) ` set ys \<subseteq> set names"
proof -
  have lay: "layout (rs_mux r) = layout m0" using pumped_run [of step k "new_run_stream it m0"] by (simp add: assms(2) new_run_stream_def)
  from layout_placed [OF lay made_mux(1) [OF assms(1)]] have placed: "well_placed (rs_mux r)"
    and len: "length (mux_channels (rs_mux r)) = length (mux_channels m0)" by simp_all
  from locked [OF assms(3) placed] have chs: "\<forall>(n, i) \<in> set chs. i < length (mux_channels (rs_mux r))" "fst ` set chs = set names"
    and keep: "\<And>bound fin k. merging bound fin k (rs_mux r) \<Longrightarrow> merging bound fin k m1" by auto
  have "merging chs [] 0 m0" using made_mux(2,3) [OF assms(1)] chs(1) by (auto simp: merging_def beyond_def len)
  then have "merging chs [] 0 (rs_mux (run_put m1 r))"
    using pumped_run [of step k "new_run_stream it m0" chs "[]" 0] keep by (simp add: assms(2) new_run_stream_def run_put_def)
  from take_ordered [OF this assms(4)] chs(2) show ?thesis by simp
qed

declare interleave_next.simps [code]

lemma interleaved_demo:
  "case lock_channels [''echo''] [] echo_mux of
     (Inr chs, m1) \<Rightarrow> interleave_take parts_step chs 5 [] (new_run_stream (Some ([demo_part 7, demo_part 8], None)) m1) = Some [(1, ''echo'', 7), (2, ''echo'', 8)]
   | _ \<Rightarrow> False"
  by code_simp

end
