(* ===== verification/Context.thy ===== *)
theory Context
  imports Messages Text
begin

text \<open>
  \<open>robot_agent/context.py\<close>: the context manager of a conversation. Below the high watermark the
  history is passed on with its summary; above it the older turns are summarised by a model and
  archived; when that fails a hard window is cut. What the module calls outside itself (token
  counter, trimmer, model, fixed wordings) is the record \<open>deps\<close> and the argument \<open>model\<close>.
\<close>

section \<open>Policy\<close>

record context_policy =
  high_watermark_tokens :: int
  recent_window_tokens :: int
  max_summary_tokens :: int
  hard_limit_tokens :: int
  summary_batch_tokens :: int

text \<open>\<open>__post_init__\<close>: every field a positive int that is no bool, then the three relations.\<close>

fun positive_int :: "pyval \<Rightarrow> int option" where
  "positive_int (PInt i) = (if i \<le> 0 then None else Some i)"
| "positive_int _ = None"

fun positive_ints :: "pyval list \<Rightarrow> int list result" where
  "positive_ints [] = Inr []"
| "positive_ints (v # vs) =
     (case positive_int v of
        None \<Rightarrow> Inl ValueError
      | Some i \<Rightarrow> (case positive_ints vs of Inl e \<Rightarrow> Inl e | Inr is \<Rightarrow> Inr (i # is)))"

definition policy_ok :: "context_policy \<Rightarrow> bool" where
  "policy_ok p \<longleftrightarrow>
     recent_window_tokens p < high_watermark_tokens p \<and>
     high_watermark_tokens p \<le> hard_limit_tokens p \<and>
     recent_window_tokens p + max_summary_tokens p < high_watermark_tokens p"

definition make_context_policy :: "pyval \<Rightarrow> pyval \<Rightarrow> pyval \<Rightarrow> pyval \<Rightarrow> pyval \<Rightarrow> context_policy result" where
  "make_context_policy high recent summ hard batch =
     (case positive_ints [high, recent, summ, hard, batch] of
        Inl e \<Rightarrow> Inl e
      | Inr is \<Rightarrow>
          (let p = \<lparr>high_watermark_tokens = is ! 0, recent_window_tokens = is ! 1, max_summary_tokens = is ! 2,
                    hard_limit_tokens = is ! 3, summary_batch_tokens = is ! 4\<rparr>
           in if policy_ok p then Inr p else Inl ValueError))"

definition default_policy :: context_policy where
  "default_policy = \<lparr>high_watermark_tokens = 10000, recent_window_tokens = 5000, max_summary_tokens = 1000,
     hard_limit_tokens = 50000, summary_batch_tokens = 3000\<rparr>"

text \<open>Environment: \<open>environ\<close> is \<open>os.environ\<close> after the \<open>.env\<close> file has been merged into it.\<close>

definition env_positive_int :: "(string, string) dict \<Rightarrow> string \<Rightarrow> int \<Rightarrow> int result" where
  "env_positive_int environ name dflt =
     (case dict_get environ name of
        None \<Rightarrow> Inr dflt
      | Some raw \<Rightarrow>
          if strip raw = [] then Inr dflt
          else (case py_int raw of
                  None \<Rightarrow> Inl ValueError
                | Some v \<Rightarrow> if v \<le> 0 then Inl ValueError else Inr v))"

definition load_context_policy_from_env :: "(string, string) dict \<Rightarrow> context_policy result" where
  "load_context_policy_from_env environ =
     (case env_positive_int environ ''CONTEXT_HIGH_WATERMARK_TOKENS'' (high_watermark_tokens default_policy) of
        Inl e \<Rightarrow> Inl e | Inr high \<Rightarrow>
     (case env_positive_int environ ''CONTEXT_RECENT_WINDOW_TOKENS'' (recent_window_tokens default_policy) of
        Inl e \<Rightarrow> Inl e | Inr recent \<Rightarrow>
     (case env_positive_int environ ''CONTEXT_MAX_SUMMARY_TOKENS'' (max_summary_tokens default_policy) of
        Inl e \<Rightarrow> Inl e | Inr summ \<Rightarrow>
     (case env_positive_int environ ''CONTEXT_HARD_LIMIT_TOKENS'' (hard_limit_tokens default_policy) of
        Inl e \<Rightarrow> Inl e | Inr hard \<Rightarrow>
     (case env_positive_int environ ''CONTEXT_SUMMARY_BATCH_TOKENS'' (summary_batch_tokens default_policy) of
        Inl e \<Rightarrow> Inl e | Inr batch \<Rightarrow>
          make_context_policy (PInt high) (PInt recent) (PInt summ) (PInt hard) (PInt batch))))))"

section \<open>Collaborators\<close>

text \<open>
  \<open>tok\<close> is \<open>count_tokens_approximately\<close> and \<open>trimmer\<close> is \<open>trim_messages\<close> with the options of
  this module, both of langchain_core; \<open>text_of\<close> its \<open>message.text\<close>. The other fields are the
  texts of the source that 8-bit strings cannot hold, as functions of what is put into them.
\<close>

record context_deps =
  tok :: "message list \<Rightarrow> nat"
  trimmer :: "message list \<Rightarrow> int \<Rightarrow> message list result"
  text_of :: "message \<Rightarrow> string"
  float_digits :: "rat \<Rightarrow> string"
  summary_prompt :: "string \<Rightarrow> string"
  summarize_prompt :: "string \<Rightarrow> string \<Rightarrow> string"
  non_text_block :: "string \<Rightarrow> string"
  non_text_value :: "string \<Rightarrow> string"
  omitted_args :: string

text \<open>The documented law of the counter: the sum of a per-message count.\<close>

definition additive :: "context_deps \<Rightarrow> bool" where
  "additive d \<longleftrightarrow> tok d [] = 0 \<and> (\<forall>xs ys. tok d (xs @ ys) = tok d xs + tok d ys)"

definition summary_message :: "context_deps \<Rightarrow> string \<Rightarrow> message" where
  "summary_message d summary = \<lparr>role = SystemRole, msg_id = None,
     content = PStr (summary_prompt d (json_dumps (float_digits d) (PStr summary))), msg_name = None,
     tool_calls = [], tool_call_id = None, status = None\<rparr>"

definition inject_summary :: "context_deps \<Rightarrow> message list \<Rightarrow> string \<Rightarrow> message list" where
  "inject_summary d ms summary =
     (if summary = [] then ms
      else (let n = leading_system ms in take n ms @ [summary_message d summary] @ drop n ms))"

section \<open>Records for the summariser\<close>

text \<open>\<open>type(v).__name__\<close>.\<close>

fun type_name :: "pyval \<Rightarrow> string" where
  "type_name PNone = ''NoneType''"
| "type_name (PBool _) = ''bool''"
| "type_name (PInt _) = ''int''"
| "type_name (PFloat _) = ''float''"
| "type_name (PStr _) = ''str''"
| "type_name (PList _) = ''list''"
| "type_name (PDict _) = ''dict''"

fun safe_block :: "context_deps \<Rightarrow> pyval \<Rightarrow> string" where
  "safe_block d (PStr s) = s"
| "safe_block d (PDict b) =
     (if dict_get b ''type'' = Some (PStr ''text'')
      then py_str (float_digits d) (dict_getd b ''text'' (PStr []))
      else non_text_block d (take 64 (py_str (float_digits d) (dict_getd b ''type'' (PStr ''non_text'')))))"
| "safe_block d v = non_text_value d (type_name v)"

fun safe_content :: "context_deps \<Rightarrow> pyval \<Rightarrow> string" where
  "safe_content d (PStr s) = s"
| "safe_content d (PList bs) = join [CHR 0x0A] (map (safe_block d) bs)"
| "safe_content d v = py_repr (float_digits d) v"

definition opt_str :: "string option \<Rightarrow> pyval" where
  "opt_str s = (case s of None \<Rightarrow> PNone | Some t \<Rightarrow> PStr t)"

text \<open>A tool call is a dict of these four keys.\<close>

definition tool_call_dict :: "tool_call \<Rightarrow> pyval" where
  "tool_call_dict c = PDict [(''name'', PStr (call_name c)), (''args'', PDict (call_args c)),
     (''id'', opt_str (call_id c)), (''type'', PStr ''tool_call'')]"

definition safe_tool_calls :: "context_deps \<Rightarrow> tool_call list \<Rightarrow> pyval" where
  "safe_tool_calls d calls =
     (let v = PList (map tool_call_dict calls) in
      if length (json_dumps (float_digits d) v) \<le> 4096 then v
      else PList (map (\<lambda>c. PDict [(''name'', PStr (take 128 (call_name c))),
                                 (''id'', PStr (take 128 (py_str (float_digits d) (opt_str (call_id c))))),
                                 (''args'', PDict [(''note'', PStr (omitted_args d))])])
                     (take 32 calls)))"

fun role_name :: "role \<Rightarrow> string" where
  "role_name HumanRole = ''human''"
| "role_name AIRole = ''ai''"
| "role_name SystemRole = ''system''"
| "role_name ToolRole = ''tool''"
| "role_name RemoveRole = ''remove''"

definition message_record :: "context_deps \<Rightarrow> message \<Rightarrow> pydict" where
  "message_record d m =
     [(''role'', PStr (role_name (role m))), (''content'', PStr (safe_content d (content m)))]
     @ (case msg_name m of Some n \<Rightarrow> if n \<noteq> [] then [(''name'', PStr n)] else [] | None \<Rightarrow> [])
     @ (if role m = AIRole \<and> tool_calls m \<noteq> [] then [(''tool_calls'', safe_tool_calls d (tool_calls m))] else [])
     @ (if role m = ToolRole
        then (''tool_call_id'', opt_str (tool_call_id m)) #
             (case status m of Some s \<Rightarrow> if s \<noteq> [] then [(''status'', PStr s)] else [] | None \<Rightarrow> [])
        else [])"

text \<open>Over-long contents are cut into chunks of \<open>4 * max_tokens\<close> characters, numbered from 1.\<close>

definition record_pieces :: "nat \<Rightarrow> pydict \<Rightarrow> pydict list" where
  "record_pieces max_chars r =
     (case dict_get r ''content'' of
        Some (PStr s) \<Rightarrow>
          if length s > max_chars
          then map (\<lambda>(k, c). dict_set ''chunk'' (PStr (nat_str (Suc k))) (dict_set ''content'' (PStr c) r))
                 (enumerate 0 (chunks max_chars s))
          else [r]
      | _ \<Rightarrow> [r])"

fun batch_records :: "nat \<Rightarrow> ('r \<Rightarrow> nat) \<Rightarrow> 'r list \<Rightarrow> 'r list \<Rightarrow> nat \<Rightarrow> 'r list list" where
  "batch_records max_chars size_of [] cur n = (if cur \<noteq> [] then [cur] else [])"
| "batch_records max_chars size_of (r # rs) cur n =
     (if cur \<noteq> [] \<and> n + size_of r > max_chars
      then cur # batch_records max_chars size_of rs [r] (size_of r)
      else batch_records max_chars size_of rs (cur @ [r]) (n + size_of r))"

definition records_to_batches :: "context_deps \<Rightarrow> message list \<Rightarrow> int \<Rightarrow> pydict list list" where
  "records_to_batches d ms max_tokens =
     (let max_chars = nat (max_tokens * 4);
          records = concat (map (\<lambda>m. record_pieces max_chars (message_record d m)) ms)
      in batch_records max_chars (\<lambda>r. length (json_dumps (float_digits d) (PDict r))) records [] 0)"

section \<open>Groups and the split\<close>

definition results_of :: "message \<Rightarrow> message list \<Rightarrow> message list" where
  "results_of m ms = takeWhile (\<lambda>t. role t = ToolRole \<and> tool_call_id t \<in> set (map call_id (tool_calls m))) ms"

function atomic_groups :: "message list \<Rightarrow> message list list" where
  "atomic_groups [] = []"
| "atomic_groups (m # ms) =
     (if role m = AIRole \<and> tool_calls m \<noteq> []
      then (m # results_of m ms) # atomic_groups (drop (length (results_of m ms)) ms)
      else [m] # atomic_groups ms)"
  by pat_completeness auto
termination by (relation "measure length") auto

text \<open>The window grows backwards over whole groups while it fits the budget.\<close>

fun grow_window :: "(message list \<Rightarrow> nat) \<Rightarrow> message list list \<Rightarrow> int \<Rightarrow> nat \<Rightarrow> nat \<Rightarrow> nat" where
  "grow_window tk groups budget 0 kept = 0"
| "grow_window tk groups budget (Suc k) kept =
     (if int (kept + tk (groups ! k)) > budget then Suc k
      else grow_window tk groups budget k (kept + tk (groups ! k)))"

definition has_human :: "message list \<Rightarrow> bool" where
  "has_human g \<longleftrightarrow> (\<exists>m \<in> set g. role m = HumanRole)"

definition keep_from :: "context_deps \<Rightarrow> message list \<Rightarrow> message list list \<Rightarrow> int \<Rightarrow> nat" where
  "keep_from d leading groups recent_window =
     (let turn_from = (case last_index has_human groups of None \<Rightarrow> length groups | Some i \<Rightarrow> i);
          budget = max 1 (recent_window - int (tok d leading));
          k = length groups - 1
      in min (grow_window (tok d) groups budget k (tok d (groups ! k))) turn_from)"

definition split_old_and_recent :: "context_deps \<Rightarrow> message list \<Rightarrow> int \<Rightarrow> message list \<times> message list" where
  "split_old_and_recent d ms recent_window =
     (let n = leading_system ms; leading = take n ms; groups = atomic_groups (drop n ms) in
      if length groups \<le> 1 then ([], ms)
      else (let k = keep_from d leading groups recent_window in
            (concat (take k groups), leading @ concat (drop k groups))))"

section \<open>The rolling summary\<close>

definition summary_marker :: string where
  "summary_marker = ''CONTEXT_SUMMARY_V1''"

definition parse_summary :: "context_deps \<Rightarrow> context_policy \<Rightarrow> message \<Rightarrow> string result" where
  "parse_summary d p response =
     (if role response = AIRole \<and> tool_calls response \<noteq> [] then Inl ValueError
      else (let txt = strip (text_of d response); (first, found, rest) = partition_at (CHR 0x0A) txt in
            if strip first \<noteq> summary_marker \<or> \<not> found \<or> strip rest = [] then Inl ValueError
            else (let summary = strip rest in
                  if int (tok d [summary_message d summary]) > max_summary_tokens p then Inl ValueError
                  else Inr summary)))"

text \<open>The model is a function of the number of the call, the prompt and the output budget.\<close>

fun roll_batches ::
  "context_deps \<Rightarrow> context_policy \<Rightarrow> (nat \<Rightarrow> string \<Rightarrow> int \<Rightarrow> message result) \<Rightarrow> int \<Rightarrow> nat \<Rightarrow> pydict list list \<Rightarrow> string
     \<Rightarrow> string result" where
  "roll_batches d p model budget i [] summary = Inr summary"
| "roll_batches d p model budget i (b # bs) summary =
     (case model i (summarize_prompt d (json_dumps (float_digits d) (PStr summary))
                      (json_dumps (float_digits d) (PList (map PDict b)))) budget of
        Inl e \<Rightarrow> Inl e
      | Inr response \<Rightarrow>
          (case parse_summary d p response of
             Inl e \<Rightarrow> Inl e
           | Inr summary' \<Rightarrow> roll_batches d p model budget (Suc i) bs summary'))"

definition roll_summary ::
  "context_deps \<Rightarrow> context_policy \<Rightarrow> (nat \<Rightarrow> string \<Rightarrow> int \<Rightarrow> message result) \<Rightarrow> string \<Rightarrow> message list \<Rightarrow> string result" where
  "roll_summary d p model previous old =
     (let budget = max_summary_tokens p - int (tok d [summary_message d []]) in
      if budget \<le> 0 then Inl ValueError
      else roll_batches d p model budget 0 (records_to_batches d old (summary_batch_tokens p)) previous)"

section \<open>The hard window\<close>

text \<open>The leading system messages after the required prefix, each kept when it still fits.\<close>

fun fit_systems :: "context_deps \<Rightarrow> int \<Rightarrow> message list \<Rightarrow> message list \<Rightarrow> nat \<Rightarrow> message list \<times> nat" where
  "fit_systems d hard [] prefix n = (prefix, n)"
| "fit_systems d hard (m # ms) prefix n =
     (if int (n + tok d [m]) \<le> hard then fit_systems d hard ms (prefix @ [m]) (n + tok d [m])
      else fit_systems d hard ms prefix n)"

text \<open>The fall-back: whole groups from the end while they fit; the first that does not ends it.\<close>

fun keep_groups :: "(message list \<Rightarrow> nat) \<Rightarrow> int \<Rightarrow> nat \<Rightarrow> message list list \<Rightarrow> message list list" where
  "keep_groups tk budget used [] = []"
| "keep_groups tk budget used (g # gs) =
     (if int (tk g) > budget - int used then [] else g # keep_groups tk budget (used + tk g) gs)"

definition atomic_tail :: "context_deps \<Rightarrow> int \<Rightarrow> message list \<Rightarrow> message list" where
  "atomic_tail d budget rest = concat (rev (keep_groups (tok d) budget 0 (rev (atomic_groups rest))))"

definition trim_llm_input_messages :: "context_deps \<Rightarrow> message list \<Rightarrow> int \<Rightarrow> int \<Rightarrow> message list result" where
  "trim_llm_input_messages d ms preserve_prefix hard =
     (if hard \<le> 0 then Inl ValueError
      else if preserve_prefix < 0 then Inl ValueError
      else if preserve_prefix > int (length ms) then Inl ValueError
      else (let pp = nat preserve_prefix in
        if \<not> list_all is_system (take pp ms) then Inl ValueError
        else if int (tok d (take pp ms)) > hard then Inl ValueError
        else (let systems = takeWhile is_system (drop pp ms); rest = drop (pp + length systems) ms;
                  (prefix, n) = fit_systems d hard systems (take pp ms) (tok d (take pp ms));
                  budget = hard - int n
              in if budget \<le> 0 \<or> rest = [] then Inr prefix
                 else if int (tok d rest) \<le> budget then Inr (prefix @ rest)
                 else (case trimmer d rest budget of
                         Inr t \<Rightarrow> if int (tok d t) > budget then Inr (prefix @ atomic_tail d budget rest)
                                  else Inr (prefix @ t)
                       | Inl _ \<Rightarrow> Inr (prefix @ atomic_tail d budget rest)))))"

definition hard_window :: "context_deps \<Rightarrow> message list \<Rightarrow> string \<Rightarrow> int \<Rightarrow> message list result" where
  "hard_window d ms summary hard =
     (let prepared = inject_summary d ms summary in
      trim_llm_input_messages d prepared (int (leading_system prepared)) hard)"

section \<open>prepare_context\<close>

text \<open>The fields of \<open>RobotState\<close> (\<open>robot_agent/state.py\<close>) that the conversation uses; a counter that
  is missing reads as 0, a missing summary as the empty text.\<close>

record robot_state =
  messages :: "message list"
  context_summary :: string
  context_compaction_count :: int
  context_archived_messages :: int
  context_compaction_failures :: int

record context_update =
  up_messages :: "message list option"
  up_summary :: "string option"
  up_count :: "int option"
  up_archived :: "int option"
  up_failures :: "int option"

definition no_update :: context_update where
  "no_update = \<lparr>up_messages = None, up_summary = None, up_count = None, up_archived = None, up_failures = None\<rparr>"

record prepared_context =
  prepared_messages :: "message list"
  state_update :: context_update

definition remove_all_marker :: message where
  "remove_all_marker = plain_message RemoveRole remove_all_messages []"

definition with_update :: "message list result \<Rightarrow> context_update \<Rightarrow> prepared_context result" where
  "with_update r u = (case r of Inl e \<Rightarrow> Inl e | Inr ms \<Rightarrow> Inr \<lparr>prepared_messages = ms, state_update = u\<rparr>)"

text \<open>What is done above the watermark: summarise and archive, or fall back to the hard window.\<close>

definition compact :: "context_deps \<Rightarrow> context_policy \<Rightarrow> (nat \<Rightarrow> string \<Rightarrow> int \<Rightarrow> message result) \<Rightarrow> robot_state
     \<Rightarrow> string \<Rightarrow> message list \<Rightarrow> message list \<Rightarrow> prepared_context result" where
  "compact d p model st previous old recent =
     (case roll_summary d p model previous old of
        Inl _ \<Rightarrow> with_update (hard_window d (messages st) previous (hard_limit_tokens p))
                   (no_update\<lparr>up_failures := Some (context_compaction_failures st + 1)\<rparr>)
      | Inr summary \<Rightarrow>
          (let prepared = inject_summary d recent summary;
               final = (if int (tok d prepared) > hard_limit_tokens p
                        then hard_window d recent summary (hard_limit_tokens p) else Inr prepared)
           in with_update final
                (no_update\<lparr>up_messages := Some (remove_all_marker # recent), up_summary := Some summary,
                   up_count := Some (context_compaction_count st + 1),
                   up_archived := Some (context_archived_messages st + int (length old))\<rparr>)))"

definition effective_watermark :: "context_policy \<Rightarrow> int \<Rightarrow> int" where
  "effective_watermark p reserved = max 1 (high_watermark_tokens p - reserved)"

definition prepare_context ::
  "context_deps \<Rightarrow> context_policy \<Rightarrow> (nat \<Rightarrow> string \<Rightarrow> int \<Rightarrow> message result) option \<Rightarrow> context_policy option \<Rightarrow> int
     \<Rightarrow> robot_state \<Rightarrow> prepared_context result" where
  "prepare_context d fallback model policy reserved st =
     (if reserved < 0 then Inl ValueError
      else (let previous = strip (context_summary st) in
        case (policy, model) of
          (Some p, Some md) \<Rightarrow>
            (let current = inject_summary d (messages st) previous; mark = effective_watermark p reserved in
             if int (tok d current) \<le> mark then Inr \<lparr>prepared_messages = current, state_update = no_update\<rparr>
             else (let window = max 1 (min (recent_window_tokens p) (mark - max_summary_tokens p));
                       (old, recent) = split_old_and_recent d (messages st) window
                   in if old = []
                      then with_update (hard_window d (messages st) previous (hard_limit_tokens p)) no_update
                      else compact d p md st previous old recent))
        | _ \<Rightarrow>
            (let hard = (case policy of Some p \<Rightarrow> hard_limit_tokens p | None \<Rightarrow> hard_limit_tokens fallback)
             in with_update (hard_window d (messages st) previous hard) no_update)))"

text \<open>Applying the update: \<open>messages\<close> through its reducer, every other field by assignment.\<close>

definition apply_update :: "(nat \<Rightarrow> string) \<Rightarrow> context_update \<Rightarrow> robot_state \<Rightarrow> robot_state result" where
  "apply_update fresh u st =
     (case (case up_messages u of None \<Rightarrow> Inr (messages st)
              | Some ms \<Rightarrow> add_messages id id fresh None (Many (messages st)) (Many ms)) of
        Inl e \<Rightarrow> Inl e
      | Inr ms \<Rightarrow>
          (let keep = (\<lambda>new old. case new of None \<Rightarrow> old | Some v \<Rightarrow> v) in
           Inr \<lparr>messages = ms,
                context_summary = (case up_summary u of None \<Rightarrow> context_summary st | Some s \<Rightarrow> s),
                context_compaction_count = keep (up_count u) (context_compaction_count st),
                context_archived_messages = keep (up_archived u) (context_archived_messages st),
                context_compaction_failures = keep (up_failures u) (context_compaction_failures st)\<rparr>))"

section \<open>Atomic groups\<close>

lemma atomic_groups_concat: "concat (atomic_groups ms) = ms"
proof (induction ms rule: atomic_groups.induct)
  case 1
  then show ?case by simp
next
  case (2 m ms)
  have "results_of m ms @ drop (length (results_of m ms)) ms = ms"
    by (simp add: results_of_def flip: dropWhile_eq_drop)
  with 2 show ?case by auto
qed

text \<open>A group is one message, or an AI message with the results of its own calls.\<close>

definition atomic_group :: "message list \<Rightarrow> bool" where
  "atomic_group g \<longleftrightarrow> (\<exists>m ts. g = m # ts \<and>
     (ts = [] \<or> role m = AIRole \<and> list_all (\<lambda>t. role t = ToolRole \<and> tool_call_id t \<in> set (map call_id (tool_calls m))) ts))"

lemma atomic_groups_wf: "g \<in> set (atomic_groups ms) \<Longrightarrow> atomic_group g"
proof (induction ms rule: atomic_groups.induct)
  case 1
  then show ?case by simp
next
  case (2 m ms)
  have "list_all (\<lambda>t. role t = ToolRole \<and> tool_call_id t \<in> set (map call_id (tool_calls m))) (results_of m ms)"
    by (auto simp: results_of_def list_all_iff dest: set_takeWhileD)
  with 2 show ?case by (auto simp: atomic_group_def split: if_splits)
qed

text \<open>No group begins with a result of the calls that end the group before it.\<close>

fun separated :: "message list list \<Rightarrow> bool" where
  "separated (g # h # gs) \<longleftrightarrow>
     \<not> (role (hd g) = AIRole \<and> role (hd h) = ToolRole \<and> tool_call_id (hd h) \<in> set (map call_id (tool_calls (hd g))))
     \<and> separated (h # gs)"
| "separated _ \<longleftrightarrow> True"

lemma atomic_groups_hd: "ms \<noteq> [] \<Longrightarrow> \<exists>ts gs. atomic_groups ms = (hd ms # ts) # gs"
  by (cases ms) auto

lemma atomic_groups_separated: "separated (atomic_groups ms)"
proof (induction ms rule: atomic_groups.induct)
  case 1
  then show ?case by simp
next
  case (2 m ms)
  let ?ai = "role m = AIRole \<and> tool_calls m \<noteq> []"
  define rest where "rest = (if ?ai then drop (length (results_of m ms)) ms else ms)"
  define g where "g = (if ?ai then m # results_of m ms else [m])"
  have eq: "atomic_groups (m # ms) = g # atomic_groups rest" by (simp add: g_def rest_def)
  have IH: "separated (atomic_groups rest)" using 2 by (simp add: rest_def)
  show ?case
  proof (cases "rest = []")
    case True
    then show ?thesis unfolding eq by simp
  next
    case False
    obtain ts gs where h: "atomic_groups rest = (hd rest # ts) # gs" using atomic_groups_hd [OF False] by blast
    have "\<not> (role m = AIRole \<and> role (hd rest) = ToolRole \<and> tool_call_id (hd rest) \<in> set (map call_id (tool_calls m)))"
    proof
      assume a: "role m = AIRole \<and> role (hd rest) = ToolRole \<and> tool_call_id (hd rest) \<in> set (map call_id (tool_calls m))"
      then have "?ai" by auto
      then have "rest = dropWhile (\<lambda>t. role t = ToolRole \<and> tool_call_id t \<in> set (map call_id (tool_calls m))) ms"
        by (simp add: rest_def results_of_def dropWhile_eq_drop)
      with False hd_dropWhile [of "\<lambda>t. role t = ToolRole \<and> tool_call_id t \<in> set (map call_id (tool_calls m))" ms] a
      show False by simp
    qed
    with IH h show ?thesis unfolding eq by (simp add: g_def)
  qed
qed

text \<open>Atomic groups: cutting a history into groups loses and reorders nothing; every group is a
  single message or an AI message with results of its own tool calls; and no group starts with a
  result that belongs to the calls of the group before it.\<close>

theorem atomic_groups_correct:
  "concat (atomic_groups ms) = ms \<and> list_all atomic_group (atomic_groups ms) \<and> separated (atomic_groups ms)"
  by (simp add: atomic_groups_concat atomic_groups_separated list_all_iff atomic_groups_wf)

section \<open>The split\<close>

lemma leading_take_drop: "take (leading_system ms) ms = takeWhile is_system ms"
  "drop (leading_system ms) ms = dropWhile is_system ms"
  by (simp_all add: leading_system_def flip: takeWhile_eq_take dropWhile_eq_drop)

lemma keep_from_le_turn: "last_index has_human groups = Some i \<Longrightarrow> keep_from d leading groups w \<le> i"
  by (simp add: keep_from_def Let_def)

lemma has_human_concat: "has_human (concat gs) \<longleftrightarrow> (\<exists>g \<in> set gs. has_human g)"
  by (auto simp: has_human_def)

lemma human_kept:
  assumes "has_human (concat groups)"
  shows "has_human (concat (drop (keep_from d leading groups w) groups))"
proof -
  obtain i where i: "last_index has_human groups = Some i"
    using assms last_index_None_iff [of has_human groups] by (auto simp: has_human_concat)
  let ?k = "keep_from d leading groups w"
  have le: "?k \<le> i" "i < length groups" "has_human (groups ! i)"
    using keep_from_le_turn [OF i] last_index_SomeD [OF i] by auto
  then have "groups ! i = drop ?k groups ! (i - ?k)" "i - ?k < length (drop ?k groups)" by auto
  then have "groups ! i \<in> set (drop ?k groups)" by (metis nth_mem)
  with le(3) show ?thesis by (auto simp: has_human_concat)
qed

text \<open>The two halves of a split.\<close>

lemma split_keeps_turn:
  assumes "split_old_and_recent d ms w = (old, recent)"
  shows "\<exists>k tail. old = concat (take k (atomic_groups (dropWhile is_system ms))) \<and>
      tail = concat (drop k (atomic_groups (dropWhile is_system ms))) \<and>
      recent = takeWhile is_system ms @ tail \<and>
      takeWhile is_system ms @ old @ tail = ms \<and>
      (has_human (dropWhile is_system ms) \<longrightarrow> has_human tail)"
proof -
  let ?gs = "atomic_groups (dropWhile is_system ms)"
  define k where "k = (if length ?gs \<le> 1 then 0 else keep_from d (takeWhile is_system ms) ?gs w)"
  have old: "old = concat (take k ?gs)" and recent: "recent = takeWhile is_system ms @ concat (drop k ?gs)"
    using assms by (simp_all add: split_old_and_recent_def Let_def leading_take_drop k_def atomic_groups_concat split: if_splits)
  have "takeWhile is_system ms @ concat (take k ?gs) @ concat (drop k ?gs) = ms"
    by (simp add: atomic_groups_concat flip: concat_append)
  moreover have "has_human (concat (drop k ?gs))" if "has_human (dropWhile is_system ms)"
    using that human_kept [of ?gs] by (simp add: k_def atomic_groups_concat)
  ultimately show ?thesis using old recent by blast
qed

text \<open>C38. The split archives whole groups and never the running turn: the archived part and the kept
  part, joined behind the leading system messages, are the history again; the cut lies between
  two atomic groups; and when the history has a human message, the kept part reaches back at least
  to the last one.\<close>

theorem split_keeps_current_turn:
  assumes "split_old_and_recent d ms w = (old, recent)"
  shows "\<exists>k tail. old = concat (take k (atomic_groups (dropWhile is_system ms))) \<and>
      tail = concat (drop k (atomic_groups (dropWhile is_system ms))) \<and>
      recent = takeWhile is_system ms @ tail \<and>
      takeWhile is_system ms @ old @ tail = ms \<and>
      (has_human (dropWhile is_system ms) \<longrightarrow> has_human tail)"
  by (rule split_keeps_turn [OF assms])

definition demo_deps :: context_deps where
  "demo_deps = \<lparr>tok = length, trimmer = \<lambda>_ _. Inl ValueError, text_of = \<lambda>m. case content m of PStr s \<Rightarrow> s | _ \<Rightarrow> [],
     float_digits = \<lambda>_. [], summary_prompt = \<lambda>s. s, summarize_prompt = \<lambda>s c. s, non_text_block = \<lambda>s. s,
     non_text_value = \<lambda>s. s, omitted_args = []\<rparr>"

theorem split_keeps_current_turn_witness:
  "\<exists>k tail. [plain_message HumanRole ''1'' ''a''] = concat (take k (atomic_groups [plain_message HumanRole ''1'' ''a'', plain_message HumanRole ''2'' ''b''])) \<and>
     [plain_message HumanRole ''2'' ''b''] = takeWhile is_system [plain_message HumanRole ''1'' ''a'', plain_message HumanRole ''2'' ''b''] @ tail"
proof -
  let ?ms = "[plain_message HumanRole ''1'' ''a'', plain_message HumanRole ''2'' ''b'']"
  have "split_old_and_recent demo_deps ?ms 1 = ([plain_message HumanRole ''1'' ''a''], [plain_message HumanRole ''2'' ''b''])"
    by (simp add: split_old_and_recent_def leading_system_def plain_message_def keep_from_def last_index_def has_human_def demo_deps_def)
  from split_keeps_current_turn [OF this] show ?thesis by (auto simp: plain_message_def)
qed

section \<open>Limits\<close>

lemma tok_concat: "additive d \<Longrightarrow> tok d (concat gs) = sum_list (map (tok d) gs)"
  by (induction gs) (simp_all add: additive_def)

lemma fit_systems_spec:
  assumes "additive d" and "fit_systems d hard ms prefix (tok d prefix) = (prefix', n)" and "int (tok d prefix) \<le> hard"
  shows "n = tok d prefix' \<and> int n \<le> hard \<and> (\<exists>kept. prefix' = prefix @ kept)"
  using assms(2,3)
proof (induction ms arbitrary: prefix)
  case Nil
  then show ?case by auto
next
  case (Cons m ms)
  have app: "tok d prefix + tok d [m] = tok d (prefix @ [m])" using assms(1) by (simp add: additive_def)
  show ?case
  proof (cases "int (tok d prefix + tok d [m]) \<le> hard")
    case True
    with Cons.prems Cons.IH [of "prefix @ [m]"] app show ?thesis by auto
  next
    case False
    with Cons show ?thesis by simp
  qed
qed

lemma keep_groups_bound:
  "int used \<le> budget \<Longrightarrow> int (used + sum_list (map tk (keep_groups tk budget used gs))) \<le> budget"
proof (induction gs arbitrary: used)
  case Nil
  then show ?case by simp
next
  case (Cons g gs)
  show ?case
  proof (cases "int (tk g) > budget - int used")
    case True
    with Cons.prems show ?thesis by simp
  next
    case False
    then have "int (used + tk g) \<le> budget" by simp
    from Cons.IH [OF this] False show ?thesis by simp
  qed
qed

lemma keep_groups_prefix: "\<exists>k. keep_groups tk budget used gs = take k gs"
proof (induction gs arbitrary: used)
  case Nil
  then show ?case by simp
next
  case (Cons g gs)
  from Cons [of "used + tk g"] obtain k where "keep_groups tk budget (used + tk g) gs = take k gs" by blast
  then have "keep_groups tk budget used (g # gs) = take (if int (tk g) > budget - int used then 0 else Suc k) (g # gs)"
    by simp
  then show ?case by blast
qed

lemma atomic_tail_bound:
  assumes "additive d" and "0 \<le> budget"
  shows "int (tok d (atomic_tail d budget rest)) \<le> budget"
  using keep_groups_bound [of 0 budget "tok d" "rev (atomic_groups rest)"] assms
  by (simp add: atomic_tail_def tok_concat rev_map [symmetric] sum_list_rev)

text \<open>The fall-back tail is a run of whole groups from the end of the history.\<close>

lemma atomic_tail_suffix: "\<exists>k. atomic_tail d budget rest = concat (drop k (atomic_groups rest))"
proof -
  obtain k where "keep_groups (tok d) budget 0 (rev (atomic_groups rest)) = take k (rev (atomic_groups rest))"
    using keep_groups_prefix by blast
  then show ?thesis by (auto simp: atomic_tail_def take_rev)
qed

text \<open>What a completed trim returns: the kept prefix and a tail that fits behind it.\<close>

lemma trim_cases:
  assumes "additive d" and "trim_llm_input_messages d ms pp hard = Inr out"
  obtains prefix tail kept where "out = prefix @ tail" "prefix = take (nat pp) ms @ kept"
    "int (tok d prefix) \<le> hard" "tail = [] \<or> int (tok d tail) \<le> hard - int (tok d prefix)"
    "0 \<le> pp" "nat pp \<le> length ms" "list_all is_system (take (nat pp) ms)"
proof -
  let ?p0 = "take (nat pp) ms"
  let ?sys = "takeWhile is_system (drop (nat pp) ms)"
  let ?rest = "drop (nat pp + length ?sys) ms"
  have guards: "\<not> hard \<le> 0" "\<not> pp < 0" "\<not> int (length ms) < pp" "list_all is_system ?p0" "int (tok d ?p0) \<le> hard"
    using assms(2) by (auto simp: trim_llm_input_messages_def Let_def split: if_splits)
  obtain prefix n where f: "fit_systems d hard ?sys ?p0 (tok d ?p0) = (prefix, n)"
    by (cases "fit_systems d hard ?sys ?p0 (tok d ?p0)") auto
  from fit_systems_spec [OF assms(1) f guards(5)] obtain kept
    where spec: "n = tok d prefix" "int n \<le> hard" "prefix = ?p0 @ kept" by blast
  define budget where "budget = hard - int n"
  have b: "0 \<le> budget" using spec(2) by (simp add: budget_def)
  have "out = prefix \<or> (\<exists>tail. out = prefix @ tail \<and> int (tok d tail) \<le> budget)"
    using assms(2) guards f atomic_tail_bound [OF assms(1) b, of ?rest]
    by (auto simp: trim_llm_input_messages_def Let_def budget_def [symmetric] split: if_splits sum.splits)
  then obtain tail where "out = prefix @ tail" "tail = [] \<or> int (tok d tail) \<le> budget" by auto
  then show thesis using that [of prefix tail kept] spec guards by (auto simp: budget_def)
qed

lemma trim_within_limit:
  assumes "additive d" and "trim_llm_input_messages d ms pp hard = Inr out"
  shows "int (tok d out) \<le> hard \<and> take (nat pp) out = take (nat pp) ms"
proof -
  from trim_cases [OF assms] obtain prefix tail kept where r: "out = prefix @ tail" "prefix = take (nat pp) ms @ kept"
    "int (tok d prefix) \<le> hard" "tail = [] \<or> int (tok d tail) \<le> hard - int (tok d prefix)"
    "0 \<le> pp" "nat pp \<le> length ms" .
  from r assms(1) have "int (tok d out) \<le> hard" by (auto simp: additive_def)
  moreover have "take (nat pp) out = take (nat pp) ms" using r(1,2,6) by simp
  ultimately show ?thesis by simp
qed

text \<open>The hard limit holds for any trimmer: whatever the third-party trimmer returns (or raises),
  the messages sent to the model never exceed the hard token limit, and the required prefix is
  still there, unchanged and in front.\<close>

theorem trim_within_hard_limit:
  assumes "additive d" and "trim_llm_input_messages d ms pp hard = Inr out"
  shows "int (tok d out) \<le> hard \<and> take (nat pp) out = take (nat pp) ms"
  by (rule trim_within_limit [OF assms])

theorem trim_within_hard_limit_witness:
  "trim_llm_input_messages demo_deps
     [plain_message SystemRole ''s'' [], plain_message HumanRole ''1'' [], plain_message AIRole ''2'' []] 1 2
     = Inr [plain_message SystemRole ''s'' [], plain_message AIRole ''2'' []] \<and>
   int (tok demo_deps [plain_message SystemRole ''s'' [], plain_message AIRole ''2'' []]) \<le> 2"
proof -
  let ?ms = "[plain_message SystemRole ''s'' [], plain_message HumanRole ''1'' [], plain_message AIRole ''2'' []]"
  have add: "additive demo_deps" by (simp add: additive_def demo_deps_def)
  have run: "trim_llm_input_messages demo_deps ?ms 1 2 = Inr [plain_message SystemRole ''s'' [], plain_message AIRole ''2'' []]"
    by (simp add: trim_llm_input_messages_def demo_deps_def plain_message_def atomic_tail_def)
  from trim_within_hard_limit [OF add run] run show ?thesis by simp
qed

section \<open>prepare_context\<close>

lemma hard_window_bound: "additive d \<Longrightarrow> hard_window d ms summary hard = Inr out \<Longrightarrow> int (tok d out) \<le> hard"
  by (auto simp: hard_window_def Let_def dest: trim_within_limit)

lemma with_update_Inr: "with_update r u = Inr pc \<longleftrightarrow> (\<exists>ms. r = Inr ms \<and> pc = \<lparr>prepared_messages = ms, state_update = u\<rparr>)"
  by (auto simp: with_update_def split: sum.splits)

text \<open>The ways a preparation ends, for a policy with a model.\<close>

lemma prepare_cases:
  assumes "prepare_context d fb (Some md) (Some p) reserved st = Inr pc"
  obtains (passed) "prepared_messages pc = inject_summary d (messages st) (strip (context_summary st))"
      "int (tok d (prepared_messages pc)) \<le> effective_watermark p reserved" "state_update pc = no_update"
    | (windowed) "hard_window d (messages st) (strip (context_summary st)) (hard_limit_tokens p) = Inr (prepared_messages pc)"
      "state_update pc = no_update \<or> state_update pc = no_update\<lparr>up_failures := Some (context_compaction_failures st + 1)\<rparr>"
    | (compacted) old recent w summary where
      "split_old_and_recent d (messages st) w = (old, recent)" "old \<noteq> []"
      "roll_summary d p md (strip (context_summary st)) old = Inr summary"
      "prepared_messages pc = inject_summary d recent summary \<and> int (tok d (prepared_messages pc)) \<le> hard_limit_tokens p
       \<or> hard_window d recent summary (hard_limit_tokens p) = Inr (prepared_messages pc)"
      "state_update pc = no_update\<lparr>up_messages := Some (remove_all_marker # recent), up_summary := Some summary,
                   up_count := Some (context_compaction_count st + 1),
                   up_archived := Some (context_archived_messages st + int (length old))\<rparr>"
proof -
  let ?prev = "strip (context_summary st)"
  let ?mark = "effective_watermark p reserved"
  let ?w = "max 1 (min (recent_window_tokens p) (?mark - max_summary_tokens p))"
  obtain old recent where sp: "split_old_and_recent d (messages st) ?w = (old, recent)"
    by (cases "split_old_and_recent d (messages st) ?w") auto
  have res: "\<not> reserved < 0" using assms by (auto simp: prepare_context_def)
  show thesis
  proof (cases "int (tok d (inject_summary d (messages st) ?prev)) \<le> ?mark")
    case True
    with assms res show thesis by (intro passed) (auto simp: prepare_context_def Let_def)
  next
    case over: False
    show thesis
    proof (cases "old = []")
      case True
      with assms res over sp show thesis
        by (intro windowed) (auto simp: prepare_context_def Let_def with_update_Inr)
    next
      case False
      with assms res over sp have c: "compact d p md st ?prev old recent = Inr pc"
        by (simp add: prepare_context_def Let_def)
      show thesis
      proof (cases "roll_summary d p md ?prev old")
        case (Inl e)
        with c show thesis by (intro windowed) (auto simp: compact_def with_update_Inr)
      next
        case (Inr summary)
        with c show thesis
          by (intro compacted [OF sp False Inr]) (auto simp: compact_def Let_def with_update_Inr split: if_splits)
      qed
    qed
  qed
qed

text \<open>C3. Every prepared input fits: under a valid policy, with or without a summary model, with any
  model answers and any trimmer, a preparation that returns stays within the hard limit.\<close>

theorem prepared_within_hard_limit:
  assumes "additive d" and "policy_ok p" and "0 < high_watermark_tokens p"
    and "prepare_context d fb model (Some p) reserved st = Inr pc"
  shows "int (tok d (prepared_messages pc)) \<le> hard_limit_tokens p"
proof (cases model)
  case None
  with assms(4) obtain out where "hard_window d (messages st) (strip (context_summary st)) (hard_limit_tokens p) = Inr out"
    "prepared_messages pc = out"
    by (auto simp: prepare_context_def Let_def with_update_Inr split: if_splits)
  with hard_window_bound [OF assms(1)] show ?thesis by blast
next
  case (Some md)
  from assms(4) have res: "0 \<le> reserved" by (auto simp: prepare_context_def split: if_splits)
  from assms(4) [unfolded Some] show ?thesis
  proof (cases rule: prepare_cases)
    case passed
    then show ?thesis using assms(2,3) res by (auto simp: effective_watermark_def policy_ok_def)
  next
    case windowed
    then show ?thesis using hard_window_bound [OF assms(1)] by blast
  next
    case compacted
    then show ?thesis using hard_window_bound [OF assms(1)] by blast
  qed
qed

definition demo_policy :: context_policy where
  "demo_policy = \<lparr>high_watermark_tokens = 3, recent_window_tokens = 1, max_summary_tokens = 1, hard_limit_tokens = 3,
     summary_batch_tokens = 5\<rparr>"

definition demo_state :: "message list \<Rightarrow> robot_state" where
  "demo_state ms = \<lparr>messages = ms, context_summary = [], context_compaction_count = 0,
     context_archived_messages = 0, context_compaction_failures = 0\<rparr>"

theorem prepared_within_hard_limit_witness:
  "\<exists>pc. prepare_context demo_deps default_policy None (Some demo_policy) 0 (demo_state [plain_message HumanRole ''1'' ''a'']) = Inr pc
     \<and> int (tok demo_deps (prepared_messages pc)) \<le> 3"
proof -
  have add: "additive demo_deps" by (simp add: additive_def demo_deps_def)
  have ok: "policy_ok demo_policy" "0 < high_watermark_tokens demo_policy" by (simp_all add: policy_ok_def demo_policy_def)
  let ?s = "demo_state [plain_message HumanRole ''1'' ''a'']"
  obtain pc where pc: "prepare_context demo_deps default_policy None (Some demo_policy) 0 ?s = Inr pc"
    by (simp add: prepare_context_def demo_state_def hard_window_def inject_summary_def leading_system_def plain_message_def
        trim_llm_input_messages_def demo_deps_def demo_policy_def with_update_def strip_def lstrip_def rstrip_def)
  from prepared_within_hard_limit [OF add ok pc] pc show ?thesis by (simp add: demo_policy_def)
qed

text \<open>A compaction is committed whole: when a preparation archives messages, applying its update
  through the message reducer leaves exactly the recent part, stores the new summary, counts one
  compaction, and raises the archive counter by the number of messages that left the history.\<close>

theorem compaction_commits:
  assumes "prepare_context d fb (Some md) (Some p) reserved st = Inr pc" and "up_messages (state_update pc) = Some ms"
    and "list_all (\<lambda>m. msg_id m \<noteq> None \<and> \<not> is_remove_all m) (messages st)"
  shows "\<exists>old recent w st'. split_old_and_recent d (messages st) w = (old, recent) \<and> old \<noteq> [] \<and>
     apply_update fresh (state_update pc) st = Inr st' \<and> messages st' = recent \<and>
     roll_summary d p md (strip (context_summary st)) old = Inr (context_summary st') \<and>
     context_compaction_count st' = context_compaction_count st + 1 \<and>
     context_archived_messages st' + int (length (messages st')) = context_archived_messages st + int (length (messages st)) \<and>
     context_compaction_failures st' = context_compaction_failures st"
  using assms(1)
proof (cases rule: prepare_cases)
  case passed
  with assms(2) show ?thesis by (simp add: no_update_def)
next
  case windowed
  with assms(2) show ?thesis by (auto simp: no_update_def)
next
  case (compacted old recent w summary)
  from split_keeps_turn [OF compacted(1)] obtain tail where
    parts: "recent = takeWhile is_system (messages st) @ tail" "takeWhile is_system (messages st) @ old @ tail = messages st"
    by blast
  have "set recent \<subseteq> set (takeWhile is_system (messages st) @ old @ tail)" unfolding parts(1) by auto
  then have sub: "set recent \<subseteq> set (messages st)" unfolding parts(2) .
  have len: "length recent + length old = length (messages st)"
    using arg_cong [OF parts(2), of length] unfolding parts(1) by simp
  have "list_all (\<lambda>m. \<not> is_remove_all m \<and> msg_id m \<noteq> None) recent" "list_all (\<lambda>m. msg_id m \<noteq> None) (messages st)"
    using assms(3) sub by (auto simp: list_all_iff)
  from add_messages_remove_all [OF _ this, of remove_all_marker id fresh None]
  have "add_messages id id fresh None (Many (messages st)) (Many (remove_all_marker # recent)) = Inr recent"
    by (simp add: is_remove_all_def remove_all_marker_def plain_message_def)
  then have run: "apply_update fresh (state_update pc) st = Inr \<lparr>messages = recent, context_summary = summary,
      context_compaction_count = context_compaction_count st + 1,
      context_archived_messages = context_archived_messages st + int (length old),
      context_compaction_failures = context_compaction_failures st\<rparr>"
    by (simp add: apply_update_def no_update_def compacted(5))
  have "int (length old) + int (length recent) = int (length (messages st))" using len by simp
  with compacted(1,2,3) run show ?thesis by (intro exI conjI) (assumption | simp)+
qed

text \<open>Failure is harmless: a preparation that does not archive, be it below the watermark or
  because the summary model failed or answered badly, leaves messages, summary and both archive
  counters of the checkpoint as they are.\<close>

theorem no_archive_no_loss:
  assumes "prepare_context d fb (Some md) (Some p) reserved st = Inr pc" and "up_messages (state_update pc) = None"
  shows "\<exists>k. k \<in> {0, 1} \<and> apply_update fresh (state_update pc) st =
     Inr (st\<lparr>context_compaction_failures := context_compaction_failures st + k\<rparr>)"
  using assms(1)
proof (cases rule: prepare_cases)
  case passed
  then have "apply_update fresh (state_update pc) st = Inr (st\<lparr>context_compaction_failures := context_compaction_failures st + 0\<rparr>)"
    by (simp add: apply_update_def no_update_def)
  then show ?thesis by blast
next
  case windowed
  from windowed(2) have "apply_update fresh (state_update pc) st = Inr (st\<lparr>context_compaction_failures := context_compaction_failures st + 0\<rparr>)
     \<or> apply_update fresh (state_update pc) st = Inr (st\<lparr>context_compaction_failures := context_compaction_failures st + 1\<rparr>)"
    by (auto simp: apply_update_def no_update_def)
  then show ?thesis by blast
next
  case compacted
  with assms(2) show ?thesis by (simp add: no_update_def)
qed

text \<open>A state over the watermark of \<open>demo_policy\<close>, with a model that answers properly.\<close>

definition demo_history :: "message list" where
  "demo_history = [plain_message HumanRole ''1'' ''a'', plain_message AIRole ''2'' ''b'',
     plain_message HumanRole ''3'' ''c'', plain_message AIRole ''4'' ''d'', plain_message AIRole ''5'' ''e'']"

definition demo_answer :: message where
  "demo_answer = plain_message AIRole ''6'' (summary_marker @ [CHR 0x0A, CHR ''x''])"

definition roomy_policy :: context_policy where
  "roomy_policy = \<lparr>high_watermark_tokens = 4, recent_window_tokens = 1, max_summary_tokens = 2, hard_limit_tokens = 5,
     summary_batch_tokens = 50\<rparr>"

definition demo_prepared :: prepared_context where
  "demo_prepared = \<lparr>prepared_messages = inject_summary demo_deps (drop 2 demo_history) ''x'',
     state_update = no_update\<lparr>up_messages := Some (remove_all_marker # drop 2 demo_history), up_summary := Some ''x'',
       up_count := Some 1, up_archived := Some 2\<rparr>\<rparr>"

lemma demo_prepare:
  "prepare_context demo_deps default_policy (Some (\<lambda>_ _ _. Inr demo_answer)) (Some roomy_policy) 0 (demo_state demo_history)
     = Inr demo_prepared"
  by code_simp

theorem compaction_commits_witness:
  "\<exists>st'. apply_update (\<lambda>_. []) (state_update demo_prepared) (demo_state demo_history) = Inr st' \<and>
     context_archived_messages st' + int (length (messages st')) = 5"
proof -
  have "list_all (\<lambda>m. msg_id m \<noteq> None \<and> \<not> is_remove_all m) (messages (demo_state demo_history))"
    by (simp add: demo_state_def demo_history_def plain_message_def is_remove_all_def)
  from compaction_commits [OF demo_prepare _ this, of _ "\<lambda>_. []"] show ?thesis
    by (simp add: demo_prepared_def) (fastforce simp: demo_state_def demo_history_def)
qed

lemma demo_prepare_fails:
  "prepare_context demo_deps default_policy (Some (\<lambda>_ _ _. Inl (ModelError ''down''))) (Some roomy_policy) 0 (demo_state demo_history)
     = Inr \<lparr>prepared_messages = demo_history, state_update = no_update\<lparr>up_failures := Some 1\<rparr>\<rparr>"
  by code_simp

theorem no_archive_no_loss_witness:
  "\<exists>k. k \<in> {0, 1} \<and> apply_update (\<lambda>_. []) (no_update\<lparr>up_failures := Some 1\<rparr>) (demo_state demo_history) =
     Inr ((demo_state demo_history)\<lparr>context_compaction_failures := k\<rparr>)"
  using no_archive_no_loss [OF demo_prepare_fails, of "\<lambda>_. []"] by (simp add: no_update_def demo_state_def)

section \<open>Batches\<close>

lemma batch_records_concat: "concat (batch_records max_chars size_of rs cur n) = cur @ rs"
  by (induction rs arbitrary: cur n) auto

definition small_batch :: "nat \<Rightarrow> ('r \<Rightarrow> nat) \<Rightarrow> 'r list \<Rightarrow> bool" where
  "small_batch max_chars size_of b \<longleftrightarrow> b \<noteq> [] \<and> (length b = 1 \<or> sum_list (map size_of b) \<le> max_chars)"

lemma batch_records_small:
  "n = sum_list (map size_of cur) \<Longrightarrow> cur = [] \<or> small_batch max_chars size_of cur \<Longrightarrow>
   b \<in> set (batch_records max_chars size_of rs cur n) \<Longrightarrow> small_batch max_chars size_of b"
proof (induction rs arbitrary: cur n)
  case Nil
  then show ?case by (auto split: if_splits)
next
  case (Cons r rs)
  show ?case
  proof (cases "cur \<noteq> [] \<and> n + size_of r > max_chars")
    case True
    with Cons.prems Cons.IH [of "size_of r" "[r]"] show ?thesis by (auto simp: small_batch_def)
  next
    case False
    with Cons.prems Cons.IH [of "n + size_of r" "cur @ [r]"] show ?thesis by (auto simp: small_batch_def)
  qed
qed

definition content_text :: "pydict \<Rightarrow> string" where
  "content_text r = (case dict_get r ''content'' of Some (PStr s) \<Rightarrow> s | _ \<Rightarrow> [])"

lemma record_pieces_text:
  assumes "0 < max_chars"
  shows "concat (map content_text (record_pieces max_chars r)) = content_text r"
proof (cases "\<exists>s. dict_get r ''content'' = Some (PStr s) \<and> length s > max_chars")
  case True
  then obtain s where s: "dict_get r ''content'' = Some (PStr s)" "length s > max_chars" by blast
  have "concat (map content_text (map (\<lambda>(k, c). dict_set ''chunk'' (PStr (nat_str (Suc k))) (dict_set ''content'' (PStr c) r)) (enumerate 0 cs)))
      = concat cs" for cs
    by (induction cs arbitrary: r rule: rev_induct) (simp_all add: content_text_def enumerate_append_eq)
  with s chunks_concat [OF assms, of s] show ?thesis by (simp add: record_pieces_def content_text_def)
next
  case False
  then show ?thesis by (auto simp: record_pieces_def split: option.splits pyval.splits)
qed

text \<open>The summariser sees everything, in order, in bounded batches: the contents of the records
  in all batches, joined, are the contents of the archived messages; and a batch is a single record
  or stays within the character limit.\<close>

theorem batches_lossless:
  assumes "0 < max_tokens"
  shows "concat (map content_text (concat (records_to_batches d ms max_tokens)))
           = concat (map (\<lambda>m. safe_content d (content m)) ms) \<and>
         list_all (small_batch (nat (max_tokens * 4)) (\<lambda>r. length (json_dumps (float_digits d) (PDict r)))) (records_to_batches d ms max_tokens)"
proof -
  let ?mc = "nat (max_tokens * 4)"
  have pos: "0 < ?mc" using assms by simp
  have one: "content_text (message_record d m) = safe_content d (content m)" for m
    by (simp add: content_text_def message_record_def)
  have "concat (map content_text (concat (map (\<lambda>m. record_pieces ?mc (message_record d m)) ms))) = concat (map (\<lambda>m. safe_content d (content m)) ms)"
    by (induction ms) (simp_all add: record_pieces_text [OF pos] one)
  then show ?thesis
    using batch_records_small [of 0 _ "[]"] by (auto simp: records_to_batches_def Let_def batch_records_concat list_all_iff)
qed

theorem batches_lossless_witness:
  "concat (map content_text (concat (records_to_batches demo_deps [plain_message HumanRole ''1'' ''abcdefgh''] 1))) = ''abcdefgh''"
  using batches_lossless [of 1 demo_deps "[plain_message HumanRole ''1'' ''abcdefgh'']"] by (simp add: plain_message_def)

section \<open>Policies from the environment\<close>

lemma positive_ints_spec: "positive_ints vs = Inr is \<Longrightarrow> vs = map PInt is \<and> list_all (\<lambda>i. 0 < i) is"
proof (induction vs arbitrary: "is")
  case Nil
  then show ?case by simp
next
  case (Cons v vs)
  then show ?case by (cases v) (auto split: option.splits sum.splits if_splits)
qed

definition valid_policy :: "context_policy \<Rightarrow> bool" where
  "valid_policy p \<longleftrightarrow> 0 < high_watermark_tokens p \<and> 0 < recent_window_tokens p \<and> 0 < max_summary_tokens p \<and>
     0 < hard_limit_tokens p \<and> 0 < summary_batch_tokens p \<and> policy_ok p"

lemma make_context_policy_spec:
  "make_context_policy (PInt a) (PInt b) (PInt c) (PInt e) (PInt f) =
     (let p = \<lparr>high_watermark_tokens = a, recent_window_tokens = b, max_summary_tokens = c,
               hard_limit_tokens = e, summary_batch_tokens = f\<rparr> in if valid_policy p then Inr p else Inl ValueError)"
  by (simp add: make_context_policy_def valid_policy_def policy_ok_def Let_def)

lemma env_positive_int_cases: "env_positive_int environ name dflt = Inl ValueError \<or> (\<exists>v. env_positive_int environ name dflt = Inr v)"
  by (auto simp: env_positive_int_def split: option.splits)

text \<open>Configuration is total or refused: whatever the environment holds, loading the limits gives
  a policy whose fields are positive and satisfy the three relations, or a ValueError; with none
  of the variables set it gives the defaults.\<close>

theorem env_policy_valid_or_refused:
  "(load_context_policy_from_env environ = Inl ValueError \<or>
    (\<exists>p. load_context_policy_from_env environ = Inr p \<and> valid_policy p)) \<and>
   load_context_policy_from_env [] = Inr default_policy"
proof -
  have "load_context_policy_from_env [] = Inr default_policy"
    by (simp add: load_context_policy_from_env_def env_positive_int_def make_context_policy_spec
        default_policy_def valid_policy_def policy_ok_def)
  moreover have "load_context_policy_from_env environ = Inl ValueError \<or> (\<exists>p. load_context_policy_from_env environ = Inr p \<and> valid_policy p)"
  proof -
    note cs = env_positive_int_cases [of environ]
    show ?thesis
      unfolding load_context_policy_from_env_def
      using cs [of "''CONTEXT_HIGH_WATERMARK_TOKENS''" "high_watermark_tokens default_policy"]
        cs [of "''CONTEXT_RECENT_WINDOW_TOKENS''" "recent_window_tokens default_policy"]
        cs [of "''CONTEXT_MAX_SUMMARY_TOKENS''" "max_summary_tokens default_policy"]
        cs [of "''CONTEXT_HARD_LIMIT_TOKENS''" "hard_limit_tokens default_policy"]
        cs [of "''CONTEXT_SUMMARY_BATCH_TOKENS''" "summary_batch_tokens default_policy"]
      by (elim disjE exE) (simp_all add: make_context_policy_spec Let_def)
  qed
  ultimately show ?thesis by blast
qed

end
