(* ===== verification/Governance.thy ===== *)
theory Governance
  imports Prelude
begin

text \<open>
  \<open>robot_agent/governance/policy.py\<close>: the policy layer every side effect passes before it
  reaches an actuator. \<open>check\<close> runs the four stages in the order of the code (permission,
  constitution, amplitude, rate) and records one audit entry for every verdict.
\<close>

section \<open>Data\<close>

type_synonym args = pydict

text \<open>A constitution rule: tool name and arguments to the reason of a violation, if any.\<close>

type_synonym constitution_rule = "string \<Rightarrow> args \<Rightarrow> string option"

record tool_permission =
  allowed :: "string set option"
  denied :: "string set"

record amplitude_limit =
  amp_max_vx :: pyfloat
  amp_max_wz :: pyfloat

text \<open>
  The reasons and notes of the source are formatted texts; here each is a constructor with the
  values the text is formatted from. \<open>Verbatim v\<close> is \<open>str(v)\<close>.
\<close>

datatype remark =
    NoNote
  | Denylisted string
  | OutsideAllowlist string
  | Unconstitutional string
  | OverAmplitude amplitude_limit
  | OverRate string int
  | NonFiniteSpeed "pyval option" "pyval option"
  | HumanApproved
  | HumanRejected
  | Unconfirmed
  | Verbatim pyval

text \<open>Truthiness of the text a note stands for: only the empty text is false.\<close>

fun note_truthy :: "remark \<Rightarrow> bool" where
  "note_truthy NoNote = False"
| "note_truthy (Verbatim v) = (v \<noteq> PStr [])"
| "note_truthy _ = True"

record audit_entry =
  entry_action :: string
  entry_args :: args
  entry_allowed :: bool
  entry_reason :: remark

record governance =
  permission :: "tool_permission option"
  constitution :: "constitution_rule list"
  amplitude :: "amplitude_limit option"
  rate_limit :: "(string, int) dict option"
  audit :: "audit_entry list"
  counts :: "(string, int) dict"

section \<open>The audit log\<close>

definition audit_record :: "string \<Rightarrow> args \<Rightarrow> bool \<Rightarrow> remark \<Rightarrow> governance \<Rightarrow> governance" where
  "audit_record name a ok r g =
     g\<lparr>audit := audit g @ [\<lparr>entry_action = name, entry_args = a, entry_allowed = ok, entry_reason = r\<rparr>]\<rparr>"

definition denials :: "governance \<Rightarrow> audit_entry list" where
  "denials g = filter (\<lambda>e. \<not> entry_allowed e) (audit g)"

section \<open>The stages of a check\<close>

text \<open>1) Permission: the denylist first, then the allowlist where there is one.\<close>

definition check_permission :: "tool_permission option \<Rightarrow> string \<Rightarrow> remark option" where
  "check_permission perm name =
     (case perm of
        None \<Rightarrow> None
      | Some p \<Rightarrow>
          if name \<in> denied p then Some (Denylisted name)
          else (case allowed p of
                  None \<Rightarrow> None
                | Some names \<Rightarrow> if name \<notin> names then Some (OutsideAllowlist name) else None))"

text \<open>2) Constitution: the first rule with a non-empty reason denies.\<close>

fun check_constitution :: "constitution_rule list \<Rightarrow> string \<Rightarrow> args \<Rightarrow> remark option" where
  "check_constitution [] name a = None"
| "check_constitution (rule # rules) name a =
     (case rule name a of
        Some reason \<Rightarrow> if reason \<noteq> [] then Some (Unconstitutional reason) else check_constitution rules name a
      | None \<Rightarrow> check_constitution rules name a)"

text \<open>3) Amplitude: only \<open>set_velocity\<close>; \<open>float()\<close> may raise before anything is recorded.\<close>

definition arg_float :: "args \<Rightarrow> string \<Rightarrow> pyfloat result" where
  "arg_float a key = py_float (dict_getd a key (PFloat (Fin 0)))"

definition check_amplitude ::
  "amplitude_limit option \<Rightarrow> string \<Rightarrow> args \<Rightarrow> remark option result" where
  "check_amplitude amp name a =
     (case amp of
        None \<Rightarrow> Inr None
      | Some cap \<Rightarrow>
          if name \<noteq> ''set_velocity'' then Inr None
          else (case arg_float a ''vx'' of
                  Inl e \<Rightarrow> Inl e
                | Inr vx \<Rightarrow>
                    (case arg_float a ''wz'' of
                       Inl e \<Rightarrow> Inl e
                     | Inr wz \<Rightarrow>
                         if fgt (fabs vx) (amp_max_vx cap) \<or> fgt (fabs wz) (amp_max_wz cap)
                         then Inr (Some (OverAmplitude cap)) else Inr None)))"

text \<open>4) Rate: a lifetime quota per tool; the counter moves only when the call is allowed.\<close>

definition check_rate :: "string \<Rightarrow> governance \<Rightarrow> remark option \<times> governance" where
  "check_rate name g =
     (case rate_limit g of
        None \<Rightarrow> (None, g)
      | Some limits \<Rightarrow>
          (case dict_get limits name of
             None \<Rightarrow> (None, g)
           | Some cap \<Rightarrow>
               (let used = dict_getd (counts g) name 0 in
                if used \<ge> cap then (Some (OverRate name cap), g)
                else (None, g\<lparr>counts := dict_set name (used + 1) (counts g)\<rparr>))))"

definition deny :: "string \<Rightarrow> args \<Rightarrow> remark \<Rightarrow> governance \<Rightarrow> (bool \<times> remark) \<times> governance" where
  "deny name a r g = ((False, r), audit_record name a False r g)"

definition check ::
  "string \<Rightarrow> args \<Rightarrow> governance \<Rightarrow> ((bool \<times> remark) \<times> governance) result" where
  "check name a g =
     (case check_permission (permission g) name of
        Some r \<Rightarrow> Inr (deny name a r g)
      | None \<Rightarrow>
     (case check_constitution (constitution g) name a of
        Some r \<Rightarrow> Inr (deny name a r g)
      | None \<Rightarrow>
     (case check_amplitude (amplitude g) name a of
        Inl e \<Rightarrow> Inl e
      | Inr (Some r) \<Rightarrow> Inr (deny name a r g)
      | Inr None \<Rightarrow>
     (case check_rate name g of
        (Some r, g') \<Rightarrow> Inr (deny name a r g')
      | (None, g') \<Rightarrow> Inr ((True, NoNote), audit_record name a True NoNote g')))))"

lemmas governance_defs =
  check_def deny_def check_rate_def check_amplitude_def check_permission_def audit_record_def

section \<open>What one check does\<close>

lemma check_rate_denied: "check_rate name g = (Some r, g') \<Longrightarrow> g' = g"
  by (auto simp: check_rate_def Let_def split: option.splits if_splits)

lemma check_rate_frame:
  "check_rate name g = (v, g') \<Longrightarrow>
   audit g' = audit g \<and> permission g' = permission g \<and> constitution g' = constitution g
   \<and> amplitude g' = amplitude g \<and> rate_limit g' = rate_limit g"
  by (auto simp: check_rate_def Let_def split: option.splits if_splits)

text \<open>Inversion of a completed check: allowed through all four stages, or denied and unchanged
  but for the log.\<close>

lemma check_inv:
  assumes "check name a g = Inr ((ok, r), g')"
  obtains (allowed) g1 where "ok" "r = NoNote" "check_rate name g = (None, g1)" "g' = audit_record name a True NoNote g1"
    | (denied) "\<not> ok" "g' = audit_record name a False r g"
  using assms check_rate_denied
  by (auto simp: check_def deny_def split: option.splits sum.splits prod.splits)

text \<open>A completed check appends exactly one entry, which carries its verdict and its reason.\<close>

lemma check_logs:
  assumes "check name a g = Inr ((ok, r), g')"
  shows "audit g' = audit g @ [\<lparr>entry_action = name, entry_args = a, entry_allowed = ok, entry_reason = r\<rparr>]"
  using assms by (cases rule: check_inv) (auto simp: audit_record_def dest: check_rate_frame)

text \<open>The configuration never changes.\<close>

lemma check_config:
  assumes "check name a g = Inr ((ok, r), g')"
  shows "permission g' = permission g \<and> constitution g' = constitution g \<and> amplitude g' = amplitude g
    \<and> rate_limit g' = rate_limit g"
  using assms by (cases rule: check_inv) (auto simp: audit_record_def dest: check_rate_frame)

text \<open>The verdict as a conjunction of the four stages.\<close>

lemma check_allowed_iff:
  "(\<exists>r g'. check name a g = Inr ((True, r), g')) \<longleftrightarrow>
   check_permission (permission g) name = None \<and> check_constitution (constitution g) name a = None \<and>
   check_amplitude (amplitude g) name a = Inr None \<and> fst (check_rate name g) = None"
  by (cases "check_rate name g")
     (auto simp: check_def deny_def split: option.splits sum.splits prod.splits)

lemma check_allowed_reason:
  "check name a g = Inr ((True, r), g') \<Longrightarrow> r = NoNote"
  by (auto simp: check_def deny_def split: option.splits sum.splits prod.splits)

text \<open>The quota: what a check does to the counters.\<close>

definition used :: "governance \<Rightarrow> string \<Rightarrow> int" where
  "used g name = dict_getd (counts g) name 0"

lemma check_rate_counts:
  assumes "check_rate name g = (v, g')" and "rate_limit g = Some limits" and "dict_get limits m = Some c"
  shows "used g' m = used g m + (if v = None \<and> name = m then 1 else 0) \<and> (v = None \<and> name = m \<longrightarrow> used g m < c)"
proof (cases "dict_get limits name")
  case None
  with assms show ?thesis by (auto simp: check_rate_def)
next
  case (Some k)
  with assms show ?thesis
    by (auto simp: check_rate_def used_def dict_getd_def Let_def split: if_splits)
qed

lemma used_audit_record [simp]: "used (audit_record n a ok r g) m = used g m"
  by (simp add: used_def audit_record_def)

lemma check_counts:
  assumes "check name a g = Inr ((ok, r), g')" and "rate_limit g = Some limits"
    and "dict_get limits m = Some c"
  shows "used g' m = used g m + (if ok \<and> name = m then 1 else 0) \<and> (ok \<and> name = m \<longrightarrow> used g m < c)"
  using assms(1)
proof (cases rule: check_inv)
  case (allowed g1)
  with check_rate_counts [OF _ assms(2,3), of name None g1] show ?thesis by simp
next
  case denied
  then show ?thesis by simp
qed

text \<open>A session of tool calls; a call that raises is the caller's to handle and changes nothing.\<close>

fun check_all :: "(string \<times> args) list \<Rightarrow> governance \<Rightarrow> bool list \<times> governance" where
  "check_all [] g = ([], g)"
| "check_all ((name, a) # calls) g =
     (case check name a g of
        Inl e \<Rightarrow> (let (vs, g') = check_all calls g in (False # vs, g'))
      | Inr ((ok, r), g1) \<Rightarrow> (let (vs, g') = check_all calls g1 in (ok # vs, g')))"

definition allowed_calls :: "string \<Rightarrow> (string \<times> args) list \<Rightarrow> bool list \<Rightarrow> int" where
  "allowed_calls name calls vs = int (length (filter (\<lambda>((n, _), ok). n = name \<and> ok) (zip calls vs)))"

lemma check_all_used:
  "check_all calls g = (vs, g') \<Longrightarrow> rate_limit g = Some limits \<Longrightarrow> dict_get limits m = Some c \<Longrightarrow>
   used g' m = used g m + allowed_calls m calls vs \<and>
   (used g m \<le> c \<longrightarrow> used g' m \<le> c) \<and> (used g m > c \<longrightarrow> used g' m = used g m)"
proof (induction calls g arbitrary: vs g' rule: check_all.induct)
  case (1 g)
  then show ?case by (simp add: allowed_calls_def)
next
  case (2 name a calls g)
  show ?case
  proof (cases "check name a g")
    case (Inl e)
    then obtain ws where "check_all calls g = (ws, g')" and "vs = False # ws"
      using "2.prems"(1) by (auto split: prod.splits)
    with "2.IH"(1) [OF Inl] "2.prems"(2,3) show ?thesis
      by (auto simp: allowed_calls_def)
  next
    case (Inr p)
    obtain ok r g1 where p: "p = ((ok, r), g1)" by (cases p) auto
    with Inr "2.prems"(1) obtain ws where ws: "check_all calls g1 = (ws, g')" and vs: "vs = ok # ws"
      by (auto split: prod.splits)
    have c1: "used g1 m = used g m + (if ok \<and> name = m then 1 else 0) \<and> (ok \<and> name = m \<longrightarrow> used g m < c)"
      using check_counts Inr p "2.prems"(2,3) by blast
    have "rate_limit g1 = Some limits"
      using check_config Inr p "2.prems"(2) by simp
    note IH = "2.IH"(2) [OF Inr p [symmetric] refl ws this "2.prems"(3)]
    have step: "allowed_calls m ((name, a) # calls) vs = (if ok \<and> name = m then 1 else 0) + allowed_calls m calls ws"
      by (simp add: allowed_calls_def vs)
    from IH c1 show ?thesis unfolding step by (auto split: if_splits)
  qed
qed

text \<open>C39. Rate quota: over any session of tool calls that starts with an unused quota, the
  governance policy never allows a rate-limited tool more often than its limit.\<close>

theorem rate_quota_respected:
  assumes "check_all calls g = (vs, g')" and "rate_limit g = Some limits"
    and "dict_get limits m = Some c" and "used g m = 0" and "0 \<le> c"
  shows "allowed_calls m calls vs \<le> c"
  using check_all_used [OF assms(1-3)] assms(4,5) by simp

definition quota_example :: governance where
  "quota_example = \<lparr>permission = None, constitution = [], amplitude = None,
     rate_limit = Some [(''grasp'', 1)], audit = [], counts = []\<rparr>"

theorem rate_quota_respected_witness:
  "allowed_calls ''grasp'' [(''grasp'', []), (''speak'', []), (''grasp'', [])] [True, True, False] \<le> 1"
proof -
  let ?calls = "[(''grasp'', []), (''speak'', []), (''grasp'', [])] :: (string \<times> args) list"
  have "fst (check_all ?calls quota_example) = [True, True, False]"
    by (simp add: governance_defs quota_example_def Let_def dict_getd_def)
  then have "check_all ?calls quota_example = ([True, True, False], snd (check_all ?calls quota_example))"
    by (metis prod.collapse)
  from rate_quota_respected [OF this, of "[(''grasp'', 1)]" "''grasp''" 1] show ?thesis
    by (simp add: quota_example_def used_def dict_getd_def)
qed

text \<open>Audit completeness: over any session, the log grows by exactly one entry per call that
  does not raise, in call order, and each entry's verdict is the one the caller got.\<close>

theorem audit_complete:
  "\<exists>es. audit (snd (check_all calls g)) = audit g @ es \<and>
        length es \<le> length calls \<and>
        filter entry_allowed es =
          map (\<lambda>((n, a), _). \<lparr>entry_action = n, entry_args = a, entry_allowed = True, entry_reason = NoNote\<rparr>)
            (filter snd (zip calls (fst (check_all calls g))))"
proof (induction calls g rule: check_all.induct)
  case (1 g)
  then show ?case by simp
next
  case (2 name a calls g)
  show ?case
  proof (cases "check name a g")
    case (Inl e)
    with "2.IH"(1) [OF Inl] show ?thesis by (auto split: prod.splits simp: le_SucI)
  next
    case (Inr p)
    obtain ok r g1 where p: "p = ((ok, r), g1)" by (cases p) auto
    let ?e = "\<lparr>entry_action = name, entry_args = a, entry_allowed = ok, entry_reason = r\<rparr>"
    have log: "audit g1 = audit g @ [?e]" using check_logs Inr p by blast
    obtain es where es: "audit (snd (check_all calls g1)) = audit g1 @ es" "length es \<le> length calls"
      "filter entry_allowed es =
         map (\<lambda>((n, a), _). \<lparr>entry_action = n, entry_args = a, entry_allowed = True, entry_reason = NoNote\<rparr>)
           (filter snd (zip calls (fst (check_all calls g1))))"
      using "2.IH"(2) [OF Inr p [symmetric] refl] by blast
    have "r = NoNote" if "ok" using check_allowed_reason Inr p that by auto
    with Inr p log es show ?thesis
      by (intro exI [of _ "?e # es"]) (auto split: prod.splits)
  qed
qed

text \<open>The denylist wins: a denylisted tool is refused whatever the allowlist, the constitution
  and the quotas say, and the refusal is what the log records.\<close>

theorem denylist_wins:
  assumes "permission g = Some p" and "name \<in> denied p"
  shows "check name a g = Inr ((False, Denylisted name), audit_record name a False (Denylisted name) g)"
  using assms by (simp add: check_def check_permission_def deny_def)

theorem denylist_wins_witness:
  "check ''grasp'' [] \<lparr>permission = Some \<lparr>allowed = Some {''grasp''}, denied = {''grasp''}\<rparr>, constitution = [],
       amplitude = None, rate_limit = None, audit = [], counts = []\<rparr>
   = Inr ((False, Denylisted ''grasp''),
      \<lparr>permission = Some \<lparr>allowed = Some {''grasp''}, denied = {''grasp''}\<rparr>, constitution = [],
       amplitude = None, rate_limit = None,
       audit = [\<lparr>entry_action = ''grasp'', entry_args = [], entry_allowed = False, entry_reason = Denylisted ''grasp''\<rparr>],
       counts = []\<rparr>)"
  by (subst denylist_wins [where p = "\<lparr>allowed = Some {''grasp''}, denied = {''grasp''}\<rparr>"])
     (simp_all add: audit_record_def)

text \<open>Amplitude: with finite limits, \<open>set_velocity\<close> passes the amplitude stage exactly when each
  of its two speeds is a finite number within its limit or is NaN.  Infinite speeds are stopped; a
  NaN is not, so this stage alone does not stop a NaN speed.\<close>

theorem amplitude_stage_iff:
  assumes "arg_float a ''vx'' = Inr vx" and "arg_float a ''wz'' = Inr wz"
  shows "check_amplitude (Some \<lparr>amp_max_vx = Fin mx, amp_max_wz = Fin mz\<rparr>) ''set_velocity'' a = Inr None \<longleftrightarrow>
     (vx = NaN \<or> (\<exists>q. vx = Fin q \<and> \<bar>q\<bar> \<le> mx)) \<and> (wz = NaN \<or> (\<exists>q. wz = Fin q \<and> \<bar>q\<bar> \<le> mz))"
  using assms by (cases vx; cases wz) (auto simp: check_amplitude_def not_less split: if_splits)

theorem amplitude_stage_iff_witness:
  "check_amplitude (Some \<lparr>amp_max_vx = Fin (3 / 2), amp_max_wz = Fin 3\<rparr>) ''set_velocity''
     [(''vx'', PFloat (Fin 1)), (''wz'', PFloat NaN)] = Inr None"
  by (subst amplitude_stage_iff [where vx = "Fin 1" and wz = NaN]) (simp_all add: arg_float_def dict_getd_def)

end
