(* ===== verification/Memory.thy ===== *)
theory Memory
  imports Store Context Governance
begin

text \<open>
  Long-term memory and identity: \<open>robot_agent/memory.py\<close> (namespaces, the hook that prepares the
  model input, the tools that write and read facts) and \<open>robot_agent/identity.py\<close>, over any store
  that offers \<open>store_ops\<close>. The rendered prompt texts are arguments.
\<close>

section \<open>Names\<close>

definition kind_facts :: string where "kind_facts = ''facts''"
definition kind_episodic :: string where "kind_episodic = ''episodic''"
definition kind_prefs :: string where "kind_prefs = ''prefs''"
definition kind_identity :: string where "kind_identity = ''identity''"
definition identity_key :: string where "identity_key = ''self''"

definition p1_kinds :: "string list" where
  "p1_kinds = [kind_facts, kind_episodic, kind_prefs]"

definition default_recall_kinds :: "string list" where
  "default_recall_kinds = [kind_facts, kind_prefs]"

definition memory_ns :: "string \<Rightarrow> string \<Rightarrow> namespace" where
  "memory_ns robot_id kind = [robot_id, kind]"

section \<open>Texts\<close>

text \<open>\<open>identity_prompt\<close> and \<open>memory_header\<close> are the rendered templates, \<open>wide_semicolon\<close> the
  separator of a list in the identity.\<close>

record memory_deps =
  memory_header :: "string \<Rightarrow> string"
  identity_prompt :: "pyval \<Rightarrow> pyval \<Rightarrow> string \<Rightarrow> string \<Rightarrow> string \<Rightarrow> string"
  wide_semicolon :: string

definition unwrap_value :: "pydict \<Rightarrow> pyval" where
  "unwrap_value v = (if map fst v = [''value''] then dict_getd v ''value'' PNone else PDict v)"

definition memory_line :: "(rat \<Rightarrow> string) \<Rightarrow> string \<Rightarrow> item \<Rightarrow> string" where
  "memory_line ff kind it = ''- ['' @ kind @ ''] '' @ item_key it @ '': '' @ py_str ff (unwrap_value (item_value it))"

definition format_memory :: "context_deps \<Rightarrow> memory_deps \<Rightarrow> (string, item list) dict \<Rightarrow> string option" where
  "format_memory d md by_kind =
     (let lines = concat (map (\<lambda>(kind, its). map (memory_line (float_digits d) kind) its) by_kind) in
      if lines = [] then None else Some (memory_header md (join [CHR 0x0A] lines)))"

text \<open>\<open>for x in v\<close>.\<close>

fun iterate :: "pyval \<Rightarrow> pyval list result" where
  "iterate (PList xs) = Inr xs"
| "iterate (PStr s) = Inr (map (\<lambda>c. PStr [c]) s)"
| "iterate (PDict d) = Inr (map (\<lambda>kv. PStr (fst kv)) d)"
| "iterate _ = Inl TypeError"

definition format_list :: "context_deps \<Rightarrow> memory_deps \<Rightarrow> pyval \<Rightarrow> string result" where
  "format_list d md v =
     (case iterate (if truthy v then v else PList []) of
        Inl e \<Rightarrow> Inl e
      | Inr xs \<Rightarrow> Inr (join (wide_semicolon md) (map (py_str (float_digits d)) xs)))"

definition format_identity :: "context_deps \<Rightarrow> memory_deps \<Rightarrow> pydict \<Rightarrow> string result" where
  "format_identity d md identity =
     (let caps = dict_getd identity ''capabilities'' PNone in
      case (if truthy caps then caps else PDict []) of
        PDict cs \<Rightarrow>
          (case map_result (format_list d md)
                  [dict_getd identity ''values'' PNone, dict_getd cs ''good_at'' PNone, dict_getd cs ''bad_at'' PNone] of
             Inl e \<Rightarrow> Inl e
           | Inr texts \<Rightarrow> Inr (identity_prompt md (dict_getd identity ''name'' (PStr [])) (dict_getd identity ''persona'' (PStr []))
                            (texts ! 0) (texts ! 1) (texts ! 2)))
      | _ \<Rightarrow> Inl AttributeError)"

section \<open>Identity\<close>

definition set_identity :: "'s store_ops \<Rightarrow> string \<Rightarrow> pydict \<Rightarrow> (unit, 's) proc" where
  "set_identity ops robot_id identity = prim (op_put ops (memory_ns robot_id kind_identity) identity_key identity)"

definition get_identity :: "'s store_ops \<Rightarrow> string \<Rightarrow> (pydict option, 's) proc" where
  "get_identity ops robot_id =
     bind_proc (prim (op_get ops (memory_ns robot_id kind_identity) identity_key)) (\<lambda>x. ret (map_option item_value x))"

definition ensure_default_identity :: "'s store_ops \<Rightarrow> string \<Rightarrow> pydict \<Rightarrow> (pydict, 's) proc" where
  "ensure_default_identity ops robot_id identity =
     bind_proc (get_identity ops robot_id) (\<lambda>x.
       case x of
         Some existing \<Rightarrow> ret existing
       | None \<Rightarrow> bind_proc (set_identity ops robot_id identity) (\<lambda>_. ret identity))"

definition load_identity_text :: "context_deps \<Rightarrow> memory_deps \<Rightarrow> 's store_ops \<Rightarrow> string \<Rightarrow> (string option, 's) proc" where
  "load_identity_text d md ops robot_id =
     bind_proc (get_identity ops robot_id) (\<lambda>x.
       case x of
         None \<Rightarrow> ret None
       | Some identity \<Rightarrow>
           if identity = [] then ret None
           else bind_proc (of_result (format_identity d md identity)) (\<lambda>t. ret (Some t)))"

section \<open>The hook before each model call\<close>

definition text_system :: "string \<Rightarrow> message" where
  "text_system t = \<lparr>role = SystemRole, msg_id = None, content = PStr t, msg_name = None,
     tool_calls = [], tool_call_id = None, status = None\<rparr>"

text \<open>One search per kind, with the default limit of ten items.\<close>

definition default_limit :: nat where
  "default_limit = 10"

fun recall_kinds :: "'s store_ops \<Rightarrow> string \<Rightarrow> string list \<Rightarrow> (string, item list) dict \<Rightarrow> ((string, item list) dict, 's) proc" where
  "recall_kinds ops robot_id [] acc = ret acc"
| "recall_kinds ops robot_id (k # ks) acc =
     bind_proc (prim (op_search ops (memory_ns robot_id k) default_limit 0)) (\<lambda>xs.
       recall_kinds ops robot_id ks (dict_set k xs acc))"

record hook_config =
  hk_kinds :: "string list"
  hk_identity :: bool
  hk_model :: "(nat \<Rightarrow> string \<Rightarrow> int \<Rightarrow> message result) option"
  hk_policy :: "context_policy option"
  hk_fallback :: context_policy

definition identity_blocks :: "context_deps \<Rightarrow> memory_deps \<Rightarrow> hook_config \<Rightarrow> 's store_ops \<Rightarrow> string \<Rightarrow> (message list, 's) proc" where
  "identity_blocks d md cfg ops robot_id =
     (if hk_identity cfg
      then bind_proc (load_identity_text d md ops robot_id) (\<lambda>t. ret (case t of None \<Rightarrow> [] | Some x \<Rightarrow> [text_system x]))
      else ret [])"

definition memory_blocks :: "context_deps \<Rightarrow> memory_deps \<Rightarrow> hook_config \<Rightarrow> 's store_ops \<Rightarrow> string \<Rightarrow> (message list, 's) proc" where
  "memory_blocks d md cfg ops robot_id =
     bind_proc (catch_all (recall_kinds ops robot_id (hk_kinds cfg) []) (\<lambda>_. ret [])) (\<lambda>by_kind.
       ret (case format_memory d md by_kind of None \<Rightarrow> [] | Some x \<Rightarrow> [text_system x]))"

definition hook_limit :: "hook_config \<Rightarrow> int" where
  "hook_limit cfg = hard_limit_tokens (case hk_policy cfg of Some p \<Rightarrow> p | None \<Rightarrow> hk_fallback cfg)"

text \<open>Assembling the input: identity, the system messages of the prepared history, memory, the rest.\<close>

definition assemble :: "context_deps \<Rightarrow> hook_config \<Rightarrow> robot_state \<Rightarrow> message list \<Rightarrow> message list \<Rightarrow> (context_update \<times> message list) result" where
  "assemble d cfg st ident mem =
     (let reserved = int (tok d (ident @ mem));
          model = (if hk_policy cfg = None then None else hk_model cfg)
      in case prepare_context d (hk_fallback cfg) model (hk_policy cfg) (if hk_policy cfg = None then 0 else reserved) st of
           Inl e \<Rightarrow> Inl e
         | Inr pc \<Rightarrow>
             (let n = leading_system (prepared_messages pc);
                  prefix = ident @ take n (prepared_messages pc)
              in case trim_llm_input_messages d (prefix @ mem @ drop n (prepared_messages pc)) (int (length prefix)) (hook_limit cfg) of
                   Inl e \<Rightarrow> Inl e
                 | Inr out \<Rightarrow> Inr (state_update pc, out)))"

definition inject_memory ::
  "context_deps \<Rightarrow> memory_deps \<Rightarrow> hook_config \<Rightarrow> string \<Rightarrow> 's store_ops option \<Rightarrow> robot_state \<Rightarrow> (context_update \<times> message list, 's) proc" where
  "inject_memory d md cfg robot_id store st =
     (case store of
        None \<Rightarrow> of_result (assemble d cfg st [] [])
      | Some ops \<Rightarrow>
          bind_proc (identity_blocks d md cfg ops robot_id) (\<lambda>ident.
          bind_proc (memory_blocks d md cfg ops robot_id) (\<lambda>mem.
            of_result (assemble d cfg st ident mem))))"

section \<open>The memory tools\<close>

datatype memory_reply =
    UnknownKind string
  | MemoryRefused remark
  | Remembered string string string
  | Recalled string

text \<open>\<open>remember_fact\<close> goes through the governance policy; the state pairs the policy and the store.\<close>

definition remember_fact :: "'s store_ops \<Rightarrow> string \<Rightarrow> string \<Rightarrow> string \<Rightarrow> string \<Rightarrow> (memory_reply, governance option \<times> 's) proc" where
  "remember_fact ops robot_id key value kind gs =
     (let (g, s) = gs;
          write = (\<lambda>g'. case op_put ops (memory_ns robot_id kind) key [(''value'', PStr value)] s of
                     (Inl e, s') \<Rightarrow> Some (Inl e, (g', s'))
                   | (Inr _, s') \<Rightarrow> Some (Inr (Remembered kind key value), (g', s')))
      in if kind \<notin> set p1_kinds then Some (Inr (UnknownKind kind), gs)
         else (case g of
                 None \<Rightarrow> write None
               | Some gov \<Rightarrow>
                   (case check ''remember_fact'' [(''key'', PStr key), (''value'', PStr value), (''kind'', PStr kind)] gov of
                      Inl e \<Rightarrow> Some (Inl e, gs)
                    | Inr ((ok, r), gov') \<Rightarrow>
                        if ok then write (Some gov') else Some (Inr (MemoryRefused r), (Some gov', s)))))"

definition recall :: "context_deps \<Rightarrow> 's store_ops \<Rightarrow> string \<Rightarrow> string \<Rightarrow> string \<Rightarrow> (memory_reply, governance option \<times> 's) proc" where
  "recall d ops robot_id key kind gs =
     (case op_get ops (memory_ns robot_id kind) key (snd gs) of
        (Inl e, s') \<Rightarrow> Some (Inl e, (fst gs, s'))
      | (Inr x, s') \<Rightarrow>
          Some (Inr (Recalled (case x of Some it \<Rightarrow> py_str (float_digits d) (unwrap_value (item_value it)) | None \<Rightarrow> ''none'')), (fst gs, s')))"

section \<open>What the model receives\<close>

lemma assemble_cases:
  assumes "assemble d cfg st ident mem = Inr (u, out)"
  obtains keep rest where "trim_llm_input_messages d ((ident @ keep) @ rest) (int (length (ident @ keep))) (hook_limit cfg) = Inr out"
  using assms that by (auto simp: assemble_def Let_def simp del: append_assoc length_append split: sum.splits)

lemma assemble_bound:
  assumes "additive d" and "assemble d cfg st ident mem = Inr (u, out)"
  shows "int (tok d out) \<le> hook_limit cfg \<and> take (length ident) out = ident"
proof -
  from assms(2) obtain keep rest where
    "trim_llm_input_messages d ((ident @ keep) @ rest) (int (length (ident @ keep))) (hook_limit cfg) = Inr out"
    by (rule assemble_cases)
  note b = trim_within_limit [OF assms(1) this]
  moreover have "take (length (ident @ keep)) ((ident @ keep) @ rest) = ident @ keep" by simp
  ultimately have "take (length (ident @ keep)) out = ident @ keep" unfolding nat_int by (simp only:)
  then have "take (length ident) (take (length (ident @ keep)) out) = ident" by simp
  then have "take (length ident) out = ident" by (simp add: take_take min_def)
  with b show ?thesis by simp
qed

lemma inject_memory_cases:
  assumes "inject_memory d md cfg robot_id store st s = Some (Inr (u, out), s')"
  obtains ident mem where "assemble d cfg st ident mem = Inr (u, out)"
    "\<And>ops t s1. store = Some ops \<Longrightarrow> hk_identity cfg \<Longrightarrow> load_identity_text d md ops robot_id s = Some (Inr (Some t), s1) \<Longrightarrow>
       ident = [text_system t]"
proof (cases store)
  case None
  with assms that [of "[]" "[]"] show ?thesis by (auto simp: inject_memory_def)
next
  case (Some ops)
  with assms obtain ident s1 mem s2 where
    i: "identity_blocks d md cfg ops robot_id s = Some (Inr ident, s1)"
    and a: "assemble d cfg st ident mem = Inr (u, out)"
    by (auto simp: inject_memory_def elim!: bind_okE)
  show ?thesis
  proof (rule that [OF a])
    fix ops' t s1'
    assume "store = Some ops'" "hk_identity cfg" "load_identity_text d md ops' robot_id s = Some (Inr (Some t), s1')"
    with i Some show "ident = [text_system t]" by (simp add: identity_blocks_def)
  qed
qed

text \<open>The model input is bounded and anchored: whatever the store, the history, the summary model
  and the third-party trimmer do, an input the hook produces stays within the hard token limit, and
  when an identity is stored its block is the first message, never trimmed away.\<close>

theorem model_input_bounded_and_anchored:
  assumes "additive d" and "inject_memory d md cfg robot_id (Some ops) st s = Some (Inr (u, out), s')"
  shows "int (tok d out) \<le> hook_limit cfg \<and>
     (hk_identity cfg \<and> load_identity_text d md ops robot_id s = Some (Inr (Some t), s1)
        \<longrightarrow> out \<noteq> [] \<and> hd out = text_system t)"
proof -
  from assms(2) obtain ident mem where a: "assemble d cfg st ident mem = Inr (u, out)"
    and i: "\<And>ops' t s1. Some ops = Some ops' \<Longrightarrow> hk_identity cfg \<Longrightarrow>
       load_identity_text d md ops' robot_id s = Some (Inr (Some t), s1) \<Longrightarrow> ident = [text_system t]"
    by (rule inject_memory_cases) blast
  note b = assemble_bound [OF assms(1) a]
  have "out \<noteq> [] \<and> hd out = text_system t" if "take 1 out = [text_system t]"
    using that by (cases out) auto
  then show ?thesis using b i [OF refl, of t s1] by auto
qed

definition demo_memory_deps :: memory_deps where
  "demo_memory_deps = \<lparr>memory_header = id, identity_prompt = (\<lambda>n p v g b. v @ g @ b), wide_semicolon = '';''\<rparr>"

definition demo_hook :: hook_config where
  "demo_hook = \<lparr>hk_kinds = default_recall_kinds, hk_identity = True, hk_model = None, hk_policy = Some demo_policy,
     hk_fallback = default_policy\<rparr>"

definition demo_ops :: "memory_store store_ops" where
  "demo_ops = memory_ops (\<lambda>n. int n)"

definition demo_robot_store :: memory_store where
  "demo_robot_store = put_item (\<lambda>n. int n) [''r'', ''identity''] ''self'' (Some [(''values'', PList [PStr ''safe''])]) empty_store"

lemma demo_identity:
  "load_identity_text demo_deps demo_memory_deps demo_ops ''r'' demo_robot_store = Some (Inr (Some ''safe''), demo_robot_store)"
proof -
  have l: "look demo_robot_store [''r'', ''identity''] ''self'' = Some \<lparr>item_value = [(''values'', PList [PStr ''safe''])],
      item_key = ''self'', item_namespace = [''r'', ''identity''], created_at = 0, updated_at = 1\<rparr>"
    by (simp add: demo_robot_store_def look_put_item empty_store_def)
  have t: "touch [''r'', ''identity''] demo_robot_store = demo_robot_store"
    by (simp add: demo_robot_store_def put_item_def touch_def empty_store_def bucket_def dict_getd_def)
  show ?thesis
    by (simp add: load_identity_text_def get_identity_def memory_ns_def kind_identity_def identity_key_def demo_ops_def
        memory_get l t bind_proc_def format_identity_def format_list_def dict_getd_def demo_memory_deps_def)
qed

theorem model_input_bounded_and_anchored_witness:
  "\<exists>u out s'. inject_memory demo_deps demo_memory_deps demo_hook ''r'' (Some demo_ops) (demo_state []) demo_robot_store = Some (Inr (u, out), s') \<and>
     int (tok demo_deps out) \<le> 3 \<and> out \<noteq> [] \<and> hd out = text_system ''safe''"
proof -
  have add: "additive demo_deps" by (simp add: additive_def demo_deps_def)
  have i: "identity_blocks demo_deps demo_memory_deps demo_hook demo_ops ''r'' demo_robot_store
      = Some (Inr [text_system ''safe''], demo_robot_store)"
    by (simp add: identity_blocks_def demo_hook_def demo_identity bind_proc_def)
  have under: "items_under demo_robot_store [''r'', ''facts''] = []" "items_under demo_robot_store [''r'', ''prefs''] = []"
    by (simp_all add: items_under_def demo_robot_store_def put_item_def touch_def empty_store_def has_prefix_def bucket_def dict_getd_def)
  have m: "memory_blocks demo_deps demo_memory_deps demo_hook demo_ops ''r'' demo_robot_store = Some (Inr [], demo_robot_store)"
    by (simp add: memory_blocks_def demo_hook_def default_recall_kinds_def kind_facts_def kind_prefs_def memory_ns_def demo_ops_def
        memory_search under page_of_def catch_all_def bind_proc_def format_memory_def)
  obtain u out where a: "assemble demo_deps demo_hook (demo_state []) [text_system ''safe''] [] = Inr (u, out)"
    by (simp add: assemble_def demo_hook_def prepare_context_def demo_state_def hard_window_def inject_summary_def leading_system_def
        trim_llm_input_messages_def demo_deps_def demo_policy_def with_update_def strip_def lstrip_def rstrip_def hook_limit_def text_system_def)
  have run: "inject_memory demo_deps demo_memory_deps demo_hook ''r'' (Some demo_ops) (demo_state []) demo_robot_store
      = Some (Inr (u, out), demo_robot_store)"
    by (simp add: inject_memory_def i m a bind_proc_def)
  from model_input_bounded_and_anchored [OF add run, of "''safe''" demo_robot_store] run demo_identity
  show ?thesis by (auto simp: demo_hook_def hook_limit_def demo_policy_def)
qed

end
