(* ===== verification/Driver.thy ===== *)
theory Driver
  imports Memory "HOL-Library.Multiset"
begin

text \<open>
  The resident driver: \<open>robot_agent/driver/events.py\<close> (events, the priority inbox, the sensor pump),
  \<open>driver/policy.py\<close> (idle policies, choice of the thread, the graph's input) and
  \<open>driver/loop.py\<close> (one tick, the loop). The compiled graph, the idle policy and the hook after a
  turn are arguments that work on a world of any type; events that arrive while the idle policy
  runs are an argument of the tick.
\<close>

section \<open>Events and the inbox\<close>

record event =
  ev_kind :: string
  ev_ts :: pyfloat
  ev_payload :: pydict
  ev_priority :: int

definition kind_user_msg :: string where "kind_user_msg = ''user_msg''"
definition kind_sensor :: string where "kind_sensor = ''sensor''"
definition kind_timer :: string where "kind_timer = ''timer''"
definition kind_goal_due :: string where "kind_goal_due = ''goal_due''"

text \<open>\<open>PriorityInbox\<close>: entries \<open>(-priority, seq, event)\<close>, kept in the order in which the queue
  hands them out.\<close>

type_synonym entry = "int \<times> nat \<times> event"

record priority_inbox =
  entries :: "entry list"
  next_seq :: nat

definition empty_inbox :: priority_inbox where
  "empty_inbox = \<lparr>entries = [], next_seq = 0\<rparr>"

fun entry_before :: "entry \<Rightarrow> entry \<Rightarrow> bool" where
  "entry_before (p, n, e) (p', n', e') \<longleftrightarrow> p < p' \<or> (p = p' \<and> n < n')"

fun queue_push :: "entry \<Rightarrow> entry list \<Rightarrow> entry list" where
  "queue_push x [] = [x]"
| "queue_push x (y # ys) = (if entry_before x y then x # y # ys else y # queue_push x ys)"

definition inbox_put :: "event \<Rightarrow> priority_inbox \<Rightarrow> priority_inbox" where
  "inbox_put e q =
     \<lparr>entries = queue_push (- ev_priority e, next_seq q, e) (entries q), next_seq = Suc (next_seq q)\<rparr>"

text \<open>\<open>get\<close> with a timeout, when nothing arrives while it waits: the first entry, or None.\<close>

definition inbox_get :: "priority_inbox \<Rightarrow> event option \<times> priority_inbox" where
  "inbox_get q =
     (case entries q of [] \<Rightarrow> (None, q) | (_, _, e) # es \<Rightarrow> (Some e, q\<lparr>entries := es\<rparr>))"

definition qsize :: "priority_inbox \<Rightarrow> nat" where
  "qsize q = length (entries q)"

text \<open>\<open>pump_sensor\<close>: observations that pass the predicate become events; the source and the frame
  are added where the payload does not have them.\<close>

record observation =
  ob_source :: string
  ob_ts :: pyfloat
  ob_frame :: "string option"
  ob_payload :: pydict

definition set_default :: "string \<Rightarrow> pyval \<Rightarrow> pydict \<Rightarrow> pydict" where
  "set_default k v d = (if dict_get d k = None then dict_set k v d else d)"

definition sensor_event :: "string \<Rightarrow> int \<Rightarrow> observation \<Rightarrow> event" where
  "sensor_event kind priority ob =
     (let p = set_default ''source'' (PStr (ob_source ob)) (ob_payload ob);
          p' = (case ob_frame ob of None \<Rightarrow> p | Some f \<Rightarrow> set_default ''frame'' (PStr f) p)
      in \<lparr>ev_kind = kind, ev_ts = ob_ts ob, ev_payload = p', ev_priority = priority\<rparr>)"

fun pump_sensor :: "(event \<Rightarrow> 'q \<Rightarrow> 'q) \<Rightarrow> string \<Rightarrow> int \<Rightarrow> (observation \<Rightarrow> bool) option \<Rightarrow> observation list \<Rightarrow> 'q \<Rightarrow> nat \<times> 'q" where
  "pump_sensor put kind priority keep [] q = (0, q)"
| "pump_sensor put kind priority keep (ob # obs) q =
     (if (case keep of None \<Rightarrow> True | Some f \<Rightarrow> f ob)
      then (let (n, q') = pump_sensor put kind priority keep obs (put (sensor_event kind priority ob) q) in (Suc n, q'))
      else pump_sensor put kind priority keep obs q)"

section \<open>Policies\<close>

definition standby :: "(event option, 'w) proc" where
  "standby = ret None"

text \<open>\<open>now\<close> is the monotonic clock.\<close>

definition prompt_idle :: "string \<Rightarrow> int \<Rightarrow> pyfloat \<Rightarrow> (event option, 'w) proc" where
  "prompt_idle prompt priority now =
     ret (Some \<lparr>ev_kind = kind_timer, ev_ts = now, ev_payload = [(''text'', PStr prompt)], ev_priority = priority\<rparr>)"

definition py_or :: "pyval \<Rightarrow> pyval \<Rightarrow> pyval" where
  "py_or v w = (if truthy v then v else w)"

definition default_decide_thread :: "event \<Rightarrow> pyval" where
  "default_decide_thread e = py_or (dict_getd (ev_payload e) ''thread_id'' PNone) (PStr (ev_kind e))"

definition world_state_keys :: "string list" where
  "world_state_keys = [''pose'', ''battery'', ''detections'']"

text \<open>The input of a turn: messages that came with the event, or one human message; and the world
  state fields of the payload.\<close>

datatype input_messages = GivenMessages "pyval list" | HumanText string

record graph_fields =
  in_messages :: input_messages
  in_world :: pydict

definition world_fields :: "pydict \<Rightarrow> pydict" where
  "world_fields payload = concat (map (\<lambda>k. case dict_get payload k of None \<Rightarrow> [] | Some v \<Rightarrow> [(k, v)]) world_state_keys)"

definition default_make_input :: "(rat \<Rightarrow> string) \<Rightarrow> event \<Rightarrow> graph_fields result" where
  "default_make_input ff e =
     (let p = ev_payload e; given = dict_getd p ''messages'' PNone;
          txt = py_or (dict_getd p ''text'' PNone) (dict_getd p ''instruction'' PNone)
      in if truthy given
         then (case iterate given of Inl x \<Rightarrow> Inl x | Inr ms \<Rightarrow> Inr \<lparr>in_messages = GivenMessages ms, in_world = world_fields p\<rparr>)
         else Inr \<lparr>in_messages = HumanText (if truthy txt then py_str ff txt
                                             else ''['' @ ev_kind e @ ''] '' @ json_dumps ff (PDict p)),
                   in_world = world_fields p\<rparr>)"

definition user_message :: "string \<Rightarrow> int \<Rightarrow> string option \<Rightarrow> pyfloat \<Rightarrow> event" where
  "user_message txt priority thread now =
     \<lparr>ev_kind = kind_user_msg, ev_ts = now,
      ev_payload = (''text'', PStr txt) # (case thread of None \<Rightarrow> [] | Some t \<Rightarrow> [(''thread_id'', PStr t)]), ev_priority = priority\<rparr>"

definition resume_event :: "string \<Rightarrow> pyval \<Rightarrow> int \<Rightarrow> pyfloat \<Rightarrow> event" where
  "resume_event thread decision priority now =
     \<lparr>ev_kind = kind_user_msg, ev_ts = now, ev_payload = [(''thread_id'', PStr thread), (''resume'', decision)], ev_priority = priority\<rparr>"

section \<open>The driver\<close>

datatype graph_input = ResumeWith pyval | FreshInput graph_fields

record graph_result =
  gr_messages :: "message list"
  gr_interrupts :: "pyval list"

record turn_result =
  turn_index :: nat
  turn_event :: event
  turn_thread :: pyval
  turn_output :: graph_result
  turn_from_idle :: bool
  turn_interrupted :: bool

record ('q, 'w) driver_env =
  ib_put :: "event \<Rightarrow> 'q \<Rightarrow> 'q"
  ib_get :: "'q \<Rightarrow> event option \<times> 'q"
  on_idle :: "(event option, 'w) proc"
  ainvoke :: "graph_input \<Rightarrow> pyval \<Rightarrow> (graph_result, 'w) proc"
  decide_thread :: "event \<Rightarrow> pyval"
  make_input :: "event \<Rightarrow> graph_fields result"
  on_turn :: "turn_result \<Rightarrow> (unit, 'w) proc"

record ('q, 'w) driver =
  dr_inbox :: 'q
  dr_turn :: nat
  dr_pending :: "pyval list"
  dr_world :: 'w

definition is_interrupted :: "graph_result \<Rightarrow> bool" where
  "is_interrupted r \<longleftrightarrow> gr_interrupts r \<noteq> []"

fun hashable :: "pyval \<Rightarrow> bool" where
  "hashable (PList _) = False"
| "hashable (PDict _) = False"
| "hashable _ = True"

definition submit :: "('q, 'w) driver_env \<Rightarrow> event \<Rightarrow> ('q, 'w) driver \<Rightarrow> ('q, 'w) driver" where
  "submit env e st = st\<lparr>dr_inbox := ib_put env e (dr_inbox st)\<rparr>"

text \<open>Run a procedure on the world part of the driver.\<close>

definition on_world :: "('a, 'w) proc \<Rightarrow> ('a, ('q, 'w) driver) proc" where
  "on_world m st =
     (case m (dr_world st) of None \<Rightarrow> None | Some (r, w) \<Rightarrow> Some (r, st\<lparr>dr_world := w\<rparr>))"

definition poll :: "('q, 'w) driver_env \<Rightarrow> (event option, ('q, 'w) driver) proc" where
  "poll env st = (let (e, q) = ib_get env (dr_inbox st) in Some (Inr e, st\<lparr>dr_inbox := q\<rparr>))"

text \<open>Which event this tick handles, and whether the idle policy made it. \<open>late\<close> are the events
  submitted while the idle policy was running: they come first, and its own event is dropped.\<close>

definition next_event :: "('q, 'w) driver_env \<Rightarrow> event list \<Rightarrow> (event option \<times> bool, ('q, 'w) driver) proc" where
  "next_event env late =
     bind_proc (poll env) (\<lambda>e.
       case e of
         Some ev \<Rightarrow> ret (Some ev, False)
       | None \<Rightarrow>
           bind_proc (on_world (on_idle env)) (\<lambda>idle.
           bind_proc (\<lambda>st. Some (Inr (), fold (submit env) late st)) (\<lambda>_.
           bind_proc (poll env) (\<lambda>e2.
             ret (case e2 of Some ev \<Rightarrow> (Some ev, False) | None \<Rightarrow> (idle, True))))))"

text \<open>What to call the graph with. A thread that waits for a confirmation takes explicit resume
  events only; None skips the event.\<close>

definition plan_call :: "('q, 'w) driver_env \<Rightarrow> pyval list \<Rightarrow> event \<Rightarrow> graph_input option result" where
  "plan_call env pending e =
     (let t = decide_thread env e in
      if \<not> hashable t then Inl TypeError
      else if t \<in> set pending
      then (case dict_get (ev_payload e) ''resume'' of None \<Rightarrow> Inr None | Some v \<Rightarrow> Inr (Some (ResumeWith v)))
      else (case make_input env e of Inl x \<Rightarrow> Inl x | Inr flds \<Rightarrow> Inr (Some (FreshInput flds))))"

definition settle_thread :: "pyval \<Rightarrow> bool \<Rightarrow> pyval list \<Rightarrow> pyval list" where
  "settle_thread t interrupted pending = (if interrupted then List.insert t pending else removeAll t pending)"

definition run_call :: "('q, 'w) driver_env \<Rightarrow> event \<Rightarrow> bool \<Rightarrow> graph_input \<Rightarrow> (turn_result option, ('q, 'w) driver) proc" where
  "run_call env e from_idle inp =
     (let t = decide_thread env e in
      bind_proc (on_world (ainvoke env inp t)) (\<lambda>res st.
        let st' = st\<lparr>dr_pending := settle_thread t (is_interrupted res) (dr_pending st), dr_turn := Suc (dr_turn st)\<rparr>;
            turn = \<lparr>turn_index = dr_turn st', turn_event = e, turn_thread = t, turn_output = res,
                    turn_from_idle = from_idle, turn_interrupted = is_interrupted res\<rparr>
        in bind_proc (on_world (on_turn env turn)) (\<lambda>_. ret (Some turn)) st'))"

definition run_once :: "('q, 'w) driver_env \<Rightarrow> event list \<Rightarrow> (turn_result option, ('q, 'w) driver) proc" where
  "run_once env late =
     bind_proc (next_event env late) (\<lambda>(found, from_idle).
       case found of
         None \<Rightarrow> ret None
       | Some e \<Rightarrow> (\<lambda>st.
           bind_proc (of_result (plan_call env (dr_pending st) e)) (\<lambda>call.
             case call of None \<Rightarrow> ret None | Some inp \<Rightarrow> run_call env e from_idle inp) st))"

text \<open>\<open>run\<close> for the ticks before \<open>stop\<close>: each tick has the events submitted before it and the late
  ones. An exception goes to \<open>on_error\<close>; without one it ends the loop.\<close>

fun run_loop ::
  "('q, 'w) driver_env \<Rightarrow> (py_exc \<Rightarrow> (unit, ('q, 'w) driver) proc) option \<Rightarrow> (event list \<times> event list) list \<Rightarrow> (unit, ('q, 'w) driver) proc" where
  "run_loop env on_error [] = ret ()"
| "run_loop env on_error ((early, late) # ticks) = (\<lambda>st.
     case run_once env late (fold (submit env) early st) of
       None \<Rightarrow> None
     | Some (Inr _, st') \<Rightarrow> run_loop env on_error ticks st'
     | Some (Inl x, st') \<Rightarrow>
         (case on_error of
            None \<Rightarrow> Some (Inl x, st')
          | Some h \<Rightarrow> bind_proc (h x) (\<lambda>_. run_loop env on_error ticks) st'))"

section \<open>The order of service\<close>

text \<open>Where a new event goes: behind everything at least as urgent.\<close>

fun slot_in :: "event \<Rightarrow> event list \<Rightarrow> event list" where
  "slot_in e [] = [e]"
| "slot_in e (x # xs) = (if ev_priority e \<le> ev_priority x then x # slot_in e xs else e # x # xs)"

fun serve :: "('q \<Rightarrow> event option \<times> 'q) \<Rightarrow> nat \<Rightarrow> 'q \<Rightarrow> event list" where
  "serve get 0 q = []"
| "serve get (Suc n) q = (case get q of (None, q') \<Rightarrow> [] | (Some e, q') \<Rightarrow> e # serve get n q')"

lemma slot_in_mset: "mset (slot_in e xs) = add_mset e (mset xs)"
  by (induction xs) auto

lemma slot_in_set: "set (slot_in e xs) = insert e (set xs)"
  by (induction xs) auto

lemma slot_in_sorted:
  "sorted (map (\<lambda>x. - ev_priority x) xs) \<Longrightarrow> sorted (map (\<lambda>x. - ev_priority x) (slot_in e xs))"
  by (induction xs) (auto simp: slot_in_set)

lemma slot_in_filter:
  "sorted (map (\<lambda>x. - ev_priority x) xs) \<Longrightarrow>
   filter (\<lambda>x. ev_priority x = k) (slot_in e xs) = filter (\<lambda>x. ev_priority x = k) xs @ (if ev_priority e = k then [e] else [])"
proof (induction xs)
  case Nil
  then show ?case by simp
next
  case (Cons x xs)
  show ?case
  proof (cases "ev_priority e \<le> ev_priority x")
    case True
    with Cons show ?thesis by simp
  next
    case False
    then have "\<forall>y \<in> set (x # xs). ev_priority y < ev_priority e" using Cons.prems by auto
    then have "filter (\<lambda>y. ev_priority y = ev_priority e) (x # xs) = []" by (auto simp: filter_empty_conv)
    then show ?thesis using False by auto
  qed
qed

lemma slot_in_all: "fold slot_in es [] = sort_key (\<lambda>x. - ev_priority x) es"
proof -
  have r: "sorted (map (\<lambda>x. - ev_priority x) (fold slot_in es [])) \<and> mset (fold slot_in es []) = mset es \<and>
      (\<forall>k. filter (\<lambda>x. ev_priority x = k) (fold slot_in es []) = filter (\<lambda>x. ev_priority x = k) es)"
  proof (induction es rule: rev_induct)
    case Nil
    then show ?case by simp
  next
    case (snoc e es)
    then show ?case using slot_in_sorted slot_in_filter by (simp add: slot_in_mset)
  qed
  have "sort_key (\<lambda>x. - ev_priority x) es = fold slot_in es []"
  proof (rule properties_for_sort_key)
    fix k
    have eq: "(\<lambda>x. - ev_priority k = - ev_priority x) = (\<lambda>x. ev_priority x = ev_priority k)" by auto
    show "filter (\<lambda>x. - ev_priority k = - ev_priority x) (fold slot_in es []) = filter (\<lambda>x. - ev_priority k = - ev_priority x) es"
      unfolding eq using r by blast
  qed (use r in auto)
  then show ?thesis by simp
qed

text \<open>The contract the driver relies on.\<close>

locale event_inbox =
  fixes put :: "event \<Rightarrow> 'q \<Rightarrow> 'q"
    and get :: "'q \<Rightarrow> event option \<times> 'q"
    and waiting :: "'q \<Rightarrow> event list"
    and ok :: "'q \<Rightarrow> bool"
  assumes put_law: "ok q \<Longrightarrow> ok (put e q) \<and> waiting (put e q) = slot_in e (waiting q)"
    and get_empty_law: "ok q \<Longrightarrow> waiting q = [] \<Longrightarrow> get q = (None, q)"
    and get_law: "ok q \<Longrightarrow> waiting q = e # es \<Longrightarrow> \<exists>q'. get q = (Some e, q') \<and> ok q' \<and> waiting q' = es"
begin

lemma put_all_law: "ok q \<Longrightarrow> ok (fold put es q) \<and> waiting (fold put es q) = fold slot_in es (waiting q)"
  by (induction es arbitrary: q) (simp_all add: put_law)

lemma serve_all: "ok q \<Longrightarrow> serve get (length (waiting q)) q = waiting q"
proof (induction "waiting q" arbitrary: q)
  case Nil
  then show ?case by simp
next
  case (Cons e es)
  from get_law [OF Cons.prems Cons.hyps(2) [symmetric]] obtain q' where
    q': "get q = (Some e, q')" "ok q'" "waiting q' = es" by blast
  with Cons.hyps(1) [of q'] show ?case by (simp flip: Cons.hyps(2))
qed

lemma serves_by_priority:
  assumes "ok q" and "waiting q = []"
  shows "serve get (length es) (fold put es q) = sort_key (\<lambda>e. - ev_priority e) es"
proof -
  have w: "ok (fold put es q)" "waiting (fold put es q) = sort_key (\<lambda>e. - ev_priority e) es"
    using put_all_law [OF assms(1), of es] assms(2) by (simp_all add: slot_in_all)
  from serve_all [OF w(1)] show ?thesis by (simp add: w(2))
qed

end

definition inbox_ok :: "priority_inbox \<Rightarrow> bool" where
  "inbox_ok q \<longleftrightarrow> list_all (\<lambda>(p, n, e). p = - ev_priority e \<and> n < next_seq q) (entries q)"

definition waiting_events :: "priority_inbox \<Rightarrow> event list" where
  "waiting_events q = map (\<lambda>(p, n, e). e) (entries q)"

lemma queue_push_slot:
  "list_all (\<lambda>(p, n, e). p = - ev_priority e \<and> n < m) q \<Longrightarrow>
   map (\<lambda>(p, n, e). e) (queue_push (- ev_priority x, m, x) q) = slot_in x (map (\<lambda>(p, n, e). e) q) \<and>
   list_all (\<lambda>(p, n, e). p = - ev_priority e \<and> n < Suc m) (queue_push (- ev_priority x, m, x) q)"
proof (induction q)
  case Nil
  then show ?case by simp
next
  case (Cons y q)
  obtain p n e where y: "y = (p, n, e)" by (metis prod.exhaust)
  with Cons show ?case by (auto simp: list_all_iff)
qed

interpretation priority: event_inbox inbox_put inbox_get waiting_events inbox_ok
proof
  fix q e
  assume "inbox_ok q"
  then show "inbox_ok (inbox_put e q) \<and> waiting_events (inbox_put e q) = slot_in e (waiting_events q)"
    using queue_push_slot [of "next_seq q" "entries q" e] by (simp add: inbox_ok_def inbox_put_def waiting_events_def)
next
  fix q
  assume "waiting_events q = []"
  then show "inbox_get q = (None, q)" by (simp add: inbox_get_def waiting_events_def)
next
  fix q e es
  assume "inbox_ok q" "waiting_events q = e # es"
  then show "\<exists>q'. inbox_get q = (Some e, q') \<and> inbox_ok q' \<and> waiting_events q' = es"
    by (cases "entries q") (auto simp: inbox_get_def waiting_events_def inbox_ok_def)
qed

text \<open>Urgent first, otherwise first come, first served: whatever events are put into an empty
  inbox, they are handed out by falling priority, and events of the same priority in the order
  in which they arrived.\<close>

theorem inbox_serves_by_priority:
  "serve inbox_get (length es) (fold inbox_put es empty_inbox) = sort_key (\<lambda>e. - ev_priority e) es"
  by (rule priority.serves_by_priority) (simp_all add: empty_inbox_def inbox_ok_def waiting_events_def)

section \<open>Which calls reach the graph\<close>

text \<open>A call: thread, input, and whether it ended interrupted (None when it raised).\<close>

type_synonym call = "pyval \<times> graph_input \<times> bool option"

text \<open>The driver with the calls of the graph recorded in its world.\<close>

definition lift_log :: "('a, 'w) proc \<Rightarrow> ('a, 'w \<times> call list) proc" where
  "lift_log m wl = (case m (fst wl) of None \<Rightarrow> None | Some (r, w) \<Rightarrow> Some (r, (w, snd wl)))"

definition logged_call :: "('q, 'w) driver_env \<Rightarrow> graph_input \<Rightarrow> pyval \<Rightarrow> (graph_result, 'w \<times> call list) proc" where
  "logged_call env inp t wl =
     (case ainvoke env inp t (fst wl) of
        None \<Rightarrow> None
      | Some (Inl x, w) \<Rightarrow> Some (Inl x, (w, snd wl @ [(t, inp, None)]))
      | Some (Inr r, w) \<Rightarrow> Some (Inr r, (w, snd wl @ [(t, inp, Some (is_interrupted r))])))"

definition with_log :: "('q, 'w) driver_env \<Rightarrow> ('q, 'w \<times> call list) driver_env" where
  "with_log env =
     \<lparr>ib_put = ib_put env, ib_get = ib_get env, on_idle = lift_log (on_idle env), ainvoke = logged_call env,
      decide_thread = decide_thread env, make_input = make_input env, on_turn = (\<lambda>turn. lift_log (on_turn env turn))\<rparr>"

text \<open>The life of a driver: submissions and ticks in any order.\<close>

inductive driver_run :: "('q, 'w) driver_env \<Rightarrow> ('q, 'w) driver \<Rightarrow> ('q, 'w) driver \<Rightarrow> bool" for env where
  start: "driver_run env st st"
| submitted: "driver_run env st st1 \<Longrightarrow> driver_run env st (submit env e st1)"
| ticked: "driver_run env st st1 \<Longrightarrow> run_once env late st1 = Some (r, st2) \<Longrightarrow> driver_run env st st2"

text \<open>The threads whose last completed call ended interrupted.\<close>

fun paused_after :: "call list \<Rightarrow> pyval set \<Rightarrow> pyval set" where
  "paused_after [] ts = ts"
| "paused_after ((t, inp, Some True) # cs) ts = paused_after cs (insert t ts)"
| "paused_after ((t, inp, Some False) # cs) ts = paused_after cs (ts - {t})"
| "paused_after ((t, inp, None) # cs) ts = paused_after cs ts"

fun is_resume :: "graph_input \<Rightarrow> bool" where
  "is_resume (ResumeWith _) = True"
| "is_resume (FreshInput _) = False"

text \<open>Every call is a resume exactly when its thread is paused at that point.\<close>

fun well_routed :: "call list \<Rightarrow> pyval set \<Rightarrow> bool" where
  "well_routed [] ts = True"
| "well_routed (c # cs) ts = ((is_resume (fst (snd c)) \<longleftrightarrow> fst c \<in> ts) \<and> well_routed cs (paused_after [c] ts))"

lemma paused_after_append: "paused_after (xs @ ys) ts = paused_after ys (paused_after xs ts)"
  by (induction xs ts rule: paused_after.induct) auto

lemma well_routed_append: "well_routed (xs @ ys) ts \<longleftrightarrow> well_routed xs ts \<and> well_routed ys (paused_after xs ts)"
proof (induction xs arbitrary: ts)
  case Nil
  then show ?case by simp
next
  case (Cons c xs)
  then show ?case using paused_after_append [of "[c]" xs ts] by simp
qed

definition routed :: "('q, 'w \<times> call list) driver \<Rightarrow> bool" where
  "routed st \<longleftrightarrow> well_routed (snd (dr_world st)) {} \<and> set (dr_pending st) = paused_after (snd (dr_world st)) {}"

text \<open>Procedures that leave pending threads and log alone.\<close>

definition quiet :: "('a, ('q, 'w \<times> call list) driver) proc \<Rightarrow> bool" where
  "quiet m \<longleftrightarrow> (\<forall>st r st'. m st = Some (r, st') \<longrightarrow>
      dr_pending st' = dr_pending st \<and> snd (dr_world st') = snd (dr_world st))"

lemma quiet_ret [intro]: "quiet (ret x)"
  by (simp add: quiet_def)

lemma quiet_bind [intro]: "quiet m \<Longrightarrow> (\<And>x. quiet (f x)) \<Longrightarrow> quiet (bind_proc m f)"
  by (force simp: quiet_def bind_proc_def split: option.splits prod.splits sum.splits)

lemma quiet_poll [intro]: "quiet (poll env)"
  by (simp add: quiet_def poll_def split: prod.splits)

lemma quiet_lifted [intro]: "quiet (on_world (lift_log m))"
  by (auto simp: quiet_def on_world_def lift_log_def split: option.splits)

lemma quiet_submits [intro]: "quiet (\<lambda>st. Some (Inr (), fold (submit env) es st))"
proof -
  have "dr_pending (fold (submit env) es st) = dr_pending st \<and> dr_world (fold (submit env) es st) = dr_world st" for st
    by (induction es arbitrary: st) (simp_all add: submit_def)
  then show ?thesis by (simp add: quiet_def)
qed

lemma with_log_sel [simp]:
  "on_idle (with_log env) = lift_log (on_idle env)" "ainvoke (with_log env) = logged_call env"
  "decide_thread (with_log env) = decide_thread env" "make_input (with_log env) = make_input env"
  "on_turn (with_log env) turn = lift_log (on_turn env turn)"
  by (simp_all add: with_log_def)

lemma quiet_next_event: "quiet (next_event (with_log env) late)"
  unfolding next_event_def
proof (intro quiet_bind quiet_poll)
  fix e
  show "quiet (case e of
         Some ev \<Rightarrow> ret (Some ev, False)
       | None \<Rightarrow>
           bind_proc (on_world (on_idle (with_log env))) (\<lambda>idle.
           bind_proc (\<lambda>st. Some (Inr (), fold (submit (with_log env)) late st)) (\<lambda>_.
           bind_proc (poll (with_log env)) (\<lambda>e2.
             ret (case e2 of Some ev \<Rightarrow> (Some ev, False) | None \<Rightarrow> (idle, True))))))"
    by (cases e) (simp_all add: quiet_bind quiet_poll quiet_lifted quiet_submits quiet_ret)
qed

lemma routed_quiet: "quiet m \<Longrightarrow> m st = Some (r, st') \<Longrightarrow> routed st \<Longrightarrow> routed st'"
  by (simp add: quiet_def routed_def)

lemma plan_call_routes:
  assumes "plan_call env pending e = Inr (Some inp)"
  shows "is_resume inp \<longleftrightarrow> decide_thread env e \<in> set pending"
  using assms by (auto simp: plan_call_def Let_def split: if_splits option.splits sum.splits)

lemma plan_call_with_log: "plan_call (with_log env) = plan_call env"
  unfolding plan_call_def with_log_sel ..

lemma logged_call_cases:
  assumes "on_world (logged_call env inp t) st = Some (res, st')"
  obtains x w where "res = Inl x" "st' = st\<lparr>dr_world := (w, snd (dr_world st) @ [(t, inp, None)])\<rparr>"
  | gr w where "res = Inr gr" "st' = st\<lparr>dr_world := (w, snd (dr_world st) @ [(t, inp, Some (is_interrupted gr))])\<rparr>"
  using assms that by (auto simp: on_world_def logged_call_def split: option.splits sum.splits)

lemma routed_run_call:
  assumes run: "run_call (with_log env) e idle inp st = Some (r, st')" and inv: "routed st"
    and how: "is_resume inp \<longleftrightarrow> decide_thread env e \<in> set (dr_pending st)"
  shows "routed st'"
proof -
  let ?t = "decide_thread env e"
  have ok: "well_routed (snd (dr_world st) @ [(?t, inp, b)]) {}" for b
    using inv how by (simp add: well_routed_append routed_def)
  from run obtain res st0 where call: "on_world (logged_call env inp ?t) st = Some (res, st0)"
    by (cases "on_world (logged_call env inp ?t) st") (auto simp: run_call_def bind_proc_def Let_def)
  then show ?thesis
  proof (cases rule: logged_call_cases)
    case (1 x w)
    with run call have "st' = st0" by (simp add: run_call_def Let_def)
    then show ?thesis using 1 inv ok [of None] by (simp add: routed_def paused_after_append)
  next
    case (2 gr w)
    let ?st1 = "st0\<lparr>dr_pending := settle_thread ?t (is_interrupted gr) (dr_pending st0), dr_turn := Suc (dr_turn st0)\<rparr>"
    let ?turn = "\<lparr>turn_index = Suc (dr_turn st0), turn_event = e, turn_thread = ?t, turn_output = gr,
        turn_from_idle = idle, turn_interrupted = is_interrupted gr\<rparr>"
    have rest: "bind_proc (on_world (lift_log (on_turn env ?turn))) (\<lambda>_. ret (Some ?turn)) ?st1 = Some (r, st')"
      using run call 2(1) by (simp add: run_call_def Let_def)
    have settled: "routed ?st1"
      using 2(2) inv ok [of "Some (is_interrupted gr)"]
      by (cases "is_interrupted gr") (auto simp: routed_def paused_after_append settle_thread_def)
    have "quiet (bind_proc (on_world (lift_log (on_turn env ?turn))) (\<lambda>_. ret (Some ?turn)))"
      by (intro quiet_bind quiet_lifted quiet_ret)
    from routed_quiet [OF this rest settled] show ?thesis .
  qed
qed

lemma routed_run_once:
  assumes "run_once (with_log env) late st = Some (r, st')" and "routed st"
  shows "routed st'"
proof -
  from assms(1) obtain res st1 where found: "next_event (with_log env) late st = Some (res, st1)"
    by (cases "next_event (with_log env) late st") (auto simp: run_once_def bind_proc_def)
  have inv: "routed st1" by (rule routed_quiet [OF quiet_next_event found assms(2)])
  show ?thesis
  proof (cases res)
    case (Inl x)
    with assms(1) found inv show ?thesis by (simp add: run_once_def)
  next
    case (Inr y)
    obtain which idle where y: "y = (which, idle)" by (cases y)
    show ?thesis
    proof (cases which)
      case None
      with assms(1) found Inr y inv show ?thesis by (simp add: run_once_def)
    next
      case (Some e)
      show ?thesis
      proof (cases "plan_call env (dr_pending st1) e")
        case (Inl x)
        then show ?thesis using assms(1) found \<open>res = Inr y\<close> y Some inv
          by (simp add: run_once_def plan_call_with_log)
      next
        case (Inr planned)
        show ?thesis
        proof (cases planned)
          case None
          then show ?thesis using assms(1) found \<open>res = Inr y\<close> y Some inv Inr
            by (simp add: run_once_def plan_call_with_log)
        next
          case plan: (Some inp)
          have "run_call (with_log env) e idle inp st1 = Some (r, st')"
            using assms(1) found \<open>res = Inr y\<close> y Some Inr plan
            by (simp add: run_once_def plan_call_with_log)
          then show ?thesis
            by (rule routed_run_call [OF _ inv]) (rule plan_call_routes [OF Inr [unfolded plan]])
        qed
      qed
    qed
  qed
qed

lemma driver_run_routed: "driver_run (with_log env) st st' \<Longrightarrow> routed st \<Longrightarrow> routed st'"
proof (induction rule: driver_run.induct)
  case (start st)
  then show ?case .
next
  case (submitted st st1 e)
  then show ?case by (simp add: routed_def submit_def)
next
  case (ticked st st1 late r st2)
  then show ?case using routed_run_once by blast
qed

text \<open>C16. A paused thread hears confirmations only: in every run of a driver with any graph, idle
  policy and turn hook, from a driver without pending threads, each call of the graph is a resume
  exactly when the last completed call on that thread was interrupted, and a fresh message
  otherwise; and the driver's pending set is always the set of paused threads.\<close>

theorem paused_threads_hear_resumes_only:
  assumes "driver_run (with_log env) \<lparr>dr_inbox = q, dr_turn = 0, dr_pending = [], dr_world = (w, [])\<rparr> st"
  shows "well_routed (snd (dr_world st)) {} \<and> set (dr_pending st) = paused_after (snd (dr_world st)) {}"
  using driver_run_routed [OF assms] by (simp add: routed_def)

definition demo_graph :: "graph_input \<Rightarrow> pyval \<Rightarrow> (graph_result, unit) proc" where
  "demo_graph inp t = ret \<lparr>gr_messages = [], gr_interrupts = (if is_resume inp then [] else [PNone])\<rparr>"

definition demo_driver :: "(priority_inbox, unit) driver_env" where
  "demo_driver = \<lparr>ib_put = inbox_put, ib_get = inbox_get, on_idle = standby, ainvoke = demo_graph,
     decide_thread = default_decide_thread, make_input = default_make_input (\<lambda>q. ''0''), on_turn = (\<lambda>_. ret ())\<rparr>"

definition demo_start :: "(priority_inbox, unit \<times> call list) driver" where
  "demo_start = \<lparr>dr_inbox = empty_inbox, dr_turn = 0, dr_pending = [], dr_world = ((), [])\<rparr>"

definition demo_after :: "(priority_inbox, unit \<times> call list) driver" where
  "demo_after = snd (the (run_once (with_log demo_driver) []
     (submit (with_log demo_driver) (user_message ''grasp'' 0 None (Fin 0)) demo_start)))"

lemmas driver_defs = run_once_def next_event_def poll_def submit_def with_log_def demo_driver_def demo_start_def inbox_put_def
    inbox_get_def empty_inbox_def user_message_def plan_call_def default_decide_thread_def default_make_input_def
    run_call_def on_world_def logged_call_def demo_graph_def lift_log_def bind_proc_def is_interrupted_def
    settle_thread_def py_or_def dict_getd_def kind_user_msg_def world_fields_def world_state_keys_def ret_def of_result_def

theorem paused_threads_hear_resumes_only_witness:
  "dr_pending demo_after = [PStr ''user_msg''] \<and> paused_after (snd (dr_world demo_after)) {} = {PStr ''user_msg''}"
proof -
  let ?st = "submit (with_log demo_driver) (user_message ''grasp'' 0 None (Fin 0)) demo_start"
  have "run_once (with_log demo_driver) [] ?st \<noteq> None" and pending: "dr_pending demo_after = [PStr ''user_msg'']"
    by (simp_all add: demo_after_def driver_defs Let_def)
  then obtain r where run: "run_once (with_log demo_driver) [] ?st = Some (r, demo_after)"
    by (auto simp: demo_after_def)
  have "driver_run (with_log demo_driver) demo_start demo_after"
    by (rule driver_run.ticked [OF driver_run.submitted [OF driver_run.start] run])
  from paused_threads_hear_resumes_only [OF this [unfolded demo_start_def]] pending show ?thesis by simp
qed

end
