(* ===== verification/Compaction.thy ===== *)
theory Compaction
  imports Memory
begin

text \<open>
  Memory compaction, \<open>robot_agent/governance/compaction.py\<close>: deduplication by value, optional
  resolution of conflicts by a model, optional decay by age, and the hook that runs them every few
  turns. The model is a function from the prompt; its prompt texts are arguments.
\<close>

section \<open>Signatures\<close>

text \<open>\<open>json.dumps(..., sort_keys=True)\<close>: dictionaries in key order at every level.\<close>

fun sort_value :: "pyval \<Rightarrow> pyval" where
  "sort_value (PList xs) = PList (map sort_value xs)"
| "sort_value (PDict d) = PDict (sort_key fst (map (\<lambda>(k, v). (k, sort_value v)) d))"
| "sort_value v = v"

definition value_signature :: "(rat \<Rightarrow> string) \<Rightarrow> item \<Rightarrow> string" where
  "value_signature ff it = json_dumps ff (sort_value (unwrap_value (item_value it)))"

section \<open>Deduplication\<close>

text \<open>What is known while the items are scanned from old to new: the latest item of each value, the
  keys to remove (a set: no key twice), the number of duplicates.\<close>

record dedupe_state =
  latest_by_sig :: "(string, item) dict"
  removed_keys :: "string list"
  dup_count :: nat

definition dedupe_step :: "(item \<Rightarrow> string) \<Rightarrow> item \<Rightarrow> dedupe_state \<Rightarrow> dedupe_state" where
  "dedupe_step sig it st =
     (let st1 = (case dict_get (latest_by_sig st) (sig it) of
                   None \<Rightarrow> st
                 | Some prev \<Rightarrow> st\<lparr>removed_keys := List.insert (item_key prev) (removed_keys st), dup_count := dup_count st + 1\<rparr>)
      in st1\<lparr>latest_by_sig := dict_set (sig it) it (latest_by_sig st1)\<rparr>)"

definition dedupe :: "(item \<Rightarrow> string) \<Rightarrow> item list \<Rightarrow> string list \<Rightarrow> nat \<times> string list" where
  "dedupe sig its removed =
     (let st = fold (dedupe_step sig) (sort_key updated_at its) \<lparr>latest_by_sig = [], removed_keys = removed, dup_count = 0\<rparr>
      in (dup_count st, removed_keys st))"

section \<open>Conflicts\<close>

text \<open>The regular expression \<open>DROP\s+(\d+)\<close>, ignoring case, scanned from the left.\<close>

function find_drops :: "string \<Rightarrow> nat list" where
  "find_drops s =
     (if s = [] then []
      else (let r = drop 4 s; sp = takeWhile is_space r; ds = takeWhile is_digit (drop (length sp) r) in
            if lower (take 4 s) = ''drop'' \<and> sp \<noteq> [] \<and> ds \<noteq> []
            then digits_value ds # find_drops (drop (length sp + length ds) r)
            else find_drops (tl s)))"
  by pat_completeness auto
termination by (relation "measure length") auto

declare find_drops.simps [simp del]

definition text_blocks :: "pyval list \<Rightarrow> string list" where
  "text_blocks bs = concat (map (\<lambda>b. case b of PDict d \<Rightarrow> (case dict_get d ''text'' of Some (PStr s) \<Rightarrow> [s] | _ \<Rightarrow> []) | _ \<Rightarrow> []) bs)"

fun content_to_text :: "(rat \<Rightarrow> string) \<Rightarrow> pyval \<Rightarrow> string" where
  "content_to_text ff (PStr s) = s"
| "content_to_text ff (PList bs) = join [CHR 0x0A] (text_blocks bs)"
| "content_to_text ff v = py_str ff v"

text \<open>\<open>conflict_line\<close> is one line of the listing: number, key, time of the update, value.\<close>

record compaction_deps =
  digits :: "rat \<Rightarrow> string"
  conflict_line :: "nat \<Rightarrow> string \<Rightarrow> int \<Rightarrow> string \<Rightarrow> string"
  conflict_prompt :: "string \<Rightarrow> string"

type_synonym 'p chat = "'p \<Rightarrow> message result"

definition drop_one :: "item list \<Rightarrow> nat \<Rightarrow> nat \<times> string list \<Rightarrow> nat \<times> string list" where
  "drop_one survivors n acc =
     (let (count, removed) = acc in
      if 1 \<le> n \<and> n \<le> length survivors \<and> item_key (survivors ! (n - 1)) \<notin> set removed
      then (count + 1, List.insert (item_key (survivors ! (n - 1))) removed)
      else acc)"

definition resolve_conflicts :: "compaction_deps \<Rightarrow> string chat \<Rightarrow> item list \<Rightarrow> string list \<Rightarrow> (nat \<times> string list) result" where
  "resolve_conflicts d model its removed =
     (let survivors = filter (\<lambda>it. item_key it \<notin> set removed) its in
      if length survivors < 2 then Inr (0, removed)
      else (let listing = join [CHR 0x0A] (map (\<lambda>(n, it). conflict_line d (Suc n) (item_key it) (updated_at it)
                                                  (py_str (digits d) (unwrap_value (item_value it))))
                                            (enumerate 0 survivors))
            in case model (conflict_prompt d listing) of
                 Inl e \<Rightarrow> Inl e
               | Inr msg \<Rightarrow> Inr (fold (drop_one survivors) (find_drops (content_to_text (digits d) (content msg))) (0, removed))))"

section \<open>Decay\<close>

definition too_old :: "pyfloat \<Rightarrow> int \<Rightarrow> item \<Rightarrow> bool" where
  "too_old max_age now it = fgt (Fin (of_int (now - updated_at it) / 1000000)) max_age"

definition decay_step :: "pyfloat \<Rightarrow> int \<Rightarrow> item \<Rightarrow> nat \<times> string list \<Rightarrow> nat \<times> string list" where
  "decay_step max_age now it acc =
     (if item_key it \<notin> set (snd acc) \<and> too_old max_age now it
      then (fst acc + 1, List.insert (item_key it) (snd acc)) else acc)"

section \<open>One namespace, all namespaces\<close>

definition conflict_kinds :: "string list" where
  "conflict_kinds = [kind_facts, kind_prefs]"

definition default_kinds :: "string list" where
  "default_kinds = [kind_facts, kind_prefs, kind_episodic]"

record compaction_report =
  rep_kind :: string
  rep_seen :: nat
  rep_deduped :: nat
  rep_conflicts :: nat
  rep_decayed :: nat
  rep_removed :: "string list"

definition rep_kept :: "compaction_report \<Rightarrow> nat" where
  "rep_kept r = rep_seen r - length (rep_removed r)"

text \<open>The decision, from the items alone.\<close>

definition plan_compaction ::
  "compaction_deps \<Rightarrow> string \<Rightarrow> string chat option \<Rightarrow> pyfloat option \<Rightarrow> int option \<Rightarrow> item list \<Rightarrow> (compaction_report \<times> string list) result" where
  "plan_compaction d kind model max_age now its =
     (let (dups, removed1) = dedupe (value_signature (digits d)) its [] in
      case (case model of
              Some m \<Rightarrow> if kind \<in> set conflict_kinds then resolve_conflicts d m its removed1 else Inr (0, removed1)
            | None \<Rightarrow> Inr (0, removed1)) of
        Inl e \<Rightarrow> Inl e
      | Inr (conflicts, removed2) \<Rightarrow>
          (let (decayed, removed3) = (case (max_age, now) of
                 (Some a, Some t) \<Rightarrow> fold (decay_step a t) its (0, removed2) | _ \<Rightarrow> (0, removed2))
           in Inr (\<lparr>rep_kind = kind, rep_seen = length its, rep_deduped = dups, rep_conflicts = conflicts,
                    rep_decayed = decayed, rep_removed = sort removed3\<rparr>, removed3)))"

definition compact_namespace ::
  "compaction_deps \<Rightarrow> 's store_ops \<Rightarrow> string \<Rightarrow> string chat option \<Rightarrow> pyfloat option \<Rightarrow> int option \<Rightarrow> string \<Rightarrow> (compaction_report, 's) proc" where
  "compact_namespace d ops robot_id model max_age now kind =
     bind_proc (read_all ops (memory_ns robot_id kind)) (\<lambda>its.
     bind_proc (of_result (plan_compaction d kind model max_age now its)) (\<lambda>(report, removed).
     bind_proc (each (\<lambda>k. prim (op_delete ops (memory_ns robot_id kind) k)) removed) (\<lambda>_.
       ret report)))"

definition compact_all ::
  "compaction_deps \<Rightarrow> 's store_ops \<Rightarrow> string \<Rightarrow> string chat option \<Rightarrow> pyfloat option \<Rightarrow> int option \<Rightarrow> string list
     \<Rightarrow> (compaction_report list, 's) proc" where
  "compact_all d ops robot_id model max_age now kinds = collect (compact_namespace d ops robot_id model max_age now) kinds"

text \<open>The \<open>on_turn\<close> hook; its own state is the number of completed turns, kept also when the
  compaction raises. \<open>now\<close> is the time of this turn.\<close>

definition compaction_hook ::
  "compaction_deps \<Rightarrow> 's store_ops \<Rightarrow> string \<Rightarrow> string chat option \<Rightarrow> nat \<Rightarrow> string list \<Rightarrow> pyfloat option \<Rightarrow> int \<Rightarrow> bool
     \<Rightarrow> (unit, nat \<times> 's) proc" where
  "compaction_hook d ops robot_id model freq kinds max_age now interrupted cs =
     (if interrupted then Some (Inr (), cs)
      else (let completed = fst cs + 1 in
            if 0 < freq \<and> completed mod freq = 0
            then (case compact_all d ops robot_id model max_age (if max_age = None then None else Some now) kinds (snd cs) of
                    None \<Rightarrow> None
                  | Some (Inl e, s') \<Rightarrow> Some (Inl e, (completed, s'))
                  | Some (Inr _, s') \<Rightarrow> Some (Inr (), (completed, s')))
            else Some (Inr (), (completed, snd cs))))"

section \<open>What deduplication removes\<close>

text \<open>The items of a value, and its latest one.\<close>

definition same_sig :: "(item \<Rightarrow> string) \<Rightarrow> string \<Rightarrow> item list \<Rightarrow> item list" where
  "same_sig sig g ys = filter (\<lambda>y. sig y = g) ys"

definition is_latest :: "(item \<Rightarrow> string) \<Rightarrow> item list \<Rightarrow> item \<Rightarrow> bool" where
  "is_latest sig ys y \<longleftrightarrow> last (same_sig sig (sig y) ys) = y"

definition scan_inv :: "(item \<Rightarrow> string) \<Rightarrow> item list \<Rightarrow> dedupe_state \<Rightarrow> bool" where
  "scan_inv sig ys st \<longleftrightarrow>
     (\<forall>g. dict_get (latest_by_sig st) g = (if same_sig sig g ys = [] then None else Some (last (same_sig sig g ys)))) \<and>
     set (removed_keys st) = item_key ` {y \<in> set ys. \<not> is_latest sig ys y} \<and>
     distinct (removed_keys st) \<and> dup_count st = length (removed_keys st)"

lemma same_sig_snoc: "same_sig sig g (ys @ [x]) = same_sig sig g ys @ (if sig x = g then [x] else [])"
  by (simp add: same_sig_def)

lemma same_sig_mem: "y \<in> set ys \<Longrightarrow> same_sig sig (sig y) ys \<noteq> []"
  by (auto simp: same_sig_def filter_empty_conv)

lemma last_same_sig: "same_sig sig g ys \<noteq> [] \<Longrightarrow> last (same_sig sig g ys) \<in> set ys \<and> sig (last (same_sig sig g ys)) = g"
proof -
  assume "same_sig sig g ys \<noteq> []"
  then have "last (same_sig sig g ys) \<in> set (same_sig sig g ys)" by simp
  then show ?thesis by (simp add: same_sig_def)
qed

lemma scan_inv_step:
  assumes inv: "scan_inv sig ys st" and dist: "distinct (map item_key (ys @ [x]))"
  shows "scan_inv sig (ys @ [x]) (dedupe_step sig x st)"
proof -
  have x: "x \<notin> set ys" "item_key x \<notin> item_key ` set ys" using dist by auto
  have latest_old: "is_latest sig (ys @ [x]) y \<longleftrightarrow> is_latest sig ys y \<and> sig y \<noteq> sig x" if "y \<in> set ys" for y
    using that x by (auto simp: is_latest_def same_sig_snoc)
  have latest_new: "is_latest sig (ys @ [x]) x" by (simp add: is_latest_def same_sig_snoc)
  have stale: "{y \<in> set (ys @ [x]). \<not> is_latest sig (ys @ [x]) y} =
      {y \<in> set ys. \<not> is_latest sig ys y} \<union> {y \<in> set ys. is_latest sig ys y \<and> sig y = sig x}"
    using latest_old latest_new by auto
  show ?thesis
  proof (cases "same_sig sig (sig x) ys = []")
    case True
    then have none: "{y \<in> set ys. is_latest sig ys y \<and> sig y = sig x} = {}" using same_sig_mem [of _ ys sig] by force
    show ?thesis
      unfolding scan_inv_def stale none using inv True by (simp add: scan_inv_def dedupe_step_def Let_def same_sig_snoc)
  next
    case False
    let ?p = "last (same_sig sig (sig x) ys)"
    note p = last_same_sig [OF False]
    have one: "{y \<in> set ys. is_latest sig ys y \<and> sig y = sig x} = {?p}"
      using p by (auto simp: is_latest_def)
    have fresh: "item_key ?p \<notin> set (removed_keys st)"
    proof
      assume "item_key ?p \<in> set (removed_keys st)"
      then obtain y where "y \<in> set ys" "\<not> is_latest sig ys y" "item_key y = item_key ?p"
        using inv by (auto simp: scan_inv_def)
      moreover have "inj_on item_key (set ys)" using dist by (simp add: distinct_map)
      ultimately have "y = ?p" using p by (auto dest: inj_onD)
      with \<open>\<not> is_latest sig ys y\<close> p show False by (simp add: is_latest_def)
    qed
    have "dict_get (latest_by_sig st) (sig x) = Some ?p" using inv False by (simp add: scan_inv_def)
    then have "dedupe_step sig x st = st\<lparr>removed_keys := item_key ?p # removed_keys st, dup_count := dup_count st + 1,
        latest_by_sig := dict_set (sig x) x (latest_by_sig st)\<rparr>"
      using fresh by (simp add: dedupe_step_def)
    then show ?thesis
      unfolding scan_inv_def stale one using inv fresh by (simp add: scan_inv_def same_sig_snoc image_Un)
  qed
qed

lemma scan_inv_fold:
  "distinct (map item_key ys) \<Longrightarrow>
   scan_inv sig ys (fold (dedupe_step sig) ys \<lparr>latest_by_sig = [], removed_keys = [], dup_count = 0\<rparr>)"
proof (induction ys rule: rev_induct)
  case Nil
  then show ?case by (simp add: scan_inv_def same_sig_def)
next
  case (snoc x ys)
  then show ?case using scan_inv_step [of sig ys _ x] by simp
qed

lemma dedupe_spec:
  assumes "distinct (map item_key its)" and "dedupe sig its [] = (n, removed)"
  shows "set removed = item_key ` {y \<in> set its. \<not> is_latest sig (sort_key updated_at its) y} \<and> distinct removed \<and> n = length removed"
proof -
  have "distinct (map item_key (sort_key updated_at its))"
    using assms(1) by (simp add: distinct_map)
  from scan_inv_fold [OF this, of sig] assms(2) show ?thesis
    by (auto simp: scan_inv_def dedupe_def Let_def)
qed

text \<open>The latest of a value in a list sorted by time is a newest one.\<close>

lemma is_latest_newest:
  assumes "is_latest sig (sort_key updated_at its) y" and "z \<in> set its" and "sig z = sig y"
  shows "updated_at z \<le> updated_at y"
proof -
  let ?zs = "same_sig sig (sig y) (sort_key updated_at its)"
  have z: "z \<in> set ?zs" using assms(2,3) by (simp add: same_sig_def)
  have "sorted (map updated_at ?zs)" by (simp add: same_sig_def sorted_filter)
  moreover from z obtain i where "i < length ?zs" "?zs ! i = z" by (auto simp: in_set_conv_nth)
  ultimately have "updated_at (?zs ! i) \<le> updated_at (?zs ! (length ?zs - 1))"
    by (auto simp: sorted_iff_nth_mono)
  moreover have "last ?zs = ?zs ! (length ?zs - 1)" using z by (intro last_conv_nth) auto
  moreover have "last ?zs = y" using assms(1) by (simp add: is_latest_def)
  ultimately show ?thesis using \<open>?zs ! i = z\<close> by simp
qed

section \<open>The removal, on any store\<close>

definition survives :: "namespace \<Rightarrow> string list \<Rightarrow> item \<Rightarrow> bool" where
  "survives ns removed x \<longleftrightarrow> \<not> (item_namespace x = ns \<and> item_key x \<in> set removed)"

context base_store
begin

lemma delete_each:
  "good s \<Longrightarrow> \<exists>s'. each (\<lambda>k. prim (op_delete ops ns k)) ks s = Some (Inr (), s') \<and> good s' \<and>
     (\<forall>p. under s' p = filter (survives ns ks) (under s p)) \<and>
     lookup s' = (\<lambda>ns' k'. if ns' = ns \<and> k' \<in> set ks then None else lookup s ns' k')"
proof (induction ks arbitrary: s)
  case Nil
  then show ?case by (simp add: survives_def)
next
  case (Cons k ks)
  from delete_law [OF Cons.prems, of ns k] obtain s1 where s1: "op_delete ops ns k s = (Inr (), s1)" "good s1"
    "lookup s1 = (\<lambda>ns' k'. if ns' = ns \<and> k' = k then None else lookup s ns' k')"
    "\<forall>p. under s1 p = filter (\<lambda>x. addr x \<noteq> (ns, k)) (under s p)" by blast
  from Cons.IH [OF s1(2)] obtain s2 where s2: "each (\<lambda>k. prim (op_delete ops ns k)) ks s1 = Some (Inr (), s2)" "good s2"
    "\<forall>p. under s2 p = filter (survives ns ks) (under s1 p)"
    "lookup s2 = (\<lambda>ns' k'. if ns' = ns \<and> k' \<in> set ks then None else lookup s1 ns' k')" by blast
  have "filter (survives ns ks) (filter (\<lambda>x. addr x \<noteq> (ns, k)) xs) = filter (survives ns (k # ks)) xs" for xs
    by (auto simp: survives_def addr_def intro: filter_cong)
  moreover have "lookup s2 = (\<lambda>ns' k'. if ns' = ns \<and> k' \<in> set (k # ks) then None else lookup s ns' k')"
    unfolding s2(4) s1(3) by (intro ext) auto
  moreover have "prim (op_delete ops ns k) s = Some (Inr (), s1)" using s1(1) by simp
  ultimately show ?case using s1 s2 by (simp add: bind_proc_def del: prim_simp)
qed

lemma compact_namespace_effect:
  assumes "good s"
  shows "case plan_compaction d kind model max_age now (under s (memory_ns r kind)) of
      Inl e \<Rightarrow> compact_namespace d ops r model max_age now kind s = Some (Inl e, s)
    | Inr (report, removed) \<Rightarrow>
        \<exists>s'. compact_namespace d ops r model max_age now kind s = Some (Inr report, s') \<and> good s' \<and>
          (\<forall>p. under s' p = filter (survives (memory_ns r kind) removed) (under s p)) \<and>
          lookup s' = (\<lambda>ns' k'. if ns' = memory_ns r kind \<and> k' \<in> set removed then None else lookup s ns' k')"
proof (cases "plan_compaction d kind model max_age now (under s (memory_ns r kind))")
  case (Inl e)
  then show ?thesis using read_all_law [OF assms] by (simp add: compact_namespace_def bind_proc_def)
next
  case (Inr x)
  obtain report removed where x: "x = (report, removed)" by (cases x)
  from delete_each [OF assms, of "memory_ns r kind" removed] Inr x show ?thesis
    using read_all_law [OF assms] by (auto simp: compact_namespace_def bind_proc_def)
qed

end

section \<open>The report is exact\<close>

text \<open>Every step that counts a removal adds a key that was not removed before.\<close>

definition counted :: "string set \<Rightarrow> string list \<Rightarrow> nat \<times> string list \<Rightarrow> bool" where
  "counted keys base acc \<longleftrightarrow> distinct (snd acc) \<and> length (snd acc) = fst acc + length base \<and> set (snd acc) \<subseteq> keys"

lemma counted_fold:
  "counted keys base acc \<Longrightarrow> (\<And>x acc. x \<in> set xs \<Longrightarrow> counted keys base acc \<Longrightarrow> counted keys base (f x acc)) \<Longrightarrow>
   counted keys base (fold f xs acc)"
  by (induction xs arbitrary: acc) auto

lemma counted_insert: "counted keys base acc \<Longrightarrow> k \<notin> set (snd acc) \<Longrightarrow> k \<in> keys \<Longrightarrow> counted keys base (fst acc + 1, List.insert k (snd acc))"
  by (simp add: counted_def)

lemma counted_drop_one: "item_key ` set survivors \<subseteq> keys \<Longrightarrow> counted keys base acc \<Longrightarrow> counted keys base (drop_one survivors n acc)"
proof -
  assume "item_key ` set survivors \<subseteq> keys" and c: "counted keys base acc"
  then have "1 \<le> n \<Longrightarrow> n \<le> length survivors \<Longrightarrow> item_key (survivors ! (n - 1)) \<in> keys" by auto
  with counted_insert [OF c, of "item_key (survivors ! (n - 1))"] c show ?thesis
    by (cases acc) (auto simp: drop_one_def)
qed

lemma counted_decay_step: "item_key it \<in> keys \<Longrightarrow> counted keys base acc \<Longrightarrow> counted keys base (decay_step a t it acc)"
  using counted_insert [of keys base acc "item_key it"] by (simp add: decay_step_def)

lemma resolve_conflicts_cases:
  assumes "resolve_conflicts d m its r = Inr x"
  obtains "x = (0, r)" | ns where "x = fold (drop_one (filter (\<lambda>it. item_key it \<notin> set r) its)) ns (0, r)"
proof (cases "length (filter (\<lambda>it. item_key it \<notin> set r) its) < 2")
  case True
  with assms that(1) show ?thesis by (simp add: resolve_conflicts_def)
next
  case False
  with assms have "\<exists>ns. x = fold (drop_one (filter (\<lambda>it. item_key it \<notin> set r) its)) ns (0, r)"
    by (auto simp: resolve_conflicts_def Let_def split: sum.splits)
  then show ?thesis using that(2) by blast
qed

lemma plan_counts:
  assumes dist: "distinct (map item_key its)" and plan: "plan_compaction d kind model max_age now its = Inr (report, removed)"
  shows "distinct removed \<and> set removed \<subseteq> item_key ` set its \<and> rep_seen report = length its \<and> rep_removed report = sort removed \<and>
     rep_deduped report + rep_conflicts report + rep_decayed report = length removed"
proof -
  let ?K = "item_key ` set its"
  obtain n1 r1 where d1: "dedupe (value_signature (digits d)) its [] = (n1, r1)" by (cases "dedupe (value_signature (digits d)) its []")
  note s1 = dedupe_spec [OF dist d1]
  then have c1: "counted ?K [] (n1, r1)" by (auto simp: counted_def)
  obtain n2 r2 where d2: "(case model of
        Some m \<Rightarrow> if kind \<in> set conflict_kinds then resolve_conflicts d m its r1 else Inr (0, r1) | None \<Rightarrow> Inr (0, r1)) = Inr (n2, r2)"
    using plan d1 by (auto simp: plan_compaction_def split: sum.splits)
  have c2: "counted ?K r1 (n2, r2)"
  proof -
    have start: "counted ?K r1 (0, r1)" using c1 by (simp add: counted_def)
    have "counted ?K r1 (n2, r2)" if "resolve_conflicts d m its r1 = Inr (n2, r2)" for m
    proof -
      let ?surv = "filter (\<lambda>it. item_key it \<notin> set r1) its"
      have "counted ?K r1 (fold (drop_one ?surv) ns (0, r1))" for ns
        by (rule counted_fold [OF start]) (auto intro: counted_drop_one)
      moreover have "(n2, r2) = (0, r1) \<or> (\<exists>ns. (n2, r2) = fold (drop_one ?surv) ns (0, r1))"
        using that by (rule resolve_conflicts_cases) auto
      ultimately show ?thesis using start by auto
    qed
    then show ?thesis using d2 start by (auto split: option.splits if_splits)
  qed
  obtain n3 r3 where d3: "(case (max_age, now) of (Some a, Some t) \<Rightarrow> fold (decay_step a t) its (0, r2) | _ \<Rightarrow> (0, r2)) = (n3, r3)"
    by (cases "case (max_age, now) of (Some a, Some t) \<Rightarrow> fold (decay_step a t) its (0, r2) | _ \<Rightarrow> (0, r2)")
  have "counted ?K r2 (n3, r3)"
  proof -
    have start: "counted ?K r2 (0, r2)" using c2 by (simp add: counted_def)
    then have "counted ?K r2 (fold (decay_step a t) its (0, r2))" for a t
      by (rule counted_fold) (auto intro: counted_decay_step)
    moreover have "(n3, r3) = (0, r2) \<or> (\<exists>a t. fold (decay_step a t) its (0, r2) = (n3, r3))"
      using d3 by (auto split: option.splits)
    ultimately show ?thesis using start by metis
  qed
  moreover have "report = \<lparr>rep_kind = kind, rep_seen = length its, rep_deduped = n1, rep_conflicts = n2,
      rep_decayed = n3, rep_removed = sort r3\<rparr> \<and> removed = r3"
    using plan d1 d2 d3 by (auto simp: plan_compaction_def)
  ultimately show ?thesis using c1 c2 by (simp add: counted_def)
qed

section \<open>Compaction of the in-memory store\<close>

text \<open>Nothing is stored below the namespace itself, as in the robot's stores.\<close>

definition flat_below :: "memory_store \<Rightarrow> namespace \<Rightarrow> bool" where
  "flat_below s ns \<longleftrightarrow> (\<forall>it \<in> set (items_under s ns). item_namespace it = ns)"

lemma flat_distinct_keys:
  assumes "store_wf s" and "flat_below s ns"
  shows "distinct (map item_key (items_under s ns))"
proof -
  have "map addr (items_under s ns) = map (Pair ns) (map item_key (items_under s ns))"
    using assms(2) by (simp add: flat_below_def addr_def)
  with items_under_distinct [OF assms(1), of ns] show ?thesis by (simp add: distinct_map inj_on_def)
qed

lemma flat_survivors:
  assumes "flat_below s ns"
  shows "filter (survives ns removed) (items_under s ns) = filter (\<lambda>it. item_key it \<notin> set removed) (items_under s ns)"
  using assms by (auto simp: flat_below_def survives_def intro!: filter_cong)

lemma length_filter_removed:
  assumes "distinct (map f xs)" and "distinct rs" and "set rs \<subseteq> f ` set xs"
  shows "length (filter (\<lambda>x. f x \<notin> set rs) xs) + length rs = length xs"
proof -
  have inj: "inj_on f (set xs)" and d: "distinct xs" using assms(1) by (auto simp: distinct_map)
  have "f ` {x \<in> set xs. f x \<in> set rs} = set rs" using assms(3) by auto
  moreover have "card (f ` {x \<in> set xs. f x \<in> set rs}) = card {x \<in> set xs. f x \<in> set rs}"
    using inj by (intro card_image) (auto simp: inj_on_def)
  ultimately have "length (filter (\<lambda>x. f x \<in> set rs) xs) = length rs"
    using d assms(2) distinct_card [of rs] distinct_card [of "filter (\<lambda>x. f x \<in> set rs) xs"] by simp
  moreover have "length (filter (\<lambda>x. f x \<in> set rs) xs) + length (filter (\<lambda>x. f x \<notin> set rs) xs) = length xs"
    by (rule sum_length_filter_compl)
  ultimately show ?thesis by simp
qed

text \<open>Deduplication keeps the newest: without a model and without an age limit, compacting a
  namespace returns, leaves pairwise different values, loses no value, keeps for each value an
  item at least as new as any other with it, changes no item it keeps and their order, and
  touches no other namespace.\<close>

theorem compaction_keeps_newest:
  assumes "store_wf s" and "flat_below s (memory_ns r kind)"
  shows "\<exists>report s' P. compact_namespace d (memory_ops clock) r None None now kind s = Some (Inr report, s') \<and>
     items_under s' (memory_ns r kind) = filter P (items_under s (memory_ns r kind)) \<and>
     distinct (map (value_signature (digits d)) (items_under s' (memory_ns r kind))) \<and>
     (\<forall>x \<in> set (items_under s (memory_ns r kind)). \<exists>y \<in> set (items_under s' (memory_ns r kind)).
        value_signature (digits d) y = value_signature (digits d) x \<and> updated_at x \<le> updated_at y) \<and>
     (\<forall>ns k. ns \<noteq> memory_ns r kind \<longrightarrow> look s' ns k = look s ns k)"
proof -
  let ?ns = "memory_ns r kind" and ?sig = "value_signature (digits d)"
  let ?old = "items_under s ?ns" and ?srt = "sort_key updated_at (items_under s ?ns)"
  have dist: "distinct (map item_key ?old)" by (rule flat_distinct_keys [OF assms])
  obtain n removed where d1: "dedupe ?sig ?old [] = (n, removed)" by (cases "dedupe ?sig ?old []")
  have rem: "set removed = item_key ` {y \<in> set ?old. \<not> is_latest ?sig ?srt y}" using dedupe_spec [OF dist d1] by simp
  obtain report where "plan_compaction d kind None None now ?old = Inr (report, removed)"
    using d1 by (simp add: plan_compaction_def split: option.splits)
  with memory.compact_namespace_effect [OF assms(1), where d = d and kind = kind and model = None and max_age = None
      and now = now and r = r and clock = clock]
  obtain s' where s': "compact_namespace d (memory_ops clock) r None None now kind s = Some (Inr report, s')"
    "\<forall>p. items_under s' p = filter (survives ?ns removed) (items_under s p)"
    "look s' = (\<lambda>ns' k'. if ns' = ?ns \<and> k' \<in> set removed then None else look s ns' k')" by auto
  have new: "items_under s' ?ns = filter (\<lambda>it. item_key it \<notin> set removed) ?old"
    using s'(2) flat_survivors [OF assms(2)] by simp
  have mem: "y \<in> set (items_under s' ?ns) \<longleftrightarrow> y \<in> set ?old \<and> is_latest ?sig ?srt y" for y
    using dist rem by (auto simp: new distinct_map dest: inj_onD)
  have "inj_on ?sig (set (items_under s' ?ns))"
    using mem by (auto simp: inj_on_def is_latest_def)
  moreover have "distinct (items_under s' ?ns)" using dist by (simp add: new distinct_map)
  moreover have "\<exists>y \<in> set (items_under s' ?ns). ?sig y = ?sig x \<and> updated_at x \<le> updated_at y" if "x \<in> set ?old" for x
  proof -
    let ?y = "last (same_sig ?sig (?sig x) ?srt)"
    have y: "?y \<in> set ?old" "?sig ?y = ?sig x"
      using last_same_sig [OF same_sig_mem, of x ?srt ?sig] that by simp_all
    then have "is_latest ?sig ?srt ?y" by (simp add: is_latest_def)
    with y mem is_latest_newest [OF this that] show ?thesis by auto
  qed
  ultimately show ?thesis
    using s'(1,3) new by (intro exI [of _ report] exI [of _ s'] exI [of _ "\<lambda>it. item_key it \<notin> set removed"]) (simp add: distinct_map)
qed

text \<open>The report is exact: whatever the model answers and whatever the age limit, when a
  compaction returns, the namespace holds as many items as the report says were kept, the three
  counters add up to the removed keys, exactly those keys are gone, and nothing else changed in
  the store.\<close>

theorem compaction_report_exact:
  assumes "store_wf s" and "flat_below s (memory_ns r kind)"
    and "compact_namespace d (memory_ops clock) r model max_age now kind s = Some (Inr report, s')"
  shows "length (items_under s' (memory_ns r kind)) = rep_kept report \<and>
     rep_seen report = length (items_under s (memory_ns r kind)) \<and>
     rep_deduped report + rep_conflicts report + rep_decayed report = length (rep_removed report) \<and>
     look s' = (\<lambda>ns k. if ns = memory_ns r kind \<and> k \<in> set (rep_removed report) then None else look s ns k)"
proof -
  let ?ns = "memory_ns r kind"
  note eff = memory.compact_namespace_effect [OF assms(1), where d = d and kind = kind and model = model and max_age = max_age
      and now = now and r = r and clock = clock]
  from eff assms(3) obtain removed where plan: "plan_compaction d kind model max_age now (items_under s ?ns) = Inr (report, removed)"
    by (auto split: sum.splits)
  with eff assms(3) have s': "items_under s' ?ns = filter (survives ?ns removed) (items_under s ?ns)"
    "look s' = (\<lambda>ns' k'. if ns' = ?ns \<and> k' \<in> set removed then None else look s ns' k')" by auto
  note dist = flat_distinct_keys [OF assms(1,2)]
  note c = plan_counts [OF dist plan]
  have "length (items_under s' ?ns) + length removed = length (items_under s ?ns)"
    using length_filter_removed [OF dist, of removed] c s'(1) flat_survivors [OF assms(2)] by simp
  then show ?thesis using c s'(2) by (simp add: rep_kept_def)
qed

definition demo_compaction_deps :: compaction_deps where
  "demo_compaction_deps = \<lparr>digits = (\<lambda>q. ''0.0''), conflict_line = (\<lambda>n k t v. k @ v), conflict_prompt = id\<rparr>"

definition demo_facts :: memory_store where
  "demo_facts = put_item (\<lambda>n. int n) [''r'', ''facts''] ''new'' (Some [(''value'', PInt 1)])
     (put_item (\<lambda>n. int n) [''r'', ''facts''] ''old'' (Some [(''value'', PInt 1)]) empty_store)"

lemma demo_facts_ok: "store_wf demo_facts" "flat_below demo_facts (memory_ns ''r'' ''facts'')"
proof -
  have "store_wf empty_store" by (simp add: store_wf_def empty_store_def)
  then show "store_wf demo_facts" by (simp add: demo_facts_def put_item_wf)
  show "flat_below demo_facts (memory_ns ''r'' ''facts'')"
    by (simp add: flat_below_def memory_ns_def items_under_def demo_facts_def put_item_def touch_def empty_store_def
        bucket_def dict_getd_def has_prefix_def Let_def)
qed

theorem compaction_keeps_newest_witness:
  "\<exists>report s'. compact_namespace demo_compaction_deps demo_ops ''r'' None None None ''facts'' demo_facts = Some (Inr report, s') \<and>
     distinct (map (value_signature (\<lambda>q. ''0.0'')) (items_under s' [''r'', ''facts'']))"
  using compaction_keeps_newest [OF demo_facts_ok, of demo_compaction_deps "\<lambda>n. int n" None]
  by (auto simp: demo_ops_def demo_compaction_deps_def memory_ns_def)

lemma rule_compaction_returns:
  assumes "store_wf s"
  obtains report s' where "compact_namespace d (memory_ops clock) r None max_age now kind s = Some (Inr report, s')"
proof -
  obtain x where "plan_compaction d kind None max_age now (items_under s (memory_ns r kind)) = Inr x"
    by (cases "plan_compaction d kind None max_age now (items_under s (memory_ns r kind))")
       (auto simp: plan_compaction_def split: prod.splits)
  then show ?thesis
    using memory.compact_namespace_effect [OF assms, where d = d and kind = kind and model = None and max_age = max_age
      and now = now and r = r and clock = clock] that by (cases x) auto
qed

theorem compaction_report_exact_witness:
  "\<exists>report s'. compact_namespace demo_compaction_deps demo_ops ''r'' None (Some (Fin 1)) (Some 5) ''facts'' demo_facts = Some (Inr report, s') \<and>
     length (items_under s' [''r'', ''facts'']) = rep_kept report"
proof -
  obtain report s' where run:
    "compact_namespace demo_compaction_deps (memory_ops (\<lambda>n. int n)) ''r'' None (Some (Fin 1)) (Some 5) ''facts'' demo_facts = Some (Inr report, s')"
    by (rule rule_compaction_returns [OF demo_facts_ok(1)])
  from compaction_report_exact [OF demo_facts_ok run] run show ?thesis by (auto simp: demo_ops_def memory_ns_def)
qed

end
