(* ===== verification/Goals.thy ===== *)
theory Goals
  imports Driver Compaction "HOL-Library.Product_Lexorder"
begin

text \<open>
  The goal system: \<open>robot_agent/goals/models.py\<close> (goals and their states), \<open>arbitrate.py\<close> (which goal
  is next), \<open>store.py\<close> (goals in the long-term store), \<open>planning.py\<close> (steps from a model's answer)
  and \<open>policy.py\<close> (what an idle driver does). Validation of a stored dictionary by pydantic, prompt
  texts and the model are arguments.
\<close>

section \<open>An order on floats\<close>

text \<open>Sort keys contain floats. On floats that are numbers the order below is the IEEE one; NaN is
  last here, where Python's sort leaves its place open.\<close>

fun float_rank :: "pyfloat \<Rightarrow> nat \<times> rat" where
  "float_rank NegInf = (0, 0)"
| "float_rank (Fin q) = (1, q)"
| "float_rank PosInf = (2, 0)"
| "float_rank NaN = (3, 0)"

lemma float_rank_inj: "float_rank x = float_rank y \<Longrightarrow> x = y"
  by (cases x; cases y) auto

instantiation pyfloat :: linorder
begin

definition less_eq_pyfloat :: "pyfloat \<Rightarrow> pyfloat \<Rightarrow> bool" where
  "less_eq_pyfloat x y \<longleftrightarrow> float_rank x \<le> float_rank y"

definition less_pyfloat :: "pyfloat \<Rightarrow> pyfloat \<Rightarrow> bool" where
  "less_pyfloat x y \<longleftrightarrow> float_rank x < float_rank y"

instance
  by standard (auto simp: less_eq_pyfloat_def less_pyfloat_def intro: float_rank_inj)

end

lemma less_is_fgt: "x \<noteq> NaN \<Longrightarrow> y \<noteq> NaN \<Longrightarrow> x < y \<longleftrightarrow> fgt y x"
  by (cases x; cases y) (auto simp: less_pyfloat_def)

section \<open>Goals\<close>

definition kind_goals :: string where "kind_goals = ''goals''"
definition status_pending :: string where "status_pending = ''pending''"
definition status_active :: string where "status_active = ''active''"
definition status_blocked :: string where "status_blocked = ''blocked''"
definition status_done :: string where "status_done = ''done''"
definition status_abandoned :: string where "status_abandoned = ''abandoned''"

definition all_statuses :: "string list" where
  "all_statuses = [status_pending, status_active, status_blocked, status_done, status_abandoned]"

definition actionable_statuses :: "string list" where
  "actionable_statuses = [status_pending, status_active]"

definition terminal_statuses :: "string list" where
  "terminal_statuses = [status_done, status_abandoned]"

record goal =
  goal_id :: string
  intent :: string
  parent :: "string option"
  goal_priority :: int
  deadline :: "pyfloat option"
  goal_status :: string
  plan :: "string list"
  created_ts :: pyfloat

definition is_actionable :: "goal \<Rightarrow> bool" where
  "is_actionable g \<longleftrightarrow> goal_status g \<in> set actionable_statuses"

section \<open>Arbitration\<close>

definition deadline_or_inf :: "goal \<Rightarrow> pyfloat" where
  "deadline_or_inf g = (case deadline g of Some t \<Rightarrow> t | None \<Rightarrow> PosInf)"

definition goal_sort_key :: "goal \<Rightarrow> int \<times> pyfloat \<times> pyfloat" where
  "goal_sort_key g = (- goal_priority g, deadline_or_inf g, created_ts g)"

definition order_goals :: "goal list \<Rightarrow> goal list" where
  "order_goals gs = sort_key goal_sort_key (filter is_actionable gs)"

definition arbitrate :: "goal list \<Rightarrow> goal option" where
  "arbitrate gs = (case order_goals gs of [] \<Rightarrow> None | g # _ \<Rightarrow> Some g)"

section \<open>The goal store\<close>

text \<open>\<open>model_dump\<close>: the fields in the order of the class.\<close>

definition dump_goal :: "goal \<Rightarrow> pydict" where
  "dump_goal g =
     [(''id'', PStr (goal_id g)), (''intent'', PStr (intent g)),
      (''parent'', case parent g of None \<Rightarrow> PNone | Some p \<Rightarrow> PStr p), (''priority'', PInt (goal_priority g)),
      (''deadline'', case deadline g of None \<Rightarrow> PNone | Some t \<Rightarrow> PFloat t), (''status'', PStr (goal_status g)),
      (''plan'', PList (map PStr (plan g))), (''created_ts'', PFloat (created_ts g))]"

text \<open>\<open>parse_goal\<close> is the constructor \<open>Goal(**d)\<close> with pydantic's validation; the two prompts are
  rendered templates.\<close>

record goal_deps =
  parse_goal :: "pydict \<Rightarrow> goal result"
  plan_prompt :: "string \<Rightarrow> string"
  goal_prompt :: "string \<Rightarrow> string \<Rightarrow> string"
  step_separator :: string
  fallback_text :: string
  goal_digits :: "rat \<Rightarrow> string"

definition goals_ns :: "string \<Rightarrow> namespace" where
  "goals_ns robot_id = [robot_id, kind_goals]"

text \<open>\<open>now\<close> is \<open>time.time()\<close>; a stamp of zero counts as missing.\<close>

definition stamp_goal :: "pyfloat \<Rightarrow> goal \<Rightarrow> goal" where
  "stamp_goal now g = (if created_ts g = Fin 0 then g\<lparr>created_ts := now\<rparr> else g)"

definition add_goal :: "'s store_ops \<Rightarrow> string \<Rightarrow> pyfloat \<Rightarrow> goal \<Rightarrow> (goal, 's) proc" where
  "add_goal ops robot_id now g =
     (let g' = stamp_goal now g in
      bind_proc (prim (op_put ops (goals_ns robot_id) (goal_id g') (dump_goal g'))) (\<lambda>_. ret g'))"

definition get_goal :: "goal_deps \<Rightarrow> 's store_ops \<Rightarrow> string \<Rightarrow> string \<Rightarrow> (goal option, 's) proc" where
  "get_goal d ops robot_id i =
     bind_proc (prim (op_get ops (goals_ns robot_id) i)) (\<lambda>x.
       case x of
         None \<Rightarrow> ret None
       | Some it \<Rightarrow> bind_proc (of_result (parse_goal d (item_value it))) (\<lambda>g. ret (Some g)))"

definition list_goals :: "goal_deps \<Rightarrow> 's store_ops \<Rightarrow> string \<Rightarrow> string option \<Rightarrow> (goal list, 's) proc" where
  "list_goals d ops robot_id wanted =
     bind_proc (read_all ops (goals_ns robot_id)) (\<lambda>its.
     bind_proc (of_result (map_result (\<lambda>it. parse_goal d (item_value it)) its)) (\<lambda>gs.
       ret (case wanted of None \<Rightarrow> gs | Some s \<Rightarrow> filter (\<lambda>g. goal_status g = s) gs)))"

text \<open>\<open>change\<close> assigns the given fields.\<close>

definition update_goal :: "goal_deps \<Rightarrow> 's store_ops \<Rightarrow> string \<Rightarrow> string \<Rightarrow> (goal \<Rightarrow> goal) \<Rightarrow> (goal, 's) proc" where
  "update_goal d ops robot_id i change =
     bind_proc (get_goal d ops robot_id i) (\<lambda>x.
       case x of
         None \<Rightarrow> raise_exc KeyError
       | Some g \<Rightarrow>
           bind_proc (prim (op_put ops (goals_ns robot_id) i (dump_goal (change g)))) (\<lambda>_. ret (change g)))"

definition mark_goal :: "goal_deps \<Rightarrow> 's store_ops \<Rightarrow> string \<Rightarrow> string \<Rightarrow> string \<Rightarrow> (goal, 's) proc" where
  "mark_goal d ops robot_id i st = update_goal d ops robot_id i (\<lambda>g. g\<lparr>goal_status := st\<rparr>)"

definition set_plan :: "goal_deps \<Rightarrow> 's store_ops \<Rightarrow> string \<Rightarrow> string \<Rightarrow> string list \<Rightarrow> (goal, 's) proc" where
  "set_plan d ops robot_id i steps = update_goal d ops robot_id i (\<lambda>g. g\<lparr>plan := steps\<rparr>)"

definition remove_goal :: "'s store_ops \<Rightarrow> string \<Rightarrow> string \<Rightarrow> (unit, 's) proc" where
  "remove_goal ops robot_id i = prim (op_delete ops (goals_ns robot_id) i)"

section \<open>Planning\<close>

text \<open>The expression for bullets, matched once at the start: spaces, then a number with a full stop or
  a bracket, or a dash or an asterisk, then spaces. (The round bullet is outside the modelled
  characters.)\<close>

definition drop_bullet :: "string \<Rightarrow> string" where
  "drop_bullet s =
     (let r = lstrip s; ds = takeWhile is_digit r; r' = dropWhile is_digit r in
      if ds \<noteq> [] \<and> take 1 r' \<in> {''.'', '')''} then lstrip (drop 1 r')
      else if take 1 r \<in> {''-'', ''*''} then lstrip (drop 1 r)
      else s)"

definition clean_step :: "string \<Rightarrow> string" where
  "clean_step line = strip (drop_bullet (strip line))"

fun take_steps :: "int \<Rightarrow> string list \<Rightarrow> string list \<Rightarrow> string list" where
  "take_steps m [] steps = steps"
| "take_steps m (l # ls) steps =
     (let s = clean_step l; steps' = (if s \<noteq> [] then steps @ [s] else steps) in
      if m \<le> int (length steps') then steps' else take_steps m ls steps')"

definition parse_steps :: "string \<Rightarrow> int \<Rightarrow> string list" where
  "parse_steps txt m = take_steps m (splitlines txt) []"

definition plan_blocks :: "pyval list \<Rightarrow> string list" where
  "plan_blocks bs = concat (map (\<lambda>b. case b of PStr s \<Rightarrow> [s]
     | PDict d \<Rightarrow> (case dict_get d ''text'' of Some (PStr s) \<Rightarrow> [s] | _ \<Rightarrow> []) | _ \<Rightarrow> []) bs)"

fun plan_text :: "(rat \<Rightarrow> string) \<Rightarrow> pyval \<Rightarrow> string" where
  "plan_text ff (PStr s) = s"
| "plan_text ff (PList bs) = join [CHR 0x0A] (plan_blocks bs)"
| "plan_text ff v = py_str ff v"

definition plan_goal :: "goal_deps \<Rightarrow> string chat \<Rightarrow> goal \<Rightarrow> int \<Rightarrow> string list result" where
  "plan_goal d model g m =
     (case model (plan_prompt d (intent g)) of
        Inl e \<Rightarrow> Inl e
      | Inr msg \<Rightarrow> (let txt = plan_text (goal_digits d) (content msg) in
                  Inr (if strip txt = fallback_text d then [] else parse_steps txt m)))"

section \<open>The idle policy\<close>

definition format_goal_prompt :: "goal_deps \<Rightarrow> goal \<Rightarrow> string" where
  "format_goal_prompt d g =
     (if plan g = [] then intent g
      else goal_prompt d (intent g)
             (join (step_separator d) (map (\<lambda>(i, s). nat_str (i + 1) @ '') '' @ s) (enumerate 0 (plan g)))))"

record goal_policy =
  planner_model :: "string chat option"
  max_plan_steps :: int
  idle_priority :: int
  mark_active :: bool
  thread_prefix :: string

text \<open>The three parts of \<open>on_idle\<close> after the choice: mark the goal, plan it once, make the event.\<close>

definition mark_chosen :: "goal_deps \<Rightarrow> 's store_ops \<Rightarrow> string \<Rightarrow> goal_policy \<Rightarrow> goal \<Rightarrow> (goal, 's) proc" where
  "mark_chosen d ops robot_id p g =
     (if mark_active p \<and> goal_status g \<noteq> status_active
      then mark_goal d ops robot_id (goal_id g) status_active else ret g)"

definition plan_chosen :: "goal_deps \<Rightarrow> 's store_ops \<Rightarrow> string \<Rightarrow> goal_policy \<Rightarrow> goal \<Rightarrow> (goal, 's) proc" where
  "plan_chosen d ops robot_id p g =
     (case planner_model p of
        None \<Rightarrow> ret g
      | Some model \<Rightarrow>
          if plan g \<noteq> [] then ret g
          else bind_proc (of_result (plan_goal d model g (max_plan_steps p))) (\<lambda>steps.
                 if steps = [] then ret g else set_plan d ops robot_id (goal_id g) steps))"

definition goal_event :: "goal_deps \<Rightarrow> goal_policy \<Rightarrow> pyfloat \<Rightarrow> goal \<Rightarrow> event" where
  "goal_event d p now g =
     \<lparr>ev_kind = kind_goal_due, ev_ts = now,
      ev_payload = [(''text'', PStr (format_goal_prompt d g)), (''thread_id'', PStr (thread_prefix p @ goal_id g)),
                    (''goal_id'', PStr (goal_id g))],
      ev_priority = idle_priority p\<rparr>"

definition goal_idle :: "goal_deps \<Rightarrow> 's store_ops \<Rightarrow> string \<Rightarrow> goal_policy \<Rightarrow> pyfloat \<Rightarrow> (event option, 's) proc" where
  "goal_idle d ops robot_id p now =
     bind_proc (list_goals d ops robot_id None) (\<lambda>gs.
       case arbitrate gs of
         None \<Rightarrow> ret None
       | Some g \<Rightarrow>
           bind_proc (mark_chosen d ops robot_id p g) (\<lambda>g1.
           bind_proc (plan_chosen d ops robot_id p g1) (\<lambda>g2.
             ret (Some (goal_event d p now g2)))))"

section \<open>What arbitration chooses\<close>

text \<open>More urgent, by IEEE comparisons; and the goals whose times are numbers.\<close>

definition more_urgent :: "goal \<Rightarrow> goal \<Rightarrow> bool" where
  "more_urgent g h \<longleftrightarrow>
     goal_priority h < goal_priority g \<or>
     goal_priority g = goal_priority h \<and>
       (fgt (deadline_or_inf h) (deadline_or_inf g) \<or>
        deadline_or_inf g = deadline_or_inf h \<and> fgt (created_ts h) (created_ts g))"

definition timed :: "goal \<Rightarrow> bool" where
  "timed g \<longleftrightarrow> deadline g \<noteq> Some NaN \<and> created_ts g \<noteq> NaN"

lemma sort_key_urgent: "timed g \<Longrightarrow> timed h \<Longrightarrow> goal_sort_key g < goal_sort_key h \<longleftrightarrow> more_urgent g h"
proof -
  assume "timed g" "timed h"
  then have n: "deadline_or_inf g \<noteq> NaN" "deadline_or_inf h \<noteq> NaN" "created_ts g \<noteq> NaN" "created_ts h \<noteq> NaN"
    by (auto simp: timed_def deadline_or_inf_def split: option.splits)
  show ?thesis
    unfolding more_urgent_def less_is_fgt [OF n(1,2), symmetric] less_is_fgt [OF n(3,4), symmetric]
    by (auto simp: goal_sort_key_def le_less)
qed

lemma arbitrate_Nil [simp]: "arbitrate [] = None"
  by (simp add: arbitrate_def order_goals_def)

lemma arbitrate_Cons:
  "arbitrate (g # gs) =
     (if is_actionable g
      then (case arbitrate gs of None \<Rightarrow> Some g | Some h \<Rightarrow> Some (if goal_sort_key g \<le> goal_sort_key h then g else h))
      else arbitrate gs)"
  by (auto simp: arbitrate_def order_goals_def split: list.splits)

lemma arbitrate_member: "arbitrate gs = Some g \<Longrightarrow> g \<in> set gs \<and> is_actionable g"
  by (induction gs arbitrary: g) (auto simp: arbitrate_Cons split: if_splits option.splits)

lemma arbitrate_None: "arbitrate gs = None \<longleftrightarrow> (\<forall>g \<in> set gs. \<not> is_actionable g)"
  by (induction gs) (auto simp: arbitrate_Cons split: option.splits)

lemma arbitrate_least: "arbitrate gs = Some g \<Longrightarrow> h \<in> set gs \<Longrightarrow> is_actionable h \<Longrightarrow> goal_sort_key g \<le> goal_sort_key h"
proof (induction gs arbitrary: g)
  case Nil
  then show ?case by simp
next
  case (Cons x gs)
  show ?case
  proof (cases "arbitrate gs")
    case None
    with Cons.prems arbitrate_None [of gs] show ?thesis by (auto simp: arbitrate_Cons split: if_splits)
  next
    case (Some y)
    have "goal_sort_key y \<le> goal_sort_key h" if "h \<in> set gs" using Cons.IH [OF Some that Cons.prems(3)] .
    with Some Cons.prems show ?thesis by (auto simp: arbitrate_Cons split: if_splits intro: order_trans)
  qed
qed

lemma arbitrate_split:
  "arbitrate gs = Some g \<Longrightarrow> \<exists>xs ys. gs = xs @ g # ys \<and> (\<forall>h \<in> set xs. is_actionable h \<longrightarrow> goal_sort_key g < goal_sort_key h)"
proof (induction gs)
  case Nil
  then show ?case by simp
next
  case (Cons x gs)
  show ?case
  proof (cases "arbitrate gs = Some g \<and> (is_actionable x \<longrightarrow> goal_sort_key g < goal_sort_key x)")
    case True
    with Cons.IH obtain xs ys where "gs = xs @ g # ys" "\<forall>h \<in> set xs. is_actionable h \<longrightarrow> goal_sort_key g < goal_sort_key h"
      by blast
    with True show ?thesis by (intro exI [of _ "x # xs"] exI [of _ ys]) auto
  next
    case False
    with Cons.prems have "g = x" by (auto simp: arbitrate_Cons not_le split: if_splits option.splits)
    then show ?thesis by (intro exI [of _ "[]"] exI [of _ gs]) simp
  qed
qed

lemma arbitrate_first:
  assumes "is_actionable g" and "\<forall>h \<in> set xs. is_actionable h \<longrightarrow> goal_sort_key g < goal_sort_key h"
    and "\<forall>h \<in> set ys. is_actionable h \<longrightarrow> goal_sort_key g \<le> goal_sort_key h"
  shows "arbitrate (xs @ g # ys) = Some g"
  using assms(2)
proof (induction xs)
  case Nil
  show ?case
    using assms(1,3) arbitrate_member [of ys] by (auto simp: arbitrate_Cons split: option.splits)
next
  case (Cons x xs)
  then show ?case by (auto simp: arbitrate_Cons)
qed

text \<open>C35. Arbitration chooses the most urgent goal: with deadlines and creation times that are
  numbers, nothing is chosen exactly when no goal is pending or active, and a goal is chosen
  exactly when it can be pursued, is more urgent than every such goal listed before it, and no
  such goal listed after it is more urgent.\<close>

theorem arbitrate_most_urgent:
  assumes "\<forall>g \<in> set gs. timed g"
  shows "(arbitrate gs = None \<longleftrightarrow> (\<forall>g \<in> set gs. \<not> is_actionable g)) \<and>
     (\<forall>g. arbitrate gs = Some g \<longleftrightarrow>
        (\<exists>xs ys. gs = xs @ g # ys \<and> is_actionable g \<and> (\<forall>h \<in> set xs. is_actionable h \<longrightarrow> more_urgent g h) \<and>
           (\<forall>h \<in> set ys. is_actionable h \<longrightarrow> \<not> more_urgent h g)))"
proof (intro conjI allI iffI)
  show "arbitrate gs = None \<Longrightarrow> \<forall>g \<in> set gs. \<not> is_actionable g" by (simp add: arbitrate_None)
  show "\<forall>g \<in> set gs. \<not> is_actionable g \<Longrightarrow> arbitrate gs = None" by (simp add: arbitrate_None)
next
  fix g
  assume chosen: "arbitrate gs = Some g"
  obtain xs ys where s: "gs = xs @ g # ys" "\<forall>h \<in> set xs. is_actionable h \<longrightarrow> goal_sort_key g < goal_sort_key h"
    using arbitrate_split [OF chosen] by blast
  have "\<not> more_urgent h g" if "h \<in> set ys" "is_actionable h" for h
  proof -
    have "\<not> goal_sort_key h < goal_sort_key g" using arbitrate_least [OF chosen, of h] that s(1) by (simp add: not_less)
    then show ?thesis using sort_key_urgent [of h g] assms that s(1) by simp
  qed
  moreover have "more_urgent g h" if "h \<in> set xs" "is_actionable h" for h
    using s that assms sort_key_urgent [of g h] by simp
  ultimately show "\<exists>xs ys. gs = xs @ g # ys \<and> is_actionable g \<and> (\<forall>h \<in> set xs. is_actionable h \<longrightarrow> more_urgent g h) \<and>
      (\<forall>h \<in> set ys. is_actionable h \<longrightarrow> \<not> more_urgent h g)"
    using s(1) arbitrate_member [OF chosen] by blast
next
  fix g
  assume "\<exists>xs ys. gs = xs @ g # ys \<and> is_actionable g \<and> (\<forall>h \<in> set xs. is_actionable h \<longrightarrow> more_urgent g h) \<and>
      (\<forall>h \<in> set ys. is_actionable h \<longrightarrow> \<not> more_urgent h g)"
  then obtain xs ys where s: "gs = xs @ g # ys" "is_actionable g" "\<forall>h \<in> set xs. is_actionable h \<longrightarrow> more_urgent g h"
    "\<forall>h \<in> set ys. is_actionable h \<longrightarrow> \<not> more_urgent h g" by blast
  show "arbitrate gs = Some g"
    unfolding s(1)
  proof (rule arbitrate_first [OF s(2)])
    show "\<forall>h \<in> set xs. is_actionable h \<longrightarrow> goal_sort_key g < goal_sort_key h"
      using s assms sort_key_urgent by auto
    show "\<forall>h \<in> set ys. is_actionable h \<longrightarrow> goal_sort_key g \<le> goal_sort_key h"
      using s assms sort_key_urgent by (auto simp flip: not_less)
  qed
qed

definition demo_goal :: "string \<Rightarrow> int \<Rightarrow> pyfloat option \<Rightarrow> string \<Rightarrow> goal" where
  "demo_goal i pr due st = \<lparr>goal_id = i, intent = i, parent = None, goal_priority = pr, deadline = due, goal_status = st,
     plan = [], created_ts = Fin 1\<rparr>"

theorem arbitrate_most_urgent_witness:
  "\<exists>xs ys. [demo_goal ''a'' 1 None ''pending'', demo_goal ''b'' 1 (Some (Fin 5)) ''active'', demo_goal ''c'' 9 None ''done''] =
     xs @ demo_goal ''b'' 1 (Some (Fin 5)) ''active'' # ys \<and> length xs = 1"
proof -
  let ?gs = "[demo_goal ''a'' 1 None ''pending'', demo_goal ''b'' 1 (Some (Fin 5)) ''active'', demo_goal ''c'' 9 None ''done'']"
  have t: "\<forall>g \<in> set ?gs. timed g" by (simp add: demo_goal_def timed_def)
  have "arbitrate ?gs = Some (demo_goal ''b'' 1 (Some (Fin 5)) ''active'')"
    by (simp add: arbitrate_Cons is_actionable_def actionable_statuses_def status_pending_def status_active_def
        demo_goal_def goal_sort_key_def deadline_or_inf_def less_eq_pyfloat_def less_pyfloat_def)
  with arbitrate_most_urgent [OF t] obtain xs ys where
    e: "?gs = xs @ demo_goal ''b'' 1 (Some (Fin 5)) ''active'' # ys" by blast
  moreover from e have "length xs = 1"
    by (cases xs rule: list.exhaust; cases "tl xs") (auto simp: demo_goal_def Cons_eq_append_conv)
  ultimately show ?thesis by blast
qed

section \<open>The goal in pursuit\<close>

text \<open>A listing of goals, and the goal arbitration chooses from what the store holds.\<close>

definition goal_items :: "goal_deps \<Rightarrow> namespace \<Rightarrow> item list \<Rightarrow> goal list \<Rightarrow> bool" where
  "goal_items d ns its gs \<longleftrightarrow>
     list_all2 (\<lambda>it g. addr it = (ns, goal_id g) \<and> parse_goal d (item_value it) = Inr g) its gs"

definition same_rank :: "goal \<Rightarrow> goal \<Rightarrow> bool" where
  "same_rank g g' \<longleftrightarrow> goal_id g' = goal_id g \<and> goal_sort_key g' = goal_sort_key g \<and> is_actionable g' = is_actionable g"

definition replace_goal :: "goal \<Rightarrow> goal list \<Rightarrow> goal list" where
  "replace_goal g' gs = map (\<lambda>h. if goal_id h = goal_id g' then g' else h) gs"

lemma goal_items_parse: "goal_items d ns its gs \<Longrightarrow> map_result (\<lambda>it. parse_goal d (item_value it)) its = Inr gs"
  unfolding goal_items_def by (induction rule: list_all2_induct) auto

lemma goal_items_addr: "goal_items d ns its gs \<Longrightarrow> map addr its = map (\<lambda>g. (ns, goal_id g)) gs"
  unfolding goal_items_def by (induction rule: list_all2_induct) auto

lemma goal_items_distinct: "goal_items d ns its gs \<Longrightarrow> distinct (map addr its) \<Longrightarrow> distinct (map goal_id gs)"
  by (simp add: goal_items_addr distinct_map inj_on_def)

lemma goal_items_replace:
  assumes "goal_items d ns its gs" and "addr it = (ns, goal_id g')" and "parse_goal d (item_value it) = Inr g'"
  shows "goal_items d ns (map (\<lambda>x. if addr x = (ns, goal_id g') then it else x) its) (replace_goal g' gs)"
  using assms(1) unfolding goal_items_def replace_goal_def
  by (induction rule: list_all2_induct) (use assms(2,3) in auto)

lemma arbitrate_map:
  assumes "\<forall>h \<in> set gs. goal_sort_key (f h) = goal_sort_key h \<and> is_actionable (f h) = is_actionable h"
  shows "arbitrate (map f gs) = map_option f (arbitrate gs)"
  using assms
proof (induction gs)
  case Nil
  then show ?case by simp
next
  case (Cons x gs)
  then have "arbitrate (map f gs) = map_option f (arbitrate gs)" by simp
  then show ?case using Cons.prems arbitrate_member [of gs] by (auto simp: arbitrate_Cons split: option.splits)
qed

lemma arbitrate_replace:
  assumes "distinct (map goal_id gs)" and "arbitrate gs = Some g" and "same_rank g g'"
  shows "arbitrate (replace_goal g' gs) = Some g'"
proof -
  have "g \<in> set gs" using arbitrate_member [OF assms(2)] by simp
  then have "h = g" if "h \<in> set gs" "goal_id h = goal_id g" for h
    using assms(1) that by (auto simp: distinct_map dest: inj_onD)
  then show ?thesis
    unfolding replace_goal_def using assms(2,3) by (subst arbitrate_map) (auto simp: same_rank_def)
qed

text \<open>A goal taken up: its status set when it was marked, and its plan made when it had none.\<close>

definition taken_up :: "bool \<Rightarrow> goal \<Rightarrow> goal \<Rightarrow> bool" where
  "taken_up marked g g' \<longleftrightarrow>
     g' = g\<lparr>goal_status := (if marked then status_active else goal_status g), plan := plan g'\<rparr> \<and> (plan g = [] \<or> plan g' = plan g)"

lemma taken_up_refl: "taken_up False g g"
  by (simp add: taken_up_def)

lemma taken_up_trans:
  assumes "taken_up a g g1" and "taken_up b g1 g2"
  shows "taken_up (a \<or> b) g g2"
  using assms by (cases g; cases g1; cases g2) (auto simp: taken_up_def)

lemma taken_up_id: "taken_up a g g' \<Longrightarrow> goal_id g' = goal_id g"
  by (cases g; cases g') (simp add: taken_up_def)

context base_store
begin

definition pursued :: "goal_deps \<Rightarrow> namespace \<Rightarrow> 's \<Rightarrow> goal \<Rightarrow> bool" where
  "pursued d ns s g \<longleftrightarrow> good s \<and> (\<exists>gs. goal_items d ns (under s ns) gs \<and> arbitrate gs = Some g)"

lemma pursued_lookup:
  assumes "pursued d ns s g"
  obtains it where "lookup s ns (goal_id g) = Some it" and "parse_goal d (item_value it) = Inr g"
proof -
  obtain gs where gs: "goal_items d ns (under s ns) gs" "g \<in> set gs" and ok: "good s"
    using assms arbitrate_member by (fastforce simp: pursued_def)
  then obtain n where n: "n < length gs" "gs ! n = g" by (auto simp: in_set_conv_nth)
  let ?it = "under s ns ! n"
  have len: "n < length (under s ns)" using gs(1) n(1) by (simp add: goal_items_def list_all2_lengthD)
  then have it: "addr ?it = (ns, goal_id g)" "parse_goal d (item_value ?it) = Inr g"
    using gs(1) n by (auto simp: goal_items_def dest: list_all2_nthD)
  moreover have "lookup s (item_namespace ?it) (item_key ?it) = Some ?it"
    using under_law [OF ok, of ?it ns] len by simp
  ultimately show thesis using that by (simp add: addr_def)
qed

text \<open>From one goal in pursuit to the next, with no other goal touched.\<close>

definition moved :: "goal_deps \<Rightarrow> namespace \<Rightarrow> bool \<Rightarrow> 's \<Rightarrow> goal \<Rightarrow> 's \<Rightarrow> goal \<Rightarrow> bool" where
  "moved d ns marked s g s' g' \<longleftrightarrow>
     pursued d ns s' g' \<and> taken_up marked g g' \<and> (\<forall>k. k \<noteq> goal_id g \<longrightarrow> lookup s' ns k = lookup s ns k)"

lemma moved_refl: "pursued d ns s g \<Longrightarrow> moved d ns False s g s g"
  by (simp add: moved_def taken_up_refl)

lemma moved_trans: "moved d ns a s g s1 g1 \<Longrightarrow> moved d ns b s1 g1 s2 g2 \<Longrightarrow> moved d ns (a \<or> b) s g s2 g2"
  using taken_up_trans taken_up_id by (fastforce simp: moved_def)

lemma pursued_put:
  assumes "pursued d ns s g" and "same_rank g g'" and "namespace_ok ns" and "parse_goal d (dump_goal g') = Inr g'"
  obtains s' where "op_put ops ns (goal_id g) (dump_goal g') s = (Inr (), s')" and "pursued d ns s' g'"
    and "\<And>k. k \<noteq> goal_id g \<Longrightarrow> lookup s' ns k = lookup s ns k"
proof -
  have i: "goal_id g' = goal_id g" using assms(2) by (simp add: same_rank_def)
  obtain gs where gs: "goal_items d ns (under s ns) gs" "arbitrate gs = Some g" and ok: "good s"
    using assms(1) by (auto simp: pursued_def)
  have "lookup s ns (goal_id g) \<noteq> None" by (rule pursued_lookup [OF assms(1)]) simp
  with put_law [OF ok assms(3), of "goal_id g" "dump_goal g'"] obtain s' it where
    put: "op_put ops ns (goal_id g) (dump_goal g') s = (Inr (), s')" "good s'" "item_value it = dump_goal g'"
      "addr it = (ns, goal_id g')" "under s' ns = map (\<lambda>x. if addr x = (ns, goal_id g') then it else x) (under s ns)"
      "lookup s' = (\<lambda>ns' k'. if ns' = ns \<and> k' = goal_id g then Some it else lookup s ns' k')"
    by (auto simp: i)
  have "goal_items d ns (under s' ns) (replace_goal g' gs)"
    unfolding put(5) using goal_items_replace [OF gs(1) put(4)] put(3) assms(4) by simp
  moreover have "arbitrate (replace_goal g' gs) = Some g'"
    by (rule arbitrate_replace [OF goal_items_distinct [OF gs(1) distinct_law [OF ok]] gs(2) assms(2)])
  ultimately show thesis using put(1,2,6) that by (auto simp: pursued_def)
qed

lemma pursued_get:
  assumes "pursued d (goals_ns r) s g"
  obtains s' where "get_goal d ops r (goal_id g) s = Some (Inr (Some g), s')" and "pursued d (goals_ns r) s' g" and "lookup s' = lookup s"
proof -
  obtain it where it: "lookup s (goals_ns r) (goal_id g) = Some it" "parse_goal d (item_value it) = Inr g"
    by (rule pursued_lookup [OF assms])
  from assms get_law [of s "goals_ns r" "goal_id g"] obtain s' where
    "op_get ops (goals_ns r) (goal_id g) s = (Inr (Some it), s')" "good s'" "under s' = under s" "lookup s' = lookup s"
    using it(1) by (auto simp: pursued_def)
  then show thesis using that assms it(2) by (auto simp: get_goal_def pursued_def)
qed

lemma pursued_update:
  assumes "pursued d (goals_ns r) s g" and "same_rank g (change g)" and "taken_up marked g (change g)" and "namespace_ok (goals_ns r)"
    and "\<forall>h. parse_goal d (dump_goal h) = Inr h"
  obtains s' where "update_goal d ops r (goal_id g) change s = Some (Inr (change g), s')"
    and "moved d (goals_ns r) marked s g s' (change g)"
proof -
  obtain s1 where s1: "get_goal d ops r (goal_id g) s = Some (Inr (Some g), s1)" "pursued d (goals_ns r) s1 g" "lookup s1 = lookup s"
    by (rule pursued_get [OF assms(1)])
  obtain s2 where s2: "op_put ops (goals_ns r) (goal_id g) (dump_goal (change g)) s1 = (Inr (), s2)"
    "pursued d (goals_ns r) s2 (change g)" "\<And>k. k \<noteq> goal_id g \<Longrightarrow> lookup s2 (goals_ns r) k = lookup s1 (goals_ns r) k"
    using pursued_put [OF s1(2) assms(2,4)] assms(5) by blast
  show thesis using that [of s2] s1(1,3) s2 assms(3) by (simp add: update_goal_def moved_def)
qed

lemma pursued_mark:
  assumes "pursued d (goals_ns r) s g" and "namespace_ok (goals_ns r)" and "\<forall>h. parse_goal d (dump_goal h) = Inr h"
  obtains g' s' where "mark_chosen d ops r p g s = Some (Inr g', s')" and "moved d (goals_ns r) (mark_active p) s g s' g'"
proof (cases "mark_active p \<and> goal_status g \<noteq> status_active")
  case True
  let ?change = "\<lambda>g. g\<lparr>goal_status := status_active\<rparr>"
  have "is_actionable g" using assms(1) arbitrate_member by (fastforce simp: pursued_def)
  then have rank: "same_rank g (?change g)"
    by (simp add: same_rank_def goal_sort_key_def deadline_or_inf_def is_actionable_def actionable_statuses_def)
  have up: "taken_up True g (?change g)" by (simp add: taken_up_def)
  obtain s' where "update_goal d ops r (goal_id g) ?change s = Some (Inr (?change g), s')" "moved d (goals_ns r) True s g s' (?change g)"
    by (rule pursued_update [where change = ?change, OF assms(1) rank up assms(2,3)])
  then show thesis using that True by (simp add: mark_chosen_def mark_goal_def)
next
  case False
  then have "taken_up (mark_active p) g g" by (cases g) (auto simp: taken_up_def)
  then show thesis using that [of g s] assms(1) False by (auto simp: mark_chosen_def moved_def)
qed

lemma pursued_plan:
  assumes "pursued d (goals_ns r) s g" and "namespace_ok (goals_ns r)" and "\<forall>h. parse_goal d (dump_goal h) = Inr h"
  obtains (planned) g' s' where "plan_chosen d ops r p g s = Some (Inr g', s')" and "moved d (goals_ns r) False s g s' g'"
  | (failed) x where "plan_chosen d ops r p g s = Some (Inl x, s)" and "planner_model p \<noteq> None"
proof (cases "planner_model p")
  case None
  then show thesis using planned [of g s] moved_refl [OF assms(1)] by (simp add: plan_chosen_def)
next
  case (Some model)
  show thesis
  proof (cases "plan_goal d model g (max_plan_steps p)")
    case (Inl x)
    then show thesis
      using failed [of x] planned [of g s] moved_refl [OF assms(1)] Some by (cases "plan g = []") (simp_all add: plan_chosen_def)
  next
    case (Inr steps)
    let ?change = "\<lambda>g. g\<lparr>plan := steps\<rparr>"
    show thesis
    proof (cases "plan g = [] \<and> steps \<noteq> []")
      case True
      have rank: "same_rank g (?change g)"
        by (simp add: same_rank_def goal_sort_key_def deadline_or_inf_def is_actionable_def)
      have up: "taken_up False g (?change g)" using True by (simp add: taken_up_def)
      obtain s' where "update_goal d ops r (goal_id g) ?change s = Some (Inr (?change g), s')" "moved d (goals_ns r) False s g s' (?change g)"
        by (rule pursued_update [where change = ?change, OF assms(1) rank up assms(2,3)])
      then show thesis using planned [of "?change g" s'] True Some Inr by (simp add: plan_chosen_def set_plan_def)
    next
      case False
      then show thesis using planned [of g s] moved_refl [OF assms(1)] Some Inr by (auto simp: plan_chosen_def)
    qed
  qed
qed

lemma pursued_idle:
  assumes "pursued d (goals_ns r) s g" and "namespace_ok (goals_ns r)" and "\<forall>h. parse_goal d (dump_goal h) = Inr h"
  obtains (event) g' s' where "goal_idle d ops r p now s = Some (Inr (Some (goal_event d p now g')), s')"
      and "moved d (goals_ns r) (mark_active p) s g s' g'"
  | (failed) x g' s' where "goal_idle d ops r p now s = Some (Inl x, s')" and "planner_model p \<noteq> None"
      and "moved d (goals_ns r) (mark_active p) s g s' g'"
proof -
  obtain gs where gs: "goal_items d (goals_ns r) (under s (goals_ns r)) gs" "arbitrate gs = Some g" and ok: "good s"
    using assms(1) by (auto simp: pursued_def)
  have list: "list_goals d ops r None s = Some (Inr gs, s)"
    using read_all_law [OF ok, of "goals_ns r"] goal_items_parse [OF gs(1)] by (simp add: list_goals_def)
  obtain g1 s1 where g1: "mark_chosen d ops r p g s = Some (Inr g1, s1)" "moved d (goals_ns r) (mark_active p) s g s1 g1"
    by (rule pursued_mark [OF assms])
  then have p1: "pursued d (goals_ns r) s1 g1" by (simp add: moved_def)
  have idle: "goal_idle d ops r p now s = bind_proc (plan_chosen d ops r p g1) (\<lambda>g2. ret (Some (goal_event d p now g2))) s1"
    using list gs(2) g1(1) by (simp add: goal_idle_def)
  show thesis
  proof (rule pursued_plan [OF p1 assms(2,3), of p])
    fix g2 s2
    assume "plan_chosen d ops r p g1 s1 = Some (Inr g2, s2)" "moved d (goals_ns r) False s1 g1 s2 g2"
    then show thesis using event [of g2 s2] idle moved_trans [OF g1(2)] by fastforce
  next
    fix x
    assume "plan_chosen d ops r p g1 s1 = Some (Inl x, s1)" "planner_model p \<noteq> None"
    then show thesis using failed [of x s1 g1] idle g1(2) by simp
  qed
qed

end

text \<open>Idle ticks one after the other, each with its policy and its time.\<close>

fun idle_ticks :: "goal_deps \<Rightarrow> 's store_ops \<Rightarrow> string \<Rightarrow> (goal_policy \<times> pyfloat) list \<Rightarrow> 's
    \<Rightarrow> (event option result list \<times> 's) option" where
  "idle_ticks d ops r [] s = Some ([], s)"
| "idle_ticks d ops r ((p, now) # ticks) s =
     (case goal_idle d ops r p now s of
        None \<Rightarrow> None
      | Some (res, s') \<Rightarrow> map_option (\<lambda>(rs, s''). (res # rs, s'')) (idle_ticks d ops r ticks s'))"

text \<open>The result of a tick that pursues the goal \<open>i\<close>: an event for it, or an exception when the policy
  has a planner.\<close>

fun pursues :: "string \<Rightarrow> event option result \<Rightarrow> goal_policy \<times> pyfloat \<Rightarrow> bool" where
  "pursues i (Inl x) (p, now) \<longleftrightarrow> planner_model p \<noteq> None"
| "pursues i (Inr None) (p, now) \<longleftrightarrow> False"
| "pursues i (Inr (Some e)) (p, now) \<longleftrightarrow> ev_kind e = kind_goal_due \<and> dict_get (ev_payload e) ''goal_id'' = Some (PStr i) \<and>
     dict_get (ev_payload e) ''thread_id'' = Some (PStr (thread_prefix p @ i)) \<and> ev_priority e = idle_priority p"

context base_store
begin

lemma pursued_ticks:
  assumes "namespace_ok (goals_ns r)" and "\<forall>h. parse_goal d (dump_goal h) = Inr h"
  shows "pursued d (goals_ns r) s g \<Longrightarrow>
     \<exists>rs s' g'. idle_ticks d ops r ticks s = Some (rs, s') \<and> list_all2 (pursues (goal_id g)) rs ticks \<and>
       moved d (goals_ns r) (\<exists>(p, now) \<in> set ticks. mark_active p) s g s' g'"
proof (induction ticks arbitrary: s g)
  case Nil
  then show ?case using moved_refl by fastforce
next
  case (Cons tick ticks)
  obtain p now where tick: "tick = (p, now)" by (cases tick)
  obtain res g1 s1 where one: "goal_idle d ops r p now s = Some (res, s1)" "pursues (goal_id g) res (p, now)"
    "moved d (goals_ns r) (mark_active p) s g s1 g1"
  proof (rule pursued_idle [OF Cons.prems assms, of p now])
    fix g' s'
    assume "goal_idle d ops r p now s = Some (Inr (Some (goal_event d p now g')), s')" "moved d (goals_ns r) (mark_active p) s g s' g'"
    moreover from this have "goal_id g' = goal_id g" using taken_up_id by (auto simp: moved_def)
    ultimately show thesis using that [of "Inr (Some (goal_event d p now g'))" s' g'] by (simp add: goal_event_def)
  qed (use that in simp)
  have "pursued d (goals_ns r) s1 g1" "goal_id g1 = goal_id g" using one(3) taken_up_id by (auto simp: moved_def)
  with Cons.IH [of s1 g1] obtain rs s2 g2 where more: "idle_ticks d ops r ticks s1 = Some (rs, s2)" "list_all2 (pursues (goal_id g)) rs ticks"
    "moved d (goals_ns r) (\<exists>(p, now) \<in> set ticks. mark_active p) s1 g1 s2 g2" by auto
  have "moved d (goals_ns r) (\<exists>(p, now) \<in> set (tick # ticks). mark_active p) s g s2 g2"
    using moved_trans [OF one(3) more(3)] by (simp add: tick)
  with one(1,2) more(1,2) show ?case by (auto simp: tick)
qed

end

text \<open>What a read of a goal answers.\<close>

definition goal_answer :: "goal_deps \<Rightarrow> string \<Rightarrow> string \<Rightarrow> memory_store \<Rightarrow> goal option result" where
  "goal_answer d r i s =
     (case look s (goals_ns r) i of None \<Rightarrow> Inr None
      | Some it \<Rightarrow> (case parse_goal d (item_value it) of Inl x \<Rightarrow> Inl x | Inr g \<Rightarrow> Inr (Some g)))"

text \<open>C19. An interrupted goal is taken up again: over the in-memory store, when arbitration among the
  stored goals chooses a goal, then every later idle tick, under whatever policies and planners,
  emits an event for this goal, in its own thread, as long as nobody else changes the goals; a tick fails
  only if its planner does, and that does not lose the goal. Afterwards the store holds the goal as active if a
  tick had a policy that marks goals, else with the status it had, changed in nothing but its status and a plan made where
  it had none, and every other goal as before.\<close>

theorem idle_pursues_chosen_goal:
  assumes "store_wf s" and "namespace_ok (goals_ns r)" and "\<forall>h. parse_goal d (dump_goal h) = Inr h"
    and "goal_items d (goals_ns r) (items_under s (goals_ns r)) gs" and "arbitrate gs = Some g"
  shows "\<exists>rs s' g'. idle_ticks d (memory_ops clock) r ticks s = Some (rs, s') \<and> list_all2 (pursues (goal_id g)) rs ticks \<and>
     goal_answer d r (goal_id g) s' = Inr (Some g') \<and> taken_up (\<exists>(p, now) \<in> set ticks. mark_active p) g g' \<and>
     (\<forall>i. i \<noteq> goal_id g \<longrightarrow> goal_answer d r i s' = goal_answer d r i s)"
proof -
  have start: "memory.pursued d (goals_ns r) s g" using assms(1,4,5) by (auto simp: memory.pursued_def)
  from memory.pursued_ticks [OF assms(2,3) start, of clock ticks] obtain rs s' g' where
    ticks: "idle_ticks d (memory_ops clock) r ticks s = Some (rs, s')" "list_all2 (pursues (goal_id g)) rs ticks"
    and m: "memory.moved d (goals_ns r) (\<exists>(p, now) \<in> set ticks. mark_active p) s g s' g'" by blast
  from m have p: "memory.pursued d (goals_ns r) s' g'" and up: "taken_up (\<exists>(p, now) \<in> set ticks. mark_active p) g g'"
    and kept: "\<And>i. i \<noteq> goal_id g \<Longrightarrow> look s' (goals_ns r) i = look s (goals_ns r) i" by (auto simp: memory.moved_def)
  obtain it where "look s' (goals_ns r) (goal_id g') = Some it" "parse_goal d (item_value it) = Inr g'"
    by (rule memory.pursued_lookup [OF p])
  then have "goal_answer d r (goal_id g) s' = Inr (Some g')" using taken_up_id [OF up] by (simp add: goal_answer_def)
  with ticks up kept show ?thesis by (auto simp: goal_answer_def)
qed

text \<open>A strict reader of dumped goals.\<close>

fun read_str :: "pyval \<Rightarrow> string result" where
  "read_str (PStr s) = Inr s"
| "read_str _ = Inl ValueError"

definition read_goal :: "pydict \<Rightarrow> goal result" where
  "read_goal v =
     (case map snd v of
        [PStr i, PStr w, pa, PInt pr, due, PStr st, PList steps, PFloat t] \<Rightarrow>
          (case map_result read_str steps of
             Inl x \<Rightarrow> Inl x
           | Inr ss \<Rightarrow> Inr \<lparr>goal_id = i, intent = w, parent = (case pa of PStr p \<Rightarrow> Some p | _ \<Rightarrow> None), goal_priority = pr,
                           deadline = (case due of PFloat q \<Rightarrow> Some q | _ \<Rightarrow> None), goal_status = st, plan = ss, created_ts = t\<rparr>)
      | _ \<Rightarrow> Inl ValueError)"

lemma read_goal_dump: "read_goal (dump_goal g) = Inr g"
proof -
  have "map_result read_str (map PStr ss) = Inr ss" for ss by (induction ss) auto
  then show ?thesis by (simp add: read_goal_def dump_goal_def split: option.splits)
qed

definition demo_goal_deps :: goal_deps where
  "demo_goal_deps = \<lparr>parse_goal = read_goal, plan_prompt = id, goal_prompt = (\<lambda>w steps. w @ steps), step_separator = ''; '',
     fallback_text = ''wait'', goal_digits = (\<lambda>q. ''0.0'')\<rparr>"

definition demo_goal_store :: memory_store where
  "demo_goal_store = put_item (\<lambda>n. int n) [''r'', ''goals''] ''a'' (Some (dump_goal (demo_goal ''a'' 1 None ''pending''))) empty_store"

definition demo_policy :: goal_policy where
  "demo_policy = \<lparr>planner_model = None, max_plan_steps = 10, idle_priority = 0, mark_active = True, thread_prefix = ''goal-''\<rparr>"

lemma demo_goal_store_ok:
  "store_wf demo_goal_store" "namespace_ok (goals_ns ''r'')" "\<forall>h. parse_goal demo_goal_deps (dump_goal h) = Inr h"
  "goal_items demo_goal_deps (goals_ns ''r'') (items_under demo_goal_store (goals_ns ''r'')) [demo_goal ''a'' 1 None ''pending'']"
  "arbitrate [demo_goal ''a'' 1 None ''pending''] = Some (demo_goal ''a'' 1 None ''pending'')"
proof -
  have "store_wf empty_store" by (simp add: store_wf_def empty_store_def)
  then show "store_wf demo_goal_store" by (simp add: demo_goal_store_def put_item_wf)
  show "namespace_ok (goals_ns ''r'')" by (simp add: namespace_ok_def goals_ns_def kind_goals_def)
  show "\<forall>h. parse_goal demo_goal_deps (dump_goal h) = Inr h" by (simp add: demo_goal_deps_def read_goal_dump)
  show "goal_items demo_goal_deps (goals_ns ''r'') (items_under demo_goal_store (goals_ns ''r'')) [demo_goal ''a'' 1 None ''pending'']"
    by (simp add: goal_items_def items_under_def demo_goal_store_def put_item_def touch_def empty_store_def bucket_def
        dict_getd_def has_prefix_def goals_ns_def kind_goals_def Let_def addr_def demo_goal_deps_def read_goal_dump)
       (simp add: demo_goal_def)
  show "arbitrate [demo_goal ''a'' 1 None ''pending''] = Some (demo_goal ''a'' 1 None ''pending'')"
    by (simp add: arbitrate_Cons is_actionable_def actionable_statuses_def status_pending_def demo_goal_def)
qed

theorem idle_pursues_chosen_goal_witness:
  "\<exists>rs s' g'. idle_ticks demo_goal_deps (memory_ops (\<lambda>n. int n)) ''r'' [(demo_policy, Fin 1), (demo_policy, Fin 2)] demo_goal_store = Some (rs, s') \<and>
     list_all2 (pursues ''a'') rs [(demo_policy, Fin 1), (demo_policy, Fin 2)] \<and>
     goal_answer demo_goal_deps ''r'' ''a'' s' = Inr (Some g') \<and> goal_status g' = status_active"
proof -
  from idle_pursues_chosen_goal [OF demo_goal_store_ok, of "\<lambda>n. int n" "[(demo_policy, Fin 1), (demo_policy, Fin 2)]"] obtain rs s' g' where
    "idle_ticks demo_goal_deps (memory_ops (\<lambda>n. int n)) ''r'' [(demo_policy, Fin 1), (demo_policy, Fin 2)] demo_goal_store = Some (rs, s')"
    "list_all2 (pursues ''a'') rs [(demo_policy, Fin 1), (demo_policy, Fin 2)]" "goal_answer demo_goal_deps ''r'' ''a'' s' = Inr (Some g')"
    "taken_up True (demo_goal ''a'' 1 None ''pending'') g'"
    by (auto simp: demo_goal_def demo_policy_def)
  moreover from this(4) have "goal_status g' = status_active" by (cases g') (simp add: taken_up_def)
  ultimately show ?thesis by blast
qed

section \<open>The goal store keeps goals\<close>

lemma get_goal_answer: "get_goal d (memory_ops clock) r i s = Some (goal_answer d r i s, touch (goals_ns r) s)"
  by (auto simp: get_goal_def goal_answer_def memory_get bind_proc_def split: option.splits sum.splits)

lemma goal_answer_put:
  "goal_answer d r i (put_item clock (goals_ns r) k v s) =
     (if i = k then (case v of None \<Rightarrow> Inr None | Some w \<Rightarrow> (case parse_goal d w of Inl x \<Rightarrow> Inl x | Inr g \<Rightarrow> Inr (Some g)))
      else goal_answer d r i s)"
  by (auto simp: goal_answer_def look_put_item split: option.splits)

lemma goal_answer_touch [simp]: "goal_answer d r i (touch ns s) = goal_answer d r i s"
  by (simp add: goal_answer_def look_def)

text \<open>The goal store gives back what was put into it: a registered goal, stamped if it had no
  time, is what a read by its id returns, and reads of other ids are as before; an update of a
  registered goal returns and stores the changed goal, an update of an unknown one raises
  KeyError and changes no goal; a removed goal is gone.\<close>

theorem goal_store_roundtrip:
  assumes "namespace_ok (goals_ns r)" and "\<forall>h. parse_goal d (dump_goal h) = Inr h"
  shows "(\<exists>s'. add_goal (memory_ops clock) r now g s = Some (Inr (stamp_goal now g), s') \<and>
       (\<forall>i. goal_answer d r i s' = (if i = goal_id g then Inr (Some (stamp_goal now g)) else goal_answer d r i s))) \<and>
     (\<exists>res s'. update_goal d (memory_ops clock) r k change s = Some (res, s') \<and>
       (case goal_answer d r k s of
          Inl x \<Rightarrow> res = Inl x \<and> (\<forall>i. goal_answer d r i s' = goal_answer d r i s)
        | Inr None \<Rightarrow> res = Inl KeyError \<and> (\<forall>i. goal_answer d r i s' = goal_answer d r i s)
        | Inr (Some h) \<Rightarrow> res = Inr (change h) \<and>
            (\<forall>i. goal_answer d r i s' = (if i = k then Inr (Some (change h)) else goal_answer d r i s)))) \<and>
     (\<exists>s'. remove_goal (memory_ops clock) r k s = Some (Inr (), s') \<and>
       (\<forall>i. goal_answer d r i s' = (if i = k then Inr None else goal_answer d r i s)))"
proof (intro conjI)
  have "goal_id (stamp_goal now g) = goal_id g" by (simp add: stamp_goal_def)
  then show "\<exists>s'. add_goal (memory_ops clock) r now g s = Some (Inr (stamp_goal now g), s') \<and>
       (\<forall>i. goal_answer d r i s' = (if i = goal_id g then Inr (Some (stamp_goal now g)) else goal_answer d r i s))"
    using assms by (simp add: add_goal_def Let_def memory_put bind_proc_def goal_answer_put)
  show "\<exists>s'. remove_goal (memory_ops clock) r k s = Some (Inr (), s') \<and>
       (\<forall>i. goal_answer d r i s' = (if i = k then Inr None else goal_answer d r i s))"
    by (simp add: remove_goal_def memory_delete goal_answer_put)
  show "\<exists>res s'. update_goal d (memory_ops clock) r k change s = Some (res, s') \<and>
       (case goal_answer d r k s of
          Inl x \<Rightarrow> res = Inl x \<and> (\<forall>i. goal_answer d r i s' = goal_answer d r i s)
        | Inr None \<Rightarrow> res = Inl KeyError \<and> (\<forall>i. goal_answer d r i s' = goal_answer d r i s)
        | Inr (Some h) \<Rightarrow> res = Inr (change h) \<and>
            (\<forall>i. goal_answer d r i s' = (if i = k then Inr (Some (change h)) else goal_answer d r i s)))"
    using assms
    by (auto simp: update_goal_def bind_proc_def get_goal_answer memory_put goal_answer_put split: sum.splits option.splits)
qed

theorem goal_store_roundtrip_witness:
  "\<exists>s'. add_goal (memory_ops (\<lambda>n. int n)) ''r'' (Fin 7) (demo_goal ''b'' 1 None ''pending'') demo_goal_store =
       Some (Inr (demo_goal ''b'' 1 None ''pending''), s') \<and>
     goal_answer demo_goal_deps ''r'' ''b'' s' = Inr (Some (demo_goal ''b'' 1 None ''pending''))"
  using goal_store_roundtrip [OF demo_goal_store_ok(2,3), of "\<lambda>n. int n" "Fin 7" "demo_goal ''b'' 1 None ''pending''" demo_goal_store "''a''" id]
  by (auto simp: stamp_goal_def demo_goal_def)

section \<open>Plans\<close>

lemma strip_idem: "strip (strip s) = strip s"
proof (cases "strip s = []")
  case True
  show ?thesis unfolding True by (simp add: strip_def lstrip_def rstrip_def)
next
  case False
  have end_ok: "\<not> is_space (last (strip s))" if "strip s \<noteq> []" for s
    using that hd_dropWhile [of is_space "rev (lstrip s)"] by (simp add: strip_def rstrip_def last_rev)
  have "\<not> is_space (hd (strip s))"
  proof -
    have ne: "lstrip s \<noteq> []" using False by (auto simp: strip_def rstrip_def)
    then have "\<not> is_space (hd (lstrip s))" using hd_dropWhile [of is_space s] by (simp add: lstrip_def)
    moreover have "hd (strip s) = hd (lstrip s)"
    proof -
      have "rev (lstrip s) = takeWhile is_space (rev (lstrip s)) @ dropWhile is_space (rev (lstrip s))" by simp
      then have "lstrip s = strip s @ rev (takeWhile is_space (rev (lstrip s)))"
        by (metis rev_append rev_rev_ident rstrip_def strip_def)
      then show ?thesis using False by (metis hd_append2)
    qed
    ultimately show ?thesis by simp
  qed
  with False end_ok show ?thesis by (intro strip_unchanged) auto
qed

lemma take_steps_props:
  assumes "list_all (\<lambda>s. s \<noteq> [] \<and> strip s = s) steps" and "int (length steps) \<le> max 0 (m - 1)"
  shows "list_all (\<lambda>s. s \<noteq> [] \<and> strip s = s) (take_steps m ls steps) \<and> int (length (take_steps m ls steps)) \<le> max 1 m"
  using assms by (induction m ls steps rule: take_steps.induct) (auto simp: Let_def clean_step_def strip_idem)

text \<open>A plan is short and clean: whatever the model answers, a plan has no empty step, every step
  is free of surrounding spaces, and there are at most \<open>max_steps\<close> of them (one, where \<open>max_steps\<close>
  is not positive); the refusal text of a degraded model gives the empty plan.\<close>

theorem plan_short_and_clean:
  assumes "plan_goal d model g m = Inr steps"
  shows "int (length steps) \<le> max 1 m \<and> list_all (\<lambda>s. s \<noteq> [] \<and> strip s = s) steps \<and>
     (\<forall>msg. model (plan_prompt d (intent g)) = Inr msg \<and> strip (plan_text (goal_digits d) (content msg)) = fallback_text d \<longrightarrow> steps = [])"
proof -
  have "steps = [] \<or> (\<exists>txt. steps = parse_steps txt m)"
    using assms by (auto simp: plan_goal_def Let_def split: sum.splits if_splits)
  then have "int (length steps) \<le> max 1 m \<and> list_all (\<lambda>s. s \<noteq> [] \<and> strip s = s) steps"
    using take_steps_props [of "[]" m] by (auto simp: parse_steps_def)
  with assms show ?thesis by (auto simp: plan_goal_def Let_def)
qed

theorem plan_short_and_clean_witness:
  "plan_goal demo_goal_deps (\<lambda>q. Inr (text_system ''1. go 2. look'')) (demo_goal ''a'' 1 None ''pending'') 3 = Inr [''go 2. look''] \<and>
   int (length [''go 2. look'']) \<le> max 1 3"
proof -
  have "plan_goal demo_goal_deps (\<lambda>q. Inr (text_system ''1. go 2. look'')) (demo_goal ''a'' 1 None ''pending'') 3 = Inr [''go 2. look'']"
    by (simp add: plan_goal_def text_system_def demo_goal_deps_def parse_steps_def splitlines_def is_line_break_def
        clean_step_def drop_bullet_def strip_def lstrip_def rstrip_def is_space_def is_digit_def)
  with plan_short_and_clean [OF this] show ?thesis by simp
qed

end
