(* ===== verification/Safety.thy ===== *)
theory Safety
  imports Governance Interrupts
begin

text \<open>
  \<open>robot_agent/safety.py\<close>: the confirmation gate for dangerous actions. Illegal commands are
  rejected outright, dangerous ones suspend the run and wait for an explicit approval, the rest
  pass.
\<close>

record safety_policy =
  max_vx :: pyfloat
  max_wz :: pyfloat
  gate_grasp :: bool

definition default_safety_policy :: safety_policy where
  "default_safety_policy = \<lparr>max_vx = Fin (1 / 2), max_wz = Fin 1, gate_grasp = True\<rparr>"

section \<open>Classification of a call\<close>

definition reject_reason :: "string \<Rightarrow> args \<Rightarrow> remark option result" where
  "reject_reason name a =
     (if name = ''set_velocity'' then
        (case arg_float a ''vx'' of
           Inl e \<Rightarrow> Inl e
         | Inr vx \<Rightarrow>
             (case arg_float a ''wz'' of
                Inl e \<Rightarrow> Inl e
              | Inr wz \<Rightarrow>
                  if \<not> (isfinite vx \<and> isfinite wz)
                  then Inr (Some (NonFiniteSpeed (dict_get a ''vx'') (dict_get a ''wz'')))
                  else Inr None))
      else Inr None)"

datatype danger =
    HighSpeed "pyval option" "pyval option"
  | ArmGrasp pyval

text \<open>\<open>args.get('target') or args.get('obj')\<close>.\<close>

definition grasp_subject :: "args \<Rightarrow> pyval" where
  "grasp_subject a =
     (let t = dict_getd a ''target'' PNone in if truthy t then t else dict_getd a ''obj'' PNone)"

definition danger_reason :: "string \<Rightarrow> args \<Rightarrow> safety_policy \<Rightarrow> danger option result" where
  "danger_reason name a pol =
     (if name = ''set_velocity'' then
        (case arg_float a ''vx'' of
           Inl e \<Rightarrow> Inl e
         | Inr vx \<Rightarrow>
             (case arg_float a ''wz'' of
                Inl e \<Rightarrow> Inl e
              | Inr wz \<Rightarrow>
                  if isfinite vx \<and> isfinite wz \<and> (fgt (fabs vx) (max_vx pol) \<or> fgt (fabs wz) (max_wz pol))
                  then Inr (Some (HighSpeed (dict_get a ''vx'') (dict_get a ''wz'')))
                  else Inr None))
      else if name = ''grasp'' \<and> gate_grasp pol then Inr (Some (ArmGrasp (grasp_subject a)))
      else Inr None)"

section \<open>Approve or block\<close>

text \<open>The payload shown to the operator; its \<open>reason\<close> text is left out.\<close>

definition confirmation_payload :: "string \<Rightarrow> args \<Rightarrow> pyval" where
  "confirmation_payload name a =
     PDict [(''type'', PStr ''safety_confirmation''), (''action'', PStr name), (''args'', PDict a)]"

text \<open>How a resume value is read: only the boolean True approves.\<close>

fun read_decision :: "pyval \<Rightarrow> bool \<times> remark" where
  "read_decision (PDict d) =
     (dict_getd d ''approved'' PNone = PBool True, Verbatim (dict_getd d ''reason'' (PStr [])))"
| "read_decision v = (v = PBool True, NoNote)"

definition confirm_or_block ::
  "string \<Rightarrow> args \<Rightarrow> safety_policy \<Rightarrow> scratchpad \<Rightarrow> (bool \<times> remark) outcome \<times> scratchpad" where
  "confirm_or_block name a pol sp =
     (case reject_reason name a of
        Inl e \<Rightarrow> (Raised e, sp)
      | Inr (Some hard) \<Rightarrow> (Returned (False, hard), sp)
      | Inr None \<Rightarrow>
     (case danger_reason name a pol of
        Inl e \<Rightarrow> (Raised e, sp)
      | Inr None \<Rightarrow> (Returned (True, NoNote), sp)
      | Inr (Some _) \<Rightarrow>
     (case interrupt (confirmation_payload name a) sp of
        (Returned v, sp') \<Rightarrow> (Returned (read_decision v), sp')
      | (Raised e, sp') \<Rightarrow> (Raised e, sp')
      | (Suspended p, sp') \<Rightarrow> (Suspended p, sp'))))"

section \<open>Facts about the gate\<close>

lemma read_decision_approved_iff:
  "fst (read_decision v) \<longleftrightarrow>
     v = PBool True \<or> (\<exists>d. v = PDict d \<and> dict_get d ''approved'' = Some (PBool True))"
  by (cases v rule: read_decision.cases) (auto simp: dict_getd_def split: option.splits)

definition dangerous :: "string \<Rightarrow> args \<Rightarrow> safety_policy \<Rightarrow> bool" where
  "dangerous name a pol \<longleftrightarrow> (\<exists>d. danger_reason name a pol = Inr (Some d))"

definition illegal :: "string \<Rightarrow> args \<Rightarrow> bool" where
  "illegal name a \<longleftrightarrow> (\<exists>r. reject_reason name a = Inr (Some r))"

lemma confirm_illegal:
  "illegal name a \<Longrightarrow> \<exists>r. confirm_or_block name a pol sp = (Returned (False, r), sp)"
  by (auto simp: illegal_def confirm_or_block_def)

lemma confirm_harmless:
  "reject_reason name a = Inr None \<Longrightarrow> danger_reason name a pol = Inr None \<Longrightarrow>
   confirm_or_block name a pol sp = (Returned (True, NoNote), sp)"
  by (simp add: confirm_or_block_def)

lemma confirm_dangerous:
  assumes "\<not> illegal name a" and "dangerous name a pol"
  shows "confirm_or_block name a pol sp =
     (case interrupt (confirmation_payload name a) sp of
        (Returned v, sp') \<Rightarrow> (Returned (read_decision v), sp')
      | (Raised e, sp') \<Rightarrow> (Raised e, sp')
      | (Suspended p, sp') \<Rightarrow> (Suspended p, sp'))"
proof -
  have "reject_reason name a = Inr None"
    using assms by (auto simp: illegal_def dangerous_def reject_reason_def danger_reason_def
        split: sum.splits if_splits)
  with assms(2) show ?thesis by (auto simp: confirm_or_block_def dangerous_def)
qed

lemma confirm_approved_inv:
  assumes "confirm_or_block name a pol sp = (Returned (True, n), sp')"
  shows "\<not> illegal name a \<and>
    (\<not> dangerous name a pol \<or>
     (\<exists>v. interrupt (confirmation_payload name a) sp = (Returned v, sp') \<and> fst (read_decision v)))"
  using assms
  by (auto simp: confirm_or_block_def illegal_def dangerous_def
      split: sum.splits option.splits prod.splits outcome.splits)

text \<open>C2. Fail-closed confirmation: a gated call is approved only when it is legal and either
  harmless or answered by the boolean True (alone or under the key \<open>approved\<close>); every other resume
  value, such as a string, a number or an approval spelled as text, blocks it.\<close>

theorem confirmation_fails_closed:
  assumes "dangerous name a pol" and "confirm_or_block name a pol sp = (Returned (ok, n), sp')"
    and "interrupt (confirmation_payload name a) sp = (Returned v, sp')"
  shows "ok \<longleftrightarrow> \<not> illegal name a \<and>
     (v = PBool True \<or> (\<exists>d. v = PDict d \<and> dict_get d ''approved'' = Some (PBool True)))"
proof (cases "illegal name a")
  case True
  with confirm_illegal [of name a pol sp] assms(2) show ?thesis by auto
next
  case False
  with confirm_dangerous [OF False assms(1), of sp] assms(2,3) read_decision_approved_iff [of v]
  show ?thesis by (auto simp: prod_eq_iff)
qed

theorem confirmation_fails_closed_witness:
  "confirm_or_block ''grasp'' [(''target'', PStr ''cup'')] default_safety_policy
      (resume_with (PStr ''deny'') fresh_scratchpad)
     = (Returned (False, NoNote), \<lparr>interrupt_counter = 1, resume = [PStr ''deny''], null_resume = None\<rparr>)"
proof -
  let ?a = "[(''target'', PStr ''cup'')]"
  let ?sp = "resume_with (PStr ''deny'') fresh_scratchpad"
  let ?sp' = "\<lparr>interrupt_counter = 1, resume = [PStr ''deny''], null_resume = None\<rparr>"
  have d: "dangerous ''grasp'' ?a default_safety_policy"
    by (simp add: dangerous_def danger_reason_def default_safety_policy_def)
  have i: "interrupt (confirmation_payload ''grasp'' ?a) ?sp = (Returned (PStr ''deny''), ?sp')"
    by (simp add: interrupt_resumed)
  have c: "confirm_or_block ''grasp'' ?a default_safety_policy ?sp =
      (Returned (fst (read_decision (PStr ''deny'')), NoNote), ?sp')"
    by (simp add: confirm_or_block_def reject_reason_def danger_reason_def default_safety_policy_def i)
  from confirmation_fails_closed [OF d c i] have "\<not> fst (read_decision (PStr ''deny''))" by simp
  with c show ?thesis by simp
qed

text \<open>Illegal speeds cannot be approved: \<open>set_velocity\<close> with a NaN or infinite speed is blocked
  without asking, under every policy, in every state of the scratchpad.\<close>

theorem nonfinite_speed_always_blocked:
  assumes "arg_float a ''vx'' = Inr vx" and "arg_float a ''wz'' = Inr wz"
    and "\<not> (isfinite vx \<and> isfinite wz)"
  shows "confirm_or_block ''set_velocity'' a pol sp =
     (Returned (False, NonFiniteSpeed (dict_get a ''vx'') (dict_get a ''wz'')), sp)"
  using assms by (simp add: confirm_or_block_def reject_reason_def)

theorem nonfinite_speed_always_blocked_witness:
  "confirm_or_block ''set_velocity'' [(''vx'', PFloat NaN), (''wz'', PFloat (Fin 0))] default_safety_policy
      (resume_with (PBool True) fresh_scratchpad)
   = (Returned (False, NonFiniteSpeed (Some (PFloat NaN)) (Some (PFloat (Fin 0)))),
      resume_with (PBool True) fresh_scratchpad)"
  by (subst nonfinite_speed_always_blocked [where vx = NaN and wz = "Fin 0"])
     (simp_all add: arg_float_def dict_getd_def)

end
