(* ===== verification/Tools.thy ===== *)
theory Tools
  imports Safety
begin

text \<open>
  The tool layer between decision and hardware: \<open>robot_agent/hal\<close> (mock actuators and the
  registry), \<open>robot_agent/tools.py\<close> (the robot tools with their governance and safety gates) and
  \<open>robot_agent/skills\<close> (macros of actions as tools). A tool call is a state transformer on
  \<open>tool_env\<close>: governance policy, actuators, scratchpad of the running task.
\<close>

section \<open>Actuators\<close>

text \<open>\<open>hal/mock.py\<close>: an actuator records each command and answers with its fixed result.\<close>

record actuator =
  act_name :: string
  act_log :: "pydict list"
  act_result :: pydict

definition mock_actuator :: "string \<Rightarrow> pydict option \<Rightarrow> actuator" where
  "mock_actuator name result =
     \<lparr>act_name = name, act_log = [],
      act_result = (case result of Some r \<Rightarrow> if r \<noteq> [] then r else [(''ok'', PBool True)]
                                 | None \<Rightarrow> [(''ok'', PBool True)])\<rparr>"

definition execute :: "pydict \<Rightarrow> actuator \<Rightarrow> pydict \<times> actuator" where
  "execute command act =
     (dict_set ''actuator'' (PStr (act_name act)) (act_result act),
      act\<lparr>act_log := act_log act @ [command]\<rparr>)"

type_synonym registry = "(string, actuator) dict"

text \<open>\<open>hal/registry.py\<close>: only the mock tier is built in; a missing actuator is a KeyError.\<close>

definition default_effector_names :: "string list" where
  "default_effector_names = [''base'', ''arm'', ''speaker'']"

definition build_effectors :: "string \<Rightarrow> string list \<Rightarrow> registry result" where
  "build_effectors tier names =
     (if tier = ''mock'' then Inr (fold (\<lambda>n r. dict_set n (mock_actuator n None) r) names [])
      else Inl ValueError)"

definition effector :: "string \<Rightarrow> registry \<Rightarrow> actuator result" where
  "effector name reg = (case dict_get reg name of None \<Rightarrow> Inl KeyError | Some act \<Rightarrow> Inr act)"

section \<open>Tool environment and gates\<close>

record tool_env =
  gov :: "governance option"
  effectors :: registry
  pad :: scratchpad

datatype tool_reply =
    GovRefused string remark
  | SafetyRefused string args remark
  | Executed string args pydict
  | WorldState pydict

text \<open>\<open>_govern\<close>: the refusal text, or None to go on.\<close>

definition govern :: "string \<Rightarrow> args \<Rightarrow> tool_env \<Rightarrow> remark option result \<times> tool_env" where
  "govern name a e =
     (case gov e of
        None \<Rightarrow> (Inr None, e)
      | Some g \<Rightarrow>
          (case check name a g of
             Inl ex \<Rightarrow> (Inl ex, e)
           | Inr ((ok, r), g') \<Rightarrow> (Inr (if ok then None else Some r), e\<lparr>gov := Some g'\<rparr>)))"

text \<open>\<open>_audit_safety\<close>: the outcome of the gate enters the governance log.\<close>

definition audit_safety :: "string \<Rightarrow> args \<Rightarrow> bool \<Rightarrow> remark \<Rightarrow> tool_env \<Rightarrow> tool_env" where
  "audit_safety name a approved n e =
     (case gov e of
        None \<Rightarrow> e
      | Some g \<Rightarrow>
          e\<lparr>gov := Some (audit_record name a approved
             (if note_truthy n then n else if approved then HumanApproved else HumanRejected) g)\<rparr>)"

definition send :: "string \<Rightarrow> pydict \<Rightarrow> tool_env \<Rightarrow> pydict outcome \<times> tool_env" where
  "send eff command e =
     (case effector eff (effectors e) of
        Inl ex \<Rightarrow> (Raised ex, e)
      | Inr act \<Rightarrow>
          (let (res, act') = execute command act
           in (Returned res, e\<lparr>effectors := dict_set eff act' (effectors e)\<rparr>)))"

text \<open>The two gates as the tools use them: \<open>k\<close> is the rest of the tool body.\<close>

definition after_governance ::
  "string \<Rightarrow> args \<Rightarrow> (tool_env \<Rightarrow> tool_reply outcome \<times> tool_env) \<Rightarrow> tool_env \<Rightarrow> tool_reply outcome \<times> tool_env" where
  "after_governance name a k e =
     (case govern name a e of
        (Inl ex, e1) \<Rightarrow> (Raised ex, e1)
      | (Inr (Some r), e1) \<Rightarrow> (Returned (GovRefused name r), e1)
      | (Inr None, e1) \<Rightarrow> k e1)"

definition after_safety ::
  "safety_policy option \<Rightarrow> string \<Rightarrow> args \<Rightarrow> (tool_env \<Rightarrow> tool_reply outcome \<times> tool_env) \<Rightarrow> tool_env
     \<Rightarrow> tool_reply outcome \<times> tool_env" where
  "after_safety safety name a k e =
     (case safety of
        None \<Rightarrow> k e
      | Some pol \<Rightarrow>
          (case confirm_or_block name a pol (pad e) of
             (Raised ex, sp) \<Rightarrow> (Raised ex, e\<lparr>pad := sp\<rparr>)
           | (Suspended p, sp) \<Rightarrow> (Suspended p, e\<lparr>pad := sp\<rparr>)
           | (Returned (approved, n), sp) \<Rightarrow>
               (let e1 = audit_safety name a approved n (e\<lparr>pad := sp\<rparr>) in
                if approved then k e1
                else (Returned (SafetyRefused name a (if note_truthy n then n else Unconfirmed)), e1))))"

definition act_and_reply :: "string \<Rightarrow> args \<Rightarrow> string \<Rightarrow> pydict \<Rightarrow> tool_env \<Rightarrow> tool_reply outcome \<times> tool_env" where
  "act_and_reply name a eff command e =
     (case send eff command e of
        (Returned res, e') \<Rightarrow> (Returned (Executed name a res), e')
      | (Raised ex, e') \<Rightarrow> (Raised ex, e')
      | (Suspended p, e') \<Rightarrow> (Suspended p, e'))"

section \<open>The robot tools\<close>

definition move_to :: "pyfloat \<Rightarrow> pyfloat \<Rightarrow> tool_env \<Rightarrow> tool_reply outcome \<times> tool_env" where
  "move_to x y =
     (let a = [(''x'', PFloat x), (''y'', PFloat y)] in
      after_governance ''move_to'' a
        (act_and_reply ''move_to'' a ''base'' ((''action'', PStr ''move_to'') # a)))"

definition set_velocity ::
  "safety_policy option \<Rightarrow> pyfloat \<Rightarrow> pyfloat \<Rightarrow> tool_env \<Rightarrow> tool_reply outcome \<times> tool_env" where
  "set_velocity safety vx wz =
     (let a = [(''vx'', PFloat vx), (''wz'', PFloat wz)] in
      after_governance ''set_velocity'' a
        (after_safety safety ''set_velocity'' a
          (act_and_reply ''set_velocity'' a ''base'' ((''action'', PStr ''set_velocity'') # a))))"

definition grasp :: "safety_policy option \<Rightarrow> string \<Rightarrow> tool_env \<Rightarrow> tool_reply outcome \<times> tool_env" where
  "grasp safety obj =
     (let a = [(''target'', PStr obj)] in
      after_governance ''grasp'' a
        (after_safety safety ''grasp'' a
          (act_and_reply ''grasp'' a ''arm'' ((''action'', PStr ''grasp'') # a))))"

definition speak :: "string \<Rightarrow> tool_env \<Rightarrow> tool_reply outcome \<times> tool_env" where
  "speak txt =
     (let a = [(''text'', PStr txt)] in
      after_governance ''speak'' a
        (act_and_reply ''speak'' a ''speaker'' ((''action'', PStr ''speak'') # a)))"

definition get_world_state :: "pydict \<Rightarrow> tool_env \<Rightarrow> tool_reply outcome \<times> tool_env" where
  "get_world_state state e =
     (let det = dict_getd state ''detections'' PNone in
      (Returned (WorldState
         [(''pose'', dict_getd state ''pose'' PNone),
          (''battery'', dict_getd state ''battery'' PNone),
          (''detections'', if truthy det then det else PList [])]), e))"

text \<open>\<open>build_robot_tools\<close>: the five tools, closed over one policy; a call picks one of them.\<close>

datatype robot_call =
    MoveTo pyfloat pyfloat
  | SetVelocity pyfloat pyfloat
  | Grasp string
  | Speak string
  | GetWorldState pydict

fun robot_tool :: "safety_policy option \<Rightarrow> robot_call \<Rightarrow> tool_env \<Rightarrow> tool_reply outcome \<times> tool_env" where
  "robot_tool safety (MoveTo x y) = move_to x y"
| "robot_tool safety (SetVelocity vx wz) = set_velocity safety vx wz"
| "robot_tool safety (Grasp obj) = grasp safety obj"
| "robot_tool safety (Speak txt) = speak txt"
| "robot_tool safety (GetWorldState state) = get_world_state state"

lemmas tool_defs =
  move_to_def set_velocity_def grasp_def speak_def get_world_state_def

section \<open>Skills\<close>

text \<open>
  \<open>robot_agent/skills/tools.py\<close>. A step is \<open>{"tool": name, "args": {...}}\<close>, where \<open>args\<close> may be
  missing; the tool name of a step may be missing too, which is a KeyError when the step runs.
\<close>

record skill_step =
  step_tool :: "string option"
  step_args :: "args option"

record skill =
  skill_id :: string
  skill_name :: string
  skill_description :: string
  skill_actions :: "skill_step list"
  skill_created :: rat

datatype skill_reply =
    SkillDone string "string list"
  | UnknownAction string string
  | NoActuator string string
  | SkillRefused string remark

definition arg :: "args \<Rightarrow> string \<Rightarrow> pyval result" where
  "arg a key = (case dict_get a key of None \<Rightarrow> Inl KeyError | Some v \<Rightarrow> Inr v)"

text \<open>A command of the named arguments, in order; a missing one is a KeyError.\<close>

fun build_command :: "string list \<Rightarrow> args \<Rightarrow> pydict \<Rightarrow> pydict result" where
  "build_command [] a acc = Inr acc"
| "build_command (k # ks) a acc =
     (case arg a k of Inl ex \<Rightarrow> Inl ex | Inr v \<Rightarrow> build_command ks a (acc @ [(k, v)]))"

text \<open>\<open>_ROUTING\<close>: actuator and command builder of each action.\<close>

definition routing :: "string \<Rightarrow> (string \<times> (args \<Rightarrow> pydict result)) option" where
  "routing name =
     (if name = ''move_to'' then
        Some (''base'', \<lambda>a. build_command [''x'', ''y''] a [(''action'', PStr name)])
      else if name = ''set_velocity'' then
        Some (''base'', \<lambda>a. build_command [''vx'', ''wz''] a [(''action'', PStr name)])
      else if name = ''grasp'' then
        Some (''arm'', \<lambda>a. Inr [(''action'', PStr name), (''target'', grasp_subject a)])
      else if name = ''speak'' then
        Some (''speaker'', \<lambda>a. build_command [''text''] a [(''action'', PStr name)])
      else None)"

text \<open>One step after its route is known and its actuator is present: governance, then execution.\<close>

definition run_step ::
  "string \<Rightarrow> string \<Rightarrow> args \<Rightarrow> string \<Rightarrow> (args \<Rightarrow> pydict result) \<Rightarrow> tool_env
     \<Rightarrow> skill_reply option outcome \<times> tool_env" where
  "run_step sname name a eff build e =
     (case govern name a e of
        (Inl ex, e1) \<Rightarrow> (Raised ex, e1)
      | (Inr (Some r), e1) \<Rightarrow> (Returned (Some (SkillRefused sname r)), e1)
      | (Inr None, e1) \<Rightarrow>
          (case build a of
             Inl ex \<Rightarrow> (Raised ex, e1)
           | Inr command \<Rightarrow>
               (case send eff command e1 of
                  (Returned res, e2) \<Rightarrow> (Returned None, e2)
                | (Raised ex, e2) \<Rightarrow> (Raised ex, e2)
                | (Suspended p, e2) \<Rightarrow> (Suspended p, e2))))"

fun run_steps :: "string \<Rightarrow> skill_step list \<Rightarrow> string list \<Rightarrow> tool_env \<Rightarrow> skill_reply outcome \<times> tool_env" where
  "run_steps sname [] dn e = (Returned (SkillDone sname dn), e)"
| "run_steps sname (st # sts) dn e =
     (case step_tool st of
        None \<Rightarrow> (Raised KeyError, e)
      | Some name \<Rightarrow>
          (let a = (case step_args st of None \<Rightarrow> [] | Some a \<Rightarrow> a) in
           case routing name of
             None \<Rightarrow> (Returned (UnknownAction sname name), e)
           | Some (eff, build) \<Rightarrow>
               if dict_get (effectors e) eff = None then (Returned (NoActuator sname eff), e)
               else (case run_step sname name a eff build e of
                       (Returned None, e') \<Rightarrow> run_steps sname sts (dn @ [name]) e'
                     | (Returned (Some r), e') \<Rightarrow> (Returned r, e')
                     | (Raised ex, e') \<Rightarrow> (Raised ex, e')
                     | (Suspended p, e') \<Rightarrow> (Suspended p, e'))))"

definition run_skill :: "skill \<Rightarrow> tool_env \<Rightarrow> skill_reply outcome \<times> tool_env" where
  "run_skill sk = run_steps (skill_name sk) (skill_actions sk) []"

text \<open>\<open>build_skill_tools\<close>: two skills of one name are refused before any tool is built.\<close>

fun first_duplicate :: "string set \<Rightarrow> string list \<Rightarrow> string option" where
  "first_duplicate seen [] = None"
| "first_duplicate seen (n # ns) = (if n \<in> seen then Some n else first_duplicate (insert n seen) ns)"

definition build_skill_tools ::
  "skill list \<Rightarrow> (string \<times> (tool_env \<Rightarrow> skill_reply outcome \<times> tool_env)) list result" where
  "build_skill_tools sks =
     (case first_duplicate {} (map skill_name sks) of
        Some _ \<Rightarrow> Inl ValueError
      | None \<Rightarrow> Inr (map (\<lambda>sk. (''skill_'' @ skill_name sk, run_skill sk)) sks))"

section \<open>Backed commands\<close>

text \<open>Commands an actuator received for an action, and allowed audit entries for it.\<close>

definition action_of :: "pydict \<Rightarrow> string" where
  "action_of c = (case dict_get c ''action'' of Some (PStr s) \<Rightarrow> s | _ \<Rightarrow> [])"

definition received :: "string \<Rightarrow> actuator \<Rightarrow> nat" where
  "received n act = length (filter (\<lambda>c. action_of c = n) (act_log act))"

definition sent :: "string \<Rightarrow> tool_env \<Rightarrow> nat" where
  "sent n e = sum_list (map (\<lambda>(k, act). received n act) (effectors e))"

definition cleared :: "string \<Rightarrow> governance \<Rightarrow> nat" where
  "cleared n g = length (filter (\<lambda>en. entry_allowed en \<and> entry_action en = n) (audit g))"

text \<open>
  A transition that sends at most the commands its own allowed entries (and, for action \<open>n\<close>, a
  credit of \<open>k\<close>) pay for.
\<close>

definition pays :: "string \<Rightarrow> nat \<Rightarrow> tool_env \<Rightarrow> tool_env \<Rightarrow> bool" where
  "pays n k e e' \<longleftrightarrow>
     (gov e = None \<longrightarrow> gov e' = None) \<and>
     (\<forall>g. gov e = Some g \<longrightarrow>
        (\<exists>g'. gov e' = Some g' \<and>
              (\<forall>m. sent m e' + cleared m g \<le> sent m e + cleared m g' + (if m = n then k else 0))))"

definition backed :: "tool_env \<Rightarrow> bool" where
  "backed e \<longleftrightarrow> (\<forall>g n. gov e = Some g \<longrightarrow> sent n e \<le> cleared n g)"

lemma pays_refl [simp]: "pays n k e e"
  by (simp add: pays_def)

lemma pays_pad [simp]: "pays n k e (e'\<lparr>pad := sp\<rparr>) = pays n k e e'" "pays n k (e\<lparr>pad := sp\<rparr>) e' = pays n k e e'"
  by (simp_all add: pays_def sent_def)

lemma paysI_None: "gov e = None \<Longrightarrow> gov e' = None \<Longrightarrow> pays n k e e'"
  by (simp add: pays_def)

lemma paysI_Some:
  assumes "gov e = Some g" and "gov e' = Some g'"
    and "\<And>m. sent m e' + cleared m g \<le> sent m e + cleared m g' + (if m = n then k else 0)"
  shows "pays n k e e'"
  using assms by (simp add: pays_def)

lemma pays_cases:
  assumes "pays n k e e'"
  obtains (ungoverned) "gov e = None" "gov e' = None"
    | (governed) g g' where "gov e = Some g" "gov e' = Some g'"
      "\<And>m. sent m e' + cleared m g \<le> sent m e + cleared m g' + (if m = n then k else 0)"
proof (cases "gov e")
  case None
  with assms show thesis by (intro ungoverned) (simp_all add: pays_def)
next
  case (Some g)
  with assms obtain g' where g': "gov e' = Some g'"
    and le: "\<forall>m. sent m e' + cleared m g \<le> sent m e + cleared m g' + (if m = n then k else 0)"
    unfolding pays_def by blast
  show thesis by (rule governed [OF Some g']) (use le in blast)
qed

lemma pays_trans:
  assumes "pays n k e e1" and "pays n j e1 e2"
  shows "pays n (k + j) e e2"
  using assms(1)
proof (cases rule: pays_cases)
  case ungoverned
  then show ?thesis using assms(2) by (auto simp: pays_def)
next
  case (governed g g1)
  note step1 = governed
  from assms(2) show ?thesis
  proof (cases rule: pays_cases)
    case ungoverned
    then show ?thesis using step1 by simp
  next
    case (governed h g2)
    have "sent m e2 + cleared m g \<le> sent m e + cleared m g2 + (if m = n then k + j else 0)" for m
      using step1(2) governed(1) step1(3) [of m] governed(3) [of m] by (auto split: if_splits)
    then show ?thesis by (rule paysI_Some [OF step1(1) governed(2)])
  qed
qed

lemma pays_any:
  assumes "pays n 0 e e'"
  shows "pays m k e e'"
  using assms
proof (cases rule: pays_cases)
  case ungoverned
  then show ?thesis by (rule paysI_None)
next
  case (governed g g')
  show ?thesis
  proof (rule paysI_Some [OF governed(1,2)])
    show "sent l e' + cleared l g \<le> sent l e + cleared l g' + (if l = m then k else 0)" for l
      using governed(3) [of l] by (auto split: if_splits)
  qed
qed

lemma pays_backed:
  assumes "pays n 0 e e'" and "backed e"
  shows "backed e'"
  using assms(1)
proof (cases rule: pays_cases)
  case ungoverned
  then show ?thesis by (simp add: backed_def)
next
  case (governed g g')
  have "sent m e' \<le> cleared m g'" for m
    using governed(3) [of m] assms(2) governed(1) by (auto simp: backed_def split: if_splits dest: spec [of _ m])
  then show ?thesis by (simp add: backed_def governed(2))
qed

lemma sum_update:
  "dict_get reg k = Some act \<Longrightarrow>
   sum_list (map (\<lambda>(k, a). f a) (dict_set k act' reg)) + f act = sum_list (map (\<lambda>(k, a). f a) reg) + (f act' :: nat)"
  by (induction reg) (auto split: if_splits)

lemma send_cases:
  assumes "send eff c e = (out, e')"
  obtains (missing) "out = Raised KeyError" "e' = e" "dict_get (effectors e) eff = None"
    | (sent) act where "dict_get (effectors e) eff = Some act"
      "out = Returned (dict_set ''actuator'' (PStr (act_name act)) (act_result act))"
      "e' = e\<lparr>effectors := dict_set eff (act\<lparr>act_log := act_log act @ [c]\<rparr>) (effectors e)\<rparr>"
  using assms by (auto simp: send_def effector_def execute_def Let_def split: option.splits)

lemma sent_after_send:
  assumes "dict_get (effectors e) eff = Some act"
  shows "sent m (e\<lparr>effectors := dict_set eff (act\<lparr>act_log := act_log act @ [c]\<rparr>) (effectors e)\<rparr>)
     = sent m e + (if action_of c = m then 1 else 0)"
  using sum_update [OF assms, of "received m" "act\<lparr>act_log := act_log act @ [c]\<rparr>"]
  by (simp add: sent_def received_def split: if_splits)

lemma pays_send: "send eff c e = (out, e') \<Longrightarrow> pays (action_of c) 1 e e'"
  by (erule send_cases) (auto simp: pays_def sent_after_send)

lemma pays_audit_safety: "pays n k e (audit_safety name a ok r e)"
  by (auto simp: pays_def audit_safety_def audit_record_def sent_def cleared_def split: option.splits)

section \<open>Every path to an actuator pays\<close>

text \<open>
  The accounting of one tool call: an allowed verdict earns one command of that action, the
  safety gate costs nothing, and \<open>frugal n k\<close> is a piece of code that sends at most what it
  earned plus a credit of \<open>k\<close> commands of action \<open>n\<close>.
\<close>

definition frugal :: "string \<Rightarrow> nat \<Rightarrow> (tool_env \<Rightarrow> 'r outcome \<times> tool_env) \<Rightarrow> bool" where
  "frugal n k f \<longleftrightarrow> (\<forall>e out e'. f e = (out, e') \<longrightarrow> pays n k e e')"

lemma frugalI [intro?]: "(\<And>e out e'. f e = (out, e') \<Longrightarrow> pays n k e e') \<Longrightarrow> frugal n k f"
  by (simp add: frugal_def)

lemma frugalD: "frugal n k f \<Longrightarrow> f e = (out, e') \<Longrightarrow> pays n k e e'"
  by (simp add: frugal_def)

lemma cleared_audit_record [simp]:
  "cleared m (audit_record n a ok r g) = cleared m g + (if ok \<and> n = m then 1 else 0)"
  by (simp add: cleared_def audit_record_def)

lemma cleared_check:
  "check n a g = Inr ((ok, r), g') \<Longrightarrow> cleared m g' = cleared m g + (if ok \<and> n = m then 1 else 0)"
  by (drule check_logs) (simp add: cleared_def)

lemma govern_cases:
  assumes "govern n a e = (v, e')"
  obtains (ungoverned) "gov e = None" "v = Inr None" "e' = e"
    | (raised) ex where "v = Inl ex" "e' = e"
    | (denied) g g' r where "gov e = Some g" "check n a g = Inr ((False, r), g')" "v = Inr (Some r)"
        "e' = e\<lparr>gov := Some g'\<rparr>"
    | (allowed) g g' r where "gov e = Some g" "check n a g = Inr ((True, r), g')" "v = Inr None"
        "e' = e\<lparr>gov := Some g'\<rparr>"
  using assms by (auto simp: govern_def split: option.splits sum.splits prod.splits if_splits)

text \<open>What governance leaves behind: a refusal costs nothing, an allowed call has a command to
  spend.\<close>

lemma pays_after_govern:
  assumes "govern n a e = (v, e1)"
  shows "v \<noteq> Inr None \<Longrightarrow> pays m k e e1"
    and "v = Inr None \<Longrightarrow> pays n 1 e1 e2 \<Longrightarrow> pays n 0 e e2"
proof -
  have sent_gov [simp]: "sent m (e\<lparr>gov := x\<rparr>) = sent m e" for m x by (simp add: sent_def)
  show "v \<noteq> Inr None \<Longrightarrow> pays m k e e1"
    using assms by (cases rule: govern_cases) (auto simp: cleared_check intro!: paysI_Some)
  assume v: "v = Inr None" and p: "pays n 1 e1 e2"
  from assms show "pays n 0 e e2"
  proof (cases rule: govern_cases)
    case ungoverned
    with p show ?thesis by (auto simp: pays_def)
  next
    case (allowed g g' r)
    from p show ?thesis
    proof (cases rule: pays_cases)
      case ungoverned
      then show ?thesis using allowed by simp
    next
      case (governed h g2)
      show ?thesis
      proof (rule paysI_Some [OF allowed(1) governed(2)])
        show "sent m e2 + cleared m g \<le> sent m e + cleared m g2 + (if m = n then 0 else 0)" for m
          using governed(1) governed(3) [of m] allowed cleared_check [OF allowed(2), of m]
          by (auto split: if_splits)
      qed
    qed
  qed (use v in simp_all)
qed

lemma frugal_after_governance:
  assumes "frugal n 1 k"
  shows "frugal n 0 (after_governance n a k)"
proof
  fix e out e'
  assume run: "after_governance n a k e = (out, e')"
  obtain v e1 where g: "govern n a e = (v, e1)" by (cases "govern n a e") auto
  show "pays n 0 e e'"
  proof (cases "v = Inr None")
    case True
    with run g have "k e1 = (out, e')" by (simp add: after_governance_def)
    from pays_after_govern(2) [OF g True frugalD [OF assms this]] show ?thesis .
  next
    case False
    with run g have "e' = e1" by (auto simp: after_governance_def split: sum.splits option.splits)
    with pays_after_govern(1) [OF g False] show ?thesis by simp
  qed
qed

lemma frugal_after_safety:
  assumes "frugal n k f"
  shows "frugal n k (after_safety safety m a f)"
proof
  fix e out e'
  assume run: "after_safety safety m a f e = (out, e')"
  show "pays n k e e'"
  proof (cases safety)
    case None
    with run frugalD [OF assms] show ?thesis by (simp add: after_safety_def)
  next
    case (Some pol)
    obtain d sp where c: "confirm_or_block m a pol (pad e) = (d, sp)" by (cases "confirm_or_block m a pol (pad e)") auto
    have audit: "pays n 0 e (audit_safety m a ok r (e\<lparr>pad := sp\<rparr>))" for ok r
      using pays_audit_safety [of n 0 "e\<lparr>pad := sp\<rparr>"] by (simp only: pays_pad)
    show ?thesis
    proof (cases d)
      case (Returned v)
      obtain ok r where v: "v = (ok, r)" by (cases v) auto
      show ?thesis
      proof (cases ok)
        case True
        with run Some c Returned v have "f (audit_safety m a True r (e\<lparr>pad := sp\<rparr>)) = (out, e')"
          by (simp add: after_safety_def Let_def)
        from pays_trans [OF audit frugalD [OF assms this]] show ?thesis by simp
      next
        case False
        with run Some c Returned v have "e' = audit_safety m a False r (e\<lparr>pad := sp\<rparr>)"
          by (simp add: after_safety_def Let_def)
        with pays_any [OF audit] show ?thesis by simp
      qed
    qed (use run Some c in \<open>auto simp: after_safety_def\<close>)
  qed
qed

lemma frugal_act:
  assumes "action_of c = n"
  shows "frugal n 1 (act_and_reply n a eff c)"
proof
  fix e out e'
  assume run: "act_and_reply n a eff c e = (out, e')"
  obtain o1 e1 where s: "send eff c e = (o1, e1)" by (cases "send eff c e") auto
  with run have "e' = e1" by (auto simp: act_and_reply_def split: outcome.splits)
  with pays_send [OF s] assms show "pays n 1 e e'" by simp
qed

lemma robot_tool_pays:
  assumes "robot_tool safety c e = (out, e')"
  shows "pays n 0 e e'"
proof -
  have "\<exists>m. frugal m 0 (robot_tool safety c)"
  proof (cases c)
    case (GetWorldState state)
    then have "frugal [] 0 (robot_tool safety c)"
      by (auto simp: frugal_def get_world_state_def Let_def)
    then show ?thesis by blast
  qed (auto simp: tool_defs Let_def action_of_def
         intro!: exI frugal_after_governance frugal_after_safety frugal_act)
  then obtain m where "pays m 0 e e'" using assms frugalD by blast
  then show ?thesis by (rule pays_any)
qed

lemma build_command_prefix:
  "build_command ks a acc = Inr c \<Longrightarrow> dict_get acc k = Some v \<Longrightarrow> dict_get c k = Some v"
  by (induction ks arbitrary: acc) (auto split: sum.splits)

text \<open>Every route builds a command of its own action.\<close>

lemma routing_action:
  assumes "routing name = Some (eff, build)" and "build a = Inr c"
  shows "action_of c = name"
proof -
  have "dict_get c ''action'' = Some (PStr name)"
    using assms build_command_prefix [of _ a "[(''action'', PStr name)]" c "''action''" "PStr name"]
    by (auto simp: routing_def simp del: build_command.simps split: if_splits)
  then show ?thesis by (simp add: action_of_def)
qed

lemma run_step_pays:
  assumes "routing name = Some (eff, build)" and "run_step sname name a eff build e = (out, e')"
  shows "pays n 0 e e'"
proof -
  obtain v e1 where g: "govern name a e = (v, e1)" by (cases "govern name a e") auto
  show ?thesis
  proof (cases "v = Inr None")
    case False
    with assms(2) g have "e' = e1" by (auto simp: run_step_def split: sum.splits option.splits)
    with pays_after_govern(1) [OF g False] show ?thesis by simp
  next
    case True
    have "pays name 1 e1 e'"
    proof (cases "build a")
      case (Inl ex)
      with True assms(2) g show ?thesis by (simp add: run_step_def)
    next
      case (Inr c)
      obtain o2 e2 where s: "send eff c e1 = (o2, e2)" by (cases "send eff c e1") auto
      with True assms(2) g Inr have "e' = e2" by (auto simp: run_step_def split: outcome.splits)
      with pays_send [OF s] routing_action [OF assms(1) Inr] show ?thesis by simp
    qed
    from pays_any [OF pays_after_govern(2) [OF g True this]] show ?thesis .
  qed
qed

text \<open>A skill ends at once, or goes on after one step that succeeded.\<close>

lemma run_steps_pays: "run_steps sname sts dn e = (out, e') \<Longrightarrow> pays n 0 e e'"
proof (induction sts arbitrary: dn e)
  case Nil
  then show ?case by simp
next
  case (Cons st sts)
  show ?case
  proof (cases "step_tool st")
    case None
    with Cons.prems show ?thesis by simp
  next
    case (Some name)
    define a where "a = (case step_args st of None \<Rightarrow> [] | Some a \<Rightarrow> a)"
    show ?thesis
    proof (cases "routing name")
      case None
      with Some Cons.prems show ?thesis by simp
    next
      case (Some rt)
      obtain eff build where rt: "rt = (eff, build)" by (cases rt) auto
      show ?thesis
      proof (cases "dict_get (effectors e) eff = None")
        case True
        with Some rt \<open>step_tool st = _\<close> Cons.prems show ?thesis by simp
      next
        case False
        obtain o1 e1 where s: "run_step sname name a eff build e = (o1, e1)"
          by (cases "run_step sname name a eff build e") auto
        have "pays n 0 e e1" using run_step_pays s Some rt by blast
        moreover have "e' = e1 \<or> run_steps sname sts (dn @ [name]) e1 = (out, e')"
          using Some rt \<open>step_tool st = _\<close> Cons.prems False s
          by (auto simp: a_def [symmetric] split: outcome.splits option.splits)
        ultimately show ?thesis using Cons.IH pays_trans [of n 0 e e1 0 e'] by auto
      qed
    qed
  qed
qed

section \<open>Sessions\<close>

text \<open>
  A session is a sequence of calls, each under the scratchpad its task has at that moment. The
  locale is the contract between the tools and whoever drives them: a call pays for what it
  sends. It is interpreted on the robot tools, on skills, and on the two together.
\<close>

fun run_session :: "('c \<Rightarrow> tool_env \<Rightarrow> 'r outcome \<times> tool_env) \<Rightarrow> ('c \<times> scratchpad) list \<Rightarrow> tool_env \<Rightarrow> tool_env" where
  "run_session call [] e = e"
| "run_session call ((c, sp) # cs) e = run_session call cs (snd (call c (e\<lparr>pad := sp\<rparr>)))"

datatype agent_call = RobotCall robot_call | SkillCall skill

datatype agent_reply = RobotReply tool_reply | SkillReply skill_reply

fun map_outcome :: "('a \<Rightarrow> 'b) \<Rightarrow> 'a outcome \<Rightarrow> 'b outcome" where
  "map_outcome f (Returned a) = Returned (f a)"
| "map_outcome f (Raised ex) = Raised ex"
| "map_outcome f (Suspended p) = Suspended p"

fun agent_tool :: "safety_policy option \<Rightarrow> agent_call \<Rightarrow> tool_env \<Rightarrow> agent_reply outcome \<times> tool_env" where
  "agent_tool safety (RobotCall c) e = map_prod (map_outcome RobotReply) id (robot_tool safety c e)"
| "agent_tool safety (SkillCall sk) e = map_prod (map_outcome SkillReply) id (run_skill sk e)"

locale governed_calls =
  fixes call :: "'c \<Rightarrow> tool_env \<Rightarrow> 'r outcome \<times> tool_env"
  assumes call_pays: "call c e = (out, e') \<Longrightarrow> pays [] 0 e e'"
begin

lemma session_pays: "pays [] 0 e (run_session call cs e)"
proof (induction cs arbitrary: e)
  case Nil
  then show ?case by simp
next
  case (Cons x cs)
  obtain c sp where x: "x = (c, sp)" by (cases x) auto
  obtain out e1 where s: "call c (e\<lparr>pad := sp\<rparr>) = (out, e1)" by (cases "call c (e\<lparr>pad := sp\<rparr>)") auto
  from call_pays [OF s] have "pays [] 0 e e1" by simp
  from pays_trans [OF this Cons.IH] show ?case by (simp add: x s)
qed

lemma session_backed: "backed e \<Longrightarrow> backed (run_session call cs e)"
  using session_pays by (rule pays_backed)

end

interpretation robot: governed_calls "robot_tool safety" for safety
  by unfold_locales (rule robot_tool_pays)

interpretation skills: governed_calls run_skill
  by unfold_locales (simp add: run_skill_def run_steps_pays)

interpretation agent: governed_calls "agent_tool safety" for safety
proof unfold_locales
  fix c e out e'
  assume "agent_tool safety c e = (out, e')"
  then show "pays [] 0 e e'"
    by (cases c) (auto simp: map_prod_def robot_tool_pays run_skill_def run_steps_pays split: prod.splits)
qed

section \<open>Properties\<close>

text \<open>C1. No ungoverned motion: starting from an environment whose commands are all accounted for,
  after any sequence of robot tool calls and skill calls, with any resume values and any safety
  policy, no actuator has received more commands of an action than the audit log holds allowed
  entries for it.\<close>

theorem every_command_is_backed:
  assumes "backed e" and "gov (run_session (agent_tool safety) cs e) = Some g"
  shows "sent n (run_session (agent_tool safety) cs e) \<le> cleared n g"
  using agent.session_backed [OF assms(1), of safety cs] assms(2) by (simp add: backed_def)

definition demo_governance :: "(string, int) dict option \<Rightarrow> governance" where
  "demo_governance limits = \<lparr>permission = None, constitution = [], amplitude = None,
     rate_limit = limits, audit = [], counts = []\<rparr>"

definition demo_env :: "governance option \<Rightarrow> tool_env" where
  "demo_env g = \<lparr>gov = g,
     effectors = [(''base'', mock_actuator ''base'' None), (''arm'', mock_actuator ''arm'' None),
                  (''speaker'', mock_actuator ''speaker'' None)],
     pad = fresh_scratchpad\<rparr>"

lemmas demo_defs =
  demo_governance_def demo_env_def mock_actuator_def governance_defs send_def effector_def execute_def
  after_governance_def after_safety_def act_and_reply_def govern_def audit_safety_def dict_getd_def Let_def

theorem every_command_is_backed_witness:
  "sent ''grasp'' (run_session (agent_tool None) [(RobotCall (Grasp ''cup''), fresh_scratchpad)] (demo_env (Some (demo_governance None))))
     \<le> cleared ''grasp'' (the (gov (run_session (agent_tool None)
          [(RobotCall (Grasp ''cup''), fresh_scratchpad)] (demo_env (Some (demo_governance None))))))"
proof (rule every_command_is_backed)
  show "backed (demo_env (Some (demo_governance None)))"
    by (simp add: backed_def sent_def received_def demo_env_def mock_actuator_def)
  show "gov (run_session (agent_tool None) [(RobotCall (Grasp ''cup''), fresh_scratchpad)] (demo_env (Some (demo_governance None))))
      = Some (the (gov (run_session (agent_tool None)
          [(RobotCall (Grasp ''cup''), fresh_scratchpad)] (demo_env (Some (demo_governance None))))))"
    by (simp add: grasp_def demo_defs)
qed

text \<open>The two runs of a gated grasp: the first asks, the second acts on the answer.\<close>

lemma grasp_first_run:
  assumes "gate_grasp pol" and "pad e = fresh_scratchpad" and "govern ''grasp'' [(''target'', PStr obj)] e = (Inr None, e1)"
  shows "grasp (Some pol) obj e =
     (Suspended (confirmation_payload ''grasp'' [(''target'', PStr obj)]), e1\<lparr>pad := fresh_scratchpad\<lparr>interrupt_counter := 1\<rparr>\<rparr>)"
proof -
  have "pad e1 = fresh_scratchpad"
    using assms(3,2) by (cases rule: govern_cases) simp_all
  with assms(1,3) show ?thesis
    by (simp add: grasp_def after_governance_def after_safety_def confirm_or_block_def reject_reason_def
        danger_reason_def Let_def)
qed

lemma grasp_resumed_run:
  assumes "gate_grasp pol" and "v \<noteq> PNone" and "pad e = resume_with v fresh_scratchpad"
    and "govern ''grasp'' [(''target'', PStr obj)] e = (Inr None, e1)"
  shows "grasp (Some pol) obj e =
     (let a = [(''target'', PStr obj)]; (ok, n) = read_decision v;
          e2 = audit_safety ''grasp'' a ok n
                 (e1\<lparr>pad := \<lparr>interrupt_counter = 1, resume = [v], null_resume = None\<rparr>\<rparr>) in
      if ok then act_and_reply ''grasp'' a ''arm'' ((''action'', PStr ''grasp'') # a) e2
      else (Returned (SafetyRefused ''grasp'' a (if note_truthy n then n else Unconfirmed)), e2))"
proof -
  have "pad e1 = resume_with v fresh_scratchpad"
    using assms(4,3) by (cases rule: govern_cases) simp_all
  with assms(1,2,4) show ?thesis
    by (simp add: grasp_def after_governance_def after_safety_def confirm_or_block_def reject_reason_def
        danger_reason_def Let_def interrupt_resumed split: prod.splits)
qed

lemma effectors_audit_safety [simp]: "effectors (audit_safety n a ok r e) = effectors e"
  by (simp add: audit_safety_def split: option.splits)

lemma sent_effectors: "effectors e = effectors e' \<Longrightarrow> sent n e = sent n e'"
  by (simp add: sent_def)

text \<open>Exactly-once actuation across the interrupt: the first run of a gated grasp suspends
  with every actuator untouched, and the replay with the operator's answer sends one grasp command
  when the answer approves and none otherwise.\<close>

theorem gated_grasp_exactly_once:
  assumes "gate_grasp pol" and "gov e = None" and "pad e = fresh_scratchpad"
    and "dict_get (effectors e) ''arm'' = Some act" and "v \<noteq> PNone"
  shows "\<exists>p e1. grasp (Some pol) obj e = (Suspended p, e1) \<and> effectors e1 = effectors e \<and>
     sent ''grasp'' (snd (grasp (Some pol) obj (e1\<lparr>pad := resume_with v fresh_scratchpad\<rparr>)))
       = sent ''grasp'' e + (if fst (read_decision v) then 1 else 0)"
proof -
  define e1 where "e1 = e\<lparr>pad := fresh_scratchpad\<lparr>interrupt_counter := 1\<rparr>\<rparr>"
  have none: "govern ''grasp'' a f = (Inr None, f)" if "gov f = None" for a f
    using that by (simp add: govern_def)
  have first: "grasp (Some pol) obj e = (Suspended (confirmation_payload ''grasp'' [(''target'', PStr obj)]), e1)"
    unfolding e1_def by (rule grasp_first_run [OF assms(1,3) none [OF assms(2)]])
  define f where "f = e1\<lparr>pad := resume_with v fresh_scratchpad\<rparr>"
  have f: "gov f = None" "pad f = resume_with v fresh_scratchpad" "effectors f = effectors e"
    using assms(2) by (simp_all add: f_def e1_def)
  obtain ok n where d: "read_decision v = (ok, n)" by (cases "read_decision v") auto
  define f2 where "f2 = audit_safety ''grasp'' [(''target'', PStr obj)] ok n
     (f\<lparr>pad := \<lparr>interrupt_counter = 1, resume = [v], null_resume = None\<rparr>\<rparr>)"
  have arm: "dict_get (effectors f2) ''arm'' = Some act" using f assms(4) by (simp add: f2_def)
  have base: "sent ''grasp'' f2 = sent ''grasp'' e" using f by (intro sent_effectors) (simp add: f2_def)
  have "sent ''grasp'' (snd (grasp (Some pol) obj f)) = sent ''grasp'' e + (if ok then 1 else 0)"
    unfolding grasp_resumed_run [OF assms(1,5) f(2) none [OF f(1)]] d Let_def prod.case f2_def [symmetric]
    using arm base sent_after_send [OF arm, of "''grasp''"]
    by (simp add: act_and_reply_def send_def effector_def execute_def action_of_def Let_def)
  with first f show ?thesis by (simp add: d f_def e1_def)
qed

theorem gated_grasp_exactly_once_witness:
  "\<exists>p e1. grasp (Some default_safety_policy) ''cup'' (demo_env None) = (Suspended p, e1) \<and> effectors e1 = effectors (demo_env None) \<and>
     sent ''grasp'' (snd (grasp (Some default_safety_policy) ''cup'' (e1\<lparr>pad := resume_with (PBool True) fresh_scratchpad\<rparr>))) = 1"
proof -
  have "sent ''grasp'' (demo_env None) = 0"
    by (simp add: sent_def received_def demo_env_def mock_actuator_def)
  with gated_grasp_exactly_once [of default_safety_policy "demo_env None" "mock_actuator ''arm'' None" "PBool True" "''cup''"]
  show ?thesis by (simp add: default_safety_policy_def demo_env_def)
qed

text \<open>The governance gate runs again on the replay: an approved grasp is charged twice, so a
  quota with one use left, which the first run consumes, refuses the very call the operator has
  just approved, and the arm never moves.\<close>

theorem approved_grasp_charged_twice:
  assumes "gate_grasp pol" and "pad e = fresh_scratchpad" and "gov e = Some g"
    and "check_permission (permission g) ''grasp'' = None"
    and "check_constitution (constitution g) ''grasp'' [(''target'', PStr obj)] = None"
    and "rate_limit g = Some limits" and "dict_get limits ''grasp'' = Some c" and "used g ''grasp'' = c - 1"
  shows "\<exists>p e1. grasp (Some pol) obj e = (Suspended p, e1) \<and>
     fst (grasp (Some pol) obj (e1\<lparr>pad := resume_with (PBool True) fresh_scratchpad\<rparr>))
       = Returned (GovRefused ''grasp'' (OverRate ''grasp'' c))"
proof -
  let ?a = "[(''target'', PStr obj)]"
  define g1 where "g1 = audit_record ''grasp'' ?a True NoNote (g\<lparr>counts := dict_set ''grasp'' c (counts g)\<rparr>)"
  have amp: "check_amplitude m ''grasp'' ?a = Inr None" for m
    by (simp add: check_amplitude_def split: option.splits)
  have c1: "check ''grasp'' ?a g = Inr ((True, NoNote), g1)"
    using assms(4-8) amp by (simp add: check_def check_rate_def used_def g1_def Let_def)
  have "govern ''grasp'' ?a e = (Inr None, e\<lparr>gov := Some g1\<rparr>)"
    by (simp add: govern_def assms(3) c1)
  note first = grasp_first_run [OF assms(1,2) this]
  have c2: "\<exists>g2. check ''grasp'' ?a g1 = Inr ((False, OverRate ''grasp'' c), g2)"
    using assms(4-7) amp by (simp add: check_def check_rate_def deny_def g1_def audit_record_def dict_getd_def Let_def)
  have "fst (grasp (Some pol) obj (e\<lparr>gov := Some g1, pad := sp\<rparr>)) = Returned (GovRefused ''grasp'' (OverRate ''grasp'' c))" for sp
    using c2 by (auto simp: grasp_def after_governance_def govern_def Let_def)
  with first show ?thesis by simp
qed

theorem approved_grasp_charged_twice_witness:
  "\<exists>p e1. grasp (Some default_safety_policy) ''cup'' (demo_env (Some (demo_governance (Some [(''grasp'', 1)])))) = (Suspended p, e1) \<and>
     fst (grasp (Some default_safety_policy) ''cup'' (e1\<lparr>pad := resume_with (PBool True) fresh_scratchpad\<rparr>))
       = Returned (GovRefused ''grasp'' (OverRate ''grasp'' 1))"
  by (rule approved_grasp_charged_twice [where g = "demo_governance (Some [(''grasp'', 1)])" and limits = "[(''grasp'', 1)]"])
     (simp_all add: demo_defs default_safety_policy_def used_def)

text \<open>Skills run outside the safety gate.\<close>

lemma govern_pad [simp]: "govern n a e = (v, e') \<Longrightarrow> pad e' = pad e"
  by (erule govern_cases) simp_all

lemma send_pad: "send eff c e = (out, e') \<Longrightarrow> pad e' = pad e \<and> (\<forall>p. out \<noteq> Suspended p)"
  by (erule send_cases) simp_all

lemma run_step_pad:
  "run_step sname name a eff build e = (out, e') \<Longrightarrow> pad e' = pad e \<and> (\<forall>p. out \<noteq> Suspended p)"
  by (auto simp: run_step_def split: prod.splits sum.splits option.splits outcome.splits dest: govern_pad send_pad)

lemma run_steps_pad:
  "run_steps sname sts dn e = (out, e') \<Longrightarrow> pad e' = pad e \<and> (\<forall>p. out \<noteq> Suspended p)"
proof (induction sts arbitrary: dn e)
  case Nil
  then show ?case by auto
next
  case (Cons st sts)
  have step: "run_step sname n a eff b e = (o1, e1) \<Longrightarrow> pad e1 = pad e \<and> (\<forall>p. o1 \<noteq> Suspended p)" for n a eff b o1 e1
    by (rule run_step_pad)
  from Cons.prems show ?case
    by (auto split: option.splits if_splits prod.splits outcome.splits dest!: step Cons.IH)
qed

text \<open>A skill never asks the operator: whatever actions a skill macro contains, running it
  neither suspends nor looks at the resume values of its task, so the confirmation gate that
  guards the same actions as robot tools is not on this path; only governance is.\<close>

theorem skills_never_ask:
  assumes "run_skill sk e = (out, e')"
  shows "pad e' = pad e \<and> (\<forall>p. out \<noteq> Suspended p)"
  using assms by (simp add: run_skill_def run_steps_pad)

definition nan_skill :: skill where
  "nan_skill = \<lparr>skill_id = ''s1'', skill_name = ''spin'', skill_description = [],
     skill_actions = [\<lparr>step_tool = Some ''set_velocity'', step_args = Some [(''vx'', PFloat NaN), (''wz'', PFloat (Fin 9))]\<rparr>],
     skill_created = 0\<rparr>"

theorem skills_never_ask_witness:
  "pad (snd (run_skill nan_skill (demo_env None))) = fresh_scratchpad \<and>
   fst (run_skill nan_skill (demo_env None)) = Returned (SkillDone ''spin'' [''set_velocity''])"
proof -
  have run: "fst (run_skill nan_skill (demo_env None)) = Returned (SkillDone ''spin'' [''set_velocity''])"
    by (simp add: run_skill_def nan_skill_def routing_def run_step_def arg_def demo_env_def
        govern_def send_def effector_def execute_def mock_actuator_def Let_def)
  have "run_skill nan_skill (demo_env None) =
      (Returned (SkillDone ''spin'' [''set_velocity'']), snd (run_skill nan_skill (demo_env None)))"
    using run by (metis prod.collapse)
  from skills_never_ask [OF this] run show ?thesis by (simp add: demo_env_def)
qed

text \<open>Automatic passes are logged as human approvals: a legal, harmless \<open>set_velocity\<close> under a
  safety policy is executed without asking anybody, and yet the audit log gains an entry that says
  a human approved it.\<close>

theorem auto_pass_logged_as_human:
  assumes "gov e = Some g" and "check ''set_velocity'' [(''vx'', PFloat vx), (''wz'', PFloat wz)] g = Inr ((True, r), g')"
    and "danger_reason ''set_velocity'' [(''vx'', PFloat vx), (''wz'', PFloat wz)] pol = Inr None"
    and "isfinite vx" and "isfinite wz"
  shows "pad (snd (set_velocity (Some pol) vx wz e)) = pad e \<and>
     map entry_reason (audit (the (gov (snd (set_velocity (Some pol) vx wz e)))))
       = map entry_reason (audit g) @ [NoNote, HumanApproved]"
proof -
  let ?a = "[(''vx'', PFloat vx), (''wz'', PFloat wz)]"
  have r: "r = NoNote" using check_allowed_reason assms(2) .
  have log: "map entry_reason (audit g') = map entry_reason (audit g) @ [NoNote]"
    using check_logs [OF assms(2)] by (simp add: r)
  have "reject_reason ''set_velocity'' ?a = Inr None"
    using assms(4,5) by (simp add: reject_reason_def arg_float_def dict_getd_def)
  then have c: "confirm_or_block ''set_velocity'' ?a pol sp = (Returned (True, NoNote), sp)" for sp
    using assms(3) by (rule confirm_harmless)
  define e2 where "e2 = audit_safety ''set_velocity'' ?a True NoNote (e\<lparr>gov := Some g'\<rparr>)"
  have run: "set_velocity (Some pol) vx wz e =
      act_and_reply ''set_velocity'' ?a ''base'' ((''action'', PStr ''set_velocity'') # ?a) e2"
    using assms(1,2) c by (simp add: set_velocity_def after_governance_def govern_def after_safety_def Let_def e2_def)
  have e2: "pad e2 = pad e" "gov e2 = Some (audit_record ''set_velocity'' ?a True HumanApproved g')"
    by (simp_all add: e2_def audit_safety_def)
  obtain out e3 where s: "send ''base'' ((''action'', PStr ''set_velocity'') # ?a) e2 = (out, e3)"
    by (cases "send ''base'' ((''action'', PStr ''set_velocity'') # ?a) e2") auto
  have "pad e3 = pad e \<and> gov e3 = gov e2"
    using s e2(1) by (cases rule: send_cases) simp_all
  moreover have "snd (set_velocity (Some pol) vx wz e) = e3"
    unfolding run by (simp add: act_and_reply_def s split: outcome.splits)
  ultimately show ?thesis using log by (simp add: e2(2) audit_record_def)
qed

theorem auto_pass_logged_as_human_witness:
  "map entry_reason (audit (the (gov (snd (set_velocity (Some default_safety_policy) (Fin (1 / 10)) (Fin 0)
       (demo_env (Some (demo_governance None)))))))) = [NoNote, HumanApproved]"
proof -
  let ?a = "[(''vx'', PFloat (Fin (1 / 10))), (''wz'', PFloat (Fin 0))]"
  have c: "check ''set_velocity'' ?a (demo_governance None) =
      Inr ((True, NoNote), audit_record ''set_velocity'' ?a True NoNote (demo_governance None))"
    by (simp add: governance_defs demo_governance_def)
  have d: "danger_reason ''set_velocity'' ?a default_safety_policy = Inr None"
    by (simp add: danger_reason_def arg_float_def dict_getd_def default_safety_policy_def)
  from auto_pass_logged_as_human [OF _ c d, of "demo_env (Some (demo_governance None))"] show ?thesis
    by (simp add: demo_env_def demo_governance_def)
qed

end
