(* ===== verification/Reflect.thy ===== *)
theory Reflect
  imports Goals Tools
begin

text \<open>
  Reflection and operations: \<open>robot_agent/reflect/episode.py\<close> (episodes from turns, their storage),
  \<open>reflect/distill.py\<close> (facts and preferences from a model's answer), \<open>reflect/hook.py\<close>,
  \<open>robot_agent/ops/journal.py\<close> and \<open>ops/health.py\<close>, and the skill library \<open>robot_agent/skills/store.py\<close>.
  Validation by pydantic, prompt texts and the model are arguments.
\<close>

section \<open>Episodes\<close>

record episode =
  ep_id :: string
  ep_ts :: pyfloat
  ep_intent :: string
  ep_actions :: "string list"
  ep_outcome :: string
  ep_thread :: string
  ep_goal :: "string option"
  ep_success :: "bool option"

definition call_text :: "(rat \<Rightarrow> string) \<Rightarrow> tool_call \<Rightarrow> string" where
  "call_text ff c = call_name c @ ''('' @ py_str ff (PDict (call_args c)) @ '')''"

definition extract_actions :: "(rat \<Rightarrow> string) \<Rightarrow> message list \<Rightarrow> string list" where
  "extract_actions ff ms = concat (map (\<lambda>m. map (call_text ff) (tool_calls m)) ms)"

definition extract_outcome :: "(rat \<Rightarrow> string) \<Rightarrow> message list \<Rightarrow> string" where
  "extract_outcome ff ms =
     (case filter (\<lambda>m. role m = AIRole \<and> tool_calls m = []) (rev ms) of
        [] \<Rightarrow> [] | m # _ \<Rightarrow> content_to_text ff (content m))"

definition current_turn_messages :: "message list \<Rightarrow> message list" where
  "current_turn_messages ms =
     (case last_index (\<lambda>m. role m = HumanRole) ms of None \<Rightarrow> [] | Some i \<Rightarrow> drop i ms)"

definition zero_padded :: "nat \<Rightarrow> nat \<Rightarrow> string" where
  "zero_padded w n = replicate (w - length (nat_str n)) CHR ''0'' @ nat_str n"

text \<open>A value for a field of type str, and for one of type str or None.\<close>

fun as_str :: "pyval \<Rightarrow> string result" where
  "as_str (PStr s) = Inr s"
| "as_str _ = Inl ValueError"

fun as_opt_str :: "pyval \<Rightarrow> string option result" where
  "as_opt_str PNone = Inr None"
| "as_opt_str (PStr s) = Inr (Some s)"
| "as_opt_str _ = Inl ValueError"

text \<open>\<open>ts\<close> is \<open>time.time()\<close>, not negative.\<close>

definition episode_from_turn :: "(rat \<Rightarrow> string) \<Rightarrow> rat \<Rightarrow> turn_result \<Rightarrow> episode result" where
  "episode_from_turn ff ts t =
     (let p = ev_payload (turn_event t);
          want = py_or (py_or (dict_getd p ''text'' PNone) (dict_getd p ''instruction'' PNone))
                   (PStr (''['' @ ev_kind (turn_event t) @ '']''));
          ms = current_turn_messages (gr_messages (turn_output t))
      in case as_str (turn_thread t) of Inl x \<Rightarrow> Inl x | Inr thread \<Rightarrow>
         (case as_opt_str (dict_getd p ''goal_id'' PNone) of Inl x \<Rightarrow> Inl x | Inr goal \<Rightarrow>
            Inr \<lparr>ep_id = ''ep-'' @ zero_padded 20 (nat \<lfloor>ts * 1000000\<rfloor>) @ ''-'' @ zero_padded 6 (turn_index t),
                 ep_ts = Fin ts, ep_intent = py_str ff want, ep_actions = extract_actions ff ms,
                 ep_outcome = extract_outcome ff ms, ep_thread = thread, ep_goal = goal, ep_success = None\<rparr>))"

definition dump_episode :: "episode \<Rightarrow> pydict" where
  "dump_episode e =
     [(''id'', PStr (ep_id e)), (''ts'', PFloat (ep_ts e)), (''intent'', PStr (ep_intent e)),
      (''actions'', PList (map PStr (ep_actions e))), (''outcome'', PStr (ep_outcome e)), (''thread_id'', PStr (ep_thread e)),
      (''goal_id'', case ep_goal e of None \<Rightarrow> PNone | Some g \<Rightarrow> PStr g),
      (''success'', case ep_success e of None \<Rightarrow> PNone | Some b \<Rightarrow> PBool b)]"

text \<open>\<open>parse_episode\<close> is \<open>Episode(**d)\<close>; the other fields render prompt texts.\<close>

record reflect_deps =
  parse_episode :: "pydict \<Rightarrow> episode result"
  episode_line :: "string \<Rightarrow> string \<Rightarrow> string \<Rightarrow> string"
  action_separator :: string
  no_actions :: string
  no_outcome :: string
  distill_prompt :: "string \<Rightarrow> string"
  reflect_digits :: "rat \<Rightarrow> string"

definition episodes_ns :: "string \<Rightarrow> namespace" where
  "episodes_ns r = memory_ns r kind_episodic"

definition record_episode :: "'s store_ops \<Rightarrow> string \<Rightarrow> episode \<Rightarrow> (episode, 's) proc" where
  "record_episode ops r e =
     bind_proc (prim (op_put ops (episodes_ns r) (ep_id e) (dump_episode e))) (\<lambda>_. ret e)"

definition read_episodes :: "reflect_deps \<Rightarrow> 's store_ops \<Rightarrow> string \<Rightarrow> (episode list, 's) proc" where
  "read_episodes d ops r =
     bind_proc (read_all ops (episodes_ns r)) (\<lambda>its.
     bind_proc (of_result (map_result (\<lambda>it. parse_episode d (item_value it)) its)) (\<lambda>es.
       ret (sort_key (\<lambda>e. (ep_ts e, ep_id e)) es)))"

definition prune_episodes :: "'s store_ops \<Rightarrow> string \<Rightarrow> string list \<Rightarrow> (nat, 's) proc" where
  "prune_episodes ops r ids =
     bind_proc (each (\<lambda>i. prim (op_delete ops (episodes_ns r) i)) ids) (\<lambda>_. ret (length ids))"

section \<open>Distillation\<close>

definition format_episodes :: "reflect_deps \<Rightarrow> episode list \<Rightarrow> string" where
  "format_episodes d es =
     join [CHR 0x0A] (map (\<lambda>e. episode_line d (ep_intent e)
        (if ep_actions e = [] then no_actions d else join (action_separator d) (ep_actions e))
        (if ep_outcome e = [] then no_outcome d else ep_outcome e)) es)"

text \<open>The regular expression of a distilled line: kind, colon, key, equals sign, value. The key is the
  shortest one (of at least one character) before an equals sign with something after it; only when
  the equals sign follows at once can a space stand for the key. (The wide signs are outside the
  modelled characters.)\<close>

fun find_equals :: "string \<Rightarrow> string \<Rightarrow> (string \<times> string) option" where
  "find_equals key [] = None"
| "find_equals key (c # cs) =
     (let r = lstrip (c # cs) in
      if take 1 r = ''='' \<and> drop 1 r \<noteq> [] then Some (key, drop 1 r) else find_equals (key @ [c]) cs)"

definition kind_of_tag :: "string \<Rightarrow> string option" where
  "kind_of_tag t = (if t = ''fact'' then Some kind_facts else if t = ''pref'' then Some kind_prefs else None)"

definition parse_line :: "string \<Rightarrow> (string \<times> string \<times> string) option" where
  "parse_line line =
     (let s = lstrip line; r = lstrip (drop 4 s); body = drop 1 r; w = lstrip body in
      case kind_of_tag (lower (take 4 s)) of
        None \<Rightarrow> None
      | Some kind \<Rightarrow>
          if take 1 r \<noteq> '':'' then None
          else (case (case w of [] \<Rightarrow> None | c # cs \<Rightarrow> find_equals [c] cs) of
                  Some (k, v) \<Rightarrow> Some (kind, strip k, strip v)
                | None \<Rightarrow> if w \<noteq> body \<and> take 1 w = ''='' \<and> drop 1 w \<noteq> [] then Some (kind, [], strip (drop 1 w)) else None))"

definition parse_distilled :: "string \<Rightarrow> (string \<times> string \<times> string) list" where
  "parse_distilled txt = List.map_filter parse_line (splitlines txt)"

text \<open>The slice \<open>xs[-n:]\<close> for any integer.\<close>

definition slice_from_end :: "int \<Rightarrow> 'a list \<Rightarrow> 'a list" where
  "slice_from_end n xs = (if n \<le> 0 then drop (nat (- n)) xs else drop (length xs - nat n) xs)"

record distill_result =
  episodes_seen :: nat
  written :: "(string \<times> string \<times> string) list"

definition default_max_episodes :: int where
  "default_max_episodes = 50"

definition write_back :: "'s store_ops \<Rightarrow> string \<Rightarrow> (string \<times> string \<times> string) list \<Rightarrow> (unit, 's) proc" where
  "write_back ops r found =
     each (\<lambda>(kind, k, v). prim (op_put ops (memory_ns r kind) k [(''value'', PStr v)])) found"

definition reflect_and_distill ::
  "reflect_deps \<Rightarrow> 's store_ops \<Rightarrow> string \<Rightarrow> string chat \<Rightarrow> int \<Rightarrow> int \<Rightarrow> bool \<Rightarrow> (distill_result, 's) proc" where
  "reflect_and_distill d ops r model min_episodes max_episodes prune =
     bind_proc (read_episodes d ops r) (\<lambda>es.
       if int (length es) < min_episodes then ret \<lparr>episodes_seen = length es, written = []\<rparr>
       else (let todo = slice_from_end max_episodes es in
             bind_proc (of_result (model (distill_prompt d (format_episodes d todo)))) (\<lambda>msg.
             let found = parse_distilled (content_to_text (reflect_digits d) (content msg)) in
             bind_proc (write_back ops r found) (\<lambda>_.
             bind_proc (if prune \<and> found \<noteq> [] then prune_episodes ops r (map ep_id todo) else ret 0) (\<lambda>_.
               ret \<lparr>episodes_seen = length todo, written = found\<rparr>)))))"

text \<open>The hook after a turn; its own state counts the completed turns.\<close>

record reflect_config =
  distill_model :: "string chat option"
  reflect_every :: int
  reflect_min :: int
  reflect_prune :: bool

definition reflect_hook :: "reflect_deps \<Rightarrow> 's store_ops \<Rightarrow> string \<Rightarrow> reflect_config \<Rightarrow> rat \<Rightarrow> turn_result \<Rightarrow> (unit, nat \<times> 's) proc" where
  "reflect_hook d ops r cfg ts t cs =
     (if turn_interrupted t then Some (Inr (), cs)
      else (case bind_proc (of_result (episode_from_turn (reflect_digits d) ts t)) (record_episode ops r) (snd cs) of
              None \<Rightarrow> None
            | Some (Inl x, s') \<Rightarrow> Some (Inl x, (fst cs, s'))
            | Some (Inr _, s') \<Rightarrow>
                (let completed = fst cs + 1 in
                 case distill_model cfg of
                   None \<Rightarrow> Some (Inr (), (completed, s'))
                 | Some model \<Rightarrow>
                     if 0 < reflect_every cfg \<and> int completed mod reflect_every cfg = 0
                     then (case reflect_and_distill d ops r model (reflect_min cfg) default_max_episodes (reflect_prune cfg) s' of
                             None \<Rightarrow> None
                           | Some (Inl x, s'') \<Rightarrow> Some (Inl x, (completed, s''))
                           | Some (Inr _, s'') \<Rightarrow> Some (Inr (), (completed, s'')))
                     else Some (Inr (), (completed, s')))))"

section \<open>The decision journal\<close>

record journal_entry =
  j_ts :: pyfloat
  j_thread :: string
  j_intent :: string
  j_decisions :: "string list"
  j_outcome :: string
  j_interrupted :: bool

type_synonym journal = "journal_entry list"

definition journal_append :: "journal_entry \<Rightarrow> journal \<Rightarrow> journal" where
  "journal_append e j = j @ [e]"

definition journal_replay :: "journal \<Rightarrow> string \<Rightarrow> journal_entry list" where
  "journal_replay j t = filter (\<lambda>e. j_thread e = t) j"

definition journal_latest :: "journal \<Rightarrow> journal_entry option" where
  "journal_latest j = (if j = [] then None else Some (last j))"

definition journal_entry_from_turn :: "(rat \<Rightarrow> string) \<Rightarrow> rat \<Rightarrow> turn_result \<Rightarrow> journal_entry result" where
  "journal_entry_from_turn ff ts t =
     (case episode_from_turn ff ts t of
        Inl x \<Rightarrow> Inl x
      | Inr e \<Rightarrow> Inr \<lparr>j_ts = ep_ts e, j_thread = ep_thread e, j_intent = ep_intent e, j_decisions = ep_actions e,
                     j_outcome = ep_outcome e, j_interrupted = turn_interrupted t\<rparr>)"

definition journal_hook :: "(rat \<Rightarrow> string) \<Rightarrow> rat \<Rightarrow> turn_result \<Rightarrow> (unit, journal) proc" where
  "journal_hook ff ts t j =
     (case journal_entry_from_turn ff ts t of Inl x \<Rightarrow> Some (Inl x, j) | Inr e \<Rightarrow> Some (Inr (), journal_append e j))"

record introspection =
  in_turns :: nat
  in_pending :: "string list"
  in_latest :: "journal_entry option"

text \<open>Driver turns and pending threads, when a driver is given (its threads are strings).\<close>

definition introspect :: "journal \<Rightarrow> (nat \<times> string list) option \<Rightarrow> introspection" where
  "introspect j drv =
     \<lparr>in_turns = (case drv of Some (n, _) \<Rightarrow> n | None \<Rightarrow> length j),
      in_pending = (case drv of Some (_, ts) \<Rightarrow> sort (remdups ts) | None \<Rightarrow> []), in_latest = journal_latest j\<rparr>"

section \<open>Health\<close>

record health_report =
  h_turns :: nat
  h_pending :: nat
  h_escalations :: int
  h_loops :: int
  h_budget :: int
  h_denials :: nat
  h_compactions :: int
  h_failures :: int
  h_archived :: int

text \<open>\<open>int(state.get(key) or 0)\<close>.\<close>

definition count_of :: "pydict \<Rightarrow> string \<Rightarrow> int result" where
  "count_of st k =
     (case py_or (dict_getd st k PNone) (PInt 0) of
        PInt i \<Rightarrow> Inr i
      | PBool b \<Rightarrow> Inr (if b then 1 else 0)
      | PFloat (Fin q) \<Rightarrow> Inr (if 0 \<le> q then \<lfloor>q\<rfloor> else \<lceil>q\<rceil>)
      | PFloat NaN \<Rightarrow> Inl ValueError
      | PFloat _ \<Rightarrow> Inl OverflowError
      | PStr s \<Rightarrow> (case py_int s of Some i \<Rightarrow> Inr i | None \<Rightarrow> Inl ValueError)
      | _ \<Rightarrow> Inl TypeError)"

datatype agent_state = NoState | StateMapping pydict | StateSnapshot pydict | OtherState

fun state_mapping :: "agent_state \<Rightarrow> pydict result" where
  "state_mapping NoState = Inr []"
| "state_mapping (StateMapping st) = Inr st"
| "state_mapping (StateSnapshot st) = Inr st"
| "state_mapping OtherState = Inl TypeError"

definition collect_health ::
  "(nat \<times> pyval list) option \<Rightarrow> (string, int) dict option \<Rightarrow> governance option \<Rightarrow> journal option \<Rightarrow> agent_state \<Rightarrow> health_report result" where
  "collect_health drv metrics gv j ast =
     (let m = (case metrics of None \<Rightarrow> [] | Some x \<Rightarrow> x) in
      case state_mapping ast of
        Inl x \<Rightarrow> Inl x
      | Inr st \<Rightarrow>
          (case map_result (count_of st) [''context_compaction_count'', ''context_compaction_failures'', ''context_archived_messages''] of
             Inl x \<Rightarrow> Inl x
           | Inr cs \<Rightarrow> Inr \<lparr>
               h_turns = (case drv of Some (n, _) \<Rightarrow> n | None \<Rightarrow> (case j of Some es \<Rightarrow> length es | None \<Rightarrow> 0)),
               h_pending = (case drv of Some (_, ts) \<Rightarrow> length (remdups ts) | None \<Rightarrow> 0),
               h_escalations = dict_getd m ''escalations'' 0, h_loops = dict_getd m ''loops'' 0,
               h_budget = dict_getd m ''budget_breaches'' 0,
               h_denials = (case gv of Some g \<Rightarrow> length (denials g) | None \<Rightarrow> 0),
               h_compactions = cs ! 0, h_failures = cs ! 1, h_archived = cs ! 2\<rparr>))"

section \<open>The skill library\<close>

definition kind_skills :: string where "kind_skills = ''skills''"

definition skills_ns :: "string \<Rightarrow> namespace" where
  "skills_ns r = [r, kind_skills]"

text \<open>\<open>parse\<close> and \<open>dump\<close> are \<open>Skill(**d)\<close> and \<open>model_dump()\<close>.\<close>

record skill_codec =
  parse_skill :: "pydict \<Rightarrow> skill result"
  dump_skill :: "skill \<Rightarrow> pydict"

definition add_skill :: "skill_codec \<Rightarrow> 's store_ops \<Rightarrow> string \<Rightarrow> rat \<Rightarrow> skill \<Rightarrow> (skill, 's) proc" where
  "add_skill d ops r now sk =
     (let sk' = (if skill_created sk = 0 then sk\<lparr>skill_created := now\<rparr> else sk) in
      bind_proc (prim (op_put ops (skills_ns r) (skill_id sk') (dump_skill d sk'))) (\<lambda>_. ret sk'))"

definition get_skill :: "skill_codec \<Rightarrow> 's store_ops \<Rightarrow> string \<Rightarrow> string \<Rightarrow> (skill option, 's) proc" where
  "get_skill d ops r i =
     bind_proc (prim (op_get ops (skills_ns r) i)) (\<lambda>x.
       case x of
         None \<Rightarrow> ret None
       | Some it \<Rightarrow> bind_proc (of_result (parse_skill d (item_value it))) (\<lambda>sk. ret (Some sk)))"

definition list_skills :: "skill_codec \<Rightarrow> 's store_ops \<Rightarrow> string \<Rightarrow> (skill list, 's) proc" where
  "list_skills d ops r =
     bind_proc (read_all ops (skills_ns r)) (\<lambda>its. of_result (map_result (\<lambda>it. parse_skill d (item_value it)) its))"

definition contains :: "string \<Rightarrow> string \<Rightarrow> bool" where
  "contains q s \<longleftrightarrow> list_ex (\<lambda>n. take (length q) (drop n s) = q) [0..<Suc (length s)]"

definition search_skills :: "skill_codec \<Rightarrow> 's store_ops \<Rightarrow> string \<Rightarrow> string \<Rightarrow> (skill list, 's) proc" where
  "search_skills d ops r query =
     bind_proc (list_skills d ops r) (\<lambda>sks.
       ret (filter (\<lambda>sk. contains (lower query) (lower (skill_name sk)) \<or> contains (lower query) (lower (skill_description sk))) sks))"

definition remove_skill :: "'s store_ops \<Rightarrow> string \<Rightarrow> string \<Rightarrow> (unit, 's) proc" where
  "remove_skill ops r i = prim (op_delete ops (skills_ns r) i)"

section \<open>What a distillation changes\<close>

text \<open>The value last written under a kind and a key.\<close>

definition last_written :: "(string \<times> string \<times> string) list \<Rightarrow> string \<Rightarrow> string \<Rightarrow> string option" where
  "last_written ws kind k = map_of (rev (map (\<lambda>(a, b, v). ((a, b), v)) ws)) (kind, k)"

lemma last_written_snoc:
  "last_written (ws @ [(a, b, v)]) kind k = (if kind = a \<and> k = b then Some v else last_written ws kind k)"
  by (simp add: last_written_def)

lemma parse_line_kind: "parse_line l = Some (kind, k, v) \<Longrightarrow> kind = kind_facts \<or> kind = kind_prefs"
  by (auto simp: parse_line_def kind_of_tag_def Let_def split: if_splits option.splits list.splits)

lemma parse_distilled_kinds: "(kind, k, v) \<in> set (parse_distilled txt) \<Longrightarrow> kind = kind_facts \<or> kind = kind_prefs"
  by (auto simp: parse_distilled_def List.map_filter_def dest: parse_line_kind)

lemma each_append: "each f (xs @ ys) = bind_proc (each f xs) (\<lambda>_. each f ys)"
proof (induction xs)
  case Nil
  show ?case by (intro ext) simp
next
  case (Cons x xs)
  have "bind_proc (f x) (\<lambda>_. bind_proc (each f xs) (\<lambda>_. each f ys)) = bind_proc (bind_proc (f x) (\<lambda>_. each f xs)) (\<lambda>_. each f ys)"
    by (intro ext) (auto simp: bind_proc_def split: option.splits sum.splits)
  with Cons show ?case by simp
qed

definition value_at :: "memory_store \<Rightarrow> namespace \<Rightarrow> string \<Rightarrow> pydict option" where
  "value_at s ns k = map_option item_value (look s ns k)"

lemma value_at_put:
  "value_at (put_item clock ns k v s) ns' k' = (if ns' = ns \<and> k' = k then v else value_at s ns' k')"
  by (cases v) (auto simp: value_at_def look_put_item)

lemma write_back_effect:
  assumes "\<forall>(kind, k, v) \<in> set ws. namespace_ok (memory_ns r kind)"
  shows "\<exists>s'. write_back (memory_ops clock) r ws s = Some (Inr (), s') \<and>
     (\<forall>ns k. value_at s' ns k =
        (case ns of [a, kind] \<Rightarrow> (case (if a = r then last_written ws kind k else None) of
             Some v \<Rightarrow> Some [(''value'', PStr v)] | None \<Rightarrow> value_at s ns k) | _ \<Rightarrow> value_at s ns k))"
  using assms
proof (induction ws rule: rev_induct)
  case Nil
  show ?case by (auto simp: write_back_def last_written_def split: list.splits)
next
  case (snoc w ws)
  obtain kind k v where w: "w = (kind, k, v)" by (cases w)
  from snoc obtain s1 where s1: "write_back (memory_ops clock) r ws s = Some (Inr (), s1)"
    "\<forall>ns k. value_at s1 ns k =
        (case ns of [a, kind] \<Rightarrow> (case (if a = r then last_written ws kind k else None) of
             Some v \<Rightarrow> Some [(''value'', PStr v)] | None \<Rightarrow> value_at s ns k) | _ \<Rightarrow> value_at s ns k)" by auto
  let ?s' = "put_item clock (memory_ns r kind) k (Some [(''value'', PStr v)]) s1"
  have ok: "namespace_ok (memory_ns r kind)" using snoc.prems w by simp
  have "write_back (memory_ops clock) r (ws @ [w]) s = Some (Inr (), ?s')"
    using s1(1) ok by (simp add: write_back_def each_append w memory_put)
  moreover have "value_at ?s' ns k' =
        (case ns of [a, kind] \<Rightarrow> (case (if a = r then last_written (ws @ [w]) kind k' else None) of
             Some v \<Rightarrow> Some [(''value'', PStr v)] | None \<Rightarrow> value_at s ns k') | _ \<Rightarrow> value_at s ns k')" for ns k'
    unfolding value_at_put using s1(2)
    by (auto simp: w last_written_snoc memory_ns_def split: list.splits option.splits)
  ultimately show ?case by blast
qed

lemma prune_effect:
  "\<exists>s'. prune_episodes (memory_ops clock) r ids s = Some (Inr (length ids), s') \<and>
     (\<forall>ns k. value_at s' ns k = (if ns = episodes_ns r \<and> k \<in> set ids then None else value_at s ns k))"
proof -
  have "\<exists>s'. each (\<lambda>i. prim (op_delete (memory_ops clock) (episodes_ns r) i)) ids s = Some (Inr (), s') \<and>
     (\<forall>ns k. value_at s' ns k = (if ns = episodes_ns r \<and> k \<in> set ids then None else value_at s ns k))"
  proof (induction ids arbitrary: s)
    case Nil
    then show ?case by simp
  next
    case (Cons i ids)
    from Cons.IH [of "put_item clock (episodes_ns r) i None s"] show ?case
      by (auto simp: memory_delete value_at_put)
  qed
  then show ?thesis by (auto simp: prune_episodes_def)
qed

lemma read_episodes_pure:
  "store_wf s \<Longrightarrow> \<exists>res. read_episodes d (memory_ops clock) r s = Some (res, s)"
  using memory.read_all_law [of s clock "episodes_ns r"]
  by (cases "map_result (\<lambda>it. parse_episode d (item_value it)) (items_under s (episodes_ns r))")
     (simp_all add: read_episodes_def)

lemma distill_writes:
  assumes "namespace_ok (memory_ns r kind_facts)" and "namespace_ok (memory_ns r kind_prefs)"
    and rd: "read_episodes d (memory_ops clock) r s = Some (Inr es, s)" and enough: "\<not> int (length es) < mn"
    and answer: "model (distill_prompt d (format_episodes d (slice_from_end mx es))) = Inr msg"
    and found: "found = parse_distilled (content_to_text (reflect_digits d) (content msg))"
  obtains s1 s2 where
    "reflect_and_distill d (memory_ops clock) r model mn mx pr s =
       Some (Inr \<lparr>episodes_seen = length (slice_from_end mx es), written = found\<rparr>, s2)"
    "\<forall>ns k. value_at s1 ns k = (case ns of [a, kind] \<Rightarrow> (case (if a = r then last_written found kind k else None) of
         Some v \<Rightarrow> Some [(''value'', PStr v)] | None \<Rightarrow> value_at s ns k) | _ \<Rightarrow> value_at s ns k)"
    "\<forall>ns k. value_at s2 ns k = (if pr \<and> found \<noteq> [] \<and> ns = episodes_ns r \<and> k \<in> ep_id ` set (slice_from_end mx es)
       then None else value_at s1 ns k)"
proof -
  let ?todo = "slice_from_end mx es"
  have "\<forall>(kind, k, v) \<in> set found. namespace_ok (memory_ns r kind)"
    using parse_distilled_kinds assms(1,2) by (fastforce simp: found)
  from write_back_effect [OF this] obtain s1 where s1: "write_back (memory_ops clock) r found s = Some (Inr (), s1)"
    "\<forall>ns k. value_at s1 ns k = (case ns of [a, kind] \<Rightarrow> (case (if a = r then last_written found kind k else None) of
         Some v \<Rightarrow> Some [(''value'', PStr v)] | None \<Rightarrow> value_at s ns k) | _ \<Rightarrow> value_at s ns k)" by blast
  show thesis
  proof (cases "pr \<and> found \<noteq> []")
    case True
    from prune_effect [of clock r "map ep_id ?todo" s1] obtain s2 where
      "prune_episodes (memory_ops clock) r (map ep_id ?todo) s1 = Some (Inr (length (map ep_id ?todo)), s2)"
      "\<forall>ns k. value_at s2 ns k = (if ns = episodes_ns r \<and> k \<in> set (map ep_id ?todo) then None else value_at s1 ns k)" by blast
    then show thesis using that [of s2 s1] True rd enough answer s1
      by (simp add: reflect_and_distill_def Let_def flip: found)
  next
    case False
    then show thesis using that [of s1 s1] rd enough answer s1
      by (auto simp: reflect_and_distill_def Let_def simp flip: found)
  qed
qed

lemma last_written_other_kind:
  assumes "kind \<noteq> kind_facts" and "kind \<noteq> kind_prefs"
  shows "last_written (parse_distilled txt) kind k = None"
  using assms parse_distilled_kinds by (force simp: last_written_def map_of_eq_None_iff)

lemma kind_names: "kind_facts \<noteq> kind_episodic" "kind_prefs \<noteq> kind_episodic" "kind_facts \<noteq> kind_prefs"
  by (simp_all add: kind_facts_def kind_prefs_def kind_episodic_def)

text \<open>A distillation does what its result says: over the in-memory store, it raises only before it
  has written anything; otherwise, for every kind and key of facts and preferences the value there
  is the last one the result lists for it, and else the old one; episodes are removed only when
  pruning is on and something was written, and then exactly those that were sent to the model; and
  no other namespace changes.\<close>

theorem distill_effect:
  assumes "store_wf s" and "namespace_ok (memory_ns r kind_facts)" and "namespace_ok (memory_ns r kind_prefs)"
  shows "\<exists>out s'. reflect_and_distill d (memory_ops clock) r model mn mx pr s = Some (out, s') \<and>
     (case out of
        Inl x \<Rightarrow> s' = s
      | Inr res \<Rightarrow> \<exists>es. read_episodes d (memory_ops clock) r s = Some (Inr es, s) \<and>
          (\<forall>kind \<in> {kind_facts, kind_prefs}. \<forall>k. value_at s' (memory_ns r kind) k =
             (case last_written (written res) kind k of Some v \<Rightarrow> Some [(''value'', PStr v)]
              | None \<Rightarrow> value_at s (memory_ns r kind) k)) \<and>
          (\<forall>k. value_at s' (episodes_ns r) k =
             (if pr \<and> written res \<noteq> [] \<and> k \<in> ep_id ` set (slice_from_end mx es) then None else value_at s (episodes_ns r) k)) \<and>
          (\<forall>ns k. ns \<notin> {memory_ns r kind_facts, memory_ns r kind_prefs, episodes_ns r} \<longrightarrow> value_at s' ns k = value_at s ns k))"
proof -
  let ?run = "reflect_and_distill d (memory_ops clock) r model mn mx pr s"
  obtain rd where rd: "read_episodes d (memory_ops clock) r s = Some (rd, s)" using read_episodes_pure [OF assms(1)] by blast
  show ?thesis
  proof (cases rd)
    case (Inl x)
    then show ?thesis using rd by (simp add: reflect_and_distill_def)
  next
    case (Inr es)
    show ?thesis
    proof (cases "int (length es) < mn")
      case True
      then show ?thesis using rd Inr by (simp add: reflect_and_distill_def last_written_def)
    next
      case False
      let ?todo = "slice_from_end mx es"
      show ?thesis
      proof (cases "model (distill_prompt d (format_episodes d ?todo))")
        case (Inl x)
        then show ?thesis using rd Inr False by (simp add: reflect_and_distill_def Let_def)
      next
        case (Inr msg)
        define found where "found = parse_distilled (content_to_text (reflect_digits d) (content msg))"
        obtain s1 s2 where run: "?run = Some (Inr \<lparr>episodes_seen = length ?todo, written = found\<rparr>, s2)"
          and s1: "\<forall>ns k. value_at s1 ns k = (case ns of [a, kind] \<Rightarrow> (case (if a = r then last_written found kind k else None) of
             Some v \<Rightarrow> Some [(''value'', PStr v)] | None \<Rightarrow> value_at s ns k) | _ \<Rightarrow> value_at s ns k)"
          and s2: "\<forall>ns k. value_at s2 ns k = (if pr \<and> found \<noteq> [] \<and> ns = episodes_ns r \<and> k \<in> ep_id ` set ?todo
             then None else value_at s1 ns k)"
          by (rule distill_writes [where model = model and mx = mx and d = d and es = es and msg = msg and pr = pr,
                OF assms(2,3) rd [unfolded \<open>rd = Inr es\<close>] False Inr found_def])
        have none: "last_written found kind k = None" if "kind \<noteq> kind_facts" "kind \<noteq> kind_prefs" for kind k
          using that last_written_other_kind by (simp add: found_def)
        have "value_at s2 ns k = value_at s ns k"
          if "ns \<notin> {memory_ns r kind_facts, memory_ns r kind_prefs, episodes_ns r}" for ns k
          using that s2 s1 none [of "ns ! 1" k]
          by (auto simp: memory_ns_def episodes_ns_def split: list.splits option.splits)
        then show ?thesis
          using run s2 s1 rd \<open>rd = Inr es\<close> none [OF kind_names(1,2) [symmetric]] kind_names
          unfolding memory_ns_def episodes_ns_def
          by (intro exI [of _ "Inr \<lparr>episodes_seen = length ?todo, written = found\<rparr>"] exI [of _ s2])
             auto
      qed
    qed
  qed
qed

definition demo_reflect_deps :: reflect_deps where
  "demo_reflect_deps = \<lparr>parse_episode = (\<lambda>v. Inl ValueError), episode_line = (\<lambda>w a u. w), action_separator = '', '',
     no_actions = ''-'', no_outcome = ''-'', distill_prompt = id, reflect_digits = (\<lambda>q. ''0.0'')\<rparr>"

theorem distill_effect_witness:
  "\<exists>out s'. reflect_and_distill demo_reflect_deps (memory_ops (\<lambda>n. int n)) ''r'' (\<lambda>q. Inr (text_system ''fact: dock = north'')) 0 50 True empty_store
      = Some (out, s') \<and> (case out of Inl x \<Rightarrow> s' = empty_store | Inr res \<Rightarrow>
        value_at s' [''r'', ''facts''] ''dock'' =
          (case last_written (written res) ''facts'' ''dock'' of Some v \<Rightarrow> Some [(''value'', PStr v)] | None \<Rightarrow> None))"
proof -
  have wf: "store_wf empty_store" by (simp add: store_wf_def empty_store_def)
  have ok: "namespace_ok (memory_ns ''r'' kind_facts)" "namespace_ok (memory_ns ''r'' kind_prefs)"
    by (simp_all add: namespace_ok_def memory_ns_def kind_facts_def kind_prefs_def)
  have "value_at empty_store [''r'', ''facts''] ''dock'' = None"
    by (simp add: value_at_def look_def bucket_def empty_store_def dict_getd_def)
  note none = this
  obtain out s' where run: "reflect_and_distill demo_reflect_deps (memory_ops (\<lambda>n. int n)) ''r''
      (\<lambda>q. Inr (text_system ''fact: dock = north'')) 0 50 True empty_store = Some (out, s')"
    and eff: "\<And>x. out = Inl x \<Longrightarrow> s' = empty_store"
      "\<And>res. out = Inr res \<Longrightarrow> \<forall>kind \<in> {kind_facts, kind_prefs}. \<forall>k. value_at s' (memory_ns ''r'' kind) k =
         (case last_written (written res) kind k of Some v \<Rightarrow> Some [(''value'', PStr v)]
          | None \<Rightarrow> value_at empty_store (memory_ns ''r'' kind) k)"
    using distill_effect [OF wf ok, of demo_reflect_deps "\<lambda>n. int n" "\<lambda>q. Inr (text_system ''fact: dock = north'')" 0 50 True]
    by (elim exE conjE) (auto split: sum.splits)
  have "value_at s' [''r'', ''facts''] ''dock'' =
      (case last_written (written res) ''facts'' ''dock'' of Some v \<Rightarrow> Some [(''value'', PStr v)] | None \<Rightarrow> None)" if "out = Inr res" for res
    using bspec [OF eff(2) [OF that], of kind_facts, simplified, THEN spec, of "''dock''"] none
    unfolding memory_ns_def kind_facts_def by (simp split: option.splits)
  with run eff(1) show ?thesis by (cases out) auto
qed

end
