(* ===== verification/Metacog.thy ===== *)
theory Metacog
  imports Reflect Interrupts
begin

text \<open>
  Self-monitoring: \<open>robot_agent/metacog/detect.py\<close> (repeated tool calls, steps of the current turn) and
  \<open>metacog/monitor.py\<close> (the hook that pauses or warns before the model is called). The decorated hook
  is any procedure on a world of its own; the texts are arguments.
\<close>

section \<open>Detection\<close>

type_synonym call_key = "(string \<times> string) list"

definition current_turn :: "message list \<Rightarrow> message list" where
  "current_turn ms =
     (case last_index (\<lambda>m. role m = HumanRole) ms of None \<Rightarrow> [] | Some i \<Rightarrow> drop i ms)"

definition call_signature :: "(rat \<Rightarrow> string) \<Rightarrow> message \<Rightarrow> call_key" where
  "call_signature ff m = sort (map (\<lambda>c. (call_name c, json_dumps ff (sort_value (PDict (call_args c))))) (tool_calls m))"

definition tool_signatures :: "(rat \<Rightarrow> string) \<Rightarrow> message list \<Rightarrow> call_key list" where
  "tool_signatures ff ms = map (call_signature ff) (filter (\<lambda>m. role m = AIRole \<and> tool_calls m \<noteq> []) ms)"

record loop_report =
  loop_signature :: call_key
  loop_repeats :: nat

definition detect_loop :: "(rat \<Rightarrow> string) \<Rightarrow> message list \<Rightarrow> int option \<Rightarrow> loop_report option" where
  "detect_loop ff ms max_repeats =
     (case max_repeats of
        None \<Rightarrow> None
      | Some n \<Rightarrow>
          if n \<le> 0 then None
          else (let sigs = tool_signatures ff (current_turn ms) in
                if int (length sigs) < n then None
                else (let count = length (takeWhile (\<lambda>s. s = last sigs) (rev sigs)) in
                      if n \<le> int count then Some \<lparr>loop_signature = last sigs, loop_repeats = count\<rparr> else None)))"

definition steps_used :: "(rat \<Rightarrow> string) \<Rightarrow> message list \<Rightarrow> nat" where
  "steps_used ff ms = length (tool_signatures ff (current_turn ms))"

section \<open>The monitor\<close>

record metacog_policy =
  max_repeats :: "int option"
  max_steps :: "int option"
  on_breach :: string

definition escalate :: string where "escalate = ''escalate''"
definition warn :: string where "warn = ''warn''"

text \<open>An incident: number of human messages, signature of the loop, whether the budget is used up.\<close>

type_synonym incident = "nat \<times> call_key option \<times> bool"

record metacog =
  mc_loops :: nat
  mc_budget :: nat
  mc_escalations :: nat
  mc_counted :: "incident list"

definition fresh_metacog :: metacog where
  "fresh_metacog = \<lparr>mc_loops = 0, mc_budget = 0, mc_escalations = 0, mc_counted = []\<rparr>"

record metacog_texts =
  loop_reason :: string
  budget_reason :: string
  warn_text :: "string \<Rightarrow> string"
  mc_digits :: "rat \<Rightarrow> string"

definition over_budget :: "metacog_policy \<Rightarrow> nat \<Rightarrow> bool" where
  "over_budget p taken \<longleftrightarrow> (case max_steps p of None \<Rightarrow> False | Some m \<Rightarrow> m \<le> int taken)"

definition incident_of :: "loop_report option \<Rightarrow> bool \<Rightarrow> message list \<Rightarrow> incident" where
  "incident_of found over ms =
     (length (filter (\<lambda>m. role m = HumanRole) ms), map_option loop_signature found, over)"

text \<open>Count an incident the first time it is seen; an escalation is counted with it.\<close>

definition count_incident :: "bool \<Rightarrow> incident \<Rightarrow> metacog \<Rightarrow> metacog" where
  "count_incident esc inc mc =
     (if inc \<in> set (mc_counted mc) then mc
      else mc\<lparr>mc_counted := inc # mc_counted mc,
              mc_loops := mc_loops mc + (if fst (snd inc) \<noteq> None then 1 else 0),
              mc_budget := mc_budget mc + (if snd (snd inc) then 1 else 0),
              mc_escalations := mc_escalations mc + (if esc then 1 else 0)\<rparr>)"

definition loop_value :: "loop_report option \<Rightarrow> pyval" where
  "loop_value found =
     (case found of None \<Rightarrow> PNone
      | Some l \<Rightarrow> PDict [(''signature'', PList (map (\<lambda>(a, b). PList [PStr a, PStr b]) (loop_signature l))),
                       (''repeats'', PInt (int (loop_repeats l)))])"

definition escalation_report :: "string \<Rightarrow> loop_report option \<Rightarrow> nat \<Rightarrow> pyval" where
  "escalation_report reason found taken =
     PDict [(''type'', PStr ''metacog_escalation''), (''reason'', PStr reason), (''loop'', loop_value found),
            (''steps'', PInt (int taken))]"

text \<open>The decorated hook: an update of the state with, possibly, an input for the model.\<close>

type_synonym ('u, 'w) model_hook = "robot_state \<Rightarrow> ('u \<times> message list option, 'w) proc"

definition call_inner :: "('u, 'w) model_hook \<Rightarrow> robot_state \<Rightarrow> metacog \<times> scratchpad \<times> 'w
    \<Rightarrow> (('u \<times> message list option) outcome \<times> (metacog \<times> scratchpad \<times> 'w)) option" where
  "call_inner inner st v =
     (case v of (mc, sp, w) \<Rightarrow>
        (case inner st w of
           None \<Rightarrow> None
         | Some (Inl x, w') \<Rightarrow> Some (Raised x, (mc, sp, w'))
         | Some (Inr u, w') \<Rightarrow> Some (Returned u, (mc, sp, w'))))"

definition warn_update :: "metacog_texts \<Rightarrow> string \<Rightarrow> message list \<Rightarrow> 'u \<times> message list option \<Rightarrow> 'u \<times> message list option" where
  "warn_update tx reason ms u =
     (fst u, Some (insert_after_leading_system_messages (case snd u of Some xs \<Rightarrow> xs | None \<Rightarrow> ms) (text_system (warn_text tx reason))))"

definition monitor_hook :: "metacog_texts \<Rightarrow> metacog_policy \<Rightarrow> ('u, 'w) model_hook \<Rightarrow> robot_state \<Rightarrow> metacog \<times> scratchpad \<times> 'w
    \<Rightarrow> (('u \<times> message list option) outcome \<times> (metacog \<times> scratchpad \<times> 'w)) option" where
  "monitor_hook tx p inner st v =
     (case v of (mc, sp, w) \<Rightarrow>
        (let ms = messages st; found = detect_loop (mc_digits tx) ms (max_repeats p);
             taken = steps_used (mc_digits tx) ms; over = over_budget p taken;
             reason = (if found \<noteq> None then loop_reason tx else budget_reason tx)
         in if found = None \<and> \<not> over then call_inner inner st v
            else (let mc' = count_incident (on_breach p = escalate) (incident_of found over ms) mc in
                  if on_breach p = escalate
                  then (case interrupt (escalation_report reason found taken) sp of
                          (Returned _, sp') \<Rightarrow> call_inner inner st (mc', sp', w)
                        | (Raised x, sp') \<Rightarrow> Some (Raised x, (mc', sp', w))
                        | (Suspended r, sp') \<Rightarrow> Some (Suspended r, (mc', sp', w)))
                  else (case call_inner inner st (mc', sp, w) of
                          Some (Returned u, v') \<Rightarrow> Some (Returned (warn_update tx reason ms u), v')
                        | out \<Rightarrow> out))))"

section \<open>What is detected\<close>

lemma takeWhile_replicate_end:
  "length (takeWhile (\<lambda>x. x = s) (rev xs)) = k \<longleftrightarrow> (\<exists>pre. xs = pre @ replicate k s \<and> take 1 (rev pre) \<noteq> [s])"
proof -
  have "length (takeWhile (\<lambda>x. x = s) ys) = k \<longleftrightarrow> (\<exists>post. ys = replicate k s @ post \<and> take 1 post \<noteq> [s])" for ys
  proof (induction ys arbitrary: k)
    case Nil
    then show ?case by auto
  next
    case (Cons y ys)
    show ?case
    proof (cases k)
      case 0
      then show ?thesis by (auto simp: Cons_eq_append_conv)
    next
      case (Suc j)
      then show ?thesis using Cons.IH [of j] by auto
    qed
  qed
  from this [of "rev xs"] show ?thesis
    by (metis rev_append rev_replicate rev_rev_ident)
qed

text \<open>Loop detection is exact: a loop is reported with a signature and a count exactly when the
  limit is positive and reached by the count, and the tool-calling answers of the current turn end
  in precisely that many answers with this signature.\<close>

theorem detect_loop_exact:
  "detect_loop ff ms limit = Some \<lparr>loop_signature = s, loop_repeats = k\<rparr> \<longleftrightarrow>
     (\<exists>n. limit = Some n \<and> 0 < n \<and> n \<le> int k \<and>
       (\<exists>pre. tool_signatures ff (current_turn ms) = pre @ replicate k s \<and> take 1 (rev pre) \<noteq> [s]))"
  (is "?l \<longleftrightarrow> ?r")
proof -
  let ?sigs = "tool_signatures ff (current_turn ms)"
  have count: "length (takeWhile (\<lambda>x. x = last ?sigs) (rev ?sigs)) \<le> length ?sigs"
    by (metis length_rev length_takeWhile_le)
  have "?l \<longleftrightarrow> (\<exists>n. limit = Some n \<and> 0 < n \<and> n \<le> int k \<and> s = last ?sigs \<and> length (takeWhile (\<lambda>x. x = s) (rev ?sigs)) = k)"
    using count by (auto simp: detect_loop_def Let_def split: option.splits)
  also have "\<dots> \<longleftrightarrow> (\<exists>n. limit = Some n \<and> 0 < n \<and> n \<le> int k \<and> s = last ?sigs \<and>
      (\<exists>pre. ?sigs = pre @ replicate k s \<and> take 1 (rev pre) \<noteq> [s]))"
    unfolding takeWhile_replicate_end ..
  also have "\<dots> \<longleftrightarrow> ?r" by (auto simp: last_append last_replicate)
  finally show ?thesis .
qed

lemma monitor_breach:
  assumes "\<not> (detect_loop (mc_digits tx) (messages st) (max_repeats p) = None \<and> \<not> over_budget p (steps_used (mc_digits tx) (messages st)))"
    and "on_breach p = escalate"
    and "inc = incident_of (detect_loop (mc_digits tx) (messages st) (max_repeats p))
           (over_budget p (steps_used (mc_digits tx) (messages st))) (messages st)"
  shows "\<exists>report. \<forall>mc sp. monitor_hook tx p inner st (mc, sp, w) =
     (case interrupt report sp of
        (Returned _, sp') \<Rightarrow> call_inner inner st (count_incident True inc mc, sp', w)
      | (Raised x, sp') \<Rightarrow> Some (Raised x, (count_incident True inc mc, sp', w))
      | (Suspended r, sp') \<Rightarrow> Some (Suspended r, (count_incident True inc mc, sp', w)))"
  unfolding monitor_hook_def Let_def prod.case if_not_P [OF assms(1)] if_P [OF assms(2)] assms(2) assms(3) [symmetric] simp_thms(6) if_True
  by (rule exI, rule allI, rule allI, rule refl)

lemma count_incident_again: "count_incident esc inc (count_incident esc inc mc) = count_incident esc inc mc"
  by (simp add: count_incident_def)

lemma count_incident_escalations:
  "mc_escalations (count_incident True inc mc) = mc_escalations mc + (if inc \<in> set (mc_counted mc) then 0 else 1)"
  by (simp add: count_incident_def)

text \<open>C37. An escalation is counted once, before it pauses the robot: when the policy escalates and the state has
  a loop or a used-up budget, the first run of the hook counts the incident, if it is a new one, suspends with the report and calls
  neither the decorated hook nor the model; the run resumed with any value calls the decorated hook on the
  same world, and the metrics after it are those of the first run, where a new incident added
  exactly one escalation and a known one none.\<close>

theorem escalation_pauses_and_counts_once:
  assumes "on_breach p = escalate" and "v \<noteq> PNone"
    and "detect_loop (mc_digits tx) (messages st) (max_repeats p) \<noteq> None \<or> over_budget p (steps_used (mc_digits tx) (messages st))"
  shows "\<exists>report mc' sp'.
     monitor_hook tx p inner st (mc, fresh_scratchpad, w) = Some (Suspended report, (mc', fresh_scratchpad\<lparr>interrupt_counter := 1\<rparr>, w)) \<and>
     monitor_hook tx p inner st (mc', resume_with v (fresh_scratchpad\<lparr>interrupt_counter := 1\<rparr>), w) = call_inner inner st (mc', sp', w) \<and>
     mc_escalations mc' = mc_escalations mc +
       (if incident_of (detect_loop (mc_digits tx) (messages st) (max_repeats p)) (over_budget p (steps_used (mc_digits tx) (messages st))) (messages st)
           \<in> set (mc_counted mc) then 0 else 1)"
proof -
  let ?inc = "incident_of (detect_loop (mc_digits tx) (messages st) (max_repeats p))
      (over_budget p (steps_used (mc_digits tx) (messages st))) (messages st)"
  have re: "resume_with v (fresh_scratchpad\<lparr>interrupt_counter := 1\<rparr>) = resume_with v fresh_scratchpad"
    by (simp add: resume_with_def fresh_scratchpad_def)
  have breach: "\<not> (detect_loop (mc_digits tx) (messages st) (max_repeats p) = None \<and> \<not> over_budget p (steps_used (mc_digits tx) (messages st)))"
    using assms(3) by blast
  obtain report where step: "\<forall>mc sp. monitor_hook tx p inner st (mc, sp, w) =
     (case interrupt report sp of
        (Returned _, sp') \<Rightarrow> call_inner inner st (count_incident True ?inc mc, sp', w)
      | (Raised x, sp') \<Rightarrow> Some (Raised x, (count_incident True ?inc mc, sp', w))
      | (Suspended r, sp') \<Rightarrow> Some (Suspended r, (count_incident True ?inc mc, sp', w)))"
    using monitor_breach [OF breach assms(1) refl, of inner w] by (rule exE)
  show ?thesis
    by (intro exI [of _ report] exI [of _ "count_incident True ?inc mc"]
          exI [of _ "\<lparr>interrupt_counter = 1, resume = [v], null_resume = None\<rparr>"])
       (simp add: step re re [simplified] interrupt_resumed [OF assms(2)] count_incident_again count_incident_escalations)
qed

definition demo_texts :: metacog_texts where
  "demo_texts = \<lparr>loop_reason = ''loop'', budget_reason = ''budget'', warn_text = id, mc_digits = (\<lambda>q. ''0.0'')\<rparr>"

definition demo_monitor :: metacog_policy where
  "demo_monitor = \<lparr>max_repeats = Some 3, max_steps = Some 0, on_breach = escalate\<rparr>"

theorem escalation_pauses_and_counts_once_witness:
  "\<exists>report mc'. monitor_hook demo_texts demo_monitor (\<lambda>st. ret ((), None)) (demo_state [])
       (fresh_metacog, fresh_scratchpad, ()) = Some (Suspended report, (mc', fresh_scratchpad\<lparr>interrupt_counter := 1\<rparr>, ())) \<and>
     mc_escalations mc' = 1"
proof -
  have a: "on_breach demo_monitor = escalate" by (simp add: demo_monitor_def)
  have b: "PBool True \<noteq> PNone" by simp
  have "over_budget demo_monitor (steps_used (mc_digits demo_texts) (messages (demo_state [])))"
    by (simp add: over_budget_def demo_monitor_def)
  then have c: "detect_loop (mc_digits demo_texts) (messages (demo_state [])) (max_repeats demo_monitor) \<noteq> None \<or>
      over_budget demo_monitor (steps_used (mc_digits demo_texts) (messages (demo_state [])))" by simp
  from escalation_pauses_and_counts_once [OF a b c, of "\<lambda>st. ret ((), None)" fresh_metacog "()"]
  show ?thesis by (auto simp: fresh_metacog_def)
qed

end
