(* ===== verification/Service.thy ===== *)
theory Service
  imports Metacog
begin

text \<open>
  The channel-independent face of the robot, \<open>robot_agent/frontends/service.py\<close>: input as driver
  events, fan-out of finished turns to subscribers, and read-only views of history, memory, tools
  and health. Starting and stopping the background task is not modelled.
\<close>

section \<open>State and input\<close>

text \<open>The bound driver, and the subscribers' queues by number (each subscription has a fresh one).\<close>

record 'd service =
  sv_driver :: "'d option"
  sv_subscribers :: "(nat, pydict list) dict"
  sv_next :: nat

definition default_user_thread :: string where
  "default_user_thread = ''user_msg''"

definition bind_driver :: "'d \<Rightarrow> 'd service \<Rightarrow> 'd service" where
  "bind_driver d sv = sv\<lparr>sv_driver := Some d\<rparr>"

definition submit_event :: "('q, 'w) driver_env \<Rightarrow> event \<Rightarrow> (unit, ('q, 'w) driver service) proc" where
  "submit_event env e sv =
     (case sv_driver sv of
        None \<Rightarrow> Some (Inl RuntimeError, sv)
      | Some d \<Rightarrow> Some (Inr (), sv\<lparr>sv_driver := Some (submit env e d)\<rparr>))"

definition submit_user_text :: "('q, 'w) driver_env \<Rightarrow> pyfloat \<Rightarrow> string \<Rightarrow> string \<Rightarrow> int \<Rightarrow> (unit, ('q, 'w) driver service) proc" where
  "submit_user_text env now txt thread priority = submit_event env (user_message txt priority (Some thread) now)"

definition service_resume :: "('q, 'w) driver_env \<Rightarrow> pyfloat \<Rightarrow> string \<Rightarrow> pyval \<Rightarrow> (unit, ('q, 'w) driver service) proc" where
  "service_resume env now thread decision = submit_event env (resume_event thread decision 100 now)"

section \<open>Fan-out\<close>

definition subscribe :: "'d service \<Rightarrow> nat \<times> 'd service" where
  "subscribe sv = (sv_next sv, sv\<lparr>sv_subscribers := dict_set (sv_next sv) [] (sv_subscribers sv), sv_next := Suc (sv_next sv)\<rparr>)"

definition unsubscribe :: "nat \<Rightarrow> 'd service \<Rightarrow> 'd service" where
  "unsubscribe q sv = sv\<lparr>sv_subscribers := dict_del q (sv_subscribers sv)\<rparr>"

definition broadcast :: "pydict \<Rightarrow> 'd service \<Rightarrow> 'd service" where
  "broadcast e sv = sv\<lparr>sv_subscribers := map (\<lambda>(q, es). (q, es @ [e])) (sv_subscribers sv)\<rparr>"

definition turn_to_event :: "(rat \<Rightarrow> string) \<Rightarrow> rat \<Rightarrow> turn_result \<Rightarrow> pydict result" where
  "turn_to_event ff ts t =
     (case journal_entry_from_turn ff ts t of
        Inl x \<Rightarrow> Inl x
      | Inr entry \<Rightarrow> Inr
          [(''type'', PStr ''turn''), (''index'', PInt (int (turn_index t))), (''thread_id'', turn_thread t),
           (''event_kind'', PStr (ev_kind (turn_event t))), (''from_idle'', PBool (turn_from_idle t)),
           (''interrupted'', PBool (turn_interrupted t)), (''reply'', PStr (j_outcome entry)),
           (''tools'', PList (map PStr (j_decisions entry)))])"

definition service_on_turn :: "(rat \<Rightarrow> string) \<Rightarrow> rat \<Rightarrow> turn_result \<Rightarrow> (unit, 'd service) proc" where
  "service_on_turn ff ts t sv =
     (case turn_to_event ff ts t of Inl x \<Rightarrow> Some (Inl x, sv) | Inr e \<Rightarrow> Some (Inr (), broadcast e sv))"

section \<open>Views\<close>

definition message_to_dict :: "(rat \<Rightarrow> string) \<Rightarrow> message \<Rightarrow> pydict" where
  "message_to_dict ff m =
     [(''role'', PStr (role_name (role m))), (''content'', PStr (py_str ff (content m))),
      (''tool_calls'', PList (map (\<lambda>c. PStr (call_name c)) (tool_calls m)))]"

text \<open>\<open>snapshot\<close> is the message list of the thread's state; None without a checkpointer.\<close>

definition service_history :: "(rat \<Rightarrow> string) \<Rightarrow> (string \<Rightarrow> message list) option \<Rightarrow> string \<Rightarrow> pydict list" where
  "service_history ff snapshot thread =
     (case snapshot of None \<Rightarrow> [] | Some get \<Rightarrow> map (message_to_dict ff) (get thread))"

definition service_memory :: "'s store_ops option \<Rightarrow> string \<Rightarrow> ((string, (string \<times> pydict) list) dict, 's) proc" where
  "service_memory store r =
     (case store of
        None \<Rightarrow> ret (map (\<lambda>k. (k, [])) p1_kinds)
      | Some ops \<Rightarrow>
          collect (\<lambda>k. bind_proc (read_all ops (memory_ns r k)) (\<lambda>its. ret (k, map (\<lambda>it. (item_key it, item_value it)) its))) p1_kinds)"

definition service_tools :: "(string \<times> string) list \<Rightarrow> pydict list" where
  "service_tools ts = map (\<lambda>(n, d). [(''name'', PStr n), (''description'', PStr d)]) ts"

text \<open>The health mapping; with a driver the pending threads are listed by name.\<close>

definition service_health :: "(nat \<times> string list) option \<Rightarrow> pydict result" where
  "service_health drv =
     (case collect_health (map_option (\<lambda>(n, ts). (n, map PStr ts)) drv) None None None NoState of
        Inl x \<Rightarrow> Inl x
      | Inr h \<Rightarrow> Inr
          [(''turns'', PInt (int (h_turns h))),
           (''pending_threads'', case drv of None \<Rightarrow> PInt (int (h_pending h)) | Some (_, ts) \<Rightarrow> PList (map PStr (sort (remdups ts)))),
           (''escalations'', PInt (h_escalations h)), (''loops'', PInt (h_loops h)), (''budget_breaches'', PInt (h_budget h)),
           (''denials'', PInt (int (h_denials h))), (''context_compactions'', PInt (h_compactions h)),
           (''context_compaction_failures'', PInt (h_failures h)), (''context_archived_messages'', PInt (h_archived h))])"

section \<open>What subscribers see\<close>

text \<open>What can happen to the subscriptions.\<close>

datatype fan_step = Sub | Unsub nat | Turn pydict

fun fan_out :: "fan_step \<Rightarrow> 'd service \<Rightarrow> 'd service" where
  "fan_out Sub sv = snd (subscribe sv)"
| "fan_out (Unsub q) sv = unsubscribe q sv"
| "fan_out (Turn e) sv = broadcast e sv"

fun turns_in :: "fan_step list \<Rightarrow> pydict list" where
  "turns_in [] = []"
| "turns_in (Turn e # xs) = e # turns_in xs"
| "turns_in (_ # xs) = turns_in xs"

lemma dict_get_map_snd: "map_of (map (\<lambda>(k, v). (k, f v)) d) k = map_option f (map_of d k)"
  by (induction d) auto

lemma fan_out_keeps:
  assumes "dict_get (sv_subscribers sv) q = Some es" and "q < sv_next sv" and "Unsub q \<notin> set steps"
  shows "dict_get (sv_subscribers (fold fan_out steps sv)) q = Some (es @ turns_in steps)"
  using assms
proof (induction steps arbitrary: sv es)
  case Nil
  then show ?case by simp
next
  case (Cons x steps)
  show ?case
  proof (cases x)
    case Sub
    with Cons show ?thesis by (simp add: subscribe_def)
  next
    case (Unsub p)
    with Cons show ?thesis by (simp add: unsubscribe_def)
  next
    case (Turn e)
    with Cons.prems Cons.IH [of "broadcast e sv" "es @ [e]"] show ?thesis
      by (simp add: broadcast_def dict_get_map_snd)
  qed
qed

text \<open>Every subscriber sees every turn: a new subscription starts empty and disturbs nobody, and from
  then on, whatever other channels subscribe or leave, its queue holds exactly the turns that
  finished since, in order, until it is cancelled.\<close>

theorem subscriber_sees_all_turns:
  assumes "Unsub (fst (subscribe sv)) \<notin> set steps"
  shows "dict_get (sv_subscribers (fold fan_out steps (snd (subscribe sv)))) (fst (subscribe sv)) = Some (turns_in steps) \<and>
     (\<forall>q. q \<noteq> fst (subscribe sv) \<longrightarrow> dict_get (sv_subscribers (snd (subscribe sv))) q = dict_get (sv_subscribers sv) q)"
  using fan_out_keeps [of "snd (subscribe sv)" "fst (subscribe sv)" "[]" steps] assms by (simp add: subscribe_def)

theorem subscriber_sees_all_turns_witness:
  "dict_get (sv_subscribers (fold fan_out [Turn [], Sub, Unsub 1, Turn [(''index'', PInt 2)]]
     (snd (subscribe \<lparr>sv_driver = None :: unit option, sv_subscribers = [], sv_next = 0\<rparr>)))) 0 = Some [[], [(''index'', PInt 2)]]"
  using subscriber_sees_all_turns [of "\<lparr>sv_driver = None :: unit option, sv_subscribers = [], sv_next = 0\<rparr>"
      "[Turn [], Sub, Unsub 1, Turn [(''index'', PInt 2)]]"]
  by (simp add: subscribe_def)

end
