(* ===== verification/Llm.thy ===== *)
theory Llm
  imports Compaction
begin

text \<open>
  The way to the model: \<open>robot_agent/env.py\<close> (the dotenv file), \<open>robot_agent/llm.py\<close> (configuration of
  the client, choice of the model, the scripted model), \<open>robot_agent/prompts\<close> (templates) and
  \<open>robot_agent/reliability.py\<close> (retries and the refusal of a degraded model). Files, environment
  and the remote call are arguments.
\<close>

section \<open>The dotenv file\<close>

definition strip_quotes :: "string \<Rightarrow> string" where
  "strip_quotes v =
     (if 2 \<le> length v \<and> hd v = last v \<and> hd v \<in> {CHR 0x22, CHR 0x27} then take (length v - 2) (drop 1 v) else v)"

definition is_name_start :: "char \<Rightarrow> bool" where
  "is_name_start c \<longleftrightarrow> c = CHR ''_'' \<or> (65::nat) \<le> of_char c \<and> of_char c \<le> (90::nat) \<or> (97::nat) \<le> of_char c \<and> of_char c \<le> (122::nat)"

definition is_env_key :: "string \<Rightarrow> bool" where
  "is_env_key k \<longleftrightarrow> k \<noteq> [] \<and> is_name_start (hd k) \<and> list_all (\<lambda>c. is_name_start c \<or> is_digit c) (tl k)"

definition drop_export :: "string \<Rightarrow> string" where
  "drop_export s = (if take 7 s = ''export '' then lstrip (drop 7 s) else s)"

definition parse_dotenv_line :: "string \<Rightarrow> (string \<times> string) option" where
  "parse_dotenv_line line =
     (let s = strip line in
      if s = [] \<or> hd s = CHR ''#'' then None
      else (let (k, found, raw) = partition_at CHR ''='' (drop_export s) in
            if \<not> found \<or> \<not> is_env_key (strip k) then None else Some (strip k, strip_quotes (strip raw))))"

type_synonym environ = "(string, string) dict"

definition set_env :: "bool \<Rightarrow> string \<times> string \<Rightarrow> environ \<Rightarrow> environ" where
  "set_env override kv env = (if override \<or> dict_get env (fst kv) = None then dict_set (fst kv) (snd kv) env else env)"

text \<open>\<open>find_dotenv\<close>: the repository root only, or the start directory and its parents.\<close>

definition find_dotenv :: "(string \<Rightarrow> bool) \<Rightarrow> string \<Rightarrow> string list option \<Rightarrow> string option" where
  "find_dotenv has_env repo_root start =
     (case start of
        None \<Rightarrow> if has_env repo_root then Some repo_root else None
      | Some dirs \<Rightarrow> find has_env dirs)"

text \<open>\<open>explicit\<close>: a path was given. \<open>file\<close> is its content, None when there is no such file. The state
  is the environment and the flag that the default file has been read.\<close>

definition load_env :: "bool \<Rightarrow> bool \<Rightarrow> string option \<Rightarrow> environ \<times> bool \<Rightarrow> bool \<times> (environ \<times> bool)" where
  "load_env explicit override file st =
     (case file of
        None \<Rightarrow> (False, st)
      | Some txt \<Rightarrow>
          if snd st \<and> \<not> explicit then (True, st)
          else (True, (fold (set_env override) (List.map_filter parse_dotenv_line (splitlines txt)) (fst st),
                       snd st \<or> \<not> explicit)))"

section \<open>Configuration of the client\<close>

datatype provider = OpenAI | Anthropic

record llm_config =
  cfg_provider :: provider
  cfg_model :: "string option"
  cfg_fast :: "string option"
  cfg_smart :: "string option"
  cfg_vision :: "string option"
  cfg_key :: "string option"
  cfg_url :: "string option"

definition normalize_provider :: "string \<Rightarrow> provider result" where
  "normalize_provider raw =
     (let n = map (\<lambda>c. if c = CHR ''-'' then CHR ''_'' else c) (lower (strip raw)) in
      if n \<in> {''openai'', ''openai_compatible'', ''openai_compat''} then Inr OpenAI
      else if n \<in> {''anthropic'', ''claude''} then Inr Anthropic
      else Inl ValueError)"

text \<open>\<open>os.getenv(k) or None\<close>.\<close>

definition env_nonempty :: "environ \<Rightarrow> string \<Rightarrow> string option" where
  "env_nonempty env k = (case dict_get env k of Some [] \<Rightarrow> None | x \<Rightarrow> x)"

definition key_name :: "provider \<Rightarrow> string" where
  "key_name p = (case p of OpenAI \<Rightarrow> ''OPENAI_API_KEY'' | Anthropic \<Rightarrow> ''ANTHROPIC_API_KEY'')"

definition load_llm_config_from_env :: "string option \<Rightarrow> environ \<Rightarrow> llm_config result" where
  "load_llm_config_from_env wanted env =
     (case normalize_provider (case wanted of Some p \<Rightarrow> p | None \<Rightarrow> dict_getd env ''LLM_PROVIDER'' ''openai'') of
        Inl x \<Rightarrow> Inl x
      | Inr p \<Rightarrow> Inr \<lparr>
          cfg_provider = p, cfg_model = env_nonempty env ''LLM_MODEL'', cfg_fast = env_nonempty env ''LLM_MODEL_FAST'',
          cfg_smart = env_nonempty env ''LLM_MODEL_SMART'', cfg_vision = env_nonempty env ''LLM_MODEL_VISION'',
          cfg_key = (case env_nonempty env ''LLM_API_KEY'' of Some k \<Rightarrow> Some k | None \<Rightarrow> dict_get env (key_name p)),
          cfg_url = env_nonempty env ''LLM_BASE_URL''\<rparr>)"

definition or_else :: "'a option \<Rightarrow> 'a option \<Rightarrow> 'a option" where
  "or_else x y = (if x \<noteq> None then x else y)"

definition merge_llm_config :: "llm_config \<Rightarrow> string option \<Rightarrow> string option \<Rightarrow> string option \<Rightarrow> string option \<Rightarrow> llm_config result" where
  "merge_llm_config base wanted model key url =
     (case (case wanted of Some p \<Rightarrow> normalize_provider p | None \<Rightarrow> Inr (cfg_provider base)) of
        Inl x \<Rightarrow> Inl x
      | Inr p \<Rightarrow> Inr \<lparr>
          cfg_provider = p, cfg_model = or_else model (cfg_model base),
          cfg_fast = (if model \<noteq> None then None else cfg_fast base),
          cfg_smart = (if model \<noteq> None then None else cfg_smart base),
          cfg_vision = (if model \<noteq> None then None else cfg_vision base),
          cfg_key = or_else key (cfg_key base), cfg_url = or_else url (cfg_url base)\<rparr>)"

definition default_model :: "provider \<Rightarrow> string \<Rightarrow> string" where
  "default_model p profile =
     (case p of
        Anthropic \<Rightarrow> if profile = ''fast'' then ''claude-haiku-4-5'' else if profile = ''smart'' then ''claude-opus-4-8'' else ''claude-sonnet-4-6''
      | OpenAI \<Rightarrow> if profile = ''fast'' then ''gpt-4o-mini'' else ''gpt-4o'')"

definition nonempty_name :: "string option \<Rightarrow> string option" where
  "nonempty_name x = (if x = Some [] then None else x)"

definition resolve_model_name :: "string \<Rightarrow> llm_config \<Rightarrow> string result" where
  "resolve_model_name profile cfg =
     (if profile \<notin> {''fast'', ''smart'', ''vision''} then Inl ValueError
      else (let own = (if profile = ''fast'' then cfg_fast cfg else if profile = ''smart'' then cfg_smart cfg else cfg_vision cfg) in
            case nonempty_name own of Some m \<Rightarrow> Inr m
          | None \<Rightarrow> (case nonempty_name (cfg_model cfg) of Some m \<Rightarrow> Inr m
          | None \<Rightarrow> (case (if profile = ''vision'' then nonempty_name (cfg_smart cfg) else None) of Some m \<Rightarrow> Inr m
          | None \<Rightarrow> Inr (default_model (cfg_provider cfg) profile)))))"

text \<open>The scripted model.\<close>

record mock_model =
  responses :: "message list"
  replay_index :: nat
  received :: "message list list"

definition mock_generate :: "message list \<Rightarrow> (message, mock_model) proc" where
  "mock_generate ms m =
     (let m' = m\<lparr>received := received m @ [ms]\<rparr> in
      if length (responses m) \<le> replay_index m then Some (Inl AssertionError, m')
      else Some (Inr (responses m ! replay_index m), m'\<lparr>replay_index := Suc (replay_index m)\<rparr>))"

text \<open>What \<open>make_model\<close> builds: the scripted model, or a client of a provider for a model name, with key
  and address where they are given.\<close>

datatype built_model = Scripted mock_model | Client provider string "string option" "string option"

definition build_remote_model :: "llm_config \<Rightarrow> string \<Rightarrow> built_model" where
  "build_remote_model cfg name = Client (cfg_provider cfg) name (cfg_key cfg) (cfg_url cfg)"

record model_request =
  rq_profile :: string
  rq_responses :: "message list option"
  rq_config :: "llm_config option"
  rq_provider :: "string option"
  rq_model :: "string option"
  rq_key :: "string option"
  rq_url :: "string option"

definition make_model :: "model_request \<Rightarrow> environ \<Rightarrow> built_model result" where
  "make_model rq env =
     (if rq_profile rq = ''mock'' \<or> rq_responses rq \<noteq> None
      then Inr (Scripted \<lparr>responses = (case rq_responses rq of Some rs \<Rightarrow> rs | None \<Rightarrow> []), replay_index = 0, received = []\<rparr>)
      else (case (case rq_config rq of Some c \<Rightarrow> Inr c | None \<Rightarrow> load_llm_config_from_env (rq_provider rq) env) of
              Inl x \<Rightarrow> Inl x
            | Inr base \<Rightarrow>
                (case merge_llm_config base (rq_provider rq) (rq_model rq) (rq_key rq) (rq_url rq) of
                   Inl x \<Rightarrow> Inl x
                 | Inr cfg \<Rightarrow>
                     (case resolve_model_name (rq_profile rq) cfg of
                        Inl x \<Rightarrow> Inl x
                      | Inr name \<Rightarrow> Inr (build_remote_model cfg name)))))"

section \<open>Prompt templates\<close>

text \<open>Word characters of a placeholder.\<close>

definition is_word :: "char \<Rightarrow> bool" where
  "is_word c \<longleftrightarrow> is_name_start c \<or> is_digit c \<or>
     of_char c \<in> {170::nat, 178, 179, 181, 185, 186, 188, 189, 190} \<or>
     (192::nat) \<le> of_char c \<and> of_char c \<noteq> (215::nat) \<and> of_char c \<noteq> (247::nat)"

text \<open>\<open>_PLACEHOLDER_RE.findall\<close>: a brace, word characters, a closing brace.\<close>

function placeholders :: "string \<Rightarrow> string list" where
  "placeholders s =
     (if s = [] then []
      else (let w = takeWhile is_word (tl s); r = drop (length w) (tl s) in
            if hd s = CHR 0x7B \<and> w \<noteq> [] \<and> take 1 r = [CHR 0x7D] then w # placeholders (drop 1 r)
            else placeholders (tl s)))"
  by pat_completeness auto
termination by (relation "measure length") auto

declare placeholders.simps [simp del]

record prompt_meta =
  pm_file :: "string option"
  pm_params :: "string list"
  pm_data :: "pydict option"

record prompt_entry =
  pe_template :: string
  pe_params :: "string set"
  pe_data :: "pydict option"

definition strip_newlines :: "string \<Rightarrow> string" where
  "strip_newlines s = rev (dropWhile (\<lambda>c. c = CHR 0x0A) (rev s))"

text \<open>\<open>_load\<close> for the entries of a registry; \<open>files\<close> gives the content of the template files.\<close>

definition compile_prompt :: "(string \<Rightarrow> string option) \<Rightarrow> prompt_meta \<Rightarrow> prompt_entry result" where
  "compile_prompt files m =
     (case pm_file m of
        None \<Rightarrow> Inl PromptError
      | Some f \<Rightarrow>
          if f = [] then Inl PromptError
          else (case files f of
                  None \<Rightarrow> Inl PromptError
                | Some raw \<Rightarrow>
                    (let t = strip_newlines raw in
                     if set (pm_params m) \<noteq> set (placeholders t) then Inl PromptError
                     else Inr \<lparr>pe_template = t, pe_params = set (pm_params m), pe_data = pm_data m\<rparr>)))"

fun compile_prompts :: "(string \<Rightarrow> string option) \<Rightarrow> (string \<times> prompt_meta) list \<Rightarrow> (string, prompt_entry) dict result" where
  "compile_prompts files [] = Inr []"
| "compile_prompts files ((pid, m) # ms) =
     (case compile_prompt files m of
        Inl x \<Rightarrow> Inl x
      | Inr e \<Rightarrow> (case compile_prompts files ms of Inl x \<Rightarrow> Inl x | Inr es \<Rightarrow> Inr ((pid, e) # es)))"

definition load_prompts :: "(string \<Rightarrow> string option) \<Rightarrow> (string \<times> prompt_meta) list \<Rightarrow> (string, prompt_entry) dict result" where
  "load_prompts files ms = (if ms = [] then Inl PromptError else compile_prompts files ms)"

text \<open>\<open>str.format\<close> with keyword arguments: doubled braces are braces, a field is a name between braces, a
  numbered or empty field has no argument, a lone brace is an error. Fields with conversions,
  formats or attributes go to \<open>odd_field\<close>.\<close>

function format_text :: "(string \<Rightarrow> string result) \<Rightarrow> (string, string) dict \<Rightarrow> string \<Rightarrow> string result" where
  "format_text odd_field params s =
     (if s = [] then Inr []
      else if hd s = CHR 0x7B \<and> take 1 (tl s) = [CHR 0x7B] \<or> hd s = CHR 0x7D \<and> take 1 (tl s) = [CHR 0x7D]
      then map_sum id (Cons (hd s)) (format_text odd_field params (drop 2 s))
      else if hd s = CHR 0x7D then Inl ValueError
      else if hd s = CHR 0x7B
      then (let f = takeWhile (\<lambda>c. c \<noteq> CHR 0x7D) (tl s); r = drop (length f) (tl s) in
            if r = [] then Inl ValueError
            else (case (if \<not> list_all is_word f then odd_field f
                        else if list_all is_digit f then Inl IndexError
                        else (case dict_get params f of Some v \<Rightarrow> Inr v | None \<Rightarrow> Inl KeyError)) of
                    Inl x \<Rightarrow> Inl x
                  | Inr v \<Rightarrow> map_sum id (append v) (format_text odd_field params (drop 1 r))))
      else map_sum id (Cons (hd s)) (format_text odd_field params (tl s)))"
  by pat_completeness auto
termination by (relation "measure (\<lambda>(odd_field, params, s). length s)") auto

declare format_text.simps [simp del]

definition render :: "(string \<Rightarrow> string result) \<Rightarrow> (string, prompt_entry) dict \<Rightarrow> string \<Rightarrow> (string, string) dict \<Rightarrow> string result" where
  "render odd_field prompts pid params =
     (case dict_get prompts pid of
        None \<Rightarrow> Inl PromptError
      | Some e \<Rightarrow> (case format_text odd_field params (pe_template e) of Inl KeyError \<Rightarrow> Inl PromptError | x \<Rightarrow> x))"

definition identity_default :: "(string, prompt_entry) dict \<Rightarrow> pydict result" where
  "identity_default prompts =
     (case dict_get prompts ''identity'' of
        None \<Rightarrow> Inl PromptError
      | Some e \<Rightarrow> (case pe_data e of None \<Rightarrow> Inl PromptError | Some v \<Rightarrow> Inr v))"

section \<open>Retries\<close>

text \<open>What a call raised: the names of its classes, whether it is an instance of the built-in connection
  or timeout errors, and whether it is control flow (not an \<open>Exception\<close>).\<close>

record raised =
  class_names :: "string list"
  network :: bool
  control_flow :: bool

definition transient_names :: "string list" where
  "transient_names = [''APIConnectionError'', ''APITimeoutError'', ''RateLimitError'', ''InternalServerError'',
     ''OverloadedError'', ''ServiceUnavailableError'']"

definition default_retry_on :: "raised \<Rightarrow> bool" where
  "default_retry_on x \<longleftrightarrow> network x \<or> list_ex (\<lambda>c. c \<in> set transient_names) (class_names x)"

datatype retry_rule = RetryClasses "string list" | RetryPredicate "raised \<Rightarrow> bool"

record call_record =
  rec_attempts :: int
  rec_degraded :: bool

text \<open>\<open>inner_call\<close> is one call of the wrapped model, its timeout included.\<close>

record 'w resilient =
  inner_call :: "'w \<Rightarrow> (raised + message) \<times> 'w"
  max_attempts :: int
  initial_interval :: rat
  backoff_factor :: rat
  retry_on :: retry_rule
  fallback_answer :: string

definition should_retry :: "'w resilient \<Rightarrow> raised \<Rightarrow> bool" where
  "should_retry r x =
     (case retry_on r of RetryClasses cs \<Rightarrow> list_ex (\<lambda>c. c \<in> set cs) (class_names x) | RetryPredicate f \<Rightarrow> f x)"

text \<open>The loop: attempts left, number of the attempt, interval, sleeps so far. The result is an answer,
  None when all attempts failed, or what was raised.\<close>

fun retry_loop :: "'w resilient \<Rightarrow> nat \<Rightarrow> nat \<Rightarrow> rat \<Rightarrow> rat list \<Rightarrow> 'w \<Rightarrow> ((raised + message option) \<times> nat \<times> rat list) \<times> 'w" where
  "retry_loop r 0 attempt interval sleeps w = ((Inr None, attempt, sleeps), w)"
| "retry_loop r (Suc n) attempt interval sleeps w =
     (case inner_call r w of
        (Inr m, w') \<Rightarrow> ((Inr (Some m), Suc attempt, sleeps), w')
      | (Inl x, w') \<Rightarrow>
          if control_flow x \<or> \<not> should_retry r x then ((Inl x, Suc attempt, sleeps), w')
          else if n = 0 then ((Inr None, Suc attempt, sleeps), w')
          else if 0 < interval then retry_loop r n (Suc attempt) (interval * backoff_factor r) (sleeps @ [interval]) w'
          else retry_loop r n (Suc attempt) interval sleeps w')"

definition fallback_message :: "string \<Rightarrow> message" where
  "fallback_message txt = \<lparr>role = AIRole, msg_id = None, content = PStr txt, msg_name = None, tool_calls = [], tool_call_id = None, status = None\<rparr>"

definition resilient_generate :: "'w resilient \<Rightarrow> 'w \<times> call_record list \<Rightarrow> ((raised + message) \<times> rat list) \<times> ('w \<times> call_record list)" where
  "resilient_generate r wc =
     (case retry_loop r (nat (max_attempts r)) 0 (initial_interval r) [] (fst wc) of
        ((Inl x, k, sleeps), w) \<Rightarrow> ((Inl x, sleeps), (w, snd wc))
      | ((Inr (Some m), k, sleeps), w) \<Rightarrow> ((Inr m, sleeps), (w, snd wc @ [\<lparr>rec_attempts = int k, rec_degraded = False\<rparr>]))
      | ((Inr None, k, sleeps), w) \<Rightarrow>
          ((Inr (fallback_message (fallback_answer r)), sleeps), (w, snd wc @ [\<lparr>rec_attempts = max_attempts r, rec_degraded = True\<rparr>])))"

definition cleanup_threads :: "(string \<Rightarrow> (unit, 's) proc) \<Rightarrow> string list \<Rightarrow> (nat, 's) proc" where
  "cleanup_threads delete_thread ids = bind_proc (each delete_thread ids) (\<lambda>_. ret (length ids))"

section \<open>What the environment holds after loading\<close>

definition definitions_of :: "string \<Rightarrow> (string \<times> string) list" where
  "definitions_of txt = List.map_filter parse_dotenv_line (splitlines txt)"

lemma fold_set_env:
  "dict_get (fold (set_env override) kvs env) k =
     (if override then (case map_of (rev kvs) k of Some v \<Rightarrow> Some v | None \<Rightarrow> dict_get env k)
      else (case dict_get env k of Some v \<Rightarrow> Some v | None \<Rightarrow> map_of kvs k))"
  by (induction kvs arbitrary: env)
     (auto simp: set_env_def map_add_def map_of_append split: option.splits if_splits)

text \<open>Exported variables win: loading a dotenv file keeps every variable that was set, and gives the
  others the first definition in the file; with override every defined variable gets the last
  definition in the file, and the others keep their value; a default file is read once.\<close>

theorem load_env_precedence:
  "dict_get (fst (snd (load_env explicit override (Some txt) (env, False)))) k =
     (if override then (case map_of (rev (definitions_of txt)) k of Some v \<Rightarrow> Some v | None \<Rightarrow> dict_get env k)
      else (case dict_get env k of Some v \<Rightarrow> Some v | None \<Rightarrow> map_of (definitions_of txt) k)) \<and>
   load_env False override (Some txt) (snd (load_env False override (Some txt) (env, False))) =
     (True, snd (load_env False override (Some txt) (env, False))) \<and>
   load_env explicit override None (env, b) = (False, (env, b))"
  by (simp add: load_env_def fold_set_env flip: definitions_of_def)

lemma name_start_facts:
  assumes "is_name_start c"
  shows "\<not> is_space c" "c \<noteq> CHR ''#''" "c \<noteq> CHR ''=''"
proof -
  have r: "c = CHR ''_'' \<or> (65::nat) \<le> of_char c \<and> of_char c \<le> (122::nat)" using assms by (auto simp: is_name_start_def)
  then show "\<not> is_space c" by (auto simp: is_space_def)
  show "c \<noteq> CHR ''#''" "c \<noteq> CHR ''=''" using r by auto
qed

lemma env_key_facts:
  assumes "is_env_key k"
  shows "k \<noteq> []" "\<not> is_space (hd k)" "hd k \<noteq> CHR ''#''" "\<forall>c \<in> set k. c \<noteq> CHR ''='' \<and> \<not> is_space c"
proof -
  show ne: "k \<noteq> []" using assms by (simp add: is_env_key_def)
  have st: "is_name_start (hd k)" using assms by (simp add: is_env_key_def)
  then show "\<not> is_space (hd k)" "hd k \<noteq> CHR ''#''" by (simp_all add: name_start_facts)
  have "c \<noteq> CHR ''='' \<and> \<not> is_space c" if "c \<in> set (tl k)" for c
  proof -
    have "is_name_start c \<or> is_digit c" using assms that by (simp add: is_env_key_def list_all_iff)
    moreover have "c \<noteq> CHR ''=''" if "is_digit c" using that by (auto simp: is_digit_def)
    ultimately show ?thesis using name_start_facts [of c] is_digit_not_space [of c] by blast
  qed
  moreover have "set k = insert (hd k) (set (tl k))" using ne by (metis list.collapse list.simps(15))
  ultimately show "\<forall>c \<in> set k. c \<noteq> CHR ''='' \<and> \<not> is_space c" using st name_start_facts by auto
qed

lemma partition_at_first: "\<forall>c \<in> set k. c \<noteq> x \<Longrightarrow> partition_at x (k @ x # r) = (k, True, r)"
  by (simp add: partition_at_def)

lemma strip_word: "k \<noteq> [] \<Longrightarrow> \<forall>c \<in> set k. \<not> is_space c \<Longrightarrow> strip k = k"
  by (intro strip_unchanged) auto

lemma strip_ends: "\<not> is_space a \<Longrightarrow> \<not> is_space z \<Longrightarrow> strip (a # xs @ [z]) = a # xs @ [z]"
  by (rule strip_unchanged) auto

lemma key_not_export:
  assumes "\<forall>c \<in> set k. c \<noteq> CHR ''='' \<and> \<not> is_space c"
  shows "take 7 (k @ ''='' @ r) \<noteq> ''export ''"
proof
  assume t: "take 7 (k @ ''='' @ r) = ''export ''"
  show False
  proof (cases "7 \<le> length k")
    case True
    then have "take 7 (k @ ''='' @ r) = take 7 k" by simp
    then have e: "take 7 k = ''export ''" unfolding t by (rule sym)
    have "CHR '' '' \<in> set (take 7 k)" unfolding e by simp
    then have "CHR '' '' \<in> set k" using set_take_subset [of 7 k] by blast
    moreover have "is_space CHR '' ''" by (simp add: is_space_def)
    ultimately show False using assms by blast
  next
    case False
    then obtain j where "7 - length k = Suc j" by (cases "7 - length k") auto
    with False have "take 7 (k @ ''='' @ r) = k @ CHR ''='' # take j r" by simp
    then have "CHR ''='' \<in> set (take 7 (k @ ''='' @ r))" by (simp only: set_append list.set Un_iff insert_iff simp_thms)
    then have "CHR ''='' \<in> set ''export ''" unfolding t .
    then show False by simp
  qed
qed

text \<open>Quoted values survive: the line \<open>KEY="value"\<close>, with or without \<open>export\<close>, is read as that key
  and exactly that value, whatever the value contains, for every key the reader accepts.\<close>

theorem dotenv_line_roundtrip:
  assumes "is_env_key k"
  shows "parse_dotenv_line (k @ ''='' @ [CHR 0x22] @ v @ [CHR 0x22]) = Some (k, v) \<and>
     parse_dotenv_line (''export '' @ k @ ''='' @ [CHR 0x22] @ v @ [CHR 0x22]) = Some (k, v)"
proof -
  note key = env_key_facts [OF assms]
  let ?q = "[CHR 0x22] @ v @ [CHR 0x22]"
  let ?line = "k @ ''='' @ ?q"
  obtain c k' where k: "k = c # k'" using key(1) by (cases k) auto
  have q: "\<not> is_space CHR 0x22" by (simp add: is_space_def)
  have sl: "strip ?line = ?line" using strip_ends [of c "CHR 0x22" "k' @ ''='' @ [CHR 0x22] @ v"] key(2) q k by simp
  have sq: "strip ?q = ?q" using strip_ends [OF q q] by simp
  have part: "partition_at (CHR ''='') ?line = (k, True, ?q)"
    using partition_at_first [of k "CHR ''=''" ?q] key(4) by simp
  have no_export: "drop_export ?line = ?line" using key_not_export [of k ?q] key(4) by (simp add: drop_export_def)
  have quotes: "strip_quotes ?q = v" by (simp add: strip_quotes_def)
  have one: "parse_dotenv_line ?line = Some (k, v)"
    using sl sq part no_export quotes key(3) k assms strip_word [OF key(1)] key(4) by (simp add: parse_dotenv_line_def Let_def)
  have "strip (''export '' @ ?line) = ''export '' @ ?line"
    using strip_ends [of "CHR ''e''" "CHR 0x22" "''xport '' @ k @ ''='' @ [CHR 0x22] @ v"] q by (simp add: is_space_def)
  moreover have "drop_export (''export '' @ ?line) = ?line"
    using key(2) k by (simp add: drop_export_def lstrip_def)
  ultimately have "parse_dotenv_line (''export '' @ ?line) = Some (k, v)"
    using sq part quotes assms strip_word [OF key(1)] key(4) by (simp add: parse_dotenv_line_def Let_def)
  with one show ?thesis by simp
qed

theorem dotenv_line_roundtrip_witness:
  "parse_dotenv_line (''K='' @ [CHR 0x22] @ '' a#b '' @ [CHR 0x22]) = Some (''K'', '' a#b '')"
proof -
  have "is_env_key ''K''" by (simp add: is_env_key_def is_name_start_def)
  from dotenv_line_roundtrip [OF this, of "'' a#b ''"] show ?thesis by simp
qed

section \<open>What a resilient call does\<close>

text \<open>The outcomes of the next calls of the wrapped model.\<close>

fun outcomes :: "('w \<Rightarrow> (raised + message) \<times> 'w) \<Rightarrow> nat \<Rightarrow> 'w \<Rightarrow> (raised + message) list" where
  "outcomes call 0 w = []"
| "outcomes call (Suc n) w = fst (call w) # outcomes call n (snd (call w))"

fun after_calls :: "('w \<Rightarrow> (raised + message) \<times> 'w) \<Rightarrow> nat \<Rightarrow> 'w \<Rightarrow> 'w" where
  "after_calls call 0 w = w"
| "after_calls call (Suc n) w = after_calls call n (snd (call w))"

definition retryable :: "'w resilient \<Rightarrow> raised + message \<Rightarrow> bool" where
  "retryable r out = (case out of Inl x \<Rightarrow> \<not> control_flow x \<and> should_retry r x | Inr m \<Rightarrow> False)"

text \<open>The sleeps between the attempts: a geometric series, nothing for an interval that is not positive.\<close>

definition backoffs :: "rat \<Rightarrow> rat \<Rightarrow> nat \<Rightarrow> rat list" where
  "backoffs iv factor n = map (\<lambda>i. iv * factor ^ i) [0..<n]"

lemma backoffs_Suc: "backoffs iv factor (Suc n) = iv # backoffs (iv * factor) factor n"
proof -
  have "map (\<lambda>i. iv * factor ^ i) [0..<Suc n] = iv # map (\<lambda>i. iv * factor ^ Suc i) [0..<n]"
    unfolding upt_conv_Cons [OF zero_less_Suc] map_Suc_upt [symmetric] by (simp add: comp_def)
  then show ?thesis by (simp add: backoffs_def mult.assoc)
qed

lemma length_failed: "length (takeWhile P (outcomes call n w)) \<le> n"
proof -
  have "length (outcomes call n w) = n" by (induction n arbitrary: w) auto
  then show ?thesis by (metis length_takeWhile_le)
qed

lemma retry_loop_trace:
  assumes "0 < interval" and "0 < backoff_factor r"
  shows "retry_loop r n attempt interval sleeps w =
     (let failed = takeWhile (retryable r) (outcomes (inner_call r) n w); k = length failed;
          slept = sleeps @ backoffs interval (backoff_factor r) (min k (n - 1))
      in if k = n then ((Inr None, attempt + n, slept), after_calls (inner_call r) n w)
         else ((case outcomes (inner_call r) n w ! k of Inl x \<Rightarrow> Inl x | Inr m \<Rightarrow> Inr (Some m), attempt + k + 1, slept),
               after_calls (inner_call r) (Suc k) w))"
  using assms(1)
proof (induction n arbitrary: attempt interval sleeps w)
  case 0
  then show ?case by (simp add: backoffs_def)
next
  case (Suc n)
  obtain out w' where c: "inner_call r w = (out, w')" by (cases "inner_call r w")
  show ?case
  proof (cases "retryable r out")
    case False
    then show ?thesis using c by (cases out) (auto simp: retryable_def Let_def backoffs_def)
  next
    case True
    then obtain x where x: "out = Inl x" "\<not> control_flow x" "should_retry r x" by (cases out) (auto simp: retryable_def)
    have le: "length (takeWhile (retryable r) (outcomes (inner_call r) n w')) \<le> n" by (rule length_failed)
    show ?thesis
    proof (cases n)
      case 0
      then show ?thesis using c x True by (simp add: backoffs_def Let_def)
    next
      case (Suc m)
      have "min (length (takeWhile (retryable r) (outcomes (inner_call r) n w')) + 1) n =
          Suc (min (length (takeWhile (retryable r) (outcomes (inner_call r) n w'))) (n - 1))" using Suc by simp
      then show ?thesis
        using c x True Suc.IH [of "interval * backoff_factor r" "Suc attempt" "sleeps @ [interval]" w'] Suc.prems assms(2) Suc
        by (simp add: Let_def backoffs_Suc)
    qed
  qed
qed

text \<open>Retries end and never hide a real failure: with a positive interval and factor, let k be the
  number of retryable failures before the first other outcome among the next \<open>max_attempts\<close> calls.
  If all of them fail that way, the answer is the fallback message without tool calls and one
  degraded call is recorded; otherwise the call that follows decides: its answer is returned and
  recorded with k + 1 attempts, or its exception is raised and nothing is recorded. The model is
  called no more often than that, and the sleeps are the geometric series.\<close>

theorem resilient_generate_spec:
  assumes "0 < initial_interval r" and "0 < backoff_factor r"
    and "n = nat (max_attempts r)" and "k = length (takeWhile (retryable r) (outcomes (inner_call r) n w))"
  shows "resilient_generate r (w, past) =
     (if k = n
      then ((Inr (fallback_message (fallback_answer r)), backoffs (initial_interval r) (backoff_factor r) (n - 1)),
            (after_calls (inner_call r) n w, past @ [\<lparr>rec_attempts = max_attempts r, rec_degraded = True\<rparr>]))
      else (case outcomes (inner_call r) n w ! k of
              Inl x \<Rightarrow> ((Inl x, backoffs (initial_interval r) (backoff_factor r) k), (after_calls (inner_call r) (Suc k) w, past))
            | Inr m \<Rightarrow> ((Inr m, backoffs (initial_interval r) (backoff_factor r) k),
                 (after_calls (inner_call r) (Suc k) w, past @ [\<lparr>rec_attempts = int (Suc k), rec_degraded = False\<rparr>])))) \<and>
     tool_calls (fallback_message (fallback_answer r)) = [] \<and> k \<le> n"
proof -
  have le: "k \<le> n" unfolding assms(4) by (rule length_failed)
  have t: "retry_loop r n 0 (initial_interval r) [] w =
     (if k = n then ((Inr None, n, backoffs (initial_interval r) (backoff_factor r) (min k (n - 1))), after_calls (inner_call r) n w)
      else ((case outcomes (inner_call r) n w ! k of Inl x \<Rightarrow> Inl x | Inr m \<Rightarrow> Inr (Some m), k + 1,
             backoffs (initial_interval r) (backoff_factor r) (min k (n - 1))), after_calls (inner_call r) (Suc k) w))"
    using retry_loop_trace [OF assms(1,2), of n 0 "[]" w] by (simp add: Let_def assms(4) [symmetric] del: after_calls.simps)
  show ?thesis
  proof (cases "k = n")
    case True
    then show ?thesis using t by (simp add: resilient_generate_def fallback_message_def assms(3) [symmetric])
  next
    case False
    then have "min k (n - 1) = k" using le by simp
    then show ?thesis
      using t False le
      by (simp add: resilient_generate_def fallback_message_def assms(3) [symmetric] del: after_calls.simps split: sum.splits)
  qed
qed

definition flaky :: "nat resilient" where
  "flaky = \<lparr>inner_call = (\<lambda>n. (if n < 1 then Inl \<lparr>class_names = [''RateLimitError''], network = False, control_flow = False\<rparr>
       else Inr (fallback_message ''ok''), n + 1)),
     max_attempts = 3, initial_interval = 1, backoff_factor = 2, retry_on = RetryPredicate default_retry_on, fallback_answer = ''wait''\<rparr>"

theorem resilient_generate_spec_witness:
  "resilient_generate flaky (0, []) = ((Inr (fallback_message ''ok''), [1]), (2, [\<lparr>rec_attempts = 2, rec_degraded = False\<rparr>]))"
proof -
  have c: "1 = length (takeWhile (retryable flaky) (outcomes (inner_call flaky) 3 0))"
    by (simp add: flaky_def numeral_3_eq_3 retryable_def should_retry_def default_retry_on_def transient_names_def)
  have a: "0 < initial_interval flaky" "0 < backoff_factor flaky" "3 = nat (max_attempts flaky)"
    by (simp_all add: flaky_def)
  from resilient_generate_spec [OF a c, of "[]"] show ?thesis
    by (simp add: flaky_def numeral_3_eq_3 backoffs_def)
qed

end
