(* ===== verification/Vision.thy ===== *)
theory Vision
  imports Memory
begin

text \<open>
  Vision: \<open>robot_agent/vision/images.py\<close> and \<open>resize.py\<close> (checked image input), \<open>source.py\<close> (the bounded
  source of frames), \<open>analyze.py\<close>, \<open>tools.py\<close> and \<open>trust.py\<close>. Bytes are 8-bit characters; base64 is that of
  the standard library in strict mode (CPython 3.11). The image codec (Pillow), the file system and
  the vision model are arguments.
\<close>

section \<open>Base64\<close>

definition b64_alphabet :: string where
  "b64_alphabet = ''ABCDEFGHIJKLMNOPQRSTUVWXYZabcdefghijklmnopqrstuvwxyz0123456789+/''"

definition b64_char :: "nat \<Rightarrow> char" where
  "b64_char n = b64_alphabet ! n"

definition b64_value :: "char \<Rightarrow> nat option" where
  "b64_value c = map_of (zip b64_alphabet [0..<64]) c"

definition byte_of :: "char \<Rightarrow> nat" where
  "byte_of c = of_char c"

fun b64_encode :: "string \<Rightarrow> string" where
  "b64_encode [] = []"
| "b64_encode [a] = [b64_char (byte_of a div 4), b64_char (byte_of a mod 4 * 16), CHR ''='', CHR ''='']"
| "b64_encode [a, b] =
     [b64_char (byte_of a div 4), b64_char (byte_of a mod 4 * 16 + byte_of b div 16), b64_char (byte_of b mod 16 * 4), CHR ''='']"
| "b64_encode (a # b # c # r) =
     [b64_char (byte_of a div 4), b64_char (byte_of a mod 4 * 16 + byte_of b div 16),
      b64_char (byte_of b mod 16 * 4 + byte_of c div 64), b64_char (byte_of c mod 64)] @ b64_encode r"

definition sextets :: "nat \<Rightarrow> nat \<Rightarrow> nat \<Rightarrow> nat \<Rightarrow> string" where
  "sextets w x y z = [char_of (w * 4 + x div 16), char_of (x mod 16 * 16 + y div 4), char_of (y mod 4 * 64 + z)]"

text \<open>Strict decoding: groups of four, padding only at the end. Surplus padding after a complete group is
  accepted, as the library does.\<close>

definition only_pads :: "bool \<Rightarrow> string \<Rightarrow> string option" where
  "only_pads seen s = (if seen \<and> list_all (\<lambda>c. c = CHR ''='') s then Some [] else None)"

fun b64_groups :: "bool \<Rightarrow> string \<Rightarrow> string option" where
  "b64_groups seen [] = Some []"
| "b64_groups seen (w # x # y # z # r) =
     (case (b64_value w, b64_value x, b64_value y, b64_value z) of
        (Some i, Some j, Some k, Some l) \<Rightarrow> map_option (\<lambda>t. sextets i j k l @ t) (b64_groups True r)
      | (Some i, Some j, Some k, None) \<Rightarrow> if z = CHR ''='' \<and> r = [] then Some (take 2 (sextets i j k 0)) else None
      | (Some i, Some j, None, None) \<Rightarrow> if y = CHR ''='' \<and> z = CHR ''='' \<and> r = [] then Some (take 1 (sextets i j 0 0)) else None
      | _ \<Rightarrow> only_pads seen (w # x # y # z # r))"
| "b64_groups seen s = only_pads seen s"

definition b64_decode :: "string \<Rightarrow> string option" where
  "b64_decode s = b64_groups False s"

section \<open>Image input\<close>

definition supported_media_types :: "string list" where
  "supported_media_types = [''image/jpeg'', ''image/png'', ''image/gif'', ''image/webp'']"

definition max_source_image_bytes :: nat where "max_source_image_bytes = 20971520"
definition max_image_bytes :: nat where "max_image_bytes = 5242880"
definition max_base64_chars :: nat where "max_base64_chars = (max_source_image_bytes + 2) div 3 * 4"
definition max_base64_input_chars :: nat where "max_base64_input_chars = max_base64_chars + 8192"

definition begins :: "string \<Rightarrow> string \<Rightarrow> bool" where
  "begins p s \<longleftrightarrow> take (length p) s = p"

definition sniff_media_type :: "string \<Rightarrow> string option" where
  "sniff_media_type s =
     (if begins ([CHR 0x89] @ ''PNG'' @ [CHR 0x0D, CHR 0x0A, CHR 0x1A, CHR 0x0A]) s then Some ''image/png''
      else if begins [CHR 0xFF, CHR 0xD8, CHR 0xFF] s then Some ''image/jpeg''
      else if begins ''GIF87a'' s \<or> begins ''GIF89a'' s then Some ''image/gif''
      else if 12 \<le> length s \<and> take 4 s = ''RIFF'' \<and> take 4 (drop 8 s) = ''WEBP'' then Some ''image/webp''
      else None)"

definition validate_media_type :: "string option \<Rightarrow> string option result" where
  "validate_media_type mt =
     (case mt of
        None \<Rightarrow> Inr None
      | Some t \<Rightarrow> (let n = map lower_char (strip t) in if n \<in> set supported_media_types then Inr (Some n) else Inl ValueError))"

text \<open>The text before the first occurrence of \<open>p\<close>.\<close>

fun before_sub :: "string \<Rightarrow> string \<Rightarrow> string option" where
  "before_sub p [] = (if p = [] then Some [] else None)"
| "before_sub p (c # cs) = (if begins p (c # cs) then Some [] else map_option (Cons c) (before_sub p cs))"

definition parse_data_url :: "string \<Rightarrow> (string option \<times> string) result" where
  "parse_data_url t =
     (if \<not> begins ''data:'' (map lower_char t) then Inl ValueError
      else (case partition_at CHR '','' t of
        (header, found, payload) \<Rightarrow>
          if \<not> found then Inl ValueError
          else if before_sub '';base64'' (map lower_char header) = None then Inl ValueError
          else (let rest = drop 5 header;
                    media_part = strip (case before_sub '';base64'' rest of None \<Rightarrow> rest | Some m \<Rightarrow> m);
                    raw = strip (takeWhile (\<lambda>c. c \<noteq> CHR '';'') media_part)
                in if raw = [] then Inl ValueError
                   else (case validate_media_type (Some raw) of Inl e \<Rightarrow> Inl e | Inr d \<Rightarrow> Inr (d, payload)))))"

subsection \<open>Resizing\<close>

text \<open>Rounding to the nearest integer, halves to the even one.\<close>

definition round_half_even :: "rat \<Rightarrow> int" where
  "round_half_even q =
     (let f = \<lfloor>q\<rfloor>; r = q - of_int f in
      if r < 1 / 2 then f else if 1 / 2 < r then f + 1 else if even f then f else f + 1)"

definition size_bounds :: "int \<Rightarrow> int \<Rightarrow> int \<times> int" where
  "size_bounds w h = (if h \<le> w then (1280, 720) else (720, 1280))"

definition size_scale :: "int \<Rightarrow> int \<Rightarrow> rat" where
  "size_scale w h =
     (case size_bounds w h of (bw, bh) \<Rightarrow> min (min (of_int bw / of_int w) (of_int bh / of_int h)) 1)"

definition target_size :: "int \<Rightarrow> int \<Rightarrow> int \<times> int" where
  "target_size w h =
     (max 1 (round_half_even (of_int w * size_scale w h)), max 1 (round_half_even (of_int h * size_scale w h)))"

definition max_source_pixels :: int where "max_source_pixels = 40000000"
definition reencode_threshold_bytes :: nat where "reencode_threshold_bytes = 1048576"

text \<open>The codec: the size of a file, whether its EXIF data turns it by a quarter (which loads it), and a
  re-encoding, fit into a size if one is given, from a media type into another.\<close>

record codec =
  codec_open :: "string \<Rightarrow> (int \<times> int) result"
  codec_turned :: "string \<Rightarrow> bool result"
  codec_save :: "string \<Rightarrow> (int \<times> int) option \<Rightarrow> string \<Rightarrow> string \<Rightarrow> string result"

text \<open>\<open>except (OSError, ...)\<close> as a ValueError.\<close>

fun undecodable :: "py_exc \<Rightarrow> py_exc" where
  "undecodable OSError = ValueError"
| "undecodable e = e"

definition saved_type :: "string \<Rightarrow> string" where
  "saved_type mt = (if mt = ''image/jpeg'' \<or> mt = ''image/webp'' then mt else ''image/png'')"

definition optimize_for_vlm :: "codec \<Rightarrow> string \<Rightarrow> string \<Rightarrow> (string \<times> string) result" where
  "optimize_for_vlm cd s mt =
     (case codec_open cd s of
        Inl e \<Rightarrow> Inl (undecodable e)
      | Inr (w, h) \<Rightarrow>
          if w < 1 \<or> h < 1 \<or> max_source_pixels < w * h then Inl ValueError
          else (case codec_turned cd s of
            Inl e \<Rightarrow> Inl (undecodable e)
          | Inr turned \<Rightarrow>
              (let (w', h') = (if turned then (h, w) else (w, h));
                   target = target_size w' h';
                   needs_resize = target \<noteq> (w', h');
                   needs_reencode = reencode_threshold_bytes < length s
               in if \<not> needs_resize \<and> \<not> needs_reencode then Inr (s, mt)
                  else (case codec_save cd s (if needs_resize then Some target else None) mt (saved_type mt) of
                          Inl e \<Rightarrow> Inl (undecodable e)
                        | Inr out \<Rightarrow> Inr (out, saved_type mt)))))"

subsection \<open>Validation and normalisation\<close>

definition validate_bytes :: "codec \<Rightarrow> string \<Rightarrow> string option \<Rightarrow> (string \<times> string) result" where
  "validate_bytes cd s declared =
     (if s = [] then Inl ValueError
      else if max_source_image_bytes < length s then Inl ValueError
      else (case sniff_media_type s of
        None \<Rightarrow> Inl ValueError
      | Some detected \<Rightarrow>
          (case validate_media_type declared of
             Inl e \<Rightarrow> Inl e
           | Inr d \<Rightarrow>
               if d \<noteq> None \<and> d \<noteq> Some detected then Inl ValueError
               else (case optimize_for_vlm cd s detected of
                       Inl e \<Rightarrow> Inl e
                     | Inr (out, t) \<Rightarrow> if max_image_bytes < length out then Inl ValueError else Inr (out, t)))))"

definition decode_base64 :: "codec \<Rightarrow> string \<Rightarrow> string option \<Rightarrow> (string \<times> string) result" where
  "decode_base64 cd s mt =
     (if max_base64_input_chars < length s then Inl ValueError
      else (let compact = filter (\<lambda>c. c \<notin> {CHR 0x09, CHR 0x0A, CHR 0x0D, CHR '' ''}) s in
        if compact = [] then Inl ValueError
        else if max_base64_chars < length compact then Inl ValueError
        else (case b64_decode compact of None \<Rightarrow> Inl ValueError | Some decoded \<Rightarrow> validate_bytes cd decoded mt)))"

text \<open>The file system: a path text resolved to its components, with links followed; missing paths raise
  OSError, loops RuntimeError.\<close>

record file_system =
  fs_resolve :: "string \<Rightarrow> string list result"
  fs_expanded :: "string \<Rightarrow> string list result"
  fs_is_file :: "string list \<Rightarrow> bool"
  fs_size :: "string list \<Rightarrow> nat result"
  fs_read :: "string list \<Rightarrow> string result"

definition read_restricted_path :: "file_system \<Rightarrow> string \<Rightarrow> string \<Rightarrow> string result" where
  "read_restricted_path fs path_text allowed_root =
     (case fs_resolve fs allowed_root of
        Inl e \<Rightarrow> Inl e
      | Inr base \<Rightarrow>
          (case fs_expanded fs path_text of
             Inl e \<Rightarrow> Inl e
           | Inr p \<Rightarrow>
               if take (length base) p \<noteq> base then Inl ValueError
               else if \<not> fs_is_file fs p then Inl ValueError
               else (case fs_size fs p of
                       Inl e \<Rightarrow> Inl e
                     | Inr n \<Rightarrow>
                         if max_source_image_bytes < n then Inl ValueError
                         else (case fs_read fs p of Inl e \<Rightarrow> Inl (undecodable e) | Inr raw \<Rightarrow> Inr raw))))"

datatype image_input = ImageText string | ImageBytes string

definition encoded :: "(string \<times> string) result \<Rightarrow> (string \<times> string) result" where
  "encoded r = map_sum id (\<lambda>(s, t). (b64_encode s, t)) r"

definition read_allowed :: "file_system \<Rightarrow> string option \<Rightarrow> string \<Rightarrow> string result" where
  "read_allowed fs allowed_root t =
     (case allowed_root of
        None \<Rightarrow> Inl ValueError
      | Some base \<Rightarrow>
          (case read_restricted_path fs t base of
             Inl e \<Rightarrow> Inl (if e = OSError \<or> e = RuntimeError then ValueError else e)
           | Inr raw \<Rightarrow> Inr raw))"

definition normalize_image ::
  "codec \<Rightarrow> file_system \<Rightarrow> image_input \<Rightarrow> string option \<Rightarrow> bool \<Rightarrow> string option \<Rightarrow> (string \<times> string) result" where
  "normalize_image cd fs img mt allow_path allowed_root =
     encoded (case img of
        ImageBytes s \<Rightarrow> validate_bytes cd s mt
      | ImageText txt \<Rightarrow>
          (let t = strip txt in
           if t = [] then Inl ValueError
           else if begins ''data:'' (map lower_char t)
           then (case parse_data_url t of
                   Inl e \<Rightarrow> Inl e
                 | Inr (declared, payload) \<Rightarrow>
                     (case (if mt = None then Inr declared else validate_media_type mt) of
                        Inl e \<Rightarrow> Inl e
                      | Inr d \<Rightarrow> if d \<noteq> declared then Inl ValueError else decode_base64 cd payload declared))
           else if allow_path
           then (case read_allowed fs allowed_root t of Inl e \<Rightarrow> Inl e | Inr raw \<Rightarrow> validate_bytes cd raw mt)
           else decode_base64 cd t mt))"

definition to_data_url :: "string \<Rightarrow> string \<Rightarrow> string result" where
  "to_data_url s mt =
     (case validate_media_type (Some mt) of
        Inr (Some t) \<Rightarrow> Inr (''data:'' @ t @ '';base64,'' @ s)
      | Inr None \<Rightarrow> Inl ValueError
      | Inl e \<Rightarrow> Inl e)"

section \<open>The source of frames\<close>

record vision_frame =
  frame_bytes :: string
  frame_media_type :: string

record vision_source =
  max_frames :: int
  max_total_bytes :: int
  total_bytes :: int
  frames :: "(string, vision_frame) dict"

definition make_source :: "int \<Rightarrow> int \<Rightarrow> vision_source result" where
  "make_source mf mb =
     (if mf < 1 then Inl ValueError else if mb < 1 then Inl ValueError
      else Inr \<lparr>max_frames = mf, max_total_bytes = mb, total_bytes = 0, frames = []\<rparr>)"

definition validate_ref :: "string \<Rightarrow> string result" where
  "validate_ref image_ref =
     (let r = strip image_ref in
      if r = [] \<or> 128 < length r then Inl ValueError
      else if list_ex (\<lambda>c. byte_of c < 32) r then Inl ValueError
      else Inr r)"

definition frame_size :: "vision_frame \<Rightarrow> int" where
  "frame_size f = int (length (frame_bytes f))"

text \<open>Frames go out from the oldest; with no frame left \<open>popitem\<close> raises.\<close>

fun evict :: "int \<Rightarrow> int \<Rightarrow> int \<Rightarrow> (string, vision_frame) dict \<Rightarrow> unit result \<times> int \<times> (string, vision_frame) dict" where
  "evict mf mb tot [] = ((if mf < 0 \<or> mb < tot then Inl KeyError else Inr ()), tot, [])"
| "evict mf mb tot (f # fs) =
     (if mf < int (length (f # fs)) \<or> mb < tot then evict mf mb (tot - frame_size (snd f)) fs else (Inr (), tot, f # fs))"

definition put_frame :: "codec \<Rightarrow> file_system \<Rightarrow> string \<Rightarrow> image_input \<Rightarrow> string option \<Rightarrow> vision_source \<Rightarrow> unit result \<times> vision_source" where
  "put_frame cd fs image_ref img mt vs =
     (case validate_ref image_ref of
        Inl e \<Rightarrow> (Inl e, vs)
      | Inr r \<Rightarrow>
          (case normalize_image cd fs img mt False None of
             Inl e \<Rightarrow> (Inl e, vs)
           | Inr (b64, detected) \<Rightarrow>
               (case b64_decode b64 of
                  None \<Rightarrow> (Inl ValueError, vs)
                | Some raw \<Rightarrow>
                    if max_total_bytes vs < int (length raw) then (Inl ValueError, vs)
                    else (let old = (case dict_get (frames vs) r of None \<Rightarrow> 0 | Some f \<Rightarrow> frame_size f);
                              f = \<lparr>frame_bytes = raw, frame_media_type = detected\<rparr>
                          in case evict (max_frames vs) (max_total_bytes vs) (total_bytes vs - old + frame_size f)
                                     (dict_del r (frames vs) @ [(r, f)]) of
                               (out, tot, fs') \<Rightarrow> (out, vs\<lparr>total_bytes := tot, frames := fs'\<rparr>)))))"

definition get_frame :: "string \<Rightarrow> vision_source \<Rightarrow> vision_frame result \<times> vision_source" where
  "get_frame image_ref vs =
     (case validate_ref image_ref of
        Inl e \<Rightarrow> (Inl e, vs)
      | Inr r \<Rightarrow>
          (case dict_get (frames vs) r of
             None \<Rightarrow> (Inl ValueError, vs)
           | Some f \<Rightarrow> (Inr f, vs\<lparr>frames := dict_del r (frames vs) @ [(r, f)]\<rparr>)))"

section \<open>The vision model and the tool\<close>

text \<open>Rendered prompts, the image block of the message library, and the fixed texts of the answers.\<close>

record vision_texts =
  vt_prompt :: "string \<Rightarrow> string result"
  vt_image_block :: "string \<Rightarrow> string \<Rightarrow> pydict"
  vt_fallback :: string
  vt_exhausted :: string
  vt_empty :: string
  vt_instruction :: string
  vt_digits :: "rat \<Rightarrow> string"

fun block_text :: "pyval \<Rightarrow> string list" where
  "block_text (PStr s) = [s]"
| "block_text (PDict b) = (case dict_get b ''text'' of Some (PStr s) \<Rightarrow> [s] | _ \<Rightarrow> [])"
| "block_text _ = []"

fun vision_content_to_text :: "(rat \<Rightarrow> string) \<Rightarrow> pyval \<Rightarrow> string" where
  "vision_content_to_text ff (PStr s) = s"
| "vision_content_to_text ff (PList bs) = join [CHR 0x0A] (concat (map block_text bs))"
| "vision_content_to_text ff v = py_str ff v"

definition build_vision_message :: "vision_texts \<Rightarrow> string \<Rightarrow> vision_frame \<Rightarrow> message result" where
  "build_vision_message vt question f =
     (case vt_prompt vt question of
        Inl e \<Rightarrow> Inl e
      | Inr prompt \<Rightarrow>
          Inr \<lparr>role = HumanRole, msg_id = None,
               content = PList [PDict [(''type'', PStr ''text''), (''text'', PStr prompt)],
                                PDict (vt_image_block vt (b64_encode (frame_bytes f)) (frame_media_type f))],
               msg_name = None, tool_calls = [], tool_call_id = None, status = None\<rparr>)"

definition analyze_image :: "vision_texts \<Rightarrow> (message \<Rightarrow> (pyval, 'w) proc) \<Rightarrow> string \<Rightarrow> vision_frame \<Rightarrow> (string, 'w) proc" where
  "analyze_image vt model question f =
     bind_proc (of_result (build_vision_message vt question f)) (\<lambda>m.
     bind_proc (model m) (\<lambda>answer.
       let t = strip (vision_content_to_text (vt_digits vt) answer) in
       ret (if t = vt_fallback vt then vt_exhausted vt else if t = [] then vt_empty vt else t)))"

definition max_question_chars :: nat where "max_question_chars = 2000"

text \<open>The answer of the tool; an observation is the dictionary the tool writes as JSON.\<close>

datatype vision_reply =
    InvalidQuestion
  | VisionRefused remark
  | InvalidFrame py_exc
  | Observed pydict

definition vision_observation :: "vision_texts \<Rightarrow> string \<Rightarrow> string \<Rightarrow> pydict" where
  "vision_observation vt image_ref t =
     [(''type'', PStr ''vision_observation''), (''trusted'', PBool False), (''image_ref'', PStr image_ref),
      (''observation'', PStr t), (''instruction'', PStr (vt_instruction vt))]"

text \<open>The state: the policy, the source of frames, the world of the vision model.\<close>

definition look_and_describe :: "vision_texts \<Rightarrow> (string \<Rightarrow> 's \<Rightarrow> vision_frame result \<times> 's) \<Rightarrow> (message \<Rightarrow> (pyval, 'w) proc) \<Rightarrow> string \<Rightarrow> string
    \<Rightarrow> (vision_reply, governance option \<times> 's \<times> 'w) proc" where
  "look_and_describe vt get model q image_ref gsw =
     (case gsw of (g, s, w) \<Rightarrow>
        (case get image_ref s of
           (Inl e, s') \<Rightarrow> Some (if e = OSError \<or> e = ValueError then Inr (InvalidFrame e) else Inl e, (g, s', w))
         | (Inr f, s') \<Rightarrow>
             map_option (\<lambda>(res, w'). (map_sum id (\<lambda>t. Observed (vision_observation vt image_ref t)) res, (g, s', w')))
               (analyze_image vt model q f w)))"

definition describe_image :: "vision_texts \<Rightarrow> (string \<Rightarrow> 's \<Rightarrow> vision_frame result \<times> 's) \<Rightarrow> (message \<Rightarrow> (pyval, 'w) proc) \<Rightarrow> string \<Rightarrow> string
    \<Rightarrow> (vision_reply, governance option \<times> 's \<times> 'w) proc" where
  "describe_image vt get model question image_ref gsw =
     (let q = strip question in
      if q = [] \<or> max_question_chars < length q then Some (Inr InvalidQuestion, gsw)
      else (case gsw of (g, s, w) \<Rightarrow>
        (case g of
           None \<Rightarrow> look_and_describe vt get model q image_ref gsw
         | Some g0 \<Rightarrow>
             (case check ''describe_image'' [(''question'', PStr q), (''image_ref'', PStr image_ref)] g0 of
                Inl e \<Rightarrow> Some (Inl e, gsw)
              | Inr ((ok, r), g1) \<Rightarrow>
                  if ok then look_and_describe vt get model q image_ref (Some g1, s, w)
                  else Some (Inr (VisionRefused r), (Some g1, s, w))))))"

section \<open>The trust boundary\<close>

definition vision_trust_hook ::
  "string \<Rightarrow> (robot_state \<Rightarrow> ('u \<times> message list option, 's) proc) \<Rightarrow> robot_state \<Rightarrow> ('u \<times> message list option, 's) proc" where
  "vision_trust_hook policy inner st =
     bind_proc (inner st) (\<lambda>u.
       ret (fst u, Some (insert_after_leading_system_messages (case snd u of Some ms \<Rightarrow> ms | None \<Rightarrow> messages st) (text_system policy))))"

section \<open>What the source of frames keeps\<close>

definition frames_size :: "(string, vision_frame) dict \<Rightarrow> int" where
  "frames_size fs = sum_list (map (\<lambda>x. frame_size (snd x)) fs)"

definition fits :: "int \<Rightarrow> int \<Rightarrow> (string, vision_frame) dict \<Rightarrow> bool" where
  "fits mf mb fs \<longleftrightarrow> int (length fs) \<le> mf \<and> frames_size fs \<le> mb"

lemma frames_size_simps [simp]:
  "frames_size [] = 0" "frames_size (x # fs) = frame_size (snd x) + frames_size fs" "frames_size (fs @ gs) = frames_size fs + frames_size gs"
  by (simp_all add: frames_size_def)

lemma frame_size_nonneg [simp]: "0 \<le> frame_size f"
  by (simp add: frame_size_def)

lemma frames_size_nonneg [simp]: "0 \<le> frames_size fs"
  by (induction fs) simp_all

lemma frames_size_del:
  "wf_dict fs \<Longrightarrow> frames_size (dict_del r fs) = frames_size fs - (case dict_get fs r of None \<Rightarrow> 0 | Some f \<Rightarrow> frame_size f)"
proof (induction fs)
  case Nil
  then show ?case by simp
next
  case (Cons x fs)
  obtain q f where x: "x = (q, f)" by (cases x)
  with Cons.prems have wf: "wf_dict fs" "dict_get fs q = None" by (auto simp: wf_dict_def map_of_eq_None_iff)
  have "dict_del r fs = fs" if "r = q" using wf(2) that by (simp add: map_of_eq_None_iff delete_id)
  then show ?case using Cons.IH [OF wf(1)] by (auto simp: x split: option.splits)
qed

lemma evict_keeps_last:
  assumes "1 \<le> mf" and "frame_size f \<le> mb"
  shows "\<exists>k \<le> length fs. evict mf mb (frames_size (fs @ [(r, f)])) (fs @ [(r, f)]) = (Inr (), frames_size (drop k fs @ [(r, f)]), drop k fs @ [(r, f)]) \<and>
     fits mf mb (drop k fs @ [(r, f)]) \<and> (\<forall>j < k. \<not> fits mf mb (drop j fs @ [(r, f)]))"
proof (induction fs)
  case Nil
  then show ?case using assms by (simp add: fits_def)
next
  case (Cons x fs)
  show ?case
  proof (cases "fits mf mb ((x # fs) @ [(r, f)])")
    case True
    then show ?thesis by (intro exI [of _ 0]) (simp add: fits_def)
  next
    case False
    from Cons.IH obtain k where k: "k \<le> length fs"
      "evict mf mb (frames_size (fs @ [(r, f)])) (fs @ [(r, f)]) = (Inr (), frames_size (drop k fs @ [(r, f)]), drop k fs @ [(r, f)])"
      "fits mf mb (drop k fs @ [(r, f)])" "\<forall>j < k. \<not> fits mf mb (drop j fs @ [(r, f)])" by blast
    have "evict mf mb (frames_size ((x # fs) @ [(r, f)])) ((x # fs) @ [(r, f)]) = evict mf mb (frames_size (fs @ [(r, f)])) (fs @ [(r, f)])"
      using False by (auto simp: fits_def)
    moreover have "\<not> fits mf mb (drop j (x # fs) @ [(r, f)])" if "j < Suc k" for j
      using that False k(4) by (cases j) auto
    ultimately show ?thesis using k by (intro exI [of _ "Suc k"]) simp
  qed
qed

definition source_ok :: "vision_source \<Rightarrow> bool" where
  "source_ok vs \<longleftrightarrow> 1 \<le> max_frames vs \<and> wf_dict (frames vs) \<and> total_bytes vs = frames_size (frames vs) \<and>
     fits (max_frames vs) (max_total_bytes vs) (frames vs)"

text \<open>What a successful \<open>put_frame\<close> leaves: the frames used last, the new one at the end.\<close>

definition kept_after_put :: "string \<Rightarrow> vision_frame \<Rightarrow> vision_source \<Rightarrow> vision_source \<Rightarrow> bool" where
  "kept_after_put r f vs vs' \<longleftrightarrow>
     (\<exists>k \<le> length (dict_del r (frames vs)). frames vs' = drop k (dict_del r (frames vs)) @ [(r, f)] \<and>
        (\<forall>j < k. \<not> fits (max_frames vs) (max_total_bytes vs) (drop j (dict_del r (frames vs)) @ [(r, f)])))"

lemma wf_dict_drop_snoc: "wf_dict fs \<Longrightarrow> wf_dict (drop k (dict_del r fs) @ [(r, f)])"
proof -
  assume "wf_dict fs"
  then have "distinct (map fst (dict_del r fs))" using wf_dict_del [of fs r] by (simp add: wf_dict_def)
  then have "distinct (map fst (drop k (dict_del r fs)))" by (simp add: drop_map [symmetric])
  moreover have "r \<notin> fst ` set (drop k (dict_del r fs))"
  proof
    assume "r \<in> fst ` set (drop k (dict_del r fs))"
    then have "r \<in> fst ` set (dict_del r fs)" by (auto dest: in_set_dropD)
      then have "r \<in> set (map fst (dict_del r fs))" by simp
    then show False by (simp only: delete_keys) simp
  qed
  ultimately show ?thesis by (simp add: wf_dict_def)
qed

section \<open>Base64 is invertible\<close>

lemma alphabet: "length b64_alphabet = 64" "distinct b64_alphabet" "CHR ''='' \<notin> set b64_alphabet"
  by (simp_all add: b64_alphabet_def)

lemma b64_value_char [simp]: "n < 64 \<Longrightarrow> b64_value (b64_char n) = Some n"
  using map_of_zip_nth [of b64_alphabet "[0..<64]" n] by (simp add: b64_value_def b64_char_def alphabet)

lemma b64_value_pad [simp]: "b64_value CHR ''='' = None"
  using alphabet(3) map_of_zip_is_None [of b64_alphabet "[0..<64]"] by (simp add: b64_value_def alphabet)

lemma byte_of_less: "byte_of c < 256"
  by (simp add: byte_of_def)

lemma char_of_byte [simp]: "char_of (byte_of c) = c"
  by (simp add: byte_of_def)

lemma split_digits: "(y::nat) < n \<Longrightarrow> (m * n + y) div n = m" "(y::nat) < n \<Longrightarrow> (m * n + y) mod n = y"
  by simp_all

lemma sextets_bytes:
  "sextets (byte_of a div 4) (byte_of a mod 4 * 16 + byte_of b div 16) (byte_of b mod 16 * 4 + byte_of c div 64) (byte_of c mod 64) = [a, b, c]"
proof -
  have "byte_of b div 16 < 16" "byte_of c div 64 < 4" using byte_of_less [of b] byte_of_less [of c] by linarith+
  then show ?thesis by (simp add: sextets_def split_digits del: of_char_of mult.commute)
qed

lemma b64_groups_encode: "b64_groups seen (b64_encode s) = Some s"
proof (induction s arbitrary: seen rule: b64_encode.induct)
  case 1
  then show ?case by simp
next
  case (2 a)
  have "byte_of a div 4 < 64" "byte_of a mod 4 * 16 < 64" using byte_of_less [of a] by linarith+
  then show ?case by (simp add: sextets_def)
next
  case (3 a b)
  have "byte_of a div 4 < 64" "byte_of a mod 4 * 16 + byte_of b div 16 < 64" "byte_of b mod 16 * 4 < 64" "byte_of b div 16 < 16"
    using byte_of_less [of a] byte_of_less [of b] by linarith+
  then show ?case by (simp add: sextets_def split_digits)
next
  case (4 a b c r)
  have "byte_of a div 4 < 64" "byte_of a mod 4 * 16 + byte_of b div 16 < 64"
    "byte_of b mod 16 * 4 + byte_of c div 64 < 64" "byte_of c mod 64 < 64"
    using byte_of_less [of a] byte_of_less [of b] byte_of_less [of c] by linarith+
  then show ?case using 4 by (simp add: sextets_bytes)
qed

lemma b64_decode_encode [simp]: "b64_decode (b64_encode s) = Some s"
  by (simp add: b64_decode_def b64_groups_encode)

lemma length_b64_encode: "length (b64_encode s) = (length s + 2) div 3 * 4"
proof (induction s rule: b64_encode.induct)
  case (4 a b c r)
  have "(length r + 5) div 3 = Suc ((length r + 2) div 3)" by presburger
  with 4 show ?case by (simp add: add.commute)
qed simp_all

lemma b64_encode_chars: "c \<in> set (b64_encode s) \<Longrightarrow> c = CHR ''='' \<or> c \<in> set b64_alphabet"
proof (induction s rule: b64_encode.induct)
  case (4 a b c r)
  have "byte_of a div 4 < 64" "byte_of a mod 4 * 16 + byte_of b div 16 < 64"
    "byte_of b mod 16 * 4 + byte_of c div 64 < 64" "byte_of c mod 64 < 64"
    using byte_of_less [of a] byte_of_less [of b] byte_of_less [of c] by linarith+
  with 4 show ?case by (auto simp: b64_char_def alphabet)
next
  case (3 a b)
  have "byte_of a div 4 < 64" "byte_of a mod 4 * 16 + byte_of b div 16 < 64" "byte_of b mod 16 * 4 < 64"
    using byte_of_less [of a] byte_of_less [of b] by linarith+
  with 3 show ?case by (auto simp: b64_char_def alphabet)
next
  case (2 a)
  have "byte_of a div 4 < 64" "byte_of a mod 4 * 16 < 64" using byte_of_less [of a] by linarith+
  with 2 show ?case by (auto simp: b64_char_def alphabet)
qed simp

section \<open>The source keeps the frames used last\<close>

lemma encoded_Inr: "encoded r = Inr (b64, t) \<longleftrightarrow> (\<exists>s. r = Inr (s, t) \<and> b64 = b64_encode s)"
  by (cases r) (auto simp: encoded_def)

lemma normalized_is_encoded:
  assumes "normalize_image cd fs img mt ap root_dir = Inr (b64, t)"
  obtains s where "b64 = b64_encode s" "b64_decode b64 = Some s"
  using assms unfolding normalize_image_def encoded_Inr by auto

lemma put_frame_ok:
  assumes "source_ok vs" and "validate_ref image_ref = Inr r" and "normalize_image cd fs img mt False None = Inr (b64, t)"
    and "b64_decode b64 = Some raw" and "int (length raw) \<le> max_total_bytes vs"
  obtains k where "k \<le> length (dict_del r (frames vs))"
    "put_frame cd fs image_ref img mt vs =
       (Inr (), vs\<lparr>total_bytes := frames_size (drop k (dict_del r (frames vs)) @ [(r, \<lparr>frame_bytes = raw, frame_media_type = t\<rparr>)]),
                frames := drop k (dict_del r (frames vs)) @ [(r, \<lparr>frame_bytes = raw, frame_media_type = t\<rparr>)]\<rparr>)"
    "fits (max_frames vs) (max_total_bytes vs) (drop k (dict_del r (frames vs)) @ [(r, \<lparr>frame_bytes = raw, frame_media_type = t\<rparr>)])"
    "\<forall>j < k. \<not> fits (max_frames vs) (max_total_bytes vs) (drop j (dict_del r (frames vs)) @ [(r, \<lparr>frame_bytes = raw, frame_media_type = t\<rparr>)])"
proof -
  let ?f = "\<lparr>frame_bytes = raw, frame_media_type = t\<rparr>" and ?fs = "dict_del r (frames vs)"
  have "frame_size ?f \<le> max_total_bytes vs" "1 \<le> max_frames vs" using assms(1,5) by (simp_all add: frame_size_def source_ok_def)
  from evict_keeps_last [OF this(2,1), of ?fs r] obtain k where k: "k \<le> length ?fs"
    "evict (max_frames vs) (max_total_bytes vs) (frames_size (?fs @ [(r, ?f)])) (?fs @ [(r, ?f)]) =
       (Inr (), frames_size (drop k ?fs @ [(r, ?f)]), drop k ?fs @ [(r, ?f)])"
    "fits (max_frames vs) (max_total_bytes vs) (drop k ?fs @ [(r, ?f)])"
    "\<forall>j < k. \<not> fits (max_frames vs) (max_total_bytes vs) (drop j ?fs @ [(r, ?f)])" by blast
  have sz: "total_bytes vs - (case dict_get (frames vs) r of None \<Rightarrow> 0 | Some g \<Rightarrow> frame_size g) + frame_size ?f = frames_size (?fs @ [(r, ?f)])"
    using assms(1) by (simp add: source_ok_def frames_size_del)
  have "put_frame cd fs image_ref img mt vs =
      (Inr (), vs\<lparr>total_bytes := frames_size (drop k ?fs @ [(r, ?f)]), frames := drop k ?fs @ [(r, ?f)]\<rparr>)"
    unfolding put_frame_def assms(2,3,4) Let_def sum.case prod.case option.case sz k(2) using assms(5) by simp
  with k that show thesis by blast
qed

lemma put_frame_outcomes:
  assumes "source_ok vs" and "put_frame cd fs image_ref img mt vs = (out, vs')"
  shows "(out \<noteq> Inr () \<and> vs' = vs) \<or>
     (out = Inr () \<and> source_ok vs' \<and> max_frames vs' = max_frames vs \<and> max_total_bytes vs' = max_total_bytes vs \<and>
      (\<exists>r f. validate_ref image_ref = Inr r \<and> normalize_image cd fs img mt False None = Inr (b64_encode (frame_bytes f), frame_media_type f) \<and>
         kept_after_put r f vs vs'))"
proof (cases "\<exists>r b64 t raw. validate_ref image_ref = Inr r \<and> normalize_image cd fs img mt False None = Inr (b64, t) \<and>
    b64_decode b64 = Some raw \<and> int (length raw) \<le> max_total_bytes vs")
  case False
  then show ?thesis
    using assms(2) unfolding put_frame_def
    by (cases "validate_ref image_ref"; cases "normalize_image cd fs img mt False None") (auto split: option.splits if_splits)
next
  case True
  then obtain r b64 t raw where ok: "validate_ref image_ref = Inr r" "normalize_image cd fs img mt False None = Inr (b64, t)"
    "b64_decode b64 = Some raw" "int (length raw) \<le> max_total_bytes vs" by blast
  from normalized_is_encoded [OF ok(2)] ok(3) have enc: "b64 = b64_encode raw" by (metis option.inject)
  let ?f = "\<lparr>frame_bytes = raw, frame_media_type = t\<rparr>"
  from put_frame_ok [OF assms(1) ok] obtain k where k: "k \<le> length (dict_del r (frames vs))"
    "put_frame cd fs image_ref img mt vs =
       (Inr (), vs\<lparr>total_bytes := frames_size (drop k (dict_del r (frames vs)) @ [(r, ?f)]), frames := drop k (dict_del r (frames vs)) @ [(r, ?f)]\<rparr>)"
    "fits (max_frames vs) (max_total_bytes vs) (drop k (dict_del r (frames vs)) @ [(r, ?f)])"
    "\<forall>j < k. \<not> fits (max_frames vs) (max_total_bytes vs) (drop j (dict_del r (frames vs)) @ [(r, ?f)])" by blast
  have out: "out = Inr ()" "vs' = vs\<lparr>total_bytes := frames_size (drop k (dict_del r (frames vs)) @ [(r, ?f)]), frames := drop k (dict_del r (frames vs)) @ [(r, ?f)]\<rparr>"
    using assms(2) k(2) by auto
  have "source_ok vs'"
    using assms(1) k(3) wf_dict_drop_snoc [of "frames vs" k r ?f] by (simp add: source_ok_def out)
  moreover have "kept_after_put r ?f vs vs'" using k(1,4) by (auto simp: kept_after_put_def out)
  moreover have "normalize_image cd fs img mt False None = Inr (b64_encode (frame_bytes ?f), frame_media_type ?f)" using ok(2) enc by simp
  ultimately have "\<exists>r f. validate_ref image_ref = Inr r \<and> normalize_image cd fs img mt False None = Inr (b64_encode (frame_bytes f), frame_media_type f) \<and>
      kept_after_put r f vs vs'" using ok(1) by blast
  with \<open>source_ok vs'\<close> out show ?thesis by simp
qed

lemma length_del: "wf_dict fs \<Longrightarrow> dict_get fs r = Some f \<Longrightarrow> Suc (length (dict_del r fs)) = length fs"
proof (induction fs)
  case Nil
  then show ?case by simp
next
  case (Cons x fs)
  obtain q g where x: "x = (q, g)" by (cases x)
  with Cons.prems have wf: "wf_dict fs" "dict_get fs q = None" by (auto simp: wf_dict_def map_of_eq_None_iff)
  have "dict_del r fs = fs" if "r = q" using wf(2) that by (simp add: map_of_eq_None_iff delete_id)
  then show ?case using Cons.IH [OF wf(1)] Cons.prems by (auto simp: x split: if_splits)
qed

lemma get_frame_ok:
  assumes "source_ok vs"
  shows "source_ok (snd (get_frame image_ref vs)) \<and> max_frames (snd (get_frame image_ref vs)) = max_frames vs \<and>
     max_total_bytes (snd (get_frame image_ref vs)) = max_total_bytes vs"
proof (cases "\<exists>r f. validate_ref image_ref = Inr r \<and> dict_get (frames vs) r = Some f")
  case False
  then show ?thesis using assms by (auto simp: get_frame_def split: sum.splits option.splits)
next
  case True
  then obtain r f where rf: "validate_ref image_ref = Inr r" "dict_get (frames vs) r = Some f" by blast
  have wf: "wf_dict (frames vs)" using assms by (simp add: source_ok_def)
  have "snd (get_frame image_ref vs) = vs\<lparr>frames := dict_del r (frames vs) @ [(r, f)]\<rparr>" by (simp add: get_frame_def rf)
  then show ?thesis
    using assms wf_dict_drop_snoc [OF wf, of 0 r f] length_del [OF wf rf(2)] frames_size_del [OF wf, of r]
    by (simp add: source_ok_def fits_def rf(2))
qed

text \<open>What can happen to a source of frames.\<close>

datatype frame_op = PutFrame string image_input "string option" | GetFrame string

fun run_frame_op :: "codec \<Rightarrow> file_system \<Rightarrow> frame_op \<Rightarrow> vision_source \<Rightarrow> vision_source" where
  "run_frame_op cd fs (PutFrame r img mt) vs = snd (put_frame cd fs r img mt vs)"
| "run_frame_op cd fs (GetFrame r) vs = snd (get_frame r vs)"

lemma run_frame_op_ok:
  assumes "source_ok vs"
  shows "source_ok (run_frame_op cd fs oper vs) \<and> max_frames (run_frame_op cd fs oper vs) = max_frames vs \<and>
     max_total_bytes (run_frame_op cd fs oper vs) = max_total_bytes vs"
proof (cases oper)
  case (PutFrame r img mt)
  from put_frame_outcomes [OF assms, of cd fs r img mt] assms show ?thesis
    unfolding PutFrame run_frame_op.simps by (cases "put_frame cd fs r img mt vs") auto
next
  case (GetFrame r)
  then show ?thesis using get_frame_ok [OF assms] by simp
qed

lemma run_frame_ops_ok:
  "source_ok vs \<Longrightarrow> source_ok (fold (run_frame_op cd fs) ops vs) \<and> max_frames (fold (run_frame_op cd fs) ops vs) = max_frames vs \<and>
     max_total_bytes (fold (run_frame_op cd fs) ops vs) = max_total_bytes vs"
proof (induction ops arbitrary: vs)
  case Nil
  then show ?case by simp
next
  case (Cons oper ops)
  with run_frame_op_ok [of vs cd fs oper] show ?case by simp
qed

text \<open>C18. The source of frames is bounded and keeps the frames used last: after any puts and gets, failed
  ones included, its frames stay within both limits and its byte count is exact; a failed put
  changes nothing; a successful put drops frames from the one unused longest, no more than the
  limits need, and the frame just put is what its reference then gives, checked and normalised.\<close>

theorem frames_bounded_and_recent:
  assumes "make_source mf mb = Inr vs0" and "vs = fold (run_frame_op cd fs) ops vs0" and "put_frame cd fs image_ref img mt vs = (out, vs')"
  shows "int (length (frames vs)) \<le> mf \<and> total_bytes vs = frames_size (frames vs) \<and> total_bytes vs \<le> mb \<and> distinct (map fst (frames vs)) \<and>
     (case out of
        Inl e \<Rightarrow> vs' = vs
      | Inr _ \<Rightarrow> (\<exists>r f. validate_ref image_ref = Inr r \<and> kept_after_put r f vs vs' \<and> fst (get_frame image_ref vs') = Inr f \<and>
          normalize_image cd fs img mt False None = Inr (b64_encode (frame_bytes f), frame_media_type f)))"
proof -
  have "source_ok vs0" "max_frames vs0 = mf" "max_total_bytes vs0 = mb"
    using assms(1) by (auto simp: make_source_def source_ok_def fits_def split: if_splits)
  with run_frame_ops_ok [of vs0 cd fs ops] assms(2) have ok: "source_ok vs" "max_frames vs = mf" "max_total_bytes vs = mb" by auto
  have "fst (get_frame image_ref vs') = Inr f" if "validate_ref image_ref = Inr r" "kept_after_put r f vs vs'" for r f
  proof -
    from that(2) obtain k where k: "frames vs' = drop k (dict_del r (frames vs)) @ [(r, f)]" by (auto simp: kept_after_put_def)
    have "wf_dict (frames vs')" using wf_dict_drop_snoc [of "frames vs" k r f] ok(1) by (simp add: k source_ok_def)
    then have "r \<notin> set (map fst (drop k (dict_del r (frames vs))))" by (simp add: k wf_dict_def)
    then have "dict_get (drop k (dict_del r (frames vs))) r = None" by (simp add: map_of_eq_None_iff)
    then have "dict_get (frames vs') r = Some f" by (simp add: k map_add_def)
    then show ?thesis by (simp add: get_frame_def that(1))
  qed
  then show ?thesis
    using put_frame_outcomes [OF ok(1) assms(3)] ok by (auto simp: source_ok_def fits_def wf_dict_def split: sum.splits)
qed

section \<open>Resizing stays in bounds and settles\<close>

lemma round_half_even_int [simp]: "round_half_even (of_int n) = n"
  by (simp add: round_half_even_def)

lemma round_half_even_mono: "q \<le> q' \<Longrightarrow> round_half_even q \<le> round_half_even q'"
proof -
  assume le: "q \<le> q'"
  have f: "\<lfloor>q\<rfloor> \<le> \<lfloor>q'\<rfloor>" using le by (rule floor_mono)
  show ?thesis
  proof (cases "\<lfloor>q\<rfloor> = \<lfloor>q'\<rfloor>")
    case True
    then show ?thesis using le by (auto simp: round_half_even_def Let_def)
  next
    case False
    with f have "\<lfloor>q\<rfloor> + 1 \<le> \<lfloor>q'\<rfloor>" by simp
    moreover have "round_half_even q \<le> \<lfloor>q\<rfloor> + 1" "\<lfloor>q'\<rfloor> \<le> round_half_even q'" by (auto simp: round_half_even_def Let_def)
    ultimately show ?thesis by simp
  qed
qed

lemma round_le: "q \<le> of_int n \<Longrightarrow> round_half_even q \<le> n"
  using round_half_even_mono [of q "of_int n"] by simp

lemma size_scale_bounds:
  assumes "1 \<le> w" and "1 \<le> h"
  shows "of_int w * size_scale w h \<le> of_int (min w (fst (size_bounds w h)))" and "of_int h * size_scale w h \<le> of_int (min h (snd (size_bounds w h)))"
    and "0 < size_scale w h" and "w \<le> fst (size_bounds w h) \<and> h \<le> snd (size_bounds w h) \<Longrightarrow> size_scale w h = 1"
proof -
  obtain bw bh where b: "size_bounds w h = (bw, bh)" "1 \<le> bw" "1 \<le> bh"
    by (cases "h \<le> w") (auto simp: size_bounds_def)
  have s: "size_scale w h \<le> of_int bw / of_int w" "size_scale w h \<le> of_int bh / of_int h" "size_scale w h \<le> 1"
    by (auto simp: size_scale_def b)
  have pos: "0 < (of_int w :: rat)" "0 < (of_int h :: rat)" using assms by simp_all
  have "of_int w * size_scale w h \<le> of_int bw" "of_int h * size_scale w h \<le> of_int bh"
    using s(1,2) pos by (simp_all add: pos_le_divide_eq mult.commute)
  moreover have "of_int w * size_scale w h \<le> of_int w" "of_int h * size_scale w h \<le> of_int h"
    using s(3) pos by (simp_all add: mult_le_cancel_left2)
  ultimately show "of_int w * size_scale w h \<le> of_int (min w (fst (size_bounds w h)))"
    "of_int h * size_scale w h \<le> of_int (min h (snd (size_bounds w h)))" by (simp_all add: b min_def)
  show "0 < size_scale w h" using pos b by (simp add: size_scale_def)
  show "size_scale w h = 1" if "w \<le> fst (size_bounds w h) \<and> h \<le> snd (size_bounds w h)"
    using that pos by (simp add: size_scale_def b min_def)
qed

lemma target_size_within:
  assumes "1 \<le> w" and "1 \<le> h" and "target_size w h = (a, b)"
  shows "1 \<le> a \<and> a \<le> min w (fst (size_bounds w h)) \<and> 1 \<le> b \<and> b \<le> min h (snd (size_bounds w h))"
proof -
  have "1 \<le> fst (size_bounds w h)" "1 \<le> snd (size_bounds w h)" by (simp_all add: size_bounds_def)
  then show ?thesis
    using assms round_le [OF size_scale_bounds(1) [OF assms(1,2)]] round_le [OF size_scale_bounds(2) [OF assms(1,2)]]
    by (auto simp: target_size_def)
qed

lemma target_size_fits:
  "1 \<le> w \<Longrightarrow> 1 \<le> h \<Longrightarrow> w \<le> fst (size_bounds w h) \<Longrightarrow> h \<le> snd (size_bounds w h) \<Longrightarrow> target_size w h = (w, h)"
  by (simp add: target_size_def size_scale_bounds(4))

text \<open>Downsampling is bounded and settles: the target of any image is at least one pixel in each
  direction, never larger than the image, within 1280 by 720 in the direction of the image, the image's
  own size exactly when that is within the bounds, and a fixed point: an image of the target size is
  not resized again.\<close>

theorem target_size_bounded_and_stable:
  assumes "1 \<le> w" and "1 \<le> h" and "target_size w h = (a, b)"
  shows "1 \<le> a \<and> a \<le> w \<and> 1 \<le> b \<and> b \<le> h \<and> a \<le> (if h \<le> w then 1280 else 720) \<and> b \<le> (if h \<le> w then 720 else 1280) \<and>
     ((a, b) = (w, h) \<longleftrightarrow> w \<le> fst (size_bounds w h) \<and> h \<le> snd (size_bounds w h)) \<and> target_size a b = (a, b)"
proof -
  note t = target_size_within [OF assms]
  have eq: "(a, b) = (w, h) \<longleftrightarrow> w \<le> fst (size_bounds w h) \<and> h \<le> snd (size_bounds w h)"
    using t target_size_fits [OF assms(1,2)] assms(3) by auto
  have pos: "0 < size_scale w h" by (rule size_scale_bounds(3) [OF assms(1,2)])
  have "h \<le> w \<Longrightarrow> b \<le> a" "w \<le> h \<Longrightarrow> a \<le> b"
    using assms(3) pos by (auto simp: target_size_def intro!: max.mono round_half_even_mono)
  then have "a \<le> fst (size_bounds a b) \<and> b \<le> snd (size_bounds a b)"
    using t by (auto simp: size_bounds_def split: if_splits)
  then have "target_size a b = (a, b)" using t by (intro target_size_fits) auto
  with t eq show ?thesis by (auto simp: size_bounds_def split: if_splits)
qed

theorem target_size_bounded_and_stable_witness:
  "target_size 2560 720 = (1280, 360) \<and> target_size 1280 360 = (1280, 360)"
proof -
  have t: "target_size 2560 720 = (1280, 360)"
    by (simp add: target_size_def size_scale_def size_bounds_def round_half_even_def)
  from target_size_bounded_and_stable [OF _ _ t] t show ?thesis by simp
qed

section \<open>Paths are confined\<close>

text \<open>Two file systems that agree on the paths under a directory.\<close>

definition agree_under :: "file_system \<Rightarrow> file_system \<Rightarrow> string list \<Rightarrow> bool" where
  "agree_under fs fs' base \<longleftrightarrow>
     (\<forall>p. take (length base) p = base \<longrightarrow> fs_is_file fs' p = fs_is_file fs p \<and> fs_size fs' p = fs_size fs p \<and> fs_read fs' p = fs_read fs p)"

lemma read_restricted_agrees:
  assumes "fs_resolve fs' = fs_resolve fs" and "fs_expanded fs' = fs_expanded fs"
    and "\<And>base. fs_resolve fs d = Inr base \<Longrightarrow> agree_under fs fs' base"
  shows "read_restricted_path fs' t d = read_restricted_path fs t d"
proof (cases "fs_resolve fs d")
  case (Inl e)
  then show ?thesis using assms(1) by (simp add: read_restricted_path_def)
next
  case (Inr base)
  show ?thesis
  proof (cases "fs_expanded fs t")
    case (Inl e)
    then show ?thesis using assms(1,2) Inr by (simp add: read_restricted_path_def)
  next
    case (Inr p)
    have "agree_under fs fs' base" by (rule assms(3) [OF \<open>fs_resolve fs d = Inr base\<close>])
    then have same: "fs_is_file fs' p = fs_is_file fs p" "fs_size fs' p = fs_size fs p" "fs_read fs' p = fs_read fs p"
      if "take (length base) p = base" using that by (simp_all add: agree_under_def)
    show ?thesis
    proof (cases "take (length base) p = base")
      case False
      then show ?thesis using Inr \<open>fs_resolve fs d = Inr base\<close> by (simp add: read_restricted_path_def assms(1,2))
    next
      case True
      show ?thesis unfolding read_restricted_path_def assms(1,2) Inr \<open>fs_resolve fs d = Inr base\<close> sum.case same [OF True] ..
    qed
  qed
qed

text \<open>C31. Image input reads no other file: what a normalisation gives depends on no file outside the
  allowed directory, links followed, and with paths disabled on no file at all.\<close>

theorem image_input_confined:
  assumes "allow_path \<longrightarrow> fs_resolve fs' = fs_resolve fs \<and> fs_expanded fs' = fs_expanded fs \<and>
     (\<forall>d base. allowed_root = Some d \<and> fs_resolve fs d = Inr base \<longrightarrow> agree_under fs fs' base)"
  shows "normalize_image cd fs' img mt allow_path allowed_root = normalize_image cd fs img mt allow_path allowed_root"
proof (cases "allow_path")
  case False
  then show ?thesis by (cases img) (simp_all add: normalize_image_def Let_def)
next
  case True
  have same: "read_allowed fs' allowed_root t = read_allowed fs allowed_root t" for t
    using assms True by (auto simp: read_allowed_def read_restricted_agrees split: option.splits)
  show ?thesis unfolding normalize_image_def same ..
qed

definition demo_codec :: codec where
  "demo_codec = \<lparr>codec_open = (\<lambda>s. Inr (64, 48)), codec_turned = (\<lambda>s. Inr False), codec_save = (\<lambda>s sz a b. Inr s)\<rparr>"

definition demo_files :: "bool \<Rightarrow> file_system" where
  "demo_files secret = \<lparr>fs_resolve = (\<lambda>t. Inr [''srv'']), fs_expanded = (\<lambda>t. Inr [''etc'', t]), fs_is_file = (\<lambda>p. True),
     fs_size = (\<lambda>p. Inr 3), fs_read = (\<lambda>p. Inr (if secret \<and> take 1 p = [''etc''] then [CHR 0xFF, CHR 0xD8, CHR 0xFF] else ''abc''))\<rparr>"

theorem image_input_confined_witness:
  "normalize_image demo_codec (demo_files True) (ImageText ''x'') None True (Some ''srv'') =
   normalize_image demo_codec (demo_files False) (ImageText ''x'') None True (Some ''srv'') \<and>
   fs_read (demo_files True) [''etc'', ''x''] \<noteq> fs_read (demo_files False) [''etc'', ''x'']"
proof -
  have "take 1 p \<noteq> [''etc'']" if "take (length [''srv'']) p = [''srv'']" for p :: "string list"
    using that by (cases p) auto
  then have "True \<longrightarrow> fs_resolve (demo_files True) = fs_resolve (demo_files False) \<and> fs_expanded (demo_files True) = fs_expanded (demo_files False) \<and>
     (\<forall>d base. Some ''srv'' = Some d \<and> fs_resolve (demo_files False) d = Inr base \<longrightarrow> agree_under (demo_files False) (demo_files True) base)"
    by (auto simp: demo_files_def agree_under_def)
  from image_input_confined [OF this] show ?thesis by (simp add: demo_files_def)
qed

section \<open>Data URLs\<close>

lemma sniffed_supported: "sniff_media_type s = Some t \<Longrightarrow> t \<in> set supported_media_types \<and> s \<noteq> []"
  by (auto simp: sniff_media_type_def begins_def supported_media_types_def split: if_splits)

lemma optimized_supported:
  "optimize_for_vlm cd s mt = Inr (out, t) \<Longrightarrow> mt \<in> set supported_media_types \<Longrightarrow> t \<in> set supported_media_types"
  by (auto simp: optimize_for_vlm_def saved_type_def supported_media_types_def Let_def split: sum.splits prod.splits if_splits)

lemma validated:
  assumes "validate_bytes cd s declared = Inr (out, t)"
  shows "length out \<le> max_image_bytes \<and> t \<in> set supported_media_types"
  using assms sniffed_supported [of s] optimized_supported [of cd s]
  by (auto simp: validate_bytes_def split: if_splits option.splits sum.splits)

lemma decoded_is_validated: "decode_base64 cd s mt = Inr r \<Longrightarrow> \<exists>raw d. validate_bytes cd raw d = Inr r"
  by (auto simp: decode_base64_def Let_def split: if_splits option.splits)

lemma normalized_validated:
  assumes "normalize_image cd fs img mt ap d = Inr (b64, t)"
  shows "\<exists>raw dec out. b64 = b64_encode out \<and> validate_bytes cd raw dec = Inr (out, t)"
  using assms unfolding normalize_image_def encoded_Inr
  by (auto simp: Let_def dest!: decoded_is_validated split: image_input.splits if_splits sum.splits) blast+

lemma validate_supported: "t \<in> set supported_media_types \<Longrightarrow> validate_media_type (Some t) = Inr (Some t)"
  by (auto simp: validate_media_type_def supported_media_types_def strip_def lstrip_def rstrip_def is_space_def lower_char_def)

lemma parse_url:
  assumes "t \<in> set supported_media_types"
  shows "parse_data_url (''data:'' @ t @ '';base64,'' @ s) = Inr (Some t, s)"
  using assms validate_supported [OF assms]
  by (auto simp: supported_media_types_def parse_data_url_def begins_def partition_at_def lower_char_def strip_def lstrip_def rstrip_def is_space_def)

lemma encoded_chars_plain:
  assumes "c \<in> set (b64_encode s)"
  shows "c \<notin> {CHR 0x09, CHR 0x0A, CHR 0x0D, CHR '' ''}" and "\<not> is_space c"
proof -
  have "list_all (\<lambda>c. c \<notin> {CHR 0x09, CHR 0x0A, CHR 0x0D, CHR '' ''} \<and> \<not> is_space c) (CHR ''='' # b64_alphabet)"
    by (simp add: b64_alphabet_def is_space_def)
  then show "c \<notin> {CHR 0x09, CHR 0x0A, CHR 0x0D, CHR '' ''}" "\<not> is_space c"
    using b64_encode_chars [OF assms] by (auto simp: list_all_iff)
qed

lemma b64_encode_Nil [simp]: "b64_encode s = [] \<longleftrightarrow> s = []"
  using length_b64_encode [of s] by (cases s) auto

lemma decode_encoded:
  assumes "s \<noteq> []" and "length s \<le> max_image_bytes"
  shows "decode_base64 cd (b64_encode s) mt = validate_bytes cd s mt"
proof -
  have "length (b64_encode s) \<le> max_base64_chars"
  proof -
    have "(length s + 2) div 3 \<le> (max_source_image_bytes + 2) div 3"
      using assms(2) by (intro div_le_mono) (simp add: max_image_bytes_def max_source_image_bytes_def)
    then show ?thesis by (simp add: length_b64_encode max_base64_chars_def)
  qed
  moreover have "filter (\<lambda>c. c \<notin> {CHR 0x09, CHR 0x0A, CHR 0x0D, CHR '' ''}) (b64_encode s) = b64_encode s"
    by (rule filter_True) (use encoded_chars_plain(1) in blast)
  ultimately show ?thesis using assms(1) by (simp add: decode_base64_def max_base64_input_chars_def Let_def)
qed

text \<open>A normalised image survives as a data URL: whatever the image came from, its base64 text and media
  type put into a data URL normalise to the same pair, with the type declared or not and without
  access to files, as long as the codec leaves the image as it is and its bytes are of that type.\<close>

theorem data_url_roundtrip:
  assumes "normalize_image cd fs img mt allow_path allowed_root = Inr (b64, t)" and "b64_decode b64 = Some s"
    and "optimize_for_vlm cd s t = Inr (s, t)" and "sniff_media_type s = Some t"
  shows "\<exists>url. to_data_url b64 t = Inr url \<and>
     (\<forall>mt' \<in> {None, Some t}. normalize_image cd fs' (ImageText url) mt' False None = Inr (b64, t))"
proof -
  obtain raw dec where "b64 = b64_encode s" and v: "validate_bytes cd raw dec = Inr (s, t)"
    using normalized_validated [OF assms(1)] assms(2) by auto
  note b = \<open>b64 = b64_encode s\<close>
  note l = validated [OF v] and ne = sniffed_supported [OF assms(4)]
  have val: "validate_bytes cd s (Some t) = Inr (s, t)"
    using l ne assms(3,4) validate_supported [of t] by (simp add: validate_bytes_def max_image_bytes_def max_source_image_bytes_def)
  let ?url = "''data:'' @ t @ '';base64,'' @ b64"
  have url: "to_data_url b64 t = Inr ?url" using validate_supported [of t] l by (simp add: to_data_url_def)
  have "strip ?url = ?url"
    using ne encoded_chars_plain(2) [of "last b64" s] by (intro strip_unchanged) (auto simp: b is_space_def)
  moreover have "begins ''data:'' (map lower_char ?url)" by (simp add: begins_def lower_char_def)
  ultimately have "normalize_image cd fs' (ImageText ?url) mt' False None = Inr (b64, t)" if "mt' \<in> {None, Some t}" for mt'
    using that parse_url [of t b64] validate_supported [of t] decode_encoded [of s cd "Some t"] l ne val
    by (auto simp: normalize_image_def b encoded_def Let_def simp del: append.simps)
  with url show ?thesis by blast
qed

definition demo_jpeg :: string where
  "demo_jpeg = [CHR 0xFF, CHR 0xD8, CHR 0xFF]"

lemma demo_jpeg_ok:
  "sniff_media_type demo_jpeg = Some ''image/jpeg''" "optimize_for_vlm demo_codec demo_jpeg ''image/jpeg'' = Inr (demo_jpeg, ''image/jpeg'')"
  "normalize_image demo_codec fs (ImageBytes demo_jpeg) None False None = Inr (b64_encode demo_jpeg, ''image/jpeg'')"
proof -
  show s: "sniff_media_type demo_jpeg = Some ''image/jpeg''" by (simp add: sniff_media_type_def begins_def demo_jpeg_def)
  show o: "optimize_for_vlm demo_codec demo_jpeg ''image/jpeg'' = Inr (demo_jpeg, ''image/jpeg'')"
    by (simp add: optimize_for_vlm_def demo_codec_def demo_jpeg_def target_size_fits size_bounds_def max_source_pixels_def reencode_threshold_bytes_def)
  have "demo_jpeg \<noteq> []" "length demo_jpeg = 3" by (simp_all add: demo_jpeg_def)
  with s o show "normalize_image demo_codec fs (ImageBytes demo_jpeg) None False None = Inr (b64_encode demo_jpeg, ''image/jpeg'')"
    by (simp add: normalize_image_def encoded_def validate_bytes_def validate_media_type_def max_source_image_bytes_def max_image_bytes_def)
qed

theorem data_url_roundtrip_witness:
  "\<exists>url. to_data_url (b64_encode demo_jpeg) ''image/jpeg'' = Inr url \<and>
     normalize_image demo_codec (demo_files False) (ImageText url) None False None = Inr (b64_encode demo_jpeg, ''image/jpeg'')"
  using data_url_roundtrip [OF demo_jpeg_ok(3) b64_decode_encode demo_jpeg_ok(2,1), where fs' = "demo_files False"] by blast

theorem frames_bounded_and_recent_witness:
  "\<exists>vs'. put_frame demo_codec (demo_files False) ''cam'' (ImageBytes demo_jpeg) None \<lparr>max_frames = 1, max_total_bytes = 4, total_bytes = 0, frames = []\<rparr> = (Inr (), vs') \<and>
     fst (get_frame ''cam'' vs') = Inr \<lparr>frame_bytes = demo_jpeg, frame_media_type = ''image/jpeg''\<rparr>"
proof -
  let ?vs = "\<lparr>max_frames = 1, max_total_bytes = 4, total_bytes = 0, frames = []\<rparr>"
  have m: "make_source 1 4 = Inr ?vs" by (simp add: make_source_def)
  have r: "validate_ref ''cam'' = Inr ''cam''"
    by (simp add: validate_ref_def strip_def lstrip_def rstrip_def is_space_def byte_of_def)
  have run: "\<exists>vs'. put_frame demo_codec (demo_files False) ''cam'' (ImageBytes demo_jpeg) None ?vs = (Inr (), vs')"
    unfolding put_frame_def r demo_jpeg_ok(3) b64_decode_encode sum.case prod.case option.case by (simp add: demo_jpeg_def frame_size_def)
  then obtain vs' where vs': "put_frame demo_codec (demo_files False) ''cam'' (ImageBytes demo_jpeg) None ?vs = (Inr (), vs')" ..
  from frames_bounded_and_recent [OF m, where ops = "[]", unfolded fold_Nil id_apply, OF refl vs']
  obtain f where f: "fst (get_frame ''cam'' vs') = Inr f"
    "normalize_image demo_codec (demo_files False) (ImageBytes demo_jpeg) None False None = Inr (b64_encode (frame_bytes f), frame_media_type f)" by auto
  from f(2) have "b64_encode (frame_bytes f) = b64_encode demo_jpeg" "frame_media_type f = ''image/jpeg''" by (simp_all add: demo_jpeg_ok(3))
  then have "f = \<lparr>frame_bytes = demo_jpeg, frame_media_type = ''image/jpeg''\<rparr>"
    by (metis b64_decode_encode option.inject vision_frame.equality unit.exhaust vision_frame.surjective)
  with vs' f(1) show ?thesis by blast
qed

end
