(* ===== verification/Agent.thy ===== *)
theory Agent
  imports Vision Metacog
begin

text \<open>
  The assembly, \<open>robot_agent/graph.py\<close>: what \<open>build_robot_agent\<close> refuses, the tools it gives the agent,
  and the hook before the model: memory and identity, the vision trust boundary around it, the
  monitor outermost. The compiled graph is \<open>create_react_agent\<close>'s.
\<close>

section \<open>The parts\<close>

definition default_robot_id :: string where "default_robot_id = ''robot-1''"

text \<open>\<open>ga_model\<close> and \<open>ga_context_model\<close>: summaries by the decision model and by a model of their own;
  \<open>'v\<close> vision models, \<open>'c\<close> sources of frames.\<close>

record ('s, 'v, 'c) agent_parts =
  ga_robot_id :: string
  ga_effectors :: "registry option"
  ga_checkpointer :: bool
  ga_store :: "'s store_ops option"
  ga_kinds :: "string list"
  ga_safety :: "safety_policy option"
  ga_metacog :: "metacog_policy option"
  ga_vlm :: "'v option"
  ga_source :: "'c option"
  ga_model :: "nat \<Rightarrow> string \<Rightarrow> int \<Rightarrow> message result"
  ga_context_model :: "(nat \<Rightarrow> string \<Rightarrow> int \<Rightarrow> message result) option"
  ga_context_policy :: "context_policy option"
  ga_extra_tools :: "string list"

definition robot_tool_names :: "string list" where
  "robot_tool_names = [''move_to'', ''set_velocity'', ''grasp'', ''speak'', ''get_world_state'']"

definition memory_tool_names :: "string list" where
  "memory_tool_names = [''remember_fact'', ''recall'']"

definition vision_tool_names :: "string list" where
  "vision_tool_names = [''describe_image'']"

text \<open>The layers of the hook, from the inside.\<close>

record agent_hook_layers =
  layer_memory :: hook_config
  layer_vision :: bool
  layer_monitor :: "metacog_policy option"

record 's robot_agent =
  agent_tools :: "string list"
  agent_effectors :: registry
  agent_layers :: agent_hook_layers
  agent_checkpointer :: bool
  agent_store :: "'s store_ops option"

definition parts_refused :: "('s, 'v, 'c) agent_parts \<Rightarrow> bool" where
  "parts_refused p \<longleftrightarrow>
     (ga_vlm p = None) \<noteq> (ga_source p = None) \<or>
     (\<not> ga_checkpointer p \<and>
        (ga_safety p \<noteq> None \<or> (case ga_metacog p of None \<Rightarrow> False | Some m \<Rightarrow> on_breach m = escalate)))"

definition tools_of :: "('s, 'v, 'c) agent_parts \<Rightarrow> string list" where
  "tools_of p =
     robot_tool_names @ (if ga_store p \<noteq> None then memory_tool_names else []) @
     (if ga_vlm p \<noteq> None then vision_tool_names else []) @ ga_extra_tools p"

definition layers_of :: "context_policy \<Rightarrow> ('s, 'v, 'c) agent_parts \<Rightarrow> agent_hook_layers" where
  "layers_of fallback p =
     \<lparr>layer_memory = \<lparr>hk_kinds = ga_kinds p, hk_identity = True,
        hk_model = Some (case ga_context_model p of Some m \<Rightarrow> m | None \<Rightarrow> ga_model p),
        hk_policy = ga_context_policy p, hk_fallback = fallback\<rparr>,
      layer_vision = (ga_vlm p \<noteq> None), layer_monitor = ga_metacog p\<rparr>"

definition build_robot_agent :: "context_policy \<Rightarrow> ('s, 'v, 'c) agent_parts \<Rightarrow> 's robot_agent result" where
  "build_robot_agent fallback p =
     (case (case ga_effectors p of Some r \<Rightarrow> Inr r | None \<Rightarrow> build_effectors ''mock'' default_effector_names) of
        Inl e \<Rightarrow> Inl e
      | Inr effs \<Rightarrow>
          if parts_refused p then Inl ValueError
          else Inr \<lparr>agent_tools = tools_of p, agent_effectors = effs, agent_layers = layers_of fallback p,
                    agent_checkpointer = ga_checkpointer p, agent_store = ga_store p\<rparr>)"

section \<open>The hook before the model\<close>

type_synonym 's agent_world = "metacog \<times> scratchpad \<times> 's"

definition memory_layer ::
  "context_deps \<Rightarrow> memory_deps \<Rightarrow> string \<Rightarrow> hook_config \<Rightarrow> 's store_ops option \<Rightarrow> (context_update, 's) model_hook" where
  "memory_layer d md robot_id cfg store st =
     bind_proc (inject_memory d md cfg robot_id store st) (\<lambda>(u, out). ret (u, Some out))"

definition agent_hook ::
  "context_deps \<Rightarrow> memory_deps \<Rightarrow> metacog_texts \<Rightarrow> string \<Rightarrow> string \<Rightarrow> 's robot_agent \<Rightarrow> robot_state \<Rightarrow> 's agent_world
     \<Rightarrow> ((context_update \<times> message list option) outcome \<times> 's agent_world) option" where
  "agent_hook d md tx trust robot_id ag st w =
     (let inner = memory_layer d md robot_id (layer_memory (agent_layers ag)) (agent_store ag);
          seen = (if layer_vision (agent_layers ag) then vision_trust_hook trust inner else inner)
      in case layer_monitor (agent_layers ag) of
           None \<Rightarrow> call_inner seen st w
         | Some p \<Rightarrow> monitor_hook tx p seen st w)"

section \<open>What the built agent's model sees\<close>

lemma mset_insert_after: "mset (insert_after_leading_system_messages ms b) = add_mset b (mset ms)"
proof -
  have "mset ms = mset (take n ms) + mset (drop n ms)" for n by (metis append_take_drop_id mset_append)
  then show ?thesis by (simp add: insert_after_leading_system_messages_def Let_def)
qed

lemma first_after_insert:
  assumes "take 1 ms = [x]" and "is_system x"
  shows "take 1 (insert_after_leading_system_messages ms b) = [x]"
proof -
  obtain rest where "ms = x # rest" using assms(1) by (cases ms) auto
  with assms(2) show ?thesis by (simp add: insert_after_leading_system_messages_def leading_system_def Let_def)
qed

lemma tok_mset:
  assumes "additive d" and "mset xs = mset ys + mset zs"
  shows "tok d xs = tok d ys + tok d zs"
proof -
  have sum: "tok d xs = sum_mset (image_mset (\<lambda>m. tok d [m]) (mset xs))" for xs
  proof (induction xs)
    case Nil
    then show ?case using assms(1) by (simp add: additive_def)
  next
    case (Cons x xs)
    have "tok d ([x] @ xs) = tok d [x] + tok d xs" using assms(1) unfolding additive_def by blast
    with Cons show ?case by simp
  qed
  show ?thesis unfolding sum [of xs] sum [of ys] sum [of zs] assms(2) by simp
qed

text \<open>An input made of a bounded one and some blocks, with the identity in front.\<close>

definition grounded :: "context_deps \<Rightarrow> hook_config \<Rightarrow> string option \<Rightarrow> message list \<Rightarrow> message list \<Rightarrow> bool" where
  "grounded d cfg ident blocks out \<longleftrightarrow>
     (\<exists>base. mset out = mset base + mset blocks \<and> int (tok d base) \<le> hook_limit cfg) \<and>
     (case ident of None \<Rightarrow> True | Some t \<Rightarrow> take 1 out = [text_system t])"

lemma grounded_insert:
  assumes "grounded d cfg ident blocks out"
  shows "grounded d cfg ident (blocks @ [b]) (insert_after_leading_system_messages out b)"
proof -
  have "case ident of None \<Rightarrow> True | Some t \<Rightarrow> take 1 (insert_after_leading_system_messages out b) = [text_system t]"
    using assms first_after_insert [of out _ b] by (cases ident) (simp_all add: grounded_def text_system_def)
  with assms show ?thesis unfolding grounded_def mset_insert_after by auto
qed

lemma grounded_tok: "additive d \<Longrightarrow> grounded d cfg ident blocks out \<Longrightarrow> int (tok d out) \<le> hook_limit cfg + int (tok d blocks)"
  by (auto simp: grounded_def dest: tok_mset)

definition stored_identity :: "context_deps \<Rightarrow> memory_deps \<Rightarrow> 's store_ops option \<Rightarrow> string \<Rightarrow> 's \<Rightarrow> string option" where
  "stored_identity d md store robot_id s =
     (case store of
        None \<Rightarrow> None
      | Some ops \<Rightarrow> (case load_identity_text d md ops robot_id s of Some (Inr t, _) \<Rightarrow> t | _ \<Rightarrow> None))"

lemma memory_layer_grounded:
  assumes "additive d" and "memory_layer d md robot_id cfg store st s = Some (Inr (u, mo), s')" and "hk_identity cfg"
  shows "\<exists>out. mo = Some out \<and> grounded d cfg (stored_identity d md store robot_id s) [] out"
proof -
  from assms(2) obtain out where run: "inject_memory d md cfg robot_id store st s = Some (Inr (u, out), s')" and mo: "mo = Some out"
    by (auto simp: memory_layer_def elim!: bind_okE)
  from run obtain ident mem where a: "assemble d cfg st ident mem = Inr (u, out)"
    and i: "\<And>ops t s1. store = Some ops \<Longrightarrow> hk_identity cfg \<Longrightarrow> load_identity_text d md ops robot_id s = Some (Inr (Some t), s1) \<Longrightarrow>
       ident = [text_system t]" by (rule inject_memory_cases) blast
  note b = assemble_bound [OF assms(1) a]
  have "take 1 out = [text_system t]" if "stored_identity d md store robot_id s = Some t" for t
  proof -
    from that obtain ops s1 where "store = Some ops" "load_identity_text d md ops robot_id s = Some (Inr (Some t), s1)"
      by (auto simp: stored_identity_def split: option.splits sum.splits)
    from i [OF this(1) assms(3) this(2)] b show ?thesis by simp
  qed
  with b mo show ?thesis by (auto simp: grounded_def split: option.splits intro!: exI [of _ out])
qed

lemma trust_layer_grounded:
  assumes "additive d" and "vision_trust_hook trust (memory_layer d md robot_id cfg store) st s = Some (Inr (u, mo), s')" and "hk_identity cfg"
  shows "\<exists>out. mo = Some out \<and> grounded d cfg (stored_identity d md store robot_id s) [text_system trust] out"
proof -
  from assms(2) obtain v mo' s1 where run: "memory_layer d md robot_id cfg store st s = Some (Inr (v, mo'), s1)"
    and mo: "mo = Some (insert_after_leading_system_messages (case mo' of Some ms \<Rightarrow> ms | None \<Rightarrow> messages st) (text_system trust))"
    by (auto simp: vision_trust_hook_def elim!: bind_okE)
  from memory_layer_grounded [OF assms(1) run assms(3)] obtain out where o: "mo' = Some out"
    "grounded d cfg (stored_identity d md store robot_id s) [] out" by blast
  from grounded_insert [OF o(2), of "text_system trust"] mo o(1) show ?thesis by simp
qed

text \<open>The warnings of the monitor.\<close>

definition warnings :: "metacog_texts \<Rightarrow> metacog_policy option \<Rightarrow> message list set" where
  "warnings tx mp =
     (case mp of
        None \<Rightarrow> {[]}
      | Some p \<Rightarrow> insert [] (if on_breach p = escalate then {}
                           else {[text_system (warn_text tx (loop_reason tx))], [text_system (warn_text tx (budget_reason tx))]}))"

lemma call_inner_returned:
  "call_inner inner st (mc, sp, s) = Some (Returned u, w') \<Longrightarrow> \<exists>s'. inner st s = Some (Inr u, s') \<and> w' = (mc, sp, s')"
  by (auto simp: call_inner_def split: option.splits prod.splits sum.splits)

lemma call_inner_not_suspended: "call_inner inner st v \<noteq> Some (Suspended r, w')"
  by (auto simp: call_inner_def split: option.splits prod.splits sum.splits)

lemma monitor_hook_returned:
  assumes "monitor_hook tx p inner st (mc, sp, s) = Some (Returned u, w')"
  shows "\<exists>u0 s'. inner st s = Some (Inr u0, s') \<and>
     (u = u0 \<or> (on_breach p \<noteq> escalate \<and> (\<exists>r \<in> {loop_reason tx, budget_reason tx}. u = warn_update tx r (messages st) u0)))"
proof -
  obtain u1 u2 where u: "u = (u1, u2)" by (cases u)
  show ?thesis
    using assms unfolding u
    by (auto simp: monitor_hook_def Let_def dest!: call_inner_returned split: if_splits option.splits prod.splits outcome.splits)
qed

lemma monitor_hook_suspended:
  assumes "monitor_hook tx p inner st w = Some (Suspended r, w')"
  shows "on_breach p = escalate"
proof (rule ccontr)
  obtain mc sp s where w: "w = (mc, sp, s)" by (cases w)
  assume "on_breach p \<noteq> escalate"
  with assms call_inner_not_suspended [of inner st _ r w'] show False
    by (auto simp: monitor_hook_def w Let_def split: if_splits option.splits prod.splits outcome.splits)
qed

definition trust_blocks :: "bool \<Rightarrow> string \<Rightarrow> message list" where
  "trust_blocks vision trust = (if vision then [text_system trust] else [])"

text \<open>What the hook of a built agent hands on before each call of its model.\<close>

lemma built_agent_hook_output:
  assumes "additive d" and "build_robot_agent fallback p = Inr ag"
    and "agent_hook d md tx trust (ga_robot_id p) ag st (mc, sp, s) = Some (res, w')"
  shows "case res of
       Returned (u, mo) \<Rightarrow> (\<exists>out. \<exists>ws \<in> warnings tx (ga_metacog p). mo = Some out \<and>
         grounded d (layer_memory (agent_layers ag)) (stored_identity d md (ga_store p) (ga_robot_id p) s)
           (trust_blocks (ga_vlm p \<noteq> None) trust @ ws) out \<and>
         int (tok d out) \<le> hook_limit (layer_memory (agent_layers ag)) + int (tok d (trust_blocks (ga_vlm p \<noteq> None) trust @ ws)))
     | Suspended r \<Rightarrow> ga_checkpointer p
     | Raised x \<Rightarrow> True"
proof -
  let ?cfg = "layer_memory (agent_layers ag)"
  let ?mem = "memory_layer d md (ga_robot_id p) ?cfg (ga_store p)"
  let ?seen = "if ga_vlm p \<noteq> None then vision_trust_hook trust ?mem else ?mem"
  let ?ident = "stored_identity d md (ga_store p) (ga_robot_id p) s"
  have ag: "agent_layers ag = layers_of fallback p" "agent_store ag = ga_store p" and fine: "\<not> parts_refused p"
    using assms(2) by (auto simp: build_robot_agent_def split: sum.splits option.splits if_splits)
  have lv: "layer_vision (agent_layers ag) = (ga_vlm p \<noteq> None)" "layer_monitor (agent_layers ag) = ga_metacog p"
    by (simp_all add: ag layers_of_def)
  have cfg: "hk_identity ?cfg" by (simp add: ag layers_of_def)
  have run: "(case ga_metacog p of None \<Rightarrow> call_inner ?seen st (mc, sp, s) | Some m \<Rightarrow> monitor_hook tx m ?seen st (mc, sp, s)) = Some (res, w')"
    using assms(3) unfolding agent_hook_def Let_def ag(2) lv .
  have inner: "\<exists>out. mo = Some out \<and> grounded d ?cfg ?ident (trust_blocks (ga_vlm p \<noteq> None) trust) out"
    if "?seen st s = Some (Inr (u, mo), s')" for u mo s'
    using that memory_layer_grounded [OF assms(1) _ cfg] trust_layer_grounded [OF assms(1) _ cfg]
    by (auto simp: trust_blocks_def split: if_splits)
  show ?thesis
  proof (cases res)
    case (Raised x)
    then show ?thesis by simp
  next
    case (Suspended r)
    with run call_inner_not_suspended [of ?seen st "(mc, sp, s)" r w'] obtain m where m: "ga_metacog p = Some m"
      "monitor_hook tx m ?seen st (mc, sp, s) = Some (Suspended r, w')" by (auto split: option.splits)
    from monitor_hook_suspended [OF m(2)] fine m(1) Suspended show ?thesis by (auto simp: parts_refused_def)
  next
    case (Returned um)
    obtain u mo where um: "um = (u, mo)" by (cases um)
    have "\<exists>out. \<exists>ws \<in> warnings tx (ga_metacog p). mo = Some out \<and> grounded d ?cfg ?ident (trust_blocks (ga_vlm p \<noteq> None) trust @ ws) out"
    proof (cases "ga_metacog p")
      case None
      with run Returned um obtain s' where "?seen st s = Some (Inr (u, mo), s')" by (auto dest: call_inner_returned)
      from inner [OF this] show ?thesis using None by (auto simp: warnings_def)
    next
      case (Some m)
      with run Returned have "monitor_hook tx m ?seen st (mc, sp, s) = Some (Returned um, w')" by simp
      from monitor_hook_returned [OF this] obtain u0 mo0 s' where i: "?seen st s = Some (Inr (u0, mo0), s')"
        and u: "um = (u0, mo0) \<or> (on_breach m \<noteq> escalate \<and> (\<exists>r \<in> {loop_reason tx, budget_reason tx}. um = warn_update tx r (messages st) (u0, mo0)))"
        by (metis surj_pair)
      from inner [OF i] obtain out where out: "mo0 = Some out" "grounded d ?cfg ?ident (trust_blocks (ga_vlm p \<noteq> None) trust) out" by blast
      from u show ?thesis
      proof
        assume "um = (u0, mo0)"
        with out um Some show ?thesis by (intro exI [of _ out] bexI [of _ "[]"]) (auto simp: warnings_def)
      next
        assume "on_breach m \<noteq> escalate \<and> (\<exists>r \<in> {loop_reason tx, budget_reason tx}. um = warn_update tx r (messages st) (u0, mo0))"
        then obtain r where r: "on_breach m \<noteq> escalate" "r \<in> {loop_reason tx, budget_reason tx}" "um = warn_update tx r (messages st) (u0, mo0)" by blast
        have "mo = Some (insert_after_leading_system_messages out (text_system (warn_text tx r)))"
          using r(3) um out(1) by (simp add: warn_update_def)
        moreover have "[text_system (warn_text tx r)] \<in> warnings tx (ga_metacog p)" using r(1,2) Some by (auto simp: warnings_def)
        ultimately show ?thesis using grounded_insert [OF out(2)] by blast
      qed
    qed
    then show ?thesis using grounded_tok [OF assms(1)] Returned um by fastforce
  qed
qed

definition demo_parts :: "(memory_store, unit, unit) agent_parts" where
  "demo_parts = \<lparr>ga_robot_id = default_robot_id, ga_effectors = None, ga_checkpointer = True, ga_store = None, ga_kinds = [],
     ga_safety = None, ga_metacog = Some \<lparr>max_repeats = None, max_steps = None, on_breach = escalate\<rparr>, ga_vlm = Some (), ga_source = Some (),
     ga_model = (\<lambda>n s i. Inl RuntimeError), ga_context_model = None, ga_context_policy = Some Context.demo_policy, ga_extra_tools = []\<rparr>"

definition demo_metacog_texts :: metacog_texts where
  "demo_metacog_texts = \<lparr>loop_reason = ''loop'', budget_reason = ''budget'', warn_text = id, mc_digits = (\<lambda>q. [])\<rparr>"

end
