(* ===== verification/Spec2Isabelle.thy ===== *)
theory Spec2Isabelle
  imports Pregel Saver Run Retry React Successors Lifecycle RunStream Service Llm Agent
begin

text \<open>
  A verification development of the embedded robot agent and of the parts of LangGraph it vendors.

  \<^bold>\<open>The program.\<close> A resident loop (\<open>robot_agent/driver\<close>) takes events from a priority inbox and calls a
  compiled graph once per event, or once per goal when it is idle. The graph's model node is fed by hooks:
  long-term memory and identity (\<open>memory.py\<close>), the compressed conversation (\<open>context.py\<close>), and the
  monitor that pauses on loops and spent budgets (\<open>metacog\<close>). Its tools (\<open>tools.py\<close>, \<open>skills\<close>) send
  commands to actuators after the governance check (\<open>governance/policy.py\<close>) and the safety gate
  (\<open>safety.py\<close>), which may suspend the run by \<open>interrupt()\<close>. Below it LangGraph runs supersteps
  (\<open>pregel/_algo.py\<close>) over channels, reduces messages (\<open>graph/message.py\<close>), saves checkpoints
  (\<open>checkpoint/memory\<close>) and keeps a key-value store (\<open>store/memory\<close>), from which memory, goals,
  episodes and skills are read and which is compacted by \<open>governance/compaction.py\<close>.

  \<^bold>\<open>Reading the model.\<close> Python values are \<open>pyval\<close> (unbounded integers, exact floats with NaN and the
  infinities, 8-bit strings, dicts as association lists in insertion order). An operation that may
  raise returns \<open>'a result\<close>, \<open>Inl\<close> the exception; a stateful one also the new state, or is a \<open>proc\<close> over a
  state (theory Procs). A node that may suspend returns an \<open>outcome\<close>. Code outside the repository (the
  language model, the token counter, \<open>trim_messages\<close>, str() and format of values, clocks, digests) is
  an argument of the definitions; what a theorem needs of it is a named premise. Texts shown to
  people are constructors or parameters. Asynchronous code is the sequence of its steps.

  \<^bold>\<open>Theories\<close>, each named after its part and in the order of the imports:
  \<^item> Prelude, Procs, Text: dictionaries, values, exceptions, stateful programs, strings and JSON.
  \<^item> Governance, Safety, Interrupts, Tools: the path of a command to an actuator. The audit log has
    one verdict per call, quotas hold over any session, a dangerous command runs only on the boolean
    True, and no actuator ever gets more commands than the log allows.
  \<^item> Messages, Context: reducing messages and keeping the conversation in its limits: what a merge
    holds, the indexed reducer against its plain specification, atomic groups, the split that never
    archives the current turn, the hard limit for any model and any trimmer.
  \<^item> Channels, Pregel: every channel class against checkpoint and restore (a simulation), a superstep
    that does not depend on the order of its tasks, versions that only grow, the choice of the next
    nodes against the scan of all nodes, interrupts that replay.
  \<^item> Store, Memory, Compaction: the store behind the contract \<open>base_store\<close> (a locale, interpreted on
    the in-memory store), the blocks put before the model, and compaction proved against the contract.
  \<^item> Saver: the checkpoint saver: reading back, first write wins, deletion of a thread, the latest
    checkpoint, and the two walks that rebuild a delta channel, which always end
    and find the same writes.
  \<^item> Loop, Run, Retry: the run around the superstep (\<open>pregel/_loop.py\<close>, \<open>_runner.py\<close>, \<open>_retry.py\<close>,
    \<open>_io.py\<close>, \<open>main.py\<close>): the writes of tasks put and taken up again after an interruption, entering a
    run, ticks and breakpoints, the saved checkpoints with the counters of delta channels, the loop and
    how it ends, one task under its retry and timeout policies.
  \<^item> Graph, Successors: the builder (\<open>graph/state.py\<close>, \<open>_branch.py\<close>, \<open>pregel/_validate.py\<close>): schemas as channels,
    nodes, edges, joins and branches, validation, compilation to triggers and writers, and what a finished
    node writes. No declared target dangles, and the nodes that run next are the successors in the declared graph.
  \<^item> ToolNode: the prebuilt tool node (\<open>prebuilt/tool_node.py\<close>): arguments the model cannot forge, what becomes
    of a failing tool, every call answered in order, commands combined.
  \<^item> React: the prebuilt agent (\<open>prebuilt/chat_agent_executor.py\<close>), built with the operations of Graph: its graph
    compiles in every configuration, its routers keep to their declared paths, the history stays valid through
    the tools, and no tool is called when the steps run out.
  \<^item> Streams, Lifecycle: the streaming library (\<open>stream/stream_channel.py\<close>, \<open>_mux.py\<close>, \<open>transformers.py\<close>): channels,
    cursors and fan-out, the mux that runs events through transformers, the built-in transformers. The main
    log is totally ordered, the end of a run reaches every consumer, every started subgraph ends once.
  \<^item> RunStream: the run around the mux (\<open>stream/run_stream.py\<close>): its pump on both lanes, the output, and the projections
    interleaved in the order of their pushes.
  \<^item> Vision: images for the model (\<open>vision\<close>): what an image input may name, base64, resizing, the
    bounded source of frames, the tool that asks a vision model, and the trust hook.
  \<^item> Driver, Goals, Reflect, Metacog, Service, Llm: the resident loop and what hangs on it: the inbox
    as a priority queue, threads that are paused exactly while they wait for a resume, goals that are
    taken up again, distillation, loop detection, escalation, subscriptions, environment files,
    retries.
  \<^item> Agent: \<open>build_robot_agent\<close>: the combinations it refuses, its tools, the composed hook. What its model reads, through
    the model node of React, is stated in this theory.

  \<^bold>\<open>Bounds.\<close> Loops whose end depends on data are \<open>partial_function (option)\<close> (the walks of the saver,
  the paginated reads), and their end is a theorem. The superstep loop is a \<open>function\<close> that ends by
  the steps left to the recursion limit, its attempts by the attempts left. Nothing is cut by a fuel.

  \<^bold>\<open>Not modelled.\<close> Running of Send tasks, subgraphs and error handlers, the functional API,
  serialisation formats, SQLite back ends, HTTP and channel front ends: scheduling by threads, I/O,
  SQL or reflection make up most of them. PROJECT.json lists every part with its state.
\<close>

section \<open>What the model of the built agent reads\<close>

text \<open>\<open>build_robot_agent\<close> gives its hook to \<open>create_react_agent\<close>, with no prompt: the model node reads the hook's
  \<open>llm_input_messages\<close>, or the messages of the state where the hook left an empty list.\<close>

definition model_reads :: "message list option \<Rightarrow> chat_state \<Rightarrow> message list option result" where
  "model_reads llm_input cs = and_then (model_input_state True (cs\<lparr>as_llm_input := llm_input\<rparr>)) (prompt_input NoPrompt)"

lemma model_reads_nonempty: "model_reads (Some (m # ms)) cs = and_then (validate_chat_history (m # ms)) (\<lambda>_. Inr (Some (m # ms)))"
  by (simp add: model_reads_def model_input_state_def prompt_input_def and_then_def split: sum.split)

lemma model_reads_empty:
  "model_reads (Some []) cs =
     (case as_messages cs of None \<Rightarrow> Inl ValueError | Some hist \<Rightarrow> and_then (validate_chat_history hist) (\<lambda>_. Inr (Some hist)))"
  by (simp add: model_reads_def model_input_state_def prompt_input_def and_then_def split: option.split sum.split)

lemma grounded_empty:
  assumes "grounded d cfg ident blocks []"
  shows "ident = None \<and> blocks = []"
  using assms by (auto simp: grounded_def split: option.splits)

text \<open>C4. What the model of a built agent reads, through the hook and the model node, for a token counter that adds up over messages: whatever the store, the
  history, the summary model, the trimmer and the conversation do, the call either fails by a ValueError (calls without
  answers, no messages) or reads an input within the hard limit, plus the vision policy when a vision model is configured, plus at most one
  warning of the monitor, and a stored identity stays its first message. The one exception: where the trimming leaves nothing and
  there is no identity, no vision policy and no warning, the hook's input is empty and the model reads the untrimmed messages of
  the state. The run is paused by the hook only if the agent was built with a checkpointer.\<close>

theorem built_agent_model_input:
  assumes "additive d" and "build_robot_agent fallback p = Inr ag"
    and "agent_hook d md tx trust (ga_robot_id p) ag st (mc, sp, s) = Some (res, w')"
  shows "case res of
       outcome.Returned (u, mo) \<Rightarrow>
         model_reads mo cs = Inl ValueError \<or>
         (\<exists>seen. model_reads mo cs = Inr (Some seen) \<and> validate_chat_history seen = Inr () \<and>
           ((\<exists>ws \<in> warnings tx (ga_metacog p).
               grounded d (layer_memory (agent_layers ag)) (stored_identity d md (ga_store p) (ga_robot_id p) s)
                 (trust_blocks (ga_vlm p \<noteq> None) trust @ ws) seen \<and>
               int (tok d seen) \<le> hook_limit (layer_memory (agent_layers ag)) + int (tok d (trust_blocks (ga_vlm p \<noteq> None) trust @ ws))) \<or>
            (mo = Some [] \<and> as_messages cs = Some seen \<and>
               stored_identity d md (ga_store p) (ga_robot_id p) s = None \<and> ga_vlm p = None)))
     | outcome.Suspended r \<Rightarrow> ga_checkpointer p
     | outcome.Raised x \<Rightarrow> True"
proof (cases res)
  case (Returned um)
  obtain u mo where um: "um = (u, mo)" by (cases um)
  from built_agent_hook_output [OF assms] Returned um obtain out ws where out: "ws \<in> warnings tx (ga_metacog p)" "mo = Some out"
    "grounded d (layer_memory (agent_layers ag)) (stored_identity d md (ga_store p) (ga_robot_id p) s) (trust_blocks (ga_vlm p \<noteq> None) trust @ ws) out"
    "int (tok d out) \<le> hook_limit (layer_memory (agent_layers ag)) + int (tok d (trust_blocks (ga_vlm p \<noteq> None) trust @ ws))"
    by auto
  show ?thesis
  proof (cases out)
    case Nil
    with grounded_empty out(3) have "stored_identity d md (ga_store p) (ga_robot_id p) s = None" "ga_vlm p = None"
      by (auto simp: trust_blocks_def split: if_splits)
    with Nil out(2) Returned um show ?thesis
      by (auto simp: model_reads_empty and_then_def validate_chat_history_def split: option.splits)
  next
    case (Cons m ms)
    with out Returned um show ?thesis
      by (auto simp: model_reads_nonempty and_then_def validate_chat_history_def)
  qed
qed (use built_agent_hook_output [OF assms] in simp_all)

theorem built_agent_model_input_witness:
  "\<exists>ag u w' cs. build_robot_agent default_policy demo_parts = Inr ag \<and>
     agent_hook Context.demo_deps demo_memory_deps demo_metacog_texts ''trust'' default_robot_id ag (Context.demo_state []) (fresh_metacog, fresh_scratchpad, empty_store)
       = Some (outcome.Returned (u, Some [text_system ''trust'']), w') \<and>
     (\<exists>seen. model_reads (Some [text_system ''trust'']) cs = Inr (Some seen) \<and>
        grounded Context.demo_deps (layer_memory (agent_layers ag)) None [text_system ''trust''] seen)"
proof -
  let ?cs = "\<lparr>as_messages = Some [], as_llm_input = None, as_remaining = None\<rparr>"
  have add: "additive Context.demo_deps" by (simp add: additive_def Context.demo_deps_def)
  obtain ag where b: "build_robot_agent default_policy demo_parts = Inr ag"
    by (simp add: build_robot_agent_def demo_parts_def build_effectors_def parts_refused_def)
  have ag: "agent_layers ag = layers_of default_policy demo_parts" "agent_store ag = None"
    using b by (auto simp: build_robot_agent_def demo_parts_def build_effectors_def parts_refused_def)
  have "\<exists>u. assemble Context.demo_deps (layer_memory (layers_of default_policy demo_parts)) (Context.demo_state []) [] [] = Inr (u, [])"
    by (simp add: assemble_def layers_of_def demo_parts_def prepare_context_def Context.demo_state_def inject_summary_def leading_system_def
        trim_llm_input_messages_def Context.demo_deps_def Context.demo_policy_def strip_def lstrip_def rstrip_def hook_limit_def effective_watermark_def)
  then obtain u where a: "assemble Context.demo_deps (layer_memory (layers_of default_policy demo_parts)) (Context.demo_state []) [] [] = Inr (u, [])" ..
  have run: "agent_hook Context.demo_deps demo_memory_deps demo_metacog_texts ''trust'' (ga_robot_id demo_parts) ag (Context.demo_state [])
      (fresh_metacog, fresh_scratchpad, empty_store) = Some (outcome.Returned (u, Some [text_system ''trust'']), (fresh_metacog, fresh_scratchpad, empty_store))"
    unfolding agent_hook_def ag Let_def
    by (simp add: layers_of_def demo_parts_def monitor_hook_def detect_loop_def over_budget_def call_inner_def vision_trust_hook_def
        memory_layer_def inject_memory_def a [unfolded layers_of_def demo_parts_def, simplified] insert_after_leading_system_messages_def leading_system_def)
  have vlm: "ga_vlm demo_parts \<noteq> None" "ga_store demo_parts = None" "ga_robot_id demo_parts = default_robot_id"
    "warnings demo_metacog_texts (ga_metacog demo_parts) = {[]}" by (simp_all add: demo_parts_def warnings_def)
  have "model_reads (Some [text_system ''trust'']) ?cs = Inr (Some [text_system ''trust''])"
    by (simp add: model_reads_nonempty and_then_def validate_chat_history_def calls_of_history_def text_system_def)
  with built_agent_model_input [OF add b run, of ?cs] have "\<exists>seen. model_reads (Some [text_system ''trust'']) ?cs = Inr (Some seen) \<and>
      grounded Context.demo_deps (layer_memory (agent_layers ag)) None [text_system ''trust''] seen"
    by (auto simp: vlm trust_blocks_def stored_identity_def)
  with b run show ?thesis by (metis vlm(3))
qed

text \<open>The exception happens: one message of four tokens under a hard limit of three. Nothing is left of it in the hook's input, so
  the model reads it whole.\<close>

definition blind_parts :: "(memory_store, unit, unit) agent_parts" where
  "blind_parts = demo_parts\<lparr>ga_vlm := None, ga_source := None, ga_metacog := None\<rparr>"

definition four_token_deps :: context_deps where
  "four_token_deps = Context.demo_deps\<lparr>tok := \<lambda>ms. 4 * length ms\<rparr>"

lemma oversized_message_read_whole:
  defines "long \<equiv> plain_message HumanRole ''1'' ''a''"
  shows "\<exists>ag u w'. build_robot_agent default_policy blind_parts = Inr ag \<and> hook_limit (layer_memory (agent_layers ag)) = 3 \<and>
     agent_hook four_token_deps demo_memory_deps demo_metacog_texts [] default_robot_id ag (Context.demo_state [long]) (fresh_metacog, fresh_scratchpad, empty_store)
       = Some (outcome.Returned (u, Some []), w') \<and>
     model_reads (Some []) \<lparr>as_messages = Some [long], as_llm_input = None, as_remaining = None\<rparr> = Inr (Some [long]) \<and> tok four_token_deps [long] = 4"
proof -
  obtain ag where b: "build_robot_agent default_policy blind_parts = Inr ag"
    by (simp add: build_robot_agent_def blind_parts_def demo_parts_def build_effectors_def parts_refused_def)
  have ag: "agent_layers ag = layers_of default_policy blind_parts" "agent_store ag = None"
    using b by (auto simp: build_robot_agent_def blind_parts_def demo_parts_def build_effectors_def parts_refused_def)
  have "\<exists>u. assemble four_token_deps (layer_memory (layers_of default_policy blind_parts)) (Context.demo_state [long]) [] [] = Inr (u, [])"
    by (simp add: assemble_def layers_of_def blind_parts_def demo_parts_def prepare_context_def Context.demo_state_def inject_summary_def leading_system_def
        trim_llm_input_messages_def four_token_deps_def Context.demo_deps_def Context.demo_policy_def strip_def lstrip_def rstrip_def hook_limit_def
        effective_watermark_def long_def plain_message_def split_old_and_recent_def hard_window_def with_update_def atomic_tail_def)
  then obtain u where a: "assemble four_token_deps (layer_memory (layers_of default_policy blind_parts)) (Context.demo_state [long]) [] [] = Inr (u, [])" ..
  have run: "agent_hook four_token_deps demo_memory_deps demo_metacog_texts [] default_robot_id ag (Context.demo_state [long])
      (fresh_metacog, fresh_scratchpad, empty_store) = Some (outcome.Returned (u, Some []), (fresh_metacog, fresh_scratchpad, empty_store))"
    unfolding agent_hook_def ag Let_def
    using a by (simp add: layers_of_def blind_parts_def demo_parts_def call_inner_def memory_layer_def inject_memory_def)
  have "hook_limit (layer_memory (agent_layers ag)) = 3"
    by (simp add: ag hook_limit_def layers_of_def blind_parts_def demo_parts_def Context.demo_policy_def)
  moreover have "model_reads (Some []) \<lparr>as_messages = Some [long], as_llm_input = None, as_remaining = None\<rparr> = Inr (Some [long])"
    by (simp add: model_reads_empty and_then_def validate_chat_history_def calls_of_history_def long_def plain_message_def)
  ultimately show ?thesis using b run by (auto simp: four_token_deps_def)
qed

end
